(* ===== verification/Prelude.thy ===== *)
theory Prelude
  imports Main "HOL-Library.Word"
begin

text \<open>
  Shared vocabulary of the development: the machine's integer types, byte-addressed memory with
  the little-endian 32-bit accesses of the x86, the outcome of a kernel routine (it returns, it
  panics, it switches to the CPU's scheduler, or it spins on a lock), and the first-match search that the kernel's
  table scans perform.  The named collections \<open>kern\<close> and \<open>mem_simps\<close> carry the automation of the
  component theories.
\<close>

unbundle bit_operations_syntax

named_theorems kern \<open>symbolic execution of kernel routines\<close>
named_theorems mem_simps \<open>reads after writes on byte-addressed memory\<close>

section \<open>Machine types\<close>

type_synonym u8 = "8 word"
type_synonym u16 = "16 word"
type_synonym u32 = "32 word"

text \<open>Byte-addressed memory of the 32-bit machine.\<close>

type_synonym memory = "u32 \<Rightarrow> u8"

section \<open>Outcomes of kernel routines\<close>

text \<open>
  A routine started in state \<open>s\<close> returns a value and a new state, panics with a message (the CPU
  stays in the \<^verbatim>\<open>for(;;)\<close> loop of \<^verbatim>\<open>panic\<close>), gives the CPU up through \<^verbatim>\<open>swtch\<close> in
  \<^verbatim>\<open>sched\<close>, in which case the state is the one the scheduler sees, or spins in \<^verbatim>\<open>acquire\<close> on a lock
  that another CPU holds.
\<close>

datatype ('a, 's) kres = Ok 'a 's | Panic string 's | Swtch 's | Spin 's

fun andthen :: "('a, 's) kres \<Rightarrow> ('a \<Rightarrow> 's \<Rightarrow> ('b, 's) kres) \<Rightarrow> ('b, 's) kres" where
  "andthen (Ok a s) f = f a s"
| "andthen (Panic e s) f = Panic e s"
| "andthen (Swtch s) f = Swtch s"
| "andthen (Spin s) f = Spin s"

text \<open>A guard that panics with the given message when its condition fails.\<close>

definition panic_unless :: "bool \<Rightarrow> string \<Rightarrow> 's \<Rightarrow> (unit, 's) kres" where
  "panic_unless b msg s = (if b then Ok () s else Panic msg s)"

lemma andthen_cong [fundef_cong]:
  assumes "r = r'" and "\<And>a s. r' = Ok a s \<Longrightarrow> f a s = g a s"
  shows "andthen r f = andthen r' g"
  using assms by (cases r') auto

lemma andthen_eq_Ok_iff [kern]:
  "andthen r f = Ok b t \<longleftrightarrow> (\<exists>a s. r = Ok a s \<and> f a s = Ok b t)"
  by (cases r) auto

lemma andthen_eq_Panic_iff:
  "andthen r f = Panic e t \<longleftrightarrow> r = Panic e t \<or> (\<exists>a s. r = Ok a s \<and> f a s = Panic e t)"
  by (cases r) auto

lemma andthen_eq_Swtch_iff:
  "andthen r f = Swtch t \<longleftrightarrow> r = Swtch t \<or> (\<exists>a s. r = Ok a s \<and> f a s = Swtch t)"
  by (cases r) auto

lemma andthen_assoc: "andthen (andthen r f) g = andthen r (\<lambda>a s. andthen (f a s) g)"
  by (cases r) auto

text \<open>
  Loops that may not end return an option: \<open>None\<close> is a loop that runs forever.  \<open>andthen_opt\<close>
  continues such a loop after a routine; \<open>or_spin\<close> embeds its outcome, where a loop that does not
  end keeps the CPU.
\<close>

definition andthen_opt :: "('a, 's) kres \<Rightarrow> ('a \<Rightarrow> 's \<Rightarrow> ('b, 's) kres option) \<Rightarrow> ('b, 's) kres option" where
  "andthen_opt r f = (case r of Ok a s \<Rightarrow> f a s | Panic e s \<Rightarrow> Some (Panic e s)
     | Swtch s \<Rightarrow> Some (Swtch s) | Spin s \<Rightarrow> Some (Spin s))"

definition or_spin :: "('a, 's) kres option \<Rightarrow> 's \<Rightarrow> ('a, 's) kres" where
  "or_spin r s = (case r of None \<Rightarrow> Spin s | Some x \<Rightarrow> x)"

lemma andthen_opt_mono [partial_function_mono]:
  assumes "\<And>a s. mono_option (\<lambda>f. B f a s)"
  shows "mono_option (\<lambda>f. andthen_opt r (\<lambda>a s. B f a s))"
  using assms by (cases r) (auto simp: monotone_def andthen_opt_def flat_ord_def)

lemma andthen_opt_simps [simp]:
  "andthen_opt (Ok a s) f = f a s" "andthen_opt (Panic e s) f = Some (Panic e s)"
  "andthen_opt (Swtch s) f = Some (Swtch s)" "andthen_opt (Spin s) f = Some (Spin s)"
  by (simp_all add: andthen_opt_def)

lemma or_spin_simps [simp]: "or_spin None s = Spin s" "or_spin (Some x) s = x"
  by (simp_all add: or_spin_def)

lemma panic_unless_True [simp, kern]: "panic_unless True m s = Ok () s"
  by (simp add: panic_unless_def)

lemma panic_unless_False [simp, kern]: "panic_unless False m s = Panic m s"
  by (simp add: panic_unless_def)

lemma panic_unless_eq_Ok [simp, kern]: "panic_unless b m s = Ok u t \<longleftrightarrow> b \<and> t = s"
  by (auto simp: panic_unless_def)

text \<open>The state a routine ends in, whichever way it ends.\<close>

primrec kstate :: "('a, 's) kres \<Rightarrow> 's" where
  "kstate (Ok a s) = s"
| "kstate (Panic e s) = s"
| "kstate (Swtch s) = s"
| "kstate (Spin s) = s"

section \<open>Frames\<close>

text \<open>
  An observation \<open>h\<close> of the state that a routine leaves alone, whichever way it ends.
\<close>

lemma frame_andthen:
  assumes "h (kstate r) = h s" "\<And>a t. r = Ok a t \<Longrightarrow> h t = h s \<Longrightarrow> h (kstate (f a t)) = h s"
  shows "h (kstate (andthen r f)) = h s"
  using assms by (cases r) auto

lemma frame_andthen_opt:
  assumes "andthen_opt r f = Some x" "h (kstate r) = h s"
    "\<And>a t. r = Ok a t \<Longrightarrow> h t = h s \<Longrightarrow> f a t = Some x \<Longrightarrow> h (kstate x) = h s"
  shows "h (kstate x) = h s"
  using assms by (cases r) auto

lemma frame_or_spin:
  assumes "\<And>x. r = Some x \<Longrightarrow> h (kstate x) = h s"
  shows "h (kstate (or_spin r s)) = h s"
  using assms by (cases r) auto

section \<open>Table scans\<close>

text \<open>
  \<open>findi P xs\<close> is the index of the first entry satisfying \<open>P\<close>: the result of a loop
  \<^verbatim>\<open>for(p = table; p < &table[N]; p++) if(P(p)) ...\<close> that stops at its first hit.
\<close>

fun findi :: "('a \<Rightarrow> bool) \<Rightarrow> 'a list \<Rightarrow> nat option" where
  "findi P [] = None"
| "findi P (x # xs) = (if P x then Some 0 else map_option Suc (findi P xs))"

lemma findi_map: "findi P (map f xs) = findi (\<lambda>x. P (f x)) xs"
  by (induction xs) auto

lemma findi_None_iff: "findi P xs = None \<longleftrightarrow> (\<forall>x \<in> set xs. \<not> P x)"
  by (induction xs) auto

lemma findi_Some_iff:
  "findi P xs = Some i \<longleftrightarrow> i < length xs \<and> P (xs ! i) \<and> (\<forall>j < i. \<not> P (xs ! j))"
proof (induction xs arbitrary: i)
  case Nil
  then show ?case by simp
next
  case (Cons x xs)
  show ?case
  proof (cases i)
    case 0
    then show ?thesis by auto
  next
    case (Suc k)
    have "(\<forall>j < Suc k. \<not> P ((x # xs) ! j)) \<longleftrightarrow> \<not> P x \<and> (\<forall>j < k. \<not> P (xs ! j))"
      by (auto simp: less_Suc_eq_0_disj)
    with Suc Cons.IH [of k] show ?thesis by auto
  qed
qed

section \<open>Word facts\<close>

lemma unat_u32_less: "unat (x :: u32) < 4294967296"
proof -
  have "unat x < 2 ^ LENGTH(32)" by (rule unsigned_less)
  then show ?thesis by simp
qed

lemma unat_of_nat_u32: "n < 4294967296 \<Longrightarrow> unat (of_nat n :: u32) = n"
  by (simp add: unsigned_of_nat take_bit_nat_eq_self)

lemma uint_inject [simp]: "uint x = uint y \<longleftrightarrow> x = y" for x y :: "'a::len word"
  by (simp add: word_uint_eq_iff)

lemma uint_zero_iff [simp]: "uint x = 0 \<longleftrightarrow> x = 0" for x :: "'a::len word"
  by (simp add: uint_0_iff)

lemma unat_diff_step:
  fixes a d :: u32
  assumes "n < 2 ^ 32"
  shows "unat (a - d) < Suc n \<longleftrightarrow> a = d \<or> (unat (a - (d + 1)) < n)"
proof -
  have "unat (x - 1) = (if x = 0 then 2 ^ 32 - 1 else unat x - 1)" for x :: u32
    by (cases "x = 0") (simp_all add: unat_minus_one unsigned_minus_1_eq_mask mask_eq_exp_minus_1)
  moreover have "a \<noteq> d \<Longrightarrow> 0 < unat (a - d)" by (simp add: unat_gt_0)
  ultimately show ?thesis using assms by (cases "a = d") (auto simp: diff_diff_eq [symmetric])
qed

section \<open>Byte-addressed memory\<close>

text \<open>
  A 32-bit access at \<open>a\<close> touches the four bytes from \<open>a\<close>, least significant first; address
  arithmetic wraps at \<open>2\<^sup>32\<close>, as pointers do.
\<close>

definition load32 :: "memory \<Rightarrow> u32 \<Rightarrow> u32" where
  "load32 m a = ucast (m a) OR push_bit 8 (ucast (m (a + 1)))
     OR push_bit 16 (ucast (m (a + 2))) OR push_bit 24 (ucast (m (a + 3)))"

definition store32 :: "memory \<Rightarrow> u32 \<Rightarrow> u32 \<Rightarrow> memory" where
  "store32 m a v = m(a := ucast v, a + 1 := ucast (drop_bit 8 v),
     a + 2 := ucast (drop_bit 16 v), a + 3 := ucast (drop_bit 24 v))"

definition store16 :: "memory \<Rightarrow> u32 \<Rightarrow> u16 \<Rightarrow> memory" where
  "store16 m a v = m(a := ucast v, a + 1 := ucast (drop_bit 8 v))"

definition load16 :: "memory \<Rightarrow> u32 \<Rightarrow> u16" where
  "load16 m a = ucast (m a) OR push_bit 8 (ucast (m (a + 1)))"

lemma bytes_of_u32:
  fixes v :: u32
  shows "ucast (ucast v :: u8) OR push_bit 8 (ucast (ucast (drop_bit 8 v) :: u8))
    OR push_bit 16 (ucast (ucast (drop_bit 16 v) :: u8))
    OR push_bit 24 (ucast (ucast (drop_bit 24 v) :: u8)) = v" (is "?w = v")
proof (rule bit_word_eqI)
  fix n assume n: "n < LENGTH(32)"
  consider "n < 8" | "8 \<le> n" "n < 16" | "16 \<le> n" "n < 24" | "24 \<le> n" by linarith
  then show "bit ?w n \<longleftrightarrow> bit v n"
    using n by cases (auto simp: bit_simps)
qed

lemma word_add_distinct [simp]:
  fixes a :: u32
  shows "a + 1 \<noteq> a" "a + 2 \<noteq> a" "a + 3 \<noteq> a" "a + 1 \<noteq> a + 2" "a + 1 \<noteq> a + 3" "a + 2 \<noteq> a + 3"
   "a \<noteq> a + 1" "a \<noteq> a + 2" "a \<noteq> a + 3" "a + 2 \<noteq> a + 1" "a + 3 \<noteq> a + 1" "a + 3 \<noteq> a + 2"
  by auto

lemma load32_store32 [mem_simps]: "load32 (store32 m a v) a = v"
  unfolding load32_def store32_def by (simp add: bytes_of_u32)

lemma store32_other [mem_simps]: "4 \<le> b - a \<Longrightarrow> store32 m a v b = m b"
proof -
  assume *: "4 \<le> b - a"
  have "b \<noteq> a" "b \<noteq> a + 1" "b \<noteq> a + 2" "b \<noteq> a + 3" using * by (auto simp: word_le_nat_alt)
  then show ?thesis by (simp add: store32_def)
qed

lemma load32_cong:
  assumes "\<And>i. i < 4 \<Longrightarrow> m (a + i) = m' (a + i)"
  shows "load32 m a = load32 m' a"
  using assms [of 0] assms [of 1] assms [of 2] assms [of 3] by (simp add: load32_def)

lemma load32_store32_other [mem_simps]:
  assumes "4 \<le> b - a" "4 \<le> a - b"
  shows "load32 (store32 m a v) b = load32 m b"
proof (rule load32_cong)
  fix i :: u32 assume "i < 4"
  with assms have "4 \<le> b + i - a" by unat_arith
  then show "store32 m a v (b + i) = m (b + i)" by (rule store32_other)
qed

lemma unat_add_le: "unat (x + y) \<le> unat x + unat y" for x y :: u32
  by (simp add: unat_word_ariths)

lemma of_nat_apart:
  assumes "a + 4 \<le> b \<or> b + 4 \<le> a" "a < 2 ^ 31" "b < 2 ^ 31"
  shows "4 \<le> (of_nat a - of_nat b :: u32)"
proof -
  have u: "unat (of_nat a :: u32) = a" "unat (of_nat b :: u32) = b" using assms(2,3) by (simp_all add: unat_of_nat)
  show ?thesis using assms by (auto simp: word_le_nat_alt unat_sub_if_size u word_size)
qed

lemma sint_of_nat_small: "n < 2 ^ 31 \<Longrightarrow> sint (of_nat n :: u32) = int n"
  by (simp add: signed_of_nat signed_take_bit_int_eq_self)

end
