(* ===== verification/Str.thy ===== *)
theory Str
  imports Prelude
begin

text \<open>
  The kernel's byte and string routines (\<^verbatim>\<open>string.c\<close>), over byte-addressed memory.  The two
  \<^verbatim>\<open>rep stos\<close> instructions that \<^verbatim>\<open>memset\<close> issues (\<^verbatim>\<open>x86.h\<close>) are counted loops.  The lemmas show
  that both paths of \<^verbatim>\<open>memset\<close> fill exactly the range, that \<^verbatim>\<open>memmove\<close> copies correctly for every
  overlap, that \<^verbatim>\<open>safestrcpy\<close> always terminates the string inside the buffer, and what the
  comparisons decide about C strings.
\<close>

section \<open>Definitions\<close>

text \<open>\<^verbatim>\<open>rep stosb\<close>: store the byte \<open>n\<close> times, going up.\<close>

fun stosb :: "memory \<Rightarrow> u32 \<Rightarrow> u8 \<Rightarrow> nat \<Rightarrow> memory" where
  "stosb m d c 0 = m"
| "stosb m d c (Suc n) = stosb (m(d := c)) (d + 1) c n"

text \<open>\<^verbatim>\<open>rep stosl\<close>: store the 32-bit word \<open>n\<close> times.\<close>

fun stosl :: "memory \<Rightarrow> u32 \<Rightarrow> u32 \<Rightarrow> nat \<Rightarrow> memory" where
  "stosl m d v 0 = m"
| "stosl m d v (Suc n) = stosl (store32 m d v) (d + 4) v n"

definition memset :: "memory \<Rightarrow> u32 \<Rightarrow> u32 \<Rightarrow> u32 \<Rightarrow> memory" where
  "memset m dst c n =
     (if dst mod 4 = 0 \<and> n mod 4 = 0
      then let c = c AND 0xFF
           in stosl m dst (push_bit 24 c OR push_bit 16 c OR push_bit 8 c OR c) (unat (n div 4))
      else stosb m dst (ucast c) (unat n))"

fun memcmp :: "memory \<Rightarrow> u32 \<Rightarrow> u32 \<Rightarrow> nat \<Rightarrow> int" where
  "memcmp m s1 s2 0 = 0"
| "memcmp m s1 s2 (Suc n) =
     (if m s1 \<noteq> m s2 then uint (m s1) - uint (m s2) else memcmp m (s1 + 1) (s2 + 1) n)"

text \<open>The two copy loops of \<^verbatim>\<open>memmove\<close>: \<^verbatim>\<open>*--d = *--s\<close> and \<^verbatim>\<open>*d++ = *s++\<close>.\<close>

fun copy_down :: "memory \<Rightarrow> u32 \<Rightarrow> u32 \<Rightarrow> nat \<Rightarrow> memory" where
  "copy_down m d s 0 = m"
| "copy_down m d s (Suc n) = copy_down (m(d - 1 := m (s - 1))) (d - 1) (s - 1) n"

fun copy_up :: "memory \<Rightarrow> u32 \<Rightarrow> u32 \<Rightarrow> nat \<Rightarrow> memory" where
  "copy_up m d s 0 = m"
| "copy_up m d s (Suc n) = copy_up (m(d := m s)) (d + 1) (s + 1) n"

definition memmove :: "memory \<Rightarrow> u32 \<Rightarrow> u32 \<Rightarrow> u32 \<Rightarrow> memory" where
  "memmove m dst src n =
     (if src < dst \<and> src + n > dst then copy_down m (dst + n) (src + n) (unat n)
      else copy_up m dst src (unat n))"

definition memcpy :: "memory \<Rightarrow> u32 \<Rightarrow> u32 \<Rightarrow> u32 \<Rightarrow> memory" where
  "memcpy m dst src n = memmove m dst src n"

fun strncmp :: "memory \<Rightarrow> u32 \<Rightarrow> u32 \<Rightarrow> nat \<Rightarrow> int" where
  "strncmp m p q 0 = 0"
| "strncmp m p q (Suc n) =
     (if m p \<noteq> 0 \<and> m p = m q then strncmp m (p + 1) (q + 1) n
      else uint (m p) - uint (m q))"

text \<open>
  \<^verbatim>\<open>strncpy\<close>: the copying loop stops after \<open>n\<close> bytes or after copying a NUL; in the second case
  the rest of the buffer is zeroed.
\<close>

fun strncpy_loop :: "memory \<Rightarrow> u32 \<Rightarrow> u32 \<Rightarrow> nat \<Rightarrow> memory" where
  "strncpy_loop m s t 0 = m"
| "strncpy_loop m s t (Suc n) =
     (let m' = m(s := m t)
      in if m t \<noteq> 0 then strncpy_loop m' (s + 1) (t + 1) n else stosb m' (s + 1) 0 n)"

definition strncpy :: "memory \<Rightarrow> u32 \<Rightarrow> u32 \<Rightarrow> int \<Rightarrow> memory" where
  "strncpy m s t n = strncpy_loop m s t (nat n)"

fun safestrcpy_loop :: "memory \<Rightarrow> u32 \<Rightarrow> u32 \<Rightarrow> nat \<Rightarrow> memory" where
  "safestrcpy_loop m s t 0 = m(s := 0)"
| "safestrcpy_loop m s t (Suc k) =
     (let m' = m(s := m t)
      in if m t \<noteq> 0 then safestrcpy_loop m' (s + 1) (t + 1) k else m'(s + 1 := 0))"

definition safestrcpy :: "memory \<Rightarrow> u32 \<Rightarrow> u32 \<Rightarrow> int \<Rightarrow> memory" where
  "safestrcpy m s t n = (if n \<le> 0 then m else safestrcpy_loop m s t (nat n - 1))"

text \<open>\<^verbatim>\<open>strlen\<close> does not return when no NUL is found, so its value is optional.\<close>

partial_function (option) strlen_from :: "memory \<Rightarrow> u32 \<Rightarrow> nat \<Rightarrow> nat option" where
  "strlen_from m s n = (if m (s + of_nat n) = 0 then Some n else strlen_from m s (Suc n))"

definition strlen :: "memory \<Rightarrow> u32 \<Rightarrow> nat option" where
  "strlen m s = strlen_from m s 0"

text \<open>The memory holds the NUL-terminated string \<open>xs\<close> at \<open>s\<close>.\<close>

fun cstr_at :: "memory \<Rightarrow> u32 \<Rightarrow> u8 list \<Rightarrow> bool" where
  "cstr_at m s [] = (m s = 0)"
| "cstr_at m s (x # xs) = (x \<noteq> 0 \<and> m s = x \<and> cstr_at m (s + 1) xs)"

section \<open>Filling\<close>

lemma stosb_fill:
  "n \<le> 2 ^ 32 \<Longrightarrow> stosb m d c n = (\<lambda>a. if unat (a - d) < n then c else m a)"
proof (induction n arbitrary: m d)
  case 0
  then show ?case by simp
next
  case (Suc n)
  show ?case
  proof
    fix a
    have "stosb m d c (Suc n) a = (if unat (a - (d + 1)) < n then c else (m(d := c)) a)"
      using Suc.IH [of "m(d := c)" "d + 1"] Suc.prems by (simp del: fun_upd_apply)
    with Suc.prems show "stosb m d c (Suc n) a = (if unat (a - d) < Suc n then c else m a)"
      by (simp add: unat_diff_step)
  qed
qed

lemma stosb_add: "stosb m d c (k + n) = stosb (stosb m d c k) (d + of_nat k) c n"
  by (induction k arbitrary: m d) (simp_all add: add.assoc)

lemma rep8_bytes:
  fixes c :: u32
  defines "v \<equiv> push_bit 24 (c AND 0xFF) OR push_bit 16 (c AND 0xFF) OR push_bit 8 (c AND 0xFF) OR (c AND 0xFF)"
  shows "ucast v = (ucast c :: u8)" "ucast (drop_bit 8 v) = (ucast c :: u8)"
    "ucast (drop_bit 16 v) = (ucast c :: u8)" "ucast (drop_bit 24 v) = (ucast c :: u8)"
proof -
  have m: "c AND 0xFF = take_bit 8 c" by (simp add: take_bit_eq_mask mask_eq_exp_minus_1)
  show "ucast v = (ucast c :: u8)" "ucast (drop_bit 8 v) = (ucast c :: u8)"
    "ucast (drop_bit 16 v) = (ucast c :: u8)" "ucast (drop_bit 24 v) = (ucast c :: u8)"
    unfolding v_def m by (auto intro!: bit_word_eqI simp: bit_simps)
qed

lemma stosl_stosb:
  assumes "ucast v = c" "ucast (drop_bit 8 v) = c" "ucast (drop_bit 16 v) = c" "ucast (drop_bit 24 v) = c"
  shows "stosl m d v n = stosb m d c (4 * n)"
proof (induction n arbitrary: m d)
  case (Suc n)
  have "stosb m d c 4 = store32 m d v"
    using assms by (simp add: numeral_eq_Suc store32_def add.assoc)
  then show ?case using Suc.IH stosb_add [of m d c 4 "4 * n"] by simp
qed simp

lemma memset_eq:
  "memset m dst c n = (\<lambda>a. if a - dst < n then ucast c else m a)"
proof -
  have n: "unat n \<le> 2 ^ 32" using unat_u32_less [of n] by simp
  have "memset m dst c n = stosb m dst (ucast c) (unat n)"
  proof (cases "dst mod 4 = 0 \<and> n mod 4 = 0")
    case True
    have "unat (n mod 4) = unat n mod 4" "unat (n div 4) = unat n div 4"
      by (simp_all add: unat_mod unat_div)
    moreover have "unat (n mod 4) = 0" using True by simp
    ultimately have "4 * unat (n div 4) = unat n" by (metis mult_div_mod_eq add.right_neutral)
    with True show ?thesis
      by (simp only: memset_def Let_def simp_thms if_True stosl_stosb [OF rep8_bytes])
  qed (auto simp: memset_def)
  then show ?thesis by (simp add: stosb_fill [OF n] word_less_nat_alt)
qed

text \<open>
  Whichever store instruction \<^verbatim>\<open>memset\<close> picks for the alignment at hand, it sets exactly the
  \<open>n\<close> bytes from \<open>dst\<close> (modulo the address space) to the low byte of \<open>c\<close>.
\<close>

theorem memset_fill:
  "memset m dst c n = (\<lambda>a. if a - dst < n then ucast c else m a)"
  by (rule memset_eq)



section \<open>Copying\<close>

lemma copy_up_copies:
  assumes "unat s + n \<le> 2 ^ 32" "unat d + n \<le> 2 ^ 32" "\<not> (unat s < unat d \<and> unat d < unat s + n)"
  shows "copy_up m d s n = (\<lambda>a. if unat (a - d) < n then m (s + (a - d)) else m a)"
  using assms
proof (induction n arbitrary: m d s)
  case (Suc n)
  show ?case
  proof (cases "n = 0")
    case True
    then show ?thesis by (auto simp: fun_eq_iff unat_eq_zero)
  next
    case False
    let ?m = "m(d := m s)"
    have s1: "unat (s + 1) = unat s + 1" "unat (d + 1) = unat d + 1"
      using Suc.prems False by (auto simp: unat_word_ariths)
    have ih: "copy_up ?m (d + 1) (s + 1) n = (\<lambda>a. if unat (a - (d + 1)) < n then ?m (s + 1 + (a - (d + 1))) else ?m a)"
      by (rule Suc.IH) (use Suc.prems s1 in auto)
    show ?thesis
    proof
      fix a
      have c: "unat (a - d) < Suc n \<longleftrightarrow> a = d \<or> (unat (a - (d + 1)) < n)"
        using Suc.prems by (intro unat_diff_step) auto
      have ne: "s + (a - d) \<noteq> d" if "a \<noteq> d" "unat (a - (d + 1)) < n"
      proof
        assume e: "s + (a - d) = d"
        have lt: "unat (a - d) < Suc n" using c that by blast
        have "unat (s + (a - d)) = unat s + unat (a - d)"
          using lt Suc.prems by (auto simp: unat_word_ariths)
        then have "unat d = unat s + unat (a - d)" unfolding e .
        moreover have "0 < unat (a - d)" using that by (simp add: unat_gt_0)
        ultimately show False using lt Suc.prems by linarith
      qed
      show "copy_up m d s (Suc n) a = (if unat (a - d) < Suc n then m (s + (a - d)) else m a)"
      proof (cases "a = d")
        case True
        then show ?thesis using Suc.prems c by (auto simp: ih)
      next
        case False
        then show ?thesis unfolding c using ne by (auto simp: ih simp del: fun_upd_apply) (auto simp: algebra_simps)
      qed
    qed
  qed
qed simp


lemma copy_down_copies:
  assumes "unat s + n < 2 ^ 32" "unat d + n < 2 ^ 32" "unat s \<le> unat d"
  shows "copy_down m (d + of_nat n) (s + of_nat n) n =
    (\<lambda>a. if unat (a - d) < n then m (s + (a - d)) else m a)"
  using assms
proof (induction n arbitrary: m)
  case (Suc n)
  let ?N = "of_nat n :: u32"
  let ?m = "m(d + ?N := m (s + ?N))"
  have N: "unat ?N = n" using Suc.prems by (simp add: unat_of_nat)
  have ih: "copy_down ?m (d + ?N) (s + ?N) n = (\<lambda>a. if unat (a - d) < n then ?m (s + (a - d)) else ?m a)"
    by (rule Suc.IH) (use Suc.prems in auto)
  have step: "copy_down m (d + of_nat (Suc n)) (s + of_nat (Suc n)) (Suc n)
      = copy_down ?m (d + ?N) (s + ?N) n"
    by (simp add: algebra_simps)
  show ?case
  proof
    fix a
    have c: "unat (a - d) < Suc n \<longleftrightarrow> a = d + ?N \<or> unat (a - d) < n"
    proof -
      have "unat (a - d) = n \<longleftrightarrow> a - d = ?N" using N by (metis word_unat_eq_iff)
      then show ?thesis by (auto simp: less_Suc_eq diff_eq_eq add.commute)
    qed
    have ne: "s + (a - d) \<noteq> d + ?N" if "unat (a - d) < n"
    proof
      assume e: "s + (a - d) = d + ?N"
      have "unat (s + (a - d)) = unat s + unat (a - d)"
        using that Suc.prems by (auto simp: unat_word_ariths)
      moreover have "unat (d + ?N) = unat d + n"
        using N Suc.prems by (auto simp: unat_word_ariths)
      ultimately show False using e that Suc.prems by simp
    qed
    show "copy_down m (d + of_nat (Suc n)) (s + of_nat (Suc n)) (Suc n) a =
        (if unat (a - d) < Suc n then m (s + (a - d)) else m a)"
      unfolding c step ih using ne N by auto
  qed
qed simp

text \<open>
  \<^verbatim>\<open>memmove\<close> leaves in the destination the bytes the source range held before the call, for every
  overlap of the two ranges, and changes no other byte, as long as neither range reaches the end of
  the address space.
\<close>

theorem memmove_copies:
  assumes "unat src + unat n < 2 ^ 32" "unat dst + unat n < 2 ^ 32"
  shows "memmove m dst src n = (\<lambda>a. if a - dst < n then m (src + (a - dst)) else m a)"
proof (cases "src < dst \<and> src + n > dst")
  case True
  then show ?thesis
    using copy_down_copies [of src "unat n" dst m] assms
    by (simp add: memmove_def word_less_nat_alt)
next
  case False
  have "unat (src + n) = unat src + unat n" using assms by (simp add: unat_word_ariths)
  with False assms show ?thesis
    using copy_up_copies [of src "unat n" dst m]
    by (auto simp: memmove_def word_less_nat_alt)
qed

theorem memmove_copies_witness:
  "memmove (\<lambda>a. ucast a) 0x1002 0x1000 4 0x1005 = 3"
  by (subst memmove_copies) simp_all

lemma memcpy_copies:
  assumes "unat src + unat n < 2 ^ 32" "unat dst + unat n < 2 ^ 32"
  shows "memcpy m dst src n = (\<lambda>a. if a - dst < n then m (src + (a - dst)) else m a)"
proof -
  have "unat (src + n) = unat src + unat n" using assms by (simp add: unat_word_ariths)
  then show ?thesis
    using copy_down_copies [of src "unat n" dst m] copy_up_copies [of src "unat n" dst m] assms
    by (auto simp: memcpy_def memmove_def word_less_nat_alt)
qed

section \<open>Comparing and measuring\<close>

lemma memcmp_eq_0_iff:
  "n \<le> 2 ^ 32 \<Longrightarrow> memcmp m a b n = 0 \<longleftrightarrow> (\<forall>i < n. m (a + of_nat i) = m (b + of_nat i))"
proof (induction n arbitrary: a b)
  case (Suc n)
  have "(\<forall>i < Suc n. m (a + of_nat i) = m (b + of_nat i)) \<longleftrightarrow>
     m a = m b \<and> (\<forall>i < n. m (a + 1 + of_nat i) = m (b + 1 + of_nat i))"
    by (auto simp: less_Suc_eq_0_disj add.assoc)
  with Suc show ?case by (auto)
qed simp

lemma strncmp_cstr:
  "cstr_at m p xs \<Longrightarrow> cstr_at m q ys \<Longrightarrow> strncmp m p q n = 0 \<longleftrightarrow> take n xs = take n ys"
proof (induction n arbitrary: p q xs ys)
  case (Suc n)
  then show ?case by (cases xs; cases ys) auto
qed simp

lemma strlen_from_cstr: "cstr_at m (s + of_nat k) xs \<Longrightarrow> strlen_from m s k = Some (k + length xs)"
proof (induction xs arbitrary: k)
  case Nil
  then show ?case by (simp add: strlen_from.simps)
next
  case (Cons x xs)
  then have "strlen_from m s (Suc k) = Some (Suc k + length xs)"
    by (intro Cons.IH) (simp add: algebra_simps)
  with Cons.prems show ?case by (simp add: strlen_from.simps [of m s k])
qed

lemma strlen_cstr: "cstr_at m s xs \<Longrightarrow> strlen m s = Some (length xs)"
  using strlen_from_cstr [of m s 0 xs] by (simp add: strlen_def)

section \<open>Bounded copies of strings\<close>

lemma safestrcpy_loop_frame:
  "Suc k < 2 ^ 32 \<Longrightarrow> Suc k \<le> unat (a - s) \<Longrightarrow> safestrcpy_loop m s t k a = m a"
proof (induction k arbitrary: m s t)
  case 0
  then show ?case by auto
next
  case (Suc k)
  have c: "\<not> unat (a - s) < Suc (Suc k)" using Suc.prems by simp
  then have "a \<noteq> s \<and> \<not> unat (a - (s + 1)) < Suc k"
    using Suc.prems by (subst (asm) unat_diff_step) auto
  moreover from this have "a \<noteq> s + 1" by auto
  ultimately show ?case using Suc by (simp add: Let_def)
qed

lemma safestrcpy_loop_nul:
  "Suc k < 2 ^ 32 \<Longrightarrow> \<exists>i \<le> k. safestrcpy_loop m s t k (s + of_nat i) = 0"
proof (induction k arbitrary: m s t)
  case 0
  then show ?case by simp
next
  case (Suc k)
  show ?case
  proof (cases "m t = 0")
    case True
    then show ?thesis by (intro exI [of _ 1]) (simp add: Let_def)
  next
    case False
    obtain i where "i \<le> k" "safestrcpy_loop (m(s := m t)) (s + 1) (t + 1) k (s + 1 + of_nat i) = 0"
      using Suc.IH [of "m(s := m t)" "s + 1" "t + 1"] Suc.prems by (auto simp del: fun_upd_apply)
    with False show ?thesis
      by (intro exI [of _ "Suc i"]) (simp add: Let_def algebra_simps)
  qed
qed

text \<open>
  \<^verbatim>\<open>safestrcpy\<close> with a positive length always leaves a NUL among the first \<open>n\<close> bytes of the
  buffer and writes no byte beyond them, whatever the source holds.
\<close>

theorem safestrcpy_bounded:
  assumes "0 < n" "n < 2 ^ 31"
  shows "(\<exists>i < nat n. safestrcpy m s t n (s + of_nat i) = 0)
    \<and> (\<forall>a. nat n \<le> unat (a - s) \<longrightarrow> safestrcpy m s t n a = m a)"
proof -
  have k: "Suc (nat n - 1) < 2 ^ 32" "Suc (nat n - 1) = nat n" using assms by auto
  from safestrcpy_loop_nul [OF k(1), of m s t] obtain i
    where i: "i \<le> nat n - 1" "safestrcpy_loop m s t (nat n - 1) (s + of_nat i) = 0" by blast
  moreover from i k have "i < nat n" by linarith
  ultimately have "\<exists>i < nat n. safestrcpy m s t n (s + of_nat i) = 0"
    using assms by (auto simp: safestrcpy_def)
  moreover have "safestrcpy m s t n a = m a" if "nat n \<le> unat (a - s)" for a
    using assms that k safestrcpy_loop_frame [OF k(1), of a s m t] by (simp add: safestrcpy_def)
  ultimately show ?thesis by blast
qed

theorem safestrcpy_bounded_witness:
  "(\<exists>i < nat 16. safestrcpy (\<lambda>_. 65) 0x1000 0x2000 16 (0x1000 + of_nat i) = 0)
    \<and> safestrcpy (\<lambda>_. 65) 0x1000 0x2000 16 0x1010 = 65"
  using safestrcpy_bounded [of 16 "\<lambda>_. 65" "0x1000" "0x2000"] by simp

end
