(* ===== verification/Spinlock.thy ===== *)
theory Spinlock
  imports Str
begin

text \<open>
  The processor state that every kernel routine shares, and the spin locks of \<^verbatim>\<open>spinlock.c\<close> with
  the \<^verbatim>\<open>mycpu\<close> lookup of \<^verbatim>\<open>proc.c\<close>.  The machine record is the base of the kernel state: each
  component extends it with its own globals, and its routines are polymorphic in what comes after.
  The locale \<open>spin_lock\<close> is the contract between a component and its lock; its lemmas execute
  \<^verbatim>\<open>acquire\<close> and \<^verbatim>\<open>release\<close> symbolically for every lock of the kernel.  The last section runs any
  number of CPUs in any interleaving and shows mutual exclusion.
\<close>

section \<open>Processors and locks\<close>

text \<open>
  \<^verbatim>\<open>struct cpu\<close> (\<^verbatim>\<open>proc.h\<close>), less the descriptor table, the scheduler's saved context and the
  boot flag; \<open>ts_esp0\<close> is the field of the task state that \<^verbatim>\<open>switchuvm\<close> sets.
\<close>

record cpu =
  apicid :: u8
  ncli :: int
  intena :: bool
  cpu_proc :: "nat option"
  ts_esp0 :: u32

text \<open>
  The machine as one CPU sees it: memory, the local APIC id of the executing CPU, the interrupt
  flag of every CPU (by APIC id), the page directory register of the executing CPU, and the
  \<^verbatim>\<open>cpus\<close> array up to \<^verbatim>\<open>ncpu\<close>.
\<close>

record machine =
  mem :: memory
  lapicid :: u8
  iflag :: "u8 \<Rightarrow> bool"
  cr3 :: u32
  cpus :: "cpu list"

text \<open>\<^verbatim>\<open>struct spinlock\<close>, less the recorded call stack, which only debugging output reads.\<close>

record spinlock =
  locked :: bool
  lname :: string
  lcpu :: "nat option"

definition initlock :: "string \<Rightarrow> spinlock \<Rightarrow> spinlock" where
  "initlock name lk = lk\<lparr>lname := name, locked := False, lcpu := None\<rparr>"

definition mycpu :: "'z machine_scheme \<Rightarrow> (nat, 'z machine_scheme) kres" where
  "mycpu s =
     (if iflag s (lapicid s) then Panic ''mycpu called with interrupts enabled\<newline>'' s
      else case findi (\<lambda>c. apicid c = lapicid s) (cpus s) of
             Some i \<Rightarrow> Ok i s
           | None \<Rightarrow> Panic ''unknown apicid\<newline>'' s)"

definition cpuid :: "'z machine_scheme \<Rightarrow> (nat, 'z machine_scheme) kres" where
  "cpuid s = mycpu s"

definition cli :: "'z machine_scheme \<Rightarrow> 'z machine_scheme" where
  "cli s = s\<lparr>iflag := (iflag s)(lapicid s := False)\<rparr>"

definition sti :: "'z machine_scheme \<Rightarrow> 'z machine_scheme" where
  "sti s = s\<lparr>iflag := (iflag s)(lapicid s := True)\<rparr>"

text \<open>Update the entry of the \<^verbatim>\<open>cpus\<close> array at \<open>i\<close>.\<close>

definition upd_cpu :: "nat \<Rightarrow> (cpu \<Rightarrow> cpu) \<Rightarrow> 'z machine_scheme \<Rightarrow> 'z machine_scheme" where
  "upd_cpu i f s = s\<lparr>cpus := (cpus s)[i := f (cpus s ! i)]\<rparr>"

definition pushcli :: "'z machine_scheme \<Rightarrow> (unit, 'z machine_scheme) kres" where
  "pushcli s =
     (let eflags = iflag s (lapicid s)
      in andthen (mycpu (cli s)) (\<lambda>i s.
         let s = (if ncli (cpus s ! i) = 0 then upd_cpu i (\<lambda>c. c\<lparr>intena := eflags\<rparr>) s else s)
         in Ok () (upd_cpu i (\<lambda>c. c\<lparr>ncli := ncli c + 1\<rparr>) s)))"

definition popcli :: "'z machine_scheme \<Rightarrow> (unit, 'z machine_scheme) kres" where
  "popcli s =
     (if iflag s (lapicid s) then Panic ''popcli - interruptible'' s
      else andthen (mycpu s) (\<lambda>i s.
        let s = upd_cpu i (\<lambda>c. c\<lparr>ncli := ncli c - 1\<rparr>) s
        in if ncli (cpus s ! i) < 0 then Panic ''popcli'' s
           else if ncli (cpus s ! i) = 0 \<and> intena (cpus s ! i) then Ok () (sti s)
           else Ok () s))"

text \<open>
  A lock is named by its selector \<open>g\<close> and its update \<open>u\<close> in the state, the analogue of the
  \<^verbatim>\<open>struct spinlock *\<close> argument.
\<close>

definition holding ::
  "('z machine_scheme \<Rightarrow> spinlock) \<Rightarrow> 'z machine_scheme \<Rightarrow> (bool, 'z machine_scheme) kres" where
  "holding g s =
     andthen (pushcli s) (\<lambda>_ s.
     andthen (if locked (g s)
              then andthen (mycpu s) (\<lambda>i s. Ok (lcpu (g s) = Some i) s)
              else Ok False s) (\<lambda>r s.
     andthen (popcli s) (\<lambda>_ s. Ok r s)))"

definition acquire ::
  "('z machine_scheme \<Rightarrow> spinlock) \<Rightarrow>
   ((spinlock \<Rightarrow> spinlock) \<Rightarrow> 'z machine_scheme \<Rightarrow> 'z machine_scheme) \<Rightarrow>
   'z machine_scheme \<Rightarrow> (unit, 'z machine_scheme) kres" where
  "acquire g u s =
     andthen (pushcli s) (\<lambda>_ s.
     andthen (holding g s) (\<lambda>h s.
     if h then Panic ''acquire'' s
     else if locked (g s) then Spin s
     else let s = u (\<lambda>l. l\<lparr>locked := True\<rparr>) s
          in andthen (mycpu s) (\<lambda>i s. Ok () (u (\<lambda>l. l\<lparr>lcpu := Some i\<rparr>) s))))"

definition release ::
  "('z machine_scheme \<Rightarrow> spinlock) \<Rightarrow>
   ((spinlock \<Rightarrow> spinlock) \<Rightarrow> 'z machine_scheme \<Rightarrow> 'z machine_scheme) \<Rightarrow>
   'z machine_scheme \<Rightarrow> (unit, 'z machine_scheme) kres" where
  "release g u s =
     andthen (holding g s) (\<lambda>h s.
     if \<not> h then Panic ''release'' s
     else popcli (u (\<lambda>l. l\<lparr>lcpu := None, locked := False\<rparr>) s))"

text \<open>\<^verbatim>\<open>getcallerpcs\<close>: follow the saved frame pointers, at most ten of them.\<close>

fun getcallerpcs_loop :: "memory \<Rightarrow> u32 \<Rightarrow> nat \<Rightarrow> u32 list" where
  "getcallerpcs_loop m ebp 0 = []"
| "getcallerpcs_loop m ebp (Suc k) =
     (if ebp = 0 \<or> ebp < 0x80000000 \<or> ebp = 0xffffffff then replicate (Suc k) 0
      else load32 m (ebp + 4) # getcallerpcs_loop m (load32 m ebp) k)"

definition getcallerpcs :: "memory \<Rightarrow> u32 \<Rightarrow> u32 list" where
  "getcallerpcs m v = getcallerpcs_loop m (v - 8) 10"

section \<open>Symbolic execution\<close>

text \<open>
  The executing CPU is entry \<open>i\<close> of the table, its nesting depth is not negative, and interrupts are
  on only at depth zero.
\<close>

definition on_cpu :: "'z machine_scheme \<Rightarrow> nat \<Rightarrow> bool" where
  "on_cpu s i \<longleftrightarrow> findi (\<lambda>c. apicid c = lapicid s) (cpus s) = Some i
     \<and> 0 \<le> ncli (cpus s ! i) \<and> (iflag s (lapicid s) \<longrightarrow> ncli (cpus s ! i) = 0)"

text \<open>The state after \<^verbatim>\<open>pushcli\<close>, and after the matching \<^verbatim>\<open>popcli\<close>.\<close>

definition pushed :: "nat \<Rightarrow> 'z machine_scheme \<Rightarrow> 'z machine_scheme" where
  "pushed i s = s\<lparr>iflag := (iflag s)(lapicid s := False),
     cpus := (cpus s)[i := (cpus s ! i)\<lparr>
       intena := (if ncli (cpus s ! i) = 0 then iflag s (lapicid s) else intena (cpus s ! i)),
       ncli := ncli (cpus s ! i) + 1\<rparr>]\<rparr>"

definition settled :: "nat \<Rightarrow> 'z machine_scheme \<Rightarrow> 'z machine_scheme" where
  "settled i s = s\<lparr>cpus := (cpus s)[i := (cpus s ! i)\<lparr>
       intena := (if ncli (cpus s ! i) = 0 then iflag s (lapicid s) else intena (cpus s ! i))\<rparr>]\<rparr>"

definition popped :: "nat \<Rightarrow> 'z machine_scheme \<Rightarrow> 'z machine_scheme" where
  "popped i s = s\<lparr>iflag := (if ncli (cpus s ! i) = 1 \<and> intena (cpus s ! i)
       then (iflag s)(lapicid s := True) else iflag s),
     cpus := (cpus s)[i := (cpus s ! i)\<lparr>ncli := ncli (cpus s ! i) - 1\<rparr>]\<rparr>"

lemma findi_upd_same_key:
  assumes "\<And>x. k (f x) = k x"
  shows "findi (\<lambda>c. k c = v) (xs[i := f (xs ! i)]) = findi (\<lambda>c. k c = v) xs"
proof (induction xs arbitrary: i)
  case (Cons x xs)
  then show ?case by (cases i) (auto simp: assms)
qed simp

lemma on_cpuD:
  assumes "on_cpu s i"
  shows "i < length (cpus s)" "apicid (cpus s ! i) = lapicid s" "0 \<le> ncli (cpus s ! i)"
    "findi (\<lambda>c. apicid c = lapicid s) (cpus s) = Some i"
    "iflag s (lapicid s) \<Longrightarrow> ncli (cpus s ! i) = 0"
  using assms by (auto simp: on_cpu_def findi_Some_iff)

lemma findi_apicid_upd [simp]:
  "findi (\<lambda>c. apicid c = v) (xs[i := (xs ! i)\<lparr>ncli := a\<rparr>]) = findi (\<lambda>c. apicid c = v) xs"
  "findi (\<lambda>c. apicid c = v) (xs[i := (xs ! i)\<lparr>intena := b\<rparr>]) = findi (\<lambda>c. apicid c = v) xs"
  "findi (\<lambda>c. apicid c = v) (xs[i := (xs ! i)\<lparr>intena := b, ncli := a\<rparr>]) = findi (\<lambda>c. apicid c = v) xs"
  "findi (\<lambda>c. apicid c = v) (xs[i := (xs ! i)\<lparr>cpu_proc := p\<rparr>]) = findi (\<lambda>c. apicid c = v) xs"
  using findi_upd_same_key [of apicid "\<lambda>c. c\<lparr>ncli := a\<rparr>" v xs i]
    findi_upd_same_key [of apicid "\<lambda>c. c\<lparr>intena := b\<rparr>" v xs i]
    findi_upd_same_key [of apicid "\<lambda>c. c\<lparr>intena := b, ncli := a\<rparr>" v xs i]
    findi_upd_same_key [of apicid "\<lambda>c. c\<lparr>cpu_proc := p\<rparr>" v xs i] by auto

lemma pushcli_eq: "on_cpu s i \<Longrightarrow> pushcli s = Ok () (pushed i s)"
  using on_cpuD [of s i]
  by (auto simp: pushcli_def mycpu_def cli_def upd_cpu_def pushed_def Let_def)

lemma on_cpu_pushed [simp]: "on_cpu s i \<Longrightarrow> on_cpu (pushed i s) i"
  by (auto simp: on_cpu_def pushed_def findi_Some_iff[of _ _ i] nth_list_update)

lemma ncli_pushed: "on_cpu s i \<Longrightarrow> ncli (cpus (pushed i s) ! i) = ncli (cpus s ! i) + 1"
  by (auto simp: pushed_def dest: on_cpuD(1))

lemma popcli_eq:
  "on_cpu s i \<Longrightarrow> 0 < ncli (cpus s ! i) \<Longrightarrow> popcli s = Ok () (popped i s)"
  using on_cpuD [of s i]
  by (auto simp: popcli_def mycpu_def upd_cpu_def popped_def sti_def Let_def)

lemma popped_pushed: "on_cpu s i \<Longrightarrow> popped i (pushed i s) = settled i s"
  using on_cpuD [of s i]
  by (auto simp: popped_def pushed_def settled_def fun_eq_iff intro!: machine.equality)

lemma popped_frame:
  "cpus t = cpus x \<Longrightarrow> iflag t = iflag x \<Longrightarrow> lapicid t = lapicid x \<Longrightarrow>
   popped i t = t\<lparr>iflag := iflag (popped i x), cpus := cpus (popped i x)\<rparr>"
  by (simp add: popped_def)

lemma settled_id: "0 < ncli (cpus s ! i) \<Longrightarrow> settled i s = s"
  by (simp add: settled_def)

lemma settled_settled [simp]: "settled i (settled i s) = settled i s"
  by (cases "i < length (cpus s)") (auto simp: settled_def list_update_beyond)

lemma on_cpu_settled [simp]: "on_cpu s i \<Longrightarrow> on_cpu (settled i s) i"
  by (auto simp: on_cpu_def settled_def findi_Some_iff[of _ _ i] nth_list_update)

lemma mycpu_eq: "on_cpu s i \<Longrightarrow> \<not> iflag s (lapicid s) \<Longrightarrow> mycpu s = Ok i s"
  by (simp add: mycpu_def on_cpu_def)

lemma mycpu_pushed: "on_cpu s i \<Longrightarrow> mycpu (pushed i s) = Ok i (pushed i s)"
  by (rule mycpu_eq) (simp, simp add: pushed_def)


section \<open>The contract of a lock\<close>

locale spin_lock =
  fixes g :: "'z machine_scheme \<Rightarrow> spinlock"
    and u :: "(spinlock \<Rightarrow> spinlock) \<Rightarrow> 'z machine_scheme \<Rightarrow> 'z machine_scheme"
  assumes get_upd [simp]: "g (u f s) = f (g s)"
    and upd_upd [simp]: "u f (u h s) = u (\<lambda>l. f (h l)) s"
    and cpus_upd [simp]: "cpus (u f s) = cpus s"
    and lapicid_upd [simp]: "lapicid (u f s) = lapicid s"
    and iflag_upd [simp]: "iflag (u f s) = iflag s"
    and get_cpus [simp]: "g (s\<lparr>cpus := c\<rparr>) = g s"
    and get_iflag [simp]: "g (s\<lparr>iflag := fl\<rparr>) = g s"
    and upd_cpus: "(u f s)\<lparr>cpus := c\<rparr> = u f (s\<lparr>cpus := c\<rparr>)"
    and upd_iflag: "(u f s)\<lparr>iflag := fl\<rparr> = u f (s\<lparr>iflag := fl\<rparr>)"
    and upd_cong: "f (g s) = h (g s) \<Longrightarrow> u f s = u h s"
begin

text \<open>The lock as the holder leaves it in the state, and as it is when free.\<close>

definition held :: "nat \<Rightarrow> 'z machine_scheme \<Rightarrow> 'z machine_scheme" where
  "held i s = u (\<lambda>l. l\<lparr>locked := True, lcpu := Some i\<rparr>) (pushed i s)"

lemma get_pushed [simp]: "g (pushed i s) = g s" "g (settled i s) = g s" "g (popped i s) = g s"
  by (simp_all add: pushed_def settled_def popped_def)

lemma on_cpu_upd [simp]: "on_cpu (u f s) i = on_cpu s i"
  by (simp add: on_cpu_def)

lemma popped_upd: "popped i (u f s) = u f (popped i s)"
  by (simp add: popped_def upd_cpus upd_iflag)

lemma holding_eq:
  assumes "on_cpu s i"
  shows "holding g s = Ok (locked (g s) \<and> lcpu (g s) = Some i) (settled i s)"
proof -
  have "0 < ncli (cpus (pushed i s) ! i)" using assms on_cpuD(3) [OF assms] by (simp add: ncli_pushed)
  then show ?thesis
    using assms
    by (auto simp: holding_def pushcli_eq [of s i] mycpu_pushed popcli_eq [of "pushed i s" i] popped_pushed)
qed

lemma acquire_free:
  assumes "on_cpu s i" "\<not> locked (g s)"
  shows "acquire g u s = Ok () (held i s)"
proof -
  have "0 < ncli (cpus (pushed i s) ! i)" using assms on_cpuD(3) [OF assms(1)] by (simp add: ncli_pushed)
  then have "holding g (pushed i s) = Ok False (pushed i s)"
    using assms by (simp add: holding_eq [of "pushed i s" i] settled_id)
  moreover have "mycpu (u f (pushed i s)) = Ok i (u f (pushed i s))" for f
    using assms by (intro mycpu_eq) (simp, simp add: pushed_def)
  ultimately show ?thesis
    using assms by (simp add: acquire_def pushcli_eq held_def comp_def)
qed

lemma acquire_busy:
  assumes "on_cpu s i" "locked (g s)"
  shows "acquire g u s = (if lcpu (g s) = Some i then Panic ''acquire'' (pushed i s) else Spin (pushed i s))"
proof -
  have "0 < ncli (cpus (pushed i s) ! i)" using assms on_cpuD(3) [OF assms(1)] by (simp add: ncli_pushed)
  then have "holding g (pushed i s) = Ok (lcpu (g s) = Some i) (pushed i s)"
    using assms by (simp add: holding_eq [of "pushed i s" i] settled_id)
  then show ?thesis using assms by (simp add: acquire_def pushcli_eq)
qed

lemma release_eq:
  assumes "on_cpu s i" "0 < ncli (cpus s ! i)" "locked (g s)" "lcpu (g s) = Some i"
  shows "release g u s = Ok () (u (\<lambda>l. l\<lparr>lcpu := None, locked := False\<rparr>) (popped i s))"
  using assms by (simp add: release_def holding_eq settled_id popcli_eq popped_upd)

lemma release_not_held:
  assumes "on_cpu s i" "\<not> (locked (g s) \<and> lcpu (g s) = Some i)"
  shows "release g u s = Panic ''release'' (settled i s)"
  using assms by (auto simp: release_def holding_eq)

lemma get_held [simp]: "g (held i s) = (g s)\<lparr>locked := True, lcpu := Some i\<rparr>"
  by (simp add: held_def)

lemma on_cpu_held [simp]: "on_cpu s i \<Longrightarrow> on_cpu (held i s) i"
  by (simp add: held_def)

lemma ncli_held: "on_cpu s i \<Longrightarrow> 0 < ncli (cpus (held i s) ! i)"
  using on_cpuD(3) [of s i] by (simp add: held_def ncli_pushed)

text \<open>An empty critical section gives the lock back as it was and only settles the CPU entry.\<close>

lemma release_held:
  assumes "on_cpu s i" "\<not> locked (g s)" "lcpu (g s) = None"
  shows "release g u (held i s) = Ok () (u (\<lambda>l. l\<lparr>lcpu := None, locked := False\<rparr>) (settled i s))"
  using assms ncli_held [OF assms(1)]
  by (simp add: release_eq [of "held i s" i]) (simp add: held_def popped_upd popped_pushed comp_def)

text \<open>
  A critical section entered in \<open>s\<close> that has brought the state to \<open>t\<close> without touching the lock, the CPU
  table or the interrupt flags: \<^verbatim>\<open>release\<close> restores all three.
\<close>

definition leave :: "nat \<Rightarrow> 'z machine_scheme \<Rightarrow> 'z machine_scheme \<Rightarrow> 'z machine_scheme" where
  "leave i s t = u (\<lambda>_. g s) (t\<lparr>iflag := iflag s, cpus := cpus (settled i s)\<rparr>)"

lemma release_leave:
  assumes c: "on_cpu s i" and free: "\<not> locked (g s)" "lcpu (g s) = None"
    and keep: "cpus t = cpus (held i s)" "iflag t = iflag (held i s)" "lapicid t = lapicid s" "g t = g (held i s)"
  shows "release g u t = Ok () (leave i s t)"
proof -
  have h: "on_cpu t i" using on_cpu_held [OF c] keep by (simp add: on_cpu_def held_def pushed_def)
  have "0 < ncli (cpus t ! i)" using keep ncli_held [OF c] by simp
  then have r: "release g u t = Ok () (u (\<lambda>l. l\<lparr>lcpu := None, locked := False\<rparr>) (popped i t))"
    using h keep by (intro release_eq) simp_all
  have "popped i t = t\<lparr>iflag := iflag (popped i (pushed i s)), cpus := cpus (popped i (pushed i s))\<rparr>"
    using keep by (intro popped_frame) (simp_all add: held_def, simp add: pushed_def)
  then have "popped i t = t\<lparr>iflag := iflag s, cpus := cpus (settled i s)\<rparr>"
    by (simp add: popped_pushed [OF c]) (simp add: settled_def)
  moreover have "u (\<lambda>l. l\<lparr>lcpu := None, locked := False\<rparr>) x = u (\<lambda>_. g s) x" if "g x = g (held i s)" for x
  proof -
    have "(g (held i s))\<lparr>lcpu := None, locked := False\<rparr> = g s" using free by (simp add: spinlock.equality)
    with that upd_cong [of "\<lambda>l. l\<lparr>lcpu := None, locked := False\<rparr>" x "\<lambda>_. g s"] show ?thesis by simp
  qed
  ultimately show ?thesis using r keep by (simp add: leave_def)
qed

end


section \<open>Frames\<close>

text \<open>
  \<open>quiet\<close> observations of the state are those in which neither the CPU table nor the interrupt flags
  take part: taking and releasing locks leaves them alone.
\<close>

definition quiet :: "('z machine_scheme \<Rightarrow> 'b) \<Rightarrow> bool" where
  "quiet h \<longleftrightarrow> (\<forall>s x. h (s\<lparr>cpus := x\<rparr>) = h s) \<and> (\<forall>s x. h (s\<lparr>iflag := x\<rparr>) = h s)"

lemma frame_mycpu: "kstate (mycpu s) = s"
  by (simp add: mycpu_def split: option.split)

lemma frame_pushcli: "quiet h \<Longrightarrow> h (kstate (pushcli s)) = h s"
  by (simp add: quiet_def pushcli_def mycpu_def cli_def upd_cpu_def Let_def split: option.split)

lemma frame_popcli: "quiet h \<Longrightarrow> h (kstate (popcli s)) = h s"
  by (simp add: quiet_def popcli_def mycpu_def sti_def upd_cpu_def Let_def split: option.split)

lemma frame_holding: "quiet h \<Longrightarrow> h (kstate (holding g s)) = h s"
  unfolding holding_def
  by (intro frame_andthen [where h = h]) (simp_all add: frame_pushcli frame_popcli mycpu_def split: option.split)

lemma frame_acquire:
  assumes "quiet h" "\<And>f s. h (u f s) = h s"
  shows "h (kstate (acquire g u s)) = h s"
  unfolding acquire_def
proof (intro frame_andthen [where h = h])
  fix b :: bool and t t'
  assume "h t' = h s"
  then show "h (kstate (if b then Panic ''acquire'' t' else if locked (g t') then Spin t'
      else let s = u (\<lambda>l. l\<lparr>locked := True\<rparr>) t'
           in andthen (mycpu s) (\<lambda>i s. Ok () (u (\<lambda>l. l\<lparr>lcpu := Some i\<rparr>) s)))) = h s"
    by (simp add: Let_def assms mycpu_def split: option.split)
qed (simp_all add: assms frame_pushcli frame_holding)

lemma frame_release:
  assumes "quiet h" "\<And>f s. h (u f s) = h s"
  shows "h (kstate (release g u s)) = h s"
  unfolding release_def
  by (intro frame_andthen [where h = h]) (simp_all add: assms frame_popcli frame_holding)


section \<open>Mutual exclusion between CPUs\<close>

text \<open>
  A machine with one lock, and \<^verbatim>\<open>acquire\<close> and \<^verbatim>\<open>release\<close> cut into the steps between which other CPUs
  can run: every read and every write of a field of the lock is a step of its own, and only the
  locked \<^verbatim>\<open>xchg\<close> of \<^verbatim>\<open>x86.h\<close> reads and writes in one.  (\<^verbatim>\<open>pushcli\<close>, \<^verbatim>\<open>popcli\<close> and \<^verbatim>\<open>mycpu\<close>
  touch the executing CPU's own entry and flag, which no other CPU looks at.)  A program counter
  says where in the two routines a CPU is; \<^verbatim>\<open>holding\<close> remembers which of them called it.
\<close>

record lock_machine = machine +
  the_lock :: spinlock

interpretation tl: spin_lock the_lock the_lock_update
  by unfold_locales simp_all

datatype lock_call = In_acquire | In_release

datatype lock_pc =
  Outside
| Acq_push
| Hold_push lock_call
| Hold_locked lock_call
| Hold_cpu lock_call
| Hold_pop lock_call bool
| Acq_xchg
| Acq_cpu
| Rel_cpu
| Rel_unlock
| Rel_pop
| Stopped

text \<open>\<^verbatim>\<open>xchg(&lk->locked, 1)\<close>: the old value, and the lock with 1 stored.\<close>

definition xchg_locked :: "'z lock_machine_scheme \<Rightarrow> bool \<times> 'z lock_machine_scheme" where
  "xchg_locked s = (locked (the_lock s), the_lock_update (\<lambda>l. l\<lparr>locked := True\<rparr>) s)"

text \<open>Go on at \<open>q\<close> with the value of a routine that returned; a panic stops the CPU.\<close>

definition goto ::
  "('v, 's) kres \<Rightarrow> ('v \<Rightarrow> 's \<Rightarrow> lock_pc \<times> 's) \<Rightarrow> lock_pc \<times> 's" where
  "goto r q = (case r of Ok v t \<Rightarrow> q v t | _ \<Rightarrow> (Stopped, kstate r))"

fun lock_step :: "lock_pc \<times> 'z lock_machine_scheme \<Rightarrow> lock_pc \<times> 'z lock_machine_scheme" where
  "lock_step (Acq_push, s) = goto (pushcli s) (\<lambda>_ t. (Hold_push In_acquire, t))"
| "lock_step (Hold_push c, s) = goto (pushcli s) (\<lambda>_ t. (Hold_locked c, t))"
| "lock_step (Hold_locked c, s) = (if locked (the_lock s) then (Hold_cpu c, s) else (Hold_pop c False, s))"
| "lock_step (Hold_cpu c, s) = goto (mycpu s) (\<lambda>i t. (Hold_pop c (lcpu (the_lock t) = Some i), t))"
| "lock_step (Hold_pop c r, s) = goto (popcli s) (\<lambda>_ t.
     (case c of In_acquire \<Rightarrow> if r then Stopped else Acq_xchg
      | In_release \<Rightarrow> if \<not> r then Stopped else Rel_cpu, t))"
| "lock_step (Acq_xchg, s) = (let (old, t) = xchg_locked s in (if old then Acq_xchg else Acq_cpu, t))"
| "lock_step (Acq_cpu, s) = goto (mycpu s) (\<lambda>i t. (Outside, the_lock_update (\<lambda>l. l\<lparr>lcpu := Some i\<rparr>) t))"
| "lock_step (Rel_cpu, s) = (Rel_unlock, the_lock_update (\<lambda>l. l\<lparr>lcpu := None\<rparr>) s)"
| "lock_step (Rel_unlock, s) = (Rel_pop, the_lock_update (\<lambda>l. l\<lparr>locked := False\<rparr>) s)"
| "lock_step (Rel_pop, s) = goto (popcli s) (\<lambda>_ t. (Outside, t))"
| "lock_step (Outside, s) = (Outside, s)"
| "lock_step (Stopped, s) = (Stopped, s)"

lemmas lock_steps = goto_def xchg_locked_def kern funpow_simps_right numeral_nat

lemma the_lock_pushcli: "the_lock (kstate (pushcli s)) = the_lock s"
  by (rule frame_pushcli) (simp add: quiet_def)

lemma the_lock_popcli: "the_lock (kstate (popcli s)) = the_lock s"
  by (rule frame_popcli) (simp add: quiet_def)

lemma goto_cases:
  assumes "goto r f = (q, t)"
  obtains v u where "r = Ok v u" "f v u = (q, t)" | "q = Stopped" "t = kstate r"
  using assms by (cases r) (auto simp: goto_def)

lemma popcli_lock: "popcli s = Ok v t \<Longrightarrow> the_lock t = the_lock s"
  using the_lock_popcli [of s] by simp

lemma pushcli_lock: "pushcli s = Ok v t \<Longrightarrow> the_lock t = the_lock s"
  using the_lock_pushcli [of s] by simp

text \<open>Run without interruption, the steps are the routines of the first section.\<close>

lemma acquire_by_steps:
  "acquire the_lock the_lock_update s = Ok () t \<Longrightarrow> (lock_step ^^ 6) (Acq_push, s) = (Outside, t)"
  unfolding acquire_def holding_def
  by (auto simp: lock_steps mycpu_def Let_def dest: popcli_lock split: if_splits option.splits)

lemma release_by_steps:
  "release the_lock the_lock_update s = Ok () t \<Longrightarrow> (lock_step ^^ 7) (Hold_push In_release, s) = (Outside, t)"
  unfolding release_def holding_def
  by (auto simp: lock_steps mycpu_def Let_def comp_def split: if_splits option.splits)

text \<open>
  A configuration is the machine, every CPU's program counter, and the set of CPUs that hold the
  lock: they have returned from \<^verbatim>\<open>acquire\<close> and not yet stored 0 in \<^verbatim>\<open>release\<close>.  A CPU may call either
  routine at any time; \<open>Go a\<close> lets the CPU whose APIC id is \<open>a\<close> make one step.  Everything else may
  happen in between that leaves the lock alone.
\<close>

datatype lock_event = Call_acquire nat | Call_release nat | Go u8

type_synonym 'z lock_config = "'z lock_machine_scheme \<times> (nat \<Rightarrow> lock_pc) \<times> nat set"

fun lock_move :: "lock_event \<Rightarrow> 'z lock_config \<Rightarrow> 'z lock_config" where
  "lock_move (Call_acquire i) (s, pc, C) = (s, if pc i = Outside then pc(i := Acq_push) else pc, C)"
| "lock_move (Call_release i) (s, pc, C) =
     (s, if pc i = Outside then pc(i := Hold_push In_release) else pc, C)"
| "lock_move (Go a) (s, pc, C) =
     (case findi (\<lambda>c. apicid c = a) (cpus s) of
        None \<Rightarrow> (s, pc, C)
      | Some i \<Rightarrow>
          let (q, t) = lock_step (pc i, s\<lparr>lapicid := a\<rparr>)
          in (t, pc(i := q),
              if pc i = Acq_cpu \<and> q = Outside then insert i C
              else if pc i = Rel_unlock then C - {i} else C))"

inductive lock_run :: "'z lock_machine_scheme \<Rightarrow> 'z lock_config \<Rightarrow> bool" for init where
  start: "lock_run init (init, \<lambda>_. Outside, {})"
| move: "lock_run init c \<Longrightarrow> lock_run init (lock_move e c)"
| other: "lock_run init (s, pc, C) \<Longrightarrow> the_lock t = the_lock s \<Longrightarrow> lock_run init (t, pc, C)"

text \<open>
  The invariant.  A CPU owns the lock from the \<^verbatim>\<open>xchg\<close> that found it free to the store of 0; there
  is one owner at most, its lock is taken, and the recorded CPU is the holder.  \<open>cpu_ok\<close> is what holds
  of one CPU \<open>i\<close> at \<open>p\<close>, where \<open>b\<close> says that it is a holder.
\<close>

definition owns :: "lock_pc \<Rightarrow> bool \<Rightarrow> bool" where
  "owns p b \<longleftrightarrow> b \<or> p = Acq_cpu"

definition cpu_ok :: "nat \<Rightarrow> lock_pc \<Rightarrow> bool \<Rightarrow> spinlock \<Rightarrow> bool" where
  "cpu_ok i p b l \<longleftrightarrow>
     (owns p b \<longrightarrow> locked l) \<and> (lcpu l = Some i \<longleftrightarrow> b \<and> p \<noteq> Rel_unlock) \<and>
     (\<forall>c r. p = Hold_pop c r \<longrightarrow> r = b) \<and> (p = Acq_xchg \<or> p = Acq_cpu \<longrightarrow> \<not> b) \<and>
     (p = Rel_cpu \<or> p = Rel_unlock \<longrightarrow> b)"

definition lock_inv :: "'z lock_config \<Rightarrow> bool" where
  "lock_inv = (\<lambda>(s, pc, C). (\<forall>i. cpu_ok i (pc i) (i \<in> C) (the_lock s)) \<and>
     (\<forall>i j. owns (pc i) (i \<in> C) \<longrightarrow> owns (pc j) (j \<in> C) \<longrightarrow> i = j))"

lemma mycpu_kstate: "kstate (mycpu s) = s"
  by (rule frame_mycpu)

lemma mycpu_of_id:
  "findi (\<lambda>c. apicid c = a) (cpus s) = Some i \<Longrightarrow>
   mycpu (s\<lparr>lapicid := a\<rparr>) = Ok i (s\<lparr>lapicid := a\<rparr>) \<or> (\<exists>m. mycpu (s\<lparr>lapicid := a\<rparr>) = Panic m (s\<lparr>lapicid := a\<rparr>))"
  by (simp add: mycpu_def)

text \<open>What one step of CPU \<open>i\<close> does to the lock, and where it leads.\<close>

definition lock_moves :: "nat \<Rightarrow> lock_pc \<Rightarrow> spinlock \<Rightarrow> lock_pc \<Rightarrow> spinlock \<Rightarrow> bool" where
  "lock_moves i p l q l' =
     (case p of
        Hold_locked c \<Rightarrow> l' = l \<and> (if locked l then q = Hold_cpu c else q = Hold_pop c False)
      | Hold_cpu c \<Rightarrow> l' = l \<and> (q = Stopped \<or> q = Hold_pop c (lcpu l = Some i))
      | Hold_pop c r \<Rightarrow> l' = l \<and> (q = Stopped \<or> q = Acq_xchg \<and> \<not> r \<or> q = Rel_cpu \<and> r)
      | Acq_xchg \<Rightarrow> l' = l\<lparr>locked := True\<rparr> \<and> q = (if locked l then Acq_xchg else Acq_cpu)
      | Acq_cpu \<Rightarrow> l' = l \<and> q = Stopped \<or> l' = l\<lparr>lcpu := Some i\<rparr> \<and> q = Outside
      | Rel_cpu \<Rightarrow> l' = l\<lparr>lcpu := None\<rparr> \<and> q = Rel_unlock
      | Rel_unlock \<Rightarrow> l' = l\<lparr>locked := False\<rparr> \<and> q = Rel_pop
      | _ \<Rightarrow> l' = l \<and> (\<forall>c r. q \<noteq> Hold_pop c r) \<and> q \<notin> {Acq_xchg, Acq_cpu, Rel_cpu, Rel_unlock})"

lemma lock_step_moves:
  assumes "findi (\<lambda>c. apicid c = a) (cpus s) = Some i" "lock_step (p, s\<lparr>lapicid := a\<rparr>) = (q, t)"
  shows "lock_moves i p (the_lock s) q (the_lock t)"
proof -
  let ?s = "s\<lparr>lapicid := a\<rparr>"
  have push: "the_lock t = the_lock s \<and> (q = Stopped \<or> q = p')"
    if "goto (pushcli ?s) (\<lambda>_ t. (p', t)) = (q, t)" for p'
    using that the_lock_pushcli [of ?s] by (cases "pushcli ?s") (auto simp: goto_def)
  have pop: "the_lock t = the_lock s \<and> (q = Stopped \<or> q = p')"
    if "goto (popcli ?s) (\<lambda>_ t. (p', t)) = (q, t)" for p'
    using that the_lock_popcli [of ?s] by (cases "popcli ?s") (auto simp: goto_def)
  have my: "t = ?s \<and> q = Stopped \<or> f i ?s = (q, t)" if "goto (mycpu ?s) f = (q, t)" for f
    using that mycpu_of_id [where s = s, OF assms(1)] by (auto simp: goto_def)
  show ?thesis
  proof (cases p)
    case (Hold_pop c r)
    with assms(2) pop show ?thesis by (cases c; cases r) (auto simp: lock_moves_def)
  next
    case (Hold_cpu c)
    with assms(2) my show ?thesis by (fastforce simp: lock_moves_def)
  next
    case Acq_cpu
    with assms(2) my show ?thesis by (fastforce simp: lock_moves_def)
  qed (use assms(2) push pop in \<open>auto simp: lock_moves_def xchg_locked_def split: if_splits\<close>)
qed

text \<open>Whether the stepping CPU holds the lock after the step.\<close>

definition holds_after :: "lock_pc \<Rightarrow> lock_pc \<Rightarrow> bool \<Rightarrow> bool" where
  "holds_after p q b \<longleftrightarrow> p = Acq_cpu \<and> q = Outside \<or> b \<and> p \<noteq> Rel_unlock"

lemma cpu_ok_self:
  "lock_moves i p l q l' \<Longrightarrow> cpu_ok i p b l \<Longrightarrow> cpu_ok i q (holds_after p q b) l'"
  by (cases p) (auto simp: lock_moves_def cpu_ok_def owns_def holds_after_def split: if_splits)

lemma cpu_ok_other:
  "lock_moves i p l q l' \<Longrightarrow> cpu_ok i p b l \<Longrightarrow> cpu_ok j pj bj l \<Longrightarrow> i \<noteq> j \<Longrightarrow>
   \<not> (owns p b \<and> owns pj bj) \<Longrightarrow> cpu_ok j pj bj l'"
  by (cases p) (auto simp: lock_moves_def cpu_ok_def owns_def)

lemma owns_moves:
  "lock_moves i p l q l' \<Longrightarrow> cpu_ok i p b l \<Longrightarrow> owns q (holds_after p q b) \<Longrightarrow>
   owns p b \<or> p = Acq_xchg \<and> \<not> locked l"
  by (cases p) (auto simp: lock_moves_def cpu_ok_def owns_def holds_after_def split: if_splits)

lemma lock_inv_moves:
  assumes inv: "lock_inv (s, pc, C)" and step: "lock_moves i (pc i) (the_lock s) q (the_lock t)"
    and C': "\<And>j. j \<in> C' \<longleftrightarrow> (if j = i then holds_after (pc i) q (i \<in> C) else j \<in> C)"
  shows "lock_inv (t, pc(i := q), C')"
proof -
  have ok: "cpu_ok j (pc j) (j \<in> C) (the_lock s)" for j using inv by (simp add: lock_inv_def)
  have one: "\<not> (owns (pc i) (i \<in> C) \<and> owns (pc j) (j \<in> C))" if "i \<noteq> j" for j
    using inv that by (auto simp: lock_inv_def)
  have "\<not> owns (pc j) (j \<in> C)" if "i \<noteq> j" "owns q (i \<in> C')" for j
    using owns_moves [OF step ok] that one [of j] ok [of j] C' by (auto simp: cpu_ok_def)
  moreover have "cpu_ok j (if j = i then q else pc j) (j \<in> C') (the_lock t)" for j
    using cpu_ok_self [OF step ok] cpu_ok_other [OF step ok ok] one C' by auto
  ultimately show ?thesis using inv C' unfolding lock_inv_def by (auto split: if_splits)
qed

lemma lock_inv_move: "lock_inv c \<Longrightarrow> lock_inv (lock_move e c)"
proof (induction e c rule: lock_move.induct)
  case (3 a s pc C)
  show ?case
  proof (cases "findi (\<lambda>c. apicid c = a) (cpus s)")
    case None
    with 3 show ?thesis by simp
  next
    case (Some i)
    obtain q t where q: "lock_step (pc i, s\<lparr>lapicid := a\<rparr>) = (q, t)" by fastforce
    let ?C = "if pc i = Acq_cpu \<and> q = Outside then insert i C else if pc i = Rel_unlock then C - {i} else C"
    have "j \<in> ?C \<longleftrightarrow> (if j = i then holds_after (pc i) q (i \<in> C) else j \<in> C)" for j
      by (auto simp: holds_after_def)
    from lock_inv_moves [OF 3 lock_step_moves [OF Some q] this] Some q show ?thesis by simp
  qed
qed (auto simp: lock_inv_def cpu_ok_def owns_def)

lemma lock_run_inv:
  assumes "lock_run s0 c" "the_lock s0 = initlock n l"
  shows "lock_inv c"
  using assms
proof (induction rule: lock_run.induct)
  case start
  then show ?case by (simp add: lock_inv_def cpu_ok_def owns_def initlock_def)
next
  case (move c e)
  then show ?case by (blast intro: lock_inv_move)
qed (simp add: lock_inv_def)

text \<open>
  C15: from a lock that \<^verbatim>\<open>initlock\<close> initialised, in every interleaving of any number of CPUs that call
  \<^verbatim>\<open>acquire\<close> and \<^verbatim>\<open>release\<close> in any order and stop between any two accesses to the lock, whatever
  else they do to the rest of the machine, at most one CPU ever holds the lock, that is, has returned
  from \<^verbatim>\<open>acquire\<close> and not yet stored 0 in \<^verbatim>\<open>release\<close>.  While one does the lock is marked taken, no
  other CPU is past the \<^verbatim>\<open>xchg\<close>, and only the holder can be past the test of \<^verbatim>\<open>release\<close>.
\<close>

theorem mutual_exclusion:
  assumes "lock_run s0 (s, pc, C)" "the_lock s0 = initlock n l" "i \<in> C"
  shows "C = {i} \<and> locked (the_lock s) \<and> (\<forall>j. pc j \<noteq> Acq_cpu) \<and>
    (\<forall>j. pc j = Rel_cpu \<or> pc j = Rel_unlock \<longrightarrow> j = i)"
proof -
  have "lock_inv (s, pc, C)" using assms by (intro lock_run_inv) auto
  then have ok: "\<And>j. cpu_ok j (pc j) (j \<in> C) (the_lock s)"
    and one: "\<And>j k. owns (pc j) (j \<in> C) \<Longrightarrow> owns (pc k) (k \<in> C) \<Longrightarrow> j = k"
    by (auto simp: lock_inv_def)
  then have "j \<in> C \<or> pc j = Acq_cpu \<Longrightarrow> j = i" for j using assms(3) by (auto simp: owns_def)
  then show ?thesis using ok assms(3) unfolding cpu_ok_def owns_def by blast
qed

definition two_cpus :: lock_machine where
  "two_cpus = \<lparr>mem = (\<lambda>_. 0), lapicid = 0, iflag = (\<lambda>_. True), cr3 = 0,
     cpus = [\<lparr>apicid = 0, ncli = 0, intena = False, cpu_proc = None, ts_esp0 = 0\<rparr>,
             \<lparr>apicid = 7, ncli = 0, intena = False, cpu_proc = None, ts_esp0 = 0\<rparr>],
     the_lock = \<lparr>locked = False, lname = ''ptable'', lcpu = None\<rparr>\<rparr>"

lemma lock_run_fold: "lock_run s0 c \<Longrightarrow> lock_run s0 (fold lock_move es c)"
proof (induction es arbitrary: c)
  case (Cons e es)
  then show ?case using lock_run.move [of s0 c e] by simp
qed simp

text \<open>Both CPUs get to the \<^verbatim>\<open>xchg\<close>; the second one wins, the first one spins.\<close>

definition lock_race :: "lock_event list" where
  "lock_race = [Call_acquire 0, Call_acquire 1,
     Go 0, Go 7, Go 0, Go 7, Go 0, Go 7, Go 0, Go 7, Go 7, Go 0, Go 7]"

lemma lock_race_end:
  "fst (snd (fold lock_move lock_race (two_cpus, \<lambda>_. Outside, {}))) 0 = Acq_xchg"
  "snd (snd (fold lock_move lock_race (two_cpus, \<lambda>_. Outside, {}))) = {1}"
  by (simp_all add: lock_race_def two_cpus_def goto_def pushcli_def popcli_def mycpu_def cli_def sti_def
      upd_cpu_def xchg_locked_def Let_def)

theorem mutual_exclusion_witness:
  "\<exists>s pc. lock_run two_cpus (s, pc, {1}) \<and> pc 0 = Acq_xchg \<and> locked (the_lock s)"
proof -
  let ?c = "fold lock_move lock_race (two_cpus, \<lambda>_. Outside, {})"
  have "lock_run two_cpus ?c" by (intro lock_run_fold lock_run.start)
  then have r: "lock_run two_cpus (fst ?c, fst (snd ?c), {1})"
    by (metis lock_race_end(2) prod.collapse)
  have "the_lock two_cpus = initlock ''ptable'' (the_lock two_cpus)" by (simp add: two_cpus_def initlock_def)
  from mutual_exclusion [OF r this, of 1] r lock_race_end(1) show ?thesis by blast
qed

end
