(* ===== verification/Layout.thy ===== *)
theory Layout
  imports Prelude
begin

text \<open>
  The address-space constants and macros of \<^verbatim>\<open>memlayout.h\<close> and \<^verbatim>\<open>mmu.h\<close>, and the facts about pages
  that the allocators and the page tables rest on: rounding, alignment and the separation of distinct
  pages.
\<close>

section \<open>Constants and macros\<close>

abbreviation (input) PGSIZE :: u32 where "PGSIZE \<equiv> 4096"
abbreviation (input) KERNBASE :: u32 where "KERNBASE \<equiv> 0x80000000"
abbreviation (input) EXTMEM :: u32 where "EXTMEM \<equiv> 0x100000"
abbreviation (input) PHYSTOP :: u32 where "PHYSTOP \<equiv> 0xE000000"
abbreviation (input) DEVSPACE :: u32 where "DEVSPACE \<equiv> 0xFE000000"

definition V2P :: "u32 \<Rightarrow> u32" where "V2P a = a - KERNBASE"
definition P2V :: "u32 \<Rightarrow> u32" where "P2V a = a + KERNBASE"

definition PGROUNDUP :: "u32 \<Rightarrow> u32" where
  "PGROUNDUP sz = (sz + PGSIZE - 1) AND NOT (PGSIZE - 1)"

definition PGROUNDDOWN :: "u32 \<Rightarrow> u32" where
  "PGROUNDDOWN a = a AND NOT (PGSIZE - 1)"

definition PDX :: "u32 \<Rightarrow> u32" where "PDX va = drop_bit 22 va AND 0x3FF"
definition PTX :: "u32 \<Rightarrow> u32" where "PTX va = drop_bit 12 va AND 0x3FF"

definition PGADDR :: "u32 \<Rightarrow> u32 \<Rightarrow> u32 \<Rightarrow> u32" where
  "PGADDR d t off = push_bit 22 d OR push_bit 12 t OR off"

abbreviation (input) PTE_P :: u32 where "PTE_P \<equiv> 1"
abbreviation (input) PTE_W :: u32 where "PTE_W \<equiv> 2"
abbreviation (input) PTE_U :: u32 where "PTE_U \<equiv> 4"

definition PTE_ADDR :: "u32 \<Rightarrow> u32" where "PTE_ADDR pte = pte AND NOT 0xFFF"
definition PTE_FLAGS :: "u32 \<Rightarrow> u32" where "PTE_FLAGS pte = pte AND 0xFFF"

definition page_aligned :: "u32 \<Rightarrow> bool" where "page_aligned a \<longleftrightarrow> a mod PGSIZE = 0"

section \<open>Pages\<close>

lemma PGROUNDDOWN_eq: "PGROUNDDOWN x = x - x mod 4096"
proof -
  have "PGROUNDDOWN x = x AND NOT (mask 12)"
    by (simp add: PGROUNDDOWN_def mask_eq_exp_minus_1)
  also have "\<dots> = push_bit 12 (drop_bit 12 x)"
    by (rule bit_word_eqI) (auto simp: bit_simps)
  also have "\<dots> = x - take_bit 12 x"
    using bits_ident [of 12 x] by (simp add: eq_diff_eq)
  finally show ?thesis by (simp add: take_bit_eq_mod)
qed

lemma unat_PGROUNDDOWN: "unat (PGROUNDDOWN x) = unat x div 4096 * 4096"
proof -
  have "x mod 4096 \<le> x" by (simp add: word_le_nat_alt unat_mod)
  then have "unat (x - x mod 4096) = unat x - unat x mod 4096" by (simp add: unat_sub unat_mod)
  then show ?thesis by (simp only: PGROUNDDOWN_eq minus_mod_eq_div_mult)
qed

lemma page_aligned_iff: "page_aligned a \<longleftrightarrow> 4096 dvd unat a"
proof -
  have "unat (a mod 4096) = unat a mod 4096" by (simp add: unat_mod)
  then show ?thesis unfolding page_aligned_def by (metis dvd_eq_mod_eq_0 unat_eq_zero)
qed

lemma page_aligned_PGROUNDDOWN [simp]: "page_aligned (PGROUNDDOWN a)"
  by (simp add: page_aligned_iff unat_PGROUNDDOWN)

lemma PGROUNDUP_DOWN: "PGROUNDUP x = PGROUNDDOWN (x + 4095)"
  by (simp add: PGROUNDUP_def PGROUNDDOWN_def algebra_simps)

lemma unat_PGROUNDUP:
  "unat x + 4095 < 2 ^ 32 \<Longrightarrow> unat (PGROUNDUP x) = (unat x + 4095) div 4096 * 4096"
  by (simp add: PGROUNDUP_DOWN unat_PGROUNDDOWN unat_word_ariths)

lemma page_aligned_PGROUNDUP [simp]: "page_aligned (PGROUNDUP a)"
  by (simp add: PGROUNDUP_DOWN)

lemma page_aligned_add: "page_aligned a \<Longrightarrow> page_aligned b \<Longrightarrow> page_aligned (a + b)"
  by (simp add: page_aligned_iff unat_word_ariths dvd_mod)

lemma page_aligned_sub: "page_aligned a \<Longrightarrow> page_aligned b \<Longrightarrow> page_aligned (a - b)"
  by (auto simp: page_aligned_iff unat_sub_if_size word_size dvd_diff_nat dvd_add)

lemma pages_apart:
  assumes "page_aligned a" "page_aligned b" "a \<noteq> b"
  shows "4096 \<le> unat (a - b)"
proof -
  have "4096 dvd unat (a - b)" using page_aligned_sub [OF assms(1,2)] by (simp add: page_aligned_iff)
  moreover have "unat (a - b) \<noteq> 0" using assms(3) by (simp add: unat_eq_zero)
  ultimately show ?thesis by (simp add: dvd_imp_le)
qed

text \<open>Bytes of one page are not bytes of another.\<close>

lemma other_page_offset:
  assumes "page_aligned a" "page_aligned b" "a \<noteq> b" "unat i < 4096"
  shows "4096 \<le> unat (a + i - b)"
proof -
  have d: "4096 dvd unat (a - b)" using page_aligned_sub [OF assms(1,2)] by (simp add: page_aligned_iff)
  have lt: "unat (a - b) + unat i < 2 ^ 32"
  proof -
    from d obtain k where k: "unat (a - b) = 4096 * k" by blast
    with unat_u32_less [of "a - b"] have "k < 1048576" by simp
    with k assms(4) show ?thesis by simp
  qed
  have "unat ((a - b) + i) = unat (a - b) + unat i" using lt by (simp add: unat_word_ariths(1))
  then have "unat (a + i - b) = unat (a - b) + unat i" by (simp add: algebra_simps)
  then show ?thesis using pages_apart [OF assms(1-3)] by simp
qed

lemma V2P_P2V [simp]: "V2P (P2V a) = a" "P2V (V2P a) = a"
  by (simp_all add: V2P_def P2V_def)

end
