(* ===== verification/Kalloc.thy ===== *)
theory Kalloc
  imports Spinlock Layout
begin

text \<open>
  The physical page allocator.  \<open>kalloc\<close>, \<open>kfree\<close>, \<open>freerange\<close>, \<open>kinit1\<close>, \<open>kinit2\<close> are those of the
  modified kernel (\<^verbatim>\<open>xv6-public-modificado/kalloc.c\<close>), whose free blocks carry a size and whose
  \<^verbatim>\<open>kalloc\<close> looks for the smallest block that is large enough; \<open>kalloc_orig\<close>, \<open>kfree_orig\<close> are those
  of the unmodified kernel (\<^verbatim>\<open>xv6-public/kalloc.c\<close>).  The free list is threaded through the free pages
  themselves, so it lives in byte memory.  The locale \<open>page_allocator\<close> is what the rest of the kernel
  relies on; both allocators are shown to provide it.
\<close>

section \<open>State\<close>

text \<open>
  The globals of \<^verbatim>\<open>kalloc.c\<close>: the lock, the flag that enables it, the head of the free list (0 is
  the null pointer), and \<open>kend\<close>, the link-time address of the symbol \<^verbatim>\<open>end\<close>.
\<close>

record kmem_st = machine +
  kmem_lock :: spinlock
  use_lock :: bool
  freelist :: u32
  kend :: u32

definition lock_if_used :: "'z kmem_st_scheme \<Rightarrow> (unit, 'z kmem_st_scheme) kres" where
  "lock_if_used s = (if use_lock s then acquire kmem_lock kmem_lock_update s else Ok () s)"

definition unlock_if_used :: "'z kmem_st_scheme \<Rightarrow> (unit, 'z kmem_st_scheme) kres" where
  "unlock_if_used s = (if use_lock s then release kmem_lock kmem_lock_update s else Ok () s)"

section \<open>The modified allocator\<close>

text \<open>
  \<^verbatim>\<open>struct run\<close> of the modified kernel: \<^verbatim>\<open>size\<close> at offset 0, \<^verbatim>\<open>next\<close> at offset 4.
\<close>

definition run_size :: "memory \<Rightarrow> u32 \<Rightarrow> u32" where "run_size m r = load32 m r"
definition run_next :: "memory \<Rightarrow> u32 \<Rightarrow> u32" where "run_next m r = load32 m (r + 4)"

definition kfree :: "u32 \<Rightarrow> 'z kmem_st_scheme \<Rightarrow> (unit, 'z kmem_st_scheme) kres" where
  "kfree v s =
     (if v mod PGSIZE \<noteq> 0 \<or> v < kend s \<or> PHYSTOP \<le> V2P v then Panic ''kfree'' s
      else andthen (lock_if_used (s\<lparr>mem := memset (mem s) v 1 PGSIZE\<rparr>)) (\<lambda>_ s.
        let s = s\<lparr>mem := store32 (mem s) v PGSIZE\<rparr>;
            s = s\<lparr>mem := store32 (mem s) (v + 4) (freelist s)\<rparr>;
            s = s\<lparr>freelist := v\<rparr>
        in unlock_if_used s))"

text \<open>
  The search loop of \<^verbatim>\<open>kalloc\<close> with its four variables; it returns the best block and its
  predecessor.  On a cyclic list it does not return.
\<close>

partial_function (option) kalloc_scan ::
  "memory \<Rightarrow> u32 \<Rightarrow> u32 \<Rightarrow> u32 \<Rightarrow> u32 \<Rightarrow> (u32 \<times> u32) option" where
  "kalloc_scan m r prev best best_prev =
     (if r = 0 then Some (best, best_prev)
      else if PGSIZE \<le> run_size m r \<and> (best = 0 \<or> run_size m r < run_size m best)
      then kalloc_scan m (run_next m r) r r prev
      else kalloc_scan m (run_next m r) r best best_prev)"

definition kalloc :: "'z kmem_st_scheme \<Rightarrow> (u32, 'z kmem_st_scheme) kres" where
  "kalloc s =
     andthen (lock_if_used s) (\<lambda>_ s.
     case kalloc_scan (mem s) (freelist s) 0 0 0 of
       None \<Rightarrow> Spin s
     | Some (best, best_prev) \<Rightarrow>
         if best = 0 then andthen (unlock_if_used s) (\<lambda>_ s. Ok 0 s)
         else let s = (if best_prev = 0 then s\<lparr>freelist := run_next (mem s) best\<rparr>
                       else s\<lparr>mem := store32 (mem s) (best_prev + 4) (run_next (mem s) best)\<rparr>)
              in andthen (unlock_if_used s) (\<lambda>_ s. Ok best s))"

lemma kfree_Ok_bound: "kfree v s = Ok r t \<Longrightarrow> unat (v + PGSIZE) = unat v + 4096"
proof -
  assume "kfree v s = Ok r t"
  then have "V2P v < PHYSTOP" by (auto simp: kfree_def split: if_splits)
  then have "unat v + 4096 < 2 ^ 32" unfolding V2P_def by unat_arith
  then show ?thesis by (simp add: unat_word_ariths)
qed

text \<open>
  The loop of \<^verbatim>\<open>freerange\<close> ends because \<^verbatim>\<open>kfree\<close> refuses addresses above \<^verbatim>\<open>PHYSTOP\<close>, so the pointer
  cannot wrap around.
\<close>

function freerange_loop :: "u32 \<Rightarrow> u32 \<Rightarrow> 'z kmem_st_scheme \<Rightarrow> (unit, 'z kmem_st_scheme) kres" where
  "freerange_loop p vend s =
     (if p + PGSIZE \<le> vend
      then andthen (kfree p s) (\<lambda>_ s. freerange_loop (p + PGSIZE) vend s)
      else Ok () s)"
  by pat_completeness auto
termination
proof (relation "measure (\<lambda>(p, vend, s). 2 ^ 32 - unat p)")
  fix p vend :: u32 and s t :: "'z kmem_st_scheme" and r
  assume "kfree p s = Ok r t"
  then have "unat (p + PGSIZE) = unat p + 4096" by (rule kfree_Ok_bound)
  then show "((p + PGSIZE, vend, t), p, vend, s) \<in> measure (\<lambda>(p, vend, s). 2 ^ 32 - unat p)"
    using unat_u32_less [of p] by auto
qed simp

declare freerange_loop.simps [simp del]

definition freerange :: "u32 \<Rightarrow> u32 \<Rightarrow> 'z kmem_st_scheme \<Rightarrow> (unit, 'z kmem_st_scheme) kres" where
  "freerange vstart vend s = freerange_loop (PGROUNDUP vstart) vend s"

definition kinit1 :: "u32 \<Rightarrow> u32 \<Rightarrow> 'z kmem_st_scheme \<Rightarrow> (unit, 'z kmem_st_scheme) kres" where
  "kinit1 vstart vend s =
     freerange vstart vend
       (s\<lparr>kmem_lock := initlock ''kmem'' (kmem_lock s), use_lock := False, freelist := 0\<rparr>)"

definition kinit2 :: "u32 \<Rightarrow> u32 \<Rightarrow> 'z kmem_st_scheme \<Rightarrow> (unit, 'z kmem_st_scheme) kres" where
  "kinit2 vstart vend s =
     andthen (freerange vstart vend s) (\<lambda>_ s. Ok () (s\<lparr>use_lock := True\<rparr>))"

section \<open>The original allocator\<close>

text \<open>\<^verbatim>\<open>struct run\<close> of the unmodified kernel holds only \<^verbatim>\<open>next\<close>.\<close>

definition kfree_orig :: "u32 \<Rightarrow> 'z kmem_st_scheme \<Rightarrow> (unit, 'z kmem_st_scheme) kres" where
  "kfree_orig v s =
     (if v mod PGSIZE \<noteq> 0 \<or> v < kend s \<or> PHYSTOP \<le> V2P v then Panic ''kfree'' s
      else andthen (lock_if_used (s\<lparr>mem := memset (mem s) v 1 PGSIZE\<rparr>)) (\<lambda>_ s.
        let s = s\<lparr>mem := store32 (mem s) v (freelist s)\<rparr>;
            s = s\<lparr>freelist := v\<rparr>
        in unlock_if_used s))"

definition kalloc_orig :: "'z kmem_st_scheme \<Rightarrow> (u32, 'z kmem_st_scheme) kres" where
  "kalloc_orig s =
     andthen (lock_if_used s) (\<lambda>_ s.
     let r = freelist s;
         s = (if r \<noteq> 0 then s\<lparr>freelist := load32 (mem s) r\<rparr> else s)
     in andthen (unlock_if_used s) (\<lambda>_ s. Ok r s))"

section \<open>The lock bracket\<close>

interpretation kl: spin_lock kmem_lock kmem_lock_update
  by unfold_locales simp_all

definition kmem_ready :: "nat \<Rightarrow> 'z kmem_st_scheme \<Rightarrow> bool" where
  "kmem_ready i s \<longleftrightarrow> (use_lock s \<longrightarrow> on_cpu s i \<and> \<not> locked (kmem_lock s) \<and> lcpu (kmem_lock s) = None)"

definition in_cs :: "nat \<Rightarrow> 'z kmem_st_scheme \<Rightarrow> 'z kmem_st_scheme" where
  "in_cs i s = (if use_lock s then kl.held i s else s)"

definition after_cs :: "nat \<Rightarrow> 'z kmem_st_scheme \<Rightarrow> 'z kmem_st_scheme" where
  "after_cs i s = (if use_lock s then settled i s else s)"

lemma on_cpu_fields [simp]:
  "on_cpu (s\<lparr>mem := m\<rparr>) i = on_cpu s i"
  "on_cpu (t\<lparr>freelist := f\<rparr>) i = on_cpu t i"
  "on_cpu (t\<lparr>use_lock := b\<rparr>) i = on_cpu t i"
  "on_cpu (t\<lparr>kmem_lock := l\<rparr>) i = on_cpu t i"
  by (simp_all add: on_cpu_def)

lemma settled_fields [simp]:
  "mem (settled i s) = mem s" "lapicid (settled i s) = lapicid s" "iflag (settled i s) = iflag s"
  "kmem_lock (settled i t) = kmem_lock t" "freelist (settled i t) = freelist t"
  "use_lock (settled i t) = use_lock t" "kend (settled i t) = kend t"
  by (simp_all add: settled_def)

lemma held_fields [simp]:
  "mem (kl.held i s) = mem s" "freelist (kl.held i s) = freelist s" "use_lock (kl.held i s) = use_lock s"
  "kend (kl.held i s) = kend s"
  by (simp_all add: kl.held_def pushed_def)

lemma cs_fields [simp]:
  "mem (in_cs i s) = mem s" "freelist (in_cs i s) = freelist s" "use_lock (in_cs i s) = use_lock s"
  "kend (in_cs i s) = kend s"
  "mem (after_cs i s) = mem s" "freelist (after_cs i s) = freelist s" "use_lock (after_cs i s) = use_lock s"
  "kend (after_cs i s) = kend s" "kmem_lock (after_cs i s) = kmem_lock s" "iflag (after_cs i s) = iflag s"
  by (simp_all add: in_cs_def after_cs_def)

lemma kmem_ready_after [simp]: "kmem_ready i s \<Longrightarrow> kmem_ready i (after_cs i s)"
  by (auto simp: kmem_ready_def after_cs_def)

lemma kmem_ready_data [simp]:
  "kmem_ready i (s\<lparr>mem := m\<rparr>) = kmem_ready i s" "kmem_ready i (s\<lparr>freelist := f\<rparr>) = kmem_ready i s"
  by (simp_all add: kmem_ready_def)

lemma lock_if_used_eq: "kmem_ready i s \<Longrightarrow> lock_if_used s = Ok () (in_cs i s)"
  by (auto simp: lock_if_used_def kmem_ready_def in_cs_def kl.acquire_free)

lemma unlock_if_used_eq:
  assumes "kmem_ready i s"
  shows "unlock_if_used ((in_cs i s)\<lparr>mem := m, freelist := f\<rparr>) = Ok () ((after_cs i s)\<lparr>mem := m, freelist := f\<rparr>)"
proof (cases "use_lock s")
  case True
  let ?x = "(kl.held i s)\<lparr>mem := m, freelist := f\<rparr>"
  have c: "on_cpu s i" using assms True by (simp add: kmem_ready_def)
  have "release kmem_lock kmem_lock_update ?x
      = Ok () (kmem_lock_update (\<lambda>l. l\<lparr>lcpu := None, locked := False\<rparr>) (popped i ?x))"
    by (rule kl.release_eq) (use c kl.ncli_held [OF c] in simp_all)
  also have "popped i ?x = (popped i (kl.held i s))\<lparr>mem := m, freelist := f\<rparr>"
    by (rule kmem_st.equality) (simp_all add: popped_def)
  also have "popped i (kl.held i s) = kmem_lock_update (\<lambda>l. l\<lparr>locked := True, lcpu := Some i\<rparr>) (settled i s)"
    by (simp add: kl.held_def kl.popped_upd popped_pushed c)
  also have "kmem_lock_update (\<lambda>l. l\<lparr>lcpu := None, locked := False\<rparr>) (\<dots>\<lparr>mem := m, freelist := f\<rparr>)
     = (settled i s)\<lparr>mem := m, freelist := f\<rparr>"
    using assms True by (intro kmem_st.equality) (auto simp: kmem_ready_def intro!: spinlock.equality)
  finally show ?thesis using True by (simp add: unlock_if_used_def in_cs_def after_cs_def)
qed (simp add: unlock_if_used_def in_cs_def after_cs_def)

lemma upd_idem: "mem s = m \<Longrightarrow> s\<lparr>mem := m\<rparr> = s" "freelist t = f \<Longrightarrow> t\<lparr>freelist := f\<rparr> = t"
  by auto

lemma unlock_if_used_more:
  assumes "kmem_ready i s"
  shows "unlock_if_used ((in_cs i s)\<lparr>freelist := f\<rparr>) = Ok () ((after_cs i s)\<lparr>freelist := f\<rparr>)"
    and "unlock_if_used ((in_cs i s)\<lparr>mem := m\<rparr>) = Ok () ((after_cs i s)\<lparr>mem := m\<rparr>)"
    and "unlock_if_used (in_cs i s) = Ok () (after_cs i s)"
  using unlock_if_used_eq [OF assms, where m = "mem s" and f = f]
    unlock_if_used_eq [OF assms, where m = m and f = "freelist s"]
    unlock_if_used_eq [OF assms, where m = "mem s" and f = "freelist s"]
  by (simp_all add: upd_idem)

definition kpage :: "u32 \<Rightarrow> u32 \<Rightarrow> bool" where
  "kpage e v \<longleftrightarrow> v mod PGSIZE = 0 \<and> e \<le> v \<and> V2P v < PHYSTOP"

lemma kfree_eq:
  assumes "kmem_ready i s" "kpage (kend s) v"
  shows "kfree v s = Ok () ((after_cs i s)\<lparr>mem := store32 (store32 (memset (mem s) v 1 PGSIZE) v PGSIZE)
      (v + 4) (freelist s), freelist := v\<rparr>)"
proof -
  let ?s = "s\<lparr>mem := memset (mem s) v 1 PGSIZE\<rparr>"
  have r: "kmem_ready i ?s" using assms by simp
  have a: "(after_cs i ?s)\<lparr>mem := m, freelist := f\<rparr> = (after_cs i s)\<lparr>mem := m, freelist := f\<rparr>" for m f
    by (rule kmem_st.equality) (simp_all add: after_cs_def settled_def)
  show ?thesis
    using assms(2) unfolding kfree_def lock_if_used_eq [OF r]
    by (simp add: kpage_def Let_def unlock_if_used_eq [OF r] a not_less not_le)
qed

lemma kfree_bad: "\<not> kpage (kend s) v \<Longrightarrow> kfree v s = Panic ''kfree'' s"
  by (auto simp: kfree_def kpage_def not_less not_le mod_eq_0_iff_dvd)


section \<open>Linked lists in memory\<close>

fun chain :: "(u32 \<Rightarrow> u32) \<Rightarrow> u32 \<Rightarrow> u32 list \<Rightarrow> bool" where
  "chain nxt p [] = (p = 0)"
| "chain nxt p (x # xs) = (p = x \<and> x \<noteq> 0 \<and> chain nxt (nxt x) xs)"

lemma chain_cong: "(\<And>x. x \<in> set xs \<Longrightarrow> nxt x = nxt' x) \<Longrightarrow> chain nxt p xs = chain nxt' p xs"
  by (induction xs arbitrary: p) auto

lemma chain_upd: "a \<notin> set xs \<Longrightarrow> chain (nxt(a := v)) p xs = chain nxt p xs"
  by (rule chain_cong) auto

lemma chain_nonzero: "chain nxt p xs \<Longrightarrow> x \<in> set xs \<Longrightarrow> x \<noteq> 0"
  by (induction xs arbitrary: p) auto

lemma chain_head: "chain nxt p xs \<Longrightarrow> p = (if xs = [] then 0 else hd xs)"
  by (cases xs) auto

text \<open>Unlinking a block that is not the first.\<close>

lemma chain_unlink:
  "chain nxt p (as @ a # b # bs) \<Longrightarrow> distinct (as @ a # b # bs) \<Longrightarrow>
     chain (nxt(a := nxt b)) p (as @ a # bs)"
proof (induction as arbitrary: p)
  case Nil
  then have "chain (nxt(a := nxt b)) (nxt b) bs" by (simp add: chain_upd del: fun_upd_apply)
  with Nil show ?case by (simp add: fun_upd_def)
next
  case (Cons x as)
  then show ?case by auto
qed

text \<open>The search on the list the chain represents.\<close>

fun scan :: "(u32 \<Rightarrow> u32) \<Rightarrow> u32 list \<Rightarrow> u32 \<Rightarrow> u32 \<Rightarrow> u32 \<Rightarrow> u32 \<times> u32" where
  "scan sz [] prev best best_prev = (best, best_prev)"
| "scan sz (r # rs) prev best best_prev =
     (if PGSIZE \<le> sz r \<and> (best = 0 \<or> sz r < sz best) then scan sz rs r r prev
      else scan sz rs r best best_prev)"

lemma kalloc_scan_list:
  "chain (run_next m) r xs \<Longrightarrow>
     kalloc_scan m r prev best best_prev = Some (scan (run_size m) xs prev best best_prev)"
proof (induction xs arbitrary: r prev best best_prev)
  case Nil
  then show ?case by (simp add: kalloc_scan.simps)
next
  case (Cons x xs)
  then show ?case by (subst kalloc_scan.simps) auto
qed

text \<open>\<open>best_block sz ps b q\<close>: \<open>b\<close> is the first smallest block of at least a page in \<open>ps\<close>, and \<open>q\<close> its predecessor.\<close>

definition best_block :: "(u32 \<Rightarrow> u32) \<Rightarrow> u32 list \<Rightarrow> u32 \<Rightarrow> u32 \<Rightarrow> bool" where
  "best_block sz ps b q \<longleftrightarrow>
     (\<exists>as bs. ps = as @ b # bs \<and> q = (if as = [] then 0 else last as) \<and> PGSIZE \<le> sz b
        \<and> (\<forall>x \<in> set as. PGSIZE \<le> sz x \<longrightarrow> sz b < sz x) \<and> (\<forall>x \<in> set bs. PGSIZE \<le> sz x \<longrightarrow> sz b \<le> sz x))"

definition scan_inv :: "(u32 \<Rightarrow> u32) \<Rightarrow> u32 list \<Rightarrow> u32 \<Rightarrow> u32 \<Rightarrow> bool" where
  "scan_inv sz ps b q \<longleftrightarrow>
     (if b = 0 then q = 0 \<and> (\<forall>x \<in> set ps. \<not> PGSIZE \<le> sz x) else best_block sz ps b q)"

lemma best_block_snoc_old:
  "best_block sz ps b q \<Longrightarrow> \<not> (PGSIZE \<le> sz r \<and> sz r < sz b) \<Longrightarrow> best_block sz (ps @ [r]) b q"
proof -
  assume "best_block sz ps b q" and r: "\<not> (PGSIZE \<le> sz r \<and> sz r < sz b)"
  then obtain as bs where "ps = as @ b # bs" "q = (if as = [] then 0 else last as)" "PGSIZE \<le> sz b"
    "\<forall>x \<in> set as. PGSIZE \<le> sz x \<longrightarrow> sz b < sz x" "\<forall>x \<in> set bs. PGSIZE \<le> sz x \<longrightarrow> sz b \<le> sz x"
    unfolding best_block_def by blast
  with r show ?thesis unfolding best_block_def
    by (intro exI [of _ as] exI [of _ "bs @ [r]"]) auto
qed

lemma best_block_snoc_new:
  assumes "PGSIZE \<le> sz r" "\<And>x. x \<in> set ps \<Longrightarrow> PGSIZE \<le> sz x \<Longrightarrow> sz r < sz x"
  shows "best_block sz (ps @ [r]) r (if ps = [] then 0 else last ps)"
  unfolding best_block_def using assms by (intro exI [of _ ps] exI [of _ "[]"]) auto

lemma best_block_le: "best_block sz ps b q \<Longrightarrow> x \<in> set ps \<Longrightarrow> PGSIZE \<le> sz x \<Longrightarrow> sz b \<le> sz x"
  unfolding best_block_def by (auto simp: order.order_iff_strict)

lemma scan_correct:
  assumes "scan_inv sz ps b q" "prev = (if ps = [] then 0 else last ps)" "\<And>x. x \<in> set xs \<Longrightarrow> x \<noteq> 0"
  shows "scan_inv sz (ps @ xs) (fst (scan sz xs prev b q)) (snd (scan sz xs prev b q))"
  using assms
proof (induction xs arbitrary: ps prev b q)
  case Nil
  then show ?case by simp
next
  case (Cons r xs)
  have r: "r \<noteq> 0" using Cons.prems by simp
  show ?case
  proof (cases "PGSIZE \<le> sz r \<and> (b = 0 \<or> sz r < sz b)")
    case True
    have "best_block sz (ps @ [r]) r prev"
      unfolding Cons.prems(2)
      using True Cons.prems(1) best_block_le [of sz ps b q]
      by (intro best_block_snoc_new) (auto simp: scan_inv_def split: if_splits intro: less_le_trans)
    then have "scan_inv sz (ps @ [r]) r prev" using r by (simp add: scan_inv_def)
    from Cons.IH [OF this] Cons.prems True show ?thesis by simp
  next
    case False
    have "scan_inv sz (ps @ [r]) b q"
      using False Cons.prems(1) best_block_snoc_old [of sz ps b q r] by (auto simp: scan_inv_def)
    from Cons.IH [OF this] Cons.prems False show ?thesis by auto
  qed
qed


section \<open>The free list\<close>

text \<open>The blocks \<open>xs\<close> are on the free list, in order; each is a distinct page the allocator may hand out.\<close>

definition free_blocks :: "'z kmem_st_scheme \<Rightarrow> u32 list \<Rightarrow> bool" where
  "free_blocks s xs \<longleftrightarrow> chain (run_next (mem s)) (freelist s) xs \<and> distinct xs
     \<and> (\<forall>x \<in> set xs. kpage (kend s) x)"

lemma kpage_aligned: "kpage e v \<Longrightarrow> page_aligned v"
  by (simp add: kpage_def page_aligned_def)

lemma run_next_other:
  assumes "page_aligned x" "page_aligned v" "x \<noteq> v" "\<And>b. 4096 \<le> unat (b - v) \<Longrightarrow> m' b = m b"
  shows "run_next m' x = run_next m x" "run_size m' x = run_size m x"
proof -
  have *: "m' (x + k) = m (x + k)" if "unat k < 4096" for k
    using assms other_page_offset [OF assms(1-3) that] by blast
  have "m' (x + 4 + i) = m (x + 4 + i)" if "i < 4" for i
  proof -
    have "unat (4 + i) < 4096" using that by unat_arith
    then show ?thesis using * [of "4 + i"] by (simp add: add.assoc)
  qed
  then show "run_next m' x = run_next m x" unfolding run_next_def by (rule load32_cong)
  have "m' (x + i) = m (x + i)" if "i < 4" for i
    using * [of i] that by (simp add: word_less_nat_alt)
  then show "run_size m' x = run_size m x" unfolding run_size_def by (rule load32_cong)
qed

lemma store32_same_page:
  assumes "4096 \<le> unat (b - v)" "unat k \<le> 4092"
  shows "store32 m (v + k) w b = m b"
proof (rule store32_other)
  have "k \<le> b - v" using assms by (simp add: word_le_nat_alt)
  then have "unat (b - v - k) = unat (b - v) - unat k" by (rule unat_sub)
  then show "4 \<le> b - (v + k)" using assms by (simp add: word_le_nat_alt diff_diff_eq)
qed

lemma kfree_free_blocks:
  assumes "kmem_ready i s" "free_blocks s xs" "kpage (kend s) v" "v \<notin> set xs" "v \<noteq> 0"
  obtains t where "kfree v s = Ok () t" "free_blocks t (v # xs)" "kmem_ready i t" "kend t = kend s"
    "use_lock t = use_lock s" "run_size (mem t) v = PGSIZE"
    "\<And>x. x \<in> set xs \<Longrightarrow> run_size (mem t) x = run_size (mem s) x"
proof -
  let ?m = "store32 (store32 (memset (mem s) v 1 PGSIZE) v PGSIZE) (v + 4) (freelist s)"
  let ?t = "(after_cs i s)\<lparr>mem := ?m, freelist := v\<rparr>"
  have far: "?m b = mem s b" if "4096 \<le> unat (b - v)" for b
    using that store32_same_page [OF that, of 4] store32_same_page [OF that, of 0]
    by (simp add: memset_eq word_less_nat_alt)
  have v: "page_aligned v" using assms(3) by (rule kpage_aligned)
  have oth: "run_next ?m x = run_next (mem s) x \<and> run_size ?m x = run_size (mem s) x" if "x \<in> set xs" for x
    using that assms v by (intro conjI run_next_other [OF _ v]) (auto simp: free_blocks_def kpage_aligned far)
  have "run_next ?m v = freelist s" "run_size ?m v = PGSIZE"
    by (simp_all add: run_next_def run_size_def mem_simps)
  moreover have "chain (run_next ?m) (freelist s) xs = chain (run_next (mem s)) (freelist s) xs"
    by (rule chain_cong) (simp add: oth)
  ultimately have "free_blocks ?t (v # xs)"
    using assms by (auto simp: free_blocks_def)
  then show thesis
    using that [of ?t] assms oth \<open>run_size ?m v = PGSIZE\<close> kfree_eq [OF assms(1,3)] by simp
qed


lemma kpage_nonzero: "kpage e v \<Longrightarrow> v \<noteq> 0"
  by (auto simp: kpage_def V2P_def)

lemma kalloc_eq:
  assumes "kmem_ready i s" "kalloc_scan (mem s) (freelist s) 0 0 0 = Some (b, q)"
  shows "kalloc s = Ok b (if b = 0 then after_cs i s
     else if q = 0 then (after_cs i s)\<lparr>freelist := run_next (mem s) b\<rparr>
     else (after_cs i s)\<lparr>mem := store32 (mem s) (q + 4) (run_next (mem s) b)\<rparr>)"
  using assms by (simp add: kalloc_def lock_if_used_eq unlock_if_used_more)

lemma kalloc_free_blocks:
  assumes "kmem_ready i s" "free_blocks s xs"
  obtains b t where "kalloc s = Ok b t" "kmem_ready i t" "kend t = kend s" "use_lock t = use_lock s"
    "if b = 0 then (\<forall>x \<in> set xs. run_size (mem s) x < PGSIZE) \<and> free_blocks t xs
     else b \<in> set xs \<and> PGSIZE \<le> run_size (mem s) b
       \<and> (\<forall>x \<in> set xs. PGSIZE \<le> run_size (mem s) x \<longrightarrow> run_size (mem s) b \<le> run_size (mem s) x)
       \<and> free_blocks t (remove1 b xs)"
    "\<And>x. x \<in> set xs \<Longrightarrow> run_size (mem t) x = run_size (mem s) x"
proof -
  let ?sz = "run_size (mem s)"
  have ch: "chain (run_next (mem s)) (freelist s) xs" and dist: "distinct xs"
    and pg: "\<And>x. x \<in> set xs \<Longrightarrow> kpage (kend s) x" using assms(2) by (auto simp: free_blocks_def)
  obtain b q where bq: "scan ?sz xs 0 0 0 = (b, q)" by fastforce
  have inv: "scan_inv ?sz xs b q"
    using scan_correct [of ?sz "[]" 0 0 0 xs] bq chain_nonzero [OF ch] by (auto simp: scan_inv_def)
  define t where "t = (if b = 0 then after_cs i s
     else if q = 0 then (after_cs i s)\<lparr>freelist := run_next (mem s) b\<rparr>
     else (after_cs i s)\<lparr>mem := store32 (mem s) (q + 4) (run_next (mem s) b)\<rparr>)"
  have run: "kalloc s = Ok b t"
    using kalloc_eq [OF assms(1)] kalloc_scan_list [OF ch] bq by (simp add: t_def)
  have frame: "kmem_ready i t" "kend t = kend s" "use_lock t = use_lock s"
    using assms(1) by (simp_all add: t_def)
  show thesis
  proof (cases "b = 0")
    case True
    with inv assms(2) have "(\<forall>x \<in> set xs. ?sz x < PGSIZE) \<and> free_blocks t xs"
      by (auto simp: scan_inv_def t_def free_blocks_def not_le)
    with that [OF run frame] True show thesis by (simp add: t_def)
  next
    case False
    with inv have bb: "best_block ?sz xs b q" by (simp add: scan_inv_def)
    then obtain as bs where ab: "xs = as @ b # bs" "q = (if as = [] then 0 else last as)"
      unfolding best_block_def by blast
    have rem: "remove1 b xs = as @ bs" using ab dist by (simp add: remove1_append)
    have "free_blocks t (as @ bs) \<and> (\<forall>x \<in> set xs. run_size (mem t) x = ?sz x)"
    proof (cases "as = []")
      case True
      with ab ch dist pg False show ?thesis by (auto simp: t_def free_blocks_def)
    next
      case nil: False
      then obtain cs where as: "as = cs @ [q]" using ab(2) by (metis append_butlast_last_id)
      have xs: "xs = cs @ q # b # bs" using ab(1) as by simp
      have q: "kpage (kend s) q" by (rule pg) (simp add: xs)
      let ?m = "store32 (mem s) (q + 4) (run_next (mem s) b)"
      have far: "?m x = mem s x" if "4096 \<le> unat (x - q)" for x
        using store32_same_page [OF that, of 4] by simp
      have oth: "run_next ?m x = run_next (mem s) x" "run_size ?m x = ?sz x" if "x \<in> set xs" "x \<noteq> q" for x
        using that q pg by (auto intro!: run_next_other kpage_aligned far)
      have qq: "run_next ?m q = run_next (mem s) b" "run_size ?m q = ?sz q"
      proof -
        show "run_next ?m q = run_next (mem s) b" by (simp add: run_next_def mem_simps)
        show "run_size ?m q = ?sz q" unfolding run_size_def by (rule load32_store32_other) simp_all
      qed
      have "chain ((run_next (mem s))(q := run_next (mem s) b)) (freelist s) (as @ bs)"
        using chain_unlink [OF ch [unfolded xs] dist [unfolded xs]] by (simp add: as)
      moreover have "chain (run_next ?m) (freelist s) (as @ bs)
          = chain ((run_next (mem s))(q := run_next (mem s) b)) (freelist s) (as @ bs)"
        by (rule chain_cong) (auto simp: oth qq xs as)
      moreover have "mem t = ?m" "freelist t = freelist s" "kend t = kend s"
        using False kpage_nonzero [OF q] by (simp_all add: t_def)
      moreover have "distinct (as @ bs)" "\<forall>x \<in> set (as @ bs). kpage (kend s) x"
        using dist pg by (auto simp: xs as)
      ultimately show ?thesis using oth qq unfolding free_blocks_def by metis
    qed
    with that [OF run frame] bb ab best_block_le [OF bb] False rem
    show thesis by (auto simp: best_block_def)
  qed
qed


text \<open>
  C12: on a well-formed free list with blocks of any sizes, \<^verbatim>\<open>kalloc\<close> of the modified kernel returns
  null exactly when no block has a page; otherwise it returns a smallest block among those of at least
  a page and unlinks exactly that block.  The lock is free again afterwards and the block sizes are
  untouched.
\<close>

theorem kalloc_best_fit:
  assumes "kmem_ready i s" "free_blocks s xs"
  shows "\<exists>b t. kalloc s = Ok b t \<and> kmem_ready i t \<and>
    (if b = 0 then (\<forall>x \<in> set xs. run_size (mem s) x < PGSIZE) \<and> free_blocks t xs
     else b \<in> set xs \<and> PGSIZE \<le> run_size (mem s) b
       \<and> (\<forall>x \<in> set xs. PGSIZE \<le> run_size (mem s) x \<longrightarrow> run_size (mem s) b \<le> run_size (mem s) x)
       \<and> free_blocks t (remove1 b xs))
    \<and> (\<forall>x \<in> set xs. run_size (mem t) x = run_size (mem s) x)"
  by (rule kalloc_free_blocks [OF assms]) (intro exI conjI ballI; assumption)

definition boot_st :: kmem_st where
  "boot_st = \<lparr>mem = (\<lambda>_. 0), lapicid = 0, iflag = (\<lambda>_. False), cr3 = 0, cpus = [],
     kmem_lock = \<lparr>locked = False, lname = ''kmem'', lcpu = None\<rparr>, use_lock = False,
     freelist = 0, kend = 0x80115000\<rparr>"

lemma boot_st_blocks: "kmem_ready i boot_st" "free_blocks boot_st []" "kend boot_st = 0x80115000"
  by (simp_all add: kmem_ready_def free_blocks_def boot_st_def)

lemma kpage_example: "kpage 0x80115000 0x80116000"
  by (simp add: kpage_def V2P_def)

theorem kalloc_best_fit_witness:
  "\<exists>s t. kfree 0x80116000 boot_st = Ok () s \<and> kalloc s = Ok 0x80116000 t \<and> free_blocks t []"
proof -
  have v: "kpage (kend boot_st) 0x80116000" by (simp add: boot_st_blocks(3) kpage_example)
  obtain s where s: "kfree 0x80116000 boot_st = Ok () s" "free_blocks s [0x80116000]" "kmem_ready 0 s"
    "run_size (mem s) 0x80116000 = PGSIZE"
    by (rule kfree_free_blocks [OF boot_st_blocks(1) [of 0] boot_st_blocks(2) v])
      (simp, rule kpage_nonzero [OF v], assumption)
  from kalloc_best_fit [OF s(3,2)] s(4) obtain t where "kalloc s = Ok 0x80116000 t" "free_blocks t []"
    by (auto split: if_splits)
  with s(1) show ?thesis by blast
qed

section \<open>The original free list\<close>

definition free_blocks_orig :: "'z kmem_st_scheme \<Rightarrow> u32 list \<Rightarrow> bool" where
  "free_blocks_orig s xs \<longleftrightarrow> chain (load32 (mem s)) (freelist s) xs \<and> distinct xs
     \<and> (\<forall>x \<in> set xs. kpage (kend s) x)"

lemma kalloc_orig_free_blocks:
  assumes "kmem_ready i s" "free_blocks_orig s xs"
  obtains t where "kalloc_orig s = Ok (if xs = [] then 0 else hd xs) t" "kmem_ready i t" "kend t = kend s"
    "free_blocks_orig t (tl xs)"
proof -
  define t where "t = (if freelist s = 0 then after_cs i s
     else (after_cs i s)\<lparr>freelist := load32 (mem s) (freelist s)\<rparr>)"
  have run: "kalloc_orig s = Ok (freelist s) t"
    using assms(1) by (simp add: kalloc_orig_def lock_if_used_eq unlock_if_used_more t_def Let_def)
  have "freelist s = (if xs = [] then 0 else hd xs)"
    using assms(2) chain_head [of _ "freelist s" xs] by (auto simp: free_blocks_orig_def)
  moreover have "free_blocks_orig t (tl xs)"
    using assms(2) by (cases xs) (auto simp: free_blocks_orig_def t_def)
  moreover have "kmem_ready i t" "kend t = kend s" using assms(1) by (simp_all add: t_def)
  ultimately show thesis using run that [of t] by simp
qed

lemma kfree_orig_free_blocks:
  assumes "kmem_ready i s" "free_blocks_orig s xs" "kpage (kend s) v" "v \<notin> set xs"
  obtains t where "kfree_orig v s = Ok () t" "free_blocks_orig t (v # xs)" "kmem_ready i t" "kend t = kend s"
proof -
  let ?s = "s\<lparr>mem := memset (mem s) v 1 PGSIZE\<rparr>"
  let ?m = "store32 (memset (mem s) v 1 PGSIZE) v (freelist s)"
  let ?t = "(after_cs i s)\<lparr>mem := ?m, freelist := v\<rparr>"
  have r: "kmem_ready i ?s" using assms by simp
  have a: "(after_cs i ?s)\<lparr>mem := m, freelist := f\<rparr> = (after_cs i s)\<lparr>mem := m, freelist := f\<rparr>" for m f
    by (rule kmem_st.equality) (simp_all add: after_cs_def settled_def)
  have run: "kfree_orig v s = Ok () ?t"
    using assms(3) unfolding kfree_orig_def lock_if_used_eq [OF r]
    by (simp add: kpage_def Let_def unlock_if_used_eq [OF r] a not_less not_le)
  have far: "?m b = mem s b" if "4096 \<le> unat (b - v)" for b
    using that store32_same_page [OF that, of 0] by (simp add: memset_eq word_less_nat_alt)
  have v: "page_aligned v" using assms(3) by (rule kpage_aligned)
  have oth: "load32 ?m x = load32 (mem s) x" if "x \<in> set xs" for x
    using run_next_other(2) [of x v ?m "mem s"] that assms v
    by (auto simp: free_blocks_orig_def far run_size_def dest: kpage_aligned)
  have "chain (load32 ?m) (freelist s) xs = chain (load32 (mem s)) (freelist s) xs"
    by (rule chain_cong) (simp add: oth)
  then have "free_blocks_orig ?t (v # xs)"
    using assms kpage_nonzero [OF assms(3)] by (auto simp: free_blocks_orig_def mem_simps)
  then show thesis using that [OF run] assms by simp
qed

section \<open>The contract of a page allocator\<close>

text \<open>
  A client of an allocator: \<open>None\<close> asks for a page, \<open>Some v\<close> gives one back; the result is the
  list of pages it was given.  \<open>legal\<close> sequences give back only valid pages that are not free;
  \<open>answers\<close> is what a last-in first-out allocator with the free pages \<open>xs\<close> replies.
\<close>

fun client :: "('s \<Rightarrow> (u32, 's) kres) \<Rightarrow> (u32 \<Rightarrow> 's \<Rightarrow> (unit, 's) kres) \<Rightarrow> u32 option list \<Rightarrow> 's \<Rightarrow> (u32 list, 's) kres" where
  "client alloc free [] s = Ok [] s"
| "client alloc free (None # ops) s =
     andthen (alloc s) (\<lambda>p s. andthen (client alloc free ops s) (\<lambda>ps s. Ok (p # ps) s))"
| "client alloc free (Some v # ops) s = andthen (free v s) (\<lambda>_ s. client alloc free ops s)"

fun legal :: "(u32 \<Rightarrow> bool) \<Rightarrow> u32 list \<Rightarrow> u32 option list \<Rightarrow> bool" where
  "legal ok xs [] = True"
| "legal ok xs (None # ops) = legal ok (tl xs) ops"
| "legal ok xs (Some v # ops) = (ok v \<and> v \<notin> set xs \<and> legal ok (v # xs) ops)"

fun answers :: "u32 list \<Rightarrow> u32 option list \<Rightarrow> u32 list" where
  "answers xs [] = []"
| "answers xs (None # ops) = (if xs = [] then 0 else hd xs) # answers (tl xs) ops"
| "answers xs (Some v # ops) = answers (v # xs) ops"

locale page_allocator =
  fixes alloc :: "'s \<Rightarrow> (u32, 's) kres"
    and free :: "u32 \<Rightarrow> 's \<Rightarrow> (unit, 's) kres"
    and owns :: "'s \<Rightarrow> u32 list \<Rightarrow> bool"
    and valid :: "'s \<Rightarrow> u32 \<Rightarrow> bool"
  assumes alloc_empty: "owns s [] \<Longrightarrow> \<exists>t. alloc s = Ok 0 t \<and> owns t [] \<and> valid t = valid s"
    and alloc_page: "owns s (x # xs) \<Longrightarrow> \<exists>t. alloc s = Ok x t \<and> owns t xs \<and> valid t = valid s"
    and free_page: "owns s xs \<Longrightarrow> valid s v \<Longrightarrow> v \<notin> set xs \<Longrightarrow>
      \<exists>t. free v s = Ok () t \<and> owns t (v # xs) \<and> valid t = valid s"
    and owns_valid: "owns s xs \<Longrightarrow> x \<in> set xs \<Longrightarrow> valid s x \<and> x \<noteq> 0"
    and owns_distinct: "owns s xs \<Longrightarrow> distinct xs"
begin

lemma alloc_null_iff: "owns s xs \<Longrightarrow> \<exists>p t. alloc s = Ok p t \<and> (p = 0 \<longleftrightarrow> xs = [])"
  using alloc_empty alloc_page owns_valid by (cases xs) fastforce+

lemma alloc_free:
  assumes "owns s (x # xs)"
  shows "\<exists>t u. alloc s = Ok x t \<and> free x t = Ok () u \<and> owns u (x # xs)"
proof -
  obtain t where t: "alloc s = Ok x t" "owns t xs" "valid t = valid s" using alloc_page [OF assms] by blast
  have "valid t x" "x \<notin> set xs" using owns_valid [OF assms, of x] owns_distinct [OF assms] t by auto
  then show ?thesis using free_page [OF t(2)] t by blast
qed

lemma client_answers:
  "owns s xs \<Longrightarrow> legal (valid s) xs ops \<Longrightarrow> \<exists>t. client alloc free ops s = Ok (answers xs ops) t"
proof (induction ops arbitrary: s xs)
  case Nil
  then show ?case by simp
next
  case (Cons op ops)
  show ?case
  proof (cases op)
    case None
    show ?thesis
    proof (cases xs)
      case Nil
      then obtain t where "alloc s = Ok 0 t" "owns t []" "valid t = valid s"
        using alloc_empty Cons.prems by blast
      then show ?thesis using Cons.IH [of t "[]"] Cons.prems None Nil by auto
    next
      case (Cons y ys)
      then obtain t where "alloc s = Ok y t" "owns t ys" "valid t = valid s"
        using alloc_page Cons.prems by blast
      then show ?thesis using Cons.IH [of t ys] Cons.prems None Cons by auto
    qed
  next
    case (Some v)
    then obtain t where "free v s = Ok () t" "owns t (v # xs)" "valid t = valid s"
      using free_page Cons.prems by fastforce
    then show ?thesis using Cons.IH [of t "v # xs"] Cons.prems Some by auto
  qed
qed

end


section \<open>Both allocators provide the contract\<close>

definition kmem_owns :: "'z kmem_st_scheme \<Rightarrow> u32 list \<Rightarrow> bool" where
  "kmem_owns s xs \<longleftrightarrow> (\<exists>i. kmem_ready i s) \<and> free_blocks s xs
     \<and> (\<forall>x \<in> set xs. run_size (mem s) x = PGSIZE)"

definition kmem_owns_orig :: "'z kmem_st_scheme \<Rightarrow> u32 list \<Rightarrow> bool" where
  "kmem_owns_orig s xs \<longleftrightarrow> (\<exists>i. kmem_ready i s) \<and> free_blocks_orig s xs"

lemma scan_equal_sizes:
  "b \<noteq> 0 \<Longrightarrow> sz b = PGSIZE \<Longrightarrow> \<forall>x \<in> set xs. sz x = PGSIZE \<Longrightarrow> scan sz xs p b q = (b, q)"
  by (induction xs arbitrary: p) auto

lemma kalloc_lifo:
  assumes "kmem_owns s xs"
  shows "\<exists>t. kalloc s = Ok (if xs = [] then 0 else hd xs) t \<and> kmem_owns t (tl xs) \<and> kend t = kend s \<and> mem t = mem s"
proof -
  obtain i where i: "kmem_ready i s" and fb: "free_blocks s xs"
    and sz: "\<forall>x \<in> set xs. run_size (mem s) x = PGSIZE" using assms by (auto simp: kmem_owns_def)
  have ch: "chain (run_next (mem s)) (freelist s) xs" using fb by (simp add: free_blocks_def)
  have "scan (run_size (mem s)) xs 0 0 0 = (if xs = [] then 0 else hd xs, 0)"
    using sz chain_nonzero [OF ch] by (cases xs) (auto simp: scan_equal_sizes)
  then have run: "kalloc s = Ok (if xs = [] then 0 else hd xs) t" if "t = (if xs = [] then after_cs i s
      else (after_cs i s)\<lparr>freelist := run_next (mem s) (hd xs)\<rparr>)" for t
    using kalloc_eq [OF i] kalloc_scan_list [OF ch] chain_nonzero [OF ch] that by (cases xs) auto
  show ?thesis using run [OF refl] i fb sz
    by (cases xs) (auto simp: kmem_owns_def free_blocks_def intro!: exI [of _ i])
qed

lemma kfree_owns:
  assumes "kmem_owns s xs" "kpage (kend s) v" "v \<notin> set xs"
  shows "\<exists>t. kfree v s = Ok () t \<and> kmem_owns t (v # xs) \<and> kend t = kend s"
proof -
  obtain i where i: "kmem_ready i s" "free_blocks s xs" using assms by (auto simp: kmem_owns_def)
  from kfree_free_blocks [OF i assms(2,3) kpage_nonzero [OF assms(2)]] obtain t where
    "kfree v s = Ok () t" "free_blocks t (v # xs)" "kmem_ready i t" "kend t = kend s"
    "run_size (mem t) v = PGSIZE" "\<And>x. x \<in> set xs \<Longrightarrow> run_size (mem t) x = run_size (mem s) x" by metis
  with assms(1) show ?thesis by (auto simp: kmem_owns_def)
qed

interpretation km: page_allocator kalloc kfree kmem_owns "\<lambda>s. kpage (kend s)"
proof (unfold_locales, goal_cases)
  case (1 s) then show ?case using kalloc_lifo [of s "[]"] by auto
next
  case (2 s x xs) then show ?case using kalloc_lifo [of s "x # xs"] by auto
next
  case (3 s xs v)
  from kfree_owns [OF this] show ?case by (elim exE conjE) (auto intro: exI)
next
  case (4 s xs x) then show ?case by (auto simp: kmem_owns_def free_blocks_def dest: kpage_nonzero)
next
  case (5 s xs) then show ?case by (auto simp: kmem_owns_def free_blocks_def)
qed

lemma kalloc_orig_lifo:
  assumes "kmem_owns_orig s xs"
  shows "\<exists>t. kalloc_orig s = Ok (if xs = [] then 0 else hd xs) t \<and> kmem_owns_orig t (tl xs) \<and> kend t = kend s"
proof -
  obtain i where i: "kmem_ready i s" "free_blocks_orig s xs" using assms by (auto simp: kmem_owns_orig_def)
  from kalloc_orig_free_blocks [OF i] obtain t where "kalloc_orig s = Ok (if xs = [] then 0 else hd xs) t"
    "kmem_ready i t" "kend t = kend s" "free_blocks_orig t (tl xs)" .
  then show ?thesis by (auto simp: kmem_owns_orig_def)
qed

interpretation ko: page_allocator kalloc_orig kfree_orig kmem_owns_orig "\<lambda>s. kpage (kend s)"
proof (unfold_locales, goal_cases)
  case (1 s) then show ?case using kalloc_orig_lifo [of s "[]"] by auto
next
  case (2 s x xs) then show ?case using kalloc_orig_lifo [of s "x # xs"] by auto
next
  case (3 s xs v)
  then obtain i where "kmem_ready i s" "free_blocks_orig s xs" by (auto simp: kmem_owns_orig_def)
  from kfree_orig_free_blocks [OF this 3(2,3)] obtain t where
    "kfree_orig v s = Ok () t" "free_blocks_orig t (v # xs)" "kmem_ready i t" "kend t = kend s" .
  then show ?case by (auto simp: kmem_owns_orig_def)
next
  case (4 s xs x) then show ?case by (auto simp: kmem_owns_orig_def free_blocks_orig_def dest: kpage_nonzero)
next
  case (5 s xs) then show ?case by (auto simp: kmem_owns_orig_def free_blocks_orig_def)
qed

text \<open>
  C13: every block \<^verbatim>\<open>kfree\<close> links in is one page, so no client can tell the modified allocator from the
  original: from equal free lists, any legal sequence of allocations and frees is answered with the
  same pages by both.
\<close>

theorem best_fit_is_original:
  assumes "kmem_owns s xs" "kmem_owns_orig s0 xs" "kend s = kend s0" "legal (kpage (kend s)) xs ops"
  shows "\<exists>ps t t0. client kalloc kfree ops s = Ok ps t \<and> client kalloc_orig kfree_orig ops s0 = Ok ps t0"
proof -
  obtain t where "client kalloc kfree ops s = Ok (answers xs ops) t"
    using km.client_answers [OF assms(1,4)] by blast
  moreover obtain t0 where "client kalloc_orig kfree_orig ops s0 = Ok (answers xs ops) t0"
    using ko.client_answers [OF assms(2) assms(4) [unfolded assms(3)]] by blast
  ultimately show ?thesis by blast
qed

theorem best_fit_is_original_witness:
  "\<exists>t t0. client kalloc kfree [Some 0x80116000, Some 0x80117000, None, None, None] boot_st
        = Ok [0x80117000, 0x80116000, 0] t
      \<and> client kalloc_orig kfree_orig [Some 0x80116000, Some 0x80117000, None, None, None] boot_st
        = Ok [0x80117000, 0x80116000, 0] t0"
proof -
  let ?ops = "[Some 0x80116000, Some 0x80117000, None, None, None] :: u32 option list"
  have o: "kmem_owns boot_st []" "kmem_owns_orig boot_st []"
    by (auto simp: kmem_owns_def kmem_owns_orig_def free_blocks_def free_blocks_orig_def kmem_ready_def boot_st_def)
  have l: "legal (kpage (kend boot_st)) [] ?ops" by (simp add: boot_st_def kpage_def V2P_def)
  from km.client_answers [OF o(1) l] best_fit_is_original [OF o refl l] show ?thesis by auto
qed

section \<open>Initialisation\<close>

definition page_run :: "u32 \<Rightarrow> nat \<Rightarrow> u32 list" where
  "page_run p n = map (\<lambda>k. p + PGSIZE * of_nat k) [0..<n]"

lemma page_run_Suc: "page_run p (Suc n) = p # page_run (p + PGSIZE) n"
  by (simp add: page_run_def upt_conv_Cons map_Suc_upt [symmetric] algebra_simps del: upt_Suc)

lemma freerange_loop_owns:
  assumes "kmem_owns s xs" "page_aligned p" "unat p + 4096 * n = e" "e \<le> unat vend" "unat vend < e + 4096"
    "unat vend \<le> 0x8E000000" "kend s \<le> p" "KERNBASE \<le> p"
    "\<And>x. x \<in> set xs \<Longrightarrow> unat x < unat p \<or> unat vend \<le> unat x"
  shows "\<exists>t. freerange_loop p vend s = Ok () t \<and> kmem_owns t (rev (page_run p n) @ xs)
    \<and> kend t = kend s \<and> use_lock t = use_lock s"
  using assms
proof (induction n arbitrary: p s xs)
  case 0
  have "\<not> p + PGSIZE \<le> vend"
    using 0 by (simp add: word_le_nat_alt unat_word_ariths)
  then show ?case using 0 by (simp add: freerange_loop.simps page_run_def)
next
  case (Suc n)
  have p1: "unat (p + PGSIZE) = unat p + 4096" using Suc.prems by (simp add: unat_word_ariths)
  have le: "p + PGSIZE \<le> vend" using Suc.prems p1 by (simp add: word_le_nat_alt)
  have "unat p < 0x8E000000" using Suc.prems by simp
  then have "V2P p < PHYSTOP" using Suc.prems(8) unfolding V2P_def by unat_arith
  then have kp: "kpage (kend s) p" using Suc.prems by (simp add: kpage_def page_aligned_def)
  have "p \<notin> set xs" using Suc.prems(3,4,9) by fastforce
  then obtain t where t: "kfree p s = Ok () t" "kmem_owns t (p # xs)" "kend t = kend s"
    using kfree_owns [OF Suc.prems(1) kp] by blast
  have ul: "use_lock t = use_lock s"
    using t(1) kp Suc.prems(1) by (auto simp: kmem_owns_def kfree_eq)
  have "\<exists>u. freerange_loop (p + PGSIZE) vend t = Ok () u \<and> kmem_owns u (rev (page_run (p + PGSIZE) n) @ p # xs)
    \<and> kend u = kend t \<and> use_lock u = use_lock t"
  proof (rule Suc.IH [OF t(2)])
    show "page_aligned (p + PGSIZE)" using Suc.prems(2) by (simp add: page_aligned_iff p1)
    show "kend t \<le> p + PGSIZE" "KERNBASE \<le> p + PGSIZE"
      using Suc.prems t(3) p1 by (auto simp: word_le_nat_alt)
    show "unat x < unat (p + PGSIZE) \<or> unat vend \<le> unat x" if "x \<in> set (p # xs)" for x
      using that Suc.prems(9) [of x] p1 by auto
  qed (use Suc.prems p1 in auto)
  then show ?case using le t ul by (auto simp: freerange_loop.simps [of p] page_run_Suc)
qed

text \<open>
  Whatever state the machine boots in, \<^verbatim>\<open>kinit1\<close> leaves exactly the whole pages of the given range
  on the free list, last page first, provided the range lies between \<^verbatim>\<open>end\<close> and the top of physical
  memory.
\<close>

theorem kinit1_frees_range:
  assumes "unat vend \<le> 0x8E000000" "kend s \<le> PGROUNDUP vstart" "KERNBASE \<le> PGROUNDUP vstart"
    "unat (PGROUNDUP vstart) \<le> unat vend"
  shows "\<exists>t. kinit1 vstart vend s = Ok () t \<and>
     kmem_owns t (rev (page_run (PGROUNDUP vstart) ((unat vend - unat (PGROUNDUP vstart)) div 4096)))"
proof -
  let ?s = "s\<lparr>kmem_lock := initlock ''kmem'' (kmem_lock s), use_lock := False, freelist := 0\<rparr>"
  let ?p = "PGROUNDUP vstart" and ?n = "(unat vend - unat (PGROUNDUP vstart)) div 4096"
  have "\<exists>t. freerange_loop ?p vend ?s = Ok () t \<and> kmem_owns t (rev (page_run ?p ?n) @ [])
    \<and> kend t = kend ?s \<and> use_lock t = use_lock ?s"
  proof (rule freerange_loop_owns)
    show "kmem_owns ?s []" by (simp add: kmem_owns_def free_blocks_def kmem_ready_def)
    show "unat ?p + 4096 * ?n \<le> unat vend" "unat vend < unat ?p + 4096 * ?n + 4096" using assms(4) by auto
  qed (use assms in auto)
  then show ?thesis by (auto simp: kinit1_def freerange_def)
qed

theorem kinit1_frees_range_witness:
  "\<exists>t. kinit1 0x80115800 0x80118800 boot_st = Ok () t \<and> kmem_owns t [0x80117000, 0x80116000]"
proof -
  have r: "PGROUNDUP 0x80115800 = 0x80116000" by (simp add: PGROUNDUP_def)
  have p: "rev (page_run 0x80116000 2) = [0x80117000, 0x80116000]"
    by (simp add: page_run_def numeral_2_eq_2)
  show ?thesis
    using kinit1_frees_range [of "0x80118800" boot_st "0x80115800"] p unfolding r
    by (simp add: boot_st_def)
qed

section \<open>Frames\<close>

text \<open>Observations that the allocator leaves alone: everything but the memory and its own state.\<close>

definition kmem_quiet :: "('z kmem_st_scheme \<Rightarrow> 'b) \<Rightarrow> bool" where
  "kmem_quiet h \<longleftrightarrow> quiet h \<and> (\<forall>s f. h (mem_update f s) = h s)
     \<and> (\<forall>s f. h (kmem_lock_update f s) = h s) \<and> (\<forall>s f. h (freelist_update f s) = h s)"

lemma kmem_quietD:
  assumes "kmem_quiet h"
  shows "quiet h" "h (mem_update f s) = h s" "h (kmem_lock_update k s) = h s" "h (freelist_update p s) = h s"
  using assms by (auto simp: kmem_quiet_def)

lemma frame_lock_if_used: "kmem_quiet h \<Longrightarrow> h (kstate (lock_if_used s)) = h s"
  by (simp add: lock_if_used_def frame_acquire kmem_quietD)

lemma frame_unlock_if_used: "kmem_quiet h \<Longrightarrow> h (kstate (unlock_if_used s)) = h s"
  by (simp add: unlock_if_used_def frame_release kmem_quietD)

lemma frame_kfree: "kmem_quiet h \<Longrightarrow> h (kstate (kfree v s)) = h s"
  unfolding kfree_def
  by (auto intro!: frame_andthen [where h = h] simp: Let_def frame_lock_if_used frame_unlock_if_used kmem_quietD)

lemma frame_kalloc:
  assumes q: "kmem_quiet h" shows "h (kstate (kalloc s)) = h s"
proof -
  have u: "h (kstate (andthen (unlock_if_used x) (\<lambda>_ s. Ok b s))) = h s" if "h x = h s" for x and b :: u32
    by (rule frame_andthen [where h = h]) (simp_all add: frame_unlock_if_used q that)
  show ?thesis
    unfolding kalloc_def
    by (rule frame_andthen [where h = h])
      (auto simp: Let_def frame_lock_if_used kmem_quietD q split: option.split intro!: u)
qed

end
