(* ===== verification/Vm.thy ===== *)
theory Vm
  imports Kalloc
begin

text \<open>
  Page tables (\<^verbatim>\<open>vm.c\<close>).  A page directory and its page tables are pages of byte memory, reached
  through their kernel virtual addresses, exactly as the code reaches them; allocation goes through
  \<open>kalloc\<close>.  What the tables mean as a map from virtual addresses is in \<^verbatim>\<open>Vm_Map.thy\<close>.  Segment descriptors are not modelled, and the
  lines \<^verbatim>\<open>cprintf\<close> prints are not part of the state.
\<close>

section \<open>State and walks\<close>

text \<open>
  \<^verbatim>\<open>kpgdir\<close>, and the address \<open>kdata\<close> of the linker symbol \<^verbatim>\<open>data\<close>.
\<close>

record vm_st = kmem_st +
  kpgdir :: u32
  kdata :: u32

text \<open>\<open>walkpgdir\<close> returns the kernel address of the entry, or 0.\<close>

definition walkpgdir :: "u32 \<Rightarrow> u32 \<Rightarrow> bool \<Rightarrow> 'z vm_st_scheme \<Rightarrow> (u32, 'z vm_st_scheme) kres" where
  "walkpgdir pgdir va alloc s =
     (let pde = pgdir + 4 * PDX va
      in if load32 (mem s) pde AND PTE_P \<noteq> 0
         then Ok (P2V (PTE_ADDR (load32 (mem s) pde)) + 4 * PTX va) s
         else if \<not> alloc then Ok 0 s
         else andthen (kalloc s) (\<lambda>pgtab s.
           if pgtab = 0 then Ok 0 s
           else let s = s\<lparr>mem := memset (mem s) pgtab 0 PGSIZE\<rparr>;
                    s = s\<lparr>mem := store32 (mem s) pde (V2P pgtab OR PTE_P OR PTE_W OR PTE_U)\<rparr>
                in Ok (pgtab + 4 * PTX va) s))"

text \<open>
  The loop of \<open>mappages\<close> maps the page at \<open>a\<close> and then \<open>k\<close> more.  It leaves at \<^verbatim>\<open>a == last\<close>; since
  both are page aligned that is after \<^verbatim>\<open>(last - a) / PGSIZE\<close> further rounds.
\<close>

fun mappages_loop :: "u32 \<Rightarrow> u32 \<Rightarrow> u32 \<Rightarrow> u32 \<Rightarrow> nat \<Rightarrow> 'z vm_st_scheme \<Rightarrow> (int, 'z vm_st_scheme) kres" where
  "mappages_loop pgdir a pa perm k s =
     andthen (walkpgdir pgdir a True s) (\<lambda>pte s.
     if pte = 0 then Ok (- 1) s
     else if load32 (mem s) pte AND PTE_P \<noteq> 0 then Panic ''remap'' s
     else let s = s\<lparr>mem := store32 (mem s) pte (pa OR perm OR PTE_P)\<rparr>
          in case k of 0 \<Rightarrow> Ok 0 s
             | Suc k \<Rightarrow> mappages_loop pgdir (a + PGSIZE) (pa + PGSIZE) perm k s)"

declare mappages_loop.simps [simp del]

definition mappages :: "u32 \<Rightarrow> u32 \<Rightarrow> u32 \<Rightarrow> u32 \<Rightarrow> u32 \<Rightarrow> 'z vm_st_scheme \<Rightarrow> (int, 'z vm_st_scheme) kres" where
  "mappages pgdir va sz pa perm s =
     (let a = PGROUNDDOWN va; last = PGROUNDDOWN (va + sz - 1)
      in mappages_loop pgdir a pa perm (unat (last - a) div 4096) s)"

section \<open>Releasing memory\<close>

text \<open>
  The loop of \<open>deallocuvm\<close>; where there is no page table it skips to the next directory entry.  A
  value of \<open>None\<close> means that the loop does not end, which needs \<open>a\<close> to wrap around.
\<close>

partial_function (option) deallocuvm_loop ::
  "u32 \<Rightarrow> u32 \<Rightarrow> u32 \<Rightarrow> 'z vm_st_scheme \<Rightarrow> (unit, 'z vm_st_scheme) kres option" where
  "deallocuvm_loop pgdir a oldsz s =
     (if a < oldsz then
        andthen_opt (walkpgdir pgdir a False s) (\<lambda>pte s.
        if pte = 0 then deallocuvm_loop pgdir (PGADDR (PDX a + 1) 0 0 - PGSIZE + PGSIZE) oldsz s
        else if load32 (mem s) pte AND PTE_P \<noteq> 0 then
          (let pa = PTE_ADDR (load32 (mem s) pte)
           in if pa = 0 then Some (Panic ''kfree'' s)
              else andthen_opt (kfree (P2V pa) s) (\<lambda>_ s.
                   deallocuvm_loop pgdir (a + PGSIZE) oldsz (s\<lparr>mem := store32 (mem s) pte 0\<rparr>)))
        else deallocuvm_loop pgdir (a + PGSIZE) oldsz s)
      else Some (Ok () s))"

definition deallocuvm :: "u32 \<Rightarrow> u32 \<Rightarrow> u32 \<Rightarrow> 'z vm_st_scheme \<Rightarrow> (u32, 'z vm_st_scheme) kres" where
  "deallocuvm pgdir oldsz newsz s =
     (if oldsz \<le> newsz then Ok oldsz s
      else andthen (or_spin (deallocuvm_loop pgdir (PGROUNDUP newsz) oldsz s) s) (\<lambda>_ s. Ok newsz s))"

fun freevm_loop :: "u32 \<Rightarrow> nat list \<Rightarrow> 'z vm_st_scheme \<Rightarrow> (unit, 'z vm_st_scheme) kres" where
  "freevm_loop pgdir [] s = Ok () s"
| "freevm_loop pgdir (i # is) s =
     (let e = load32 (mem s) (pgdir + 4 * of_nat i)
      in andthen (if e AND PTE_P \<noteq> 0 then kfree (P2V (PTE_ADDR e)) s else Ok () s) (\<lambda>_ s.
         freevm_loop pgdir is s))"

definition freevm :: "u32 \<Rightarrow> 'z vm_st_scheme \<Rightarrow> (unit, 'z vm_st_scheme) kres" where
  "freevm pgdir s =
     (if pgdir = 0 then Panic ''freevm: no pgdir'' s
      else andthen (deallocuvm pgdir KERNBASE 0 s) (\<lambda>_ s.
           andthen (freevm_loop pgdir [0..<1024] s) (\<lambda>_ s.
           kfree pgdir s)))"

section \<open>Kernel mappings\<close>

text \<open>\<^verbatim>\<open>struct kmap\<close>: virtual start, physical start and end, permissions.\<close>

definition kmap :: "u32 \<Rightarrow> (u32 \<times> u32 \<times> u32 \<times> u32) list" where
  "kmap dat = [(KERNBASE, 0, EXTMEM, PTE_W),
     (KERNBASE + EXTMEM, V2P (KERNBASE + EXTMEM), V2P dat, 0),
     (dat, V2P dat, PHYSTOP, PTE_W),
     (DEVSPACE, DEVSPACE, 0, PTE_W)]"

fun setupkvm_loop :: "u32 \<Rightarrow> (u32 \<times> u32 \<times> u32 \<times> u32) list \<Rightarrow> 'z vm_st_scheme \<Rightarrow> (u32, 'z vm_st_scheme) kres" where
  "setupkvm_loop pgdir [] s = Ok pgdir s"
| "setupkvm_loop pgdir ((virt, ps, pe, perm) # ks) s =
     andthen (mappages pgdir virt (pe - ps) ps perm s) (\<lambda>r s.
     if r < 0 then andthen (freevm pgdir s) (\<lambda>_ s. Ok 0 s)
     else setupkvm_loop pgdir ks s)"

definition setupkvm :: "'z vm_st_scheme \<Rightarrow> (u32, 'z vm_st_scheme) kres" where
  "setupkvm s =
     andthen (kalloc s) (\<lambda>pgdir s.
     if pgdir = 0 then Ok 0 s
     else let s = s\<lparr>mem := memset (mem s) pgdir 0 PGSIZE\<rparr>
          in if DEVSPACE < P2V PHYSTOP then Panic ''PHYSTOP too high'' s
             else setupkvm_loop pgdir (kmap (kdata s)) s)"

definition switchkvm :: "'z vm_st_scheme \<Rightarrow> 'z vm_st_scheme" where
  "switchkvm s = s\<lparr>cr3 := V2P (kpgdir s)\<rparr>"

definition kvmalloc :: "'z vm_st_scheme \<Rightarrow> (unit, 'z vm_st_scheme) kres" where
  "kvmalloc s = andthen (setupkvm s) (\<lambda>pgdir s. Ok () (switchkvm (s\<lparr>kpgdir := pgdir\<rparr>)))"

section \<open>User memory\<close>

text \<open>The result of \<open>mappages\<close> is ignored here, as in the code.\<close>

definition inituvm :: "u32 \<Rightarrow> u32 \<Rightarrow> u32 \<Rightarrow> 'z vm_st_scheme \<Rightarrow> (unit, 'z vm_st_scheme) kres" where
  "inituvm pgdir init sz s =
     (if PGSIZE \<le> sz then Panic ''inituvm: more than a page'' s
      else andthen (kalloc s) (\<lambda>p s.
           andthen (mappages pgdir 0 PGSIZE (V2P p) (PTE_W OR PTE_U)
                      (s\<lparr>mem := memset (mem s) p 0 PGSIZE\<rparr>)) (\<lambda>_ s.
           Ok () (s\<lparr>mem := memmove (mem s) p init sz\<rparr>))))"

partial_function (option) allocuvm_loop ::
  "u32 \<Rightarrow> u32 \<Rightarrow> u32 \<Rightarrow> u32 \<Rightarrow> 'z vm_st_scheme \<Rightarrow> (u32, 'z vm_st_scheme) kres option" where
  "allocuvm_loop pgdir a oldsz newsz s =
     (if a < newsz then
        andthen_opt (kalloc s) (\<lambda>p s.
        if p = 0 then Some (andthen (deallocuvm pgdir newsz oldsz s) (\<lambda>_ s. Ok 0 s))
        else andthen_opt (mappages pgdir a PGSIZE (V2P p) (PTE_W OR PTE_U)
                            (s\<lparr>mem := memset (mem s) p 0 PGSIZE\<rparr>)) (\<lambda>r s.
        if r < 0 then Some (andthen (deallocuvm pgdir newsz oldsz s) (\<lambda>_ s.
                            andthen (kfree p s) (\<lambda>_ s. Ok 0 s)))
        else allocuvm_loop pgdir (a + PGSIZE) oldsz newsz s))
      else Some (Ok newsz s))"

definition allocuvm :: "u32 \<Rightarrow> u32 \<Rightarrow> u32 \<Rightarrow> 'z vm_st_scheme \<Rightarrow> (u32, 'z vm_st_scheme) kres" where
  "allocuvm pgdir oldsz newsz s =
     (if KERNBASE \<le> newsz then Ok 0 s
      else if newsz < oldsz then Ok oldsz s
      else or_spin (allocuvm_loop pgdir (PGROUNDUP oldsz) oldsz newsz s) s)"

definition clearpteu :: "u32 \<Rightarrow> u32 \<Rightarrow> 'z vm_st_scheme \<Rightarrow> (unit, 'z vm_st_scheme) kres" where
  "clearpteu pgdir uva s =
     andthen (walkpgdir pgdir uva False s) (\<lambda>pte s.
     if pte = 0 then Panic ''clearpteu'' s
     else Ok () (s\<lparr>mem := store32 (mem s) pte (load32 (mem s) pte AND NOT PTE_U)\<rparr>))"

partial_function (option) copyuvm_loop ::
  "u32 \<Rightarrow> u32 \<Rightarrow> u32 \<Rightarrow> u32 \<Rightarrow> 'z vm_st_scheme \<Rightarrow> (u32, 'z vm_st_scheme) kres option" where
  "copyuvm_loop pgdir d i sz s =
     (if i < sz then
        andthen_opt (walkpgdir pgdir i False s) (\<lambda>pte s.
        if pte = 0 then Some (Panic ''copyuvm: pte should exist'' s)
        else if load32 (mem s) pte AND PTE_P = 0 then Some (Panic ''copyuvm: page not present'' s)
        else let pa = PTE_ADDR (load32 (mem s) pte); flags = PTE_FLAGS (load32 (mem s) pte)
             in andthen_opt (kalloc s) (\<lambda>p s.
                if p = 0 then Some (andthen (freevm d s) (\<lambda>_ s. Ok 0 s))
                else andthen_opt (mappages d i PGSIZE (V2P p) flags
                                    (s\<lparr>mem := memmove (mem s) p (P2V pa) PGSIZE\<rparr>)) (\<lambda>r s.
                if r < 0 then Some (andthen (kfree p s) (\<lambda>_ s.
                                    andthen (freevm d s) (\<lambda>_ s. Ok 0 s)))
                else copyuvm_loop pgdir d (i + PGSIZE) sz s)))
      else Some (Ok d s))"

definition copyuvm :: "u32 \<Rightarrow> u32 \<Rightarrow> 'z vm_st_scheme \<Rightarrow> (u32, 'z vm_st_scheme) kres" where
  "copyuvm pgdir sz s =
     andthen (setupkvm s) (\<lambda>d s.
     if d = 0 then Ok 0 s else or_spin (copyuvm_loop pgdir d 0 sz s) s)"

section \<open>Access to user memory\<close>

text \<open>
  Address translation by the paging hardware: the kernel half is mapped directly, the user half
  through the page directory in \<^verbatim>\<open>cr3\<close>.  An access without translation raises a page fault; in
  kernel mode \<^verbatim>\<open>trap\<close> answers it with \<^verbatim>\<open>panic("trap")\<close>.
\<close>

definition translate :: "'z machine_scheme \<Rightarrow> u32 \<Rightarrow> u32 option" where
  "translate s va =
     (if KERNBASE \<le> va then Some va
      else let pde = load32 (mem s) (P2V (cr3 s) + 4 * PDX va);
               pte = load32 (mem s) (P2V (PTE_ADDR pde) + 4 * PTX va)
           in if pde AND PTE_P = 0 \<or> pte AND PTE_P = 0 then None
              else Some (P2V (PTE_ADDR pte) OR (va AND 0xFFF)))"

text \<open>A word at a virtual address: each of its bytes is translated, for it may cross a page boundary.\<close>

definition deref32 :: "u32 \<Rightarrow> 'z machine_scheme \<Rightarrow> (u32, 'z machine_scheme) kres" where
  "deref32 va s =
     (if translate s va = None \<or> translate s (va + 1) = None \<or> translate s (va + 2) = None \<or> translate s (va + 3) = None
      then Panic ''trap'' s
      else Ok (load32 (\<lambda>a. mem s (the (translate s a))) va) s)"

definition deref8 :: "u32 \<Rightarrow> 'z machine_scheme \<Rightarrow> (u8, 'z machine_scheme) kres" where
  "deref8 va s = (case translate s va of None \<Rightarrow> Panic ''trap'' s | Some a \<Rightarrow> Ok (mem s a) s)"

text \<open>Byte-wise access to a range of virtual addresses, as \<^verbatim>\<open>memmove\<close> between kernel and user memory performs it.\<close>

fun uread :: "u32 \<Rightarrow> nat \<Rightarrow> 'z machine_scheme \<Rightarrow> (u8 list, 'z machine_scheme) kres" where
  "uread va 0 s = Ok [] s"
| "uread va (Suc n) s =
     andthen (deref8 va s) (\<lambda>c s. andthen (uread (va + 1) n s) (\<lambda>cs s. Ok (c # cs) s))"

fun uwrite :: "u32 \<Rightarrow> u8 list \<Rightarrow> 'z machine_scheme \<Rightarrow> (unit, 'z machine_scheme) kres" where
  "uwrite va [] s = Ok () s"
| "uwrite va (c # cs) s =
     (case translate s va of None \<Rightarrow> Panic ''trap'' s
      | Some a \<Rightarrow> uwrite (va + 1) cs (s\<lparr>mem := (mem s)(a := c)\<rparr>))"

text \<open>The bytes \<open>cs\<close> stored from address \<open>a\<close> on.\<close>

definition put_bytes :: "memory \<Rightarrow> u32 \<Rightarrow> u8 list \<Rightarrow> memory" where
  "put_bytes m a cs = (\<lambda>x. if unat (x - a) < length cs then cs ! unat (x - a) else m x)"

text \<open>The length of the string at a virtual address; \<open>None\<close> if no NUL is ever found.\<close>

partial_function (option) ustrlen_from :: "u32 \<Rightarrow> u32 \<Rightarrow> 'z machine_scheme \<Rightarrow> (u32, 'z machine_scheme) kres option" where
  "ustrlen_from a n s =
     andthen_opt (deref8 (a + n) s) (\<lambda>c s. if c = 0 then Some (Ok n s) else ustrlen_from a (n + 1) s)"

definition ustrlen :: "u32 \<Rightarrow> 'z machine_scheme \<Rightarrow> (u32, 'z machine_scheme) kres" where
  "ustrlen a s = or_spin (ustrlen_from a 0 s) s"

text \<open>\<open>uva2ka\<close> reads through the result of \<open>walkpgdir\<close> without testing it for null.\<close>

definition uva2ka :: "u32 \<Rightarrow> u32 \<Rightarrow> 'z vm_st_scheme \<Rightarrow> (u32, 'z vm_st_scheme) kres" where
  "uva2ka pgdir uva s =
     andthen (walkpgdir pgdir uva False s) (\<lambda>pte s.
     andthen (deref32 pte s) (\<lambda>e s.
     if e AND PTE_P = 0 then Ok 0 s
     else if e AND PTE_U = 0 then Ok 0 s
     else Ok (P2V (PTE_ADDR e)) s))"

definition copy_chunk :: "u32 \<Rightarrow> u32 \<Rightarrow> u32" where
  "copy_chunk va len = (let n = PGSIZE - (va - PGROUNDDOWN va) in if len < n then len else n)"

lemma copy_chunk_pos: "len \<noteq> 0 \<Longrightarrow> 0 < unat (copy_chunk va len) \<and> copy_chunk va len \<le> len"
proof -
  assume "len \<noteq> 0"
  moreover have "va - PGROUNDDOWN va < PGSIZE"
    by (simp add: PGROUNDDOWN_eq word_less_nat_alt unat_mod)
  then have "PGSIZE - (va - PGROUNDDOWN va) \<noteq> 0" by auto
  ultimately show ?thesis by (auto simp: copy_chunk_def Let_def unat_gt_0)
qed

lemma copy_chunk_less: "len \<noteq> 0 \<Longrightarrow> unat (len - copy_chunk va len) < unat len"
  using copy_chunk_pos [of len va] by (simp add: unat_sub word_le_nat_alt)

text \<open>The source \<open>buf\<close> is an address in the current address space.\<close>

function copyout :: "u32 \<Rightarrow> u32 \<Rightarrow> u32 \<Rightarrow> u32 \<Rightarrow> 'z vm_st_scheme \<Rightarrow> (int, 'z vm_st_scheme) kres" where
  "copyout pgdir va buf len s =
     (if len = 0 then Ok 0 s
      else let va0 = PGROUNDDOWN va
           in andthen (uva2ka pgdir va0 s) (\<lambda>pa0 s.
              if pa0 = 0 then Ok (- 1) s
              else let n = copy_chunk va len
                   in andthen (uread buf (unat n) s) (\<lambda>cs s.
                      let s = s\<lparr>mem := put_bytes (mem s) (pa0 + (va - va0)) cs\<rparr>
                      in copyout pgdir (va0 + PGSIZE) (buf + n) (len - n) s)))"
  by pat_completeness auto
termination
  by (relation "measure (\<lambda>(pgdir, va, buf, len, s). unat len)") (simp_all add: copy_chunk_less)

declare copyout.simps [simp del]

section \<open>Frames\<close>

lemma frame_walkpgdir:
  assumes q: "kmem_quiet h" shows "h (kstate (walkpgdir pg va al s)) = h s"
  unfolding walkpgdir_def
  by (auto simp: Let_def frame_kalloc kmem_quietD q intro!: frame_andthen [where h = h])

lemma frame_mappages_loop:
  assumes q: "kmem_quiet h" shows "h (kstate (mappages_loop pg a pa perm k s)) = h s"
proof (induction k arbitrary: a pa s)
  case 0
  then show ?case
    by (subst mappages_loop.simps, rule frame_andthen [where h = h])
      (simp_all add: Let_def frame_walkpgdir kmem_quietD q)
next
  case (Suc k)
  then show ?case
    by (subst mappages_loop.simps, intro frame_andthen [where h = h])
      (simp_all add: Let_def frame_walkpgdir kmem_quietD q)
qed

lemma frame_mappages: "kmem_quiet h \<Longrightarrow> h (kstate (mappages pg va n pa perm s)) = h s"
  by (simp add: mappages_def Let_def frame_mappages_loop)

lemma frame_deallocuvm_loop:
  assumes q: "kmem_quiet h"
  shows "deallocuvm_loop pg a old s = Some r \<Longrightarrow> h (kstate r) = h s"
proof (erule deallocuvm_loop.raw_induct [where P = "\<lambda>_ _ _ s r. h (kstate r) = h s", rotated], goal_cases)
  case (1 loop pg a old s r)
  from 1(2) show ?case
    by (auto simp: Let_def kmem_quietD q frame_walkpgdir frame_kfree split: if_splits dest!: 1(1)
        elim!: frame_andthen_opt [where h = h])
qed

lemma frame_deallocuvm: "kmem_quiet h \<Longrightarrow> h (kstate (deallocuvm pg old new s)) = h s"
  unfolding deallocuvm_def
  by (auto intro!: frame_andthen [where h = h] frame_or_spin [where h = h] elim: frame_deallocuvm_loop)

lemma frame_freevm_loop: "kmem_quiet h \<Longrightarrow> h (kstate (freevm_loop pg is s)) = h s"
  by (induction "is" arbitrary: s)
    (auto intro!: frame_andthen [where h = h] simp: Let_def frame_kfree)

lemma frame_freevm: "kmem_quiet h \<Longrightarrow> h (kstate (freevm pg s)) = h s"
  unfolding freevm_def
  by (auto intro!: frame_andthen [where h = h] simp: frame_deallocuvm frame_freevm_loop frame_kfree)

lemma frame_setupkvm_loop: "kmem_quiet h \<Longrightarrow> h (kstate (setupkvm_loop pg ks s)) = h s"
  by (induction pg ks s rule: setupkvm_loop.induct)
    (auto intro!: frame_andthen [where h = h] simp: frame_mappages frame_freevm)

lemma frame_setupkvm: "kmem_quiet h \<Longrightarrow> h (kstate (setupkvm s)) = h s"
  unfolding setupkvm_def
  by (auto intro!: frame_andthen [where h = h] simp: Let_def frame_kalloc frame_setupkvm_loop kmem_quietD)

lemma frame_inituvm: "kmem_quiet h \<Longrightarrow> h (kstate (inituvm pg a n s)) = h s"
  unfolding inituvm_def
  by (auto intro!: frame_andthen [where h = h] simp: frame_kalloc frame_mappages kmem_quietD)

lemma frame_allocuvm_loop:
  assumes q: "kmem_quiet h"
  shows "allocuvm_loop pg a old new s = Some r \<Longrightarrow> h (kstate r) = h s"
proof (erule allocuvm_loop.raw_induct [where P = "\<lambda>_ _ _ _ s r. h (kstate r) = h s", rotated], goal_cases)
  case (1 loop pg a old new s r)
  have d: "h (kstate (andthen (deallocuvm pg new old t) (\<lambda>_ s. Ok (0::u32) s))) = h t" for t
    by (rule frame_andthen [where h = h]) (simp_all add: frame_deallocuvm q)
  have k: "h (kstate (andthen (deallocuvm pg new old t) (\<lambda>_ s. andthen (kfree v s) (\<lambda>_ s. Ok (0::u32) s)))) = h t" for t v
    by (intro frame_andthen [where h = h]) (simp_all add: frame_deallocuvm frame_kfree q)
  from 1(2) show ?case
    by (auto simp: kmem_quietD q frame_kalloc frame_mappages d k split: if_splits dest!: 1(1)
        elim!: frame_andthen_opt [where h = h])
qed

lemma frame_allocuvm: "kmem_quiet h \<Longrightarrow> h (kstate (allocuvm pg old new s)) = h s"
  unfolding allocuvm_def
  by (auto intro!: frame_or_spin [where h = h] elim: frame_allocuvm_loop)

lemma frame_copyuvm_loop:
  assumes q: "kmem_quiet h"
  shows "copyuvm_loop pg d i n s = Some r \<Longrightarrow> h (kstate r) = h s"
proof (erule copyuvm_loop.raw_induct [where P = "\<lambda>_ _ _ _ s r. h (kstate r) = h s", rotated], goal_cases)
  case (1 loop pg d i n s r)
  have f: "h (kstate (andthen (freevm d t) (\<lambda>_ s. Ok (0::u32) s))) = h t" for t
    by (rule frame_andthen [where h = h]) (simp_all add: frame_freevm q)
  have k: "h (kstate (andthen (kfree v t) (\<lambda>_ s. andthen (freevm d s) (\<lambda>_ s. Ok (0::u32) s)))) = h t" for t v
    by (intro frame_andthen [where h = h]) (simp_all add: frame_freevm frame_kfree q)
  from 1(2) show ?case
    by (auto simp: Let_def kmem_quietD q frame_walkpgdir frame_kalloc frame_mappages f k split: if_splits dest!: 1(1)
        elim!: frame_andthen_opt [where h = h])
qed

lemma frame_copyuvm: "kmem_quiet h \<Longrightarrow> h (kstate (copyuvm pg n s)) = h s"
proof -
  assume q: "kmem_quiet h"
  have "h (kstate (or_spin (copyuvm_loop pg d i n t) t)) = h t" for d i t
    by (rule frame_or_spin [where h = h]) (rule frame_copyuvm_loop [OF q])
  then show ?thesis
    unfolding copyuvm_def by (auto intro!: frame_andthen [where h = h] simp: frame_setupkvm q)
qed

lemmas vm_frames = frame_kalloc frame_kfree frame_walkpgdir frame_mappages frame_deallocuvm frame_freevm
  frame_setupkvm frame_inituvm frame_allocuvm frame_copyuvm

end
