(* ===== verification/Proc.thy ===== *)
theory Proc
  imports Vm
begin

text \<open>
  The process table, the MLFQ scheduler of the modified kernel and the round-robin scheduler of the
  original one, sleep and wakeup, kill, wait and growproc (\<^verbatim>\<open>proc.c\<close>).  \<open>sched\<close> ends in \<open>Swtch\<close>: the CPU
  goes to its scheduler.  What a suspended routine does once the scheduler resumes it is the
  corresponding \<open>_resume\<close> definition, whose argument \<open>intena\<close> is the local variable of the suspended
  \<^verbatim>\<open>sched\<close> frame.  \<open>fork\<close>, \<open>exit\<close> and \<open>userinit\<close>, which call the file system, are in a later theory.
\<close>

section \<open>Processes\<close>

datatype procstate = UNUSED | EMBRYO | SLEEPING | RUNNABLE | RUNNING | ZOMBIE

text \<open>
  The addresses the kernel sleeps on: a process, the tick counter, a disk buffer, the sleep lock of a
  buffer or an inode, the log, the console input, and the two counters of the pipe at an address.
\<close>

datatype chan = ChProc nat | ChTicks | ChBuf nat | ChBufLock nat | ChInodeLock nat | ChLog
  | ChInput | ChPipeRead u32 | ChPipeWrite u32

text \<open>
  \<^verbatim>\<open>struct proc\<close>.  Pointers into the process, file and inode tables are indices; \<open>pname\<close> is the
  string in the 16-byte name buffer; \<open>ctx\<close> is the field \<^verbatim>\<open>context\<close>.
\<close>

record proc =
  sz :: u32
  pgdir :: u32
  kstack :: u32
  state :: procstate
  pid :: int
  parent :: "nat option"
  tf :: u32
  ctx :: u32
  chan :: "chan option"
  killed :: bool
  ofile :: "nat option list"
  cwd :: "nat option"
  pname :: string
  priority :: int
  ticks_used :: int

text \<open>
  The globals of \<^verbatim>\<open>proc.c\<close> and the code addresses \<^verbatim>\<open>forkret\<close>, \<^verbatim>\<open>trapret\<close>.
\<close>

record proc_st = vm_st +
  ptable_lock :: spinlock
  ptable :: "proc list"
  initproc :: "nat option"
  nextpid :: int
  forkret_addr :: u32
  trapret_addr :: u32

abbreviation NPROC :: nat where "NPROC \<equiv> 64"
abbreviation (input) KSTACKSIZE :: u32 where "KSTACKSIZE \<equiv> 4096"

definition upd_proc :: "nat \<Rightarrow> (proc \<Rightarrow> proc) \<Rightarrow> 'z proc_st_scheme \<Rightarrow> 'z proc_st_scheme" where
  "upd_proc i f s = s\<lparr>ptable := (ptable s)[i := f (ptable s ! i)]\<rparr>"

text \<open>Reading a field through a null process pointer is a page fault in kernel mode.\<close>

definition proc_ptr :: "nat option \<Rightarrow> 's \<Rightarrow> (nat, 's) kres" where
  "proc_ptr p s = (case p of None \<Rightarrow> Panic ''trap'' s | Some i \<Rightarrow> Ok i s)"

definition acquire_ptable :: "'z proc_st_scheme \<Rightarrow> (unit, 'z proc_st_scheme) kres" where
  "acquire_ptable s = acquire ptable_lock ptable_lock_update s"

definition release_ptable :: "'z proc_st_scheme \<Rightarrow> (unit, 'z proc_st_scheme) kres" where
  "release_ptable s = release ptable_lock ptable_lock_update s"

definition pinit :: "'z proc_st_scheme \<Rightarrow> 'z proc_st_scheme" where
  "pinit s = s\<lparr>ptable_lock := initlock ''ptable'' (ptable_lock s)\<rparr>"

definition myproc :: "'z machine_scheme \<Rightarrow> (nat option, 'z machine_scheme) kres" where
  "myproc s =
     andthen (pushcli s) (\<lambda>_ s.
     andthen (mycpu s) (\<lambda>c s.
     let p = cpu_proc (cpus s ! c)
     in andthen (popcli s) (\<lambda>_ s. Ok p s)))"

text \<open>
  \<open>allocproc\<close> returns the index of the new process.  The kernel stack holds, from the top, the trap
  frame (76 bytes), the return address \<^verbatim>\<open>trapret\<close> and the context (20 bytes, \<^verbatim>\<open>eip\<close> last).
\<close>

definition allocproc :: "'z proc_st_scheme \<Rightarrow> (nat option, 'z proc_st_scheme) kres" where
  "allocproc s =
     andthen (acquire_ptable s) (\<lambda>_ s.
     case findi (\<lambda>p. state p = UNUSED) (ptable s) of
       None \<Rightarrow> andthen (release_ptable s) (\<lambda>_ s. Ok None s)
     | Some i \<Rightarrow>
         let s = upd_proc i (\<lambda>p. p\<lparr>state := EMBRYO, pid := nextpid s, priority := 0, ticks_used := 0\<rparr>) s;
             s = s\<lparr>nextpid := nextpid s + 1\<rparr>
         in andthen (release_ptable s) (\<lambda>_ s.
            andthen (kalloc s) (\<lambda>ks s.
            let s = upd_proc i (\<lambda>p. p\<lparr>kstack := ks\<rparr>) s
            in if ks = 0 then Ok None (upd_proc i (\<lambda>p. p\<lparr>state := UNUSED\<rparr>) s)
               else let sp = ks + KSTACKSIZE - 76;
                        s = upd_proc i (\<lambda>p. p\<lparr>tf := sp\<rparr>) s;
                        sp = sp - 4;
                        s = s\<lparr>mem := store32 (mem s) sp (trapret_addr s)\<rparr>;
                        sp = sp - 20;
                        s = upd_proc i (\<lambda>p. p\<lparr>ctx := sp\<rparr>) s;
                        s = s\<lparr>mem := memset (mem s) sp 0 20\<rparr>;
                        s = s\<lparr>mem := store32 (mem s) (sp + 16) (forkret_addr s)\<rparr>
                    in Ok (Some i) s)))"

text \<open>\<open>switchuvm\<close> of \<^verbatim>\<open>vm.c\<close>: the kernel stack of the task state and the page directory register.\<close>

definition switchuvm :: "nat option \<Rightarrow> 'z proc_st_scheme \<Rightarrow> (unit, 'z proc_st_scheme) kres" where
  "switchuvm p s =
     (case p of None \<Rightarrow> Panic ''switchuvm: no process'' s
      | Some i \<Rightarrow>
        if kstack (ptable s ! i) = 0 then Panic ''switchuvm: no kstack'' s
        else if pgdir (ptable s ! i) = 0 then Panic ''switchuvm: no pgdir'' s
        else andthen (pushcli s) (\<lambda>_ s.
             andthen (mycpu s) (\<lambda>c s.
             let s = upd_cpu c (\<lambda>c. c\<lparr>ts_esp0 := kstack (ptable s ! i) + KSTACKSIZE\<rparr>) s;
                 s = s\<lparr>cr3 := V2P (pgdir (ptable s ! i))\<rparr>
             in popcli s)))"

text \<open>\<open>n\<close> is a C \<^verbatim>\<open>int\<close>: it is added to the unsigned size with wrap-around.\<close>

definition growproc :: "int \<Rightarrow> 'z proc_st_scheme \<Rightarrow> (int, 'z proc_st_scheme) kres" where
  "growproc n s =
     andthen (myproc s) (\<lambda>cp s.
     andthen (proc_ptr cp s) (\<lambda>i s.
     let sz0 = sz (ptable s ! i); pg = pgdir (ptable s ! i)
     in andthen (if n > 0 then allocuvm pg sz0 (sz0 + of_int n) s
                 else if n < 0 then deallocuvm pg sz0 (sz0 + of_int n) s
                 else Ok sz0 s) (\<lambda>sz1 s.
        if n \<noteq> 0 \<and> sz1 = 0 then Ok (- 1) s
        else andthen (switchuvm (Some i) (upd_proc i (\<lambda>p. p\<lparr>sz := sz1\<rparr>) s)) (\<lambda>_ s. Ok 0 s))))"

section \<open>Giving up the CPU\<close>

text \<open>
  \<open>sched\<close>, \<open>yield\<close> and \<open>sleep\<close> have no branch in which they return: their result type is arbitrary.
\<close>

definition sched :: "'z proc_st_scheme \<Rightarrow> ('a, 'z proc_st_scheme) kres" where
  "sched s =
     andthen (myproc s) (\<lambda>p s.
     andthen (holding ptable_lock s) (\<lambda>h s.
     if \<not> h then Panic ''sched ptable.lock'' s
     else andthen (mycpu s) (\<lambda>c s.
     if ncli (cpus s ! c) \<noteq> 1 then Panic ''sched locks'' s
     else andthen (proc_ptr p s) (\<lambda>i s.
     if state (ptable s ! i) = RUNNING then Panic ''sched running'' s
     else if iflag s (lapicid s) then Panic ''sched interruptible'' s
     else Swtch s))))"

text \<open>The last statement of \<open>sched\<close>, run when the scheduler switches back.\<close>

definition sched_resume :: "bool \<Rightarrow> 'z proc_st_scheme \<Rightarrow> (unit, 'z proc_st_scheme) kres" where
  "sched_resume ie s = andthen (mycpu s) (\<lambda>c s. Ok () (upd_cpu c (\<lambda>c. c\<lparr>intena := ie\<rparr>) s))"

definition yield :: "'z proc_st_scheme \<Rightarrow> ('a, 'z proc_st_scheme) kres" where
  "yield s =
     andthen (acquire_ptable s) (\<lambda>_ s.
     andthen (myproc s) (\<lambda>p s.
     andthen (proc_ptr p s) (\<lambda>i s.
     sched (upd_proc i (\<lambda>p. p\<lparr>state := RUNNABLE\<rparr>) s))))"

definition yield_resume :: "bool \<Rightarrow> 'z proc_st_scheme \<Rightarrow> (unit, 'z proc_st_scheme) kres" where
  "yield_resume ie s = andthen (sched_resume ie s) (\<lambda>_ s. release_ptable s)"

text \<open>The lock argument of \<open>sleep\<close>: the table lock itself, or another lock given by its accessors.\<close>

datatype 's lockptr = PtableLock | OtherLock "'s \<Rightarrow> spinlock" "(spinlock \<Rightarrow> spinlock) \<Rightarrow> 's \<Rightarrow> 's"

definition sleep ::
  "chan option \<Rightarrow> 'z proc_st_scheme lockptr option \<Rightarrow> 'z proc_st_scheme \<Rightarrow> ('a, 'z proc_st_scheme) kres" where
  "sleep ch lk s =
     andthen (myproc s) (\<lambda>p s.
     case p of None \<Rightarrow> Panic ''sleep'' s
     | Some i \<Rightarrow>
       (case lk of None \<Rightarrow> Panic ''sleep without lk'' s
        | Some l \<Rightarrow>
          andthen (case l of PtableLock \<Rightarrow> Ok () s
                   | OtherLock g u \<Rightarrow> andthen (acquire_ptable s) (\<lambda>_ s. release g u s)) (\<lambda>_ s.
          sched (upd_proc i (\<lambda>p. p\<lparr>chan := ch, state := SLEEPING\<rparr>) s))))"

definition sleep_resume ::
  "bool \<Rightarrow> nat \<Rightarrow> 'z proc_st_scheme lockptr \<Rightarrow> 'z proc_st_scheme \<Rightarrow> (unit, 'z proc_st_scheme) kres" where
  "sleep_resume ie i lk s =
     andthen (sched_resume ie s) (\<lambda>_ s.
     let s = upd_proc i (\<lambda>p. p\<lparr>chan := None\<rparr>) s
     in case lk of PtableLock \<Rightarrow> Ok () s
        | OtherLock g u \<Rightarrow> andthen (release_ptable s) (\<lambda>_ s. acquire g u s))"

definition wake :: "chan option \<Rightarrow> proc \<Rightarrow> proc" where
  "wake ch p = (if state p = SLEEPING \<and> chan p = ch then p\<lparr>state := RUNNABLE\<rparr> else p)"

definition wakeup1 :: "chan option \<Rightarrow> 'z proc_st_scheme \<Rightarrow> 'z proc_st_scheme" where
  "wakeup1 ch s = s\<lparr>ptable := map (wake ch) (ptable s)\<rparr>"

definition wakeup :: "chan option \<Rightarrow> 'z proc_st_scheme \<Rightarrow> (unit, 'z proc_st_scheme) kres" where
  "wakeup ch s = andthen (acquire_ptable s) (\<lambda>_ s. release_ptable (wakeup1 ch s))"

definition kill :: "int \<Rightarrow> 'z proc_st_scheme \<Rightarrow> (int, 'z proc_st_scheme) kres" where
  "kill n s =
     andthen (acquire_ptable s) (\<lambda>_ s.
     case findi (\<lambda>p. pid p = n) (ptable s) of
       None \<Rightarrow> andthen (release_ptable s) (\<lambda>_ s. Ok (- 1) s)
     | Some i \<Rightarrow>
         let s = upd_proc i (\<lambda>p. p\<lparr>killed := True\<rparr>) s;
             s = (if state (ptable s ! i) = SLEEPING then upd_proc i (\<lambda>p. p\<lparr>state := RUNNABLE\<rparr>) s else s)
         in andthen (release_ptable s) (\<lambda>_ s. Ok 0 s))"

text \<open>
  One pass of the loop of \<open>wait\<close>, with the table lock held: it reaps the first zombie child, or
  gives up, or goes to sleep.
\<close>

definition wait_scan :: "nat option \<Rightarrow> 'z proc_st_scheme \<Rightarrow> (int, 'z proc_st_scheme) kres" where
  "wait_scan cp s =
     (case findi (\<lambda>p. parent p = cp \<and> state p = ZOMBIE) (ptable s) of
        Some i \<Rightarrow>
          let n = pid (ptable s ! i)
          in andthen (kfree (kstack (ptable s ! i)) s) (\<lambda>_ s.
             andthen (freevm (pgdir (ptable s ! i)) (upd_proc i (\<lambda>p. p\<lparr>kstack := 0\<rparr>) s)) (\<lambda>_ s.
             andthen (release_ptable (upd_proc i (\<lambda>p. p\<lparr>pid := 0, parent := None, pname := '''',
                        killed := False, state := UNUSED\<rparr>) s)) (\<lambda>_ s.
             Ok n s)))
      | None \<Rightarrow>
          andthen (if list_ex (\<lambda>p. parent p = cp) (ptable s)
                   then andthen (proc_ptr cp s) (\<lambda>i s. Ok (killed (ptable s ! i)) s)
                   else Ok True s) (\<lambda>give_up s.
          if give_up then andthen (release_ptable s) (\<lambda>_ s. Ok (- 1) s)
          else sleep (map_option ChProc cp) (Some PtableLock) s))"

definition wait :: "'z proc_st_scheme \<Rightarrow> (int, 'z proc_st_scheme) kres" where
  "wait s = andthen (myproc s) (\<lambda>cp s. andthen (acquire_ptable s) (\<lambda>_ s. wait_scan cp s))"

definition wait_resume :: "bool \<Rightarrow> nat \<Rightarrow> 'z proc_st_scheme \<Rightarrow> (int, 'z proc_st_scheme) kres" where
  "wait_resume ie i s = andthen (sleep_resume ie i PtableLock s) (\<lambda>_ s. wait_scan (Some i) s)"

section \<open>Scheduling\<close>

text \<open>
  \<open>run p\<close> stands for what happens from the switch to process \<open>p\<close> until it switches back to this
  scheduler, on every CPU.  \<open>switch_to\<close> is the part of the loop body shared by the three
  occurrences in the two kernels.
\<close>

definition switch_to ::
  "nat \<Rightarrow> (nat \<Rightarrow> 'z proc_st_scheme \<Rightarrow> 'z proc_st_scheme) \<Rightarrow> nat \<Rightarrow> 'z proc_st_scheme \<Rightarrow> (unit, 'z proc_st_scheme) kres" where
  "switch_to c run p s =
     andthen (switchuvm (Some p) (upd_cpu c (\<lambda>c. c\<lparr>cpu_proc := Some p\<rparr>) s)) (\<lambda>_ s.
     let s = upd_proc p (\<lambda>p. p\<lparr>state := RUNNING\<rparr>) s;
         s = run p s;
         s = switchkvm s
     in Ok () (upd_cpu c (\<lambda>c. c\<lparr>cpu_proc := None\<rparr>) s))"

definition runnable_at :: "int \<Rightarrow> proc \<Rightarrow> bool" where
  "runnable_at q p \<longleftrightarrow> state p = RUNNABLE \<and> priority p = q"

text \<open>One queue of the MLFQ scheduler: the first runnable process of that priority, if any.\<close>

definition run_queue ::
  "nat \<Rightarrow> (nat \<Rightarrow> 'z proc_st_scheme \<Rightarrow> 'z proc_st_scheme) \<Rightarrow> int \<Rightarrow> 'z proc_st_scheme \<Rightarrow> (unit, 'z proc_st_scheme) kres" where
  "run_queue c run q s =
     (case findi (runnable_at q) (ptable s) of None \<Rightarrow> Ok () s | Some p \<Rightarrow> switch_to c run p s)"

text \<open>The body of the endless loop of the MLFQ scheduler.\<close>

definition scheduler_round ::
  "nat \<Rightarrow> (nat \<Rightarrow> 'z proc_st_scheme \<Rightarrow> 'z proc_st_scheme) \<Rightarrow> 'z proc_st_scheme \<Rightarrow> (unit, 'z proc_st_scheme) kres" where
  "scheduler_round c run s =
     andthen (acquire_ptable (sti s)) (\<lambda>_ s.
     andthen (run_queue c run 0 s) (\<lambda>_ s.
     andthen (if cpu_proc (cpus s ! c) = None then run_queue c run 1 s else Ok () s) (\<lambda>_ s.
     release_ptable s)))"

text \<open>The endless loop, observed for as many rounds as the list of behaviours has.\<close>

fun scheduler_loop ::
  "nat \<Rightarrow> (nat \<Rightarrow> 'z proc_st_scheme \<Rightarrow> 'z proc_st_scheme) list \<Rightarrow> 'z proc_st_scheme \<Rightarrow> (unit, 'z proc_st_scheme) kres" where
  "scheduler_loop c [] s = Ok () s"
| "scheduler_loop c (run # runs) s = andthen (scheduler_round c run s) (\<lambda>_ s. scheduler_loop c runs s)"

definition scheduler ::
  "(nat \<Rightarrow> 'z proc_st_scheme \<Rightarrow> 'z proc_st_scheme) list \<Rightarrow> 'z proc_st_scheme \<Rightarrow> (unit, 'z proc_st_scheme) kres" where
  "scheduler runs s =
     andthen (mycpu s) (\<lambda>c s. scheduler_loop c runs (upd_cpu c (\<lambda>c. c\<lparr>cpu_proc := None\<rparr>) s))"

text \<open>The loop body of the original scheduler, from table entry \<open>i\<close> on.\<close>

fun rr_scan ::
  "nat \<Rightarrow> (nat \<Rightarrow> 'z proc_st_scheme \<Rightarrow> 'z proc_st_scheme) \<Rightarrow> nat list \<Rightarrow> 'z proc_st_scheme \<Rightarrow> (unit, 'z proc_st_scheme) kres" where
  "rr_scan c run [] s = Ok () s"
| "rr_scan c run (i # is) s =
     andthen (if state (ptable s ! i) = RUNNABLE then switch_to c run i s else Ok () s) (\<lambda>_ s.
     rr_scan c run is s)"

definition scheduler_round_orig ::
  "nat \<Rightarrow> (nat \<Rightarrow> 'z proc_st_scheme \<Rightarrow> 'z proc_st_scheme) \<Rightarrow> 'z proc_st_scheme \<Rightarrow> (unit, 'z proc_st_scheme) kres" where
  "scheduler_round_orig c run s =
     andthen (acquire_ptable (sti s)) (\<lambda>_ s.
     andthen (rr_scan c run [0..<NPROC] s) (\<lambda>_ s.
     release_ptable s))"

section \<open>The timer tick\<close>

text \<open>
  The accounting of \<^verbatim>\<open>trap\<close> for the running process at a timer interrupt: one more tick, and after
  five of them in the high queue the process moves to the low queue.
\<close>

definition mlfq_tick :: "proc \<Rightarrow> proc" where
  "mlfq_tick p =
     (let p = p\<lparr>ticks_used := ticks_used p + 1\<rparr>
      in if priority p = 0 \<and> 5 \<le> ticks_used p then p\<lparr>priority := 1, ticks_used := 0\<rparr> else p)"

section \<open>Symbolic execution\<close>

interpretation pl: spin_lock ptable_lock ptable_lock_update
  by unfold_locales simp_all

text \<open>The executing CPU is entry \<open>i\<close>, the table has its size and its lock is free.\<close>

definition proc_ready :: "nat \<Rightarrow> 'z proc_st_scheme \<Rightarrow> bool" where
  "proc_ready i s \<longleftrightarrow> on_cpu s i \<and> \<not> locked (ptable_lock s) \<and> lcpu (ptable_lock s) = None
     \<and> length (ptable s) = NPROC"

lemma settled_proc_fields [simp]:
  "ptable (settled i s) = ptable s" "ptable_lock (settled i s) = ptable_lock s"
  "nextpid (settled i s) = nextpid s" "initproc (settled i s) = initproc s"
  "forkret_addr (settled i s) = forkret_addr s" "trapret_addr (settled i s) = trapret_addr s"
  by (simp_all add: settled_def)

lemma held_proc_fields [simp]:
  "ptable (pl.held i s) = ptable s" "nextpid (pl.held i s) = nextpid s" "mem (pl.held i s) = mem s"
  "initproc (pl.held i s) = initproc s" "lapicid (pl.held i s) = lapicid s"
  "forkret_addr (pl.held i s) = forkret_addr s" "trapret_addr (pl.held i s) = trapret_addr s"
  by (simp_all add: pl.held_def pushed_def)

lemma on_cpu_proc_fields [simp]:
  "on_cpu (s\<lparr>ptable := x\<rparr>) i = on_cpu s i" "on_cpu (s\<lparr>nextpid := n\<rparr>) i = on_cpu s i"
  by (simp_all add: on_cpu_def)

lemma settled_proc_upd [simp]:
  "settled i (s\<lparr>ptable := x\<rparr>) = (settled i s)\<lparr>ptable := x\<rparr>"
  "settled i (s\<lparr>nextpid := n\<rparr>) = (settled i s)\<lparr>nextpid := n\<rparr>"
  by (simp_all add: settled_def)

lemma proc_ready_settled [simp]: "proc_ready i s \<Longrightarrow> proc_ready i (settled i s)"
  by (simp add: proc_ready_def)

lemma acquire_ptable_eq: "proc_ready i s \<Longrightarrow> acquire_ptable s = Ok () (pl.held i s)"
  by (simp add: acquire_ptable_def proc_ready_def pl.acquire_free)

lemma release_ptable_eq:
  assumes "proc_ready i s"
  shows "release_ptable ((pl.held i s)\<lparr>ptable := x, nextpid := n\<rparr>) = Ok () ((settled i s)\<lparr>ptable := x, nextpid := n\<rparr>)"
proof -
  have "release_ptable ((pl.held i s)\<lparr>ptable := x, nextpid := n\<rparr>)
      = Ok () (pl.leave i s ((pl.held i s)\<lparr>ptable := x, nextpid := n\<rparr>))"
    unfolding release_ptable_def
    by (rule pl.release_leave) (use assms in \<open>simp_all add: proc_ready_def\<close>)
  moreover have "pl.leave i s ((pl.held i s)\<lparr>ptable := x, nextpid := n\<rparr>) = (settled i s)\<lparr>ptable := x, nextpid := n\<rparr>"
    by (rule proc_st.equality) (simp_all add: pl.leave_def pl.held_def pushed_def settled_def)
  ultimately show ?thesis by simp
qed

lemma ptable_idem [simp]:
  "ptable s = x \<Longrightarrow> s\<lparr>ptable := x\<rparr> = s" "nextpid s = n \<Longrightarrow> s\<lparr>nextpid := n\<rparr> = s"
  by auto

lemma release_ptable_more:
  assumes "proc_ready i s"
  shows "release_ptable ((pl.held i s)\<lparr>ptable := x\<rparr>) = Ok () ((settled i s)\<lparr>ptable := x\<rparr>)"
    and "release_ptable (pl.held i s) = Ok () (settled i s)"
  using release_ptable_eq [OF assms, where x = x and n = "nextpid s"] release_ptable_eq [OF assms, where x = "ptable s" and n = "nextpid s"]
  by simp_all

lemma myproc_eq: "on_cpu s i \<Longrightarrow> myproc s = Ok (cpu_proc (cpus s ! i)) (settled i s)"
proof -
  assume c: "on_cpu s i"
  have "0 < ncli (cpus (pushed i s) ! i)" using c on_cpuD(3) [OF c] by (simp add: ncli_pushed)
  then have "popcli (pushed i s) = Ok () (settled i s)"
    using c by (simp add: popcli_eq [of "pushed i s" i] popped_pushed)
  moreover have "cpu_proc (cpus (pushed i s) ! i) = cpu_proc (cpus s ! i)"
    using on_cpuD(1) [OF c] by (simp add: pushed_def)
  ultimately show ?thesis
    using c by (simp add: myproc_def pushcli_eq mycpu_pushed)
qed

lemma wakeup_eq:
  assumes "proc_ready i s"
  shows "wakeup ch s = Ok () ((settled i s)\<lparr>ptable := map (wake ch) (ptable s)\<rparr>)"
  using assms by (simp add: wakeup_def acquire_ptable_eq [OF assms] wakeup1_def release_ptable_more)

definition killp :: "proc \<Rightarrow> proc" where
  "killp p = p\<lparr>killed := True, state := (if state p = SLEEPING then RUNNABLE else state p)\<rparr>"

lemma kill_eq:
  assumes "proc_ready i s"
  shows "kill n s = (case findi (\<lambda>p. pid p = n) (ptable s) of
      None \<Rightarrow> Ok (- 1) (settled i s)
    | Some k \<Rightarrow> Ok 0 ((settled i s)\<lparr>ptable := (ptable s)[k := killp (ptable s ! k)]\<rparr>))"
proof (cases "findi (\<lambda>p. pid p = n) (ptable s)")
  case None
  with assms show ?thesis by (simp add: kill_def acquire_ptable_eq [OF assms] release_ptable_more)
next
  case (Some k)
  then have k: "k < length (ptable s)" by (simp add: findi_Some_iff)
  have "(if state (ptable (upd_proc k (killed_update (\<lambda>_. True)) (pl.held i s)) ! k) = SLEEPING
      then upd_proc k (state_update (\<lambda>_. RUNNABLE)) (upd_proc k (killed_update (\<lambda>_. True)) (pl.held i s))
      else upd_proc k (killed_update (\<lambda>_. True)) (pl.held i s))
    = (pl.held i s)\<lparr>ptable := (ptable s)[k := killp (ptable s ! k)]\<rparr>"
    using k by (simp add: upd_proc_def killp_def)
  with Some assms show ?thesis
    by (simp add: kill_def acquire_ptable_eq [OF assms] release_ptable_more Let_def del: list_update_overwrite)
qed

lemma sched_eq:
  assumes "on_cpu s i" "ncli (cpus s ! i) = 1" "locked (ptable_lock s)" "lcpu (ptable_lock s) = Some i"
    "cpu_proc (cpus s ! i) = Some p" "state (ptable s ! p) \<noteq> RUNNING"
  shows "sched s = Swtch s"
proof -
  have off: "\<not> iflag s (lapicid s)" using on_cpuD(5) [OF assms(1)] assms(2) by auto
  have "settled i s = s" using assms(2) by (simp add: settled_id)
  then show ?thesis
    using assms off by (simp add: sched_def myproc_eq pl.holding_eq mycpu_eq proc_ptr_def)
qed

lemma cpu_held:
  assumes "on_cpu s i"
  shows "cpu_proc (cpus (pl.held i s) ! i) = cpu_proc (cpus s ! i)"
    "ncli (cpus (pl.held i s) ! i) = ncli (cpus s ! i) + 1" "length (cpus (pl.held i s)) = length (cpus s)"
  using on_cpuD(1) [OF assms] by (simp_all add: pl.held_def pushed_def)

lemma yield_eq:
  assumes "proc_ready i s" "ncli (cpus s ! i) = 0" "cpu_proc (cpus s ! i) = Some p" "p < NPROC"
  shows "yield s = Swtch ((pl.held i s)\<lparr>ptable := (ptable s)[p := (ptable s ! p)\<lparr>state := RUNNABLE\<rparr>]\<rparr>)"
proof -
  have c: "on_cpu s i" and len: "length (ptable s) = NPROC" using assms(1) by (simp_all add: proc_ready_def)
  let ?t = "(pl.held i s)\<lparr>ptable := (ptable s)[p := (ptable s ! p)\<lparr>state := RUNNABLE\<rparr>]\<rparr>"
  have "sched ?t = Swtch ?t"
    by (rule sched_eq [where i = i and p = p]) (use assms c len in \<open>simp_all add: cpu_held\<close>)
  moreover have "myproc (pl.held i s) = Ok (Some p) (pl.held i s)"
    using assms c on_cpuD(3) [OF c] by (simp add: myproc_eq [of "pl.held i s" i] cpu_held settled_id)
  ultimately show ?thesis
    by (simp add: yield_def acquire_ptable_eq [OF assms(1)] proc_ptr_def upd_proc_def)
qed

text \<open>
  The locks other than the table lock that \<open>sleep\<close> may be called with: independent of the process
  table and of its lock.
\<close>

locale other_lock = spin_lock g u for g :: "'z proc_st_scheme \<Rightarrow> spinlock" and u +
  assumes get_ptable_lock [simp]: "g (ptable_lock_update f s) = g s"
    and get_ptable [simp]: "g (s\<lparr>ptable := x\<rparr>) = g s"
    and ptable_lock_upd [simp]: "ptable_lock (u h s) = ptable_lock s"
    and ptable_upd [simp]: "ptable (u h s) = ptable s"
begin

lemma sleep_eq:
  assumes c: "proc_ready i s" and held: "locked (g s)" "lcpu (g s) = Some i" "ncli (cpus s ! i) = 1"
    and p: "cpu_proc (cpus s ! i) = Some p" "p < NPROC"
  obtains t where "(sleep ch (Some (OtherLock g u)) s :: ('r, _) kres) = Swtch t"
    "ptable t = (ptable s)[p := (ptable s ! p)\<lparr>chan := ch, state := SLEEPING\<rparr>]"
    "locked (ptable_lock t)" "lcpu (ptable_lock t) = Some i" "\<not> locked (g t)" "ncli (cpus t ! i) = 1"
    "on_cpu t i"
proof -
  have on: "on_cpu s i" and len: "length (ptable s) = NPROC" using c by (simp_all add: proc_ready_def)
  let ?h = "pl.held i s"
  let ?r = "u (\<lambda>l. l\<lparr>lcpu := None, locked := False\<rparr>) (popped i ?h)"
  let ?t = "?r\<lparr>ptable := (ptable s)[p := (ptable s ! p)\<lparr>chan := ch, state := SLEEPING\<rparr>]\<rparr>"
  have onh: "on_cpu ?h i" and nh: "ncli (cpus ?h ! i) = 2" using on held by (simp_all add: cpu_held)
  have gh: "g ?h = g s" by (simp add: pl.held_def)
  have rel: "release g u ?h = Ok () ?r"
    by (rule release_eq) (use onh nh gh held in simp_all)
  have i: "i < length (cpus s)" using on by (rule on_cpuD(1))
  have pop: "cpus (popped i ?h) ! i = (cpus ?h ! i)\<lparr>ncli := 1\<rparr>" "iflag (popped i ?h) = iflag ?h"
    using nh i by (simp_all add: popped_def cpu_held on)
  have offh: "\<not> iflag ?h (lapicid s)" by (simp add: pl.held_def pushed_def)
  have "on_cpu (popped i ?h) i"
    using onh pop offh by (simp add: on_cpu_def) (simp add: popped_def)
  then have ont: "on_cpu ?t i" by simp
  have ptl: "ptable_lock ?t = ptable_lock ?h" by (simp add: popped_def)
  have cp: "cpus ?t ! i = (cpus ?h ! i)\<lparr>ncli := 1\<rparr>" using pop by simp
  have "(sched ?t :: ('r, _) kres) = Swtch ?t"
    by (rule sched_eq [where i = i and p = p]) (use ont ptl cp p on len in \<open>simp_all add: cpu_held\<close>)
  moreover have "settled i s = s" using held by (simp add: settled_id)
  then have "(sleep ch (Some (OtherLock g u)) s :: ('r, _) kres) = sched ?t"
    using p on rel
    by (simp add: sleep_def myproc_eq acquire_ptable_eq [OF c] upd_proc_def popped_def)
  ultimately show thesis
    using that [of ?t] ont ptl cp by simp
qed

end

lemma sleep_ptable_eq:
  assumes "on_cpu s i" "ncli (cpus s ! i) = 1" "locked (ptable_lock s)" "lcpu (ptable_lock s) = Some i"
    "cpu_proc (cpus s ! i) = Some p" "p < length (ptable s)"
  shows "sleep ch (Some PtableLock) s
    = Swtch (s\<lparr>ptable := (ptable s)[p := (ptable s ! p)\<lparr>chan := ch, state := SLEEPING\<rparr>]\<rparr>)"
proof -
  have "settled i s = s" using assms(2) by (simp add: settled_id)
  then show ?thesis
    using assms by (simp add: sleep_def myproc_eq upd_proc_def) (rule sched_eq [where i = i and p = p]; simp)
qed

section \<open>The scheduler\<close>

text \<open>
  What holds at the switch points of the scheduler of CPU \<open>c\<close>: it has the table lock and nothing
  else, and every live process has a kernel stack and a page directory.
\<close>

definition in_sched :: "nat \<Rightarrow> 'z proc_st_scheme \<Rightarrow> bool" where
  "in_sched c s \<longleftrightarrow> on_cpu s c \<and> ncli (cpus s ! c) = 1 \<and> locked (ptable_lock s) \<and> lcpu (ptable_lock s) = Some c
     \<and> length (ptable s) = NPROC
     \<and> (\<forall>p \<in> set (ptable s). state p \<in> {SLEEPING, RUNNABLE, RUNNING} \<longrightarrow> kstack p \<noteq> 0 \<and> pgdir p \<noteq> 0)"

text \<open>The state in which process \<open>p\<close> starts to run.\<close>

definition dispatched :: "nat \<Rightarrow> nat \<Rightarrow> 'z proc_st_scheme \<Rightarrow> 'z proc_st_scheme" where
  "dispatched c p s = s\<lparr>
     cpus := (cpus s)[c := (cpus s ! c)\<lparr>cpu_proc := Some p, ts_esp0 := kstack (ptable s ! p) + KSTACKSIZE\<rparr>],
     cr3 := V2P (pgdir (ptable s ! p)),
     ptable := (ptable s)[p := (ptable s ! p)\<lparr>state := RUNNING\<rparr>]\<rparr>"

definition undispatched :: "nat \<Rightarrow> 'z proc_st_scheme \<Rightarrow> 'z proc_st_scheme" where
  "undispatched c s = s\<lparr>cr3 := V2P (kpgdir s), cpus := (cpus s)[c := (cpus s ! c)\<lparr>cpu_proc := None\<rparr>]\<rparr>"

lemma on_cpu_same_key:
  assumes "on_cpu s i" "ncli c = ncli (cpus s ! i)" "apicid c = apicid (cpus s ! i)"
  shows "on_cpu (s\<lparr>cpus := (cpus s)[i := c]\<rparr>) i"
proof -
  have i: "i < length (cpus s)" using assms(1) by (rule on_cpuD(1))
  have "findi (\<lambda>k. apicid k = lapicid s) ((cpus s)[i := c]) = Some i"
    using assms(1,3) i by (simp add: on_cpu_def findi_Some_iff nth_list_update)
  with assms i show ?thesis by (simp add: on_cpu_def)
qed

lemma on_cpu_cr3 [simp]:
  "on_cpu (s\<lparr>cr3 := x\<rparr>) i = on_cpu s i" "on_cpu (s\<lparr>cr3 := x, cpus := y\<rparr>) i = on_cpu (s\<lparr>cpus := y\<rparr>) i"
  by (simp_all add: on_cpu_def)

lemma in_sched_dispatched:
  assumes "in_sched c s" "p < NPROC" "state (ptable s ! p) = RUNNABLE"
  shows "in_sched c (dispatched c p s)"
  using assms nth_mem [of p "ptable s"]
  using on_cpu_same_key [of s c "(cpus s ! c)\<lparr>cpu_proc := Some p, ts_esp0 := kstack (ptable s ! p) + KSTACKSIZE\<rparr>"]
  by (auto simp: in_sched_def dispatched_def on_cpuD(1) nth_list_update dest!: set_update_subset_insert [THEN subsetD]
      dest: on_cpuD(1))

lemma in_sched_undispatched: "in_sched c s \<Longrightarrow> in_sched c (undispatched c s)"
  using on_cpu_same_key [of s c "(cpus s ! c)\<lparr>cpu_proc := None\<rparr>"]
  by (auto simp: in_sched_def undispatched_def dest: on_cpuD(1))

lemma switchuvm_eq:
  assumes c: "on_cpu s c" "0 < ncli (cpus s ! c)" and "kstack (ptable s ! p) \<noteq> 0" "pgdir (ptable s ! p) \<noteq> 0"
  shows "switchuvm (Some p) s = Ok () (s\<lparr>
     cpus := (cpus s)[c := (cpus s ! c)\<lparr>ts_esp0 := kstack (ptable s ! p) + KSTACKSIZE\<rparr>],
     cr3 := V2P (pgdir (ptable s ! p))\<rparr>)"
proof -
  let ?n = "ncli (cpus s ! c)"
  let ?e = "kstack (ptable s ! p) + KSTACKSIZE"
  have i: "c < length (cpus s)" and off: "\<not> iflag s (lapicid s)"
    using on_cpuD [OF c(1)] c(2) by auto
  have push: "pushcli s = Ok () (s\<lparr>iflag := (iflag s)(lapicid s := False),
      cpus := (cpus s)[c := (cpus s ! c)\<lparr>ncli := ?n + 1\<rparr>]\<rparr>)"
    using c by (simp add: pushcli_eq pushed_def)
  moreover have "(iflag s)(lapicid s := False) = iflag s" using off by (simp add: fun_upd_idem)
  ultimately have push: "pushcli s = Ok () (s\<lparr>cpus := (cpus s)[c := (cpus s ! c)\<lparr>ncli := ?n + 1\<rparr>]\<rparr>)"
    by simp
  let ?a = "s\<lparr>cpus := (cpus s)[c := (cpus s ! c)\<lparr>ncli := ?n + 1\<rparr>]\<rparr>"
  have m: "mycpu ?a = Ok c ?a"
    using c off by (simp add: mycpu_def on_cpu_def)
  let ?b = "s\<lparr>cpus := (cpus s)[c := (cpus s ! c)\<lparr>ncli := ?n + 1, ts_esp0 := ?e\<rparr>], cr3 := V2P (pgdir (ptable s ! p))\<rparr>"
  have "on_cpu ?b c" using c i off
    by (auto simp: on_cpu_def findi_Some_iff nth_list_update)
  then have "popcli ?b = Ok () (popped c ?b)"
    by (rule popcli_eq) (use c i in simp)
  also have "popped c ?b = s\<lparr>cpus := (cpus s)[c := (cpus s ! c)\<lparr>ts_esp0 := ?e\<rparr>], cr3 := V2P (pgdir (ptable s ! p))\<rparr>"
    using c i by (intro proc_st.equality) (simp_all add: popped_def)
  finally show ?thesis
    using assms push m i by (simp add: switchuvm_def upd_cpu_def Let_def)
qed

lemma switch_to_eq:
  assumes "in_sched c s" "p < NPROC" "state (ptable s ! p) = RUNNABLE"
  shows "switch_to c run p s = Ok () (undispatched c (run p (dispatched c p s)))"
proof -
  let ?s = "upd_cpu c (\<lambda>c. c\<lparr>cpu_proc := Some p\<rparr>) s"
  have i: "c < length (cpus s)" using assms(1) by (auto simp: in_sched_def dest: on_cpuD(1))
  have on: "on_cpu ?s c" "0 < ncli (cpus ?s ! c)"
    using assms(1) i on_cpu_same_key [of s c "(cpus s ! c)\<lparr>cpu_proc := Some p\<rparr>"]
    by (auto simp: in_sched_def upd_cpu_def)
  have "ptable s ! p \<in> set (ptable s)" using assms(1,2) by (simp add: in_sched_def)
  then have k: "kstack (ptable ?s ! p) \<noteq> 0" "pgdir (ptable ?s ! p) \<noteq> 0"
    using assms(1,3) by (auto simp: in_sched_def upd_cpu_def)
  show ?thesis
    unfolding switch_to_def switchuvm_eq [OF on k]
    using i by (simp add: Let_def switchkvm_def undispatched_def dispatched_def upd_proc_def upd_cpu_def)
qed

text \<open>
  The contract of the code that runs between two switches: it leaves the scheduler's conditions as
  it found them.
\<close>

definition run_ok :: "nat \<Rightarrow> (nat \<Rightarrow> 'z proc_st_scheme \<Rightarrow> 'z proc_st_scheme) \<Rightarrow> bool" where
  "run_ok c run \<longleftrightarrow> (\<forall>p s. in_sched c s \<longrightarrow> p < NPROC \<longrightarrow> kstack (ptable s ! p) \<noteq> 0 \<longrightarrow> pgdir (ptable s ! p) \<noteq> 0
     \<longrightarrow> in_sched c (run p s))"

lemma in_sched_run:
  assumes "run_ok c run" "in_sched c s" "p < NPROC" "state (ptable s ! p) = RUNNABLE"
  shows "in_sched c (run p (dispatched c p s))"
proof -
  have "ptable s ! p \<in> set (ptable s)" using assms by (simp add: in_sched_def)
  then have "kstack (ptable s ! p) \<noteq> 0" "pgdir (ptable s ! p) \<noteq> 0" using assms by (auto simp: in_sched_def)
  then have "kstack (ptable (dispatched c p s) ! p) \<noteq> 0" "pgdir (ptable (dispatched c p s) ! p) \<noteq> 0"
    using assms by (simp_all add: dispatched_def in_sched_def)
  with assms in_sched_dispatched [OF assms(2-4)] show ?thesis by (simp add: run_ok_def)
qed

definition run_first ::
  "nat \<Rightarrow> (nat \<Rightarrow> 'z proc_st_scheme \<Rightarrow> 'z proc_st_scheme) \<Rightarrow> int \<Rightarrow> 'z proc_st_scheme \<Rightarrow> 'z proc_st_scheme" where
  "run_first c run q s = (case findi (runnable_at q) (ptable s) of None \<Rightarrow> s
     | Some p \<Rightarrow> undispatched c (run p (dispatched c p s)))"

lemma findi_runnable:
  "findi (runnable_at q) (ptable s) = Some p \<Longrightarrow> in_sched c s \<Longrightarrow> p < NPROC \<and> state (ptable s ! p) = RUNNABLE"
  by (auto simp: findi_Some_iff runnable_at_def in_sched_def)

lemma run_queue_eq: "in_sched c s \<Longrightarrow> run_queue c run q s = Ok () (run_first c run q s)"
  by (cases "findi (runnable_at q) (ptable s)")
    (auto simp: run_queue_def run_first_def switch_to_eq dest: findi_runnable)

lemma in_sched_run_first: "run_ok c run \<Longrightarrow> in_sched c s \<Longrightarrow> in_sched c (run_first c run q s)"
  by (cases "findi (runnable_at q) (ptable s)")
    (auto simp: run_first_def in_sched_run in_sched_undispatched dest: findi_runnable)

lemma in_sched_cpu: "in_sched c s \<Longrightarrow> c < length (cpus s)"
  by (auto simp: in_sched_def dest: on_cpuD(1))

lemma cpu_proc_undispatched: "in_sched c s \<Longrightarrow> cpu_proc (cpus (undispatched c s) ! c) = None"
  by (simp add: undispatched_def in_sched_cpu)

lemma cpu_proc_run_first:
  "run_ok c run \<Longrightarrow> in_sched c s \<Longrightarrow> cpu_proc (cpus s ! c) = None \<Longrightarrow> cpu_proc (cpus (run_first c run q s) ! c) = None"
  by (cases "findi (runnable_at q) (ptable s)")
    (auto simp: run_first_def cpu_proc_undispatched in_sched_run dest: findi_runnable)

text \<open>Between two rounds the scheduler holds no lock and its CPU has no process.\<close>

definition sched_idle :: "nat \<Rightarrow> 'z proc_st_scheme \<Rightarrow> bool" where
  "sched_idle c s \<longleftrightarrow> proc_ready c s \<and> ncli (cpus s ! c) = 0 \<and> cpu_proc (cpus s ! c) = None
     \<and> (\<forall>p \<in> set (ptable s). state p \<in> {SLEEPING, RUNNABLE, RUNNING} \<longrightarrow> kstack p \<noteq> 0 \<and> pgdir p \<noteq> 0)"

definition round_start :: "nat \<Rightarrow> 'z proc_st_scheme \<Rightarrow> 'z proc_st_scheme" where
  "round_start c s = pl.held c (sti s)"

definition round_end :: "nat \<Rightarrow> 'z proc_st_scheme \<Rightarrow> 'z proc_st_scheme" where
  "round_end c s = ptable_lock_update (\<lambda>l. l\<lparr>lcpu := None, locked := False\<rparr>) (popped c s)"

lemma round_start_eq:
  assumes "sched_idle c s"
  shows "acquire_ptable (sti s) = Ok () (round_start c s)" "in_sched c (round_start c s)"
    "cpu_proc (cpus (round_start c s) ! c) = None"
proof -
  have r: "proc_ready c (sti s)" using assms by (simp add: sched_idle_def proc_ready_def sti_def on_cpu_def)
  then have on: "on_cpu (sti s) c" by (simp add: proc_ready_def)
  from r show "acquire_ptable (sti s) = Ok () (round_start c s)"
    by (simp add: acquire_ptable_eq round_start_def)
  show "in_sched c (round_start c s)" "cpu_proc (cpus (round_start c s) ! c) = None"
    using assms r on by (simp_all add: in_sched_def round_start_def cpu_held sched_idle_def proc_ready_def) (simp_all add: sti_def)
qed

lemma round_end_eq:
  assumes "in_sched c s" "cpu_proc (cpus s ! c) = None"
  shows "release_ptable s = Ok () (round_end c s)" "sched_idle c (round_end c s)"
proof -
  show "release_ptable s = Ok () (round_end c s)"
    unfolding release_ptable_def round_end_def
    by (rule pl.release_eq) (use assms in \<open>simp_all add: in_sched_def\<close>)
  show "sched_idle c (round_end c s)"
    using assms in_sched_cpu [OF assms(1)]
    by (auto simp: sched_idle_def proc_ready_def round_end_def popped_def in_sched_def on_cpu_def)
qed

lemma scheduler_round_eq:
  assumes "sched_idle c s" "run_ok c run"
  shows "scheduler_round c run s = Ok () (round_end c (run_first c run 1 (run_first c run 0 (round_start c s))))"
    and "sched_idle c (round_end c (run_first c run 1 (run_first c run 0 (round_start c s))))"
proof -
  let ?a = "run_first c run 0 (round_start c s)"
  have a: "in_sched c ?a" "cpu_proc (cpus ?a ! c) = None"
    using assms round_start_eq [OF assms(1)] by (simp_all add: in_sched_run_first cpu_proc_run_first)
  then have b: "in_sched c (run_first c run 1 ?a)" "cpu_proc (cpus (run_first c run 1 ?a) ! c) = None"
    using assms by (simp_all add: in_sched_run_first cpu_proc_run_first)
  show "scheduler_round c run s = Ok () (round_end c (run_first c run 1 ?a))"
    using a by (simp add: scheduler_round_def round_start_eq [OF assms(1)] run_queue_eq round_end_eq [OF b])
  show "sched_idle c (round_end c (run_first c run 1 ?a))" using b by (rule round_end_eq)
qed

section \<open>Which processes run\<close>

text \<open>
  The state is extended with the list of the processes that have run so far; \<open>traced\<close> behaviours
  add to it the process they stand for.
\<close>

record trace_st = proc_st +
  ran :: "nat list"

definition traced :: "(nat \<Rightarrow> 'z trace_st_scheme \<Rightarrow> 'z trace_st_scheme) \<Rightarrow> bool" where
  "traced run \<longleftrightarrow> (\<forall>p s. ran (run p s) = ran s @ [p])"

lemma round_trace [simp]:
  "ran (round_start c s) = ran s" "ran (round_end c s) = ran s" "ran (dispatched c p s) = ran s"
  "ran (undispatched c s) = ran s"
  by (simp_all add: round_start_def round_end_def pl.held_def pushed_def popped_def sti_def
      dispatched_def undispatched_def)

lemma round_ptable [simp]:
  "ptable (round_start c s) = ptable s" "ptable (round_end c s) = ptable s" "ptable (undispatched c s) = ptable s"
  "ptable (dispatched c p s) = (ptable s)[p := (ptable s ! p)\<lparr>state := RUNNING\<rparr>]"
  by (simp_all add: round_start_def round_end_def popped_def sti_def dispatched_def undispatched_def)

lemma run_first_trace:
  "traced run \<Longrightarrow> ran (run_first c run q s) = ran s @ (case findi (runnable_at q) (ptable s) of None \<Rightarrow> [] | Some p \<Rightarrow> [p])"
  by (simp add: run_first_def traced_def split: option.split)

text \<open>
  C8: a round of the MLFQ scheduler that has run a process of the high queue goes on to run a process
  of the low queue, although another process of the high queue is still runnable.  (The comments of
  \<^verbatim>\<open>scheduler\<close> say that the low queue runs only when the high queue is empty; the test
  \<^verbatim>\<open>c->proc == 0\<close> cannot tell, since \<^verbatim>\<open>c->proc\<close> has just been reset.)
\<close>

theorem mlfq_low_runs_despite_high:
  assumes "sched_idle c s" "run_ok c run" "traced run"
    and "findi (runnable_at 0) (ptable s) = Some h"
    and "findi (runnable_at 1) (ptable (run h (dispatched c h (round_start c s)))) = Some l"
    and "runnable_at 0 (ptable (run h (dispatched c h (round_start c s))) ! k)"
  shows "\<exists>t. scheduler_round c run s = Ok () t \<and> ran t = ran s @ [h, l]"
proof -
  have "run_first c run 0 (round_start c s) = undispatched c (run h (dispatched c h (round_start c s)))"
    using assms(4) by (simp add: run_first_def)
  then have "ran (run_first c run 1 (run_first c run 0 (round_start c s))) = ran s @ [h, l]"
    using assms(3,5) by (simp add: run_first_trace) (simp add: traced_def)
  with scheduler_round_eq [OF assms(1,2)] show ?thesis by simp
qed

text \<open>
  \<open>keeps_low c l m run\<close>: whoever runs, \<open>l\<close> is runnable in the low queue again when the scheduler gets the CPU back, and \<open>m\<close> is
  still in the low queue.  Nothing is asked of the other processes: they may sleep, wake each other, be created and exit.
\<close>

definition keeps_low :: "nat \<Rightarrow> nat \<Rightarrow> nat \<Rightarrow> (nat \<Rightarrow> 'z proc_st_scheme \<Rightarrow> 'z proc_st_scheme) \<Rightarrow> bool" where
  "keeps_low c l m run \<longleftrightarrow> (\<forall>p x. in_sched c x \<longrightarrow> p < NPROC \<longrightarrow> p \<noteq> m
     \<longrightarrow> runnable_at 1 (ptable x ! l) \<longrightarrow> priority (ptable x ! m) = 1
     \<longrightarrow> runnable_at 1 (ptable (run p (dispatched c p x)) ! l) \<and> priority (ptable (run p (dispatched c p x)) ! m) = 1)"

lemma findi_runnable_le:
  assumes "runnable_at q (ptable s ! l)" "l < NPROC" "in_sched c s"
  obtains j where "findi (runnable_at q) (ptable s) = Some j" "j \<le> l"
proof (cases "findi (runnable_at q) (ptable s)")
  case None
  then show thesis using assms by (auto simp: findi_None_iff in_sched_def all_set_conv_all_nth)
next
  case (Some j)
  then have "j \<le> l" using assms by (auto simp: findi_Some_iff in_sched_def not_less [symmetric])
  with Some that show thesis by blast
qed

lemma run_first_keeps_low:
  assumes "in_sched c s" "keeps_low c l m run" "m < NPROC"
    and "runnable_at 1 (ptable s ! l)" "priority (ptable s ! m) = 1" "findi (runnable_at q) (ptable s) \<noteq> Some m"
  shows "runnable_at 1 (ptable (run_first c run q s) ! l)" "priority (ptable (run_first c run q s) ! m) = 1"
  using assms by (auto simp: run_first_def keeps_low_def dest: findi_runnable split: option.split)

text \<open>
  C9: the low queue is not served round robin, and its processes can starve.  As long as a process \<open>l\<close> of the low queue only
  ever gives up the CPU by being preempted, so that it is runnable whenever the scheduler looks, a process \<open>m\<close> of the low
  queue in a later slot of the table is never run, for any number of rounds: each round runs a low process, but one in a
  slot up to \<open>l\<close>.  This is so whatever the high queue and all other processes do.
\<close>

theorem mlfq_low_queue_starves:
  assumes "sched_idle c s" "\<forall>run \<in> set runs. run_ok c run \<and> traced run \<and> keeps_low c l m run"
    and "l < m" "m < NPROC" "runnable_at 1 (ptable s ! l)" "priority (ptable s ! m) = 1"
  shows "\<exists>t xs. scheduler_loop c runs s = Ok () t \<and> ran t = ran s @ xs \<and> m \<notin> set xs
    \<and> length runs \<le> length (filter (\<lambda>j. j \<le> l) xs)"
  using assms(1,2,5,6)
proof (induction runs arbitrary: s)
  case Nil
  then show ?case by simp
next
  case (Cons run runs)
  have run: "run_ok c run" "traced run" "keeps_low c l m run" using Cons.prems by auto
  let ?a = "round_start c s" and ?b = "run_first c run 0 (round_start c s)"
  let ?t = "round_end c (run_first c run 1 ?b)"
  have a: "in_sched c ?a" by (rule round_start_eq(2) [OF Cons.prems(1)])
  have b: "in_sched c ?b" by (rule in_sched_run_first [OF run(1) a])
  have "findi (runnable_at 0) (ptable ?a) \<noteq> Some m"
    using Cons.prems(4) by (auto simp: findi_Some_iff runnable_at_def)
  then have lb: "runnable_at 1 (ptable ?b ! l)" "priority (ptable ?b ! m) = 1" "findi (runnable_at 0) (ptable s) \<noteq> Some m"
    using run_first_keeps_low [OF a run(3) assms(4), of 0] Cons.prems(3,4) by simp_all
  have "l < NPROC" using assms(3,4) by simp
  then obtain j where j: "findi (runnable_at 1) (ptable ?b) = Some j" "j \<le> l"
    using findi_runnable_le [OF lb(1) _ b] by blast
  then have jm: "findi (runnable_at 1) (ptable ?b) \<noteq> Some m" using assms(3) by auto
  have q: "runnable_at 1 (ptable ?t ! l)" "priority (ptable ?t ! m) = 1"
    using run_first_keeps_low [OF b run(3) assms(4) lb(1,2) jm] by simp_all
  have t: "scheduler_round c run s = Ok () ?t" "sched_idle c ?t"
    using scheduler_round_eq [OF Cons.prems(1) run(1)] by simp_all
  let ?ys = "(case findi (runnable_at 0) (ptable s) of None \<Rightarrow> [] | Some p \<Rightarrow> [p]) @ [j]"
  have "ran ?t = ran s @ ?ys" using j(1) by (simp add: run_first_trace [OF run(2)])
  moreover have "m \<notin> set ?ys" using lb(3) j(2) assms(3) by (auto split: option.splits)
  moreover obtain u xs where "scheduler_loop c runs ?t = Ok () u" "ran u = ran ?t @ xs" "m \<notin> set xs"
    "length runs \<le> length (filter (\<lambda>j. j \<le> l) xs)"
    using Cons.IH [OF t(2) _ q] Cons.prems(2) by auto
  ultimately show ?case using t(1) j(2) by (intro exI [of _ u] exI [of _ "?ys @ xs"]) simp
qed

text \<open>
  What other processes do to an entry of the table while they run: \<open>k\<close> stays runnable, or stays not runnable, until it is run
  itself.  The routines by which one process changes the entry of another keep it runnable.
\<close>

definition stays_runnable :: "nat \<Rightarrow> bool \<Rightarrow> nat \<Rightarrow> (nat \<Rightarrow> 'z proc_st_scheme \<Rightarrow> 'z proc_st_scheme) \<Rightarrow> bool" where
  "stays_runnable c r k run \<longleftrightarrow> (\<forall>p x. in_sched c x \<longrightarrow> p < NPROC \<longrightarrow> p \<noteq> k \<longrightarrow> (state (ptable x ! k) = RUNNABLE \<longleftrightarrow> r)
     \<longrightarrow> (state (ptable (run p x) ! k) = RUNNABLE \<longleftrightarrow> r))"

lemma wakeup1_runnable:
  "k < length (ptable s) \<Longrightarrow> state (ptable s ! k) = RUNNABLE \<Longrightarrow> state (ptable (wakeup1 ch s) ! k) = RUNNABLE"
  by (simp add: wakeup1_def wake_def)

lemma kill_runnable:
  assumes "kill n s = Ok r t" "state (ptable s ! k) = RUNNABLE"
  shows "state (ptable t ! k) = RUNNABLE"
proof -
  have q: "quiet ptable" by (simp add: quiet_def)
  have a: "ptable (kstate (acquire_ptable x)) = ptable x" "ptable (kstate (release_ptable x)) = ptable x" for x :: "'a proc_st_scheme"
    unfolding acquire_ptable_def release_ptable_def by (rule frame_acquire frame_release; simp add: q)+
  have ok: "ptable u = ptable x" if "acquire_ptable x = Ok v u \<or> release_ptable x = Ok v u" for x u :: "'a proc_st_scheme" and v
    using that a [of x] by auto
  obtain v u where u: "acquire_ptable s = Ok v u" using assms(1) by (auto simp: kill_def kern)
  then have pu: "ptable u = ptable s" using ok by blast
  show ?thesis
  proof (cases "findi (\<lambda>p. pid p = n) (ptable u)")
    case None
    with assms(1) u obtain w where "release_ptable u = Ok w t" by (auto simp: kill_def kern)
    then show ?thesis using ok pu assms(2) by metis
  next
    case (Some i)
    define x where "x = (if state (ptable (upd_proc i (\<lambda>p. p\<lparr>killed := True\<rparr>) u) ! i) = SLEEPING
      then upd_proc i (\<lambda>p. p\<lparr>state := RUNNABLE\<rparr>) (upd_proc i (\<lambda>p. p\<lparr>killed := True\<rparr>) u)
      else upd_proc i (\<lambda>p. p\<lparr>killed := True\<rparr>) u)"
    obtain w where "release_ptable x = Ok w t"
      using assms(1) u Some unfolding kill_def by (simp add: Let_def flip: x_def) (auto simp: kern)
    then have "ptable t = ptable x" using ok by blast
    moreover have "state (ptable x ! k) = RUNNABLE"
      using assms(2) pu by (cases "i < length (ptable u)"; cases "k = i") (auto simp: x_def upd_proc_def list_update_beyond)
    ultimately show ?thesis by simp
  qed
qed

lemma rr_scan_eq:
  assumes "run_ok c run" "traced run"
    and "in_sched c s" "cpu_proc (cpus s ! c) = None" "sorted_wrt (<) is" "set is \<subseteq> {..<NPROC}"
  shows "\<exists>t xs. rr_scan c run is s = Ok () t \<and> ran t = ran s @ xs \<and> sorted_wrt (<) xs \<and> set xs \<subseteq> set is
    \<and> (\<forall>k r. k \<in> set is \<longrightarrow> stays_runnable c r k run \<longrightarrow> (state (ptable s ! k) = RUNNABLE \<longleftrightarrow> r) \<longrightarrow> (k \<in> set xs \<longleftrightarrow> r))
    \<and> in_sched c t \<and> cpu_proc (cpus t ! c) = None"
  using assms(3-6)
proof (induction "is" arbitrary: s)
  case Nil
  then show ?case by simp
next
  case (Cons i "is")
  have i: "i < NPROC" "i \<notin> set is" using Cons.prems by auto
  show ?case
  proof (cases "state (ptable s ! i) = RUNNABLE")
    case False
    from Cons.IH [OF Cons.prems(1,2)] Cons.prems(3,4) obtain t xs where
      t: "rr_scan c run is s = Ok () t" "ran t = ran s @ xs" "sorted_wrt (<) xs" "set xs \<subseteq> set is" "in_sched c t"
      "cpu_proc (cpus t ! c) = None"
      "\<forall>k r. k \<in> set is \<longrightarrow> stays_runnable c r k run \<longrightarrow> (state (ptable s ! k) = RUNNABLE \<longleftrightarrow> r) \<longrightarrow> (k \<in> set xs \<longleftrightarrow> r)"
      by auto
    have "i \<notin> set xs" using t(4) i(2) by auto
    then show ?thesis using t False by (intro exI [of _ t] exI [of _ xs]) auto
  next
    case True
    let ?t = "undispatched c (run i (dispatched c i s))"
    have sched: "in_sched c (run i (dispatched c i s))"
      using in_sched_run [OF assms(1) Cons.prems(1) i(1) True] .
    have "in_sched c ?t" "cpu_proc (cpus ?t ! c) = None" "sorted_wrt (<) is" "set is \<subseteq> {..<NPROC}"
      using sched Cons.prems(3,4) by (simp_all add: in_sched_undispatched cpu_proc_undispatched)
    from Cons.IH [OF this] obtain u xs where
      u: "rr_scan c run is ?t = Ok () u" "ran u = ran ?t @ xs" "sorted_wrt (<) xs" "set xs \<subseteq> set is" "in_sched c u"
      "cpu_proc (cpus u ! c) = None"
      "\<forall>k r. k \<in> set is \<longrightarrow> stays_runnable c r k run \<longrightarrow> (state (ptable ?t ! k) = RUNNABLE \<longleftrightarrow> r) \<longrightarrow> (k \<in> set xs \<longleftrightarrow> r)"
      by blast
    have "ran ?t = ran s @ [i]" using assms(2) by (simp add: traced_def)
    moreover have "sorted_wrt (<) (i # xs)" using u(3,4) Cons.prems(3) by auto
    moreover have "k \<in> set (i # xs) \<longleftrightarrow> r"
      if k: "k \<in> set (i # is)" "stays_runnable c r k run" "state (ptable s ! k) = RUNNABLE \<longleftrightarrow> r" for k r
    proof (cases "k = i")
      case True
      then show ?thesis using k(3) \<open>state (ptable s ! i) = RUNNABLE\<close> by simp
    next
      case False
      have "in_sched c (dispatched c i s)" by (rule in_sched_dispatched [OF Cons.prems(1) i(1) \<open>state (ptable s ! i) = RUNNABLE\<close>])
      then have "state (ptable (run i (dispatched c i s)) ! k) = RUNNABLE \<longleftrightarrow> r"
        using k(2,3) i(1) False unfolding stays_runnable_def by (metis nth_list_update_neq round_ptable(4))
      then show ?thesis using u(7) k(1,2) False by auto
    qed
    moreover have "rr_scan c run (i # is) s = Ok () u"
      using True switch_to_eq [OF Cons.prems(1) i(1) True, of run] u(1) by simp
    ultimately show ?thesis using u(2,4,5,6) by (intro exI [of _ u] exI [of _ "i # xs"]) auto
  qed
qed

text \<open>
  C10: one round of the scheduler of the unmodified kernel starves nobody.  It runs processes in table order, each at most
  once, and among them every process that is runnable when the round begins and stays so until it is run (waking or killing
  a process does not end that; only another CPU could, by running it first).  A process that is not runnable, and that nobody
  makes runnable, is not run.
\<close>

theorem rr_round_runs_all:
  assumes "sched_idle c s" "run_ok c run" "traced run"
  shows "\<exists>t xs. scheduler_round_orig c run s = Ok () t \<and> sched_idle c t \<and> ran t = ran s @ xs
    \<and> sorted_wrt (<) xs \<and> set xs \<subseteq> {..<NPROC}
    \<and> (\<forall>k < NPROC. state (ptable s ! k) = RUNNABLE \<longrightarrow> stays_runnable c True k run \<longrightarrow> k \<in> set xs)
    \<and> (\<forall>k < NPROC. state (ptable s ! k) \<noteq> RUNNABLE \<longrightarrow> stays_runnable c False k run \<longrightarrow> k \<notin> set xs)"
proof -
  have "\<exists>t xs. rr_scan c run [0..<NPROC] (round_start c s) = Ok () t \<and> ran t = ran (round_start c s) @ xs
    \<and> sorted_wrt (<) xs \<and> set xs \<subseteq> set [0..<NPROC]
    \<and> (\<forall>k r. k \<in> set [0..<NPROC] \<longrightarrow> stays_runnable c r k run
          \<longrightarrow> (state (ptable (round_start c s) ! k) = RUNNABLE \<longleftrightarrow> r) \<longrightarrow> (k \<in> set xs \<longleftrightarrow> r))
    \<and> in_sched c t \<and> cpu_proc (cpus t ! c) = None"
    by (rule rr_scan_eq [OF assms(2,3)]) (use round_start_eq [OF assms(1)] in auto)
  then obtain t xs where t: "rr_scan c run [0..<NPROC] (round_start c s) = Ok () t" "ran t = ran s @ xs"
      "sorted_wrt (<) xs" "set xs \<subseteq> {..<NPROC}" "in_sched c t" "cpu_proc (cpus t ! c) = None"
      "\<forall>k < NPROC. stays_runnable c (state (ptable s ! k) = RUNNABLE) k run
         \<longrightarrow> (k \<in> set xs) = (state (ptable s ! k) = RUNNABLE)"
    by (auto simp: atLeast0LessThan)
  have "scheduler_round_orig c run s = Ok () (round_end c t)"
    using round_start_eq(1) [OF assms(1)] t(1) round_end_eq(1) [OF t(5,6)] by (simp add: scheduler_round_orig_def)
  then show ?thesis
    using t(2-4,7) round_end_eq(2) [OF t(5,6)] by (intro exI [of _ "round_end c t"] exI [of _ xs]) auto
qed

text \<open>
  C11: a process that starts in the high queue with a clean counter stays there for its first four timer
  ticks and is in the low queue from the fifth on, for good, however the ticks are spread over time.
\<close>

theorem mlfq_demotion:
  assumes "priority p = 0" "ticks_used p = 0"
  shows "priority ((mlfq_tick ^^ n) p) = (if n < 5 then 0 else 1)"
proof -
  have low: "priority ((mlfq_tick ^^ m) x) = 1" if "priority x = 1" for m x
    using that by (induction m) (simp_all add: mlfq_tick_def Let_def)
  have high: "priority ((mlfq_tick ^^ m) p) = 0 \<and> ticks_used ((mlfq_tick ^^ m) p) = int m" if "m < 5" for m
    using that assms by (induction m) (simp_all add: mlfq_tick_def Let_def)
  have "priority ((mlfq_tick ^^ 5) p) = 1"
    using assms by (simp add: mlfq_tick_def numeral_eq_Suc Let_def)
  then have "priority ((mlfq_tick ^^ (m + 5)) p) = 1" for m using low by (simp add: funpow_add)
  with high show ?thesis by (cases "n < 5") (auto simp: not_less le_iff_add add.commute)
qed

text \<open>
  An example: the behaviour of processes that compute until the timer interrupt and yield, on a table
  with one CPU.
\<close>

definition preempted :: "nat \<Rightarrow> 'z trace_st_scheme \<Rightarrow> 'z trace_st_scheme" where
  "preempted p s = s\<lparr>ran := ran s @ [p], ptable := (ptable s)[p := (mlfq_tick (ptable s ! p))\<lparr>state := RUNNABLE\<rparr>]\<rparr>"

definition demo_proc :: "procstate \<Rightarrow> int \<Rightarrow> proc" where
  "demo_proc st q = \<lparr>sz = 4096, pgdir = 0x80200000, kstack = 0x80300000, state = st, pid = 1, parent = None,
     tf = 0, ctx = 0, chan = None, killed = False, ofile = replicate 16 None, cwd = None, pname = '''',
     priority = q, ticks_used = 0\<rparr>"

definition demo :: "proc list \<Rightarrow> trace_st" where
  "demo ps = \<lparr>mem = (\<lambda>_. 0), lapicid = 0, iflag = (\<lambda>_. True), cr3 = 0,
     cpus = [\<lparr>apicid = 0, ncli = 0, intena = False, cpu_proc = None, ts_esp0 = 0\<rparr>],
     kmem_lock = \<lparr>locked = False, lname = ''kmem'', lcpu = None\<rparr>, use_lock = True, freelist = 0,
     kend = 0x80115000, kpgdir = 0x80400000, kdata = 0x80108000,
     ptable_lock = \<lparr>locked = False, lname = ''ptable'', lcpu = None\<rparr>,
     ptable = ps @ replicate (64 - length ps) (demo_proc UNUSED 0), initproc = Some 0, nextpid = 4,
     forkret_addr = 0, trapret_addr = 0, ran = []\<rparr>"

lemma preempted_ok: "run_ok c preempted"
  by (auto simp: run_ok_def in_sched_def preempted_def on_cpu_def mlfq_tick_def Let_def
      dest!: set_update_subset_insert [THEN subsetD])

lemma preempted_traced: "traced preempted"
  by (simp add: traced_def preempted_def)

lemma demo_idle: "length ps \<le> 64 \<Longrightarrow> \<forall>p \<in> set ps. kstack p \<noteq> 0 \<and> pgdir p \<noteq> 0 \<Longrightarrow> sched_idle 0 (demo ps)"
  by (auto simp: sched_idle_def proc_ready_def demo_def on_cpu_def demo_proc_def)

theorem mlfq_low_runs_despite_high_witness:
  "\<exists>t. scheduler_round 0 preempted (demo [demo_proc RUNNABLE 0, demo_proc RUNNABLE 0, demo_proc RUNNABLE 1]) = Ok () t
     \<and> ran t = [0, 2]"
proof -
  let ?s = "demo [demo_proc RUNNABLE 0, demo_proc RUNNABLE 0, demo_proc RUNNABLE 1]"
  have i: "sched_idle 0 ?s" by (rule demo_idle) (simp_all add: demo_proc_def)
  have p: "ptable (preempted 0 (dispatched 0 0 (round_start 0 ?s)))
      = [(demo_proc RUNNABLE 0)\<lparr>ticks_used := 1\<rparr>, demo_proc RUNNABLE 0, demo_proc RUNNABLE 1]
        @ replicate 61 (demo_proc UNUSED 0)"
    by (simp add: preempted_def) (simp add: demo_def demo_proc_def mlfq_tick_def)
  have h: "findi (runnable_at 0) (ptable ?s) = Some 0" by (simp add: demo_def demo_proc_def runnable_at_def)
  have "\<exists>t. scheduler_round 0 preempted ?s = Ok () t \<and> ran t = ran ?s @ [0, 2]"
    by (rule mlfq_low_runs_despite_high [OF i preempted_ok preempted_traced h, where k = 1])
      (simp_all add: p, simp_all add: demo_proc_def runnable_at_def)
  then show ?thesis by (simp add: demo_def)
qed

lemma preempted_keeps_low: "l \<noteq> m \<Longrightarrow> l < NPROC \<Longrightarrow> keeps_low c l m preempted"
  by (auto simp: keeps_low_def preempted_def in_sched_def runnable_at_def mlfq_tick_def Let_def nth_list_update)

theorem mlfq_low_queue_starves_witness:
  "\<exists>t xs. scheduler_loop 0 [preempted, preempted, preempted] (demo [demo_proc RUNNABLE 0, demo_proc RUNNABLE 1, demo_proc RUNNABLE 1])
      = Ok () t \<and> ran t = xs \<and> 2 \<notin> set xs \<and> 3 \<le> length (filter (\<lambda>j. j \<le> 1) xs)"
proof -
  let ?s = "demo [demo_proc RUNNABLE 0, demo_proc RUNNABLE 1, demo_proc RUNNABLE 1]"
  have i: "sched_idle 0 ?s" by (rule demo_idle) (simp_all add: demo_proc_def)
  have p: "runnable_at 1 (ptable ?s ! 1)" "priority (ptable ?s ! 2) = 1" by (simp_all add: demo_def demo_proc_def runnable_at_def)
  have r: "\<forall>run \<in> set [preempted, preempted, preempted]. run_ok 0 run \<and> traced run \<and> keeps_low 0 1 2 run"
    by (simp add: preempted_ok preempted_traced preempted_keeps_low)
  have "(1 :: nat) < 2" "(2 :: nat) < NPROC" "ran ?s = []" by (simp_all add: demo_def)
  with mlfq_low_queue_starves [OF i r _ _ p]
  show ?thesis by (simp add: numeral_3_eq_3 del: scheduler_loop.simps)
qed

text \<open>A process that wakes all sleepers and is then preempted.\<close>

definition waking :: "nat \<Rightarrow> 'z trace_st_scheme \<Rightarrow> 'z trace_st_scheme" where
  "waking p s = preempted p (wakeup1 None s)"

lemma in_sched_wakeup1: "in_sched c s \<Longrightarrow> in_sched c (wakeup1 ch s)"
  by (auto simp: in_sched_def wakeup1_def wake_def on_cpu_def)

lemma waking_ok: "run_ok c waking" "traced waking"
proof -
  show "run_ok c (waking :: nat \<Rightarrow> 'a trace_st_scheme \<Rightarrow> _)"
    unfolding run_ok_def
  proof (intro allI impI)
    fix p and s :: "'a trace_st_scheme"
    assume s: "in_sched c s" "p < NPROC" "kstack (ptable s ! p) \<noteq> 0" "pgdir (ptable s ! p) \<noteq> 0"
    have "p < length (ptable s)" using s(1,2) by (simp add: in_sched_def)
    then have "kstack (ptable (wakeup1 None s) ! p) \<noteq> 0" "pgdir (ptable (wakeup1 None s) ! p) \<noteq> 0"
      using s(3,4) by (simp_all add: wakeup1_def wake_def)
    with preempted_ok [of c] in_sched_wakeup1 [OF s(1)] s(2) show "in_sched c (waking p s)"
      unfolding run_ok_def waking_def by blast
  qed
  show "traced waking" by (simp add: traced_def waking_def preempted_def wakeup1_def)
qed

lemma waking_stays: "k < NPROC \<Longrightarrow> stays_runnable c True k waking"
  by (auto simp: stays_runnable_def waking_def preempted_def in_sched_def wakeup1_def wake_def)

theorem rr_round_runs_all_witness:
  "\<exists>t xs. scheduler_round_orig 0 waking (demo [demo_proc RUNNABLE 1, demo_proc SLEEPING 0, demo_proc RUNNABLE 1]) = Ok () t
     \<and> ran t = xs \<and> sorted_wrt (<) xs \<and> {0, 2} \<subseteq> set xs"
proof -
  let ?s = "demo [demo_proc RUNNABLE 1, demo_proc SLEEPING 0, demo_proc RUNNABLE 1]"
  have i: "sched_idle 0 ?s" by (rule demo_idle) (simp_all add: demo_proc_def)
  have "state (ptable ?s ! 0) = RUNNABLE" "state (ptable ?s ! 2) = RUNNABLE" "ran ?s = []"
    by (simp_all add: demo_def demo_proc_def)
  moreover have "stays_runnable 0 True 0 (waking :: nat \<Rightarrow> trace_st \<Rightarrow> _)" "stays_runnable 0 True 2 (waking :: nat \<Rightarrow> trace_st \<Rightarrow> _)"
    by (simp_all add: waking_stays)
  ultimately show ?thesis using rr_round_runs_all [OF i waking_ok] by auto
qed

theorem mlfq_demotion_witness:
  "priority ((mlfq_tick ^^ 4) (demo_proc RUNNING 0)) = 0 \<and> priority ((mlfq_tick ^^ 9) (demo_proc RUNNING 0)) = 1"
  using mlfq_demotion [of "demo_proc RUNNING 0" 4] mlfq_demotion [of "demo_proc RUNNING 0" 9]
  by (simp add: demo_proc_def)

section \<open>Creating, waking and killing processes\<close>

lemma kmem_quiet_proc [simp]:
  "kmem_quiet ptable" "kmem_quiet nextpid" "kmem_quiet ptable_lock" "kmem_quiet forkret_addr"
  "kmem_quiet trapret_addr" "kmem_quiet kpgdir" "kmem_quiet kdata" "kmem_quiet initproc" "kmem_quiet proc_st.more"
  by (simp_all add: kmem_quiet_def quiet_def)

lemma allocproc_stack:
  fixes ks tr fr :: u32 and m :: memory
  defines "m' \<equiv> store32 (memset (store32 m (ks + 4016) tr) (ks + 3996) 0 20) (ks + 4012) fr"
  shows "load32 m' (ks + 4012) = fr" "load32 m' (ks + 4016) = tr"
proof -
  show "load32 m' (ks + 4012) = fr" by (simp add: m'_def mem_simps)
  have "load32 m' (ks + 4016) = load32 (memset (store32 m (ks + 4016) tr) (ks + 3996) 0 20) (ks + 4016)"
    unfolding m'_def by (rule load32_store32_other) simp_all
  also have "\<dots> = load32 (store32 m (ks + 4016) tr) (ks + 4016)"
    by (simp add: load32_def memset_eq)
  finally show "load32 m' (ks + 4016) = tr" by (simp add: mem_simps)
qed

definition newproc :: "int \<Rightarrow> proc \<Rightarrow> proc" where
  "newproc n p = p\<lparr>state := EMBRYO, pid := n, priority := 0, ticks_used := 0\<rparr>"

lemma allocproc_Ok:
  assumes "proc_ready i s" "allocproc s = Ok r t"
  shows "(r = None \<and> findi (\<lambda>p. state p = UNUSED) (ptable s) = None \<and> ptable t = ptable s \<and> nextpid t = nextpid s)
    \<or> (\<exists>k. r = None \<and> findi (\<lambda>p. state p = UNUSED) (ptable s) = Some k \<and> nextpid t = nextpid s + 1
        \<and> ptable t = (ptable s)[k := (newproc (nextpid s) (ptable s ! k))\<lparr>kstack := 0, state := UNUSED\<rparr>])
    \<or> (\<exists>k ks. r = Some k \<and> findi (\<lambda>p. state p = UNUSED) (ptable s) = Some k \<and> nextpid t = nextpid s + 1
        \<and> ks \<noteq> 0 \<and> load32 (mem t) (ks + 4012) = forkret_addr s \<and> load32 (mem t) (ks + 4016) = trapret_addr s
        \<and> ptable t = (ptable s)[k := (newproc (nextpid s) (ptable s ! k))\<lparr>kstack := ks, tf := ks + 4020, ctx := ks + 3996\<rparr>])"
proof (cases "findi (\<lambda>p. state p = UNUSED) (ptable s)")
  case None
  with assms show ?thesis
    by (auto simp: allocproc_def acquire_ptable_eq [OF assms(1)] release_ptable_more)
next
  case (Some k)
  then have k: "k < length (ptable s)" by (simp add: findi_Some_iff)
  let ?s = "(settled i s)\<lparr>ptable := (ptable s)[k := newproc (nextpid s) (ptable s ! k)], nextpid := nextpid s + 1\<rparr>"
  have "allocproc s = andthen (kalloc ?s) (\<lambda>ks s.
      let s = upd_proc k (\<lambda>p. p\<lparr>kstack := ks\<rparr>) s
      in if ks = 0 then Ok None (upd_proc k (\<lambda>p. p\<lparr>state := UNUSED\<rparr>) s)
         else let sp = ks + KSTACKSIZE - 76;
                  s = upd_proc k (\<lambda>p. p\<lparr>tf := sp\<rparr>) s;
                  sp = sp - 4;
                  s = s\<lparr>mem := store32 (mem s) sp (trapret_addr s)\<rparr>;
                  sp = sp - 20;
                  s = upd_proc k (\<lambda>p. p\<lparr>ctx := sp\<rparr>) s;
                  s = s\<lparr>mem := memset (mem s) sp 0 20\<rparr>;
                  s = s\<lparr>mem := store32 (mem s) (sp + 16) (forkret_addr s)\<rparr>
              in Ok (Some k) s)"
    using Some by (simp add: allocproc_def acquire_ptable_eq [OF assms(1)] upd_proc_def Let_def
        release_ptable_eq [OF assms(1)] newproc_def)
  with assms(2) obtain ks u where u: "kalloc ?s = Ok ks u" and t: "(if ks = 0 then r = None \<and>
        t = u\<lparr>ptable := (ptable u)[k := (ptable u ! k)\<lparr>kstack := 0, state := UNUSED\<rparr>]\<rparr>
      else r = Some k \<and> mem t = store32 (memset (store32 (mem u) (ks + 4016) (trapret_addr u)) (ks + 3996) 0 20)
          (ks + 4012) (forkret_addr u) \<and> nextpid t = nextpid u
        \<and> ptable t = (ptable u)[k := (ptable u ! k)\<lparr>kstack := ks, tf := ks + 4020, ctx := ks + 3996\<rparr>])"
    by (cases "k < length (ptable (kstate (kalloc ?s)))")
      (auto simp: andthen_eq_Ok_iff Let_def upd_proc_def list_update_beyond add.commute split: if_splits)
  have fr: "ptable u = ptable ?s" "nextpid u = nextpid ?s" "forkret_addr u = forkret_addr ?s" "trapret_addr u = trapret_addr ?s"
    using frame_kalloc [of ptable ?s] frame_kalloc [of nextpid ?s] frame_kalloc [of forkret_addr ?s]
      frame_kalloc [of trapret_addr ?s] u by simp_all
  show ?thesis
  proof (cases "ks = 0")
    case True
    with t fr Some k show ?thesis by (simp add: newproc_def)
  next
    case False
    with t have "r = Some k \<and> findi (\<lambda>p. state p = UNUSED) (ptable s) = Some k \<and> nextpid t = nextpid s + 1
        \<and> ks \<noteq> 0 \<and> load32 (mem t) (ks + 4012) = forkret_addr s \<and> load32 (mem t) (ks + 4016) = trapret_addr s
        \<and> ptable t = (ptable s)[k := (newproc (nextpid s) (ptable s ! k))\<lparr>kstack := ks, tf := ks + 4020, ctx := ks + 3996\<rparr>]"
      using fr Some k allocproc_stack [of "mem u" ks "trapret_addr u" "forkret_addr u"] by simp
    then show ?thesis by blast
  qed
qed

text \<open>
  A process created by \<^verbatim>\<open>allocproc\<close> takes the first unused entry, gets the next process id, starts
  in the high queue with no ticks used, and its kernel stack is laid out so that the first switch to it
  enters \<^verbatim>\<open>forkret\<close> and returns to \<^verbatim>\<open>trapret\<close> with the stack pointer at its trap frame.
\<close>

theorem allocproc_starts_at_forkret:
  assumes "proc_ready i s" "allocproc s = Ok (Some k) t"
  shows "let p = ptable t ! k in
      findi (\<lambda>p. state p = UNUSED) (ptable s) = Some k
    \<and> state p = EMBRYO \<and> pid p = nextpid s \<and> priority p = 0 \<and> ticks_used p = 0 \<and> nextpid t = nextpid s + 1
    \<and> load32 (mem t) (ctx p + 16) = forkret_addr s \<and> load32 (mem t) (ctx p + 20) = trapret_addr s
    \<and> tf p = ctx p + 24 \<and> tf p + 76 = kstack p + KSTACKSIZE
    \<and> (\<forall>j. j \<noteq> k \<longrightarrow> ptable t ! j = ptable s ! j)"
proof -
  have "\<exists>ks. findi (\<lambda>p. state p = UNUSED) (ptable s) = Some k \<and> nextpid t = nextpid s + 1
        \<and> ks \<noteq> 0 \<and> load32 (mem t) (ks + 4012) = forkret_addr s \<and> load32 (mem t) (ks + 4016) = trapret_addr s
        \<and> ptable t = (ptable s)[k := (newproc (nextpid s) (ptable s ! k))\<lparr>kstack := ks, tf := ks + 4020, ctx := ks + 3996\<rparr>]"
    using allocproc_Ok [OF assms] by simp
  then obtain ks where a: "findi (\<lambda>p. state p = UNUSED) (ptable s) = Some k" "nextpid t = nextpid s + 1"
    "load32 (mem t) (ks + 4012) = forkret_addr s" "load32 (mem t) (ks + 4016) = trapret_addr s"
    "ptable t = (ptable s)[k := (newproc (nextpid s) (ptable s ! k))\<lparr>kstack := ks, tf := ks + 4020, ctx := ks + 3996\<rparr>]"
    by blast
  moreover from a(1) have "k < length (ptable s)" by (simp add: findi_Some_iff)
  ultimately show ?thesis by (simp add: newproc_def add.assoc)
qed

lemma allocproc_succeeds:
  assumes "proc_ready i s" "findi (\<lambda>p. state p = UNUSED) (ptable s) = Some k"
    and "kalloc ((settled i s)\<lparr>ptable := (ptable s)[k := newproc (nextpid s) (ptable s ! k)], nextpid := nextpid s + 1\<rparr>)
      = Ok ks u" "ks \<noteq> 0"
  shows "\<exists>t. allocproc s = Ok (Some k) t"
  using assms by (simp add: allocproc_def acquire_ptable_eq [OF assms(1)] upd_proc_def Let_def
        release_ptable_eq [OF assms(1)] newproc_def)

text \<open>An example with one free page.\<close>

definition one_page :: "proc list \<Rightarrow> trace_st" where
  "one_page ps = (demo ps)\<lparr>freelist := 0x80116000, mem := store32 (store32 (\<lambda>_. 0) 0x80116000 4096) 0x80116004 0\<rparr>"

lemma one_page_free:
  assumes "mem s = mem (one_page ps)" "freelist s = freelist (one_page ps)" "kend s = kend (one_page ps)" "kmem_ready i s"
  shows "\<exists>u. kalloc s = Ok 0x80116000 u"
proof -
  have sz: "run_size (mem s) 0x80116000 = 4096"
    by (simp add: assms one_page_def run_size_def load32_store32_other load32_store32)
  have "free_blocks s [0x80116000]"
    by (simp add: free_blocks_def assms one_page_def demo_def run_next_def load32_store32 kpage_def V2P_def)
  from kalloc_free_blocks [OF assms(4) this] obtain b u where "kalloc s = Ok b u"
    "if b = 0 then \<forall>x \<in> set [0x80116000]. run_size (mem s) x < 4096 else b \<in> set [0x80116000]"
    by metis
  with sz show ?thesis by (auto split: if_splits)
qed

theorem allocproc_starts_at_forkret_witness:
  "\<exists>t. allocproc (one_page [demo_proc RUNNING 0]) = Ok (Some 1) t \<and> pid (ptable t ! 1) = 4
     \<and> load32 (mem t) (ctx (ptable t ! 1) + 16) = 0"
proof -
  let ?s = "one_page [demo_proc RUNNING 0]"
  have r: "proc_ready 0 ?s" by (simp add: proc_ready_def one_page_def demo_def on_cpu_def)
  have f: "findi (\<lambda>p. state p = UNUSED) (ptable ?s) = Some 1"
    by (simp add: one_page_def demo_def demo_proc_def numeral_eq_Suc)
  have "\<exists>u. kalloc ((settled 0 ?s)\<lparr>ptable := (ptable ?s)[1 := newproc (nextpid ?s) (ptable ?s ! 1)], nextpid := nextpid ?s + 1\<rparr>)
      = Ok 0x80116000 u"
    using r by (intro one_page_free [of _ "[demo_proc RUNNING 0]" 0])
      (simp_all, simp add: kmem_ready_def one_page_def demo_def proc_ready_def)
  then obtain t where t: "allocproc ?s = Ok (Some 1) t" using allocproc_succeeds [OF r f] by fastforce
  with allocproc_starts_at_forkret [OF r t] show ?thesis
    by (simp add: Let_def) (simp add: one_page_def demo_def)
qed

text \<open>
  C17: \<^verbatim>\<open>kill(0)\<close> reports success on an unused table entry and leaves its \<^verbatim>\<open>killed\<close> flag set; the next
  process created in that entry is born killed, because \<^verbatim>\<open>allocproc\<close> does not clear the flag.
\<close>

theorem kill_zero_poisons_slot:
  assumes "proc_ready i s" "findi (\<lambda>p. pid p = 0) (ptable s) = Some k"
    "findi (\<lambda>p. state p = UNUSED) (ptable s) = Some k"
  shows "\<exists>t. kill 0 s = Ok 0 t \<and> proc_ready i t \<and> state (ptable t ! k) = UNUSED \<and> killed (ptable t ! k)
    \<and> (\<forall>n u. allocproc t = Ok (Some n) u \<longrightarrow> n = k \<and> killed (ptable u ! n))"
proof -
  let ?t = "(settled i s)\<lparr>ptable := (ptable s)[k := killp (ptable s ! k)]\<rparr>"
  have run: "kill 0 s = Ok 0 ?t" using kill_eq [OF assms(1)] assms(2) by simp
  have k: "k < length (ptable s)" "state (ptable s ! k) = UNUSED" using assms(3) by (simp_all add: findi_Some_iff)
  have rdy: "proc_ready i ?t" using proc_ready_settled [OF assms(1)] assms(1) by (simp add: proc_ready_def)
  have un: "findi (\<lambda>p. state p = UNUSED) (ptable ?t) = Some k"
    using assms(3) by (auto simp: findi_Some_iff nth_list_update killp_def)
  have "n = k \<and> killed (ptable u ! n)" if "allocproc ?t = Ok (Some n) u" for n u
    using allocproc_Ok [OF rdy that] un k by (auto simp: newproc_def killp_def)
  with run rdy k show ?thesis by (auto simp: killp_def)
qed

theorem kill_zero_poisons_slot_witness:
  "\<exists>t. kill 0 (demo [demo_proc RUNNING 0, (demo_proc UNUSED 0)\<lparr>pid := 0\<rparr>]) = Ok 0 t \<and> killed (ptable t ! 1)"
proof -
  let ?s = "demo [demo_proc RUNNING 0, (demo_proc UNUSED 0)\<lparr>pid := 0\<rparr>]"
  have "proc_ready 0 ?s" by (simp add: proc_ready_def demo_def on_cpu_def)
  from kill_zero_poisons_slot [OF this, of 1] show ?thesis
    by (fastforce simp: demo_def demo_proc_def)
qed

section \<open>The table invariant\<close>

text \<open>
  Every entry has a legal queue and tick count, and the processes in use have distinct positive
  process ids below \<^verbatim>\<open>nextpid\<close>.
\<close>

definition mlfq_ok :: "proc \<Rightarrow> bool" where
  "mlfq_ok p \<longleftrightarrow> 0 \<le> ticks_used p \<and> (priority p = 0 \<and> ticks_used p < 5 \<or> priority p = 1)"

definition table_inv :: "proc list \<Rightarrow> int \<Rightarrow> bool" where
  "table_inv ps n \<longleftrightarrow> length ps = NPROC \<and> 0 < n \<and> (\<forall>i < NPROC. mlfq_ok (ps ! i))
     \<and> (\<forall>i < NPROC. state (ps ! i) \<noteq> UNUSED \<longrightarrow> 0 < pid (ps ! i) \<and> pid (ps ! i) < n)
     \<and> (\<forall>i < NPROC. \<forall>j < NPROC. state (ps ! i) \<noteq> UNUSED \<longrightarrow> state (ps ! j) \<noteq> UNUSED \<longrightarrow>
          pid (ps ! i) = pid (ps ! j) \<longrightarrow> i = j)"

definition tame :: "proc \<Rightarrow> proc \<Rightarrow> bool" where
  "tame p p' \<longleftrightarrow> (mlfq_ok p \<longrightarrow> mlfq_ok p') \<and> (state p' \<noteq> UNUSED \<longrightarrow> state p \<noteq> UNUSED \<and> pid p' = pid p)"

lemma table_inv_tame:
  assumes "table_inv ps n" "length qs = length ps" "\<And>i. i < NPROC \<Longrightarrow> tame (ps ! i) (qs ! i)"
  shows "table_inv qs n"
  using assms unfolding table_inv_def tame_def by simp

lemma tame_refl [simp]: "tame p p"
  by (simp add: tame_def)

lemma table_inv_upd:
  assumes "table_inv ps n" "k < NPROC \<Longrightarrow> tame (ps ! k) p'"
  shows "table_inv (ps[k := p']) n"
proof (rule table_inv_tame [OF assms(1)])
  fix i assume "i < NPROC"
  moreover have "length ps = NPROC" using assms(1) by (simp add: table_inv_def)
  ultimately show "tame (ps ! i) (ps[k := p'] ! i)" using assms(2) by (cases "k = i") simp_all
qed simp

lemma table_inv_new:
  assumes "table_inv ps n" "mlfq_ok p'" "pid p' = n"
  shows "table_inv (ps[k := p']) (n + 1)"
proof -
  have len: "length ps = NPROC" using assms(1) by (simp add: table_inv_def)
  have nth: "ps[k := p'] ! i = (if k = i then p' else ps ! i)" if "i < NPROC" for i
    using len that by (simp add: nth_list_update)
  show ?thesis
    using assms unfolding table_inv_def by (auto simp: nth)
qed

lemma tame_simps [simp]:
  "tame p (killp p)" "tame p (wake ch p)" "tame p (mlfq_tick p)"
  by (auto simp: tame_def killp_def wake_def mlfq_ok_def mlfq_tick_def Let_def)

lemma tame_state: "state p \<noteq> UNUSED \<Longrightarrow> tame p (p\<lparr>state := x\<rparr>)" "state p \<noteq> UNUSED \<Longrightarrow> tame p (p\<lparr>chan := ch, state := x\<rparr>)"
  by (auto simp: tame_def mlfq_ok_def)

lemma table_inv_allocproc:
  assumes "proc_ready i s" "allocproc s = Ok r t" "table_inv (ptable s) (nextpid s)"
  shows "table_inv (ptable t) (nextpid t)"
  using allocproc_Ok [OF assms(1,2)] assms(3)
  by (elim disjE) (auto intro!: table_inv_new simp: newproc_def mlfq_ok_def)

lemma table_inv_kill:
  "proc_ready i s \<Longrightarrow> kill n s = Ok r t \<Longrightarrow> table_inv (ptable s) (nextpid s) \<Longrightarrow> table_inv (ptable t) (nextpid t)"
  by (auto simp: kill_eq split: option.splits intro!: table_inv_upd)

lemma table_inv_map_wake: "table_inv ps n \<Longrightarrow> table_inv (map (wake ch) ps) n"
  by (rule table_inv_tame [of ps]) (simp_all add: table_inv_def)

lemma table_inv_wakeup:
  assumes "proc_ready i s" "wakeup ch s = Ok r t" "table_inv (ptable s) (nextpid s)"
  shows "table_inv (ptable t) (nextpid t)"
  using assms(2,3) by (auto simp: wakeup_eq [OF assms(1)] intro: table_inv_map_wake)

text \<open>\<open>wait\<close> leaves a reaped entry unused.\<close>

lemma quiet_proc [simp]: "quiet ptable" "quiet nextpid"
  by (simp_all add: quiet_def)

lemma frame_release_ptable: "ptable (kstate (release_ptable s)) = ptable s" "nextpid (kstate (release_ptable s)) = nextpid s"
  unfolding release_ptable_def by (rule frame_release; simp)+

lemma table_inv_wait_scan:
  assumes "wait_scan cp s = Ok r t" "table_inv (ptable s) (nextpid s)"
  shows "table_inv (ptable t) (nextpid t)"
proof (cases "findi (\<lambda>p. parent p = cp \<and> state p = ZOMBIE) (ptable s)")
  case None
  have "ptable t = ptable s \<and> nextpid t = nextpid s"
    using assms(1) None frame_release_ptable [of s]
    by (auto simp: wait_scan_def andthen_eq_Ok_iff proc_ptr_def sleep_def sched_def split: if_splits option.splits)
  with assms(2) show ?thesis by simp
next
  case (Some k)
  let ?u = "\<lambda>s. upd_proc k (\<lambda>p. p\<lparr>pid := 0, parent := None, pname := '''', killed := False, state := UNUSED\<rparr>) s"
  obtain a b where a: "kfree (kstack (ptable s ! k)) s = Ok () a"
    and b: "freevm (pgdir (ptable a ! k)) (upd_proc k (\<lambda>p. p\<lparr>kstack := 0\<rparr>) a) = Ok () b"
    and c: "release_ptable (?u b) = Ok () t"
    using assms(1) Some by (auto simp: wait_scan_def Let_def andthen_eq_Ok_iff)
  have pa: "ptable a = ptable s" "nextpid a = nextpid s"
    using frame_kfree [of ptable "kstack (ptable s ! k)" s] frame_kfree [of nextpid "kstack (ptable s ! k)" s] a by simp_all
  have pb: "ptable b = (ptable a)[k := (ptable a ! k)\<lparr>kstack := 0\<rparr>]" "nextpid b = nextpid a"
    using frame_freevm [of ptable "pgdir (ptable a ! k)" "upd_proc k (\<lambda>p. p\<lparr>kstack := 0\<rparr>) a"]
      frame_freevm [of nextpid "pgdir (ptable a ! k)" "upd_proc k (\<lambda>p. p\<lparr>kstack := 0\<rparr>) a"] b
    by (simp_all add: upd_proc_def)
  have pt: "ptable t = ptable (?u b)" "nextpid t = nextpid b"
    using frame_release_ptable [of "?u b"] c by (simp_all add: upd_proc_def)
  have "table_inv (ptable (?u b)) (nextpid b)"
    using assms(2) Some by (auto simp: upd_proc_def pb pa tame_def mlfq_ok_def findi_Some_iff intro!: table_inv_upd)
  with pt show ?thesis by simp
qed

section \<open>Frames of the process table operations\<close>

text \<open>
  \<open>table_quiet\<close> observations do not depend on the CPU table, the interrupt flags, the process table or its lock;
  waking, sleeping and switching leave them alone.
\<close>

definition table_quiet :: "('z proc_st_scheme \<Rightarrow> 'b) \<Rightarrow> bool" where
  "table_quiet h \<longleftrightarrow> quiet h \<and> (\<forall>s x. h (s\<lparr>ptable := x\<rparr>) = h s) \<and> (\<forall>s f. h (ptable_lock_update f s) = h s)"

lemma table_quietD:
  assumes "table_quiet h"
  shows "quiet h" "h (s\<lparr>ptable := x\<rparr>) = h s" "h (ptable_lock_update f s) = h s" "h (upd_proc i g s) = h s"
  using assms by (simp_all add: table_quiet_def upd_proc_def)

lemma frame_acquire_ptable: "table_quiet h \<Longrightarrow> h (kstate (acquire_ptable s)) = h s"
  unfolding acquire_ptable_def by (rule frame_acquire) (simp_all add: table_quietD)

lemma frame_release_table: "table_quiet h \<Longrightarrow> h (kstate (release_ptable s)) = h s"
  unfolding release_ptable_def by (rule frame_release) (simp_all add: table_quietD)

lemma frame_myproc:
  assumes "quiet h" shows "h (kstate (myproc s)) = h s"
  unfolding myproc_def
  by (auto simp: Let_def frame_pushcli frame_popcli frame_mycpu assms intro!: frame_andthen [where h = h])

lemma frame_proc_ptr [simp]: "kstate (proc_ptr p s) = s"
  by (simp add: proc_ptr_def split: option.split)

lemma frame_wakeup: "table_quiet h \<Longrightarrow> h (kstate (wakeup ch s)) = h s"
  unfolding wakeup_def wakeup1_def
  by (rule frame_andthen [where h = h]) (simp_all add: frame_acquire_ptable frame_release_table table_quietD)

lemma frame_sched:
  assumes "table_quiet h" shows "h (kstate (sched s)) = h s"
  unfolding sched_def using assms
  by (auto simp: frame_myproc frame_holding frame_mycpu table_quietD intro!: frame_andthen [where h = h])

lemma frame_sleep:
  assumes "table_quiet h" "\<And>f s. h (u f s) = h s"
  shows "h (kstate (sleep ch (Some (OtherLock g u)) s)) = h s"
  unfolding sleep_def
proof (rule frame_andthen [where h = h], goal_cases)
  case (2 p t)
  then show ?case
    using assms
    by (cases p) (auto simp: frame_acquire_ptable frame_release frame_sched table_quietD intro!: frame_andthen [where h = h])
qed (simp add: assms frame_myproc table_quietD)

lemma sleep_not_Ok [simp]: "sleep ch lk s \<noteq> Ok r t"
  by (auto simp: sleep_def sched_def andthen_eq_Ok_iff split: option.splits if_splits)

text \<open>Taking and releasing locks never gives up the CPU.\<close>

lemma lock_not_Swtch [simp]:
  "mycpu s \<noteq> Swtch t" "pushcli s \<noteq> Swtch t" "popcli s \<noteq> Swtch t" "holding g s \<noteq> Swtch t" "acquire g u s \<noteq> Swtch t"
  "release g u s \<noteq> Swtch t" "myproc s \<noteq> Swtch t" "proc_ptr q x \<noteq> Swtch y"
proof -
  show m: "mycpu s \<noteq> Swtch t" for s t by (simp add: mycpu_def split: option.split)
  show pu: "pushcli s \<noteq> Swtch t" for s t by (simp add: pushcli_def Let_def andthen_eq_Swtch_iff m)
  show po: "popcli s \<noteq> Swtch t" for s t by (simp add: popcli_def Let_def andthen_eq_Swtch_iff m)
  show h: "holding g s \<noteq> Swtch t" for s t by (simp add: holding_def andthen_eq_Swtch_iff m pu po)
  show "acquire g u s \<noteq> Swtch t" "release g u s \<noteq> Swtch t" "myproc s \<noteq> Swtch t"
    by (simp_all add: acquire_def release_def myproc_def Let_def andthen_eq_Swtch_iff m pu po h)
  show "proc_ptr q x \<noteq> Swtch y" by (simp add: proc_ptr_def split: option.split)
qed

lemma wakeup_not_Swtch [simp]: "wakeup ch s \<noteq> Swtch t"
  by (simp add: wakeup_def acquire_ptable_def release_ptable_def andthen_eq_Swtch_iff)

context other_lock
begin

text \<open>The end of a critical section of the lock that wakes up sleepers: it always succeeds.\<close>

lemma wakeup_release:
  assumes c: "proc_ready i s" and free: "\<not> locked (g s)" "lcpu (g s) = None"
    and keep: "cpus t = cpus (held i s)" "iflag t = iflag (held i s)" "lapicid t = lapicid s" "g t = g (held i s)"
      "ptable_lock t = ptable_lock s" "length (ptable t) = NPROC"
  shows "\<exists>v. andthen (wakeup ch t) (\<lambda>_ s. release g u s) = Ok () v"
proof -
  have on: "on_cpu s i" using c by (simp add: proc_ready_def)
  have "on_cpu t i" using on_cpu_held [OF on] keep by (simp add: on_cpu_def held_def pushed_def)
  then have r: "proc_ready i t" using c keep by (simp add: proc_ready_def)
  have st: "settled i t = t" using ncli_held [OF on] keep by (intro settled_id) simp
  have "release g u (t\<lparr>ptable := map (wake ch) (ptable t)\<rparr>) = Ok () (leave i s (t\<lparr>ptable := map (wake ch) (ptable t)\<rparr>))"
    by (rule release_leave [OF on free]) (simp_all add: keep)
  then show ?thesis by (simp add: wakeup_eq [OF r] st)
qed

end

end
