(* ===== verification/Sysarg.thy ===== *)
theory Sysarg
  imports Proc
begin

text \<open>
  System call arguments (\<^verbatim>\<open>syscall.c\<close>): \<^verbatim>\<open>fetchint\<close>, \<^verbatim>\<open>fetchstr\<close>, \<^verbatim>\<open>argint\<close>, \<^verbatim>\<open>argptr\<close>, \<^verbatim>\<open>argstr\<close>.  User
  memory is read through the current page directory.  A result of \<open>None\<close> is the return value -1; the
  out-parameter and the return value are returned together.  The theorems show that what these
  routines accept lies inside the process.
\<close>

section \<open>Fetching from user memory\<close>

definition fetchint :: "u32 \<Rightarrow> 'z proc_st_scheme \<Rightarrow> (u32 option, 'z proc_st_scheme) kres" where
  "fetchint addr s =
     andthen (myproc s) (\<lambda>p s.
     andthen (proc_ptr p s) (\<lambda>i s.
     if sz (ptable s ! i) \<le> addr \<or> sz (ptable s ! i) < addr + 4 then Ok None s
     else andthen (deref32 addr s) (\<lambda>v s. Ok (Some v) s)))"

text \<open>The scan for the terminating NUL, from \<open>a\<close> up to \<open>ep\<close>; \<open>pp\<close> is where the string starts.\<close>

function fetchstr_loop :: "u32 \<Rightarrow> u32 \<Rightarrow> u32 \<Rightarrow> 'z machine_scheme \<Rightarrow> ((u32 \<times> u32) option, 'z machine_scheme) kres" where
  "fetchstr_loop pp a ep s =
     (if a < ep
      then andthen (deref8 a s) (\<lambda>c s.
           if c = 0 then Ok (Some (a - pp, pp)) s else fetchstr_loop pp (a + 1) ep s)
      else Ok None s)"
  by pat_completeness auto
termination
proof (relation "measure (\<lambda>(pp, a, ep, s). unat ep - unat a)", simp)
  fix pp a ep :: u32 and s t :: "'z machine_scheme" and c
  assume "a < ep"
  then have "unat (a + 1) = unat a + 1" "unat a < unat ep" by unat_arith+
  then show "((pp, a + 1, ep, t), pp, a, ep, s) \<in> measure (\<lambda>(pp, a, ep, s). unat ep - unat a)" by simp
qed

declare fetchstr_loop.simps [simp del]

text \<open>The result is the length of the string and its address.\<close>

definition fetchstr :: "u32 \<Rightarrow> 'z proc_st_scheme \<Rightarrow> ((u32 \<times> u32) option, 'z proc_st_scheme) kres" where
  "fetchstr addr s =
     andthen (myproc s) (\<lambda>p s.
     andthen (proc_ptr p s) (\<lambda>i s.
     if sz (ptable s ! i) \<le> addr then Ok None s
     else fetchstr_loop addr addr (sz (ptable s ! i)) s))"

text \<open>\<^verbatim>\<open>tf->esp\<close> is at offset 68 of the trap frame, which is in kernel memory.\<close>

definition argint :: "u32 \<Rightarrow> 'z proc_st_scheme \<Rightarrow> (u32 option, 'z proc_st_scheme) kres" where
  "argint n s =
     andthen (myproc s) (\<lambda>p s.
     andthen (proc_ptr p s) (\<lambda>i s.
     fetchint (load32 (mem s) (tf (ptable s ! i) + 68) + 4 + 4 * n) s))"

text \<open>\<open>sizeb\<close> is a C \<^verbatim>\<open>int\<close>.\<close>

definition argptr :: "u32 \<Rightarrow> int \<Rightarrow> 'z proc_st_scheme \<Rightarrow> (u32 option, 'z proc_st_scheme) kres" where
  "argptr n sizeb s =
     andthen (myproc s) (\<lambda>p s.
     andthen (argint n s) (\<lambda>r s.
     case r of None \<Rightarrow> Ok None s
     | Some a \<Rightarrow>
       if sizeb < 0 then Ok None s
       else andthen (proc_ptr p s) (\<lambda>i s.
         if sz (ptable s ! i) \<le> a \<or> sz (ptable s ! i) < a + of_int sizeb then Ok None s
         else Ok (Some a) s)))"

definition argstr :: "u32 \<Rightarrow> 'z proc_st_scheme \<Rightarrow> ((u32 \<times> u32) option, 'z proc_st_scheme) kres" where
  "argstr n s =
     andthen (argint n s) (\<lambda>r s.
     case r of None \<Rightarrow> Ok None s | Some addr \<Rightarrow> fetchstr addr s)"

section \<open>What is accepted lies inside the process\<close>

text \<open>Process \<open>p\<close> runs on CPU \<open>i\<close>, and its size is that of a user address space.\<close>

definition cur :: "'z proc_st_scheme \<Rightarrow> nat \<Rightarrow> nat \<Rightarrow> bool" where
  "cur s i p \<longleftrightarrow> on_cpu s i \<and> cpu_proc (cpus s ! i) = Some p"

definition user_size :: "u32 \<Rightarrow> bool" where
  "user_size n \<longleftrightarrow> n \<le> KERNBASE"

text \<open>The byte at a virtual address, where it is mapped.\<close>

definition ubyte :: "'z machine_scheme \<Rightarrow> u32 \<Rightarrow> u8 option" where
  "ubyte s a = map_option (mem s) (translate s a)"

lemma cur_settled [simp]: "cur s i p \<Longrightarrow> cur (settled i s) i p"
  by (auto simp: cur_def settled_def on_cpu_def nth_list_update findi_Some_iff [of _ _ i])

lemma myproc_cur: "cur s i p \<Longrightarrow> myproc s = Ok (Some p) (settled i s)"
  using myproc_eq [of s i] by (simp add: cur_def)

lemma translate_settled [simp]: "translate (settled i s) a = translate s a"
  by (simp add: translate_def settled_def Let_def)

lemma ubyte_settled [simp]: "ubyte (settled i s) a = ubyte s a"
  by (simp add: ubyte_def)

lemma inside_no_wrap:
  assumes "user_size n" "a < n" "unat d \<le> 2 ^ 31" "a + d \<le> n"
  shows "unat a + unat d \<le> unat n"
proof -
  have "unat n \<le> 2 ^ 31" using assms(1) by (simp add: user_size_def word_le_nat_alt)
  moreover have "unat a < unat n" using assms(2) by (simp add: word_less_nat_alt)
  ultimately have "unat (a + d) = unat a + unat d" using assms(3) by (simp add: unat_word_ariths)
  with assms(4) show ?thesis by (simp add: word_le_nat_alt)
qed

lemma fetchint_Some:
  assumes "cur s i p" "fetchint addr s = Ok (Some v) t" "user_size (sz (ptable s ! p))"
  shows "unat addr + 4 \<le> unat (sz (ptable s ! p)) \<and> t = settled i s
    \<and> (\<forall>k \<in> {0, 1, 2, 3}. translate s (addr + k) \<noteq> None) \<and> v = load32 (\<lambda>a. mem s (the (translate s a))) addr"
proof -
  have a: "addr < sz (ptable s ! p)" "addr + 4 \<le> sz (ptable s ! p)" "t = settled i s"
    "\<forall>k \<in> {0, 1, 2, 3}. translate s (addr + k) \<noteq> None" "v = load32 (\<lambda>a. mem s (the (translate s a))) addr"
    using assms by (auto simp: fetchint_def myproc_cur proc_ptr_def deref32_def andthen_eq_Ok_iff not_le not_less
        split: if_splits option.splits)
  with inside_no_wrap [OF assms(3) a(1), of 4] show ?thesis by simp
qed

lemma argint_Some:
  assumes "cur s i p" "argint n s = Ok (Some v) t" "user_size (sz (ptable s ! p))"
  shows "t = settled i s"
  using assms by (auto simp: argint_def myproc_cur proc_ptr_def dest!: fetchint_Some [OF cur_settled])

lemma fetchstr_loop_Some:
  assumes "fetchstr_loop pp a ep s = Ok (Some (n, q)) t"
  shows "q = pp \<and> t = s \<and> a \<le> pp + n \<and> pp + n < ep \<and> ubyte s (pp + n) = Some 0
    \<and> (\<forall>x. a \<le> x \<and> x < pp + n \<longrightarrow> (\<exists>c. ubyte s x = Some c \<and> c \<noteq> 0))"
  using assms
proof (induction pp a ep s rule: fetchstr_loop.induct)
  case (1 pp a ep s)
  from "1.prems" have lt: "a < ep" by (subst (asm) fetchstr_loop.simps) (auto split: if_splits)
  with "1.prems" obtain c where c: "deref8 a s = Ok c s" "ubyte s a = Some c"
    by (subst (asm) fetchstr_loop.simps)
      (auto simp: andthen_eq_Ok_iff deref8_def ubyte_def split: option.splits)
  show ?case
  proof (cases "c = 0")
    case True
    with "1.prems" lt c show ?thesis by (subst (asm) fetchstr_loop.simps) auto
  next
    case False
    then have "fetchstr_loop pp (a + 1) ep s = Ok (Some (n, q)) t"
      using "1.prems" lt c by (subst (asm) fetchstr_loop.simps) simp
    with "1.IH" [OF lt c(1) False] have IH: "q = pp \<and> t = s \<and> a + 1 \<le> pp + n \<and> pp + n < ep
      \<and> ubyte s (pp + n) = Some 0
      \<and> (\<forall>x. a + 1 \<le> x \<and> x < pp + n \<longrightarrow> (\<exists>c. ubyte s x = Some c \<and> c \<noteq> 0))" by simp
    have step: "x = a \<or> a + 1 \<le> x" if "a \<le> x" for x using that lt by unat_arith
    have "a \<le> pp + n" using IH lt by unat_arith
    with IH step c False show ?thesis by metis
  qed
qed

text \<open>
  C18: an argument pointer accepted by \<^verbatim>\<open>argptr\<close> with a size that is not negative designates a block that
  lies entirely inside the process, for every process of at most 2 GB; address wrap-around cannot
  defeat the check.
\<close>

theorem argptr_inside:
  assumes "cur s i p" "user_size (sz (ptable s ! p))" "argptr n k s = Ok (Some a) t" "k < 2 ^ 31"
  shows "0 \<le> k \<and> unat a + nat k \<le> unat (sz (ptable s ! p)) \<and> ptable t = ptable s \<and> mem t = mem s"
proof -
  obtain u where u: "argint n (settled i s) = Ok (Some a) u" and k: "0 \<le> k" and t: "t = u"
    and chk: "a < sz (ptable u ! p)" "a + of_int k \<le> sz (ptable u ! p)"
    using assms(1,3)
    by (auto simp: argptr_def myproc_cur proc_ptr_def andthen_eq_Ok_iff not_le not_less split: if_splits option.splits)
  have "u = settled i s" using argint_Some [OF cur_settled [OF assms(1)] u] assms(2) by simp
  with chk have "a < sz (ptable s ! p)" "a + of_int k \<le> sz (ptable s ! p)" by simp_all
  moreover have "unat (of_int k :: u32) = nat k"
  proof -
    have "unat (of_nat (nat k) :: u32) = nat k"
      by (rule unat_of_nat_u32) (use assms(4) in simp)
    then show ?thesis using k by simp
  qed
  ultimately show ?thesis
    using inside_no_wrap [OF assms(2), of a "of_int k"] k assms(4) t \<open>u = settled i s\<close>
    by simp
qed

text \<open>
  C19: a string argument accepted by \<^verbatim>\<open>fetchstr\<close> is NUL-terminated inside the process, and the length
  returned is that of the bytes before the first NUL.
\<close>

theorem fetchstr_inside:
  assumes "cur s i p" "fetchstr addr s = Ok (Some (n, q)) t"
  shows "q = addr \<and> addr + n < sz (ptable s ! p) \<and> addr \<le> addr + n \<and> ubyte s (addr + n) = Some 0
    \<and> (\<forall>x. addr \<le> x \<and> x < addr + n \<longrightarrow> (\<exists>c. ubyte s x = Some c \<and> c \<noteq> 0)) \<and> ptable t = ptable s"
proof -
  have "fetchstr_loop addr addr (sz (ptable s ! p)) (settled i s) = Ok (Some (n, q)) t"
    using assms by (auto simp: fetchstr_def myproc_cur proc_ptr_def split: if_splits)
  from fetchstr_loop_Some [OF this] show ?thesis by simp
qed

text \<open>
  An example process of one page: page directory at 0x80200000, page table at 0x80201000, user page 0
  at 0x80202000, trap frame at 0x80300F00 with the user stack pointer 0x100, and the first argument
  (at 0x104) the address 0x200, where the page holds zeros.
\<close>

definition ex_user :: trace_st where
  "ex_user = (demo [demo_proc RUNNING 0])\<lparr>cr3 := 0x200000, iflag := \<lambda>_. False,
     cpus := [\<lparr>apicid = 0, ncli = 1, intena = False, cpu_proc = Some 0, ts_esp0 = 0\<rparr>],
     ptable := [(demo_proc RUNNING 0)\<lparr>tf := 0x80300F00\<rparr>],
     mem := store32 (store32 (store32 (store32 (\<lambda>_. 0) 0x80200000 0x201007) 0x80201000 0x202007)
              0x80202104 0x200) 0x80300F44 0x100\<rparr>"

lemma ex_user_cur: "cur ex_user 0 0" "settled 0 ex_user = ex_user" "user_size (sz (ptable ex_user ! 0))"
  by (simp_all add: cur_def ex_user_def on_cpu_def demo_proc_def demo_def settled_def user_size_def)

lemma ex_user_mem:
  "load32 (mem ex_user) 0x80200000 = 0x201007" "load32 (mem ex_user) 0x80201000 = 0x202007"
  "load32 (mem ex_user) 0x80202104 = 0x200" "load32 (mem ex_user) 0x80300F44 = 0x100" "mem ex_user 0x80202200 = 0"
  by (simp_all add: ex_user_def mem_simps)

lemma ex_user_translate: "translate ex_user 0x104 = Some 0x80202104" "translate ex_user 0x105 = Some 0x80202105"
  "translate ex_user 0x106 = Some 0x80202106" "translate ex_user 0x107 = Some 0x80202107"
  "translate ex_user 0x200 = Some 0x80202200"
proof -
  have "cr3 ex_user = 0x200000" by (simp add: ex_user_def)
  then show "translate ex_user 0x104 = Some 0x80202104" "translate ex_user 0x105 = Some 0x80202105"
    "translate ex_user 0x106 = Some 0x80202106" "translate ex_user 0x107 = Some 0x80202107"
    "translate ex_user 0x200 = Some 0x80202200"
    by (simp_all add: translate_def P2V_def PTE_ADDR_def PDX_def PTX_def Let_def ex_user_mem)
qed

lemma ex_user_word: "load32 (\<lambda>a. mem ex_user (the (translate ex_user a))) 0x104 = 0x200"
proof -
  have "load32 (\<lambda>a. mem ex_user (the (translate ex_user a))) 0x104 = load32 (mem ex_user) 0x80202104"
    by (simp add: load32_def ex_user_translate)
  then show ?thesis by (simp add: ex_user_mem)
qed

lemma ex_user_argint: "argint 0 ex_user = Ok (Some 0x200) ex_user"
proof -
  have "sz (ptable ex_user ! 0) = 4096" "tf (ptable ex_user ! 0) = 0x80300F00"
    by (simp_all add: ex_user_def demo_proc_def)
  then show ?thesis
    using myproc_cur [OF ex_user_cur(1)]
    by (simp add: argint_def fetchint_def proc_ptr_def deref32_def ex_user_cur(2) ex_user_word ex_user_translate
        ex_user_mem)
qed

theorem argptr_inside_witness: "\<exists>t. argptr 0 16 ex_user = Ok (Some 0x200) t \<and> 0x200 + nat 16 \<le> unat (sz (ptable ex_user ! 0))"
proof -
  have "argptr 0 16 ex_user = Ok (Some 0x200) ex_user"
    using myproc_cur [OF ex_user_cur(1)]
    by (simp add: argptr_def proc_ptr_def ex_user_cur(2) ex_user_argint) (simp add: ex_user_def demo_proc_def)
  with argptr_inside [OF ex_user_cur(1,3) this] show ?thesis by simp
qed

theorem fetchstr_inside_witness: "\<exists>t. fetchstr 0x200 ex_user = Ok (Some (0, 0x200)) t \<and> ubyte ex_user 0x200 = Some 0"
proof -
  have "sz (ptable ex_user ! 0) = 4096" by (simp add: ex_user_def demo_proc_def)
  then have "fetchstr 0x200 ex_user = Ok (Some (0, 0x200)) ex_user"
    using myproc_cur [OF ex_user_cur(1)]
    by (simp add: fetchstr_def proc_ptr_def ex_user_cur(2) fetchstr_loop.simps deref8_def ex_user_translate ex_user_mem)
  with fetchstr_inside [OF ex_user_cur(1) this] show ?thesis by simp
qed

end
