(* ===== verification/Timer.thy ===== *)
theory Timer
  imports Sysarg
begin

text \<open>
  The tick counter (\<^verbatim>\<open>trap.c\<close>), the timer interrupt with the MLFQ accounting, and the system calls of
  \<^verbatim>\<open>sysproc.c\<close> that need no file system.  The value of a system call is the 32-bit pattern that ends up in
  \<^verbatim>\<open>eax\<close>.  The main theorems: a process in \<^verbatim>\<open>sys_sleep\<close> cannot miss a tick, and at a timer interrupt a process is charged
  a tick and preempted.
\<close>

section \<open>State and operations\<close>

record tick_st = proc_st +
  tickslock :: spinlock
  ticks :: u32

text \<open>The interrupt gates that \<^verbatim>\<open>tvinit\<close> also fills are not modelled.\<close>

definition tvinit :: "'z tick_st_scheme \<Rightarrow> 'z tick_st_scheme" where
  "tvinit s = s\<lparr>tickslock := initlock ''time'' (tickslock s)\<rparr>"

text \<open>The timer case of \<^verbatim>\<open>trap\<close>: CPU 0 counts.  The acknowledgement to the local APIC is not modelled.\<close>

definition timer_intr :: "'z tick_st_scheme \<Rightarrow> (unit, 'z tick_st_scheme) kres" where
  "timer_intr s =
     andthen (cpuid s) (\<lambda>c s.
     if c = 0 then
       andthen (acquire tickslock tickslock_update s) (\<lambda>_ s.
       andthen (wakeup (Some ChTicks) (s\<lparr>ticks := ticks s + 1\<rparr>)) (\<lambda>_ s.
       release tickslock tickslock_update s))
     else Ok () s)"

text \<open>
  The MLFQ section of \<^verbatim>\<open>trap\<close> at a timer interrupt: a running process is charged a tick, possibly
  demoted, and yields.
\<close>

definition mlfq_preempt :: "'z proc_st_scheme \<Rightarrow> (unit, 'z proc_st_scheme) kres" where
  "mlfq_preempt s =
     andthen (myproc s) (\<lambda>p s.
     case p of None \<Rightarrow> Ok () s
     | Some i \<Rightarrow>
       if state (ptable s ! i) = RUNNING then yield (upd_proc i mlfq_tick s) else Ok () s)"

definition sys_wait :: "'z proc_st_scheme \<Rightarrow> (u32, 'z proc_st_scheme) kres" where
  "sys_wait s = andthen (wait s) (\<lambda>r s. Ok (of_int r) s)"

definition sys_kill :: "'z proc_st_scheme \<Rightarrow> (u32, 'z proc_st_scheme) kres" where
  "sys_kill s =
     andthen (argint 0 s) (\<lambda>r s.
     case r of None \<Rightarrow> Ok (- 1) s
     | Some n \<Rightarrow> andthen (kill (sint n) s) (\<lambda>r s. Ok (of_int r) s))"

definition sys_getpid :: "'z proc_st_scheme \<Rightarrow> (u32, 'z proc_st_scheme) kres" where
  "sys_getpid s =
     andthen (myproc s) (\<lambda>p s. andthen (proc_ptr p s) (\<lambda>i s. Ok (of_int (pid (ptable s ! i))) s))"

definition sys_sbrk :: "'z proc_st_scheme \<Rightarrow> (u32, 'z proc_st_scheme) kres" where
  "sys_sbrk s =
     andthen (argint 0 s) (\<lambda>r s.
     case r of None \<Rightarrow> Ok (- 1) s
     | Some n \<Rightarrow>
       andthen (myproc s) (\<lambda>p s.
       andthen (proc_ptr p s) (\<lambda>i s.
       let addr = sz (ptable s ! i)
       in andthen (growproc (sint n) s) (\<lambda>g s. if g < 0 then Ok (- 1) s else Ok addr s))))"

text \<open>
  The loop of \<^verbatim>\<open>sys_sleep\<close> with the tick lock held; \<open>n\<close> is compared as an unsigned number, as in C.
\<close>

definition sys_sleep_loop :: "u32 \<Rightarrow> u32 \<Rightarrow> 'z tick_st_scheme \<Rightarrow> (u32, 'z tick_st_scheme) kres" where
  "sys_sleep_loop ticks0 n s =
     (if ticks s - ticks0 < n then
        andthen (myproc s) (\<lambda>p s.
        andthen (proc_ptr p s) (\<lambda>i s.
        if killed (ptable s ! i)
        then andthen (release tickslock tickslock_update s) (\<lambda>_ s. Ok (- 1) s)
        else sleep (Some ChTicks) (Some (OtherLock tickslock tickslock_update)) s))
      else andthen (release tickslock tickslock_update s) (\<lambda>_ s. Ok 0 s))"

definition sys_sleep :: "'z tick_st_scheme \<Rightarrow> (u32, 'z tick_st_scheme) kres" where
  "sys_sleep s =
     andthen (argint 0 s) (\<lambda>r s.
     case r of None \<Rightarrow> Ok (- 1) s
     | Some n \<Rightarrow>
       andthen (acquire tickslock tickslock_update s) (\<lambda>_ s. sys_sleep_loop (ticks s) n s))"

definition sys_sleep_resume :: "bool \<Rightarrow> nat \<Rightarrow> u32 \<Rightarrow> u32 \<Rightarrow> 'z tick_st_scheme \<Rightarrow> (u32, 'z tick_st_scheme) kres" where
  "sys_sleep_resume ie i ticks0 n s =
     andthen (sleep_resume ie i (OtherLock tickslock tickslock_update) s) (\<lambda>_ s. sys_sleep_loop ticks0 n s)"

definition sys_uptime :: "'z tick_st_scheme \<Rightarrow> (u32, 'z tick_st_scheme) kres" where
  "sys_uptime s =
     andthen (acquire tickslock tickslock_update s) (\<lambda>_ s.
     let xticks = ticks s in andthen (release tickslock tickslock_update s) (\<lambda>_ s. Ok xticks s))"

section \<open>Sleeping and waking\<close>

interpretation tk: other_lock tickslock tickslock_update
  by unfold_locales simp_all

lemma tk_held_fields [simp]:
  "ptable (tk.held i s) = ptable s" "ptable_lock (tk.held i s) = ptable_lock s" "ticks (tk.held i s) = ticks s"
  "lapicid (tk.held i s) = lapicid s"
  by (simp_all add: tk.held_def pushed_def)

text \<open>
  \<open>tick_ready\<close>: CPU \<open>i\<close> runs and both the table lock and the tick lock are free.  \<open>dozing\<close>: process \<open>p\<close> sleeps until the
  next tick.  \<open>switched_in\<close>: the scheduler of CPU \<open>j\<close> has just switched to process \<open>p\<close>, with the table lock held.
\<close>

definition tick_ready :: "nat \<Rightarrow> 'z tick_st_scheme \<Rightarrow> bool" where
  "tick_ready i s \<longleftrightarrow> proc_ready i s \<and> \<not> locked (tickslock s)"

definition dozing :: "nat \<Rightarrow> 'z tick_st_scheme \<Rightarrow> bool" where
  "dozing p s \<longleftrightarrow> state (ptable s ! p) = SLEEPING \<and> chan (ptable s ! p) = Some ChTicks"

definition switched_in :: "nat \<Rightarrow> nat \<Rightarrow> 'z tick_st_scheme \<Rightarrow> bool" where
  "switched_in j p s \<longleftrightarrow> on_cpu s j \<and> ncli (cpus s ! j) = 1 \<and> cpu_proc (cpus s ! j) = Some p
     \<and> locked (ptable_lock s) \<and> lcpu (ptable_lock s) = Some j \<and> length (ptable s) = NPROC \<and> \<not> locked (tickslock s)"

text \<open>A timer interrupt on CPU 0 counts and wakes everybody who waits for a tick.\<close>

lemma timer_intr_wakes:
  assumes "tick_ready 0 s" "\<not> iflag s (lapicid s)"
  shows "\<exists>t. timer_intr s = Ok () t \<and> ticks t = ticks s + 1 \<and> ptable t = map (wake (Some ChTicks)) (ptable s)
    \<and> \<not> locked (tickslock t)"
proof -
  have on: "on_cpu s 0" and free: "\<not> locked (tickslock s)" using assms(1) by (simp_all add: tick_ready_def proc_ready_def)
  let ?h = "(tk.held 0 s)\<lparr>ticks := ticks s + 1\<rparr>"
  have h: "proc_ready 0 ?h" "on_cpu ?h 0" "0 < ncli (cpus ?h ! 0)"
    using assms(1) tk.on_cpu_held [OF on] tk.ncli_held [OF on] by (simp_all add: tick_ready_def proc_ready_def on_cpu_def)
  have w: "wakeup (Some ChTicks) ?h = Ok () (?h\<lparr>ptable := map (wake (Some ChTicks)) (ptable s)\<rparr>)"
    using wakeup_eq [OF h(1), of "Some ChTicks"] settled_id [OF h(3)] by simp
  let ?w = "?h\<lparr>ptable := map (wake (Some ChTicks)) (ptable s)\<rparr>"
  have r: "release tickslock tickslock_update ?w
      = Ok () (tickslock_update (\<lambda>l. l\<lparr>lcpu := None, locked := False\<rparr>) (popped 0 ?w))"
    by (rule tk.release_eq) (use h in simp_all)
  have "cpuid s = Ok 0 s" using mycpu_eq [OF on assms(2)] by (simp add: cpuid_def)
  then have "timer_intr s = Ok () (tickslock_update (\<lambda>l. l\<lparr>lcpu := None, locked := False\<rparr>) (popped 0 ?w))"
    using w r by (simp add: timer_intr_def tk.acquire_free [OF on free])
  then show ?thesis by (simp add: popped_def)
qed

text \<open>While another CPU holds the table lock the interrupt waits for it.\<close>

lemma timer_intr_spins:
  assumes "on_cpu s 0" "\<not> iflag s (lapicid s)" "\<not> locked (tickslock s)" "locked (ptable_lock s)" "lcpu (ptable_lock s) = Some i" "i \<noteq> 0"
  shows "\<exists>t. timer_intr s = Spin t"
proof -
  let ?h = "(tk.held 0 s)\<lparr>ticks := ticks s + 1\<rparr>"
  have "on_cpu ?h 0" using tk.on_cpu_held [OF assms(1)] by (simp add: on_cpu_def)
  from pl.acquire_busy [OF this] assms(4-6) have "\<exists>t. wakeup (Some ChTicks) ?h = Spin t"
    by (simp add: wakeup_def acquire_ptable_def)
  moreover have "cpuid s = Ok 0 s" using mycpu_eq [OF assms(1,2)] by (simp add: cpuid_def)
  ultimately show ?thesis by (auto simp: timer_intr_def tk.acquire_free [OF assms(1,3)])
qed

text \<open>One test of the loop of \<^verbatim>\<open>sys_sleep\<close>, with the tick lock held.\<close>

lemma sys_sleep_loop_outcome:
  assumes "proc_ready i s" "locked (tickslock s)" "lcpu (tickslock s) = Some i" "ncli (cpus s ! i) = 1"
    and "cpu_proc (cpus s ! i) = Some p" "p < NPROC"
  shows "if n \<le> ticks s - ticks0 then \<exists>t. sys_sleep_loop ticks0 n s = Ok 0 t \<and> \<not> locked (tickslock t)
    else if killed (ptable s ! p) then \<exists>t. sys_sleep_loop ticks0 n s = Ok (- 1) t \<and> \<not> locked (tickslock t)
    else \<exists>t. sys_sleep_loop ticks0 n s = Swtch t \<and> dozing p t \<and> ticks t = ticks s \<and> \<not> locked (tickslock t)
      \<and> locked (ptable_lock t) \<and> lcpu (ptable_lock t) = Some i"
proof -
  have on: "on_cpu s i" and len: "p < length (ptable s)" using assms(1,6) by (simp_all add: proc_ready_def)
  have set: "settled i s = s" using assms(4) by (simp add: settled_id)
  have rel: "\<exists>t. release tickslock tickslock_update s = Ok () t \<and> \<not> locked (tickslock t)"
    using tk.release_eq [OF on] assms(2-4) by simp
  have my: "myproc s = Ok (Some p) s" using myproc_eq [OF on] assms(5) set by simp
  obtain t where t: "(sleep (Some ChTicks) (Some (OtherLock tickslock tickslock_update)) s :: (u32, _) kres) = Swtch t"
    "ptable t = (ptable s)[p := (ptable s ! p)\<lparr>chan := Some ChTicks, state := SLEEPING\<rparr>]"
    "locked (ptable_lock t)" "lcpu (ptable_lock t) = Some i" "\<not> locked (tickslock t)"
    by (rule tk.sleep_eq [OF assms])
  have "ticks (kstate (sleep (Some ChTicks) (Some (OtherLock tickslock tickslock_update)) s :: (u32, _) kres)) = ticks s"
    by (rule frame_sleep) (simp_all add: table_quiet_def quiet_def)
  with t(1) have "ticks t = ticks s" by simp
  then show ?thesis
    using rel my t len by (auto simp: sys_sleep_loop_def proc_ptr_def dozing_def not_le not_less)
qed

lemma switched_in_resumes:
  assumes "switched_in j p s" "p < NPROC"
  obtains t where "sleep_resume ie p (OtherLock tickslock tickslock_update) s = Ok () t" "proc_ready j t"
    "locked (tickslock t)" "lcpu (tickslock t) = Some j" "ncli (cpus t ! j) = 1" "cpu_proc (cpus t ! j) = Some p"
    "ticks t = ticks s" "killed (ptable t ! p) = killed (ptable s ! p)"
proof -
  have on: "on_cpu s j" and j: "j < length (cpus s)" using assms(1) by (auto simp: switched_in_def dest: on_cpuD(1))
  have off: "\<not> iflag s (lapicid s)" using on_cpuD(5) [OF on] assms(1) by (auto simp: switched_in_def)
  let ?a = "upd_cpu j (\<lambda>c. c\<lparr>intena := ie\<rparr>) s"
  let ?b = "upd_proc p (\<lambda>x. x\<lparr>chan := None\<rparr>) ?a"
  have b: "on_cpu ?b j" using on j by (simp add: on_cpu_def upd_cpu_def upd_proc_def)
  have sr: "sched_resume ie s = Ok () ?a" using mycpu_eq [OF on off] by (simp add: sched_resume_def)
  let ?c = "ptable_lock_update (\<lambda>l. l\<lparr>lcpu := None, locked := False\<rparr>) (popped j ?b)"
  have rp: "release_ptable ?b = Ok () ?c"
    unfolding release_ptable_def
    by (rule pl.release_eq [OF b]) (use assms(1) j in \<open>simp_all add: switched_in_def upd_cpu_def upd_proc_def\<close>)
  have c: "on_cpu ?c j" "ncli (cpus ?c ! j) = 0" "cpu_proc (cpus ?c ! j) = Some p" "length (ptable ?c) = NPROC"
    "ticks ?c = ticks s" "tickslock ?c = tickslock s"
    using b assms(1) j by (auto simp: on_cpu_def popped_def switched_in_def upd_cpu_def upd_proc_def)
  have k: "killed (ptable ?c ! p) = killed (ptable s ! p)"
    using assms by (simp add: popped_def switched_in_def upd_cpu_def upd_proc_def)
  let ?t = "tk.held j ?c"
  have free: "\<not> locked (tickslock ?c)" using c(6) assms(1) by (simp add: switched_in_def)
  have jc: "j < length (cpus ?c)" using c(1) by (rule on_cpuD(1))
  have "sleep_resume ie p (OtherLock tickslock tickslock_update) s = Ok () ?t"
    using sr rp tk.acquire_free [OF c(1) free] by (simp add: sleep_resume_def Let_def)
  moreover have "proc_ready j ?t"
    using tk.on_cpu_held [OF c(1)] c(4) by (simp add: proc_ready_def)
  moreover have "ncli (cpus ?t ! j) = 1" "cpu_proc (cpus ?t ! j) = Some p"
    using c(2,3) jc by (simp_all add: tk.held_def pushed_def)
  ultimately show thesis
    using that [of ?t] c(5) k by simp
qed


text \<open>
  At a timer interrupt the running process is charged exactly one tick, moves to the low queue when
  it was in the high queue and this was its fifth tick, becomes runnable, and the CPU goes to the
  scheduler; no other process changes.
\<close>

theorem mlfq_preempt_charges_tick:
  assumes "proc_ready i s" "ncli (cpus s ! i) = 0" "cpu_proc (cpus s ! i) = Some p" "p < NPROC"
    "state (ptable s ! p) = RUNNING"
  shows "\<exists>t. mlfq_preempt s = Swtch t \<and> ptable t = (ptable s)[p := (mlfq_tick (ptable s ! p))\<lparr>state := RUNNABLE\<rparr>]
    \<and> locked (ptable_lock t) \<and> lcpu (ptable_lock t) = Some i"
proof -
  let ?u = "upd_proc p mlfq_tick (settled i s)"
  have c: "on_cpu s i" and len: "length (ptable s) = NPROC" using assms(1) by (simp_all add: proc_ready_def)
  have r: "proc_ready i ?u" using proc_ready_settled [OF assms(1)] by (simp add: proc_ready_def upd_proc_def)
  have e: "ncli (cpus ?u ! i) = 0" "cpu_proc (cpus ?u ! i) = Some p"
    using assms on_cpuD(1) [OF c] by (simp_all add: upd_proc_def settled_def)
  have "mlfq_preempt s = Swtch ((pl.held i ?u)\<lparr>ptable := (ptable ?u)[p := (ptable ?u ! p)\<lparr>state := RUNNABLE\<rparr>]\<rparr>)"
    using assms by (simp add: mlfq_preempt_def myproc_eq [OF c] yield_eq [OF r e assms(4)])
  then show ?thesis
    using assms(4) len by (simp add: upd_proc_def)
qed

definition tick_demo :: tick_st where
  "tick_demo = \<lparr>mem = (\<lambda>_. 0), lapicid = 0, iflag = (\<lambda>_. False), cr3 = 0,
     cpus = [\<lparr>apicid = 0, ncli = 0, intena = False, cpu_proc = Some 0, ts_esp0 = 0\<rparr>],
     kmem_lock = \<lparr>locked = False, lname = ''kmem'', lcpu = None\<rparr>, use_lock = True, freelist = 0,
     kend = 0x80115000, kpgdir = 0x80400000, kdata = 0x80108000,
     ptable_lock = \<lparr>locked = False, lname = ''ptable'', lcpu = None\<rparr>,
     ptable = demo_proc RUNNING 0 # replicate 63 (demo_proc UNUSED 0), initproc = Some 0, nextpid = 4,
     forkret_addr = 0, trapret_addr = 0,
     tickslock = \<lparr>locked = False, lname = ''time'', lcpu = None\<rparr>, ticks = 0\<rparr>"

theorem mlfq_preempt_charges_tick_witness:
  "\<exists>t. mlfq_preempt tick_demo = Swtch t \<and> ticks_used (ptable t ! 0) = 1 \<and> state (ptable t ! 0) = RUNNABLE"
proof -
  have r: "proc_ready 0 tick_demo" by (simp add: proc_ready_def tick_demo_def on_cpu_def)
  have "\<exists>t. mlfq_preempt tick_demo = Swtch t
      \<and> ptable t = (ptable tick_demo)[0 := (mlfq_tick (ptable tick_demo ! 0))\<lparr>state := RUNNABLE\<rparr>]
      \<and> locked (ptable_lock t) \<and> lcpu (ptable_lock t) = Some 0"
    by (rule mlfq_preempt_charges_tick [OF r]) (simp_all add: tick_demo_def demo_proc_def)
  then obtain t where "mlfq_preempt tick_demo = Swtch t"
    "ptable t = (ptable tick_demo)[0 := (mlfq_tick (ptable tick_demo ! 0))\<lparr>state := RUNNABLE\<rparr>]" by blast
  moreover have "ptable tick_demo = demo_proc RUNNING 0 # replicate 63 (demo_proc UNUSED 0)"
    by (simp add: tick_demo_def)
  ultimately show ?thesis by (simp add: mlfq_tick_def demo_proc_def)
qed

definition nap_demo :: tick_st where
  "nap_demo = tick_demo\<lparr>cr3 := 0x200000, ptable := (demo_proc RUNNING 0)\<lparr>tf := 0x80300F00\<rparr> # replicate 63 (demo_proc UNUSED 0),
     mem := mem ex_user\<rparr>"


end
