(* ===== verification/Sleeplock.thy ===== *)
theory Sleeplock
  imports Timer
begin

text \<open>
  Sleeping locks (\<^verbatim>\<open>sleeplock.c\<close>).  A sleep lock is named by its accessors \<open>G\<close> and \<open>U\<close> in the state, and \<open>ch\<close> is
  its address as a sleep channel.  The locale \<open>sleep_lock\<close> gives, for every such lock, the outcome of the
  three operations.
\<close>

record sleeplock =
  slocked :: bool
  slk :: spinlock
  slname :: string
  slpid :: int

definition initsleeplock :: "string \<Rightarrow> sleeplock \<Rightarrow> sleeplock" where
  "initsleeplock name lk = lk\<lparr>slk := initlock ''sleep lock'' (slk lk), slname := name, slocked := False, slpid := 0\<rparr>"

text \<open>The body of \<^verbatim>\<open>acquiresleep\<close> once the inner lock is held; also what runs after a wakeup.\<close>

definition acquiresleep_loop ::
  "chan \<Rightarrow> ('z proc_st_scheme \<Rightarrow> sleeplock) \<Rightarrow> ((sleeplock \<Rightarrow> sleeplock) \<Rightarrow> 'z proc_st_scheme \<Rightarrow> 'z proc_st_scheme) \<Rightarrow>
   'z proc_st_scheme \<Rightarrow> (unit, 'z proc_st_scheme) kres" where
  "acquiresleep_loop ch G U s =
     (if slocked (G s) then sleep (Some ch) (Some (OtherLock (\<lambda>s. slk (G s)) (\<lambda>f. U (slk_update f)))) s
      else let s = U (\<lambda>l. l\<lparr>slocked := True\<rparr>) s
           in andthen (myproc s) (\<lambda>p s.
              andthen (proc_ptr p s) (\<lambda>i s.
              release (\<lambda>s. slk (G s)) (\<lambda>f. U (slk_update f)) (U (\<lambda>l. l\<lparr>slpid := pid (ptable s ! i)\<rparr>) s))))"

definition acquiresleep ::
  "chan \<Rightarrow> ('z proc_st_scheme \<Rightarrow> sleeplock) \<Rightarrow> ((sleeplock \<Rightarrow> sleeplock) \<Rightarrow> 'z proc_st_scheme \<Rightarrow> 'z proc_st_scheme) \<Rightarrow>
   'z proc_st_scheme \<Rightarrow> (unit, 'z proc_st_scheme) kres" where
  "acquiresleep ch G U s =
     andthen (acquire (\<lambda>s. slk (G s)) (\<lambda>f. U (slk_update f)) s) (\<lambda>_ s. acquiresleep_loop ch G U s)"

definition acquiresleep_resume ::
  "bool \<Rightarrow> nat \<Rightarrow> chan \<Rightarrow> ('z proc_st_scheme \<Rightarrow> sleeplock) \<Rightarrow> ((sleeplock \<Rightarrow> sleeplock) \<Rightarrow> 'z proc_st_scheme \<Rightarrow> 'z proc_st_scheme) \<Rightarrow>
   'z proc_st_scheme \<Rightarrow> (unit, 'z proc_st_scheme) kres" where
  "acquiresleep_resume ie i ch G U s =
     andthen (sleep_resume ie i (OtherLock (\<lambda>s. slk (G s)) (\<lambda>f. U (slk_update f))) s) (\<lambda>_ s.
     acquiresleep_loop ch G U s)"

definition releasesleep ::
  "chan \<Rightarrow> ('z proc_st_scheme \<Rightarrow> sleeplock) \<Rightarrow> ((sleeplock \<Rightarrow> sleeplock) \<Rightarrow> 'z proc_st_scheme \<Rightarrow> 'z proc_st_scheme) \<Rightarrow>
   'z proc_st_scheme \<Rightarrow> (unit, 'z proc_st_scheme) kres" where
  "releasesleep ch G U s =
     andthen (acquire (\<lambda>s. slk (G s)) (\<lambda>f. U (slk_update f)) s) (\<lambda>_ s.
     andthen (wakeup (Some ch) (U (\<lambda>l. l\<lparr>slocked := False, slpid := 0\<rparr>) s)) (\<lambda>_ s.
     release (\<lambda>s. slk (G s)) (\<lambda>f. U (slk_update f)) s))"

definition holdingsleep ::
  "('z proc_st_scheme \<Rightarrow> sleeplock) \<Rightarrow> ((sleeplock \<Rightarrow> sleeplock) \<Rightarrow> 'z proc_st_scheme \<Rightarrow> 'z proc_st_scheme) \<Rightarrow>
   'z proc_st_scheme \<Rightarrow> (bool, 'z proc_st_scheme) kres" where
  "holdingsleep G U s =
     andthen (acquire (\<lambda>s. slk (G s)) (\<lambda>f. U (slk_update f)) s) (\<lambda>_ s.
     andthen (if slocked (G s)
              then andthen (myproc s) (\<lambda>p s.
                   andthen (proc_ptr p s) (\<lambda>i s. Ok (slpid (G s) = pid (ptable s ! i)) s))
              else Ok False s) (\<lambda>r s.
     andthen (release (\<lambda>s. slk (G s)) (\<lambda>f. U (slk_update f)) s) (\<lambda>_ s. Ok r s)))"

section \<open>The contract of a sleep lock\<close>

lemma slk_hold: "slk_update (\<lambda>l. l\<lparr>locked := True, lcpu := Some i\<rparr>) x = x\<lparr>slk := (slk x)\<lparr>locked := True, lcpu := Some i\<rparr>\<rparr>"
  by (rule sleeplock.equality) simp_all

text \<open>The process \<open>p\<close> calls from CPU \<open>i\<close> with no lock held.\<close>

definition calling :: "nat \<Rightarrow> nat \<Rightarrow> 'z proc_st_scheme \<Rightarrow> bool" where
  "calling i p s \<longleftrightarrow> proc_ready i s \<and> cpu_proc (cpus s ! i) = Some p \<and> p < NPROC"

locale sleep_lock =
  fixes G :: "'z proc_st_scheme \<Rightarrow> sleeplock"
    and U :: "(sleeplock \<Rightarrow> sleeplock) \<Rightarrow> 'z proc_st_scheme \<Rightarrow> 'z proc_st_scheme"
  assumes G_U [simp]: "G (U f s) = f (G s)"
    and U_U [simp]: "U f (U h s) = U (\<lambda>l. f (h l)) s"
    and U_id [simp]: "U (\<lambda>l. l) s = s"
    and U_cong: "f (G s) = h (G s) \<Longrightarrow> U f s = U h s"
    and U_fields [simp]: "cpus (U f s) = cpus s" "lapicid (U f s) = lapicid s" "iflag (U f s) = iflag s"
      "ptable_lock (U f s) = ptable_lock s" "ptable (U f s) = ptable s"
    and G_fields [simp]: "G (s\<lparr>cpus := c\<rparr>) = G s" "G (s\<lparr>iflag := fl\<rparr>) = G s" "G (s\<lparr>ptable := ps\<rparr>) = G s"
      "G (ptable_lock_update k s) = G s"
    and U_cpus: "(U f s)\<lparr>cpus := c\<rparr> = U f (s\<lparr>cpus := c\<rparr>)"
    and U_iflag: "(U f s)\<lparr>iflag := fl\<rparr> = U f (s\<lparr>iflag := fl\<rparr>)"
    and U_ptable: "(U f s)\<lparr>ptable := ps\<rparr> = U f (s\<lparr>ptable := ps\<rparr>)"
begin

sublocale il: other_lock "\<lambda>s. slk (G s)" "\<lambda>f. U (slk_update f)"
  by unfold_locales (auto simp: U_cpus U_iflag comp_def intro: U_cong)

text \<open>The inner lock is free.\<close>

definition ready :: "nat \<Rightarrow> nat \<Rightarrow> 'z proc_st_scheme \<Rightarrow> bool" where
  "ready i p s \<longleftrightarrow> calling i p s \<and> \<not> locked (slk (G s)) \<and> lcpu (slk (G s)) = None"

lemma G_settled [simp]: "G (settled i s) = G s" "G (pushed i s) = G s"
  by (simp_all add: settled_def pushed_def)

lemma G_held [simp]: "G (il.held i s) = (G s)\<lparr>slk := (slk (G s))\<lparr>locked := True, lcpu := Some i\<rparr>\<rparr>"
  by (simp add: il.held_def)

lemma settled_U: "settled i (U f s) = U f (settled i s)"
  by (simp add: settled_def U_cpus)

lemma held_fields' [simp]: "ptable (il.held i s) = ptable s" "lapicid (il.held i s) = lapicid s"
  by (simp_all add: il.held_def pushed_def)

lemma release_inner:
  assumes "ready i p s" "f ((G s)\<lparr>slk := (slk (G s))\<lparr>locked := True, lcpu := Some i\<rparr>\<rparr>) = (h (G s))\<lparr>slk := (slk (G s))\<lparr>locked := True, lcpu := Some i\<rparr>\<rparr>"
    "slk (h (G s)) = slk (G s)"
  shows "release (\<lambda>s. slk (G s)) (\<lambda>f. U (slk_update f)) ((U f (il.held i s))\<lparr>ptable := ps\<rparr>)
    = Ok () ((U h (settled i s))\<lparr>ptable := ps\<rparr>)"
proof -
  have r: "on_cpu s i" "\<not> locked (slk (G s))" "lcpu (slk (G s)) = None"
    using assms(1) by (simp_all add: ready_def calling_def proc_ready_def)
  have "slk_update (\<lambda>_. slk (G s)) (f (slk_update (\<lambda>l. l\<lparr>locked := True, lcpu := Some i\<rparr>) (G s))) = h (G s)"
    using assms(2,3) by (simp add: slk_hold sleeplock.equality)
  then have *: "U (\<lambda>x. slk_update (\<lambda>_. slk (G s)) (f (slk_update (\<lambda>l. l\<lparr>locked := True, lcpu := Some i\<rparr>) x))) y = U h y"
    if "G y = G s" for y using that by (intro U_cong) simp
  have "release (\<lambda>s. slk (G s)) (\<lambda>f. U (slk_update f)) ((U f (il.held i s))\<lparr>ptable := ps\<rparr>)
      = Ok () (il.leave i s ((U f (il.held i s))\<lparr>ptable := ps\<rparr>))"
    by (rule il.release_leave [OF r]) (use assms(2) in simp_all)
  also have "il.leave i s ((U f (il.held i s))\<lparr>ptable := ps\<rparr>)
      = U (\<lambda>x. slk_update (\<lambda>_. slk (G s)) (f (slk_update (\<lambda>l. l\<lparr>locked := True, lcpu := Some i\<rparr>) x)))
          ((pushed i s)\<lparr>ptable := ps, iflag := iflag s, cpus := cpus (settled i s)\<rparr>)"
    by (simp add: il.leave_def il.held_def U_ptable U_cpus U_iflag)
  also have "\<dots> = U h ((pushed i s)\<lparr>ptable := ps, iflag := iflag s, cpus := cpus (settled i s)\<rparr>)"
    by (rule *) simp
  also have "(pushed i s)\<lparr>ptable := ps, iflag := iflag s, cpus := cpus (settled i s)\<rparr> = (settled i s)\<lparr>ptable := ps\<rparr>"
    by (rule proc_st.equality) (simp_all add: pushed_def settled_def)
  finally show ?thesis by (simp add: U_ptable)
qed

lemma held_calling:
  assumes "ready i p s"
  shows "proc_ready i (U f (il.held i s))" "settled i (U f (il.held i s)) = U f (il.held i s)"
    "cpu_proc (cpus (U f (il.held i s)) ! i) = Some p" "myproc (U f (il.held i s)) = Ok (Some p) (U f (il.held i s))"
    "ncli (cpus (il.held i s) ! i) = ncli (cpus s ! i) + 1"
proof -
  have c: "on_cpu s i" using assms by (simp add: ready_def calling_def proc_ready_def)
  have i: "i < length (cpus s)" using c by (rule on_cpuD(1))
  show r: "proc_ready i (U f (il.held i s))"
    using il.on_cpu_held [OF c] assms
    by (simp add: proc_ready_def ready_def calling_def on_cpu_def) (simp add: il.held_def pushed_def)
  show st: "settled i (U f (il.held i s)) = U f (il.held i s)"
    using il.ncli_held [OF c] by (simp add: settled_id)
  show cp: "cpu_proc (cpus (U f (il.held i s)) ! i) = Some p"
    using assms i by (simp add: il.held_def pushed_def ready_def calling_def)
  show "myproc (U f (il.held i s)) = Ok (Some p) (U f (il.held i s))"
    using r st cp myproc_eq [of "U f (il.held i s)" i] by (simp add: proc_ready_def)
  show "ncli (cpus (il.held i s) ! i) = ncli (cpus s ! i) + 1"
    using i by (simp add: il.held_def pushed_def)
qed

lemma acquire_inner:
  "ready i p s \<Longrightarrow> acquire (\<lambda>s. slk (G s)) (\<lambda>f. U (slk_update f)) s = Ok () (il.held i s)"
  by (simp add: il.acquire_free ready_def calling_def proc_ready_def)

lemma acquiresleep_free:
  assumes r: "ready i p s" and "\<not> slocked (G s)"
  shows "acquiresleep ch G U s = Ok () (U (\<lambda>l. l\<lparr>slocked := True, slpid := pid (ptable s ! p)\<rparr>) (settled i s))"
proof -
  let ?f = "\<lambda>l. l\<lparr>slocked := True, slpid := pid (ptable s ! p)\<rparr>"
  have "release (\<lambda>s. slk (G s)) (\<lambda>f. U (slk_update f)) ((U ?f (il.held i s))\<lparr>ptable := ptable s\<rparr>)
      = Ok () ((U ?f (settled i s))\<lparr>ptable := ptable s\<rparr>)"
    by (rule release_inner [OF r]) simp_all
  with assms show ?thesis
    by (simp add: acquiresleep_def acquire_inner [OF r] acquiresleep_loop_def Let_def held_calling [OF r] proc_ptr_def)
qed

lemma acquiresleep_busy:
  assumes r: "ready i p s" and "slocked (G s)" "ncli (cpus s ! i) = 0"
  obtains t where "acquiresleep ch G U s = Swtch t"
    "ptable t = (ptable s)[p := (ptable s ! p)\<lparr>chan := Some ch, state := SLEEPING\<rparr>]"
    "locked (ptable_lock t)" "\<not> locked (slk (G t))"
proof -
  have c: "on_cpu s i" "p < NPROC" using r by (simp_all add: ready_def calling_def proc_ready_def)
  have pr: "proc_ready i (il.held i s)" "cpu_proc (cpus (il.held i s) ! i) = Some p" "ncli (cpus (il.held i s) ! i) = 1"
    using held_calling(1,3) [OF r, of "\<lambda>x. x"] held_calling(5) [OF r] assms(3) by simp_all
  obtain t where "(sleep (Some ch) (Some (OtherLock (\<lambda>s. slk (G s)) (\<lambda>f. U (slk_update f)))) (il.held i s) :: (unit, _) kres) = Swtch t"
    "ptable t = (ptable (il.held i s))[p := (ptable (il.held i s) ! p)\<lparr>chan := Some ch, state := SLEEPING\<rparr>]"
    "locked (ptable_lock t)" "\<not> locked (slk (G t))"
    by (rule il.sleep_eq [OF pr(1) _ _ pr(3,2) c(2)]) simp_all
  with assms(2) that [of t] show thesis
    by (simp add: acquiresleep_def acquire_inner [OF r] acquiresleep_loop_def)
qed

lemma releasesleep_eq:
  assumes r: "ready i p s"
  shows "releasesleep ch G U s
    = Ok () ((U (\<lambda>l. l\<lparr>slocked := False, slpid := 0\<rparr>) (settled i s))\<lparr>ptable := map (wake (Some ch)) (ptable s)\<rparr>)"
proof -
  let ?f = "\<lambda>l. l\<lparr>slocked := False, slpid := 0\<rparr>"
  have "release (\<lambda>s. slk (G s)) (\<lambda>f. U (slk_update f)) ((U ?f (il.held i s))\<lparr>ptable := map (wake (Some ch)) (ptable s)\<rparr>)
      = Ok () ((U ?f (settled i s))\<lparr>ptable := map (wake (Some ch)) (ptable s)\<rparr>)"
    by (rule release_inner [OF r]) simp_all
  then show ?thesis
    by (simp add: releasesleep_def acquire_inner [OF r] wakeup_eq [OF held_calling(1) [OF r]] held_calling(2) [OF r])
qed

lemma holdingsleep_eq:
  assumes r: "ready i p s"
  shows "holdingsleep G U s = Ok (slocked (G s) \<and> slpid (G s) = pid (ptable s ! p)) (settled i s)"
proof -
  have "release (\<lambda>s. slk (G s)) (\<lambda>f. U (slk_update f)) ((U (\<lambda>x. x) (il.held i s))\<lparr>ptable := ptable s\<rparr>)
      = Ok () ((U (\<lambda>x. x) (settled i s))\<lparr>ptable := ptable s\<rparr>)"
    by (rule release_inner [OF r]) simp_all
  then show ?thesis
    using held_calling(4) [OF r, of "\<lambda>x. x"]
    by (simp add: holdingsleep_def acquire_inner [OF r] proc_ptr_def)
qed

end

end
