(* ===== verification/Bio.thy ===== *)
theory Bio
  imports Sleeplock
begin

text \<open>
  The buffer cache (\<^verbatim>\<open>bio.c\<close>) over the memory disk of \<^verbatim>\<open>memide.c\<close>, whose \<^verbatim>\<open>iderw\<close> completes before it
  returns.  Buffers are numbered; number \<open>NBUF\<close> is the list head \<^verbatim>\<open>bcache.head\<close>, and \<open>bnext\<close>, \<open>bprev\<close> are the links of the
  LRU list.
\<close>

section \<open>State\<close>

abbreviation NBUF :: nat where "NBUF \<equiv> 30"
abbreviation (input) BSIZE :: u32 where "BSIZE \<equiv> 512"

text \<open>The contents of a block, addressed by byte offset; only the first \<open>BSIZE\<close> positions matter.\<close>

type_synonym block = memory

text \<open>\<^verbatim>\<open>struct buf\<close>; the two bits of \<^verbatim>\<open>flags\<close> are \<open>bvalid\<close> and \<open>bdirty\<close>.\<close>

record buf =
  bvalid :: bool
  bdirty :: bool
  bdev :: u32
  blockno :: u32
  blk :: sleeplock
  refcnt :: u32
  bprev :: nat
  bnext :: nat
  bqnext :: "nat option"
  bdata :: block

text \<open>
  The globals of \<^verbatim>\<open>bio.c\<close> and \<^verbatim>\<open>memide.c\<close>; \<open>disk\<close> is the array at \<^verbatim>\<open>memdisk\<close>, block by block.  \<open>dwrites\<close> is an observation, not a
  variable of the code: the block writes the disk has received so far, oldest first.
\<close>

record bio_st = tick_st +
  bcache_lock :: spinlock
  bufs :: "nat \<Rightarrow> buf"
  disk :: "u32 \<Rightarrow> block"
  dwrites :: "(u32 \<times> block) list"
  disksize :: u32

definition upd_buf :: "nat \<Rightarrow> (buf \<Rightarrow> buf) \<Rightarrow> 'z bio_st_scheme \<Rightarrow> 'z bio_st_scheme" where
  "upd_buf k f s = s\<lparr>bufs := (bufs s)(k := f (bufs s k))\<rparr>"

definition buf_lock :: "nat \<Rightarrow> 'z bio_st_scheme \<Rightarrow> sleeplock" where
  "buf_lock k s = blk (bufs s k)"

definition buf_lock_update :: "nat \<Rightarrow> (sleeplock \<Rightarrow> sleeplock) \<Rightarrow> 'z bio_st_scheme \<Rightarrow> 'z bio_st_scheme" where
  "buf_lock_update k f = upd_buf k (\<lambda>b. b\<lparr>blk := f (blk b)\<rparr>)"

section \<open>Operations\<close>

text \<open>The loop body of \<^verbatim>\<open>binit\<close>.\<close>

definition binit_step :: "nat \<Rightarrow> 'z bio_st_scheme \<Rightarrow> 'z bio_st_scheme" where
  "binit_step b s =
     (let s = upd_buf b (\<lambda>x. x\<lparr>bnext := bnext (bufs s NBUF)\<rparr>) s;
          s = upd_buf b (\<lambda>x. x\<lparr>bprev := NBUF\<rparr>) s;
          s = upd_buf b (\<lambda>x. x\<lparr>blk := initsleeplock ''buffer'' (blk x)\<rparr>) s;
          s = upd_buf (bnext (bufs s NBUF)) (\<lambda>x. x\<lparr>bprev := b\<rparr>) s
      in upd_buf NBUF (\<lambda>x. x\<lparr>bnext := b\<rparr>) s)"

definition binit :: "'z bio_st_scheme \<Rightarrow> 'z bio_st_scheme" where
  "binit s =
     (let s = s\<lparr>bcache_lock := initlock ''bcache'' (bcache_lock s)\<rparr>;
          s = upd_buf NBUF (\<lambda>x. x\<lparr>bprev := NBUF, bnext := NBUF\<rparr>) s
      in fold binit_step [0..<NBUF] s)"

definition acquire_bcache :: "'z bio_st_scheme \<Rightarrow> (unit, 'z bio_st_scheme) kres" where
  "acquire_bcache s = acquire bcache_lock bcache_lock_update s"

definition release_bcache :: "'z bio_st_scheme \<Rightarrow> (unit, 'z bio_st_scheme) kres" where
  "release_bcache s = release bcache_lock bcache_lock_update s"

text \<open>
  The two searches of \<^verbatim>\<open>bget\<close>; \<open>None\<close> when the links never lead back to the head, \<open>Some None\<close> when nothing is
  found.
\<close>

partial_function (option) bget_cached :: "(nat \<Rightarrow> buf) \<Rightarrow> u32 \<Rightarrow> u32 \<Rightarrow> nat \<Rightarrow> nat option option" where
  "bget_cached B dev bno b =
     (if b = NBUF then Some None
      else if bdev (B b) = dev \<and> blockno (B b) = bno then Some (Some b)
      else bget_cached B dev bno (bnext (B b)))"

partial_function (option) bget_unused :: "(nat \<Rightarrow> buf) \<Rightarrow> nat \<Rightarrow> nat option option" where
  "bget_unused B b =
     (if b = NBUF then Some None
      else if refcnt (B b) = 0 \<and> \<not> bdirty (B b) then Some (Some b)
      else bget_unused B (bprev (B b)))"

definition bget :: "u32 \<Rightarrow> u32 \<Rightarrow> 'z bio_st_scheme \<Rightarrow> (nat, 'z bio_st_scheme) kres" where
  "bget dev bno s =
     andthen (acquire_bcache s) (\<lambda>_ s.
     case bget_cached (bufs s) dev bno (bnext (bufs s NBUF)) of
       None \<Rightarrow> Spin s
     | Some (Some b) \<Rightarrow>
         andthen (release_bcache (upd_buf b (\<lambda>x. x\<lparr>refcnt := refcnt x + 1\<rparr>) s)) (\<lambda>_ s.
         andthen (acquiresleep (ChBufLock b) (buf_lock b) (buf_lock_update b) s) (\<lambda>_ s. Ok b s))
     | Some None \<Rightarrow>
         (case bget_unused (bufs s) (bprev (bufs s NBUF)) of
            None \<Rightarrow> Spin s
          | Some None \<Rightarrow> Panic ''bget: no buffers'' s
          | Some (Some b) \<Rightarrow>
              andthen (release_bcache (upd_buf b (\<lambda>x. x\<lparr>bdev := dev, blockno := bno, bvalid := False,
                         bdirty := False, refcnt := 1\<rparr>) s)) (\<lambda>_ s.
              andthen (acquiresleep (ChBufLock b) (buf_lock b) (buf_lock_update b) s) (\<lambda>_ s. Ok b s))))"

text \<open>\<^verbatim>\<open>iderw\<close> of the memory disk.\<close>

definition iderw :: "nat \<Rightarrow> 'z bio_st_scheme \<Rightarrow> (unit, 'z bio_st_scheme) kres" where
  "iderw b s =
     andthen (holdingsleep (buf_lock b) (buf_lock_update b) s) (\<lambda>h s.
     if \<not> h then Panic ''iderw: buf not locked'' s
     else if bvalid (bufs s b) \<and> \<not> bdirty (bufs s b) then Panic ''iderw: nothing to do'' s
     else if bdev (bufs s b) \<noteq> 1 then Panic ''iderw: request not for disk 1'' s
     else if disksize s \<le> blockno (bufs s b) then Panic ''iderw: block out of range'' s
     else if bdirty (bufs s b)
     then let s = upd_buf b (\<lambda>x. x\<lparr>bdirty := False\<rparr>) s;
              s = s\<lparr>disk := (disk s)(blockno (bufs s b) := bdata (bufs s b)),
                    dwrites := dwrites s @ [(blockno (bufs s b), bdata (bufs s b))]\<rparr>
          in Ok () (upd_buf b (\<lambda>x. x\<lparr>bvalid := True\<rparr>) s)
     else let s = upd_buf b (\<lambda>x. x\<lparr>bdata := disk s (blockno x)\<rparr>) s
          in Ok () (upd_buf b (\<lambda>x. x\<lparr>bvalid := True\<rparr>) s))"

definition bread :: "u32 \<Rightarrow> u32 \<Rightarrow> 'z bio_st_scheme \<Rightarrow> (nat, 'z bio_st_scheme) kres" where
  "bread dev bno s =
     andthen (bget dev bno s) (\<lambda>b s.
     if bvalid (bufs s b) then Ok b s else andthen (iderw b s) (\<lambda>_ s. Ok b s))"

definition bwrite :: "nat \<Rightarrow> 'z bio_st_scheme \<Rightarrow> (unit, 'z bio_st_scheme) kres" where
  "bwrite b s =
     andthen (holdingsleep (buf_lock b) (buf_lock_update b) s) (\<lambda>h s.
     if \<not> h then Panic ''bwrite'' s else iderw b (upd_buf b (\<lambda>x. x\<lparr>bdirty := True\<rparr>) s))"

text \<open>Assignments to the links of a buffer.\<close>

definition set_next :: "nat \<Rightarrow> nat \<Rightarrow> (nat \<Rightarrow> buf) \<Rightarrow> (nat \<Rightarrow> buf)" where
  "set_next w k B = B(w := (B w)\<lparr>bnext := k\<rparr>)"

definition set_prev :: "nat \<Rightarrow> nat \<Rightarrow> (nat \<Rightarrow> buf) \<Rightarrow> (nat \<Rightarrow> buf)" where
  "set_prev w k B = B(w := (B w)\<lparr>bprev := k\<rparr>)"

text \<open>Unlink \<open>b\<close> and put it behind the head: the list surgery of \<^verbatim>\<open>brelse\<close>, assignment by assignment.\<close>

definition brelse_move :: "nat \<Rightarrow> (nat \<Rightarrow> buf) \<Rightarrow> (nat \<Rightarrow> buf)" where
  "brelse_move b B =
     (let B = set_prev (bnext (B b)) (bprev (B b)) B;
          B = set_next (bprev (B b)) (bnext (B b)) B;
          B = set_next b (bnext (B NBUF)) B;
          B = set_prev b NBUF B;
          B = set_prev (bnext (B NBUF)) b B
      in set_next NBUF b B)"

definition brelse :: "nat \<Rightarrow> 'z bio_st_scheme \<Rightarrow> (unit, 'z bio_st_scheme) kres" where
  "brelse b s =
     andthen (holdingsleep (buf_lock b) (buf_lock_update b) s) (\<lambda>h s.
     if \<not> h then Panic ''brelse'' s
     else andthen (releasesleep (ChBufLock b) (buf_lock b) (buf_lock_update b) s) (\<lambda>_ s.
          andthen (acquire_bcache s) (\<lambda>_ s.
          let s = upd_buf b (\<lambda>x. x\<lparr>refcnt := refcnt x - 1\<rparr>) s;
              s = (if refcnt (bufs s b) = 0 then s\<lparr>bufs := brelse_move b (bufs s)\<rparr> else s)
          in release_bcache s)))"

section \<open>Locks\<close>

interpretation bc: spin_lock bcache_lock bcache_lock_update
  by unfold_locales simp_all

interpretation bl: sleep_lock "buf_lock k" "buf_lock_update k" for k
  by unfold_locales (auto simp: buf_lock_def buf_lock_update_def upd_buf_def)

end
