(* ===== verification/Log.thy ===== *)
theory Log
  imports Bio
begin

text \<open>
  The write-ahead log (\<^verbatim>\<open>log.c\<close>) and the superblock (\<^verbatim>\<open>fs.h\<close>, \<^verbatim>\<open>readsb\<close> of \<^verbatim>\<open>fs.c\<close>).  A transaction is the list of the
  block numbers in the in-memory header; \<open>commit\<close> copies the blocks to the log, writes the header, installs the
  blocks and clears the header.
\<close>

section \<open>The superblock\<close>

record superblock =
  sb_size :: u32
  sb_nblocks :: u32
  sb_ninodes :: u32
  sb_nlog :: u32
  sb_logstart :: u32
  sb_inodestart :: u32
  sb_bmapstart :: u32

definition decode_sb :: "block \<Rightarrow> superblock" where
  "decode_sb b = \<lparr>sb_size = load32 b 0, sb_nblocks = load32 b 4, sb_ninodes = load32 b 8, sb_nlog = load32 b 12,
     sb_logstart = load32 b 16, sb_inodestart = load32 b 20, sb_bmapstart = load32 b 24\<rparr>"

definition readsb :: "u32 \<Rightarrow> 'z bio_st_scheme \<Rightarrow> (superblock, 'z bio_st_scheme) kres" where
  "readsb dev s =
     andthen (bread dev 1 s) (\<lambda>bp s.
     let sb = decode_sb (bdata (bufs s bp))
     in andthen (brelse bp s) (\<lambda>_ s. Ok sb s))"

section \<open>The log\<close>

abbreviation MAXOPBLOCKS :: int where "MAXOPBLOCKS \<equiv> 10"
abbreviation LOGSIZE :: int where "LOGSIZE \<equiv> 30"

text \<open>\<^verbatim>\<open>struct log\<close>; \<open>lh_n\<close> and \<open>lh_block\<close> are the in-memory header.\<close>

record log_st = bio_st +
  log_lock :: spinlock
  log_start :: u32
  log_size :: int
  outstanding :: int
  committing :: bool
  log_dev :: u32
  lh_n :: int
  lh_block :: "nat \<Rightarrow> u32"

definition acquire_log :: "'z log_st_scheme \<Rightarrow> (unit, 'z log_st_scheme) kres" where
  "acquire_log s = acquire log_lock log_lock_update s"

definition release_log :: "'z log_st_scheme \<Rightarrow> (unit, 'z log_st_scheme) kres" where
  "release_log s = release log_lock log_lock_update s"

text \<open>The loops run over the list of the remaining values of \<^verbatim>\<open>tail\<close>.\<close>

fun install_trans_loop :: "nat list \<Rightarrow> 'z log_st_scheme \<Rightarrow> (unit, 'z log_st_scheme) kres" where
  "install_trans_loop [] s = Ok () s"
| "install_trans_loop (tail # ts) s =
     andthen (bread (log_dev s) (log_start s + of_nat tail + 1) s) (\<lambda>lbuf s.
     andthen (bread (log_dev s) (lh_block s tail) s) (\<lambda>dbuf s.
     andthen (bwrite dbuf (upd_buf dbuf (\<lambda>x. x\<lparr>bdata := bdata (bufs s lbuf)\<rparr>) s)) (\<lambda>_ s.
     andthen (brelse lbuf s) (\<lambda>_ s.
     andthen (brelse dbuf s) (\<lambda>_ s.
     install_trans_loop ts s)))))"

definition install_trans :: "'z log_st_scheme \<Rightarrow> (unit, 'z log_st_scheme) kres" where
  "install_trans s = install_trans_loop [0..<nat (lh_n s)] s"

text \<open>The header block: the count at offset 0, the block numbers from offset 4 on.\<close>

definition head_slot :: "nat \<Rightarrow> u32" where
  "head_slot i = 4 + 4 * of_nat i"

definition read_head :: "'z log_st_scheme \<Rightarrow> (unit, 'z log_st_scheme) kres" where
  "read_head s =
     andthen (bread (log_dev s) (log_start s) s) (\<lambda>b s.
     let d = bdata (bufs s b);
         s = s\<lparr>lh_n := sint (load32 d 0)\<rparr>;
         s = s\<lparr>lh_block := (\<lambda>i. if i < nat (lh_n s) then load32 d (head_slot i) else lh_block s i)\<rparr>
     in brelse b s)"

definition encode_head :: "nat list \<Rightarrow> (nat \<Rightarrow> u32) \<Rightarrow> block \<Rightarrow> block" where
  "encode_head is B d = fold (\<lambda>i d. store32 d (head_slot i) (B i)) is d"

definition write_head :: "'z log_st_scheme \<Rightarrow> (unit, 'z log_st_scheme) kres" where
  "write_head s =
     andthen (bread (log_dev s) (log_start s) s) (\<lambda>b s.
     let d = store32 (bdata (bufs s b)) 0 (of_int (lh_n s));
         d = encode_head [0..<nat (lh_n s)] (lh_block s) d
     in andthen (bwrite b (upd_buf b (\<lambda>x. x\<lparr>bdata := d\<rparr>) s)) (\<lambda>_ s.
        brelse b s))"

definition recover_from_log :: "'z log_st_scheme \<Rightarrow> (unit, 'z log_st_scheme) kres" where
  "recover_from_log s =
     andthen (read_head s) (\<lambda>_ s.
     andthen (install_trans s) (\<lambda>_ s.
     write_head (s\<lparr>lh_n := 0\<rparr>)))"

text \<open>The first test of \<^verbatim>\<open>initlog\<close> compares \<^verbatim>\<open>sizeof(struct logheader)\<close>, 124, with \<open>BSIZE\<close>.\<close>

definition initlog :: "u32 \<Rightarrow> 'z log_st_scheme \<Rightarrow> (unit, 'z log_st_scheme) kres" where
  "initlog dev s =
     (if BSIZE \<le> 124 then Panic ''initlog: too big logheader'' s
      else let s = s\<lparr>log_lock := initlock ''log'' (log_lock s)\<rparr>
           in andthen (readsb dev s) (\<lambda>sb s.
              recover_from_log (s\<lparr>log_start := sb_logstart sb, log_size := sint (sb_nlog sb), log_dev := dev\<rparr>)))"

text \<open>The loop body of \<^verbatim>\<open>begin_op\<close> with the log lock held; also what runs after a wakeup.\<close>

definition begin_op_loop :: "'z log_st_scheme \<Rightarrow> (unit, 'z log_st_scheme) kres" where
  "begin_op_loop s =
     (if committing s then sleep (Some ChLog) (Some (OtherLock log_lock log_lock_update)) s
      else if LOGSIZE < lh_n s + (outstanding s + 1) * MAXOPBLOCKS
      then sleep (Some ChLog) (Some (OtherLock log_lock log_lock_update)) s
      else release_log (s\<lparr>outstanding := outstanding s + 1\<rparr>))"

definition begin_op :: "'z log_st_scheme \<Rightarrow> (unit, 'z log_st_scheme) kres" where
  "begin_op s = andthen (acquire_log s) (\<lambda>_ s. begin_op_loop s)"

definition begin_op_resume :: "bool \<Rightarrow> nat \<Rightarrow> 'z log_st_scheme \<Rightarrow> (unit, 'z log_st_scheme) kres" where
  "begin_op_resume ie i s =
     andthen (sleep_resume ie i (OtherLock log_lock log_lock_update) s) (\<lambda>_ s. begin_op_loop s)"

fun write_log_loop :: "nat list \<Rightarrow> 'z log_st_scheme \<Rightarrow> (unit, 'z log_st_scheme) kres" where
  "write_log_loop [] s = Ok () s"
| "write_log_loop (tail # ts) s =
     andthen (bread (log_dev s) (log_start s + of_nat tail + 1) s) (\<lambda>to s.
     andthen (bread (log_dev s) (lh_block s tail) s) (\<lambda>from s.
     andthen (bwrite to (upd_buf to (\<lambda>x. x\<lparr>bdata := bdata (bufs s from)\<rparr>) s)) (\<lambda>_ s.
     andthen (brelse from s) (\<lambda>_ s.
     andthen (brelse to s) (\<lambda>_ s.
     write_log_loop ts s)))))"

definition write_log :: "'z log_st_scheme \<Rightarrow> (unit, 'z log_st_scheme) kres" where
  "write_log s = write_log_loop [0..<nat (lh_n s)] s"

definition commit :: "'z log_st_scheme \<Rightarrow> (unit, 'z log_st_scheme) kres" where
  "commit s =
     (if 0 < lh_n s then
        andthen (write_log s) (\<lambda>_ s.
        andthen (write_head s) (\<lambda>_ s.
        andthen (install_trans s) (\<lambda>_ s.
        write_head (s\<lparr>lh_n := 0\<rparr>))))
      else Ok () s)"

definition end_op :: "'z log_st_scheme \<Rightarrow> (unit, 'z log_st_scheme) kres" where
  "end_op s =
     andthen (acquire_log s) (\<lambda>_ s.
     let s = s\<lparr>outstanding := outstanding s - 1\<rparr>
     in if committing s then Panic ''log.committing'' s
        else andthen (if outstanding s = 0 then Ok True (s\<lparr>committing := True\<rparr>)
                      else andthen (wakeup (Some ChLog) s) (\<lambda>_ s. Ok False s)) (\<lambda>do_commit s.
        andthen (release_log s) (\<lambda>_ s.
        if do_commit
        then andthen (commit s) (\<lambda>_ s.
             andthen (acquire_log s) (\<lambda>_ s.
             andthen (wakeup (Some ChLog) (s\<lparr>committing := False\<rparr>)) (\<lambda>_ s.
             release_log s)))
        else Ok () s)))"

text \<open>The position at which \<^verbatim>\<open>log_write\<close> stops: the first entry with this block number, or \<open>lh_n\<close>.\<close>

definition log_slot :: "'z log_st_scheme \<Rightarrow> u32 \<Rightarrow> nat" where
  "log_slot s bno =
     (case findi (\<lambda>i. lh_block s i = bno) [0..<nat (lh_n s)] of Some i \<Rightarrow> i | None \<Rightarrow> nat (lh_n s))"

definition log_write :: "nat \<Rightarrow> 'z log_st_scheme \<Rightarrow> (unit, 'z log_st_scheme) kres" where
  "log_write b s =
     (if LOGSIZE \<le> lh_n s \<or> log_size s - 1 \<le> lh_n s then Panic ''too big a transaction'' s
      else if outstanding s < 1 then Panic ''log_write outside of trans'' s
      else andthen (acquire_log s) (\<lambda>_ s.
           let i = log_slot s (blockno (bufs s b));
               s = s\<lparr>lh_block := (lh_block s)(i := blockno (bufs s b))\<rparr>;
               s = (if int i = lh_n s then s\<lparr>lh_n := lh_n s + 1\<rparr> else s);
               s = upd_buf b (\<lambda>x. x\<lparr>bdirty := True\<rparr>) s
           in release_log s))"

section \<open>Lock\<close>

interpretation lg: spin_lock log_lock log_lock_update
  by unfold_locales simp_all

end
