(* ===== verification/Inode.thy ===== *)
theory Inode
  imports Log
begin

text \<open>
  The lower half of \<^verbatim>\<open>fs.c\<close>: the block bitmap, the on-disk inodes and the in-memory inode table, and the map from
  file blocks to disk blocks.  In-memory inodes are numbered below \<open>NINODE\<close>.
\<close>

section \<open>State\<close>

abbreviation NINODE :: nat where "NINODE \<equiv> 50"
abbreviation NDIRECT :: nat where "NDIRECT \<equiv> 12"
abbreviation NINDIRECT :: nat where "NINDIRECT \<equiv> 128"

record inode =
  idev :: u32
  inum :: u32
  iref :: int
  ilk :: sleeplock
  ivalid :: bool
  itype :: u16
  imajor :: u16
  iminor :: u16
  inlink :: u16
  isize :: u32
  iaddrs :: "nat \<Rightarrow> u32"

record fs_st = log_st +
  sb :: superblock
  icache_lock :: spinlock
  inodes :: "nat \<Rightarrow> inode"

definition upd_inode :: "nat \<Rightarrow> (inode \<Rightarrow> inode) \<Rightarrow> 'z fs_st_scheme \<Rightarrow> 'z fs_st_scheme" where
  "upd_inode k f s = s\<lparr>inodes := (inodes s)(k := f (inodes s k))\<rparr>"

definition inode_lock :: "nat \<Rightarrow> 'z fs_st_scheme \<Rightarrow> sleeplock" where
  "inode_lock k s = ilk (inodes s k)"

definition inode_lock_update :: "nat \<Rightarrow> (sleeplock \<Rightarrow> sleeplock) \<Rightarrow> 'z fs_st_scheme \<Rightarrow> 'z fs_st_scheme" where
  "inode_lock_update k f = upd_inode k (\<lambda>x. x\<lparr>ilk := f (ilk x)\<rparr>)"

definition acquire_icache :: "'z fs_st_scheme \<Rightarrow> (unit, 'z fs_st_scheme) kres" where
  "acquire_icache s = acquire icache_lock icache_lock_update s"

definition release_icache :: "'z fs_st_scheme \<Rightarrow> (unit, 'z fs_st_scheme) kres" where
  "release_icache s = release icache_lock icache_lock_update s"

section \<open>Blocks\<close>

text \<open>\<open>BPB\<close> is 4096 bits per bitmap block.\<close>

definition BBLOCK :: "u32 \<Rightarrow> superblock \<Rightarrow> u32" where
  "BBLOCK b S = b div 4096 + sb_bmapstart S"

definition bzero :: "u32 \<Rightarrow> u32 \<Rightarrow> 'z log_st_scheme \<Rightarrow> (unit, 'z log_st_scheme) kres" where
  "bzero dev bno s =
     andthen (bread dev bno s) (\<lambda>bp s.
     andthen (log_write bp (upd_buf bp (\<lambda>x. x\<lparr>bdata := memset (bdata x) 0 0 BSIZE\<rparr>) s)) (\<lambda>_ s.
     brelse bp s))"

definition bit_set :: "block \<Rightarrow> nat \<Rightarrow> bool" where
  "bit_set d bi \<longleftrightarrow> d (of_nat (bi div 8)) AND push_bit (bi mod 8) 1 \<noteq> 0"

definition mark_bit :: "block \<Rightarrow> nat \<Rightarrow> block" where
  "mark_bit d bi = d(of_nat (bi div 8) := d (of_nat (bi div 8)) OR push_bit (bi mod 8) 1)"

definition clear_bit :: "block \<Rightarrow> nat \<Rightarrow> block" where
  "clear_bit d bi = d(of_nat (bi div 8) := d (of_nat (bi div 8)) AND NOT (push_bit (bi mod 8) 1))"

text \<open>The outer loop of \<^verbatim>\<open>balloc\<close> over the first block numbers of the bitmap blocks.\<close>

fun balloc_loop :: "u32 \<Rightarrow> nat list \<Rightarrow> 'z fs_st_scheme \<Rightarrow> (u32, 'z fs_st_scheme) kres" where
  "balloc_loop dev [] s = Panic ''balloc: out of blocks'' s"
| "balloc_loop dev (b # bs) s =
     andthen (bread dev (BBLOCK (of_nat b) (sb s)) s) (\<lambda>bp s.
     case findi (\<lambda>bi. b + bi < unat (sb_size (sb s)) \<and> \<not> bit_set (bdata (bufs s bp)) bi) [0..<4096] of
       Some bi \<Rightarrow>
         andthen (log_write bp (upd_buf bp (\<lambda>x. x\<lparr>bdata := mark_bit (bdata x) bi\<rparr>) s)) (\<lambda>_ s.
         andthen (brelse bp s) (\<lambda>_ s.
         andthen (bzero dev (of_nat (b + bi)) s) (\<lambda>_ s.
         Ok (of_nat (b + bi)) s)))
     | None \<Rightarrow> andthen (brelse bp s) (\<lambda>_ s. balloc_loop dev bs s))"

definition balloc :: "u32 \<Rightarrow> 'z fs_st_scheme \<Rightarrow> (u32, 'z fs_st_scheme) kres" where
  "balloc dev s = balloc_loop dev (map (\<lambda>k. 4096 * k) [0..<(unat (sb_size (sb s)) + 4095) div 4096]) s"

definition bfree :: "u32 \<Rightarrow> u32 \<Rightarrow> 'z fs_st_scheme \<Rightarrow> (unit, 'z fs_st_scheme) kres" where
  "bfree dev b s =
     andthen (bread dev (BBLOCK b (sb s)) s) (\<lambda>bp s.
     let bi = unat (b mod 4096)
     in if \<not> bit_set (bdata (bufs s bp)) bi then Panic ''freeing free block'' s
        else andthen (log_write bp (upd_buf bp (\<lambda>x. x\<lparr>bdata := clear_bit (bdata x) bi\<rparr>) s)) (\<lambda>_ s.
             brelse bp s))"

section \<open>Inodes\<close>

definition iinit :: "u32 \<Rightarrow> 'z fs_st_scheme \<Rightarrow> (unit, 'z fs_st_scheme) kres" where
  "iinit dev s =
     (let s = s\<lparr>icache_lock := initlock ''icache'' (icache_lock s)\<rparr>;
          s = s\<lparr>inodes := (\<lambda>i. if i < NINODE then (inodes s i)\<lparr>ilk := initsleeplock ''inode'' (ilk (inodes s i))\<rparr>
                               else inodes s i)\<rparr>
      in andthen (readsb dev s) (\<lambda>b s. Ok () (s\<lparr>sb := b\<rparr>)))"

text \<open>\<^verbatim>\<open>struct dinode\<close> is 64 bytes: four shorts, the size, thirteen addresses; eight per block.\<close>

definition IBLOCK :: "u32 \<Rightarrow> superblock \<Rightarrow> u32" where
  "IBLOCK i S = i div 8 + sb_inodestart S"

definition dinode_off :: "u32 \<Rightarrow> u32" where
  "dinode_off i = 64 * (i mod 8)"

definition load_dinode :: "block \<Rightarrow> u32 \<Rightarrow> inode \<Rightarrow> inode" where
  "load_dinode d off ip = ip\<lparr>itype := load16 d off, imajor := load16 d (off + 2), iminor := load16 d (off + 4),
     inlink := load16 d (off + 6), isize := load32 d (off + 8),
     iaddrs := (\<lambda>i. if i < 13 then load32 d (off + 12 + 4 * of_nat i) else iaddrs ip i)\<rparr>"

definition store_dinode :: "inode \<Rightarrow> u32 \<Rightarrow> block \<Rightarrow> block" where
  "store_dinode ip off d =
     (let d = store16 d off (itype ip);
          d = store16 d (off + 2) (imajor ip);
          d = store16 d (off + 4) (iminor ip);
          d = store16 d (off + 6) (inlink ip);
          d = store32 d (off + 8) (isize ip)
      in fold (\<lambda>i d. store32 d (off + 12 + 4 * of_nat i) (iaddrs ip i)) [0..<13] d)"

definition iget :: "u32 \<Rightarrow> u32 \<Rightarrow> 'z fs_st_scheme \<Rightarrow> (nat, 'z fs_st_scheme) kres" where
  "iget dev n s =
     andthen (acquire_icache s) (\<lambda>_ s.
     case findi (\<lambda>k. 0 < iref (inodes s k) \<and> idev (inodes s k) = dev \<and> inum (inodes s k) = n) [0..<NINODE] of
       Some k \<Rightarrow>
         andthen (release_icache (upd_inode k (\<lambda>x. x\<lparr>iref := iref x + 1\<rparr>) s)) (\<lambda>_ s. Ok k s)
     | None \<Rightarrow>
         (case findi (\<lambda>k. iref (inodes s k) = 0) [0..<NINODE] of
            None \<Rightarrow> Panic ''iget: no inodes'' s
          | Some k \<Rightarrow>
              andthen (release_icache (upd_inode k (\<lambda>x. x\<lparr>idev := dev, inum := n, iref := 1, ivalid := False\<rparr>) s)) (\<lambda>_ s.
              Ok k s)))"

fun ialloc_loop :: "u32 \<Rightarrow> u16 \<Rightarrow> nat list \<Rightarrow> 'z fs_st_scheme \<Rightarrow> (nat, 'z fs_st_scheme) kres" where
  "ialloc_loop dev typ [] s = Panic ''ialloc: no inodes'' s"
| "ialloc_loop dev typ (n # ns) s =
     andthen (bread dev (IBLOCK (of_nat n) (sb s)) s) (\<lambda>bp s.
     let off = dinode_off (of_nat n)
     in if load16 (bdata (bufs s bp)) off = 0
        then andthen (log_write bp (upd_buf bp (\<lambda>x. x\<lparr>bdata := store16 (memset (bdata x) off 0 64) off typ\<rparr>) s)) (\<lambda>_ s.
             andthen (brelse bp s) (\<lambda>_ s.
             iget dev (of_nat n) s))
        else andthen (brelse bp s) (\<lambda>_ s. ialloc_loop dev typ ns s))"

definition ialloc :: "u32 \<Rightarrow> u16 \<Rightarrow> 'z fs_st_scheme \<Rightarrow> (nat, 'z fs_st_scheme) kres" where
  "ialloc dev typ s = ialloc_loop dev typ [1..<unat (sb_ninodes (sb s))] s"

definition iupdate :: "nat \<Rightarrow> 'z fs_st_scheme \<Rightarrow> (unit, 'z fs_st_scheme) kres" where
  "iupdate ip s =
     andthen (bread (idev (inodes s ip)) (IBLOCK (inum (inodes s ip)) (sb s)) s) (\<lambda>bp s.
     andthen (log_write bp (upd_buf bp (\<lambda>x. x\<lparr>bdata :=
                store_dinode (inodes s ip) (dinode_off (inum (inodes s ip))) (bdata x)\<rparr>) s)) (\<lambda>_ s.
     brelse bp s))"

definition idup :: "nat \<Rightarrow> 'z fs_st_scheme \<Rightarrow> (nat, 'z fs_st_scheme) kres" where
  "idup ip s =
     andthen (acquire_icache s) (\<lambda>_ s.
     andthen (release_icache (upd_inode ip (\<lambda>x. x\<lparr>iref := iref x + 1\<rparr>) s)) (\<lambda>_ s. Ok ip s))"

text \<open>A null pointer is \<open>None\<close>.\<close>

definition ilock :: "nat option \<Rightarrow> 'z fs_st_scheme \<Rightarrow> (unit, 'z fs_st_scheme) kres" where
  "ilock p s =
     (case p of None \<Rightarrow> Panic ''ilock'' s
      | Some ip \<Rightarrow>
        if iref (inodes s ip) < 1 then Panic ''ilock'' s
        else andthen (acquiresleep (ChInodeLock ip) (inode_lock ip) (inode_lock_update ip) s) (\<lambda>_ s.
             if ivalid (inodes s ip) then Ok () s
             else andthen (bread (idev (inodes s ip)) (IBLOCK (inum (inodes s ip)) (sb s)) s) (\<lambda>bp s.
                  let s = upd_inode ip (load_dinode (bdata (bufs s bp)) (dinode_off (inum (inodes s ip)))) s
                  in andthen (brelse bp s) (\<lambda>_ s.
                     let s = upd_inode ip (\<lambda>x. x\<lparr>ivalid := True\<rparr>) s
                     in if itype (inodes s ip) = 0 then Panic ''ilock: no type'' s else Ok () s))))"

definition iunlock :: "nat option \<Rightarrow> 'z fs_st_scheme \<Rightarrow> (unit, 'z fs_st_scheme) kres" where
  "iunlock p s =
     (case p of None \<Rightarrow> Panic ''iunlock'' s
      | Some ip \<Rightarrow>
        andthen (holdingsleep (inode_lock ip) (inode_lock_update ip) s) (\<lambda>h s.
        if \<not> h \<or> iref (inodes s ip) < 1 then Panic ''iunlock'' s
        else releasesleep (ChInodeLock ip) (inode_lock ip) (inode_lock_update ip) s))"

section \<open>File blocks\<close>

definition bmap :: "nat \<Rightarrow> u32 \<Rightarrow> 'z fs_st_scheme \<Rightarrow> (u32, 'z fs_st_scheme) kres" where
  "bmap ip bn s =
     (if bn < of_nat NDIRECT then
        (let addr = iaddrs (inodes s ip) (unat bn)
         in if addr = 0
            then andthen (balloc (idev (inodes s ip)) s) (\<lambda>addr s.
                 Ok addr (upd_inode ip (\<lambda>x. x\<lparr>iaddrs := (iaddrs x)(unat bn := addr)\<rparr>) s))
            else Ok addr s)
      else let bn = bn - of_nat NDIRECT
      in if bn < of_nat NINDIRECT then
        andthen (if iaddrs (inodes s ip) NDIRECT = 0
                 then andthen (balloc (idev (inodes s ip)) s) (\<lambda>addr s.
                      Ok addr (upd_inode ip (\<lambda>x. x\<lparr>iaddrs := (iaddrs x)(NDIRECT := addr)\<rparr>) s))
                 else Ok (iaddrs (inodes s ip) NDIRECT) s) (\<lambda>addr s.
        andthen (bread (idev (inodes s ip)) addr s) (\<lambda>bp s.
        let addr = load32 (bdata (bufs s bp)) (4 * bn)
        in andthen (if addr = 0
                    then andthen (balloc (idev (inodes s ip)) s) (\<lambda>addr s.
                         andthen (log_write bp (upd_buf bp (\<lambda>x. x\<lparr>bdata := store32 (bdata x) (4 * bn) addr\<rparr>) s)) (\<lambda>_ s.
                         Ok addr s))
                    else Ok addr s) (\<lambda>addr s.
           andthen (brelse bp s) (\<lambda>_ s. Ok addr s))))
      else Panic ''bmap: out of range'' s)"

fun itrunc_direct :: "nat \<Rightarrow> nat list \<Rightarrow> 'z fs_st_scheme \<Rightarrow> (unit, 'z fs_st_scheme) kres" where
  "itrunc_direct ip [] s = Ok () s"
| "itrunc_direct ip (i # is) s =
     andthen (if iaddrs (inodes s ip) i \<noteq> 0
              then andthen (bfree (idev (inodes s ip)) (iaddrs (inodes s ip) i) s) (\<lambda>_ s.
                   Ok () (upd_inode ip (\<lambda>x. x\<lparr>iaddrs := (iaddrs x)(i := 0)\<rparr>) s))
              else Ok () s) (\<lambda>_ s. itrunc_direct ip is s)"

fun itrunc_indirect :: "nat \<Rightarrow> nat \<Rightarrow> nat list \<Rightarrow> 'z fs_st_scheme \<Rightarrow> (unit, 'z fs_st_scheme) kres" where
  "itrunc_indirect ip bp [] s = Ok () s"
| "itrunc_indirect ip bp (j # js) s =
     (let a = load32 (bdata (bufs s bp)) (4 * of_nat j)
      in andthen (if a \<noteq> 0 then bfree (idev (inodes s ip)) a s else Ok () s) (\<lambda>_ s. itrunc_indirect ip bp js s))"

definition itrunc :: "nat \<Rightarrow> 'z fs_st_scheme \<Rightarrow> (unit, 'z fs_st_scheme) kres" where
  "itrunc ip s =
     andthen (itrunc_direct ip [0..<NDIRECT] s) (\<lambda>_ s.
     andthen (if iaddrs (inodes s ip) NDIRECT \<noteq> 0
              then andthen (bread (idev (inodes s ip)) (iaddrs (inodes s ip) NDIRECT) s) (\<lambda>bp s.
                   andthen (itrunc_indirect ip bp [0..<NINDIRECT] s) (\<lambda>_ s.
                   andthen (brelse bp s) (\<lambda>_ s.
                   andthen (bfree (idev (inodes s ip)) (iaddrs (inodes s ip) NDIRECT) s) (\<lambda>_ s.
                   Ok () (upd_inode ip (\<lambda>x. x\<lparr>iaddrs := (iaddrs x)(NDIRECT := 0)\<rparr>) s)))))
              else Ok () s) (\<lambda>_ s.
     iupdate ip (upd_inode ip (\<lambda>x. x\<lparr>isize := 0\<rparr>) s)))"

definition iput :: "nat \<Rightarrow> 'z fs_st_scheme \<Rightarrow> (unit, 'z fs_st_scheme) kres" where
  "iput ip s =
     andthen (acquiresleep (ChInodeLock ip) (inode_lock ip) (inode_lock_update ip) s) (\<lambda>_ s.
     andthen (if ivalid (inodes s ip) \<and> inlink (inodes s ip) = 0
              then andthen (acquire_icache s) (\<lambda>_ s.
                   let r = iref (inodes s ip)
                   in andthen (release_icache s) (\<lambda>_ s.
                   if r = 1
                   then andthen (itrunc ip s) (\<lambda>_ s.
                        andthen (iupdate ip (upd_inode ip (\<lambda>x. x\<lparr>itype := 0\<rparr>) s)) (\<lambda>_ s.
                        Ok () (upd_inode ip (\<lambda>x. x\<lparr>ivalid := False\<rparr>) s)))
                   else Ok () s))
              else Ok () s) (\<lambda>_ s.
     andthen (releasesleep (ChInodeLock ip) (inode_lock ip) (inode_lock_update ip) s) (\<lambda>_ s.
     andthen (acquire_icache s) (\<lambda>_ s.
     release_icache (upd_inode ip (\<lambda>x. x\<lparr>iref := iref x - 1\<rparr>) s)))))"

definition iunlockput :: "nat \<Rightarrow> 'z fs_st_scheme \<Rightarrow> (unit, 'z fs_st_scheme) kres" where
  "iunlockput ip s = andthen (iunlock (Some ip) s) (\<lambda>_ s. iput ip s)"

section \<open>Locks\<close>

interpretation ic: spin_lock icache_lock icache_lock_update
  by unfold_locales simp_all

interpretation nl: sleep_lock "inode_lock k" "inode_lock_update k" for k
  by unfold_locales (auto simp: inode_lock_def inode_lock_update_def upd_inode_def)

end
