(* ===== verification/Console.thy ===== *)
theory Console
  imports Inode
begin

text \<open>
  The console (\<^verbatim>\<open>console.c\<close>): formatted kernel output, the screen, the line-editing input ring, the device
  read and write routines, and \<^verbatim>\<open>procdump\<close> of \<^verbatim>\<open>proc.c\<close>.  The screen is CGA memory at physical address 0xb8000 with the
  cursor in a device register (\<open>crt_pos\<close>); \<open>uart_out\<close> is what has been sent to the serial port.
\<close>

section \<open>State\<close>

text \<open>The device table of \<^verbatim>\<open>file.c\<close>: the only driver of the kernel is the console.\<close>

datatype driver = NoDev | ConsoleDev

record cons_st = fs_st +
  devsw :: "nat \<Rightarrow> driver"
  cons_lock :: spinlock
  cons_locking :: bool
  panicked :: bool
  in_buf :: "u32 \<Rightarrow> u8"
  in_r :: u32
  in_w :: u32
  in_e :: u32
  crt_pos :: int
  uart_out :: "u8 list"

abbreviation (input) INPUT_BUF :: u32 where "INPUT_BUF \<equiv> 128"
abbreviation (input) BACKSPACE :: int where "BACKSPACE \<equiv> 0x100"

definition acquire_cons :: "'z cons_st_scheme \<Rightarrow> (unit, 'z cons_st_scheme) kres" where
  "acquire_cons s = acquire cons_lock cons_lock_update s"

definition release_cons :: "'z cons_st_scheme \<Rightarrow> (unit, 'z cons_st_scheme) kres" where
  "release_cons s = release cons_lock cons_lock_update s"

section \<open>Output\<close>

text \<open>The address of the screen cell \<open>pos\<close>: two bytes each, the attribute in the high byte.\<close>

definition crt :: "int \<Rightarrow> u32" where
  "crt pos = P2V 0xb8000 + 2 * of_int pos"

definition cgaputc :: "int \<Rightarrow> 'z cons_st_scheme \<Rightarrow> (unit, 'z cons_st_scheme) kres" where
  "cgaputc c s =
     (let pos = crt_pos s;
          (pos, s) =
            (if c = 10 then (pos + (80 - pos mod 80), s)
             else if c = BACKSPACE then (if pos > 0 then pos - 1 else pos, s)
             else (pos + 1, s\<lparr>mem := store16 (mem s) (crt pos) (of_int (c mod 256) OR 0x0700)\<rparr>))
      in if pos < 0 \<or> 25 * 80 < pos then Panic ''pos under/overflow'' s
         else let (pos, s) =
                (if 24 \<le> pos div 80
                 then let s = s\<lparr>mem := memmove (mem s) (crt 0) (crt 80) (2 * 23 * 80)\<rparr>;
                          pos = pos - 80;
                          s = s\<lparr>mem := memset (mem s) (crt pos) 0 (2 * of_int (24 * 80 - pos))\<rparr>
                      in (pos, s)
                 else (pos, s))
              in Ok () (s\<lparr>crt_pos := pos, mem := store16 (mem s) (crt pos) (0x20 OR 0x0700)\<rparr>))"

text \<open>A CPU that writes after a panic stops.\<close>

definition consputc :: "int \<Rightarrow> 'z cons_st_scheme \<Rightarrow> (unit, 'z cons_st_scheme) kres" where
  "consputc c s =
     (if panicked s then Spin (cli s)
      else cgaputc c (s\<lparr>uart_out := uart_out s @ (if c = BACKSPACE then [8, 32, 8] else [of_int c])\<rparr>))"

fun consputs :: "u8 list \<Rightarrow> 'z cons_st_scheme \<Rightarrow> (unit, 'z cons_st_scheme) kres" where
  "consputs [] s = Ok () s"
| "consputs (c # cs) s = andthen (consputc (uint c) s) (\<lambda>_ s. consputs cs s)"

text \<open>
  The digits that \<^verbatim>\<open>printint\<close> collects, least significant first.  The callers pass base 10 or 16.
\<close>

definition digit_char :: "u32 \<Rightarrow> u8" where
  "digit_char d = (if d < 10 then 0x30 + ucast d else 0x61 + ucast (d - 10))"

function int_digits :: "u32 \<Rightarrow> u32 \<Rightarrow> u8 list" where
  "int_digits base x =
     digit_char (x mod base) # (if base < 2 \<or> x div base = 0 then [] else int_digits base (x div base))"
  by pat_completeness auto
termination
proof (relation "measure (\<lambda>(base, x). unat x)", simp)
  fix base x :: u32
  assume "\<not> (base < 2 \<or> x div base = 0)"
  then have "1 < unat base" "unat (x div base) \<noteq> 0" by (auto simp: word_less_nat_alt unat_eq_zero)
  then have "unat x div unat base < unat x" by (intro div_less_dividend) (auto simp: unat_div intro: ccontr)
  then show "((base, x div base), base, x) \<in> measure (\<lambda>(base, x). unat x)" by (simp add: unat_div)
qed

declare int_digits.simps [simp del]

text \<open>\<open>sg\<close> asks for a signed number; the negation of the most negative number wraps to itself.\<close>

definition printint_chars :: "u32 \<Rightarrow> u32 \<Rightarrow> bool \<Rightarrow> u8 list" where
  "printint_chars xx base sg =
     (let neg = (sg \<and> sint xx < 0); x = (if neg then - xx else xx)
      in rev (int_digits base x @ (if neg then [0x2d] else [])))"

definition printint :: "u32 \<Rightarrow> u32 \<Rightarrow> bool \<Rightarrow> 'z cons_st_scheme \<Rightarrow> (unit, 'z cons_st_scheme) kres" where
  "printint xx base sg s = consputs (printint_chars xx base sg) s"

text \<open>A NUL-terminated string in kernel memory; a loop that finds no NUL does not end.\<close>

definition put_cstr :: "u32 \<Rightarrow> 'z cons_st_scheme \<Rightarrow> (unit, 'z cons_st_scheme) kres" where
  "put_cstr a s =
     (case strlen (mem s) a of None \<Rightarrow> Spin s
      | Some n \<Rightarrow> consputs (map (\<lambda>i. mem s (a + of_nat i)) [0..<n]) s)"

text \<open>
  The format loop of \<^verbatim>\<open>cprintf\<close>; \<open>argp\<close> holds the argument words from the current one on.  The characters
  are \<^verbatim>\<open>%\<close> 0x25, \<^verbatim>\<open>d\<close> 0x64, \<^verbatim>\<open>x\<close> 0x78, \<^verbatim>\<open>p\<close> 0x70, \<^verbatim>\<open>s\<close> 0x73; the bytes after a null string argument spell \<^verbatim>\<open>(null)\<close>.
\<close>

fun cprintf_loop :: "u8 list \<Rightarrow> (nat \<Rightarrow> u32) \<Rightarrow> 'z cons_st_scheme \<Rightarrow> (unit, 'z cons_st_scheme) kres" where
  "cprintf_loop [] argp s = Ok () s"
| "cprintf_loop (c # cs) argp s =
     (if c \<noteq> 0x25 then andthen (consputc (uint c) s) (\<lambda>_ s. cprintf_loop cs argp s)
      else case cs of
        [] \<Rightarrow> Ok () s
      | d # ds \<Rightarrow>
          if d = 0x64
          then andthen (printint (argp 0) 10 True s) (\<lambda>_ s. cprintf_loop ds (\<lambda>i. argp (i + 1)) s)
          else if d = 0x78 \<or> d = 0x70
          then andthen (printint (argp 0) 16 False s) (\<lambda>_ s. cprintf_loop ds (\<lambda>i. argp (i + 1)) s)
          else if d = 0x73
          then andthen (if argp 0 = 0 then consputs [0x28, 0x6e, 0x75, 0x6c, 0x6c, 0x29] s
                        else put_cstr (argp 0) s) (\<lambda>_ s. cprintf_loop ds (\<lambda>i. argp (i + 1)) s)
          else if d = 0x25
          then andthen (consputc 0x25 s) (\<lambda>_ s. cprintf_loop ds argp s)
          else andthen (consputc 0x25 s) (\<lambda>_ s. andthen (consputc (uint d) s) (\<lambda>_ s. cprintf_loop ds argp s)))"

text \<open>The format is given by the bytes before its NUL; a null format is \<open>None\<close>.\<close>

definition cprintf :: "u8 list option \<Rightarrow> (nat \<Rightarrow> u32) \<Rightarrow> 'z cons_st_scheme \<Rightarrow> (unit, 'z cons_st_scheme) kres" where
  "cprintf fmt argp s =
     (let locking = cons_locking s
      in andthen (if locking then acquire_cons s else Ok () s) (\<lambda>_ s.
         case fmt of None \<Rightarrow> Panic ''null fmt'' s
         | Some cs \<Rightarrow>
           andthen (cprintf_loop cs argp s) (\<lambda>_ s. if locking then release_cons s else Ok () s)))"

section \<open>Process listing\<close>

definition bytes :: "string \<Rightarrow> u8 list" where
  "bytes cs = map of_char cs"

text \<open>A string that a \<^verbatim>\<open>%s\<close> prints, written into the format itself: a percent sign is doubled.\<close>

definition spliced :: "string \<Rightarrow> u8 list" where
  "spliced cs = concat (map (\<lambda>c. if c = 0x25 then [c, c] else [c]) (bytes cs))"

text \<open>\<open>state_name\<close> is the table \<^verbatim>\<open>states\<close> of \<^verbatim>\<open>procdump\<close>.\<close>

fun state_name :: "procstate \<Rightarrow> string" where
  "state_name UNUSED = ''unused''"
| "state_name EMBRYO = ''embryo''"
| "state_name SLEEPING = ''sleep ''"
| "state_name RUNNABLE = ''runble''"
| "state_name RUNNING = ''run   ''"
| "state_name ZOMBIE = ''zombie''"

text \<open>
  Each \<^verbatim>\<open>cprintf\<close> call takes and releases the console lock on its own.  The format \<^verbatim>\<open>"%d %s %s"\<close> is given with its
  string arguments in place.
\<close>

fun procdump_pcs :: "u32 list \<Rightarrow> 'z cons_st_scheme \<Rightarrow> (unit, 'z cons_st_scheme) kres" where
  "procdump_pcs [] s = Ok () s"
| "procdump_pcs (pc # pcs) s =
     (if pc = 0 then Ok () s
      else andthen (cprintf (Some (bytes '' %p'')) (\<lambda>_. pc) s) (\<lambda>_ s. procdump_pcs pcs s))"

fun procdump_loop :: "nat list \<Rightarrow> 'z cons_st_scheme \<Rightarrow> (unit, 'z cons_st_scheme) kres" where
  "procdump_loop [] s = Ok () s"
| "procdump_loop (i # is) s =
     (let p = ptable s ! i
      in if state p = UNUSED then procdump_loop is s
         else andthen (cprintf (Some (bytes ''%d '' @ spliced (state_name (state p)) @ bytes '' '' @ spliced (pname p)))
                        (\<lambda>_. of_int (pid p)) s) (\<lambda>_ s.
              andthen (if state p = SLEEPING
                       then procdump_pcs (getcallerpcs (mem s) (load32 (mem s) (ctx p + 12) + 8)) s
                       else Ok () s) (\<lambda>_ s.
              andthen (cprintf (Some [10]) (\<lambda>_. 0) s) (\<lambda>_ s. procdump_loop is s))))"

definition procdump :: "'z cons_st_scheme \<Rightarrow> (unit, 'z cons_st_scheme) kres" where
  "procdump s = procdump_loop [0..<NPROC] s"

section \<open>Input\<close>

lemma consputc_frame:
  assumes "consputc c s = Ok r t"
  shows "in_e t = in_e s" "in_w t = in_w s" "in_r t = in_r s" "in_buf t = in_buf s"
  using assms by (auto simp: consputc_def cgaputc_def Let_def split: if_splits)

text \<open>The kill-line loop: erase back to the start of the line.\<close>

function kill_line :: "'z cons_st_scheme \<Rightarrow> (unit, 'z cons_st_scheme) kres" where
  "kill_line s =
     (if in_e s \<noteq> in_w s \<and> in_buf s ((in_e s - 1) mod INPUT_BUF) \<noteq> 10
      then andthen (consputc BACKSPACE (s\<lparr>in_e := in_e s - 1\<rparr>)) (\<lambda>_ s. kill_line s)
      else Ok () s)"
  by pat_completeness auto
termination
proof (relation "measure (\<lambda>s. unat (in_e s - in_w s))", simp)
  fix s t :: "'z cons_st_scheme" and r
  assume a: "in_e s \<noteq> in_w s \<and> in_buf s ((in_e s - 1) mod INPUT_BUF) \<noteq> 10"
    and c: "consputc BACKSPACE (s\<lparr>in_e := in_e s - 1\<rparr>) = Ok r t"
  have "in_e s - in_w s \<noteq> 0" using a by simp
  then have "unat (in_e s - in_w s - 1) < unat (in_e s - in_w s)" by (simp add: unat_minus_one unat_gt_0)
  moreover have "in_e t - in_w t = in_e s - in_w s - 1" using consputc_frame [OF c] by simp
  ultimately show "(t, s) \<in> measure (\<lambda>s. unat (in_e s - in_w s))" by simp
qed

declare kill_line.simps [simp del]

text \<open>
  One character from \<^verbatim>\<open>getc\<close>: control-P 0x10, control-U 0x15, control-H 8, delete 0x7f, control-D 4.  The result says
  whether a process listing is due.
\<close>

definition consoleintr_char :: "int \<Rightarrow> 'z cons_st_scheme \<Rightarrow> (bool, 'z cons_st_scheme) kres" where
  "consoleintr_char c s =
     (if c = 0x10 then Ok True s
      else if c = 0x15 then andthen (kill_line s) (\<lambda>_ s. Ok False s)
      else if c = 8 \<or> c = 0x7f
      then (if in_e s \<noteq> in_w s
            then andthen (consputc BACKSPACE (s\<lparr>in_e := in_e s - 1\<rparr>)) (\<lambda>_ s. Ok False s)
            else Ok False s)
      else if c \<noteq> 0 \<and> in_e s - in_r s < INPUT_BUF
      then let c = (if c = 13 then 10 else c);
               s = s\<lparr>in_buf := (in_buf s)(in_e s mod INPUT_BUF := of_int c)\<rparr>;
               s = s\<lparr>in_e := in_e s + 1\<rparr>
           in andthen (consputc c s) (\<lambda>_ s.
              if c = 10 \<or> c = 4 \<or> in_e s = in_r s + INPUT_BUF
              then andthen (wakeup (Some ChInput) (s\<lparr>in_w := in_e s\<rparr>)) (\<lambda>_ s. Ok False s)
              else Ok False s)
      else Ok False s)"

fun consoleintr_loop :: "int list \<Rightarrow> bool \<Rightarrow> 'z cons_st_scheme \<Rightarrow> (bool, 'z cons_st_scheme) kres" where
  "consoleintr_loop [] dump s = Ok dump s"
| "consoleintr_loop (c # cs) dump s =
     (if c < 0 then Ok dump s
      else andthen (consoleintr_char c s) (\<lambda>d s. consoleintr_loop cs (dump \<or> d) s))"

text \<open>The argument is the sequence of values that \<^verbatim>\<open>getc\<close> returns.\<close>

definition consoleintr :: "int list \<Rightarrow> 'z cons_st_scheme \<Rightarrow> (unit, 'z cons_st_scheme) kres" where
  "consoleintr cs s =
     andthen (acquire_cons s) (\<lambda>_ s.
     andthen (consoleintr_loop cs False s) (\<lambda>dump s.
     andthen (release_cons s) (\<lambda>_ s.
     if dump then procdump s else Ok () s)))"

text \<open>
  The loop of \<^verbatim>\<open>consoleread\<close> with \<open>n\<close> bytes still wanted; the number of bytes missing at the end, or \<open>None\<close> for
  the early return of -1.
\<close>

fun consoleread_loop :: "nat \<Rightarrow> u32 \<Rightarrow> nat \<Rightarrow> 'z cons_st_scheme \<Rightarrow> (nat option, 'z cons_st_scheme) kres" where
  "consoleread_loop target dst 0 s = Ok (Some 0) s"
| "consoleread_loop target dst (Suc n) s =
     (if in_r s = in_w s then
        andthen (myproc s) (\<lambda>p s.
        andthen (proc_ptr p s) (\<lambda>i s.
        if killed (ptable s ! i) then Ok None s
        else sleep (Some ChInput) (Some (OtherLock cons_lock cons_lock_update)) s))
      else let c = in_buf s (in_r s mod INPUT_BUF);
               s = s\<lparr>in_r := in_r s + 1\<rparr>
           in if c = 4
              then Ok (Some (Suc n)) (if Suc n < target then s\<lparr>in_r := in_r s - 1\<rparr> else s)
              else andthen (uwrite dst [c] s) (\<lambda>_ s.
                   if c = 10 then Ok (Some n) s else consoleread_loop target (dst + 1) n s))"

definition consoleread :: "nat \<Rightarrow> u32 \<Rightarrow> int \<Rightarrow> 'z cons_st_scheme \<Rightarrow> (int, 'z cons_st_scheme) kres" where
  "consoleread ip dst n s =
     andthen (iunlock (Some ip) s) (\<lambda>_ s.
     andthen (acquire_cons s) (\<lambda>_ s.
     andthen (consoleread_loop (nat n) dst (nat n) s) (\<lambda>r s.
     andthen (release_cons s) (\<lambda>_ s.
     andthen (ilock (Some ip) s) (\<lambda>_ s.
     case r of None \<Rightarrow> Ok (- 1) s
     | Some missing \<Rightarrow> Ok (if n \<le> 0 then 0 else n - int missing) s)))))"

fun consolewrite_loop :: "u32 \<Rightarrow> nat \<Rightarrow> 'z cons_st_scheme \<Rightarrow> (unit, 'z cons_st_scheme) kres" where
  "consolewrite_loop src 0 s = Ok () s"
| "consolewrite_loop src (Suc n) s =
     andthen (deref8 src s) (\<lambda>c s.
     andthen (consputc (uint c) s) (\<lambda>_ s. consolewrite_loop (src + 1) n s))"

definition consolewrite :: "nat \<Rightarrow> u32 \<Rightarrow> int \<Rightarrow> 'z cons_st_scheme \<Rightarrow> (int, 'z cons_st_scheme) kres" where
  "consolewrite ip src n s =
     andthen (iunlock (Some ip) s) (\<lambda>_ s.
     andthen (acquire_cons s) (\<lambda>_ s.
     andthen (consolewrite_loop src (nat n) s) (\<lambda>_ s.
     andthen (release_cons s) (\<lambda>_ s.
     andthen (ilock (Some ip) s) (\<lambda>_ s. Ok n s)))))"

definition consoleinit :: "'z cons_st_scheme \<Rightarrow> 'z cons_st_scheme" where
  "consoleinit s = s\<lparr>cons_lock := initlock ''console'' (cons_lock s), devsw := (devsw s)(1 := ConsoleDev),
     cons_locking := True\<rparr>"

end
