(* ===== verification/Fs.thy ===== *)
theory Fs
  imports Console
begin

text \<open>
  The upper half of \<^verbatim>\<open>fs.c\<close>: file contents, directories and path names.  The transfer loops produce and
  consume lists of bytes; \<open>readi\<close> and \<open>writei\<close> copy them block by block to and from the memory of the process.  A path and a path element are given by the
  bytes before their NUL; a null inode pointer is \<open>None\<close>.
\<close>

abbreviation (input) T_DIR :: u16 where "T_DIR \<equiv> 1"
abbreviation (input) T_FILE :: u16 where "T_FILE \<equiv> 2"
abbreviation (input) T_DEV :: u16 where "T_DEV \<equiv> 3"
abbreviation (input) ROOTDEV :: u32 where "ROOTDEV \<equiv> 1"
abbreviation (input) ROOTINO :: u32 where "ROOTINO \<equiv> 1"

section \<open>Inode contents\<close>

text \<open>\<^verbatim>\<open>struct stat\<close>, filled by \<open>stati\<close>.\<close>

record stat =
  st_type :: u16
  st_dev :: u32
  st_ino :: u32
  st_nlink :: u16
  st_size :: u32

definition stati :: "nat \<Rightarrow> 'z fs_st_scheme \<Rightarrow> stat" where
  "stati ip s = \<lparr>st_type = itype (inodes s ip), st_dev = idev (inodes s ip), st_ino = inum (inodes s ip),
     st_nlink = inlink (inodes s ip), st_size = isize (inodes s ip)\<rparr>"

text \<open>The part of a block that one round of the transfer loops moves: \<^verbatim>\<open>min(n - tot, BSIZE - off%BSIZE)\<close>.\<close>

definition chunk :: "u32 \<Rightarrow> u32 \<Rightarrow> u32" where
  "chunk left off = (if left < BSIZE - off mod BSIZE then left else BSIZE - off mod BSIZE)"

lemma chunk_pos: "left \<noteq> 0 \<Longrightarrow> 0 < unat (chunk left off) \<and> chunk left off \<le> left"
proof -
  assume "left \<noteq> 0"
  moreover have "off mod BSIZE < BSIZE" by (simp add: word_less_nat_alt unat_mod)
  then have "BSIZE - off mod BSIZE \<noteq> 0" by auto
  ultimately show ?thesis by (auto simp: chunk_def unat_gt_0)
qed

lemma chunk_less: "left \<noteq> 0 \<Longrightarrow> unat (left - chunk left off) < unat left"
  using chunk_pos [of left off] by (simp add: unat_sub word_le_nat_alt)

text \<open>The loop of \<^verbatim>\<open>readi\<close> with \<open>left\<close> bytes to go; it returns them.\<close>

function readi_loop :: "nat \<Rightarrow> u32 \<Rightarrow> u32 \<Rightarrow> 'z fs_st_scheme \<Rightarrow> (u8 list, 'z fs_st_scheme) kres" where
  "readi_loop ip off left s =
     (if left = 0 then Ok [] s
      else andthen (bmap ip (off div BSIZE) s) (\<lambda>bno s.
           andthen (bread (idev (inodes s ip)) bno s) (\<lambda>bp s.
           let m = chunk left off;
               bs = map (\<lambda>i. bdata (bufs s bp) (off mod BSIZE + of_nat i)) [0..<unat m]
           in andthen (brelse bp s) (\<lambda>_ s.
              andthen (readi_loop ip (off + m) (left - m) s) (\<lambda>cs s. Ok (bs @ cs) s)))))"
  by pat_completeness auto
termination
  by (relation "measure (\<lambda>(ip, off, left, s). unat left)") (simp_all add: chunk_less)

declare readi_loop.simps [simp del]

text \<open>\<^verbatim>\<open>readi\<close> on an inode that is no device: \<open>None\<close> is the return value -1.\<close>

definition readi_data :: "nat \<Rightarrow> u32 \<Rightarrow> u32 \<Rightarrow> 'z fs_st_scheme \<Rightarrow> (u8 list option, 'z fs_st_scheme) kres" where
  "readi_data ip off n s =
     (let size = isize (inodes s ip)
      in if size < off \<or> off + n < off then Ok None s
         else let n = (if size < off + n then size - off else n)
              in andthen (readi_loop ip off n s) (\<lambda>bs s. Ok (Some bs) s))"

text \<open>
  The same loop with its \<^verbatim>\<open>memmove\<close> to the buffer at \<open>dst\<close> of the caller.  \<^verbatim>\<open>readi\<close> and \<^verbatim>\<open>writei\<close> work on user
  memory; the kernel's own callers, whose buffer is a local variable, use \<open>readi_data\<close> and \<open>writei_data\<close>.
\<close>

function readi_copy :: "nat \<Rightarrow> u32 \<Rightarrow> u32 \<Rightarrow> u32 \<Rightarrow> 'z fs_st_scheme \<Rightarrow> (unit, 'z fs_st_scheme) kres" where
  "readi_copy ip dst off left s =
     (if left = 0 then Ok () s
      else andthen (bmap ip (off div BSIZE) s) (\<lambda>bno s.
           andthen (bread (idev (inodes s ip)) bno s) (\<lambda>bp s.
           let m = chunk left off;
               bs = map (\<lambda>i. bdata (bufs s bp) (off mod BSIZE + of_nat i)) [0..<unat m]
           in andthen (uwrite dst bs s) (\<lambda>_ s.
              andthen (brelse bp s) (\<lambda>_ s.
              readi_copy ip (dst + m) (off + m) (left - m) s)))))"
  by pat_completeness auto
termination
  by (relation "measure (\<lambda>(ip, dst, off, left, s). unat left)") (simp_all add: chunk_less)

declare readi_copy.simps [simp del]

definition readi :: "nat \<Rightarrow> u32 \<Rightarrow> u32 \<Rightarrow> u32 \<Rightarrow> 'z cons_st_scheme \<Rightarrow> (int, 'z cons_st_scheme) kres" where
  "readi ip dst off n s =
     (if itype (inodes s ip) = T_DEV then
        (let maj = sint (imajor (inodes s ip))
         in if maj < 0 \<or> 10 \<le> maj \<or> devsw s (nat maj) = NoDev then Ok (- 1) s
            else consoleread ip dst (sint n) s)
      else let size = isize (inodes s ip)
           in if size < off \<or> off + n < off then Ok (- 1) s
              else let n = (if size < off + n then size - off else n)
                   in andthen (readi_copy ip dst off n s) (\<lambda>_ s. Ok (sint n) s))"

function writei_loop :: "nat \<Rightarrow> u8 list \<Rightarrow> u32 \<Rightarrow> u32 \<Rightarrow> 'z fs_st_scheme \<Rightarrow> (u32, 'z fs_st_scheme) kres" where
  "writei_loop ip src off left s =
     (if left = 0 then Ok off s
      else andthen (bmap ip (off div BSIZE) s) (\<lambda>bno s.
           andthen (bread (idev (inodes s ip)) bno s) (\<lambda>bp s.
           let m = chunk left off;
               s = upd_buf bp (\<lambda>x. x\<lparr>bdata := put_bytes (bdata x) (off mod BSIZE) (take (unat m) src)\<rparr>) s
           in andthen (log_write bp s) (\<lambda>_ s.
              andthen (brelse bp s) (\<lambda>_ s.
              writei_loop ip (drop (unat m) src) (off + m) (left - m) s)))))"
  by pat_completeness auto
termination
  by (relation "measure (\<lambda>(ip, src, off, left, s). unat left)") (simp_all add: chunk_less)

declare writei_loop.simps [simp del]

text \<open>\<^verbatim>\<open>MAXFILE*BSIZE\<close> is 140 blocks.\<close>

definition writei_data :: "nat \<Rightarrow> u8 list \<Rightarrow> u32 \<Rightarrow> u32 \<Rightarrow> 'z fs_st_scheme \<Rightarrow> (int, 'z fs_st_scheme) kres" where
  "writei_data ip src off n s =
     (if isize (inodes s ip) < off \<or> off + n < off then Ok (- 1) s
      else if 140 * BSIZE < off + n then Ok (- 1) s
      else andthen (writei_loop ip src off n s) (\<lambda>off s.
           andthen (if 0 < n \<and> isize (inodes s ip) < off
                    then iupdate ip (upd_inode ip (\<lambda>x. x\<lparr>isize := off\<rparr>) s)
                    else Ok () s) (\<lambda>_ s. Ok (sint n) s)))"

function writei_copy :: "nat \<Rightarrow> u32 \<Rightarrow> u32 \<Rightarrow> u32 \<Rightarrow> 'z fs_st_scheme \<Rightarrow> (u32, 'z fs_st_scheme) kres" where
  "writei_copy ip src off left s =
     (if left = 0 then Ok off s
      else andthen (bmap ip (off div BSIZE) s) (\<lambda>bno s.
           andthen (bread (idev (inodes s ip)) bno s) (\<lambda>bp s.
           let m = chunk left off
           in andthen (uread src (unat m) s) (\<lambda>cs s.
              let s = upd_buf bp (\<lambda>x. x\<lparr>bdata := put_bytes (bdata x) (off mod BSIZE) cs\<rparr>) s
              in andthen (log_write bp s) (\<lambda>_ s.
                 andthen (brelse bp s) (\<lambda>_ s.
                 writei_copy ip (src + m) (off + m) (left - m) s))))))"
  by pat_completeness auto
termination
  by (relation "measure (\<lambda>(ip, src, off, left, s). unat left)") (simp_all add: chunk_less)

declare writei_copy.simps [simp del]

definition writei :: "nat \<Rightarrow> u32 \<Rightarrow> u32 \<Rightarrow> u32 \<Rightarrow> 'z cons_st_scheme \<Rightarrow> (int, 'z cons_st_scheme) kres" where
  "writei ip src off n s =
     (if itype (inodes s ip) = T_DEV then
        (let maj = sint (imajor (inodes s ip))
         in if maj < 0 \<or> 10 \<le> maj \<or> devsw s (nat maj) = NoDev then Ok (- 1) s
            else consolewrite ip src (sint n) s)
      else if isize (inodes s ip) < off \<or> off + n < off then Ok (- 1) s
      else if 140 * BSIZE < off + n then Ok (- 1) s
      else andthen (writei_copy ip src off n s) (\<lambda>off s.
           andthen (if 0 < n \<and> isize (inodes s ip) < off
                    then iupdate ip (upd_inode ip (\<lambda>x. x\<lparr>isize := off\<rparr>) s)
                    else Ok () s) (\<lambda>_ s. Ok (sint n) s)))"

section \<open>Directories\<close>

abbreviation DIRSIZ :: nat where "DIRSIZ \<equiv> 14"

text \<open>\<^verbatim>\<open>strncmp\<close> on strings given by their bytes: a missing byte reads as NUL.\<close>

fun strncmp_bytes :: "nat \<Rightarrow> u8 list \<Rightarrow> u8 list \<Rightarrow> int" where
  "strncmp_bytes 0 p q = 0"
| "strncmp_bytes (Suc n) p q =
     (let a = (case p of [] \<Rightarrow> 0 | x # _ \<Rightarrow> x); b = (case q of [] \<Rightarrow> 0 | x # _ \<Rightarrow> x)
      in if a \<noteq> 0 \<and> a = b then strncmp_bytes n (tl p) (tl q) else uint a - uint b)"

definition namecmp :: "u8 list \<Rightarrow> u8 list \<Rightarrow> int" where
  "namecmp s t = strncmp_bytes DIRSIZ s t"

text \<open>\<^verbatim>\<open>struct dirent\<close>: the inode number in the first two of 16 bytes, then the name.\<close>

definition de_inum :: "u8 list \<Rightarrow> u16" where
  "de_inum e = ucast (e ! 0) OR push_bit 8 (ucast (e ! 1))"

definition de_name :: "u8 list \<Rightarrow> u8 list" where
  "de_name e = take DIRSIZ (drop 2 e)"

definition make_dirent :: "u16 \<Rightarrow> u8 list \<Rightarrow> u8 list" where
  "make_dirent n name = [ucast n, ucast (drop_bit 8 n)]
     @ take DIRSIZ (takeWhile (\<lambda>c. c \<noteq> 0) name @ replicate DIRSIZ 0)"

text \<open>The scan of \<^verbatim>\<open>dirlookup\<close>, over the remaining entry offsets; the result is the inode and the offset.\<close>

fun dirlookup_loop :: "nat \<Rightarrow> u8 list \<Rightarrow> nat list \<Rightarrow> 'z fs_st_scheme \<Rightarrow> ((nat \<times> u32) option, 'z fs_st_scheme) kres" where
  "dirlookup_loop dp name [] s = Ok None s"
| "dirlookup_loop dp name (off # offs) s =
     andthen (readi_data dp (of_nat off) 16 s) (\<lambda>r s.
     case r of None \<Rightarrow> Panic ''dirlookup read'' s
     | Some e \<Rightarrow>
       if length e \<noteq> 16 then Panic ''dirlookup read'' s
       else if de_inum e \<noteq> 0 \<and> namecmp name (de_name e) = 0
       then andthen (iget (idev (inodes s dp)) (ucast (de_inum e)) s) (\<lambda>ip s. Ok (Some (ip, of_nat off)) s)
       else dirlookup_loop dp name offs s)"

text \<open>The offsets 0, 16, ... below the size of the directory.\<close>

definition dir_offsets :: "u32 \<Rightarrow> nat list" where
  "dir_offsets n = map (\<lambda>k. 16 * k) [0..<(unat n + 15) div 16]"

definition dirlookup :: "nat \<Rightarrow> u8 list \<Rightarrow> 'z fs_st_scheme \<Rightarrow> ((nat \<times> u32) option, 'z fs_st_scheme) kres" where
  "dirlookup dp name s =
     (if itype (inodes s dp) \<noteq> T_DIR then Panic ''dirlookup not DIR'' s
      else dirlookup_loop dp name (dir_offsets (isize (inodes s dp))) s)"

text \<open>The search of \<^verbatim>\<open>dirlink\<close> for a free entry; it ends at the size of the directory.\<close>

fun dirlink_slot :: "nat \<Rightarrow> nat list \<Rightarrow> 'z fs_st_scheme \<Rightarrow> (nat option, 'z fs_st_scheme) kres" where
  "dirlink_slot dp [] s = Ok None s"
| "dirlink_slot dp (off # offs) s =
     andthen (readi_data dp (of_nat off) 16 s) (\<lambda>r s.
     case r of None \<Rightarrow> Panic ''dirlink read'' s
     | Some e \<Rightarrow>
       if length e \<noteq> 16 then Panic ''dirlink read'' s
       else if de_inum e = 0 then Ok (Some off) s
       else dirlink_slot dp offs s)"

definition dirlink :: "nat \<Rightarrow> u8 list \<Rightarrow> u32 \<Rightarrow> 'z fs_st_scheme \<Rightarrow> (int, 'z fs_st_scheme) kres" where
  "dirlink dp name n s =
     andthen (dirlookup dp name s) (\<lambda>r s.
     case r of Some (ip, _) \<Rightarrow> andthen (iput ip s) (\<lambda>_ s. Ok (- 1) s)
     | None \<Rightarrow>
       andthen (dirlink_slot dp (dir_offsets (isize (inodes s dp))) s) (\<lambda>r s.
       let off = (case r of Some off \<Rightarrow> off | None \<Rightarrow> 16 * ((unat (isize (inodes s dp)) + 15) div 16))
       in andthen (writei_data dp (make_dirent (ucast n) name) (of_nat off) 16 s) (\<lambda>r s.
          if r \<noteq> 16 then Panic ''dirlink'' s else Ok 0 s)))"

section \<open>Paths\<close>

text \<open>\<open>skipelem path\<close> is the first element, at most \<open>DIRSIZ\<close> bytes of it, and the rest of the path.\<close>

definition skipelem :: "u8 list \<Rightarrow> (u8 list \<times> u8 list) option" where
  "skipelem path =
     (let path = dropWhile (\<lambda>c. c = 0x2f) path
      in if path = [] then None
         else let elem = takeWhile (\<lambda>c. c \<noteq> 0x2f) path;
                  rest = dropWhile (\<lambda>c. c \<noteq> 0x2f) path
              in Some (take DIRSIZ elem, dropWhile (\<lambda>c. c = 0x2f) rest))"

lemma skipelem_shorter: "skipelem path = Some (name, rest) \<Longrightarrow> length rest < length path"
proof -
  assume s: "skipelem path = Some (name, rest)"
  let ?p = "dropWhile (\<lambda>c. c = 0x2f) path"
  from s have p: "?p \<noteq> []" and r: "rest = dropWhile (\<lambda>c. c = 0x2f) (dropWhile (\<lambda>c. c \<noteq> 0x2f) ?p)"
    by (auto simp: skipelem_def Let_def split: if_splits)
  have "hd ?p \<noteq> 0x2f" using p by (rule hd_dropWhile)
  then have "length (dropWhile (\<lambda>c. c \<noteq> 0x2f) ?p) < length ?p"
    using p by (cases ?p) (auto intro: le_imp_less_Suc length_dropWhile_le)
  moreover have "length rest \<le> length (dropWhile (\<lambda>c. c \<noteq> 0x2f) ?p)" unfolding r by (rule length_dropWhile_le)
  moreover have "length ?p \<le> length path" by (rule length_dropWhile_le)
  ultimately show ?thesis by simp
qed

text \<open>The loop of \<^verbatim>\<open>namex\<close>; \<open>par\<close> is the argument \<^verbatim>\<open>nameiparent\<close>, and the final element is returned with the inode.\<close>

function namex_loop :: "nat \<Rightarrow> u8 list \<Rightarrow> bool \<Rightarrow> u8 list \<Rightarrow> 'z fs_st_scheme \<Rightarrow> ((nat \<times> u8 list) option, 'z fs_st_scheme) kres" where
  "namex_loop ip path par name0 s =
     (case skipelem path of
        None \<Rightarrow> if par then andthen (iput ip s) (\<lambda>_ s. Ok None s) else Ok (Some (ip, name0)) s
      | Some (name, path) \<Rightarrow>
        andthen (ilock (Some ip) s) (\<lambda>_ s.
        if itype (inodes s ip) \<noteq> T_DIR then andthen (iunlockput ip s) (\<lambda>_ s. Ok None s)
        else if par \<and> path = [] then andthen (iunlock (Some ip) s) (\<lambda>_ s. Ok (Some (ip, name)) s)
        else andthen (dirlookup ip name s) (\<lambda>r s.
             andthen (iunlockput ip s) (\<lambda>_ s.
             case r of None \<Rightarrow> Ok None s
             | Some (nxt, _) \<Rightarrow> namex_loop nxt path par name s))))"
  by pat_completeness auto
termination
  by (relation "measure (\<lambda>(ip, path, par, name, s). length path)") (auto dest: skipelem_shorter)

declare namex_loop.simps [simp del]

definition namex :: "u8 list \<Rightarrow> bool \<Rightarrow> 'z fs_st_scheme \<Rightarrow> ((nat \<times> u8 list) option, 'z fs_st_scheme) kres" where
  "namex path par s =
     andthen (if path \<noteq> [] \<and> hd path = 0x2f then iget ROOTDEV ROOTINO s
              else andthen (myproc s) (\<lambda>p s.
                   andthen (proc_ptr p s) (\<lambda>i s.
                   andthen (proc_ptr (cwd (ptable s ! i)) s) (\<lambda>ip s. idup ip s)))) (\<lambda>ip s.
     namex_loop ip path par [] s)"

definition namei :: "u8 list \<Rightarrow> 'z fs_st_scheme \<Rightarrow> (nat option, 'z fs_st_scheme) kres" where
  "namei path s = andthen (namex path False s) (\<lambda>r s. Ok (map_option fst r) s)"

definition nameiparent :: "u8 list \<Rightarrow> 'z fs_st_scheme \<Rightarrow> ((nat \<times> u8 list) option, 'z fs_st_scheme) kres" where
  "nameiparent path s = namex path True s"

end
