(* ===== verification/Ring.thy ===== *)
theory Ring
  imports Prelude
begin

text \<open>
  Ring buffers with free-running 32-bit counters, as \<^verbatim>\<open>pipe.c\<close> and \<^verbatim>\<open>console.c\<close> use them: the byte with number \<open>n\<close>
  is kept in cell \<open>n mod N\<close>, the counters only ever increase (and wrap), and the buffer holds the bytes between
  them.  The size is a power of two, so that the wrap of the counters is invisible.  The locale
  \<open>bounded_queue\<close> is the interface of a queue of bounded capacity.
\<close>

section \<open>The contents of a ring\<close>

definition ring :: "u32 \<Rightarrow> (u32 \<Rightarrow> 'a) \<Rightarrow> u32 \<Rightarrow> u32 \<Rightarrow> 'a list" where
  "ring N buf r w = map (\<lambda>i. buf ((r + of_nat i) mod N)) [0..<unat (w - r)]"

lemma length_ring [simp]: "length (ring N buf r w) = unat (w - r)"
  by (simp add: ring_def)

lemma ring_empty_iff [simp]: "ring N buf r w = [] \<longleftrightarrow> r = w"
  by (auto simp: ring_def unat_eq_zero)

lemma ring_self [simp]: "ring N buf r r = []"
  by simp

lemma unat_cell:
  fixes r :: u32
  assumes "k < 32"
  shows "unat ((r + of_nat i) mod 2 ^ k) = (unat r + i) mod 2 ^ k"
proof -
  have d: "(2 :: nat) ^ k dvd 2 ^ 32" using assms by (intro le_imp_power_dvd) simp
  have "(2 :: nat) ^ k < 2 ^ 32" using assms by (intro power_strict_increasing) auto
  then have p: "unat ((2 :: u32) ^ k) = 2 ^ k" using unat_of_nat_u32 [of "2 ^ k"] by simp
  have "unat (r + of_nat i) = (unat r + i) mod 2 ^ 32"
    by (simp add: unat_word_ariths unsigned_of_nat take_bit_eq_mod mod_add_right_eq)
  then show ?thesis by (simp only: unat_mod p mod_mod_cancel [OF d])
qed

lemma ring_cells_distinct:
  fixes r :: u32
  assumes "k < 32" "i < j" "j < 2 ^ k + i"
  shows "(r + of_nat i) mod 2 ^ k \<noteq> (r + of_nat j) mod 2 ^ k"
proof
  assume "(r + of_nat i) mod 2 ^ k = (r + of_nat j) mod 2 ^ k"
  then have "(unat r + j) mod 2 ^ k = (unat r + i) mod 2 ^ k"
    using unat_cell [OF assms(1)] by metis
  then have "(2 :: nat) ^ k dvd j - i" using assms(2) by (simp add: mod_eq_dvd_iff_nat)
  with assms show False by (auto dest: dvd_imp_le)
qed

text \<open>Adding at the write counter, taking at the read counter, and taking back at the write counter.\<close>

lemma ring_put:
  fixes r w :: u32
  assumes "k < 32" "unat (w - r) < 2 ^ k"
  shows "ring (2 ^ k) (buf(w mod 2 ^ k := c)) r (w + 1) = ring (2 ^ k) buf r w @ [c]"
proof -
  have "(2 :: nat) ^ k \<le> 2 ^ 31" using assms(1) by (intro power_increasing) auto
  then have lt: "unat (w - r) < 2 ^ 31" using assms(2) by linarith
  have u: "unat (w + 1 - r) = Suc (unat (w - r))"
  proof -
    have "unat (1 + (w - r)) = Suc (unat (w - r))"
      by (rule unatSuc) (use lt in \<open>auto simp: unat_word_ariths unat_eq_zero [symmetric]\<close>)
    then show ?thesis by (simp add: algebra_simps)
  qed
  have w: "w = r + of_nat (unat (w - r))" by simp
  have "(r + of_nat i) mod 2 ^ k \<noteq> w mod 2 ^ k" if "i < unat (w - r)" for i
    using ring_cells_distinct [OF assms(1) that, of r] assms(2) w by simp
  then show ?thesis by (simp add: ring_def u)
qed

lemma ring_get:
  assumes "r \<noteq> w"
  shows "ring N buf r w = buf (r mod N) # ring N buf (r + 1) w"
proof -
  have "0 < unat (w - r)" using assms by (simp add: unat_gt_0)
  moreover have "unat (w - (r + 1)) = unat (w - r) - 1"
    using assms unat_minus_one [of "w - r"] by (simp add: algebra_simps)
  ultimately have u: "unat (w - r) = Suc (unat (w - (r + 1)))" by simp
  show ?thesis
    by (rule nth_equalityI) (auto simp: ring_def u nth_Cons' add.assoc of_nat_diff simp del: upt_Suc)
qed

lemma ring_take_back:
  assumes "r \<noteq> w"
  shows "ring N buf r (w - 1) = butlast (ring N buf r w)"
proof -
  have "0 < unat (w - r)" using assms by (simp add: unat_gt_0)
  moreover have "unat (w - 1 - r) = unat (w - r) - 1"
    using assms unat_minus_one [of "w - r"] by (simp add: algebra_simps)
  ultimately have u: "unat (w - r) = Suc (unat (w - 1 - r))" by simp
  show ?thesis unfolding ring_def u by simp
qed

lemma ring_split:
  assumes "unat (m - r) \<le> unat (w - r)"
  shows "ring N buf r w = ring N buf r m @ ring N buf m w"
proof -
  have u: "unat (w - r) = unat (m - r) + unat (w - m)"
  proof -
    have "m - r \<le> w - r" using assms by (simp add: word_le_nat_alt)
    then have "unat ((w - r) - (m - r)) = unat (w - r) - unat (m - r)" by (rule unat_sub)
    with assms show ?thesis by simp
  qed
  have m: "r + of_nat (i + unat (m - r)) = m + of_nat i" for i by simp
  have "[0..<unat (w - r)] = [0..<unat (m - r)] @ map (\<lambda>i. i + unat (m - r)) [0..<unat (w - m)]"
    unfolding u by (simp only: upt_add_eq_append [OF le0] map_add_upt add.commute [of "unat (w - m)"])
  then show ?thesis unfolding ring_def by (simp only: map_append map_map comp_def m)
qed

section \<open>Queues of bounded capacity\<close>

text \<open>
  \<open>queue\<close> reads the contents, oldest first; \<open>put\<close> adds a byte if there is room; \<open>get\<close> takes the oldest byte
  if there is one.  The laws give what any sequence of operations delivers.
\<close>

locale bounded_queue =
  fixes queue :: "'s \<Rightarrow> 'a list"
    and put :: "'a \<Rightarrow> 's \<Rightarrow> 's"
    and get :: "'s \<Rightarrow> 'a \<times> 's"
    and cap :: nat
  assumes put_queue: "length (queue s) < cap \<Longrightarrow> queue (put c s) = queue s @ [c]"
    and get_queue: "queue s = c # cs \<Longrightarrow> get s = (d, t) \<Longrightarrow> d = c \<and> queue t = cs"
begin

text \<open>A burst of puts, and a burst of gets.\<close>

lemma puts_queue:
  "length (queue s) + length cs \<le> cap \<Longrightarrow> queue (fold put cs s) = queue s @ cs"
  by (induction cs arbitrary: s) (simp_all add: put_queue)

primrec gets :: "nat \<Rightarrow> 's \<Rightarrow> 'a list \<times> 's" where
  "gets 0 s = ([], s)"
| "gets (Suc n) s = (let (c, t) = get s; (cs, u) = gets n t in (c # cs, u))"

lemma gets_queue:
  "n \<le> length (queue s) \<Longrightarrow> gets n s = (cs, t) \<Longrightarrow> cs = take n (queue s) \<and> queue t = drop n (queue s)"
proof (induction n arbitrary: s cs t)
  case (Suc n)
  then obtain x xs where q: "queue s = x # xs" by (cases "queue s") auto
  obtain c u where g: "get s = (c, u)" by fastforce
  obtain ds v where r: "gets n u = (ds, v)" by fastforce
  from get_queue [OF q g] Suc.prems Suc.IH [OF _ r] show ?case by (auto simp: q g r)
qed simp

end

end
