(* ===== verification/File.thy ===== *)
theory File
  imports Fs Ring
begin

text \<open>
  Pipes (\<^verbatim>\<open>pipe.c\<close>) and the file table (\<^verbatim>\<open>file.c\<close>).  A pipe is identified by the address of the page that holds it; its
  fields are kept in a table indexed by that address.  Files are numbered below \<open>NFILE\<close>.
\<close>

section \<open>State\<close>

abbreviation (input) PIPESIZE :: u32 where "PIPESIZE \<equiv> 512"
abbreviation NFILE :: nat where "NFILE \<equiv> 100"

record pipe =
  plock :: spinlock
  pdata :: "u32 \<Rightarrow> u8"
  nread :: u32
  nwrite :: u32
  readopen :: bool
  writeopen :: bool

datatype ftype = FD_NONE | FD_PIPE | FD_INODE

record filerec =
  ftype :: ftype
  fref :: int
  readable :: bool
  writable :: bool
  fpipe :: u32
  fip :: nat
  foff :: u32

record file_st = cons_st +
  pipes :: "u32 \<Rightarrow> pipe"
  ftable_lock :: spinlock
  files :: "nat \<Rightarrow> filerec"

definition upd_pipe :: "u32 \<Rightarrow> (pipe \<Rightarrow> pipe) \<Rightarrow> 'z file_st_scheme \<Rightarrow> 'z file_st_scheme" where
  "upd_pipe p f s = s\<lparr>pipes := (pipes s)(p := f (pipes s p))\<rparr>"

definition upd_file :: "nat \<Rightarrow> (filerec \<Rightarrow> filerec) \<Rightarrow> 'z file_st_scheme \<Rightarrow> 'z file_st_scheme" where
  "upd_file k f s = s\<lparr>files := (files s)(k := f (files s k))\<rparr>"

definition pipe_lock :: "u32 \<Rightarrow> 'z file_st_scheme \<Rightarrow> spinlock" where
  "pipe_lock p s = plock (pipes s p)"

definition pipe_lock_update :: "u32 \<Rightarrow> (spinlock \<Rightarrow> spinlock) \<Rightarrow> 'z file_st_scheme \<Rightarrow> 'z file_st_scheme" where
  "pipe_lock_update p f = upd_pipe p (\<lambda>x. x\<lparr>plock := f (plock x)\<rparr>)"

definition acquire_ftable :: "'z file_st_scheme \<Rightarrow> (unit, 'z file_st_scheme) kres" where
  "acquire_ftable s = acquire ftable_lock ftable_lock_update s"

definition release_ftable :: "'z file_st_scheme \<Rightarrow> (unit, 'z file_st_scheme) kres" where
  "release_ftable s = release ftable_lock ftable_lock_update s"

section \<open>Pipes\<close>

definition pipeclose :: "u32 \<Rightarrow> bool \<Rightarrow> 'z file_st_scheme \<Rightarrow> (unit, 'z file_st_scheme) kres" where
  "pipeclose p wr s =
     andthen (acquire (pipe_lock p) (pipe_lock_update p) s) (\<lambda>_ s.
     andthen (if wr then wakeup (Some (ChPipeRead p)) (upd_pipe p (\<lambda>x. x\<lparr>writeopen := False\<rparr>) s)
              else wakeup (Some (ChPipeWrite p)) (upd_pipe p (\<lambda>x. x\<lparr>readopen := False\<rparr>) s)) (\<lambda>_ s.
     if \<not> readopen (pipes s p) \<and> \<not> writeopen (pipes s p)
     then andthen (release (pipe_lock p) (pipe_lock_update p) s) (\<lambda>_ s. kfree p s)
     else release (pipe_lock p) (pipe_lock_update p) s))"

text \<open>One byte in, one byte out: the two assignments to the ring.\<close>

definition pipe_put :: "u8 \<Rightarrow> pipe \<Rightarrow> pipe" where
  "pipe_put c x = x\<lparr>pdata := (pdata x)(nwrite x mod PIPESIZE := c), nwrite := nwrite x + 1\<rparr>"

definition pipe_get :: "pipe \<Rightarrow> u8 \<times> pipe" where
  "pipe_get x = (pdata x (nread x mod PIPESIZE), x\<lparr>nread := nread x + 1\<rparr>)"

text \<open>
  The loop of \<^verbatim>\<open>pipewrite\<close> with the pipe lock held and \<open>k\<close> bytes from \<open>addr\<close> on left of \<open>n\<close>; also what runs when the
  writer is woken up.
\<close>

fun pipewrite_loop :: "u32 \<Rightarrow> u32 \<Rightarrow> nat \<Rightarrow> int \<Rightarrow> 'z file_st_scheme \<Rightarrow> (int, 'z file_st_scheme) kres" where
  "pipewrite_loop p addr 0 n s =
     andthen (wakeup (Some (ChPipeRead p)) s) (\<lambda>_ s.
     andthen (release (pipe_lock p) (pipe_lock_update p) s) (\<lambda>_ s. Ok n s))"
| "pipewrite_loop p addr (Suc k) n s =
     (if nwrite (pipes s p) = nread (pipes s p) + PIPESIZE then
        andthen (if \<not> readopen (pipes s p) then Ok True s
                 else andthen (myproc s) (\<lambda>q s.
                      andthen (proc_ptr q s) (\<lambda>i s. Ok (killed (ptable s ! i)) s))) (\<lambda>quit s.
        if quit then andthen (release (pipe_lock p) (pipe_lock_update p) s) (\<lambda>_ s. Ok (- 1) s)
        else andthen (wakeup (Some (ChPipeRead p)) s) (\<lambda>_ s.
             sleep (Some (ChPipeWrite p)) (Some (OtherLock (pipe_lock p) (pipe_lock_update p))) s))
      else andthen (deref8 addr s) (\<lambda>c s.
           pipewrite_loop p (addr + 1) k n (upd_pipe p (pipe_put c) s)))"

definition pipewrite :: "u32 \<Rightarrow> u32 \<Rightarrow> int \<Rightarrow> 'z file_st_scheme \<Rightarrow> (int, 'z file_st_scheme) kres" where
  "pipewrite p addr n s =
     andthen (acquire (pipe_lock p) (pipe_lock_update p) s) (\<lambda>_ s. pipewrite_loop p addr (nat n) n s)"

definition pipewrite_resume ::
  "bool \<Rightarrow> nat \<Rightarrow> u32 \<Rightarrow> u32 \<Rightarrow> nat \<Rightarrow> int \<Rightarrow> 'z file_st_scheme \<Rightarrow> (int, 'z file_st_scheme) kres" where
  "pipewrite_resume ie i p addr k n s =
     andthen (sleep_resume ie i (OtherLock (pipe_lock p) (pipe_lock_update p)) s) (\<lambda>_ s. pipewrite_loop p addr k n s)"

text \<open>The copy loop of \<^verbatim>\<open>piperead\<close>; it returns how many bytes it moved.\<close>

fun piperead_copy :: "u32 \<Rightarrow> u32 \<Rightarrow> nat \<Rightarrow> 'z file_st_scheme \<Rightarrow> (int, 'z file_st_scheme) kres" where
  "piperead_copy p addr 0 s = Ok 0 s"
| "piperead_copy p addr (Suc k) s =
     (if nread (pipes s p) = nwrite (pipes s p) then Ok 0 s
      else let (c, x) = pipe_get (pipes s p)
           in andthen (uwrite addr [c] (upd_pipe p (\<lambda>_. x) s)) (\<lambda>_ s.
              andthen (piperead_copy p (addr + 1) k s) (\<lambda>m s. Ok (m + 1) s)))"

definition piperead_loop :: "u32 \<Rightarrow> u32 \<Rightarrow> int \<Rightarrow> 'z file_st_scheme \<Rightarrow> (int, 'z file_st_scheme) kres" where
  "piperead_loop p addr n s =
     (if nread (pipes s p) = nwrite (pipes s p) \<and> writeopen (pipes s p) then
        andthen (myproc s) (\<lambda>q s.
        andthen (proc_ptr q s) (\<lambda>i s.
        if killed (ptable s ! i)
        then andthen (release (pipe_lock p) (pipe_lock_update p) s) (\<lambda>_ s. Ok (- 1) s)
        else sleep (Some (ChPipeRead p)) (Some (OtherLock (pipe_lock p) (pipe_lock_update p))) s))
      else andthen (piperead_copy p addr (nat n) s) (\<lambda>m s.
           andthen (wakeup (Some (ChPipeWrite p)) s) (\<lambda>_ s.
           andthen (release (pipe_lock p) (pipe_lock_update p) s) (\<lambda>_ s. Ok m s))))"

definition piperead :: "u32 \<Rightarrow> u32 \<Rightarrow> int \<Rightarrow> 'z file_st_scheme \<Rightarrow> (int, 'z file_st_scheme) kres" where
  "piperead p addr n s =
     andthen (acquire (pipe_lock p) (pipe_lock_update p) s) (\<lambda>_ s. piperead_loop p addr n s)"

definition piperead_resume ::
  "bool \<Rightarrow> nat \<Rightarrow> u32 \<Rightarrow> u32 \<Rightarrow> int \<Rightarrow> 'z file_st_scheme \<Rightarrow> (int, 'z file_st_scheme) kres" where
  "piperead_resume ie i p addr n s =
     andthen (sleep_resume ie i (OtherLock (pipe_lock p) (pipe_lock_update p)) s) (\<lambda>_ s. piperead_loop p addr n s)"

section \<open>Files\<close>

definition fileinit :: "'z file_st_scheme \<Rightarrow> 'z file_st_scheme" where
  "fileinit s = s\<lparr>ftable_lock := initlock ''ftable'' (ftable_lock s)\<rparr>"

definition filealloc :: "'z file_st_scheme \<Rightarrow> (nat option, 'z file_st_scheme) kres" where
  "filealloc s =
     andthen (acquire_ftable s) (\<lambda>_ s.
     case findi (\<lambda>k. fref (files s k) = 0) [0..<NFILE] of
       Some k \<Rightarrow> andthen (release_ftable (upd_file k (\<lambda>x. x\<lparr>fref := 1\<rparr>) s)) (\<lambda>_ s. Ok (Some k) s)
     | None \<Rightarrow> andthen (release_ftable s) (\<lambda>_ s. Ok None s))"

definition filedup :: "nat \<Rightarrow> 'z file_st_scheme \<Rightarrow> (nat, 'z file_st_scheme) kres" where
  "filedup f s =
     andthen (acquire_ftable s) (\<lambda>_ s.
     if fref (files s f) < 1 then Panic ''filedup'' s
     else andthen (release_ftable (upd_file f (\<lambda>x. x\<lparr>fref := fref x + 1\<rparr>) s)) (\<lambda>_ s. Ok f s))"

definition fileclose :: "nat \<Rightarrow> 'z file_st_scheme \<Rightarrow> (unit, 'z file_st_scheme) kres" where
  "fileclose f s =
     andthen (acquire_ftable s) (\<lambda>_ s.
     if fref (files s f) < 1 then Panic ''fileclose'' s
     else let s = upd_file f (\<lambda>x. x\<lparr>fref := fref x - 1\<rparr>) s
          in if 0 < fref (files s f) then release_ftable s
             else let ff = files s f
                  in andthen (release_ftable (upd_file f (\<lambda>x. x\<lparr>fref := 0, ftype := FD_NONE\<rparr>) s)) (\<lambda>_ s.
                     case ftype ff of
                       FD_PIPE \<Rightarrow> pipeclose (fpipe ff) (writable ff) s
                     | FD_INODE \<Rightarrow>
                         andthen (begin_op s) (\<lambda>_ s. andthen (iput (fip ff) s) (\<lambda>_ s. end_op s))
                     | FD_NONE \<Rightarrow> Ok () s))"

text \<open>\<^verbatim>\<open>struct stat\<close> in user memory: 20 bytes with the fields at 0, 4, 8, 12 and 16.\<close>

definition le16 :: "u16 \<Rightarrow> u8 list" where "le16 v = [ucast v, ucast (drop_bit 8 v)]"

definition le32 :: "u32 \<Rightarrow> u8 list" where
  "le32 v = [ucast v, ucast (drop_bit 8 v), ucast (drop_bit 16 v), ucast (drop_bit 24 v)]"

definition put_stat :: "u32 \<Rightarrow> stat \<Rightarrow> 'z machine_scheme \<Rightarrow> (unit, 'z machine_scheme) kres" where
  "put_stat a st s =
     andthen (uwrite (a + 4) (le32 (st_dev st)) s) (\<lambda>_ s.
     andthen (uwrite (a + 8) (le32 (st_ino st)) s) (\<lambda>_ s.
     andthen (uwrite a (le16 (st_type st)) s) (\<lambda>_ s.
     andthen (uwrite (a + 12) (le16 (st_nlink st)) s) (\<lambda>_ s.
     uwrite (a + 16) (le32 (st_size st)) s))))"

definition filestat :: "nat \<Rightarrow> u32 \<Rightarrow> 'z file_st_scheme \<Rightarrow> (int, 'z file_st_scheme) kres" where
  "filestat f a s =
     (if ftype (files s f) = FD_INODE
      then let ip = fip (files s f)
           in andthen (ilock (Some ip) s) (\<lambda>_ s.
              andthen (put_stat a (stati ip s) s) (\<lambda>_ s.
              andthen (iunlock (Some ip) s) (\<lambda>_ s. Ok 0 s)))
      else Ok (- 1) s)"

definition fileread :: "nat \<Rightarrow> u32 \<Rightarrow> int \<Rightarrow> 'z file_st_scheme \<Rightarrow> (int, 'z file_st_scheme) kres" where
  "fileread f addr n s =
     (if \<not> readable (files s f) then Ok (- 1) s
      else case ftype (files s f) of
        FD_PIPE \<Rightarrow> piperead (fpipe (files s f)) addr n s
      | FD_INODE \<Rightarrow>
          let ip = fip (files s f)
          in andthen (ilock (Some ip) s) (\<lambda>_ s.
             andthen (readi ip addr (foff (files s f)) (of_int n) s) (\<lambda>r s.
             let s = (if 0 < r then upd_file f (\<lambda>x. x\<lparr>foff := foff x + of_int r\<rparr>) s else s)
             in andthen (iunlock (Some ip) s) (\<lambda>_ s. Ok r s)))
      | FD_NONE \<Rightarrow> Panic ''fileread'' s)"

text \<open>
  The loop of \<^verbatim>\<open>filewrite\<close> after \<open>i\<close> of \<open>n\<close> bytes; \<^verbatim>\<open>max\<close> is three blocks.  It returns the final \<open>i\<close>.
\<close>

function filewrite_loop :: "nat \<Rightarrow> u32 \<Rightarrow> int \<Rightarrow> int \<Rightarrow> 'z file_st_scheme \<Rightarrow> (int, 'z file_st_scheme) kres" where
  "filewrite_loop f addr i n s =
     (if i < n then
        (let n1 = (if 1536 < n - i then 1536 else n - i); ip = fip (files s f)
         in andthen (begin_op s) (\<lambda>_ s.
            andthen (ilock (Some ip) s) (\<lambda>_ s.
            andthen (writei ip (addr + of_int i) (foff (files s f)) (of_int n1) s) (\<lambda>r s.
            let s = (if 0 < r then upd_file f (\<lambda>x. x\<lparr>foff := foff x + of_int r\<rparr>) s else s)
            in andthen (iunlock (Some ip) s) (\<lambda>_ s.
               andthen (end_op s) (\<lambda>_ s.
               if r < 0 then Ok i s
               else if r \<noteq> n1 then Panic ''short filewrite'' s
               else filewrite_loop f addr (i + r) n s))))))
      else Ok i s)"
  by pat_completeness auto
termination
  by (relation "measure (\<lambda>(f, addr, i, n, s). nat (n - i))") auto

declare filewrite_loop.simps [simp del]

definition filewrite :: "nat \<Rightarrow> u32 \<Rightarrow> int \<Rightarrow> 'z file_st_scheme \<Rightarrow> (int, 'z file_st_scheme) kres" where
  "filewrite f addr n s =
     (if \<not> writable (files s f) then Ok (- 1) s
      else case ftype (files s f) of
        FD_PIPE \<Rightarrow> pipewrite (fpipe (files s f)) addr n s
      | FD_INODE \<Rightarrow> andthen (filewrite_loop f addr 0 n s) (\<lambda>i s. Ok (if i = n then n else - 1) s)
      | FD_NONE \<Rightarrow> Panic ''filewrite'' s)"

text \<open>
  \<open>pipealloc\<close> returns the two files, or \<open>None\<close> for -1.  At the label \<^verbatim>\<open>bad\<close> the pipe is always null, since
  nothing can fail after its allocation.
\<close>

definition pipealloc_bad :: "nat option \<Rightarrow> nat option \<Rightarrow> 'z file_st_scheme \<Rightarrow> ((nat \<times> nat) option, 'z file_st_scheme) kres" where
  "pipealloc_bad f0 f1 s =
     andthen (case f0 of None \<Rightarrow> Ok () s | Some f \<Rightarrow> fileclose f s) (\<lambda>_ s.
     andthen (case f1 of None \<Rightarrow> Ok () s | Some f \<Rightarrow> fileclose f s) (\<lambda>_ s. Ok None s))"

definition new_pipe :: "pipe \<Rightarrow> pipe" where
  "new_pipe x = x\<lparr>readopen := True, writeopen := True, nwrite := 0, nread := 0, plock := initlock ''pipe'' (plock x)\<rparr>"

definition pipealloc :: "'z file_st_scheme \<Rightarrow> ((nat \<times> nat) option, 'z file_st_scheme) kres" where
  "pipealloc s =
     andthen (filealloc s) (\<lambda>r0 s.
     case r0 of None \<Rightarrow> pipealloc_bad None None s
     | Some f0 \<Rightarrow>
       andthen (filealloc s) (\<lambda>r1 s.
       case r1 of None \<Rightarrow> pipealloc_bad (Some f0) None s
       | Some f1 \<Rightarrow>
         andthen (kalloc s) (\<lambda>p s.
         if p = 0 then pipealloc_bad (Some f0) (Some f1) s
         else let s = upd_pipe p new_pipe s;
                  s = upd_file f0 (\<lambda>x. x\<lparr>ftype := FD_PIPE, readable := True, writable := False, fpipe := p\<rparr>) s;
                  s = upd_file f1 (\<lambda>x. x\<lparr>ftype := FD_PIPE, readable := False, writable := True, fpipe := p\<rparr>) s
              in Ok (Some (f0, f1)) s)))"

section \<open>Locks\<close>

interpretation ft: spin_lock ftable_lock ftable_lock_update
  by unfold_locales simp_all

interpretation pk: other_lock "pipe_lock p" "pipe_lock_update p" for p
  by unfold_locales (auto simp: pipe_lock_def pipe_lock_update_def upd_pipe_def)

section \<open>An example state\<close>

text \<open>
  One CPU, process 0 running with user address 0 mapped to the page at \<^verbatim>\<open>0x80202000\<close>, everything else idle, and the pipe
  counters one step before they wrap.
\<close>

definition zero_lock :: spinlock where
  "zero_lock = \<lparr>locked = False, lname = '''', lcpu = None\<rparr>"

definition zero_sleep :: sleeplock where
  "zero_sleep = \<lparr>slocked = False, slk = zero_lock, slname = '''', slpid = 0\<rparr>"

definition zero_buf :: buf where
  "zero_buf = \<lparr>bvalid = False, bdirty = False, bdev = 0, blockno = 0, blk = zero_sleep, refcnt = 0, bprev = 0, bnext = 0,
     bqnext = None, bdata = (\<lambda>_. 0)\<rparr>"

definition zero_inode :: inode where
  "zero_inode = \<lparr>idev = 0, inum = 0, iref = 0, ilk = zero_sleep, ivalid = False, itype = 0, imajor = 0, iminor = 0,
     inlink = 0, isize = 0, iaddrs = (\<lambda>_. 0)\<rparr>"

definition zero_file :: filerec where
  "zero_file = \<lparr>ftype = FD_NONE, fref = 0, readable = False, writable = False, fpipe = 0, fip = 0, foff = 0\<rparr>"

definition file_demo :: file_st where
  "file_demo = \<lparr>
     mem = store32 (store32 (store32 (\<lambda>_. 0) 0x80200000 0x201007) 0x80201000 0x202007) 0x80202100 0x00636261,
     lapicid = 0, iflag = (\<lambda>_. True), cr3 = 0x200000,
     cpus = [\<lparr>apicid = 0, ncli = 0, intena = False, cpu_proc = Some 0, ts_esp0 = 0\<rparr>],
     kmem_lock = zero_lock, use_lock = True, freelist = 0, kend = 0x80115000, kpgdir = 0x80400000, kdata = 0x80108000,
     ptable_lock = zero_lock, ptable = demo_proc RUNNING 0 # replicate 63 (demo_proc UNUSED 0), initproc = Some 0, nextpid = 4,
     forkret_addr = 0, trapret_addr = 0, tickslock = zero_lock, ticks = 0,
     bcache_lock = zero_lock, bufs = (\<lambda>_. zero_buf), disk = (\<lambda>_ _. 0), dwrites = [], disksize = 0,
     log_lock = zero_lock, log_start = 0, log_size = 0, outstanding = 0, committing = False, log_dev = 0, lh_n = 0, lh_block = (\<lambda>_. 0),
     sb = \<lparr>sb_size = 0, sb_nblocks = 0, sb_ninodes = 0, sb_nlog = 0, sb_logstart = 0, sb_inodestart = 0, sb_bmapstart = 0\<rparr>,
     icache_lock = zero_lock, inodes = (\<lambda>_. zero_inode), devsw = (\<lambda>_. NoDev), cons_lock = zero_lock, cons_locking = True, panicked = False,
     in_buf = (\<lambda>_. 0), in_r = 0, in_w = 0, in_e = 0, crt_pos = 0, uart_out = [],
     pipes = (\<lambda>_. \<lparr>plock = zero_lock, pdata = (\<lambda>_. 0)(511 := 0x78), nread = 0xFFFFFFFF, nwrite = 0, readopen = True, writeopen = True\<rparr>),
     ftable_lock = zero_lock, files = (\<lambda>_. zero_file)\<rparr>"

lemma file_demo_calling: "calling 0 0 file_demo"
  by (simp add: calling_def proc_ready_def on_cpu_def file_demo_def zero_lock_def)

end
