(* ===== verification/Procfs.thy ===== *)
theory Procfs
  imports File
begin

text \<open>
  The process operations that use the file system: \<^verbatim>\<open>userinit\<close>, \<^verbatim>\<open>fork\<close>, \<^verbatim>\<open>exit\<close> and \<^verbatim>\<open>forkret\<close> of \<^verbatim>\<open>proc.c\<close>, \<^verbatim>\<open>loaduvm\<close> of
  \<^verbatim>\<open>vm.c\<close>, and \<^verbatim>\<open>exec\<close>.  The trap frame of a process is in memory at its address \<^verbatim>\<open>tf\<close>: \<^verbatim>\<open>eax\<close> at offset 28, \<^verbatim>\<open>es\<close> 40,
  \<^verbatim>\<open>ds\<close> 44, \<^verbatim>\<open>trapno\<close> 48, \<^verbatim>\<open>eip\<close> 56, \<^verbatim>\<open>cs\<close> 60, \<^verbatim>\<open>eflags\<close> 64, \<^verbatim>\<open>esp\<close> 68, \<^verbatim>\<open>ss\<close> 72.
\<close>

text \<open>The static variable \<^verbatim>\<open>first\<close> of \<^verbatim>\<open>forkret\<close>.\<close>

record kern_st = file_st +
  forkret_first :: bool

section \<open>Processes\<close>

text \<open>The arguments are the linker symbols of the embedded \<^verbatim>\<open>initcode\<close>: its address and size.\<close>

definition userinit :: "u32 \<Rightarrow> u32 \<Rightarrow> 'z fs_st_scheme \<Rightarrow> (unit, 'z fs_st_scheme) kres" where
  "userinit start len s =
     andthen (allocproc s) (\<lambda>r s.
     let s = s\<lparr>initproc := r\<rparr>
     in andthen (setupkvm s) (\<lambda>pg s.
        andthen (proc_ptr r s) (\<lambda>p s.
        let s = upd_proc p (\<lambda>x. x\<lparr>pgdir := pg\<rparr>) s
        in if pg = 0 then Panic ''userinit: out of memory?'' s
           else andthen (inituvm pg start len s) (\<lambda>_ s.
                let s = upd_proc p (\<lambda>x. x\<lparr>sz := PGSIZE\<rparr>) s;
                    a = tf (ptable s ! p);
                    m = memset (mem s) a 0 76;
                    m = store16 m (a + 60) (24 OR 3);
                    m = store16 m (a + 44) (32 OR 3);
                    m = store16 m (a + 40) (load16 m (a + 44));
                    m = store16 m (a + 72) (load16 m (a + 44));
                    m = store32 m (a + 64) 0x200;
                    m = store32 m (a + 68) PGSIZE;
                    m = store32 m (a + 56) 0;
                    s = s\<lparr>mem := m\<rparr>;
                    s = upd_proc p (\<lambda>x. x\<lparr>pname := ''initcode''\<rparr>) s
                in andthen (namei [0x2f] s) (\<lambda>ip s.
                   let s = upd_proc p (\<lambda>x. x\<lparr>cwd := ip\<rparr>) s
                   in andthen (acquire_ptable s) (\<lambda>_ s.
                      release_ptable (upd_proc p (\<lambda>x. x\<lparr>state := RUNNABLE\<rparr>) s)))))))"

fun fork_files :: "nat \<Rightarrow> nat \<Rightarrow> nat list \<Rightarrow> 'z file_st_scheme \<Rightarrow> (unit, 'z file_st_scheme) kres" where
  "fork_files cp np [] s = Ok () s"
| "fork_files cp np (i # is) s =
     andthen (case ofile (ptable s ! cp) ! i of
                None \<Rightarrow> Ok () s
              | Some f \<Rightarrow> andthen (filedup f s) (\<lambda>g s.
                  Ok () (upd_proc np (\<lambda>x. x\<lparr>ofile := (ofile x)[i := Some g]\<rparr>) s))) (\<lambda>_ s.
     fork_files cp np is s)"

definition fork :: "'z file_st_scheme \<Rightarrow> (int, 'z file_st_scheme) kres" where
  "fork s =
     andthen (myproc s) (\<lambda>cp s.
     andthen (allocproc s) (\<lambda>r s.
     case r of None \<Rightarrow> Ok (- 1) s
     | Some np \<Rightarrow>
       andthen (proc_ptr cp s) (\<lambda>c s.
       andthen (copyuvm (pgdir (ptable s ! c)) (sz (ptable s ! c)) s) (\<lambda>pg s.
       let s = upd_proc np (\<lambda>x. x\<lparr>pgdir := pg\<rparr>) s
       in if pg = 0
          then andthen (kfree (kstack (ptable s ! np)) s) (\<lambda>_ s.
               Ok (- 1) (upd_proc np (\<lambda>x. x\<lparr>kstack := 0, state := UNUSED\<rparr>) s))
          else let s = upd_proc np (\<lambda>x. x\<lparr>sz := sz (ptable s ! c), parent := Some c\<rparr>) s;
                   s = s\<lparr>mem := memmove (mem s) (tf (ptable s ! np)) (tf (ptable s ! c)) 76\<rparr>;
                   s = s\<lparr>mem := store32 (mem s) (tf (ptable s ! np) + 28) 0\<rparr>
               in andthen (fork_files c np [0..<16] s) (\<lambda>_ s.
                  andthen (proc_ptr (cwd (ptable s ! c)) s) (\<lambda>d s.
                  andthen (idup d s) (\<lambda>ip s.
                  let s = upd_proc np (\<lambda>x. x\<lparr>cwd := Some ip, pname := take 15 (pname (ptable s ! c))\<rparr>) s;
                      n = pid (ptable s ! np)
                  in andthen (acquire_ptable s) (\<lambda>_ s.
                     andthen (release_ptable (upd_proc np (\<lambda>x. x\<lparr>state := RUNNABLE\<rparr>) s)) (\<lambda>_ s.
                     Ok n s)))))))))"

fun exit_files :: "nat \<Rightarrow> nat list \<Rightarrow> 'z file_st_scheme \<Rightarrow> (unit, 'z file_st_scheme) kres" where
  "exit_files cp [] s = Ok () s"
| "exit_files cp (fd # fds) s =
     andthen (case ofile (ptable s ! cp) ! fd of
                None \<Rightarrow> Ok () s
              | Some f \<Rightarrow> andthen (fileclose f s) (\<lambda>_ s.
                  Ok () (upd_proc cp (\<lambda>x. x\<lparr>ofile := (ofile x)[fd := None]\<rparr>) s))) (\<lambda>_ s.
     exit_files cp fds s)"

text \<open>Pass one abandoned child to \<^verbatim>\<open>init\<close>.\<close>

definition reparent :: "nat \<Rightarrow> nat \<Rightarrow> 'z proc_st_scheme \<Rightarrow> 'z proc_st_scheme" where
  "reparent cp k s =
     (if parent (ptable s ! k) = Some cp
      then let s = upd_proc k (\<lambda>x. x\<lparr>parent := initproc s\<rparr>) s
           in if state (ptable s ! k) = ZOMBIE then wakeup1 (map_option ChProc (initproc s)) s else s
      else s)"

definition exit :: "'z file_st_scheme \<Rightarrow> ('a, 'z file_st_scheme) kres" where
  "exit s =
     andthen (myproc s) (\<lambda>cp s.
     if cp = initproc s then Panic ''init exiting'' s
     else andthen (proc_ptr cp s) (\<lambda>c s.
     andthen (exit_files c [0..<16] s) (\<lambda>_ s.
     andthen (begin_op s) (\<lambda>_ s.
     andthen (proc_ptr (cwd (ptable s ! c)) s) (\<lambda>d s.
     andthen (iput d s) (\<lambda>_ s.
     andthen (end_op s) (\<lambda>_ s.
     andthen (acquire_ptable (upd_proc c (\<lambda>x. x\<lparr>cwd := None\<rparr>) s)) (\<lambda>_ s.
     let s = wakeup1 (map_option ChProc (parent (ptable s ! c))) s;
         s = fold (reparent c) [0..<NPROC] s
     in sched (upd_proc c (\<lambda>x. x\<lparr>state := ZOMBIE\<rparr>) s)))))))))"

definition forkret :: "'z kern_st_scheme \<Rightarrow> (unit, 'z kern_st_scheme) kres" where
  "forkret s =
     andthen (release_ptable s) (\<lambda>_ s.
     if forkret_first s
     then andthen (iinit ROOTDEV (s\<lparr>forkret_first := False\<rparr>)) (\<lambda>_ s. initlog ROOTDEV s)
     else Ok () s)"

section \<open>Loading a program\<close>

partial_function (option) loaduvm_loop ::
  "u32 \<Rightarrow> u32 \<Rightarrow> nat \<Rightarrow> u32 \<Rightarrow> u32 \<Rightarrow> u32 \<Rightarrow> 'z cons_st_scheme \<Rightarrow> (int, 'z cons_st_scheme) kres option" where
  "loaduvm_loop pg addr ip off n i s =
     (if i < n then
        andthen_opt (walkpgdir pg (addr + i) False s) (\<lambda>pte s.
        if pte = 0 then Some (Panic ''loaduvm: address should exist'' s)
        else let pa = PTE_ADDR (load32 (mem s) pte);
                 k = (if n - i < PGSIZE then n - i else PGSIZE)
             in andthen_opt (readi ip (P2V pa) (off + i) k s) (\<lambda>r s.
                if r \<noteq> int (unat k) then Some (Ok (- 1) s)
                else loaduvm_loop pg addr ip off n (i + PGSIZE) s))
      else Some (Ok 0 s))"

definition loaduvm :: "u32 \<Rightarrow> u32 \<Rightarrow> nat \<Rightarrow> u32 \<Rightarrow> u32 \<Rightarrow> 'z cons_st_scheme \<Rightarrow> (int, 'z cons_st_scheme) kres" where
  "loaduvm pg addr ip off n s =
     (if addr mod PGSIZE \<noteq> 0 then Panic ''loaduvm: addr must be page aligned'' s
      else or_spin (loaduvm_loop pg addr ip off n 0 s) s)"

text \<open>The label \<^verbatim>\<open>bad\<close> of \<^verbatim>\<open>exec\<close>.\<close>

definition exec_bad :: "u32 \<Rightarrow> nat option \<Rightarrow> 'z fs_st_scheme \<Rightarrow> (int, 'z fs_st_scheme) kres" where
  "exec_bad pg ip s =
     andthen (if pg \<noteq> 0 then freevm pg s else Ok () s) (\<lambda>_ s.
     andthen (case ip of None \<Rightarrow> Ok () s | Some k \<Rightarrow> andthen (iunlockput k s) (\<lambda>_ s. end_op s)) (\<lambda>_ s.
     Ok (- 1) s))"

text \<open>
  The locals of \<^verbatim>\<open>exec\<close> that are filled through pointers are on the kernel stack at \<open>fp\<close>: \<^verbatim>\<open>elf\<close> (52 bytes) at \<open>fp\<close>,
  \<^verbatim>\<open>ph\<close> (32 bytes) at \<open>fp + 52\<close>, \<^verbatim>\<open>ustack\<close> at \<open>fp + 84\<close>.  The loop over the program headers returns the size of the image,
  or \<open>None\<close> where the code jumps to \<^verbatim>\<open>bad\<close>.
\<close>

fun exec_load :: "u32 \<Rightarrow> nat \<Rightarrow> u32 \<Rightarrow> nat \<Rightarrow> u32 \<Rightarrow> u32 \<Rightarrow> 'z cons_st_scheme \<Rightarrow> (u32 option, 'z cons_st_scheme) kres" where
  "exec_load fp ip pg 0 off sz0 s = Ok (Some sz0) s"
| "exec_load fp ip pg (Suc k) off sz0 s =
     andthen (readi ip (fp + 52) off 32 s) (\<lambda>r s.
     if r \<noteq> 32 then Ok None s
     else let typ = load32 (mem s) (fp + 52); foffset = load32 (mem s) (fp + 56); vaddr = load32 (mem s) (fp + 60);
              filesz = load32 (mem s) (fp + 68); memsz = load32 (mem s) (fp + 72)
          in if typ \<noteq> 1 then exec_load fp ip pg k (off + 32) sz0 s
             else if memsz < filesz then Ok None s
             else if vaddr + memsz < vaddr then Ok None s
             else andthen (allocuvm pg sz0 (vaddr + memsz) s) (\<lambda>sz1 s.
                  if sz1 = 0 then Ok None s
                  else if vaddr mod PGSIZE \<noteq> 0 then Ok None s
                  else andthen (loaduvm pg vaddr ip foffset filesz s) (\<lambda>r s.
                       if r < 0 then Ok None s
                       else exec_load fp ip pg k (off + 32) sz1 s)))"

text \<open>Push the argument strings; \<open>argc\<close> counts them and the result is it and the stack pointer.\<close>

fun exec_args :: "u32 \<Rightarrow> u32 \<Rightarrow> u32 list \<Rightarrow> nat \<Rightarrow> u32 \<Rightarrow> 'z vm_st_scheme \<Rightarrow> ((nat \<times> u32) option, 'z vm_st_scheme) kres" where
  "exec_args fp pg [] argc sp s = Ok (Some (argc, sp)) s"
| "exec_args fp pg (a # as) argc sp s =
     (if 32 \<le> argc then Ok None s
      else andthen (ustrlen a s) (\<lambda>n s.
           let sp = (sp - (n + 1)) AND NOT 3
           in andthen (copyout pg sp a (n + 1) s) (\<lambda>r s.
              if r < 0 then Ok None s
              else exec_args fp pg as (argc + 1) sp
                     (s\<lparr>mem := store32 (mem s) (fp + 84 + 4 * (3 + of_nat argc)) sp\<rparr>))))"

definition last_elem :: "u8 list \<Rightarrow> u8 list" where
  "last_elem path = rev (takeWhile (\<lambda>c. c \<noteq> 0x2f) (rev path))"

text \<open>From the user stack on: \<^verbatim>\<open>exec\<close> no longer holds the inode.\<close>

definition exec_finish ::
  "u32 \<Rightarrow> u8 list \<Rightarrow> u32 list \<Rightarrow> u32 \<Rightarrow> u32 \<Rightarrow> nat option \<Rightarrow> u32 \<Rightarrow> 'z fs_st_scheme \<Rightarrow> (int, 'z fs_st_scheme) kres" where
  "exec_finish fp path argv pg sz0 cp entry s =
     (let sz0 = PGROUNDUP sz0
      in andthen (allocuvm pg sz0 (sz0 + 2 * PGSIZE) s) (\<lambda>sz1 s.
         if sz1 = 0 then exec_bad pg None s
         else andthen (clearpteu pg (sz1 - 2 * PGSIZE) s) (\<lambda>_ s.
              andthen (exec_args fp pg argv 0 sz1 s) (\<lambda>r s.
              case r of None \<Rightarrow> exec_bad pg None s
              | Some (argc, sp) \<Rightarrow>
                let u = fp + 84;
                    n = of_nat argc;
                    m = store32 (mem s) (u + 4 * (3 + n)) 0;
                    m = store32 m u 0xffffffff;
                    m = store32 m (u + 4) n;
                    m = store32 m (u + 8) (sp - (n + 1) * 4);
                    sp = sp - (3 + n + 1) * 4
                in andthen (copyout pg sp u ((3 + n + 1) * 4) (s\<lparr>mem := m\<rparr>)) (\<lambda>r s.
                   if r < 0 then exec_bad pg None s
                   else andthen (proc_ptr cp s) (\<lambda>c s.
                        let s = upd_proc c (\<lambda>x. x\<lparr>pname := take 15 (map (\<lambda>c. char_of (unat c)) (last_elem path))\<rparr>) s;
                            oldpg = pgdir (ptable s ! c);
                            s = upd_proc c (\<lambda>x. x\<lparr>pgdir := pg, sz := sz1\<rparr>) s;
                            s = s\<lparr>mem := store32 (mem s) (tf (ptable s ! c) + 56) entry\<rparr>;
                            s = s\<lparr>mem := store32 (mem s) (tf (ptable s ! c) + 68) sp\<rparr>
                        in andthen (switchuvm (Some c) s) (\<lambda>_ s.
                           andthen (freevm oldpg s) (\<lambda>_ s. Ok 0 s))))))))"

text \<open>The magic number is the bytes 7F 45 4C 46; \<^verbatim>\<open>entry\<close>, \<^verbatim>\<open>phoff\<close> and \<^verbatim>\<open>phnum\<close> are at offsets 24, 28 and 44 of the header.\<close>

definition exec :: "u32 \<Rightarrow> u8 list \<Rightarrow> u32 list \<Rightarrow> 'z cons_st_scheme \<Rightarrow> (int, 'z cons_st_scheme) kres" where
  "exec fp path argv s =
     andthen (myproc s) (\<lambda>cp s.
     andthen (begin_op s) (\<lambda>_ s.
     andthen (namei path s) (\<lambda>r s.
     case r of None \<Rightarrow> andthen (end_op s) (\<lambda>_ s. Ok (- 1) s)
     | Some ip \<Rightarrow>
       andthen (ilock (Some ip) s) (\<lambda>_ s.
       andthen (readi ip fp 0 52 s) (\<lambda>r s.
       if r \<noteq> 52 then exec_bad 0 (Some ip) s
       else if load32 (mem s) fp \<noteq> 0x464C457F then exec_bad 0 (Some ip) s
       else andthen (setupkvm s) (\<lambda>pg s.
            if pg = 0 then exec_bad 0 (Some ip) s
            else andthen (exec_load fp ip pg (unat (load16 (mem s) (fp + 44))) (load32 (mem s) (fp + 28)) 0 s) (\<lambda>r s.
                 case r of None \<Rightarrow> exec_bad pg (Some ip) s
                 | Some sz0 \<Rightarrow>
                   andthen (iunlockput ip s) (\<lambda>_ s.
                   andthen (end_op s) (\<lambda>_ s.
                   exec_finish fp path argv pg sz0 cp (load32 (mem s) (fp + 24)) s)))))))))"

end
