(* ===== verification/Sysfile.thy ===== *)
theory Sysfile
  imports Procfs
begin

text \<open>
  The file system calls (\<^verbatim>\<open>sysfile.c\<close>), the system call dispatcher (\<^verbatim>\<open>syscall.c\<close>) and the trap handler (\<^verbatim>\<open>trap.c\<close>).  The value
  of a system call is the 32-bit pattern that ends up in \<^verbatim>\<open>eax\<close>.
\<close>

section \<open>Descriptors\<close>

text \<open>The descriptor and the file, or \<open>None\<close> for -1.\<close>

definition argfd :: "u32 \<Rightarrow> 'z proc_st_scheme \<Rightarrow> ((nat \<times> nat) option, 'z proc_st_scheme) kres" where
  "argfd n s =
     andthen (argint n s) (\<lambda>r s.
     case r of None \<Rightarrow> Ok None s
     | Some v \<Rightarrow>
       let fd = sint v
       in if fd < 0 \<or> 16 \<le> fd then Ok None s
          else andthen (myproc s) (\<lambda>p s.
               andthen (proc_ptr p s) (\<lambda>i s.
               case ofile (ptable s ! i) ! nat fd of
                 None \<Rightarrow> Ok None s
               | Some f \<Rightarrow> Ok (Some (nat fd, f)) s)))"

definition fdalloc :: "nat \<Rightarrow> 'z proc_st_scheme \<Rightarrow> (nat option, 'z proc_st_scheme) kres" where
  "fdalloc f s =
     andthen (myproc s) (\<lambda>p s.
     andthen (proc_ptr p s) (\<lambda>i s.
     case findi (\<lambda>fd. ofile (ptable s ! i) ! fd = None) [0..<16] of
       None \<Rightarrow> Ok None s
     | Some fd \<Rightarrow> Ok (Some fd) (upd_proc i (\<lambda>x. x\<lparr>ofile := (ofile x)[fd := Some f]\<rparr>) s)))"

definition clear_fd :: "nat \<Rightarrow> 'z proc_st_scheme \<Rightarrow> (unit, 'z proc_st_scheme) kres" where
  "clear_fd fd s =
     andthen (myproc s) (\<lambda>p s.
     andthen (proc_ptr p s) (\<lambda>i s. Ok () (upd_proc i (\<lambda>x. x\<lparr>ofile := (ofile x)[fd := None]\<rparr>) s)))"

definition sys_dup :: "'z file_st_scheme \<Rightarrow> (u32, 'z file_st_scheme) kres" where
  "sys_dup s =
     andthen (argfd 0 s) (\<lambda>r s.
     case r of None \<Rightarrow> Ok (- 1) s
     | Some (_, f) \<Rightarrow>
       andthen (fdalloc f s) (\<lambda>r s.
       case r of None \<Rightarrow> Ok (- 1) s
       | Some fd \<Rightarrow> andthen (filedup f s) (\<lambda>_ s. Ok (of_nat fd) s)))"

text \<open>The three arguments of \<^verbatim>\<open>read\<close> and \<^verbatim>\<open>write\<close>, fetched in the order of the code.\<close>

definition rw_args :: "'z proc_st_scheme \<Rightarrow> ((nat \<times> u32 \<times> int) option, 'z proc_st_scheme) kres" where
  "rw_args s =
     andthen (argfd 0 s) (\<lambda>r s.
     case r of None \<Rightarrow> Ok None s
     | Some (_, f) \<Rightarrow>
       andthen (argint 2 s) (\<lambda>r s.
       case r of None \<Rightarrow> Ok None s
       | Some n \<Rightarrow>
         andthen (argptr 1 (sint n) s) (\<lambda>r s.
         case r of None \<Rightarrow> Ok None s | Some p \<Rightarrow> Ok (Some (f, p, sint n)) s)))"

definition sys_read :: "'z file_st_scheme \<Rightarrow> (u32, 'z file_st_scheme) kres" where
  "sys_read s =
     andthen (rw_args s) (\<lambda>r s.
     case r of None \<Rightarrow> Ok (- 1) s
     | Some (f, p, n) \<Rightarrow> andthen (fileread f p n s) (\<lambda>r s. Ok (of_int r) s))"

definition sys_write :: "'z file_st_scheme \<Rightarrow> (u32, 'z file_st_scheme) kres" where
  "sys_write s =
     andthen (rw_args s) (\<lambda>r s.
     case r of None \<Rightarrow> Ok (- 1) s
     | Some (f, p, n) \<Rightarrow> andthen (filewrite f p n s) (\<lambda>r s. Ok (of_int r) s))"

definition sys_close :: "'z file_st_scheme \<Rightarrow> (u32, 'z file_st_scheme) kres" where
  "sys_close s =
     andthen (argfd 0 s) (\<lambda>r s.
     case r of None \<Rightarrow> Ok (- 1) s
     | Some (fd, f) \<Rightarrow>
       andthen (clear_fd fd s) (\<lambda>_ s. andthen (fileclose f s) (\<lambda>_ s. Ok 0 s)))"

definition sys_fstat :: "'z file_st_scheme \<Rightarrow> (u32, 'z file_st_scheme) kres" where
  "sys_fstat s =
     andthen (argfd 0 s) (\<lambda>r s.
     case r of None \<Rightarrow> Ok (- 1) s
     | Some (_, f) \<Rightarrow>
       andthen (argptr 1 20 s) (\<lambda>r s.
       case r of None \<Rightarrow> Ok (- 1) s
       | Some a \<Rightarrow> andthen (filestat f a s) (\<lambda>r s. Ok (of_int r) s)))"

section \<open>Names\<close>

text \<open>A path argument as its bytes.\<close>

definition argpath :: "u32 \<Rightarrow> 'z proc_st_scheme \<Rightarrow> (u8 list option, 'z proc_st_scheme) kres" where
  "argpath n s =
     andthen (argstr n s) (\<lambda>r s.
     case r of None \<Rightarrow> Ok None s
     | Some (len, a) \<Rightarrow> andthen (uread a (unat len) s) (\<lambda>cs s. Ok (Some cs) s))"

definition fail_op :: "'z log_st_scheme \<Rightarrow> (u32, 'z log_st_scheme) kres" where
  "fail_op s = andthen (end_op s) (\<lambda>_ s. Ok (- 1) s)"

text \<open>The label \<^verbatim>\<open>bad\<close> of \<^verbatim>\<open>sys_link\<close>.\<close>

definition link_bad :: "nat \<Rightarrow> 'z fs_st_scheme \<Rightarrow> (u32, 'z fs_st_scheme) kres" where
  "link_bad ip s =
     andthen (ilock (Some ip) s) (\<lambda>_ s.
     andthen (iupdate ip (upd_inode ip (\<lambda>x. x\<lparr>inlink := inlink x - 1\<rparr>) s)) (\<lambda>_ s.
     andthen (iunlockput ip s) (\<lambda>_ s. fail_op s)))"

definition sys_link :: "'z fs_st_scheme \<Rightarrow> (u32, 'z fs_st_scheme) kres" where
  "sys_link s =
     andthen (argpath 0 s) (\<lambda>r0 s.
     case r0 of None \<Rightarrow> Ok (- 1) s
     | Some old \<Rightarrow>
     andthen (argpath 1 s) (\<lambda>r1 s.
     case r1 of None \<Rightarrow> Ok (- 1) s
     | Some new \<Rightarrow>
     andthen (begin_op s) (\<lambda>_ s.
     andthen (namei old s) (\<lambda>r s.
     case r of None \<Rightarrow> fail_op s
     | Some ip \<Rightarrow>
     andthen (ilock (Some ip) s) (\<lambda>_ s.
     if itype (inodes s ip) = T_DIR then andthen (iunlockput ip s) (\<lambda>_ s. fail_op s)
     else
     andthen (iupdate ip (upd_inode ip (\<lambda>x. x\<lparr>inlink := inlink x + 1\<rparr>) s)) (\<lambda>_ s.
     andthen (iunlock (Some ip) s) (\<lambda>_ s.
     andthen (nameiparent new s) (\<lambda>r s.
     case r of None \<Rightarrow> link_bad ip s
     | Some (dp, name) \<Rightarrow>
     andthen (ilock (Some dp) s) (\<lambda>_ s.
     andthen (if idev (inodes s dp) \<noteq> idev (inodes s ip) then Ok (- 1) s
              else dirlink dp name (inum (inodes s ip)) s) (\<lambda>r s.
     if r < 0 then andthen (iunlockput dp s) (\<lambda>_ s. link_bad ip s)
     else
     andthen (iunlockput dp s) (\<lambda>_ s.
     andthen (iput ip s) (\<lambda>_ s.
     andthen (end_op s) (\<lambda>_ s. Ok 0 s)))))))))))))"

text \<open>The scan of \<^verbatim>\<open>isdirempty\<close> from the third entry on.\<close>

fun isdirempty_loop :: "nat \<Rightarrow> nat list \<Rightarrow> 'z fs_st_scheme \<Rightarrow> (bool, 'z fs_st_scheme) kres" where
  "isdirempty_loop dp [] s = Ok True s"
| "isdirempty_loop dp (off # offs) s =
     andthen (readi_data dp (of_nat off) 16 s) (\<lambda>r s.
     case r of None \<Rightarrow> Panic ''isdirempty: readi'' s
     | Some e \<Rightarrow>
       if length e \<noteq> 16 then Panic ''isdirempty: readi'' s
       else if de_inum e \<noteq> 0 then Ok False s
       else isdirempty_loop dp offs s)"

definition isdirempty :: "nat \<Rightarrow> 'z fs_st_scheme \<Rightarrow> (bool, 'z fs_st_scheme) kres" where
  "isdirempty dp s = isdirempty_loop dp (drop 2 (dir_offsets (isize (inodes s dp)))) s"

definition unlink_bad :: "nat \<Rightarrow> 'z fs_st_scheme \<Rightarrow> (u32, 'z fs_st_scheme) kres" where
  "unlink_bad dp s = andthen (iunlockput dp s) (\<lambda>_ s. fail_op s)"

definition sys_unlink :: "'z fs_st_scheme \<Rightarrow> (u32, 'z fs_st_scheme) kres" where
  "sys_unlink s =
     andthen (argpath 0 s) (\<lambda>r s.
     case r of None \<Rightarrow> Ok (- 1) s
     | Some path \<Rightarrow>
     andthen (begin_op s) (\<lambda>_ s.
     andthen (nameiparent path s) (\<lambda>r s.
     case r of None \<Rightarrow> fail_op s
     | Some (dp, name) \<Rightarrow>
     andthen (ilock (Some dp) s) (\<lambda>_ s.
     if namecmp name [0x2e] = 0 \<or> namecmp name [0x2e, 0x2e] = 0 then unlink_bad dp s
     else
     andthen (dirlookup dp name s) (\<lambda>r s.
     case r of None \<Rightarrow> unlink_bad dp s
     | Some (ip, off) \<Rightarrow>
     andthen (ilock (Some ip) s) (\<lambda>_ s.
     if sint (inlink (inodes s ip)) < 1 then Panic ''unlink: nlink < 1'' s
     else
     andthen (if itype (inodes s ip) = T_DIR then isdirempty ip s else Ok True s) (\<lambda>ok s.
     if \<not> ok then andthen (iunlockput ip s) (\<lambda>_ s. unlink_bad dp s)
     else
     andthen (writei_data dp (replicate 16 0) off 16 s) (\<lambda>r s.
     if r \<noteq> 16 then Panic ''unlink: writei'' s
     else
     andthen (if itype (inodes s ip) = T_DIR
              then iupdate dp (upd_inode dp (\<lambda>x. x\<lparr>inlink := inlink x - 1\<rparr>) s) else Ok () s) (\<lambda>_ s.
     andthen (iunlockput dp s) (\<lambda>_ s.
     andthen (iupdate ip (upd_inode ip (\<lambda>x. x\<lparr>inlink := inlink x - 1\<rparr>) s)) (\<lambda>_ s.
     andthen (iunlockput ip s) (\<lambda>_ s.
     andthen (end_op s) (\<lambda>_ s. Ok 0 s)))))))))))))"

text \<open>\<open>create\<close> returns the locked inode, or \<open>None\<close> for null.\<close>

definition create :: "u8 list \<Rightarrow> u16 \<Rightarrow> u16 \<Rightarrow> u16 \<Rightarrow> 'z fs_st_scheme \<Rightarrow> (nat option, 'z fs_st_scheme) kres" where
  "create path typ mj mn s =
     andthen (nameiparent path s) (\<lambda>r s.
     case r of None \<Rightarrow> Ok None s
     | Some (dp, name) \<Rightarrow>
     andthen (ilock (Some dp) s) (\<lambda>_ s.
     andthen (dirlookup dp name s) (\<lambda>r s.
     case r of
       Some (ip, _) \<Rightarrow>
         andthen (iunlockput dp s) (\<lambda>_ s.
         andthen (ilock (Some ip) s) (\<lambda>_ s.
         if typ = T_FILE \<and> itype (inodes s ip) = T_FILE then Ok (Some ip) s
         else andthen (iunlockput ip s) (\<lambda>_ s. Ok None s)))
     | None \<Rightarrow>
         andthen (ialloc (idev (inodes s dp)) typ s) (\<lambda>ip s.
         andthen (ilock (Some ip) s) (\<lambda>_ s.
         andthen (iupdate ip (upd_inode ip (\<lambda>x. x\<lparr>imajor := mj, iminor := mn, inlink := 1\<rparr>) s)) (\<lambda>_ s.
         andthen (if typ = T_DIR
                  then andthen (iupdate dp (upd_inode dp (\<lambda>x. x\<lparr>inlink := inlink x + 1\<rparr>) s)) (\<lambda>_ s.
                       andthen (dirlink ip [0x2e] (inum (inodes s ip)) s) (\<lambda>r s.
                       if r < 0 then Panic ''create dots'' s
                       else andthen (dirlink ip [0x2e, 0x2e] (inum (inodes s dp)) s) (\<lambda>r s.
                            if r < 0 then Panic ''create dots'' s else Ok () s)))
                  else Ok () s) (\<lambda>_ s.
         andthen (dirlink dp name (inum (inodes s ip)) s) (\<lambda>r s.
         if r < 0 then Panic ''create: dirlink'' s
         else andthen (iunlockput dp s) (\<lambda>_ s. Ok (Some ip) s)))))))))"

text \<open>\<^verbatim>\<open>O_WRONLY\<close> is 1, \<^verbatim>\<open>O_RDWR\<close> 2, \<^verbatim>\<open>O_CREATE\<close> 0x200.  The first part yields a locked inode.\<close>

definition open_inode :: "u8 list \<Rightarrow> u32 \<Rightarrow> 'z fs_st_scheme \<Rightarrow> (nat option, 'z fs_st_scheme) kres" where
  "open_inode path omode s =
     (if omode AND 0x200 \<noteq> 0 then create path T_FILE 0 0 s
      else andthen (namei path s) (\<lambda>r s.
           case r of None \<Rightarrow> Ok None s
           | Some ip \<Rightarrow>
             andthen (ilock (Some ip) s) (\<lambda>_ s.
             if itype (inodes s ip) = T_DIR \<and> omode \<noteq> 0
             then andthen (iunlockput ip s) (\<lambda>_ s. Ok None s)
             else Ok (Some ip) s)))"

definition sys_open :: "'z file_st_scheme \<Rightarrow> (u32, 'z file_st_scheme) kres" where
  "sys_open s =
     andthen (argpath 0 s) (\<lambda>r s.
     case r of None \<Rightarrow> Ok (- 1) s
     | Some path \<Rightarrow>
     andthen (argint 1 s) (\<lambda>r s.
     case r of None \<Rightarrow> Ok (- 1) s
     | Some omode \<Rightarrow>
     andthen (begin_op s) (\<lambda>_ s.
     andthen (open_inode path omode s) (\<lambda>r s.
     case r of None \<Rightarrow> fail_op s
     | Some ip \<Rightarrow>
     andthen (filealloc s) (\<lambda>r s.
     case r of None \<Rightarrow> andthen (iunlockput ip s) (\<lambda>_ s. fail_op s)
     | Some f \<Rightarrow>
     andthen (fdalloc f s) (\<lambda>r s.
     case r of
       None \<Rightarrow> andthen (fileclose f s) (\<lambda>_ s. andthen (iunlockput ip s) (\<lambda>_ s. fail_op s))
     | Some fd \<Rightarrow>
     andthen (iunlock (Some ip) s) (\<lambda>_ s.
     andthen (end_op s) (\<lambda>_ s.
     Ok (of_nat fd) (upd_file f (\<lambda>x. x\<lparr>ftype := FD_INODE, fip := ip, foff := 0, readable := (omode AND 1 = 0),
         writable := (omode AND 1 \<noteq> 0 \<or> omode AND 2 \<noteq> 0)\<rparr>) s)))))))))"

definition sys_mkdir :: "'z fs_st_scheme \<Rightarrow> (u32, 'z fs_st_scheme) kres" where
  "sys_mkdir s =
     andthen (begin_op s) (\<lambda>_ s.
     andthen (argpath 0 s) (\<lambda>r s.
     case r of None \<Rightarrow> fail_op s
     | Some path \<Rightarrow>
     andthen (create path T_DIR 0 0 s) (\<lambda>r s.
     case r of None \<Rightarrow> fail_op s
     | Some ip \<Rightarrow> andthen (iunlockput ip s) (\<lambda>_ s. andthen (end_op s) (\<lambda>_ s. Ok 0 s)))))"

definition sys_mknod :: "'z fs_st_scheme \<Rightarrow> (u32, 'z fs_st_scheme) kres" where
  "sys_mknod s =
     andthen (begin_op s) (\<lambda>_ s.
     andthen (argpath 0 s) (\<lambda>r s.
     case r of None \<Rightarrow> fail_op s
     | Some path \<Rightarrow>
     andthen (argint 1 s) (\<lambda>r s.
     case r of None \<Rightarrow> fail_op s
     | Some mj \<Rightarrow>
     andthen (argint 2 s) (\<lambda>r s.
     case r of None \<Rightarrow> fail_op s
     | Some mn \<Rightarrow>
     andthen (create path T_DEV (ucast mj) (ucast mn) s) (\<lambda>r s.
     case r of None \<Rightarrow> fail_op s
     | Some ip \<Rightarrow> andthen (iunlockput ip s) (\<lambda>_ s. andthen (end_op s) (\<lambda>_ s. Ok 0 s)))))))"

definition sys_chdir :: "'z fs_st_scheme \<Rightarrow> (u32, 'z fs_st_scheme) kres" where
  "sys_chdir s =
     andthen (myproc s) (\<lambda>cp s.
     andthen (begin_op s) (\<lambda>_ s.
     andthen (argpath 0 s) (\<lambda>r s.
     case r of None \<Rightarrow> fail_op s
     | Some path \<Rightarrow>
     andthen (namei path s) (\<lambda>r s.
     case r of None \<Rightarrow> fail_op s
     | Some ip \<Rightarrow>
     andthen (ilock (Some ip) s) (\<lambda>_ s.
     if itype (inodes s ip) \<noteq> T_DIR then andthen (iunlockput ip s) (\<lambda>_ s. fail_op s)
     else
     andthen (iunlock (Some ip) s) (\<lambda>_ s.
     andthen (proc_ptr cp s) (\<lambda>c s.
     andthen (proc_ptr (cwd (ptable s ! c)) s) (\<lambda>d s.
     andthen (iput d s) (\<lambda>_ s.
     andthen (end_op s) (\<lambda>_ s.
     Ok 0 (upd_proc c (\<lambda>x. x\<lparr>cwd := Some ip\<rparr>) s)))))))))))"

text \<open>
  The argument loop of \<^verbatim>\<open>sys_exec\<close> with \<open>k\<close> slots of \<^verbatim>\<open>argv\<close> left: the string pointers up to the null word.
\<close>

fun exec_argv :: "u32 \<Rightarrow> nat \<Rightarrow> 'z proc_st_scheme \<Rightarrow> (u32 list option, 'z proc_st_scheme) kres" where
  "exec_argv a 0 s = Ok None s"
| "exec_argv a (Suc k) s =
     andthen (fetchint a s) (\<lambda>r s.
     case r of None \<Rightarrow> Ok None s
     | Some uarg \<Rightarrow>
       if uarg = 0 then Ok (Some []) s
       else andthen (fetchstr uarg s) (\<lambda>r s.
            case r of None \<Rightarrow> Ok None s
            | Some (_, p) \<Rightarrow>
              andthen (exec_argv (a + 4) k s) (\<lambda>r s. Ok (map_option (\<lambda>ps. p # ps) r) s)))"

text \<open>\<open>fp\<close> is the address of the locals of \<^verbatim>\<open>exec\<close>.\<close>

definition sys_exec :: "u32 \<Rightarrow> 'z cons_st_scheme \<Rightarrow> (u32, 'z cons_st_scheme) kres" where
  "sys_exec fp s =
     andthen (argpath 0 s) (\<lambda>r s.
     case r of None \<Rightarrow> Ok (- 1) s
     | Some path \<Rightarrow>
     andthen (argint 1 s) (\<lambda>r s.
     case r of None \<Rightarrow> Ok (- 1) s
     | Some uargv \<Rightarrow>
     andthen (exec_argv uargv 32 s) (\<lambda>r s.
     case r of None \<Rightarrow> Ok (- 1) s
     | Some argv \<Rightarrow> andthen (exec fp path argv s) (\<lambda>r s. Ok (of_int r) s))))"

definition sys_pipe :: "'z file_st_scheme \<Rightarrow> (u32, 'z file_st_scheme) kres" where
  "sys_pipe s =
     andthen (argptr 0 8 s) (\<lambda>r s.
     case r of None \<Rightarrow> Ok (- 1) s
     | Some a \<Rightarrow>
     andthen (pipealloc s) (\<lambda>r s.
     case r of None \<Rightarrow> Ok (- 1) s
     | Some (rf0, wf0) \<Rightarrow>
     andthen (fdalloc rf0 s) (\<lambda>r0 s.
     andthen (case r0 of None \<Rightarrow> Ok None s | Some _ \<Rightarrow> fdalloc wf0 s) (\<lambda>r1 s.
     case (r0, r1) of
       (Some fd0, Some fd1) \<Rightarrow>
         andthen (uwrite a (le32 (of_nat fd0)) s) (\<lambda>_ s.
         andthen (uwrite (a + 4) (le32 (of_nat fd1)) s) (\<lambda>_ s. Ok 0 s))
     | _ \<Rightarrow>
         andthen (case r0 of Some fd0 \<Rightarrow> clear_fd fd0 s | None \<Rightarrow> Ok () s) (\<lambda>_ s.
         andthen (fileclose rf0 s) (\<lambda>_ s.
         andthen (fileclose wf0 s) (\<lambda>_ s. Ok (- 1) s)))))))"

section \<open>Dispatch\<close>

definition sys_fork :: "'z file_st_scheme \<Rightarrow> (u32, 'z file_st_scheme) kres" where
  "sys_fork s = andthen (fork s) (\<lambda>r s. Ok (of_int r) s)"

definition sys_exit :: "'z file_st_scheme \<Rightarrow> (u32, 'z file_st_scheme) kres" where
  "sys_exit s = exit s"

text \<open>The table \<^verbatim>\<open>syscalls\<close>, by number.\<close>

definition syscalls :: "u32 \<Rightarrow> int \<Rightarrow> ('z file_st_scheme \<Rightarrow> (u32, 'z file_st_scheme) kres) option" where
  "syscalls fp n =
     (if n = 1 then Some sys_fork else if n = 2 then Some sys_exit else if n = 3 then Some sys_wait
      else if n = 4 then Some sys_pipe else if n = 5 then Some sys_read else if n = 6 then Some sys_kill
      else if n = 7 then Some (sys_exec fp) else if n = 8 then Some sys_fstat else if n = 9 then Some sys_chdir
      else if n = 10 then Some sys_dup else if n = 11 then Some sys_getpid else if n = 12 then Some sys_sbrk
      else if n = 13 then Some sys_sleep else if n = 14 then Some sys_uptime else if n = 15 then Some sys_open
      else if n = 16 then Some sys_write else if n = 17 then Some sys_mknod else if n = 18 then Some sys_unlink
      else if n = 19 then Some sys_link else if n = 20 then Some sys_mkdir else if n = 21 then Some sys_close
      else None)"

definition syscall :: "u32 \<Rightarrow> 'z file_st_scheme \<Rightarrow> (unit, 'z file_st_scheme) kres" where
  "syscall fp s =
     andthen (myproc s) (\<lambda>cp s.
     andthen (proc_ptr cp s) (\<lambda>c s.
     case syscalls fp (sint (load32 (mem s) (tf (ptable s ! c) + 28))) of
       Some f \<Rightarrow>
         andthen (f s) (\<lambda>v s. Ok () (s\<lparr>mem := store32 (mem s) (tf (ptable s ! c) + 28) v\<rparr>))
     | None \<Rightarrow>
         andthen (cprintf (Some (bytes ''%d '' @ spliced (pname (ptable s ! c)) @ bytes '': unknown sys call %d'' @ [10]))
                    (\<lambda>k. if k = 0 then of_int (pid (ptable s ! c)) else load32 (mem s) (tf (ptable s ! c) + 28)) s) (\<lambda>_ s.
         Ok () (s\<lparr>mem := store32 (mem s) (tf (ptable s ! c) + 28) (- 1)\<rparr>))))"

section \<open>Traps\<close>

text \<open>
  \<open>exit_if_killed\<close> is the test that \<^verbatim>\<open>trap\<close> makes around its work; \<open>user\<close> says whether the trap came from user mode.
\<close>

definition exit_if_killed :: "bool \<Rightarrow> 'z file_st_scheme \<Rightarrow> (unit, 'z file_st_scheme) kres" where
  "exit_if_killed user s =
     andthen (myproc s) (\<lambda>p s.
     case p of None \<Rightarrow> Ok () s
     | Some i \<Rightarrow> if killed (ptable s ! i) \<and> user then exit s else Ok () s)"

text \<open>
  The \<^verbatim>\<open>switch\<close> on the trap number of the frame at \<open>a\<close> (\<^verbatim>\<open>trapno\<close> at offset 48, \<^verbatim>\<open>err\<close> at 52, \<^verbatim>\<open>eip\<close> at 56, \<^verbatim>\<open>cs\<close> at
  60); \<open>keys\<close> are the values that the keyboard or serial \<^verbatim>\<open>getc\<close> returns and \<open>cr2\<close> the fault address register.
  The disk interrupt does nothing on the memory disk.  The name in the last message stands in place of its \<^verbatim>\<open>%s\<close>.
\<close>

definition trap_switch :: "int list \<Rightarrow> u32 \<Rightarrow> u32 \<Rightarrow> 'z cons_st_scheme \<Rightarrow> (unit, 'z cons_st_scheme) kres" where
  "trap_switch keys cr2 a s =
     (let trapno = load32 (mem s) (a + 48); err = load32 (mem s) (a + 52); eip = load32 (mem s) (a + 56);
          cs = load16 (mem s) (a + 60)
      in if trapno = 32 then timer_intr s
         else if trapno = 46 \<or> trapno = 47 then Ok () s
         else if trapno = 33 \<or> trapno = 36 then consoleintr keys s
         else if trapno = 39 \<or> trapno = 63 then
           andthen (cpuid s) (\<lambda>cpu s.
           cprintf (Some (bytes ''cpu%d: spurious interrupt at %x:%x'' @ [10])) (\<lambda>k. [of_nat cpu, ucast cs, eip] ! k) s)
         else andthen (myproc s) (\<lambda>p s.
              andthen (cpuid s) (\<lambda>cpu s.
              if p = None \<or> cs AND 3 = 0 then
                andthen (cprintf (Some (bytes ''unexpected trap %d from cpu %d eip %x (cr2=0x%x)'' @ [10]))
                           (\<lambda>k. [trapno, of_nat cpu, eip, cr2] ! k) s) (\<lambda>_ s. Panic ''trap'' s)
              else
                andthen (proc_ptr p s) (\<lambda>i s.
                andthen (cprintf (Some (bytes ''pid %d '' @ spliced (pname (ptable s ! i)) @
                                        bytes '': trap %d err %d on cpu %d eip 0x%x addr 0x%x--kill proc'' @ [10]))
                           (\<lambda>k. [of_int (pid (ptable s ! i)), trapno, err, of_nat cpu, eip, cr2] ! k) s) (\<lambda>_ s.
                Ok () (upd_proc i (\<lambda>x. x\<lparr>killed := True\<rparr>) s))))))"

text \<open>\<open>a\<close> is the address of the trap frame.  After a yield the handler continues with \<open>trap_resume\<close>.\<close>

definition trap :: "u32 \<Rightarrow> int list \<Rightarrow> u32 \<Rightarrow> u32 \<Rightarrow> 'z file_st_scheme \<Rightarrow> (unit, 'z file_st_scheme) kres" where
  "trap fp keys cr2 a s =
     (let trapno = load32 (mem s) (a + 48); user = (load16 (mem s) (a + 60) AND 3 = 3)
      in if trapno = 64 then
           andthen (myproc s) (\<lambda>p s.
           andthen (proc_ptr p s) (\<lambda>i s.
           andthen (if killed (ptable s ! i) then exit s else Ok () s) (\<lambda>_ s.
           andthen (syscall fp (upd_proc i (\<lambda>x. x\<lparr>tf := a\<rparr>) s)) (\<lambda>_ s.
           if killed (ptable s ! i) then exit s else Ok () s))))
         else
           andthen (trap_switch keys cr2 a s) (\<lambda>_ s.
           andthen (exit_if_killed user s) (\<lambda>_ s.
           andthen (if trapno = 32 then mlfq_preempt s else Ok () s) (\<lambda>_ s.
           exit_if_killed user s))))"

definition trap_resume :: "bool \<Rightarrow> bool \<Rightarrow> 'z file_st_scheme \<Rightarrow> (unit, 'z file_st_scheme) kres" where
  "trap_resume ie user s = andthen (yield_resume ie s) (\<lambda>_ s. exit_if_killed user s)"

end
