(* ===== verification/Fd_Frame.thy ===== *)
theory Fd_Frame
  imports Sysfile
begin

text \<open>
  What the routines of the kernel do to file descriptors and to the reference counts of open files: a view of the state that all
  but a few of them leave as it is.  The collection \<open>fd\<close> has one lemma for each of these; the others are in \<^verbatim>\<open>Fd.thy\<close>.
\<close>

section \<open>The view\<close>

text \<open>A slot of the process table without a process that runs: it has no open file.\<close>

definition idle :: "procstate \<Rightarrow> bool" where
  "idle st \<longleftrightarrow> st = UNUSED \<or> st = EMBRYO \<or> st = ZOMBIE"

text \<open>
  What file descriptors depend on: the reference counts of the file table, the descriptor table of every process, which slots
  are idle, and which process runs on which CPU.
\<close>

record fdabs =
  refs :: "nat \<Rightarrow> int"
  desc :: "nat option list list"
  idles :: "bool list"
  who :: "u8 \<times> (u8 \<times> nat option) list"

definition fdview :: "'z file_st_scheme \<Rightarrow> fdabs" where
  "fdview s = \<lparr>refs = (\<lambda>k. fref (files s k)), desc = map ofile (ptable s), idles = map (\<lambda>p. idle (state p)) (ptable s),
     who = (lapicid s, map (\<lambda>c. (apicid c, cpu_proc c)) (cpus s))\<rparr>"

text \<open>The process that the executing CPU runs.\<close>

definition running :: "fdabs \<Rightarrow> nat option" where
  "running w = (case findi (\<lambda>c. fst c = fst (who w)) (snd (who w)) of None \<Rightarrow> None | Some i \<Rightarrow> snd (snd (who w) ! i))"

lemma fdview_fields [simp]:
  "fdview (mem_update f0 s) = fdview s" "fdview (iflag_update f1 s) = fdview s" "fdview (cr3_update f2 s) = fdview s"
  "fdview (kmem_lock_update f3 s) = fdview s" "fdview (use_lock_update f4 s) = fdview s" "fdview (freelist_update f5 s) = fdview s"
  "fdview (kpgdir_update f6 s) = fdview s" "fdview (ptable_lock_update f7 s) = fdview s" "fdview (initproc_update f8 s) = fdview s"
  "fdview (nextpid_update f9 s) = fdview s" "fdview (tickslock_update f10 s) = fdview s" "fdview (ticks_update f11 s) = fdview s"
  "fdview (bcache_lock_update f12 s) = fdview s" "fdview (bufs_update f13 s) = fdview s" "fdview (disk_update f14 s) = fdview s"
  "fdview (dwrites_update f15 s) = fdview s" "fdview (log_lock_update f16 s) = fdview s" "fdview (log_start_update f17 s) = fdview s"
  "fdview (log_size_update f18 s) = fdview s" "fdview (outstanding_update f19 s) = fdview s"
  "fdview (committing_update f20 s) = fdview s" "fdview (log_dev_update f21 s) = fdview s" "fdview (lh_n_update f22 s) = fdview s"
  "fdview (lh_block_update f23 s) = fdview s" "fdview (sb_update f24 s) = fdview s" "fdview (icache_lock_update f25 s) = fdview s"
  "fdview (inodes_update f26 s) = fdview s" "fdview (devsw_update f27 s) = fdview s" "fdview (cons_lock_update f28 s) = fdview s"
  "fdview (panicked_update f29 s) = fdview s" "fdview (in_buf_update f30 s) = fdview s" "fdview (in_r_update f31 s) = fdview s"
  "fdview (in_w_update f32 s) = fdview s" "fdview (in_e_update f33 s) = fdview s" "fdview (crt_pos_update f34 s) = fdview s"
  "fdview (uart_out_update f35 s) = fdview s" "fdview (pipes_update f36 s) = fdview s" "fdview (ftable_lock_update f37 s) = fdview s"
  by (simp_all add: fdview_def)

lemma fdview_upd [simp]:
  "fdview (buf_lock_update b l s) = fdview s" "fdview (inode_lock_update k l s) = fdview s" "fdview (upd_buf b g s) = fdview s"
  "fdview (upd_inode k x s) = fdview s" "fdview (upd_pipe p y s) = fdview s" "fdview (pipe_lock_update p e s) = fdview s"
  "fdview (cli s) = fdview s" "fdview (sti s) = fdview s" "fdview (switchkvm s) = fdview s"
  by (simp_all add: buf_lock_update_def inode_lock_update_def pipe_lock_update_def upd_buf_def upd_inode_def upd_pipe_def
      cli_def sti_def switchkvm_def)

lemma map_upd_same: "f y = f (xs ! i) \<Longrightarrow> map f (xs[i := y]) = map f xs"
  by (cases "i < length xs") (simp_all add: map_update list_update_same_conv list_update_beyond)

lemma fdview_upd_cpu [simp]: "(\<And>c. apicid (g c) = apicid c) \<Longrightarrow> (\<And>c. cpu_proc (g c) = cpu_proc c) \<Longrightarrow> fdview (upd_cpu i g s) = fdview s"
  by (simp add: fdview_def upd_cpu_def map_upd_same)

lemma fdview_upd_proc:
  "ofile (g (ptable s ! i)) = ofile (ptable s ! i) \<Longrightarrow> idle (state (g (ptable s ! i))) = idle (state (ptable s ! i))
    \<Longrightarrow> fdview (upd_proc i g s) = fdview s"
  by (simp add: fdview_def upd_proc_def map_upd_same)

lemma fdview_upd_file: "fref (g (files s k)) = fref (files s k) \<Longrightarrow> fdview (upd_file k g s) = fdview s"
  by (simp add: fdview_def upd_file_def fun_eq_iff)

lemma fd_wakeup1 [simp]: "fdview (wakeup1 ch s) = fdview s"
  by (simp add: fdview_def wakeup1_def wake_def comp_def idle_def)

section \<open>Outcomes\<close>

text \<open>
  \<open>safe P r\<close>: if the routine returns, \<open>P\<close> holds of its value and the state; if it panics, it is not one of the two panics about
  reference counts.  \<open>keeps w r\<close>: if it returns, the view is \<open>w\<close>.
\<close>

definition safe :: "('v \<Rightarrow> 's \<Rightarrow> bool) \<Rightarrow> ('v, 's) kres \<Rightarrow> bool" where
  "safe P r = (case r of Ok v t \<Rightarrow> P v t | Panic m _ \<Rightarrow> m \<noteq> ''filedup'' \<and> m \<noteq> ''fileclose'' | _ \<Rightarrow> True)"

definition keeps :: "fdabs \<Rightarrow> ('v, 'z file_st_scheme) kres \<Rightarrow> bool" where
  "keeps w r = safe (\<lambda>_ t. fdview t = w) r"

named_theorems fd \<open>routines that leave descriptors and reference counts alone\<close>

lemma safe_simps [simp]:
  "safe P (Ok v t) = P v t" "safe P (Panic m t) = (m \<noteq> ''filedup'' \<and> m \<noteq> ''fileclose'')" "safe P (Swtch t)" "safe P (Spin t)"
  by (simp_all add: safe_def)

lemma safe_andthen: "safe Q r \<Longrightarrow> (\<And>v t. Q v t \<Longrightarrow> safe P (k v t)) \<Longrightarrow> safe P (andthen r k)"
  by (cases r) simp_all

lemma safe_weaken: "safe Q r \<Longrightarrow> (\<And>v t. Q v t \<Longrightarrow> P v t) \<Longrightarrow> safe P r"
  by (cases r) simp_all

lemma keeps_simps [simp]:
  "keeps w (Ok v t) = (fdview t = w)" "keeps w (Panic m t) = (m \<noteq> ''filedup'' \<and> m \<noteq> ''fileclose'')" "keeps w (Swtch t)" "keeps w (Spin t)"
  by (simp_all add: keeps_def)

lemma keeps_andthen: "keeps w r \<Longrightarrow> (\<And>v t. fdview t = w \<Longrightarrow> keeps w (k v t)) \<Longrightarrow> keeps w (andthen r k)"
  by (cases r) simp_all

lemma keeps_andthen_eq:
  "keeps w r \<Longrightarrow> (\<And>v t. r = Ok v t \<Longrightarrow> fdview t = w \<Longrightarrow> keeps w (k v t)) \<Longrightarrow> keeps w (andthen r k)"
  by (cases r) simp_all

lemma keeps_then: "keeps w r \<Longrightarrow> (\<And>v t. fdview t = w \<Longrightarrow> safe P (k v t)) \<Longrightarrow> safe P (andthen r k)"
  by (cases r) simp_all

lemma keeps_safe: "keeps w r \<Longrightarrow> (\<And>v t. fdview t = w \<Longrightarrow> P v t) \<Longrightarrow> safe P r"
  by (cases r) simp_all

lemma keeps_andthen_opt:
  "andthen_opt r f = Some x \<Longrightarrow> keeps w r \<Longrightarrow> (\<And>v t. fdview t = w \<Longrightarrow> f v t = Some x \<Longrightarrow> keeps w x) \<Longrightarrow> keeps w x"
  by (cases r) auto

lemma keeps_or_spin: "(\<And>x. r = Some x \<Longrightarrow> keeps w x) \<Longrightarrow> keeps w (or_spin r s)"
  by (cases r) auto

lemma keeps_proc_ptr [fd]: "fdview s = w \<Longrightarrow> keeps w (proc_ptr p s)"
  by (cases p) (simp_all add: proc_ptr_def)

section \<open>Locks and processes\<close>

lemma keeps_mycpu [fd]: "fdview s = w \<Longrightarrow> keeps w (mycpu s)"
  unfolding mycpu_def by (auto split: option.split)

lemma keeps_pushcli [fd]: "fdview s = w \<Longrightarrow> keeps w (pushcli s)"
  unfolding pushcli_def by (auto simp: Let_def intro!: fd keeps_andthen)

lemma keeps_popcli [fd]: "fdview s = w \<Longrightarrow> keeps w (popcli s)"
  unfolding popcli_def by (auto simp: Let_def intro!: fd keeps_andthen)

lemma keeps_holding [fd]: "fdview s = w \<Longrightarrow> keeps w (holding g s)"
  unfolding holding_def by (auto intro!: fd keeps_andthen)

lemma keeps_acquire [fd]: "fdview s = w \<Longrightarrow> (\<And>f s. fdview (u f s) = fdview s) \<Longrightarrow> keeps w (acquire g u s)"
  unfolding acquire_def by (auto simp: Let_def intro!: fd keeps_andthen)

lemma keeps_release [fd]: "fdview s = w \<Longrightarrow> (\<And>f s. fdview (u f s) = fdview s) \<Longrightarrow> keeps w (release g u s)"
  unfolding release_def by (auto intro!: fd keeps_andthen)

lemma keeps_myproc [fd]: "fdview s = w \<Longrightarrow> keeps w (myproc s)"
  unfolding myproc_def by (auto simp: Let_def intro!: fd keeps_andthen)

lemma safe_myproc: "fdview s = w \<Longrightarrow> safe (\<lambda>p t. fdview t = w \<and> p = running w) (myproc s)"
  unfolding myproc_def
proof (rule keeps_then [OF keeps_pushcli], assumption, rule safe_andthen [where Q = "\<lambda>c t. fdview t = w \<and> cpu_proc (cpus t ! c) = running w"])
  fix v t assume "fdview t = w"
  then show "safe (\<lambda>c t. fdview t = w \<and> cpu_proc (cpus t ! c) = running w) (mycpu t)"
    by (auto simp: mycpu_def fdview_def running_def findi_map nth_map [OF conjunct1 [OF iffD1 [OF findi_Some_iff]]] split: option.split)
qed (auto simp: Let_def intro!: fd keeps_then)

lemma keeps_locks [fd]:
  assumes "fdview s = w"
  shows "keeps w (acquire_ptable s)" "keeps w (release_ptable s)" "keeps w (acquire_bcache s)" "keeps w (release_bcache s)"
    "keeps w (acquire_log s)" "keeps w (release_log s)" "keeps w (acquire_icache s)" "keeps w (release_icache s)"
    "keeps w (acquire_ftable s)" "keeps w (release_ftable s)" "keeps w (acquire_cons s)" "keeps w (release_cons s)"
    "keeps w (lock_if_used s)" "keeps w (unlock_if_used s)"
  unfolding acquire_ptable_def release_ptable_def acquire_bcache_def release_bcache_def acquire_log_def release_log_def acquire_icache_def
    release_icache_def acquire_ftable_def release_ftable_def acquire_cons_def release_cons_def lock_if_used_def unlock_if_used_def
  using assms by (auto intro!: fd)

lemma keeps_wakeup [fd]: "fdview s = w \<Longrightarrow> keeps w (wakeup ch s)"
  unfolding wakeup_def by (auto intro!: fd keeps_andthen)

text \<open>A routine that goes to sleep does not return.\<close>

lemma safe_sched: "safe P (sched (s :: 'z file_st_scheme))"
  unfolding sched_def by (auto intro!: keeps_then [where w = "fdview s"] fd)

lemma safe_sleep:
  assumes "\<And>g u. lk = Some (OtherLock g u) \<Longrightarrow> \<forall>f s. fdview (u f s) = fdview s"
  shows "safe P (sleep ch lk (s :: 'z file_st_scheme))"
  unfolding sleep_def
proof (rule keeps_then [where w = "fdview s"], goal_cases)
  case (2 p t)
  then show ?case using assms
    by (auto simp: safe_sched intro!: fd keeps_then [where w = "fdview s"] keeps_andthen split: option.split lockptr.split)
qed (simp add: fd)

lemma keeps_sleep [fd]:
  "keeps w (sched s)" "(\<And>f s. fdview (u f s) = fdview s) \<Longrightarrow> keeps w (sleep ch (Some (OtherLock g u)) s)"
  "keeps w (sleep ch (Some PtableLock) s)"
  unfolding keeps_def by (rule safe_sched safe_sleep; simp)+

section \<open>Memory\<close>

lemma keeps_kfree [fd]: "fdview s = w \<Longrightarrow> keeps w (kfree v s)"
  unfolding kfree_def by (auto simp: Let_def intro!: fd keeps_andthen)

lemma keeps_kalloc [fd]: "fdview s = w \<Longrightarrow> keeps w (kalloc s)"
  unfolding kalloc_def by (auto simp: Let_def split: option.split intro!: fd keeps_andthen)

lemma keeps_walkpgdir [fd]: "fdview s = w \<Longrightarrow> keeps w (walkpgdir pg va al s)"
  unfolding walkpgdir_def by (auto simp: Let_def intro!: fd keeps_andthen)

lemma keeps_mappages [fd]: "fdview s = w \<Longrightarrow> keeps w (mappages pg va n pa perm s)"
proof -
  have "fdview s = w \<Longrightarrow> keeps w (mappages_loop pg a pa perm k s)" for a k
    by (induction k arbitrary: a pa s) (subst mappages_loop.simps, auto simp: Let_def intro!: fd keeps_andthen)+
  then show "fdview s = w \<Longrightarrow> ?thesis" by (simp add: mappages_def Let_def)
qed

lemma keeps_deallocuvm [fd]:
  assumes "fdview s = w" shows "keeps w (deallocuvm pg old new s)"
proof -
  have "fdview s = w \<longrightarrow> keeps w r" if "deallocuvm_loop pg a old s = Some r" for a r
  proof (rule deallocuvm_loop.raw_induct [where P = "\<lambda>_ _ _ s r. fdview s = w \<longrightarrow> keeps w r", rotated, OF that], goal_cases)
    case (1 loop pg a old s r)
    then show ?case
      by (auto simp: Let_def split: if_splits elim!: keeps_andthen_opt intro!: fd)
  qed
  then show ?thesis using assms unfolding deallocuvm_def by (auto intro!: keeps_andthen keeps_or_spin)
qed

lemma keeps_freevm_loop [fd]: "fdview s = w \<Longrightarrow> keeps w (freevm_loop pg xs s)"
  by (induction xs arbitrary: s) (auto simp: Let_def intro!: fd keeps_andthen)

lemma keeps_freevm [fd]: "fdview s = w \<Longrightarrow> keeps w (freevm pg s)"
  unfolding freevm_def by (auto intro!: fd keeps_andthen)

lemma keeps_setupkvm_loop [fd]: "fdview s = w \<Longrightarrow> keeps w (setupkvm_loop pg ks s)"
  by (induction pg ks s rule: setupkvm_loop.induct) (auto intro!: fd keeps_andthen_eq)

lemma keeps_setupkvm [fd]: "fdview s = w \<Longrightarrow> keeps w (setupkvm s)"
  unfolding setupkvm_def by (auto simp: Let_def intro!: fd keeps_andthen)

lemma keeps_allocuvm [fd]:
  assumes "fdview s = w" shows "keeps w (allocuvm pg old new s)"
proof -
  have "fdview s = w \<longrightarrow> keeps w r" if "allocuvm_loop pg a old new s = Some r" for a r
  proof (rule allocuvm_loop.raw_induct [where P = "\<lambda>_ _ _ _ s r. fdview s = w \<longrightarrow> keeps w r", rotated, OF that], goal_cases)
    case (1 loop pg a old new s r)
    then show ?case
      by (auto split: if_splits elim!: keeps_andthen_opt intro!: fd keeps_andthen)
  qed
  then show ?thesis using assms unfolding allocuvm_def by (auto intro!: keeps_or_spin)
qed

lemma keeps_copyuvm [fd]:
  assumes "fdview s = w" shows "keeps w (copyuvm pg n s)"
proof -
  have l: "fdview s = w \<longrightarrow> keeps w r" if "copyuvm_loop pg d i n s = Some r" for d i s r
  proof (rule copyuvm_loop.raw_induct [where P = "\<lambda>_ _ _ _ s r. fdview s = w \<longrightarrow> keeps w r", rotated, OF that], goal_cases)
    case (1 loop pg d i n s r)
    then show ?case
      by (auto simp: Let_def split: if_splits elim!: keeps_andthen_opt intro!: fd keeps_andthen)
  qed
  show ?thesis using assms unfolding copyuvm_def by (auto intro!: fd keeps_andthen keeps_or_spin dest: l)
qed

lemma keeps_clearpteu [fd]: "fdview s = w \<Longrightarrow> keeps w (clearpteu pg a s)"
  unfolding clearpteu_def by (auto intro!: fd keeps_andthen)

lemma keeps_deref [fd]: "fdview s = w \<Longrightarrow> keeps w (deref32 a s)" "fdview s = w \<Longrightarrow> keeps w (deref8 a s)"
  unfolding deref32_def deref8_def by (auto split: option.split)

lemma keeps_uread [fd]: "fdview s = w \<Longrightarrow> keeps w (uread a n s)"
  by (induction n arbitrary: a s) (auto intro!: fd keeps_andthen)

lemma keeps_uwrite [fd]: "fdview s = w \<Longrightarrow> keeps w (uwrite a cs s)"
  by (induction cs arbitrary: a s) (auto split: option.split)

lemma keeps_ustrlen [fd]:
  assumes "fdview s = w" shows "keeps w (ustrlen a s)"
proof -
  have "fdview s = w \<longrightarrow> keeps w r" if "ustrlen_from a n s = Some r" for n r
  proof (rule ustrlen_from.raw_induct [where P = "\<lambda>_ _ s r. fdview s = w \<longrightarrow> keeps w r", rotated, OF that], goal_cases)
    case (1 loop a n s r)
    then show ?case by (auto split: if_splits elim!: keeps_andthen_opt intro!: fd)
  qed
  then show ?thesis using assms unfolding ustrlen_def by (auto intro!: keeps_or_spin)
qed

lemma keeps_uva2ka [fd]: "fdview s = w \<Longrightarrow> keeps w (uva2ka pg a s)"
  unfolding uva2ka_def by (auto intro!: fd keeps_andthen)

lemma keeps_copyout [fd]: "fdview s = w \<Longrightarrow> keeps w (copyout pg va buf len s)"
proof (induction pg va buf len s rule: copyout.induct)
  case (1 pg va buf len s)
  then show ?case by (subst copyout.simps) (auto simp: Let_def intro!: fd keeps_andthen_eq)
qed

lemma keeps_switchuvm [fd]: "fdview s = w \<Longrightarrow> keeps w (switchuvm p s)"
  unfolding switchuvm_def by (auto simp: Let_def split: option.split intro!: fd keeps_andthen)

lemma keeps_growproc [fd]: "fdview s = w \<Longrightarrow> keeps w (growproc n s)"
  unfolding growproc_def by (auto simp: Let_def fdview_upd_proc intro!: fd keeps_andthen)

section \<open>System call arguments\<close>

lemma keeps_fetchint [fd]: "fdview s = w \<Longrightarrow> keeps w (fetchint a s)"
  unfolding fetchint_def by (auto intro!: fd keeps_andthen)

lemma keeps_fetchstr_loop [fd]: "fdview s = w \<Longrightarrow> keeps w (fetchstr_loop pp a ep s)"
proof (induction pp a ep s rule: fetchstr_loop.induct)
  case (1 pp a ep s)
  then show ?case by (subst fetchstr_loop.simps) (auto intro!: fd keeps_andthen_eq)
qed

lemma keeps_fetchstr [fd]: "fdview s = w \<Longrightarrow> keeps w (fetchstr a s)"
  unfolding fetchstr_def by (auto intro!: fd keeps_andthen)

lemma keeps_argint [fd]: "fdview s = w \<Longrightarrow> keeps w (argint n s)"
  unfolding argint_def by (auto intro!: fd keeps_andthen)

lemma keeps_args [fd]:
  assumes "fdview s = w" shows "keeps w (argptr n k s)" "keeps w (argpath n s)"
  unfolding argptr_def argpath_def argstr_def using assms by (auto intro!: fd keeps_andthen split: option.split)

section \<open>Sleep locks, buffers and the log\<close>

lemma keeps_acquiresleep [fd]: "fdview s = w \<Longrightarrow> (\<And>f s. fdview (U f s) = fdview s) \<Longrightarrow> keeps w (acquiresleep ch G U s)"
  unfolding acquiresleep_def acquiresleep_loop_def by (auto simp: Let_def intro!: fd keeps_andthen)

lemma keeps_releasesleep [fd]: "fdview s = w \<Longrightarrow> (\<And>f s. fdview (U f s) = fdview s) \<Longrightarrow> keeps w (releasesleep ch G U s)"
  unfolding releasesleep_def by (auto intro!: fd keeps_andthen)

lemma keeps_holdingsleep [fd]: "fdview s = w \<Longrightarrow> (\<And>f s. fdview (U f s) = fdview s) \<Longrightarrow> keeps w (holdingsleep G U s)"
  unfolding holdingsleep_def by (auto intro!: fd keeps_andthen)

lemma keeps_bget [fd]: "fdview s = w \<Longrightarrow> keeps w (bget dev bno s)"
  unfolding bget_def by (auto split: option.split intro!: fd keeps_andthen)

lemma keeps_iderw [fd]: "fdview s = w \<Longrightarrow> keeps w (iderw b s)"
  unfolding iderw_def by (auto simp: Let_def intro!: fd keeps_andthen)

lemma keeps_bread [fd]: "fdview s = w \<Longrightarrow> keeps w (bread dev bno s)"
  unfolding bread_def by (auto intro!: fd keeps_andthen)

lemma keeps_bwrite [fd]: "fdview s = w \<Longrightarrow> keeps w (bwrite b s)"
  unfolding bwrite_def by (auto intro!: fd keeps_andthen)

lemma keeps_brelse [fd]: "fdview s = w \<Longrightarrow> keeps w (brelse b s)"
  unfolding brelse_def by (auto simp: Let_def intro!: fd keeps_andthen)

lemma keeps_install [fd]: "fdview s = w \<Longrightarrow> keeps w (install_trans_loop ts s)"
  by (induction ts arbitrary: s) (auto intro!: fd keeps_andthen)

lemma keeps_write_log [fd]: "fdview s = w \<Longrightarrow> keeps w (write_log_loop ts s)"
  by (induction ts arbitrary: s) (auto intro!: fd keeps_andthen)

lemma keeps_write_head [fd]: "fdview s = w \<Longrightarrow> keeps w (write_head s)"
  unfolding write_head_def by (auto simp: Let_def intro!: fd keeps_andthen)

lemma keeps_commit [fd]: "fdview s = w \<Longrightarrow> keeps w (commit s)"
  unfolding commit_def write_log_def install_trans_def by (auto intro!: fd keeps_andthen)

lemma keeps_begin_op [fd]: "fdview s = w \<Longrightarrow> keeps w (begin_op s)"
  unfolding begin_op_def begin_op_loop_def by (auto intro!: fd keeps_andthen)

lemma keeps_end_op [fd]: "fdview s = w \<Longrightarrow> keeps w (end_op s)"
  unfolding end_op_def by (auto simp: Let_def intro!: fd keeps_andthen)

lemma keeps_log_write [fd]: "fdview s = w \<Longrightarrow> keeps w (log_write b s)"
  unfolding log_write_def by (auto simp: Let_def intro!: fd keeps_andthen)

section \<open>Inodes, directories and paths\<close>

lemma keeps_bfree [fd]: "fdview s = w \<Longrightarrow> keeps w (bfree dev b s)"
  unfolding bfree_def by (auto simp: Let_def intro!: fd keeps_andthen)

lemma keeps_bzero [fd]: "fdview s = w \<Longrightarrow> keeps w (bzero dev b s)"
  unfolding bzero_def by (auto intro!: fd keeps_andthen)

lemma keeps_balloc_loop [fd]: "fdview s = w \<Longrightarrow> keeps w (balloc_loop dev bs s)"
  by (induction bs arbitrary: s) (auto split: option.split intro!: fd keeps_andthen)

lemma keeps_balloc [fd]: "fdview s = w \<Longrightarrow> keeps w (balloc dev s)"
  unfolding balloc_def by (rule fd)

lemma keeps_iget [fd]: "fdview s = w \<Longrightarrow> keeps w (iget dev n s)"
  unfolding iget_def by (auto split: option.split intro!: fd keeps_andthen)

lemma keeps_ialloc_loop [fd]: "fdview s = w \<Longrightarrow> keeps w (ialloc_loop dev typ ns s)"
  by (induction ns arbitrary: s) (auto simp: Let_def intro!: fd keeps_andthen)

lemma keeps_ialloc [fd]: "fdview s = w \<Longrightarrow> keeps w (ialloc dev typ s)"
  unfolding ialloc_def by (rule fd)

lemma keeps_iupdate [fd]: "fdview s = w \<Longrightarrow> keeps w (iupdate ip s)"
  unfolding iupdate_def by (auto intro!: fd keeps_andthen)

lemma keeps_idup [fd]: "fdview s = w \<Longrightarrow> keeps w (idup ip s)"
  unfolding idup_def by (auto intro!: fd keeps_andthen)

lemma keeps_ilock [fd]: "fdview s = w \<Longrightarrow> keeps w (ilock p s)"
  unfolding ilock_def by (auto simp: Let_def split: option.split intro!: fd keeps_andthen)

lemma keeps_iunlock [fd]: "fdview s = w \<Longrightarrow> keeps w (iunlock p s)"
  unfolding iunlock_def by (auto split: option.split intro!: fd keeps_andthen)

lemma keeps_bmap [fd]: "fdview s = w \<Longrightarrow> keeps w (bmap ip bn s)"
  unfolding bmap_def by (auto simp: Let_def intro!: fd keeps_andthen)

lemma keeps_itrunc_direct [fd]: "fdview s = w \<Longrightarrow> keeps w (itrunc_direct ip xs s)"
  by (induction xs arbitrary: s) (auto intro!: fd keeps_andthen)

lemma keeps_itrunc_indirect [fd]: "fdview s = w \<Longrightarrow> keeps w (itrunc_indirect ip bp js s)"
  by (induction js arbitrary: s) (auto simp: Let_def intro!: fd keeps_andthen)

lemma keeps_itrunc [fd]: "fdview s = w \<Longrightarrow> keeps w (itrunc ip s)"
  unfolding itrunc_def by (auto intro!: fd keeps_andthen)

lemma keeps_iput [fd]: "fdview s = w \<Longrightarrow> keeps w (iput ip s)"
  unfolding iput_def by (auto simp: Let_def intro!: fd keeps_andthen)

lemma keeps_iunlockput [fd]: "fdview s = w \<Longrightarrow> keeps w (iunlockput ip s)"
  unfolding iunlockput_def by (auto intro!: fd keeps_andthen)

lemma keeps_readi_loop [fd]: "fdview s = w \<Longrightarrow> keeps w (readi_loop ip off left s)"
proof (induction ip off left s rule: readi_loop.induct)
  case (1 ip off left s)
  then show ?case by (subst readi_loop.simps) (auto simp: Let_def intro!: fd keeps_andthen_eq)
qed

lemma keeps_readi_data [fd]: "fdview s = w \<Longrightarrow> keeps w (readi_data ip off n s)"
  unfolding readi_data_def by (auto simp: Let_def intro!: fd keeps_andthen)

lemma keeps_writei_loop [fd]: "fdview s = w \<Longrightarrow> keeps w (writei_loop ip src off left s)"
proof (induction ip src off left s rule: writei_loop.induct)
  case (1 ip src off left s)
  then show ?case by (subst writei_loop.simps) (auto simp: Let_def intro!: fd keeps_andthen_eq)
qed

lemma keeps_writei_data [fd]: "fdview s = w \<Longrightarrow> keeps w (writei_data ip src off n s)"
  unfolding writei_data_def by (auto intro!: fd keeps_andthen)

lemma keeps_dirlookup_loop [fd]: "fdview s = w \<Longrightarrow> keeps w (dirlookup_loop dp name xs s)"
  by (induction xs arbitrary: s) (auto split: option.split intro!: fd keeps_andthen)

lemma keeps_dirlookup [fd]: "fdview s = w \<Longrightarrow> keeps w (dirlookup dp name s)"
  unfolding dirlookup_def by (auto intro!: fd)

lemma keeps_dirlink_slot [fd]: "fdview s = w \<Longrightarrow> keeps w (dirlink_slot dp xs s)"
  by (induction xs arbitrary: s) (auto split: option.split intro!: fd keeps_andthen)

lemma keeps_dirlink [fd]: "fdview s = w \<Longrightarrow> keeps w (dirlink dp name n s)"
  unfolding dirlink_def by (auto simp: Let_def split: option.split intro!: fd keeps_andthen)

lemma keeps_namex_loop [fd]: "fdview s = w \<Longrightarrow> keeps w (namex_loop ip path par name s)"
proof (induction ip path par name s rule: namex_loop.induct)
  case (1 ip path par name s)
  then show ?case by (subst namex_loop.simps) (auto split: option.split intro!: fd keeps_andthen_eq)
qed

lemma keeps_namex [fd]: "fdview s = w \<Longrightarrow> keeps w (namex path par s)"
  unfolding namex_def by (auto intro!: fd keeps_andthen)

lemma keeps_namei [fd]: "fdview s = w \<Longrightarrow> keeps w (namei path s)" "fdview s = w \<Longrightarrow> keeps w (nameiparent path s)"
  unfolding namei_def nameiparent_def by (auto intro!: fd keeps_andthen)

section \<open>The console\<close>

lemma keeps_cgaputc [fd]: "fdview s = w \<Longrightarrow> keeps w (cgaputc c s)"
  unfolding cgaputc_def by (auto simp: Let_def)

lemma keeps_consputc [fd]: "fdview s = w \<Longrightarrow> keeps w (consputc c s)"
  unfolding consputc_def by (auto intro!: fd)

lemma keeps_consputs [fd]: "fdview s = w \<Longrightarrow> keeps w (consputs cs s)"
  by (induction cs arbitrary: s) (auto intro!: fd keeps_andthen)

lemma keeps_cprintf_loop [fd]: "fdview s = w \<Longrightarrow> keeps w (cprintf_loop cs argp s)"
proof (induction cs argp s rule: cprintf_loop.induct)
  case (2 c cs argp s)
  then show ?case by (auto simp: printint_def put_cstr_def split: list.split option.split intro!: fd keeps_andthen_eq)
qed simp

lemma keeps_cprintf [fd]: "fdview s = w \<Longrightarrow> keeps w (cprintf fmt argp s)"
  unfolding cprintf_def by (auto simp: Let_def split: option.split intro!: fd keeps_andthen)

lemma keeps_consoleread_loop [fd]: "fdview s = w \<Longrightarrow> keeps w (consoleread_loop k dst n s)"
  by (induction k dst n s rule: consoleread_loop.induct) (auto simp: Let_def simp del: uwrite.simps intro!: fd keeps_andthen_eq)

lemma keeps_consoleread [fd]: "fdview s = w \<Longrightarrow> keeps w (consoleread ip dst n s)"
  unfolding consoleread_def by (auto split: option.split intro!: fd keeps_andthen)

lemma keeps_consolewrite_loop [fd]: "fdview s = w \<Longrightarrow> keeps w (consolewrite_loop src n s)"
  by (induction src n s rule: consolewrite_loop.induct) (auto intro!: fd keeps_andthen_eq)

lemma keeps_consolewrite [fd]: "fdview s = w \<Longrightarrow> keeps w (consolewrite ip src n s)"
  unfolding consolewrite_def by (auto intro!: fd keeps_andthen)

lemma keeps_readi_copy [fd]: "fdview s = w \<Longrightarrow> keeps w (readi_copy ip dst off left s)"
proof (induction ip dst off left s rule: readi_copy.induct)
  case (1 ip dst off left s)
  then show ?case by (subst readi_copy.simps) (auto simp: Let_def intro!: fd keeps_andthen_eq)
qed

lemma keeps_writei_copy [fd]: "fdview s = w \<Longrightarrow> keeps w (writei_copy ip src off left s)"
proof (induction ip src off left s rule: writei_copy.induct)
  case (1 ip src off left s)
  then show ?case by (subst writei_copy.simps) (auto simp: Let_def intro!: fd keeps_andthen_eq)
qed

lemma keeps_readi [fd]: "fdview s = w \<Longrightarrow> keeps w (readi ip dst off n s)"
  unfolding readi_def by (auto simp: Let_def split: option.split intro!: fd keeps_andthen)

lemma keeps_writei [fd]: "fdview s = w \<Longrightarrow> keeps w (writei ip src off n s)"
  unfolding writei_def by (auto simp: Let_def intro!: fd keeps_andthen)

section \<open>Processes and programs\<close>

lemma keeps_loaduvm [fd]:
  assumes "fdview s = w" shows "keeps w (loaduvm pg a ip off n s)"
proof -
  have "fdview s = w \<longrightarrow> keeps w r" if "loaduvm_loop pg a ip off n i s = Some r" for i r
  proof (rule loaduvm_loop.raw_induct [where P = "\<lambda>_ _ _ _ _ _ s r. fdview s = w \<longrightarrow> keeps w r", rotated, OF that], goal_cases)
    case (1 loop pg addr ip off n i s r)
    then show ?case by (auto simp: Let_def split: if_splits elim!: keeps_andthen_opt intro!: fd)
  qed
  then show ?thesis using assms unfolding loaduvm_def by (auto intro!: keeps_or_spin)
qed

lemma keeps_exec_bad [fd]: "fdview s = w \<Longrightarrow> keeps w (exec_bad pg ip s)"
  unfolding exec_bad_def by (auto split: option.split intro!: fd keeps_andthen)

lemma keeps_exec_load [fd]: "fdview s = w \<Longrightarrow> keeps w (exec_load fp ip pg k off n s)"
  by (induction k arbitrary: off n s) (auto simp: Let_def intro!: fd keeps_andthen)

lemma keeps_exec_args [fd]: "fdview s = w \<Longrightarrow> keeps w (exec_args fp pg as argc sp s)"
  by (induction as arbitrary: argc sp s) (auto simp: Let_def intro!: fd keeps_andthen)

lemma keeps_exec_finish [fd]: "fdview s = w \<Longrightarrow> keeps w (exec_finish fp path argv pg n cp entry s)"
  unfolding exec_finish_def by (auto simp: Let_def fdview_upd_proc split: option.split intro!: fd keeps_andthen)

lemma keeps_exec [fd]: "fdview s = w \<Longrightarrow> keeps w (exec fp path argv s)"
  unfolding exec_def by (auto simp: Let_def split: option.split intro!: fd keeps_andthen)

lemma keeps_kill [fd]: "fdview s = w \<Longrightarrow> keeps w (kill n s)"
  unfolding kill_def by (auto simp: Let_def fdview_upd_proc idle_def split: option.split intro!: fd keeps_andthen)

lemma idles_nth: "i < length (ptable s) \<Longrightarrow> idles (fdview s) ! i = idle (state (ptable s ! i))" "length (idles (fdview s)) = length (ptable s)"
  by (simp_all add: fdview_def)

text \<open>An idle slot may take any idle state.\<close>

lemma fdview_idle:
  assumes "fdview s = w" "i < length (idles w)" "idles w ! i" "\<forall>p. ofile (g p) = ofile p \<and> (idle (state p) \<longrightarrow> idle (state (g p)))"
  shows "fdview (upd_proc i g s) = w"
  using assms by (subst fdview_upd_proc) (auto simp: idles_nth)

lemma keeps_wait [fd]: "fdview s = w \<Longrightarrow> keeps w (wait s)"
proof -
  have "keeps w (wait_scan cp s)" if u: "fdview s = w" for cp and s :: "'a file_st_scheme"
  proof (cases "findi (\<lambda>p. parent p = cp \<and> state p = ZOMBIE) (ptable s)")
    case None
    then show ?thesis using u by (auto simp: wait_scan_def intro!: fd keeps_andthen)
  next
    case (Some i)
    then have "i < length (idles w)" "idles w ! i" using u by (auto simp: findi_Some_iff idles_nth idle_def)
    then show ?thesis using u Some
      by (simp add: wait_scan_def Let_def) ((rule keeps_andthen, simp add: fd fdview_idle [where w = w] idle_def)+, simp)
  qed
  then show "fdview s = w \<Longrightarrow> ?thesis" unfolding wait_def by (auto intro!: fd keeps_andthen)
qed

lemma safe_allocproc:
  assumes "fdview s = w"
  shows "safe (\<lambda>r t. fdview t = w \<and> (\<forall>i. r = Some i \<longrightarrow> i < length (idles w) \<and> idles w ! i)) (allocproc s)"
  unfolding allocproc_def
proof (rule keeps_then [OF keeps_locks(1) [OF assms]], goal_cases)
  case (1 v s)
  show ?case
  proof (cases "findi (\<lambda>p. state p = UNUSED) (ptable s)")
    case None
    then show ?thesis using 1 by (auto intro!: keeps_then fd)
  next
    case (Some i)
    then have i: "i < length (idles w)" "idles w ! i" using 1 by (auto simp: findi_Some_iff idles_nth idle_def)
    note f = fdview_idle [OF _ i]
    show ?thesis unfolding Some option.case Let_def
      by (rule keeps_then [where w = w], simp add: fd f 1 idle_def)+ (simp add: f i idle_def)
  qed
qed

section \<open>Reading, writing and naming files\<close>

lemma keeps_pipeclose [fd]: "fdview s = w \<Longrightarrow> keeps w (pipeclose p wr s)"
  unfolding pipeclose_def by (auto intro!: fd keeps_andthen)

lemma keeps_pipewrite_loop [fd]: "fdview s = w \<Longrightarrow> keeps w (pipewrite_loop p a k n s)"
  by (induction k arbitrary: a s) (auto intro!: fd keeps_andthen)

lemma keeps_pipewrite [fd]: "fdview s = w \<Longrightarrow> keeps w (pipewrite p a n s)"
  unfolding pipewrite_def by (auto intro!: fd keeps_andthen)

lemma keeps_piperead_copy [fd]: "fdview s = w \<Longrightarrow> keeps w (piperead_copy p a k s)"
  by (induction k arbitrary: a s) (auto simp: pipe_get_def Let_def simp del: uwrite.simps intro!: fd keeps_andthen)

lemma keeps_piperead [fd]: "fdview s = w \<Longrightarrow> keeps w (piperead p a n s)"
  unfolding piperead_def piperead_loop_def by (auto intro!: fd keeps_andthen)

lemma keeps_put_stat [fd]: "fdview s = w \<Longrightarrow> keeps w (put_stat a st s)"
  unfolding put_stat_def by (auto intro!: fd keeps_andthen)

lemma keeps_filestat [fd]: "fdview s = w \<Longrightarrow> keeps w (filestat f a s)"
  unfolding filestat_def by (auto simp: Let_def intro!: fd keeps_andthen)

lemma keeps_fileread [fd]: "fdview s = w \<Longrightarrow> keeps w (fileread f a n s)"
  unfolding fileread_def by (auto simp: Let_def fdview_upd_file split: ftype.split intro!: fd keeps_andthen)

lemma keeps_filewrite_loop [fd]: "fdview s = w \<Longrightarrow> keeps w (filewrite_loop f a i n s)"
proof (induction f a i n s rule: filewrite_loop.induct)
  case (1 f a i n s)
  then show ?case by (subst filewrite_loop.simps) (auto simp: Let_def fdview_upd_file intro!: fd keeps_andthen_eq)
qed

lemma keeps_filewrite [fd]: "fdview s = w \<Longrightarrow> keeps w (filewrite f a n s)"
  unfolding filewrite_def by (auto split: ftype.split intro!: fd keeps_andthen)

lemma keeps_argfd [fd]: "fdview s = w \<Longrightarrow> keeps w (argfd n s)"
  unfolding argfd_def by (auto simp: Let_def split: option.split intro!: fd keeps_andthen)

lemma keeps_rw_args [fd]: "fdview s = w \<Longrightarrow> keeps w (rw_args s)"
  unfolding rw_args_def by (auto split: option.split intro!: fd keeps_andthen)

lemma keeps_create [fd]: "fdview s = w \<Longrightarrow> keeps w (create path typ mj mn s)"
  unfolding create_def by (auto split: option.split intro!: fd keeps_andthen)

lemma keeps_open_inode [fd]: "fdview s = w \<Longrightarrow> keeps w (open_inode path omode s)"
  unfolding open_inode_def by (auto split: option.split intro!: fd keeps_andthen)

lemma keeps_fail_op [fd]: "fdview s = w \<Longrightarrow> keeps w (fail_op s)"
  unfolding fail_op_def by (auto intro!: fd keeps_andthen)

end
