(* ===== verification/Fd.thy ===== *)
theory Fd
  imports Fd_Frame
begin

text \<open>
  File descriptors and the reference counts of open files, over all processes: the operations that change them as operations on the
  view of \<^verbatim>\<open>Fd_Frame.thy\<close>, the invariant that counts and descriptors agree, and its preservation by every system call and trap that
  returns.  A routine that goes to sleep ends in \<open>Swtch\<close>: about the state in which it sleeps nothing is said.
\<close>

section \<open>Counting\<close>

text \<open>Change the reference count of a file, and set a descriptor of a process.\<close>

definition add_ref :: "nat \<Rightarrow> int \<Rightarrow> fdabs \<Rightarrow> fdabs" where
  "add_ref f d w = w\<lparr>refs := (refs w)(f := refs w f + d)\<rparr>"

definition put_fd :: "nat \<Rightarrow> nat \<Rightarrow> nat option \<Rightarrow> fdabs \<Rightarrow> fdabs" where
  "put_fd c n x w = w\<lparr>desc := (desc w)[c := (desc w ! c)[n := x]]\<rparr>"

text \<open>The number of descriptors, of all processes, that refer to file \<open>f\<close>.\<close>

definition opens :: "fdabs \<Rightarrow> nat \<Rightarrow> nat" where
  "opens w f = sum_list (map (\<lambda>d. count_list d (Some f)) (desc w))"

text \<open>Every file is counted as often as descriptors refer to it; idle slots have none; the running process is not idle.\<close>

definition counted :: "fdabs \<Rightarrow> bool" where
  "counted w \<longleftrightarrow> length (desc w) = NPROC \<and> length (idles w) = NPROC \<and> (\<forall>d \<in> set (desc w). length d = 16)
     \<and> (\<forall>f < NFILE. refs w f = int (opens w f)) \<and> (\<forall>f \<ge> NFILE. opens w f = 0)"

definition closed :: "fdabs \<Rightarrow> nat \<Rightarrow> bool" where
  "closed w c \<longleftrightarrow> (\<forall>n < 16. desc w ! c ! n = None)"

definition fd_ok :: "fdabs \<Rightarrow> bool" where
  "fd_ok w \<longleftrightarrow> counted w \<and> (\<forall>c < NPROC. idles w ! c \<longrightarrow> closed w c) \<and> (\<forall>c. running w = Some c \<longrightarrow> c < NPROC \<and> \<not> idles w ! c)"

lemma fdabs_simps [simp]:
  "refs (put_fd c n x w) = refs w" "idles (put_fd c n x w) = idles w" "who (put_fd c n x w) = who w" "running (put_fd c n x w) = running w"
  "desc (add_ref f d w) = desc w" "idles (add_ref f d w) = idles w" "who (add_ref f d w) = who w" "running (add_ref f d w) = running w"
  "length (desc (put_fd c n x w)) = length (desc w)" "opens (add_ref f d w) = opens w"
  "put_fd c n x (add_ref f d w) = add_ref f d (put_fd c n x w)" "closed (add_ref f d w) c = closed w c"
  by (simp_all add: put_fd_def add_ref_def running_def opens_def closed_def fun_eq_iff split: option.split)

lemma refs_add [simp]: "refs (add_ref f d w) g = (if g = f then refs w g + d else refs w g)"
  by (simp add: add_ref_def)

lemma desc_put: "c < length (desc w) \<Longrightarrow> desc (put_fd c n x w) ! k = (if k = c then (desc w ! c)[n := x] else desc w ! k)"
  by (simp add: put_fd_def nth_list_update)

lemma add_ref_add [simp]: "add_ref f d (add_ref f e w) = add_ref f (e + d) w"
  by (simp add: add_ref_def add.assoc)

lemma add_ref_zero [simp]: "add_ref f 0 w = w"
  by (simp add: add_ref_def)

lemma add_ref_commute: "f \<noteq> g \<Longrightarrow> add_ref f d (add_ref g e w) = add_ref g e (add_ref f d w)"
  by (simp add: add_ref_def fun_upd_twist)

lemma put_put [simp]: "c < length (desc w) \<Longrightarrow> put_fd c n x (put_fd c n y w) = put_fd c n x w"
  by (simp add: put_fd_def)

lemma put_same: "desc w ! c ! n = x \<Longrightarrow> put_fd c n x w = w"
  by (auto simp: put_fd_def)

lemma countedD:
  assumes "counted w"
  shows "length (desc w) = NPROC" "length (idles w) = NPROC" "c < NPROC \<Longrightarrow> length (desc w ! c) = 16"
    "f < NFILE \<Longrightarrow> refs w f = int (opens w f)"
  using assms nth_mem [of c "desc w"] unfolding counted_def by simp_all

lemma count_list_update:
  "n < length d \<Longrightarrow> count_list (d[n := x]) y + (if d ! n = y then 1 else 0) = count_list d y + (if x = y then 1 else 0)"
proof (induction d arbitrary: n)
  case (Cons a d)
  from Cons.IH [of "n - 1"] Cons.prems show ?case by (cases n) (auto split: if_splits)
qed simp

lemma sum_list_update_nat:
  fixes g :: "nat list"
  shows "c < length g \<Longrightarrow> sum_list (g[c := v]) + g ! c = sum_list g + v"
proof (induction g arbitrary: c)
  case (Cons a g)
  then show ?case by (cases c) auto
qed simp

lemma opens_put:
  assumes "c < length (desc w)" "n < length (desc w ! c)"
  shows "opens (put_fd c n x w) f + (if desc w ! c ! n = Some f then 1 else 0) = opens w f + (if x = Some f then 1 else 0)"
  using sum_list_update_nat [of c "map (\<lambda>d. count_list d (Some f)) (desc w)" "count_list ((desc w ! c)[n := x]) (Some f)"]
    count_list_update [OF assms(2), of x "Some f"] assms(1)
  by (simp add: opens_def put_fd_def map_update)

lemma opens_pos:
  assumes "counted w" "c < NPROC" "n < 16" "desc w ! c ! n = Some f"
  shows "0 < opens w f" "f < NFILE" "1 \<le> refs w f"
proof -
  note l = countedD [OF assms(1)]
  show p: "0 < opens w f" using opens_put [of c w n None f] assms l by simp
  then show f: "f < NFILE" using assms(1) by (auto simp: counted_def not_less [symmetric])
  show "1 \<le> refs w f" using p l(4) [OF f] by simp
qed

lemma counted_open:
  assumes "counted w" "c < NPROC" "n < 16" "desc w ! c ! n = None" "f < NFILE"
  shows "counted (add_ref f 1 (put_fd c n (Some f) w))"
proof -
  have l: "c < length (desc w)" "n < length (desc w ! c)" using countedD [OF assms(1)] assms by simp_all
  have "length d = 16" if "d \<in> set (desc (put_fd c n (Some f) w))" for d
    using that assms(1,2) l by (auto simp: put_fd_def counted_def dest!: subsetD [OF set_update_subset_insert])
  moreover have "opens (put_fd c n (Some f) w) g = opens w g + (if g = f then 1 else 0)" for g
    using opens_put [OF l, of "Some f" g] assms(4) by auto
  ultimately show ?thesis using assms by (auto simp: counted_def)
qed

lemma counted_close:
  assumes "counted w" "c < NPROC" "n < 16" "desc w ! c ! n = Some f"
  shows "counted (add_ref f (- 1) (put_fd c n None w))"
proof -
  have l: "c < length (desc w)" "n < length (desc w ! c)" using countedD [OF assms(1)] assms by simp_all
  have "length d = 16" if "d \<in> set (desc (put_fd c n None w))" for d
    using that assms(1,2) l by (auto simp: put_fd_def counted_def dest!: subsetD [OF set_update_subset_insert])
  moreover have "opens (put_fd c n None w) g = opens w g - (if g = f then 1 else 0)" for g
    using opens_put [OF l, of None g] assms(4) by (auto split: if_splits)
  ultimately show ?thesis using assms(1) opens_pos [OF assms] by (simp add: counted_def)
qed

lemma closed_put: "c < length (desc w) \<Longrightarrow> k \<noteq> c \<Longrightarrow> closed (put_fd c n x w) k = closed w k"
  by (simp add: closed_def desc_put)

text \<open>The running process opens or closes a descriptor.\<close>

lemma fd_ok_open:
  assumes "fd_ok w" "running w = Some c" "n < 16" "desc w ! c ! n = None" "f < NFILE"
  shows "fd_ok (add_ref f 1 (put_fd c n (Some f) w))"
proof -
  have c: "c < NPROC" "\<not> idles w ! c" "counted w" using assms by (auto simp: fd_ok_def)
  have "closed (put_fd c n (Some f) w) k = closed w k" if "idles w ! k" for k
    using that c countedD(1) [OF c(3)] by (intro closed_put) auto
  with counted_open [OF c(3,1) assms(3-5)] show ?thesis using assms c by (simp add: fd_ok_def)
qed

lemma fd_ok_close:
  assumes "fd_ok w" "running w = Some c" "n < 16" "desc w ! c ! n = Some f"
  shows "fd_ok (add_ref f (- 1) (put_fd c n None w))"
proof -
  have c: "c < NPROC" "\<not> idles w ! c" "counted w" using assms by (auto simp: fd_ok_def)
  have "closed (put_fd c n None w) k = closed w k" if "idles w ! k" for k
    using that c countedD(1) [OF c(3)] by (intro closed_put) auto
  with counted_close [OF c(3,1) assms(3-4)] show ?thesis using assms c by (simp add: fd_ok_def)
qed

section \<open>The operations on files and descriptors\<close>

lemma fdview_file [simp]:
  "fdview (upd_file f (\<lambda>x. x\<lparr>fref := fref x + d\<rparr>) s) = add_ref f d (fdview s)"
  "fdview (upd_file f (\<lambda>x. x\<lparr>fref := fref x - d\<rparr>) s) = add_ref f (- d) (fdview s)"
  by (simp_all add: fdview_def upd_file_def add_ref_def fun_eq_iff)

lemma fdview_set_ref: "fdview (upd_file f (\<lambda>x. x\<lparr>fref := n\<rparr>) s) = add_ref f (n - refs (fdview s) f) (fdview s)"
  "fdview (upd_file f (\<lambda>x. x\<lparr>fref := n, ftype := ty\<rparr>) s) = add_ref f (n - refs (fdview s) f) (fdview s)"
  by (simp_all add: fdview_def upd_file_def add_ref_def fun_eq_iff)

lemma fdview_put: "fdview (upd_proc c (\<lambda>x. x\<lparr>ofile := (ofile x)[n := v]\<rparr>) s) = put_fd c n v (fdview s)"
  by (cases "c < length (ptable s)")
    (simp_all add: fdview_def upd_proc_def put_fd_def map_update [of ofile] map_upd_same list_update_beyond)

lemma refs_fdview [simp]: "refs (fdview s) f = fref (files s f)"
  by (simp add: fdview_def)

lemma safe_filedup:
  assumes "fdview s = w" "1 \<le> refs w f" shows "safe (\<lambda>g t. g = f \<and> fdview t = add_ref f 1 w) (filedup f s)"
  unfolding filedup_def
proof (rule keeps_then [OF keeps_locks(9) [OF assms(1)]])
  fix v t assume t: "fdview t = w"
  then have "\<not> fref (files t f) < 1" using assms(2) by auto
  then show "safe (\<lambda>g t. g = f \<and> fdview t = add_ref f 1 w)
      (if fref (files t f) < 1 then Panic ''filedup'' t
       else andthen (release_ftable (upd_file f (\<lambda>x. x\<lparr>fref := fref x + 1\<rparr>) t)) (\<lambda>_ s. Ok f s))"
    using t by (auto intro!: keeps_then fd)
qed

lemma safe_fileclose:
  assumes "fdview s = w" "1 \<le> refs w f" shows "keeps (add_ref f (- 1) w) (fileclose f s)"
  unfolding fileclose_def keeps_def
proof (rule keeps_then [OF keeps_locks(9) [OF assms(1)]], fold keeps_def, goal_cases)
  case (1 v t)
  let ?t = "upd_file f (\<lambda>x. x\<lparr>fref := fref x - 1\<rparr>) t"
  have f: "fref (files t f) \<ge> 1" "fdview ?t = add_ref f (- 1) w" using assms(2) 1 by auto
  have u: "fref (files ?t f) = fref (files t f) - 1" by (simp add: upd_file_def)
  have z: "fdview (upd_file f (\<lambda>x. x\<lparr>fref := 0, ftype := FD_NONE\<rparr>) ?t) = add_ref f (- 1) w" if "fref (files t f) = 1"
    unfolding fdview_set_ref(2) f(2) using that 1 by auto
  show ?case
  proof (cases "1 < fref (files t f)")
    case True
    then show ?thesis using f u by (simp add: Let_def fd)
  next
    case False
    then have "fref (files t f) = 1" using f(1) by simp
    then show ?thesis using z u by (auto simp: Let_def split: ftype.split intro!: keeps_andthen fd)
  qed
qed

lemma safe_filealloc:
  assumes "fdview s = w"
  shows "safe (\<lambda>r t. case r of None \<Rightarrow> fdview t = w | Some k \<Rightarrow> k < NFILE \<and> refs w k = 0 \<and> fdview t = add_ref k 1 w) (filealloc s)"
  unfolding filealloc_def
proof (rule keeps_then [OF keeps_locks(9) [OF assms]], goal_cases)
  case (1 v t)
  show ?case
  proof (cases "findi (\<lambda>k. fref (files t k) = 0) [0..<NFILE]")
    case None
    then show ?thesis using 1 by (auto intro!: keeps_then [where w = w] fd)
  next
    case (Some k)
    then have k: "k < NFILE" "fref (files t k) = 0" by (auto simp: findi_Some_iff)
    then have "fdview (upd_file k (\<lambda>x. x\<lparr>fref := 1\<rparr>) t) = add_ref k 1 w" "refs w k = 0"
      using 1 by (auto simp: fdview_set_ref)
    then show ?thesis using Some k(1) by (auto intro!: keeps_then [where w = "add_ref k 1 w"] fd)
  qed
qed

lemma desc_nth: "i < length (desc (fdview s)) \<Longrightarrow> desc (fdview s) ! i = ofile (ptable s ! i)"
  by (simp add: fdview_def)


lemma safe_fdalloc:
  assumes "fdview s = w" "\<And>c. running w = Some c \<Longrightarrow> c < length (desc w)"
  shows "safe (\<lambda>r t. case r of None \<Rightarrow> fdview t = w
    | Some n \<Rightarrow> (\<exists>c. running w = Some c \<and> n < 16 \<and> desc w ! c ! n = None \<and> fdview t = put_fd c n (Some f) w)) (fdalloc f s)"
  unfolding fdalloc_def
proof (rule safe_andthen [OF safe_myproc [OF assms(1)]], goal_cases)
  case (1 p t)
  then show ?case using assms(2)
    by (cases p) (auto simp: proc_ptr_def findi_Some_iff fdview_put desc_nth split: option.split)
qed

lemma safe_clear_fd:
  assumes "fdview s = w" shows "safe (\<lambda>_ t. \<exists>c. running w = Some c \<and> fdview t = put_fd c n None w) (clear_fd n s)"
  unfolding clear_fd_def
proof (rule safe_andthen [OF safe_myproc [OF assms(1)]], goal_cases)
  case (1 p t)
  then show ?case by (auto simp: proc_ptr_def fdview_put split: option.split)
qed

lemma safe_argfd:
  assumes "fdview s = w" "\<And>c. running w = Some c \<Longrightarrow> c < length (desc w)"
  shows "safe (\<lambda>r t. fdview t = w \<and> (\<forall>n f. r = Some (n, f) \<longrightarrow> (\<exists>c. running w = Some c \<and> n < 16 \<and> desc w ! c ! n = Some f))) (argfd k s)"
  unfolding argfd_def
proof (rule keeps_then [OF keeps_argint [OF assms(1)]], goal_cases)
  case (1 r t)
  show ?case
  proof (cases "r = None \<or> sint (the r) < 0 \<or> 16 \<le> sint (the r)")
    case False
    then obtain v where r: "r = Some v" "\<not> (sint v < 0 \<or> 16 \<le> sint v)" "nat (sint v) < 16" by auto
    show ?thesis unfolding r(1) option.case Let_def if_not_P [OF r(2)]
    proof (rule safe_andthen [OF safe_myproc [OF 1]], goal_cases)
      case (1 p u)
      then show ?case using assms(2) r(3) by (cases p) (auto simp: proc_ptr_def desc_nth split: option.split)
    qed
  qed (use 1 in \<open>auto simp: Let_def split: option.split\<close>)
qed

lemma fd_ok_running: "fd_ok w \<Longrightarrow> running w = Some c \<Longrightarrow> c < length (desc w)"
  by (auto simp: fd_ok_def counted_def)

lemma fd_value: "n < 16 \<Longrightarrow> (of_nat n :: u32) \<noteq> - 1"
proof
  assume n: "n < 16" "(of_nat n :: u32) = - 1"
  then have "unat (of_nat (n + 1) :: u32) = unat (0 :: u32)" by simp
  then show False using n(1) by (simp add: unat_of_nat_u32 del: of_nat_add of_nat_Suc)
qed

lemma safe_close_both:
  assumes "fdview s = add_ref g 1 (add_ref f 1 w)" "f \<noteq> g" "0 \<le> refs w f" "0 \<le> refs w g"
  shows "safe (\<lambda>u t. u = v \<and> fdview t = w) (andthen (fileclose f s) (\<lambda>_ s. andthen (fileclose g s) (\<lambda>_ s. Ok v s)))"
proof (rule keeps_then [where w = "add_ref g 1 w"])
  show "keeps (add_ref g 1 w) (fileclose f s)" using safe_fileclose [OF assms(1), of f] assms by (simp add: add_ref_commute [of f g])
  fix t :: "'a file_st_scheme" assume "fdview t = add_ref g 1 w"
  then show "safe (\<lambda>u t. u = v \<and> fdview t = w) (andthen (fileclose g t) (\<lambda>_ s. Ok v s))"
    using safe_fileclose [of t "add_ref g 1 w" g] assms by (intro keeps_then [where w = w]) simp_all
qed

section \<open>System calls\<close>

text \<open>The outcome of a call: descriptors are counted, and where the value is -1 nothing has changed.\<close>

abbreviation no_leak :: "fdabs \<Rightarrow> u32 \<Rightarrow> 'z file_st_scheme \<Rightarrow> bool" where
  "no_leak w v t \<equiv> fd_ok (fdview t) \<and> (v = - 1 \<longrightarrow> fdview t = w)"

lemma safe_dup: "fdview s = w \<Longrightarrow> fd_ok w \<Longrightarrow> safe (no_leak w) (sys_dup s)"
  unfolding sys_dup_def
proof (rule safe_andthen [OF safe_argfd], assumption, erule (1) fd_ok_running, goal_cases)
  case (1 r t)
  show ?case
  proof (cases r)
    case (Some a)
    then obtain n f c where a: "r = Some (n, f)" "running w = Some c" "n < 16" "desc w ! c ! n = Some f" using 1 by (cases a) auto
    then have f: "f < NFILE" "1 \<le> refs w f" using opens_pos [of w c n f] 1(2) by (auto simp: fd_ok_def)
    show ?thesis unfolding a(1) option.case prod.case
    proof (rule safe_andthen [OF safe_fdalloc [where f = f and w = w]], goal_cases)
      case (3 r u)
      show ?case
      proof (cases r)
        case (Some m)
        with 3 a have m: "m < 16" "desc w ! c ! m = None" "fdview u = put_fd c m (Some f) w" by auto
        from fd_value [OF m(1)] show ?thesis unfolding Some option.case using fd_ok_open [OF 1(2) a(2) m(1,2) f(1)] f(2)
          by (intro safe_andthen [OF safe_filedup [OF m(3)]]) simp_all
      qed (use 1 3 in auto)
    qed (use 1 in \<open>auto dest: fd_ok_running\<close>)
  qed (use 1 in auto)
qed

lemma safe_close: "fdview s = w \<Longrightarrow> fd_ok w \<Longrightarrow> safe (\<lambda>_ t. fd_ok (fdview t)) (sys_close s)"
  unfolding sys_close_def
proof (rule safe_andthen [OF safe_argfd], assumption, erule (1) fd_ok_running, goal_cases)
  case (1 r t)
  show ?case
  proof (cases r)
    case (Some a)
    then obtain n f c where a: "r = Some (n, f)" "running w = Some c" "n < 16" "desc w ! c ! n = Some f" using 1 by (cases a) auto
    then have f: "1 \<le> refs w f" using opens_pos [of w c n f] 1(2) by (auto simp: fd_ok_def)
    have "safe (\<lambda>_ t. fd_ok (fdview t)) (andthen (fileclose f u) (\<lambda>_ s. Ok 0 s))" if "fdview u = put_fd c n None w" for u :: "'a file_st_scheme"
      using safe_fileclose [OF that] f fd_ok_close [OF 1(2) a(2-4)] by (auto intro!: keeps_then)
    then show ?thesis unfolding a(1) option.case prod.case
      using 1 a(2) by (intro safe_andthen [OF safe_clear_fd [of t w]]) auto
  qed (use 1 in auto)
qed

lemma safe_pipealloc:
  assumes "fdview s = w"
  shows "safe (\<lambda>r t. case r of None \<Rightarrow> fdview t = w
    | Some (f, g) \<Rightarrow> f < NFILE \<and> g < NFILE \<and> f \<noteq> g \<and> refs w f = 0 \<and> refs w g = 0 \<and> fdview t = add_ref g 1 (add_ref f 1 w)) (pipealloc s)"
  unfolding pipealloc_def
proof (rule safe_andthen [OF safe_filealloc [OF assms]], goal_cases)
  case (1 r t)
  show ?case
  proof (cases r)
    case (Some f)
    then have f: "f < NFILE" "refs w f = 0" "fdview t = add_ref f 1 w" using 1 by auto
    show ?thesis unfolding Some option.case
    proof (rule safe_andthen [OF safe_filealloc [OF f(3)]], goal_cases)
      case (1 r u)
      show ?case
      proof (cases r)
        case None
        have "keeps w (fileclose f u)" using safe_fileclose [of u "add_ref f 1 w" f] 1 None f by simp
        then show ?thesis unfolding None option.case pipealloc_bad_def by (auto intro!: keeps_then)
      next
        case (Some g)
        then have g: "g < NFILE" "g \<noteq> f" "refs w g = 0" "fdview u = add_ref g 1 (add_ref f 1 w)" using 1 f by (auto split: if_splits)
        then show ?thesis unfolding Some option.case pipealloc_bad_def using f
          by (intro keeps_then [OF keeps_kalloc [OF g(4)]]) (auto simp: Let_def fdview_upd_file intro!: safe_weaken [OF safe_close_both])
      qed
    qed
  qed (use 1 in \<open>auto simp: pipealloc_bad_def\<close>)
qed


lemma safe_pipe: "fdview s = w \<Longrightarrow> fd_ok w \<Longrightarrow> safe (no_leak w) (sys_pipe s)"
  unfolding sys_pipe_def
proof (rule keeps_then [OF keeps_args(1)], assumption, goal_cases)
  case (1 r0 t0)
  note ok = 1(2)
  show ?case
  proof (cases r0)
    case (Some a)
    show ?thesis unfolding Some option.case
    proof (rule safe_andthen [OF safe_pipealloc [OF 1(3)]], goal_cases)
      case (1 r1 t1)
      show ?case
      proof (cases r1)
        case (Some fg)
        then obtain f g where fg: "r1 = Some (f, g)" "f < NFILE" "g < NFILE" "f \<noteq> g" "refs w f = 0" "refs w g = 0"
          "fdview t1 = add_ref g 1 (add_ref f 1 w)" using 1 by (cases fg) auto
        note bad = safe_weaken [OF safe_close_both [OF _ fg(4), of _ w "- 1 :: u32"]]
        show ?thesis unfolding fg(1) option.case prod.case
        proof (rule safe_andthen [OF safe_fdalloc [OF fg(7)]], goal_cases)
          case (2 r2 t2)
          show ?case
          proof (cases r2)
            case None
            then show ?thesis using 2 fg ok by (auto intro!: bad)
          next
            case (Some n)
            then obtain c where n: "running w = Some c" "n < 16" "desc w ! c ! n = None" "fdview t2 = add_ref g 1 (add_ref f 1 (put_fd c n (Some f) w))"
              using 2 by auto
            have c: "c < length (desc w)" by (rule fd_ok_running [OF ok n(1)])
            note ok1 = fd_ok_open [OF ok n(1-3) fg(2)]
            show ?thesis unfolding Some option.case
            proof (rule safe_andthen [OF safe_fdalloc [OF n(4)]], goal_cases)
              case (2 r3 t3)
              show ?case
              proof (cases r3)
                case None
                show ?thesis unfolding None prod.case option.case
                  using 2 None n c fg ok by (intro safe_andthen [OF safe_clear_fd [of t3]]) (auto simp: put_same intro!: bad)
              next
                case (Some m)
                then have m: "m < 16" "desc (put_fd c n (Some f) w) ! c ! m = None"
                  "fdview t3 = add_ref g 1 (put_fd c m (Some g) (add_ref f 1 (put_fd c n (Some f) w)))" using 2 n by auto
                have "fd_ok (fdview t3)" using fd_ok_open [OF ok1, of c m g] n m fg by simp
                then show ?thesis unfolding Some prod.case option.case by (auto intro!: keeps_then [where w = "fdview t3"] fd)
              qed
            qed (use c n in auto)
          qed
        qed (use ok in \<open>auto dest: fd_ok_running\<close>)
      qed (use 1 ok in auto)
    qed
  qed (use 1 in auto)
qed

lemma safe_fail:
  assumes "fdview t = w" "fd_ok w"
  shows "safe (no_leak w) (fail_op t)" "safe (no_leak w) (andthen (iunlockput ip t) (\<lambda>_ s. fail_op s))"
  using assms by (auto intro!: keeps_then [OF keeps_iunlockput] keeps_safe [OF keeps_fail_op])

text \<open>The second half of \<^verbatim>\<open>sys_open\<close>, from the file on.\<close>

lemma safe_open_file:
  assumes "fdview t = w" "fd_ok w"
  shows "safe (no_leak w)
     (andthen (filealloc t) (\<lambda>r s.
     case r of None \<Rightarrow> andthen (iunlockput ip s) (\<lambda>_ s. fail_op s)
     | Some f \<Rightarrow>
     andthen (fdalloc f s) (\<lambda>r s.
     case r of
       None \<Rightarrow> andthen (fileclose f s) (\<lambda>_ s. andthen (iunlockput ip s) (\<lambda>_ s. fail_op s))
     | Some fd \<Rightarrow>
     andthen (iunlock (Some ip) s) (\<lambda>_ s.
     andthen (end_op s) (\<lambda>_ s.
     Ok (of_nat fd) (upd_file f (\<lambda>x. x\<lparr>ftype := FD_INODE, fip := ip, foff := 0, readable := rd, writable := wr\<rparr>) s))))))"
proof (rule safe_andthen [OF safe_filealloc [OF assms(1)]], goal_cases)
  case (1 r u)
  show ?case
  proof (cases r)
    case (Some f)
    then have f: "f < NFILE" "refs w f = 0" "fdview u = add_ref f 1 w" using 1 by auto
    show ?thesis unfolding Some option.case
    proof (rule safe_andthen [OF safe_fdalloc [OF f(3)]], goal_cases)
      case (2 r v)
      show ?case
      proof (cases r)
        case None
        then have "keeps w (fileclose f v)" using safe_fileclose [of v "add_ref f 1 w" f] 2 f by simp
        then show ?thesis using None assms(2) by (auto intro!: keeps_then [where r = "fileclose f v"] safe_fail)
      next
        case (Some n)
        then obtain c where n: "running w = Some c" "n < 16" "desc w ! c ! n = None" "fdview v = add_ref f 1 (put_fd c n (Some f) w)"
          using 2 by auto
        then have "fd_ok (fdview v)" using fd_ok_open [OF assms(2) n(1-3) f(1)] by simp
        then show ?thesis unfolding Some option.case using fd_value [OF n(2)]
          by (auto simp: fdview_upd_file intro!: keeps_then [where w = "fdview v"] fd)
      qed
    qed (use assms(2) in \<open>auto dest: fd_ok_running\<close>)
  qed (use 1 assms(2) in \<open>simp add: safe_fail\<close>)
qed

lemma safe_open:
  assumes "fdview s = w" "fd_ok w" shows "safe (no_leak w) (sys_open s)"
  unfolding sys_open_def using assms
  by (auto split: option.split intro!: safe_fail safe_open_file keeps_then [where w = w, OF keeps_args(2)] keeps_then [where w = w, OF keeps_argint]
      keeps_then [where w = w, OF keeps_begin_op] keeps_then [where w = w, OF keeps_open_inode])

section \<open>Process creation and exit\<close>

text \<open>Only the descriptors of process \<open>c\<close> and the counts differ.\<close>

definition same_but :: "nat \<Rightarrow> fdabs \<Rightarrow> fdabs \<Rightarrow> bool" where
  "same_but c w x \<longleftrightarrow> idles x = idles w \<and> who x = who w \<and> (\<forall>k. k \<noteq> c \<longrightarrow> desc x ! k = desc w ! k)"

lemma same_but_refl [simp]: "same_but c w w"
  by (simp add: same_but_def)

lemma same_but_put: "same_but c (put_fd c n v w) x \<Longrightarrow> same_but c w x" "same_but c (add_ref f d w) x = same_but c w x"
  by (auto simp: same_but_def put_fd_def)

lemma safe_fork_files:
  assumes "fdview s = w" "counted w" "c < NPROC" "np < NPROC" "c \<noteq> np" "distinct ns" "\<forall>n \<in> set ns. n < 16 \<and> desc w ! np ! n = None"
  shows "safe (\<lambda>_ t. counted (fdview t) \<and> same_but np w (fdview t)) (fork_files c np ns s)"
  using assms
proof (induction ns arbitrary: s w)
  case (Cons n ns)
  note p = Cons.prems
  have c: "c < length (desc w)" "np < length (desc w)" using countedD [OF p(2)] p by simp_all
  show ?case
  proof (cases "desc w ! c ! n")
    case None
    moreover have "ofile (ptable s ! c) ! n = None" using None p(1) desc_nth [of c s] c by simp
    ultimately show ?thesis using Cons.IH [OF p(1-5)] p by simp
  next
    case (Some f)
    then have o: "ofile (ptable s ! c) ! n = Some f" using p(1) desc_nth [of c s] c by auto
    let ?w = "add_ref f 1 (put_fd np n (Some f) w)"
    have f: "f < NFILE" "1 \<le> refs w f" using opens_pos [OF p(2,3) _ Some] p by auto
    have w: "counted ?w" using counted_open [OF p(2,4) _ _ f(1)] p by auto
    have "\<forall>m \<in> set ns. m < 16 \<and> desc ?w ! np ! m = None" using p(6,7) c by (auto simp: desc_put) (metis nth_list_update_neq)
    then have "safe (\<lambda>_ t. counted (fdview t) \<and> same_but np w (fdview t)) (fork_files c np ns t)" if "fdview t = ?w" for t :: "'a file_st_scheme"
      using Cons.IH [OF that w p(3-5)] p(6) by (auto elim!: safe_weaken simp: same_but_put intro: same_but_put(1))
    then show ?thesis using safe_filedup [OF p(1) f(2)]
      by (auto simp: o andthen_assoc fdview_put intro!: safe_andthen elim!: safe_andthen)
  qed
qed simp

lemma safe_exit_files:
  assumes "fdview s = w" "counted w" "c < NPROC" "\<forall>n \<in> set ns. n < 16"
  shows "safe (\<lambda>_ t. counted (fdview t) \<and> same_but c w (fdview t) \<and>
    (\<forall>n. n \<in> set ns \<or> desc w ! c ! n = None \<longrightarrow> desc (fdview t) ! c ! n = None)) (exit_files c ns s)"
  using assms
proof (induction ns arbitrary: s w)
  case (Cons n ns)
  note p = Cons.prems
  have c: "c < length (desc w)" using countedD [OF p(2)] p by simp_all
  show ?case
  proof (cases "desc w ! c ! n")
    case None
    moreover have "ofile (ptable s ! c) ! n = None" using None p(1) desc_nth [of c s] c by simp
    ultimately show ?thesis using Cons.IH [OF p(1-3)] p by (auto elim!: safe_weaken)
  next
    case (Some f)
    then have o: "ofile (ptable s ! c) ! n = Some f" using p(1) desc_nth [of c s] c by auto
    let ?w = "add_ref f (- 1) (put_fd c n None w)"
    have f: "1 \<le> refs w f" using opens_pos [OF p(2,3) _ Some] p by auto
    have w: "counted ?w" using counted_close [OF p(2,3) _ Some] p by auto
    have "desc ?w ! c ! m = None" if "m = n \<or> desc w ! c ! m = None" for m
      using that c countedD(3) [OF p(2,3)] p(4) by (auto simp: desc_put nth_list_update)
    then have "safe (\<lambda>_ t. counted (fdview t) \<and> same_but c w (fdview t) \<and>
        (\<forall>m. m \<in> set (n # ns) \<or> desc w ! c ! m = None \<longrightarrow> desc (fdview t) ! c ! m = None)) (exit_files c ns t)" if "fdview t = ?w" for t :: "'a file_st_scheme"
      using Cons.IH [OF that w p(3)] p(4) by (auto elim!: safe_weaken simp: same_but_put intro: same_but_put(1))
    then show ?thesis using safe_fileclose [OF p(1) f]
      by (auto simp: o andthen_assoc fdview_put intro!: keeps_then)
  qed
qed simp

text \<open>A new process starts: its slot is no longer idle.\<close>

lemma fdview_start: "fdview (upd_proc np (\<lambda>x. x\<lparr>state := RUNNABLE\<rparr>) s) = (fdview s)\<lparr>idles := (idles (fdview s))[np := False]\<rparr>"
proof -
  have "\<not> idle RUNNABLE" by (simp add: idle_def)
  then show ?thesis by (simp add: fdview_def upd_proc_def map_upd_same map_update [of "\<lambda>p. idle (state p)"])
qed

lemma fd_ok_start:
  assumes "fd_ok w" "idles w ! np" "np < NPROC" "counted x" "same_but np w x"
  shows "fd_ok (x\<lparr>idles := (idles x)[np := False]\<rparr>)"
proof -
  have r: "running (x\<lparr>idles := (idles x)[np := False]\<rparr>) = running w" using assms(5) by (auto simp: running_def same_but_def split: option.split)
  have "counted (x\<lparr>idles := (idles x)[np := False]\<rparr>)" using assms(4) by (simp add: counted_def opens_def)
  moreover have "closed (x\<lparr>idles := (idles x)[np := False]\<rparr>) c" if "c < NPROC" "(idles x)[np := False] ! c" for c
    using that assms by (cases "c = np") (auto simp: fd_ok_def same_but_def closed_def counted_def)
  moreover have "c < NPROC \<and> \<not> (idles x)[np := False] ! c" if "running w = Some c" for c
    using that assms by (cases "c = np") (auto simp: fd_ok_def same_but_def)
  ultimately show ?thesis unfolding fd_ok_def r by simp
qed


lemma safe_fork: "fdview s = w \<Longrightarrow> fd_ok w \<Longrightarrow> safe (\<lambda>_ t. fd_ok (fdview t)) (fork s)"
  unfolding fork_def
proof (rule safe_andthen [OF safe_myproc], assumption, rule safe_andthen [OF safe_allocproc], erule conjunct1, goal_cases)
  case (1 cp t0 r t1)
  show ?case
  proof (cases "r = None \<or> cp = None")
    case False
    then obtain np c where rc: "r = Some np" "cp = Some c" by auto
    have c: "running w = Some c" "c < NPROC" "c \<noteq> np" "np < NPROC" "idles w ! np" "counted w"
      using 1 rc by (auto simp: fd_ok_def counted_def)
    have np: "desc w ! np ! n = None" if "n < 16" for n using 1(2) c that by (auto simp: fd_ok_def closed_def)
    have i: "np < length (idles w)" using countedD(2) [OF c(6)] c(4) by simp
    note f = fdview_idle [OF _ i c(5)]
    have k: "keeps w (copyuvm p n t1)" for p n using 1 by (simp add: fd)
    show ?thesis unfolding rc option.case proc_ptr_def [of "Some c"] andthen.simps
    proof (rule keeps_then [OF k], goal_cases)
      case (1 pg t2)
      note t2 = 1
      show ?case
      proof (cases "pg = 0")
        case True
        have "keeps w (kfree a t)" if "fdview t = w" for a and t :: "'a file_st_scheme" using that by (rule fd)
        then show ?thesis using t2 True \<open>fd_ok w\<close> by (auto simp: Let_def f idle_def intro!: keeps_then [where w = w])
      next
        case False
        show ?thesis unfolding Let_def if_not_P [OF False]
        proof (rule safe_andthen [OF safe_fork_files [where w = w, OF _ c(6,2,4,3)]], goal_cases)
          case (4 v t3)
          have k: "fd_ok ((fdview t3)\<lparr>idles := (idles (fdview t3))[np := False]\<rparr>)"
            using fd_ok_start [OF \<open>fd_ok w\<close> c(5,4)] 4 by blast
          show ?case
            by (rule keeps_then [where w = "fdview t3", OF keeps_proc_ptr [OF refl]],
                rule keeps_then [where w = "fdview t3", OF keeps_idup], assumption,
                rule keeps_then [where w = "fdview t3", OF keeps_locks(1)], simp add: fdview_upd_proc)
              (auto simp: fdview_start k intro!: keeps_then [where w = "(fdview t3)\<lparr>idles := (idles (fdview t3))[np := False]\<rparr>"] fd)
        qed (use t2 np in \<open>simp_all add: f\<close>)
      qed
    qed
  qed (use 1 in \<open>auto simp: proc_ptr_def split: option.split\<close>)
qed

lemma safe_exit: "fdview s = w \<Longrightarrow> fd_ok w \<Longrightarrow> safe P (exit s)"
  unfolding exit_def
proof (rule safe_andthen [OF safe_myproc], assumption, goal_cases)
  case (1 cp t)
  show ?case
  proof (cases cp)
    case (Some c)
    then have c: "c < NPROC" "counted w" using 1 by (auto simp: fd_ok_def)
    have "safe (\<lambda>_ _. True) (exit_files c [0..<16] t)" using 1 c by (intro safe_weaken [OF safe_exit_files]) auto
    then show ?thesis unfolding Some proc_ptr_def [of "Some c"] andthen.simps
      by (auto simp: safe_sched Let_def intro!: safe_andthen [where Q = "\<lambda>_ _. True"] keeps_safe [OF keeps_begin_op [OF refl]]
          keeps_safe [OF keeps_proc_ptr [OF refl]] keeps_safe [OF keeps_iput [OF refl]] keeps_safe [OF keeps_end_op [OF refl]]
          keeps_safe [OF keeps_locks(1) [OF refl]])
  qed (use 1 in \<open>auto simp: proc_ptr_def\<close>)
qed

section \<open>Every trap\<close>

lemma keeps_isdirempty_loop [fd]: "fdview s = w \<Longrightarrow> keeps w (isdirempty_loop dp xs s)"
  by (induction xs arbitrary: s) (auto split: option.split intro!: fd keeps_andthen)

lemma keeps_exec_argv [fd]: "fdview s = w \<Longrightarrow> keeps w (exec_argv a k s)"
  by (induction k arbitrary: a s) (auto split: option.split intro!: fd keeps_andthen)

lemma keeps_sys_names [fd]:
  assumes "fdview s = w"
  shows "keeps w (sys_link s)" "keeps w (sys_unlink s)" "keeps w (sys_mkdir s)" "keeps w (sys_mknod s)" "keeps w (sys_chdir s)"
  unfolding sys_link_def link_bad_def sys_unlink_def unlink_bad_def isdirempty_def sys_mkdir_def sys_mknod_def sys_chdir_def
  using assms by (auto simp: fdview_upd_proc split: option.split intro!: fd keeps_andthen)

lemma keeps_sys_rw [fd]:
  assumes "fdview s = w"
  shows "keeps w (sys_read s)" "keeps w (sys_write s)" "keeps w (sys_fstat s)" "keeps w (sys_exec fp s)"
  unfolding sys_read_def sys_write_def sys_fstat_def sys_exec_def
  using assms by (auto split: option.split intro!: fd keeps_andthen)

lemma keeps_sys_proc [fd]:
  assumes "fdview s = w"
  shows "keeps w (sys_wait s)" "keeps w (sys_kill s)" "keeps w (sys_getpid s)" "keeps w (sys_sbrk s)" "keeps w (sys_sleep s)" "keeps w (sys_uptime s)"
  unfolding sys_wait_def sys_kill_def sys_getpid_def sys_sbrk_def sys_sleep_def sys_sleep_loop_def sys_uptime_def
  using assms by (auto simp: Let_def split: option.split intro!: fd keeps_andthen)

lemma safe_syscalls:
  assumes "fdview s = w" "fd_ok w" "syscalls fp n = Some f" shows "safe (\<lambda>_ t. fd_ok (fdview t)) (f s)"
proof -
  have k: "safe (\<lambda>_ t. fd_ok (fdview t)) r" if "keeps w r" for r :: "(u32, 'a file_st_scheme) kres"
    using that assms(2) by (auto intro: keeps_safe)
  have l: "safe (\<lambda>_ t. fd_ok (fdview t)) r" if "safe (no_leak w) r" for r :: "(u32, 'a file_st_scheme) kres"
    using that by (rule safe_weaken) simp
  have "safe (\<lambda>_ t. fd_ok (fdview t)) (sys_fork s)" unfolding sys_fork_def
    by (rule safe_andthen [OF safe_fork [OF assms(1,2)]]) simp
  moreover have "safe (\<lambda>_ t. fd_ok (fdview t)) (sys_exit s)" unfolding sys_exit_def by (rule safe_exit [OF assms(1,2)])
  ultimately show ?thesis using assms(3) l [OF safe_dup] l [OF safe_pipe] l [OF safe_open] safe_close [OF assms(1,2)] assms(1,2)
    unfolding syscalls_def by (auto split: if_splits intro!: k fd)
qed

lemma safe_syscall:
  assumes "fdview s = w" "fd_ok w" shows "safe (\<lambda>_ t. fd_ok (fdview t)) (syscall fp s)"
  unfolding syscall_def
proof (rule keeps_then [OF keeps_myproc [OF assms(1)]], rule keeps_then [OF keeps_proc_ptr], assumption, goal_cases)
  case (1 cp t c u)
  show ?case
  proof (cases "syscalls fp (sint (load32 (mem u) (tf (ptable u ! c) + 28))) :: ('a file_st_scheme \<Rightarrow> _) option")
    case (Some f)
    show ?thesis unfolding Some option.case
      by (rule safe_andthen [OF safe_syscalls [OF 1(2) assms(2) Some]]) simp
  qed (use 1 assms in \<open>auto intro!: keeps_then [where w = w, OF keeps_cprintf]\<close>)
qed

lemma keeps_kill_line [fd]: "fdview s = w \<Longrightarrow> keeps w (kill_line s)"
proof (induction s rule: kill_line.induct)
  case (1 s)
  then show ?case by (subst kill_line.simps) (auto intro!: fd keeps_andthen_eq)
qed

lemma keeps_consoleintr_char [fd]: "fdview s = w \<Longrightarrow> keeps w (consoleintr_char c s)"
  unfolding consoleintr_char_def by (auto simp: Let_def intro!: fd keeps_andthen)

lemma keeps_consoleintr_loop [fd]: "fdview s = w \<Longrightarrow> keeps w (consoleintr_loop cs d s)"
  by (induction cs arbitrary: d s) (auto intro!: fd keeps_andthen)

lemma keeps_procdump_pcs [fd]: "fdview s = w \<Longrightarrow> keeps w (procdump_pcs pcs s)"
  by (induction pcs arbitrary: s) (auto intro!: fd keeps_andthen)

lemma keeps_procdump_loop [fd]: "fdview s = w \<Longrightarrow> keeps w (procdump_loop xs s)"
  by (induction xs arbitrary: s) (auto simp: Let_def intro!: fd keeps_andthen)

lemma keeps_consoleintr [fd]: "fdview s = w \<Longrightarrow> keeps w (consoleintr cs s)"
  unfolding consoleintr_def procdump_def by (auto intro!: fd keeps_andthen)

lemma keeps_trap_switch [fd]: "fdview s = w \<Longrightarrow> keeps w (trap_switch keys cr2 a s)"
  unfolding trap_switch_def timer_intr_def cpuid_def Let_def by (auto simp: fdview_upd_proc intro!: fd keeps_andthen)

lemma keeps_yield [fd]: "keeps w (yield s)"
  unfolding yield_def keeps_def
  by (rule keeps_then [OF keeps_locks(1) [OF refl]], rule keeps_then [OF keeps_myproc [OF refl]],
      rule keeps_then [OF keeps_proc_ptr [OF refl]], rule safe_sched)

lemma keeps_mlfq_preempt [fd]: "fdview s = w \<Longrightarrow> keeps w (mlfq_preempt s)"
  unfolding mlfq_preempt_def by (auto split: option.split intro!: keeps_andthen fd)

lemma safe_exit_if_killed: "fdview s = w \<Longrightarrow> fd_ok w \<Longrightarrow> safe (\<lambda>_ t. fdview t = w) (exit_if_killed user s)"
  unfolding exit_if_killed_def by (auto split: option.split intro!: keeps_then [where w = w, OF keeps_myproc] safe_exit)

lemma safe_trap:
  assumes "fdview s = w" "fd_ok w" shows "safe (\<lambda>_ t. fd_ok (fdview t)) (trap fp keys cr2 a s)"
proof (cases "load32 (mem s) (a + 48) = 64")
  case True
  have sc: "safe (\<lambda>_ t. fd_ok (fdview t))
      (andthen (syscall fp (upd_proc i (\<lambda>x. x\<lparr>tf := a\<rparr>) t)) (\<lambda>_ s. if killed (ptable s ! i) then exit s else Ok () s))"
    if "fdview t = w" for i and t :: "'a file_st_scheme"
    using that assms(2) by (intro safe_andthen [OF safe_syscall [of _ w]]) (auto simp: fdview_upd_proc intro: safe_exit)
  show ?thesis unfolding trap_def Let_def if_P [OF True]
    by (rule keeps_then [OF keeps_myproc [OF assms(1)]], rule keeps_then [OF keeps_proc_ptr], assumption,
        rule safe_andthen [where Q = "\<lambda>_ t. fdview t = w"]) (use assms in \<open>auto intro: safe_exit sc\<close>)
next
  case False
  show ?thesis unfolding trap_def Let_def if_not_P [OF False]
    by (rule keeps_then [OF keeps_trap_switch [OF assms(1)]], rule safe_andthen [OF safe_exit_if_killed [OF _ assms(2)]], assumption,
        rule keeps_then [where w = w]) (use assms in \<open>auto intro!: fd safe_weaken [OF safe_exit_if_killed]\<close>)
qed

section \<open>Examples\<close>

text \<open>Process 0 has file 5 open as its descriptor 0 and calls \<^verbatim>\<open>dup(0)\<close>; the trap frame is at \<^verbatim>\<open>0x80300000\<close>, the page tables as in \<open>file_demo\<close>.\<close>

definition fd_demo :: file_st where
  "fd_demo = file_demo\<lparr>ptable := (ptable file_demo)[0 := (ptable file_demo ! 0)\<lparr>ofile := Some 5 # replicate 15 None\<rparr>],
     files := (files file_demo)(5 := zero_file\<lparr>fref := 1, readable := True\<rparr>),
     mem := (\<lambda>_. 0)(0x80200000 := 7, 0x80200001 := 0x10, 0x80200002 := 0x20, 0x80201000 := 7, 0x80201001 := 0x20, 0x80201002 := 0x20,
       0x80300030 := 64, 0x8030001C := 10)\<rparr>"

declare kalloc_scan.simps [code]

lemmas fd_example = fd_ok_def counted_def closed_def opens_def running_def fdview_def file_demo_def demo_proc_def idle_def zero_file_def
  sum_list_replicate nth_Cons'

lemma fd_demo_ok: "fd_ok (fdview fd_demo)"
  by (simp add: fd_example fd_demo_def)

text \<open>The state in which \<^verbatim>\<open>sys_dup\<close> is entered.\<close>

definition fd_call :: file_st where
  "fd_call = settled 0 (upd_proc 0 (\<lambda>x. x\<lparr>tf := 0x80300000\<rparr>) (settled 0 fd_demo))"

lemma fd_demo_trap:
  "trap 0 [] 0 0x80300000 fd_demo = andthen (sys_dup fd_call) (\<lambda>v s. let s = s\<lparr>mem := store32 (mem s) (tf (ptable s ! 0) + 28) v\<rparr> in if killed (ptable s ! 0) then exit s else Ok () s)"
proof -
  have c: "cur fd_demo 0 0" "cur (upd_proc 0 (\<lambda>x. x\<lparr>tf := 0x80300000\<rparr>) (settled 0 fd_demo)) 0 0"
    by (simp_all add: cur_def on_cpu_def fd_demo_def file_demo_def settled_def upd_proc_def)
  have k: "\<not> killed (ptable fd_demo ! 0)" by (simp add: fd_demo_def file_demo_def demo_proc_def)
  have m: "load32 (mem fd_demo) 0x80300030 = 64" "load32 (mem fd_call) 0x8030001C = 10" "tf (ptable fd_call ! 0) = 0x80300000"
    by (simp_all add: load32_def fd_demo_def fd_call_def settled_def upd_proc_def file_demo_def)
  show ?thesis
    by (simp add: trap_def syscall_def myproc_cur [OF c(1)] myproc_cur [OF c(2)] fd_call_def [symmetric] m k proc_ptr_def)
       (simp add: syscalls_def andthen_assoc Let_def)
qed

lemma fd_call_dup: "case sys_dup fd_call of Ok v t \<Rightarrow> fref (files t 5) = 2 \<and> \<not> killed (ptable t ! 0) \<and> ofile (ptable t ! 0) ! 1 = Some 5 | _ \<Rightarrow> False"
  by code_simp

text \<open>There is no free page: \<^verbatim>\<open>pipe\<close> takes two files and gives them back.\<close>

lemma fd_demo_pipe: "case sys_pipe fd_demo of Ok v t \<Rightarrow> v = - 1 | _ \<Rightarrow> False"
  by code_simp

section \<open>The properties\<close>

text \<open>
  C4: file references are counted.  If every open file is counted as often as descriptors refer to it, slots without a
  process have none open, and a live process is running, then the same holds after every system call, interrupt or fault that returns to it;
  and none of them runs into the panics of \<^verbatim>\<open>filedup\<close> and \<^verbatim>\<open>fileclose\<close>, which guard against a count that is too low.
\<close>

theorem trap_counts_files:
  assumes "fd_ok (fdview s)"
  shows "case trap fp keys fault a s of Ok _ t \<Rightarrow> fd_ok (fdview t) | Panic m _ \<Rightarrow> m \<noteq> ''filedup'' \<and> m \<noteq> ''fileclose'' | _ \<Rightarrow> True"
  using safe_trap [OF refl assms, of fp keys fault a] by (simp add: safe_def)

theorem trap_counts_files_witness:
  "\<exists>t. trap 0 [] 0 0x80300000 fd_demo = Ok () t \<and> fref (files t 5) = 2 \<and> fd_ok (fdview t)"
proof -
  obtain v u where u: "sys_dup fd_call = Ok v u" "fref (files u 5) = 2" "\<not> killed (ptable u ! 0)"
    using fd_call_dup by (cases "sys_dup fd_call") auto
  then show ?thesis using trap_counts_files [OF fd_demo_ok, where fp = 0 and keys = "[]" and fault = 0 and a = "0x80300000"] by (simp add: fd_demo_trap Let_def)
qed

text \<open>
  C5: a system call that fails to open leaves nothing behind.  When \<^verbatim>\<open>open\<close>, \<^verbatim>\<open>pipe\<close> or \<^verbatim>\<open>dup\<close> returns -1, the reference counts of all
  files and the descriptors of all processes are what they were.
\<close>

theorem failed_open_leaks_nothing:
  assumes "fd_ok (fdview s)" "f \<in> {sys_open, sys_pipe, sys_dup}" "f s = Ok (- 1) t"
  shows "refs (fdview t) = refs (fdview s) \<and> desc (fdview t) = desc (fdview s)"
proof -
  have "safe (no_leak (fdview s)) (f s)" using assms(2) safe_open [OF refl assms(1)] safe_pipe [OF refl assms(1)] safe_dup [OF refl assms(1)] by auto
  then show ?thesis using assms(3) by simp
qed

theorem failed_open_leaks_nothing_witness:
  "\<exists>t. sys_pipe fd_demo = Ok (- 1) t \<and> refs (fdview t) 5 = 1 \<and> desc (fdview t) ! 0 = Some 5 # replicate 15 None"
proof -
  obtain t where t: "sys_pipe fd_demo = Ok (- 1) t" using fd_demo_pipe by (cases "sys_pipe fd_demo") auto
  moreover have "refs (fdview t) = refs (fdview fd_demo) \<and> desc (fdview t) = desc (fdview fd_demo)"
    by (rule failed_open_leaks_nothing [where f = sys_pipe, OF fd_demo_ok _ t]) simp
  moreover have "refs (fdview fd_demo) 5 = 1" "desc (fdview fd_demo) ! 0 = Some 5 # replicate 15 None"
    by (simp_all add: fdview_def fd_demo_def file_demo_def)
  ultimately show ?thesis by (intro exI [of _ t]) (simp del: refs_fdview)
qed

end
