(* ===== verification/Umalloc.thy ===== *)
theory Umalloc imports Layout begin

text \<open>
  The memory allocator of user programs (\<^verbatim>\<open>umalloc.c\<close>): a ring of free blocks in the program's own memory, in the
  order of their addresses, grown with \<^verbatim>\<open>sbrk\<close>.  This theory holds the model, the ring as a list of blocks, and
  the effect of \<^verbatim>\<open>free\<close> on it.
\<close>

section \<open>The program's view of its memory\<close>

text \<open>
  A program sees byte memory, mapped up to the end of the page that holds its break; an access
  beyond it is a page fault, on which the kernel kills the process.  The pointer \<^verbatim>\<open>freep\<close> is kept
  apart from memory; the header \<^verbatim>\<open>base\<close> lies in memory at an address \<open>B\<close> chosen by the linker.
  Results are optional: \<open>None\<close> is a loop that runs forever.
\<close>

record uheap =
  umem :: memory
  freep :: u32
  brk :: u32

datatype 'a ures = Ret 'a uheap | Fault uheap

type_synonym 'a urun = "'a ures option"

definition uthen :: "'a urun \<Rightarrow> ('a \<Rightarrow> uheap \<Rightarrow> 'b urun) \<Rightarrow> 'b urun" where
  "uthen r f = (case r of None \<Rightarrow> None | Some (Ret a s) \<Rightarrow> f a s | Some (Fault s) \<Rightarrow> Some (Fault s))"

lemma uthen_simps [simp]:
  "uthen (Some (Ret a s)) f = f a s" "uthen (Some (Fault s)) f = Some (Fault s)" "uthen None f = None"
  by (simp_all add: uthen_def)

lemma uthen_mono [partial_function_mono]:
  assumes "\<And>a s. mono_option (\<lambda>f. C f a s)"
  shows "mono_option (\<lambda>f. uthen r (\<lambda>a s. C f a s))"
  using assms by (auto simp: monotone_def uthen_def flat_ord_def split: option.split ures.split)

definition mapped :: "uheap \<Rightarrow> u32 \<Rightarrow> bool" where
  "mapped s a \<longleftrightarrow> unat a + 4 \<le> unat (PGROUNDUP (brk s))"

definition uload :: "u32 \<Rightarrow> uheap \<Rightarrow> u32 urun" where
  "uload a s = Some (if mapped s a then Ret (load32 (umem s) a) s else Fault s)"

definition ustore :: "u32 \<Rightarrow> u32 \<Rightarrow> uheap \<Rightarrow> unit urun" where
  "ustore a v s = Some (if mapped s a then Ret () (s\<lparr>umem := store32 (umem s) a v\<rparr>) else Fault s)"

text \<open>
  \<^verbatim>\<open>sbrk(n)\<close> as \<^verbatim>\<open>growproc\<close>, \<^verbatim>\<open>allocuvm\<close> and \<^verbatim>\<open>deallocuvm\<close> answer it; \<open>avail old new\<close> says whether the
  kernel has the pages to grow.  The argument is signed.  New pages are zero.  A break moved to 0
  unmaps the program itself.
\<close>

definition sbrk :: "(u32 \<Rightarrow> u32 \<Rightarrow> bool) \<Rightarrow> u32 \<Rightarrow> uheap \<Rightarrow> u32 urun" where
  "sbrk avail n s =
     (let old = brk s; new = old + n
      in if sint n > 0 then
           (if KERNBASE \<le> new then Some (Ret (- 1) s)
            else if new < old then Some (Ret old s)
            else if \<not> avail old new then Some (Ret (- 1) s)
            else Some (Ret old (s\<lparr>brk := new,
              umem := (\<lambda>a. if PGROUNDUP old \<le> a \<and> a < PGROUNDUP new then 0 else umem s a)\<rparr>)))
         else if sint n < 0 then
           (if old \<le> new then Some (Ret old s)
            else if new = 0 then Some (Fault s)
            else Some (Ret old (s\<lparr>brk := new\<rparr>)))
         else Some (Ret old s))"

section \<open>The allocator\<close>

text \<open>
  A header is two words: the pointer to the next free block at its address and the size, in units of
  eight bytes and header included, four bytes further.
\<close>

partial_function (option) free_find :: "u32 \<Rightarrow> u32 \<Rightarrow> uheap \<Rightarrow> u32 urun" where
  "free_find bp p s =
     uthen (uload p s) (\<lambda>q s.
     if bp > p \<and> bp < q then Some (Ret p s)
     else if p \<ge> q \<and> (bp > p \<or> bp < q) then Some (Ret p s)
     else free_find bp q s)"

definition join_upper :: "u32 \<Rightarrow> u32 \<Rightarrow> uheap \<Rightarrow> unit urun" where
  "join_upper bp p s =
     uthen (uload (bp + 4) s) (\<lambda>n s. uthen (uload p s) (\<lambda>q s.
     if bp + 8 * n = q then
       uthen (uload (q + 4) s) (\<lambda>k s. uthen (ustore (bp + 4) (n + k) s) (\<lambda>_ s.
       uthen (uload q s) (\<lambda>r s. ustore bp r s)))
     else ustore bp q s))"

definition join_lower :: "u32 \<Rightarrow> u32 \<Rightarrow> uheap \<Rightarrow> unit urun" where
  "join_lower bp p s =
     uthen (uload (p + 4) s) (\<lambda>k s.
     if p + 8 * k = bp then
       uthen (uload (bp + 4) s) (\<lambda>n s. uthen (ustore (p + 4) (k + n) s) (\<lambda>_ s.
       uthen (uload bp s) (\<lambda>r s. ustore p r s)))
     else ustore p bp s)"

definition free :: "u32 \<Rightarrow> uheap \<Rightarrow> unit urun" where
  "free ap s =
     (let bp = ap - 8
      in uthen (free_find bp (freep s) s) (\<lambda>p s.
         uthen (join_upper bp p s) (\<lambda>_ s.
         uthen (join_lower bp p s) (\<lambda>_ s. Some (Ret () (s\<lparr>freep := p\<rparr>))))))"

definition morecore :: "(u32 \<Rightarrow> u32 \<Rightarrow> bool) \<Rightarrow> u32 \<Rightarrow> uheap \<Rightarrow> u32 urun" where
  "morecore avail nu s =
     (let nu = (if nu < 4096 then 4096 else nu)
      in uthen (sbrk avail (nu * 8) s) (\<lambda>p s.
         if p = - 1 then Some (Ret 0 s)
         else uthen (ustore (p + 4) nu s) (\<lambda>_ s.
              uthen (free (p + 8) s) (\<lambda>_ s. Some (Ret (freep s) s)))))"

partial_function (option) malloc_loop ::
    "(u32 \<Rightarrow> u32 \<Rightarrow> bool) \<Rightarrow> u32 \<Rightarrow> u32 \<Rightarrow> u32 \<Rightarrow> uheap \<Rightarrow> u32 urun" where
  "malloc_loop avail nunits prevp p s =
     uthen (uload (p + 4) s) (\<lambda>n s.
     if n \<ge> nunits then
       (if n = nunits then
          uthen (uload p s) (\<lambda>q s. uthen (ustore prevp q s) (\<lambda>_ s.
            Some (Ret (p + 8) (s\<lparr>freep := prevp\<rparr>))))
        else
          uthen (ustore (p + 4) (n - nunits) s) (\<lambda>_ s.
          let p = p + 8 * (n - nunits)
          in uthen (ustore (p + 4) nunits s) (\<lambda>_ s.
            Some (Ret (p + 8) (s\<lparr>freep := prevp\<rparr>)))))
     else if p = freep s then
       uthen (morecore avail nunits s) (\<lambda>p s.
       if p = 0 then Some (Ret 0 s)
       else uthen (uload p s) (\<lambda>q s. malloc_loop avail nunits p q s))
     else uthen (uload p s) (\<lambda>q s. malloc_loop avail nunits p q s))"

definition malloc_init :: "u32 \<Rightarrow> uheap \<Rightarrow> unit urun" where
  "malloc_init B s =
     (if freep s = 0 then
        uthen (ustore B B (s\<lparr>freep := B\<rparr>)) (\<lambda>_ s. ustore (B + 4) 0 s)
      else Some (Ret () s))"

definition malloc :: "(u32 \<Rightarrow> u32 \<Rightarrow> bool) \<Rightarrow> u32 \<Rightarrow> u32 \<Rightarrow> uheap \<Rightarrow> u32 urun" where
  "malloc avail B nbytes s =
     (let nunits = (nbytes + 8 - 1) div 8 + 1
      in uthen (malloc_init B s) (\<lambda>_ s.
         uthen (uload (freep s) s) (\<lambda>p s. malloc_loop avail nunits (freep s) p s)))"

section \<open>The free list\<close>

text \<open>
  \<open>upath m p zs q\<close>: following the pointer fields from \<open>p\<close> visits the blocks \<open>zs\<close>, each an address
  with its size, and arrives at \<open>q\<close>.  \<open>ordered lo fs hi\<close>: the blocks \<open>fs\<close> are not empty, lie between
  \<open>lo\<close> and \<open>hi\<close>, in ascending order, without overlap.
\<close>

type_synonym ublock = "nat \<times> nat"

definition rd :: "memory \<Rightarrow> nat \<Rightarrow> u32" where "rd m x = load32 m (of_nat x)"
definition wr :: "memory \<Rightarrow> nat \<Rightarrow> u32 \<Rightarrow> memory" where "wr m x v = store32 m (of_nat x) v"

fun upath :: "memory \<Rightarrow> nat \<Rightarrow> ublock list \<Rightarrow> nat \<Rightarrow> bool" where
  "upath m p [] q \<longleftrightarrow> p = q"
| "upath m p (z # zs) q \<longleftrightarrow> p = fst z \<and> rd m (p + 4) = of_nat (snd z) \<and> upath m (unat (rd m p)) zs q"

fun ordered :: "nat \<Rightarrow> ublock list \<Rightarrow> nat \<Rightarrow> bool" where
  "ordered lo [] hi \<longleftrightarrow> lo \<le> hi"
| "ordered lo (z # zs) hi \<longleftrightarrow> lo \<le> fst z \<and> 0 < snd z \<and> ordered (fst z + 8 * snd z) zs hi"

definition ubytes :: "ublock \<Rightarrow> nat set" where
  "ubytes z = {fst z ..< fst z + 8 * snd z}"

definition free_bytes :: "ublock list \<Rightarrow> nat set" where
  "free_bytes fs = (\<Union>z \<in> set fs. ubytes z)"

text \<open>
  The heap: the ring of free blocks starts and ends at \<^verbatim>\<open>base\<close>, whose size is 0; \<open>al\<close> are the blocks
  the program holds, disjoint from each other and from the free ones.
\<close>

definition ring_ok :: "nat \<Rightarrow> ublock list \<Rightarrow> uheap \<Rightarrow> bool" where
  "ring_ok B fs s \<longleftrightarrow> 0 < B \<and> unat (brk s) < 2 ^ 31 \<and> ordered (B + 8) fs (unat (brk s))
     \<and> upath (umem s) B ((B, 0) # fs) B \<and> unat (freep s) \<in> insert B (fst ` set fs)"

definition held_ok :: "nat \<Rightarrow> ublock list \<Rightarrow> ublock set \<Rightarrow> uheap \<Rightarrow> bool" where
  "held_ok B fs al s \<longleftrightarrow> (\<forall>z \<in> al. 0 < snd z \<and> B + 8 \<le> fst z \<and> fst z + 8 * snd z \<le> unat (brk s)
     \<and> rd (umem s) (fst z + 4) = of_nat (snd z) \<and> ubytes z \<inter> free_bytes fs = {}
     \<and> (\<forall>y \<in> al. y \<noteq> z \<longrightarrow> ubytes y \<inter> ubytes z = {}))"

definition heap_ok :: "nat \<Rightarrow> ublock list \<Rightarrow> ublock set \<Rightarrow> uheap \<Rightarrow> bool" where
  "heap_ok B fs al s \<longleftrightarrow> ring_ok B fs s \<and> held_ok B fs al s"

section \<open>Memory accesses\<close>

lemma mapped_nat: "x + 4 \<le> unat (brk s) \<Longrightarrow> unat (brk s) < 2 ^ 31 \<Longrightarrow> mapped s (of_nat x)"
  by (simp add: mapped_def unat_PGROUNDUP unat_of_nat_u32)

lemma uload_nat:
  assumes "x + 4 \<le> unat (brk s)" "unat (brk s) < 2 ^ 31"
  shows "uload (of_nat x) s = Some (Ret (rd (umem s) x) s)"
  using mapped_nat [OF assms] by (simp add: uload_def rd_def)

lemma ustore_nat:
  assumes "x + 4 \<le> unat (brk s)" "unat (brk s) < 2 ^ 31"
  shows "ustore (of_nat x) v s = Some (Ret () (s\<lparr>umem := wr (umem s) x v\<rparr>))"
  using mapped_nat [OF assms] by (simp add: ustore_def wr_def)

lemma uload_nat4:
  assumes "x + 8 \<le> unat (brk s)" "unat (brk s) < 2 ^ 31"
  shows "uload (of_nat x + 4) s = Some (Ret (rd (umem s) (x + 4)) s)"
  using uload_nat [of "x + 4" s] assms by (simp add: add.commute)

lemma ustore_nat4:
  assumes "x + 8 \<le> unat (brk s)" "unat (brk s) < 2 ^ 31"
  shows "ustore (of_nat x + 4) v s = Some (Ret () (s\<lparr>umem := wr (umem s) (x + 4) v\<rparr>))"
  using ustore_nat [of "x + 4" s] assms by (simp add: add.commute)

lemmas uacc = uload_nat uload_nat4 ustore_nat ustore_nat4

lemma rd_wr_same [simp]: "rd (wr m x v) x = v"
  by (simp add: rd_def wr_def load32_store32)

lemma rd_wr_apart:
  assumes "x + 4 \<le> w \<or> w + 4 \<le> x" "x < 2 ^ 31" "w < 2 ^ 31"
  shows "rd (wr m w v) x = rd m x"
  unfolding rd_def wr_def
  by (rule load32_store32_other; rule of_nat_apart) (use assms in auto)

lemma wr_apart:
  assumes "x < w \<or> w + 4 \<le> x" "x < 2 ^ 31" "w + 4 \<le> 2 ^ 31"
  shows "wr m w v (of_nat x) = m (of_nat x)"
  unfolding wr_def
proof (rule store32_other)
  have u: "unat (of_nat x :: u32) = x" "unat (of_nat w :: u32) = w" using assms by (simp_all add: unat_of_nat_u32)
  show "4 \<le> (of_nat x - of_nat w :: u32)" using assms by (auto simp: word_le_nat_alt unat_sub_if_size u word_size)
qed

lemma rd_same:
  assumes "\<And>y. x \<le> y \<Longrightarrow> y < x + 4 \<Longrightarrow> m' (of_nat y) = m (of_nat y)"
  shows "rd m' x = rd m x"
  unfolding rd_def
proof (rule load32_cong)
  fix i :: u32 assume "i < 4"
  then have "unat i < 4" by (simp add: word_less_nat_alt)
  then show "m' (of_nat x + i) = m (of_nat x + i)" using assms [of "x + unat i"] by simp
qed

section \<open>Paths and order\<close>

lemma upath_append: "upath m p (xs @ ys) q \<longleftrightarrow> (\<exists>r. upath m p xs r \<and> upath m r ys q)"
  by (induction xs arbitrary: p) auto

lemma upath_cong:
  assumes "upath m p zs q" "\<And>z. z \<in> set zs \<Longrightarrow> rd m' (fst z) = rd m (fst z) \<and> rd m' (fst z + 4) = rd m (fst z + 4)"
  shows "upath m' p zs q"
  using assms by (induction zs arbitrary: p) auto

definition uend :: "nat \<Rightarrow> ublock list \<Rightarrow> nat" where
  "uend lo zs = (if zs = [] then lo else fst (last zs) + 8 * snd (last zs))"

lemma ordered_append: "ordered lo (xs @ ys) hi \<longleftrightarrow> ordered lo xs (uend lo xs) \<and> ordered (uend lo xs) ys hi"
proof (induction xs arbitrary: lo)
  case (Cons z xs)
  have "uend lo (z # xs) = uend (fst z + 8 * snd z) xs" by (simp add: uend_def)
  then show ?case using Cons by simp
qed (simp add: uend_def)

lemma ordered_le: "ordered lo zs hi \<Longrightarrow> lo \<le> hi"
  by (induction zs arbitrary: lo) force+

lemma ordered_mem: "ordered lo zs hi \<Longrightarrow> z \<in> set zs \<Longrightarrow> lo \<le> fst z \<and> 0 < snd z \<and> fst z + 8 * snd z \<le> hi"
proof (induction zs arbitrary: lo)
  case (Cons y zs)
  then show ?case using ordered_le [of "fst y + 8 * snd y" zs hi] by fastforce
qed simp

lemma ordered_mono: "ordered lo zs hi \<Longrightarrow> lo' \<le> lo \<Longrightarrow> hi \<le> hi' \<Longrightarrow> ordered lo' zs hi'"
  by (induction zs arbitrary: lo lo') auto

lemma ordered_distinct: "ordered lo zs hi \<Longrightarrow> distinct (map fst zs)"
proof (induction zs arbitrary: lo)
  case (Cons z zs)
  then have "fst z \<noteq> fst y" if "y \<in> set zs" for y
    using that ordered_mem [of "fst z + 8 * snd z" zs hi y] by auto
  then show ?case using Cons by force
qed simp

lemma ordered_cut:
  assumes "ordered lo zs hi" "\<And>z. z \<in> set zs \<Longrightarrow> ubytes z \<inter> {b ..< b + 8 * n} = {}" "0 < n"
  shows "\<forall>z \<in> set (takeWhile (\<lambda>z. fst z < b) zs). fst z + 8 * snd z \<le> b"
    and "\<forall>z \<in> set (dropWhile (\<lambda>z. fst z < b) zs). b + 8 * n \<le> fst z"
proof -
  have far: "fst z + 8 * snd z \<le> b \<or> b + 8 * n \<le> fst z" if "z \<in> set zs" for z
  proof -
    have "0 < snd z" using ordered_mem [OF assms(1) that] by simp
    then show ?thesis using assms(2) [OF that] \<open>0 < n\<close>
      by (auto simp: ubytes_def disjoint_iff)
  qed
  show "\<forall>z \<in> set (takeWhile (\<lambda>z. fst z < b) zs). fst z + 8 * snd z \<le> b"
    using far by (fastforce dest: set_takeWhileD)
  show "\<forall>z \<in> set (dropWhile (\<lambda>z. fst z < b) zs). b + 8 * n \<le> fst z"
    using assms(1) far
  proof (induction zs arbitrary: lo)
    case (Cons z zs)
    then show ?case
      using ordered_mem [of "fst z + 8 * snd z" zs hi] by (fastforce split: if_splits)
  qed simp
qed

section \<open>Where a freed block goes\<close>

definition last_addr :: "nat \<Rightarrow> ublock list \<Rightarrow> nat" where
  "last_addr p zs = (if zs = [] then p else fst (last zs))"

lemma last_addr_Cons [simp]: "last_addr p (z # zs) = last_addr (fst z) zs"
  by (simp add: last_addr_def)

lemma last_addr_Nil [simp]: "last_addr p [] = p"
  by (simp add: last_addr_def)

lemma last_addr_append [simp]: "last_addr p (xs @ ys) = last_addr (last_addr p xs) ys"
  by (simp add: last_addr_def)

lemma of_nat_u32_less_iff:
  assumes "x < 2 ^ 31" "y < 2 ^ 31"
  shows "(of_nat x :: u32) < of_nat y \<longleftrightarrow> x < y" "(of_nat x :: u32) \<le> of_nat y \<longleftrightarrow> x \<le> y"
    "(of_nat x :: u32) = of_nat y \<longleftrightarrow> x = y"
proof -
  have u: "unat (of_nat x :: u32) = x" "unat (of_nat y :: u32) = y" using assms by (simp_all add: unat_of_nat_u32)
  show "(of_nat x :: u32) < of_nat y \<longleftrightarrow> x < y" "(of_nat x :: u32) \<le> of_nat y \<longleftrightarrow> x \<le> y"
    "(of_nat x :: u32) = of_nat y \<longleftrightarrow> x = y"
    by (simp_all add: word_less_nat_alt word_le_nat_alt u word_unat_eq_iff)
qed

lemma of_nat_unat_eq: "unat (x :: u32) = n \<Longrightarrow> x = of_nat n"
  by auto

lemma free_find_from:
  assumes "upath (umem s) p ((p, k) # zs) B" "ordered (p + 1) zs (unat (brk s))"
    and "unat (brk s) < 2 ^ 31" "p + 4 \<le> unat (brk s)" "B \<le> p" "p < b" "b < 2 ^ 31"
    and "b \<notin> fst ` set zs"
  shows "free_find (of_nat b) (of_nat p) s
    = Some (Ret (of_nat (last_addr p (takeWhile (\<lambda>z. fst z < b) zs))) s)"
  using assms
proof (induction zs arbitrary: p k)
  case Nil
  then have q: "rd (umem s) p = of_nat B" by (auto intro: of_nat_unat_eq)
  show ?case using Nil by (subst free_find.simps) (simp add: uacc q of_nat_u32_less_iff)
next
  case (Cons z zs)
  have q: "rd (umem s) p = of_nat (fst z)" using Cons.prems(1) by (auto intro: of_nat_unat_eq)
  have z: "p < fst z" "0 < snd z" "fst z + 8 * snd z \<le> unat (brk s)"
    using ordered_mem [OF Cons.prems(2), of z] by auto
  show ?case
  proof (cases "b < fst z")
    case True
    then show ?thesis using Cons.prems z by (subst free_find.simps) (simp add: uacc q of_nat_u32_less_iff)
  next
    case False
    then have lt: "fst z < b" using Cons.prems by auto
    have "free_find (of_nat b) (of_nat p) s = free_find (of_nat b) (of_nat (fst z)) s"
      using Cons.prems z lt by (subst free_find.simps) (simp add: uacc q of_nat_u32_less_iff)
    also have "\<dots> = Some (Ret (of_nat (last_addr (fst z) (takeWhile (\<lambda>z. fst z < b) zs))) s)"
      by (rule Cons.IH [of _ "snd z"]) (use Cons.prems z lt in \<open>auto intro: ordered_mono\<close>)
    finally show ?thesis using lt by simp
  qed
qed

lemma free_find_wrap:
  assumes "upath (umem s) p ((p, k) # zs) B" "ordered (p + 1) zs (unat (brk s))"
    and "unat (brk s) < 2 ^ 31" "p + 4 \<le> unat (brk s)" "B < b" "b < p"
  shows "free_find (of_nat b) (of_nat p) s = free_find (of_nat b) (of_nat B) s"
  using assms
proof (induction zs arbitrary: p k)
  case Nil
  then have q: "rd (umem s) p = of_nat B" by (auto intro: of_nat_unat_eq)
  show ?case using Nil by (subst free_find.simps) (simp add: uacc q of_nat_u32_less_iff)
next
  case (Cons z zs)
  have q: "rd (umem s) p = of_nat (fst z)" using Cons.prems(1) by (auto intro: of_nat_unat_eq)
  have z: "p < fst z" "0 < snd z" "fst z + 8 * snd z \<le> unat (brk s)"
    using ordered_mem [OF Cons.prems(2), of z] by auto
  have "free_find (of_nat b) (of_nat p) s = free_find (of_nat b) (of_nat (fst z)) s"
    using Cons.prems z by (subst free_find.simps) (simp add: uacc q of_nat_u32_less_iff)
  also have "\<dots> = free_find (of_nat b) (of_nat B) s"
    by (rule Cons.IH [of _ "snd z"]) (use Cons.prems z in \<open>auto intro: ordered_mono\<close>)
  finally show ?case .
qed

lemma ring_tail:
  assumes "ring_ok B (xs @ z # ys) s"
  shows "upath (umem s) (fst z) (z # ys) B" "ordered (fst z + 1) ys (unat (brk s))" "B + 8 \<le> fst z"
    "0 < snd z" "fst z + 8 * snd z \<le> unat (brk s)"
proof -
  have "\<exists>r. upath (umem s) r (z # ys) B"
    using assms unfolding ring_ok_def by (auto simp: upath_append)
  then show "upath (umem s) (fst z) (z # ys) B" by auto
  have o1: "ordered (B + 8) (xs @ z # ys) (unat (brk s))" using assms by (simp add: ring_ok_def)
  then show *: "B + 8 \<le> fst z" "0 < snd z" "fst z + 8 * snd z \<le> unat (brk s)" by (auto dest: ordered_mem)
  show "ordered (fst z + 1) ys (unat (brk s))"
    using o1 * by (auto simp: ordered_append intro: ordered_mono)
qed

lemma ring_base:
  assumes "ring_ok B fs s"
  shows "upath (umem s) B ((B, 0) # fs) B" "ordered (B + 1) fs (unat (brk s))" "B + 8 \<le> unat (brk s)"
    "unat (brk s) < 2 ^ 31"
  using assms ordered_le [of "B + 8" fs] by (auto simp: ring_ok_def intro: ordered_mono)

lemma free_find_pred:
  assumes ring: "ring_ok B fs s" and b: "B < b" "b < 2 ^ 31" "b \<notin> fst ` set fs"
  shows "free_find (of_nat b) (freep s) s
    = Some (Ret (of_nat (last_addr B (takeWhile (\<lambda>z. fst z < b) fs))) s)" (is "_ = ?r")
proof -
  note base = ring_base [OF ring]
  have from_B: "free_find (of_nat b) (of_nat B) s = ?r"
    by (rule free_find_from [OF base(1,2)]) (use base b in auto)
  have "unat (freep s) = B \<or> (\<exists>z \<in> set fs. unat (freep s) = fst z)" using ring by (auto simp: ring_ok_def)
  then consider "freep s = of_nat B" | z where "z \<in> set fs" "freep s = of_nat (fst z)"
    by (auto dest!: of_nat_unat_eq)
  then show ?thesis
  proof cases
    case 1
    then show ?thesis using from_B by simp
  next
    case 2
    then obtain xs ys where fs: "fs = xs @ z # ys" by (auto simp: in_set_conv_decomp)
    note t = ring_tail [OF ring [unfolded fs]]
    show ?thesis
    proof (cases "fst z < b")
      case True
      have lt: "fst x < b" if "x \<in> set xs" for x
      proof -
        have "fst x \<le> fst z"
          using ring that unfolding fs ring_ok_def ordered_append
          by (fastforce dest: ordered_mem)
        then show ?thesis using True by simp
      qed
      then have "takeWhile (\<lambda>z. fst z < b) fs = xs @ z # takeWhile (\<lambda>z. fst z < b) ys"
        using True by (simp add: fs takeWhile_append2)
      then show ?thesis
        using free_find_from [of s "fst z" "snd z" ys B b] t base b True 2 by (auto simp: fs)
    next
      case False
      then show ?thesis
        using free_find_wrap [of s "fst z" "snd z" ys B b] t base b 2 from_B by (force simp: fs)
    qed
  qed
qed

section \<open>Freeing\<close>

text \<open>
  What \<^verbatim>\<open>free\<close> does to the list of free blocks: the block takes its place in the order and is merged
  with the neighbours it touches.
\<close>

definition merge_upper :: "nat \<Rightarrow> nat \<Rightarrow> ublock list \<Rightarrow> ublock list" where
  "merge_upper b n ys = (case ys of [] \<Rightarrow> [(b, n)]
     | z # zs \<Rightarrow> if b + 8 * n = fst z then (b, n + snd z) # zs else (b, n) # ys)"

definition merge_lower :: "ublock list \<Rightarrow> ublock list \<Rightarrow> ublock list" where
  "merge_lower xs ys = (case ys of [] \<Rightarrow> xs
     | z # zs \<Rightarrow> if xs \<noteq> [] \<and> fst (last xs) + 8 * snd (last xs) = fst z
               then butlast xs @ (fst (last xs), snd (last xs) + snd z) # zs else xs @ ys)"

definition insert_free :: "nat \<Rightarrow> nat \<Rightarrow> ublock list \<Rightarrow> ublock list" where
  "insert_free b n fs = merge_lower (takeWhile (\<lambda>z. fst z < b) fs)
     (merge_upper b n (dropWhile (\<lambda>z. fst z < b) fs))"

lemma free_bytes_simps [simp]:
  "free_bytes [] = {}" "free_bytes (z # zs) = ubytes z \<union> free_bytes zs"
  "free_bytes (xs @ ys) = free_bytes xs \<union> free_bytes ys"
  by (auto simp: free_bytes_def)

lemma ubytes_join: "fst z + 8 * snd z = b \<Longrightarrow> ubytes (fst z, snd z + n) = ubytes z \<union> ubytes (b, n)"
  by (auto simp: ubytes_def)

lemma merge_upper_bytes: "free_bytes (merge_upper b n ys) = ubytes (b, n) \<union> free_bytes ys"
  using ubytes_join [of "(b, n)"] by (auto simp: merge_upper_def split: list.split)

lemma merge_lower_bytes: "free_bytes (merge_lower xs ys) = free_bytes xs \<union> free_bytes ys"
proof (cases ys)
  case (Cons z zs)
  have "xs \<noteq> [] \<Longrightarrow> free_bytes xs = free_bytes (butlast xs) \<union> ubytes (last xs)"
    by (metis append_butlast_last_id free_bytes_simps sup_bot.right_neutral)
  then show ?thesis using Cons ubytes_join [of "last xs" "fst z" "snd z"]
    by (auto simp: merge_lower_def)
qed (simp add: merge_lower_def)

lemma insert_free_bytes: "free_bytes (insert_free b n fs) = free_bytes fs \<union> ubytes (b, n)"
proof -
  have "free_bytes fs = free_bytes (takeWhile (\<lambda>z. fst z < b) fs) \<union> free_bytes (dropWhile (\<lambda>z. fst z < b) fs)"
    by (subst takeWhile_dropWhile_id [of "\<lambda>z. fst z < b" fs, symmetric]) (simp only: free_bytes_simps)
  then show ?thesis by (auto simp: insert_free_def merge_lower_bytes merge_upper_bytes)
qed

lemma merge_upper_ordered:
  assumes "ordered (b + 8 * n) ys hi" "0 < n"
  shows "ordered b (merge_upper b n ys) hi \<and> (\<exists>k zs. merge_upper b n ys = (b, k) # zs \<and> 0 < k)"
  using assms by (auto simp: merge_upper_def algebra_simps split: list.split)

lemma merge_lower_ordered:
  assumes "ordered lo xs b" "ordered b ((b, k) # zs) hi" "lo \<le> b"
  shows "ordered lo (merge_lower xs ((b, k) # zs)) hi"
proof (cases xs rule: rev_cases)
  case Nil
  then show ?thesis using assms by (simp add: merge_lower_def)
next
  case (snoc us u)
  show ?thesis using assms unfolding snoc
    by (auto simp: merge_lower_def ordered_append uend_def algebra_simps intro: ordered_mono)
qed

lemma ordered_hi: "ordered lo xs hi \<Longrightarrow> (\<forall>z \<in> set xs. fst z + 8 * snd z \<le> b) \<Longrightarrow> lo \<le> b \<Longrightarrow> ordered lo xs b"
  by (induction xs arbitrary: lo) auto

lemma ordered_lo: "ordered lo xs hi \<Longrightarrow> (\<forall>z \<in> set xs. b \<le> fst z) \<Longrightarrow> b \<le> hi \<Longrightarrow> ordered b xs hi"
  by (cases xs) auto

lemma insert_free_ordered:
  assumes o1: "ordered lo fs hi" and dj: "ubytes (b, n) \<inter> free_bytes fs = {}" and n: "0 < n"
    and lo: "lo \<le> b" and hi: "b + 8 * n \<le> hi"
  shows "ordered lo (insert_free b n fs) hi"
proof -
  let ?xs = "takeWhile (\<lambda>z. fst z < b) fs" and ?ys = "dropWhile (\<lambda>z. fst z < b) fs"
  have dj': "ubytes z \<inter> {b ..< b + 8 * n} = {}" if "z \<in> set fs" for z
  proof -
    have "ubytes z \<inter> ubytes (b, n) = {}" using dj that by (auto simp: free_bytes_def)
    then show ?thesis by (simp add: ubytes_def)
  qed
  note cut = ordered_cut [OF o1 dj' n]
  have "ordered lo (?xs @ ?ys) hi" using o1 by simp
  then have ox: "ordered lo ?xs (uend lo ?xs)" and oy: "ordered (uend lo ?xs) ?ys hi"
    by (simp_all only: ordered_append)
  have "ordered lo ?xs b" by (rule ordered_hi [OF ox]) (use cut lo in auto)
  moreover obtain k zs where m: "merge_upper b n ?ys = (b, k) # zs" "ordered b ((b, k) # zs) hi"
    using merge_upper_ordered [of b n ?ys hi] ordered_lo [OF oy, of "b + 8 * n"] cut(2) hi n by auto
  ultimately show ?thesis unfolding insert_free_def m(1) using m(2) lo by (intro merge_lower_ordered)
qed

lemma join_upper_links:
  assumes brk: "unat (brk s) < 2 ^ 31" and n: "0 < n" "b + 8 * n \<le> unat (brk s)"
    and hn: "rd (umem s) (b + 4) = of_nat n"
    and pth: "upath (umem s) p ((p, k) # ys) B" and p: "p + 8 \<le> b" and B: "B < b"
    and ys: "\<forall>z \<in> set ys. b + 8 * n \<le> fst z \<and> fst z + 8 \<le> unat (brk s)"
  shows "\<exists>m. join_upper (of_nat b) (of_nat p) s = Some (Ret () (s\<lparr>umem := m\<rparr>))
    \<and> upath m b (merge_upper b n ys) B
    \<and> (\<forall>x. x < b \<or> b + 8 \<le> x \<longrightarrow> x < 2 ^ 31 \<longrightarrow> m (of_nat x) = umem s (of_nat x))"
proof -
  have e: "of_nat b + 8 * of_nat n = (of_nat (b + 8 * n) :: u32)" by simp
  show ?thesis
  proof (cases ys)
    case Nil
    then have q: "rd (umem s) p = of_nat B" using pth by (auto intro: of_nat_unat_eq)
    let ?m = "wr (umem s) b (of_nat B)"
    have "join_upper (of_nat b) (of_nat p) s = Some (Ret () (s\<lparr>umem := ?m\<rparr>))"
      using brk n p B by (simp add: join_upper_def uacc hn q of_nat_u32_less_iff e del: of_nat_add of_nat_mult)
    moreover have "upath ?m b (merge_upper b n ys) B"
      using Nil hn brk n B by (simp add: merge_upper_def rd_wr_apart unat_of_nat_u32)
    moreover have "\<forall>x. x < b \<or> b + 8 \<le> x \<longrightarrow> x < 2 ^ 31 \<longrightarrow> ?m (of_nat x) = umem s (of_nat x)"
      using brk n by (auto intro!: wr_apart)
    ultimately show ?thesis by blast
  next
    case (Cons z zs)
    have q: "rd (umem s) p = of_nat (fst z)" using pth Cons by (auto intro: of_nat_unat_eq)
    have z: "b + 8 * n \<le> fst z" "fst z + 8 \<le> unat (brk s)" using ys Cons by auto
    have hz: "rd (umem s) (fst z + 4) = of_nat (snd z)" using pth Cons by auto
    have apart: "upath m (fst z) (z # zs) B"
      if "\<forall>x. x < b \<or> b + 8 \<le> x \<longrightarrow> x < 2 ^ 31 \<longrightarrow> m (of_nat x) = umem s (of_nat x)" for m
    proof (rule upath_cong [of "umem s"])
      show "upath (umem s) (fst z) (z # zs) B" using pth Cons by auto
      fix y assume "y \<in> set (z # zs)"
      then have "b + 8 * n \<le> fst y" "fst y + 8 \<le> unat (brk s)" using ys Cons by auto
      then show "rd m (fst y) = rd (umem s) (fst y) \<and> rd m (fst y + 4) = rd (umem s) (fst y + 4)"
        using that n brk by (auto intro!: rd_same)
    qed
    show ?thesis
    proof (cases "b + 8 * n = fst z")
      case True
      let ?m = "wr (wr (umem s) (b + 4) (of_nat (n + snd z))) b (rd (umem s) (fst z))"
      have "join_upper (of_nat b) (of_nat p) s = Some (Ret () (s\<lparr>umem := ?m\<rparr>))"
        using brk n p B z True
        by (simp add: join_upper_def uacc hn hz q of_nat_u32_less_iff e rd_wr_apart del: of_nat_add of_nat_mult)
           (simp add: uacc rd_wr_apart)
      moreover have fr: "\<forall>x. x < b \<or> b + 8 \<le> x \<longrightarrow> x < 2 ^ 31 \<longrightarrow> ?m (of_nat x) = umem s (of_nat x)"
        using brk n by (auto simp: wr_apart)
      moreover have "upath ?m b (merge_upper b n ys) B"
        using apart [OF fr] Cons brk n z True by (simp add: merge_upper_def rd_wr_apart)
      ultimately show ?thesis by blast
    next
      case False
      let ?m = "wr (umem s) b (of_nat (fst z))"
      have "join_upper (of_nat b) (of_nat p) s = Some (Ret () (s\<lparr>umem := ?m\<rparr>))"
        using brk n p B z False
        by (simp add: join_upper_def uacc hn q of_nat_u32_less_iff e del: of_nat_add of_nat_mult)
      moreover have fr: "\<forall>x. x < b \<or> b + 8 \<le> x \<longrightarrow> x < 2 ^ 31 \<longrightarrow> ?m (of_nat x) = umem s (of_nat x)"
        using brk n by (auto intro!: wr_apart)
      moreover have "upath ?m b (merge_upper b n ys) B"
        using apart [OF fr] Cons brk n z False hn by (simp add: merge_upper_def rd_wr_apart unat_of_nat_u32)
      ultimately show ?thesis by blast
    qed
  qed
qed

lemma join_lower_links:
  assumes brk: "unat (brk s) < 2 ^ 31" and b: "b + 8 \<le> unat (brk s)"
    and pb: "upath (umem s) b ((b, n) # ys) B" and pp: "upath (umem s) B (us @ [(p, k)]) r"
    and p: "p + 8 \<le> b" "p + 8 * k \<le> b"
    and us: "\<forall>z \<in> set us. fst z + 8 \<le> p" and ys: "\<forall>z \<in> set ys. b + 8 \<le> fst z \<and> fst z + 8 \<le> unat (brk s)"
  shows "\<exists>m. join_lower (of_nat b) (of_nat p) s = Some (Ret () (s\<lparr>umem := m\<rparr>))
    \<and> upath m B (merge_lower (us @ [(p, k)]) ((b, n) # ys)) B
    \<and> (\<forall>x. x < p \<or> p + 8 \<le> x \<longrightarrow> x < 2 ^ 31 \<longrightarrow> m (of_nat x) = umem s (of_nat x))"
proof -
  have e: "of_nat p + 8 * of_nat k = (of_nat (p + 8 * k) :: u32)" by simp
  have hk: "rd (umem s) (p + 4) = of_nat k" and pus: "upath (umem s) B us p"
    and hn: "rd (umem s) (b + 4) = of_nat n" and pys: "upath (umem s) (unat (rd (umem s) b)) ys B"
    using pp pb by (auto simp: upath_append)
  have keep: "upath m q zs q'"
    if "\<forall>x. x < p \<or> p + 8 \<le> x \<longrightarrow> x < 2 ^ 31 \<longrightarrow> m (of_nat x) = umem s (of_nat x)"
       "upath (umem s) q zs q'" "\<forall>z \<in> set zs. (fst z + 8 \<le> p \<or> p + 8 \<le> fst z) \<and> fst z + 8 \<le> unat (brk s)" for m q zs q'
    using that(2)
  proof (rule upath_cong)
    fix z assume "z \<in> set zs"
    then show "rd m (fst z) = rd (umem s) (fst z) \<and> rd m (fst z + 4) = rd (umem s) (fst z + 4)"
      using that(1,3) brk by (auto intro!: rd_same)
  qed
  have us': "\<forall>z \<in> set us. (fst z + 8 \<le> p \<or> p + 8 \<le> fst z) \<and> fst z + 8 \<le> unat (brk s)" using us p b by auto
  have ys': "\<forall>z \<in> set ((b, n) # ys). (fst z + 8 \<le> p \<or> p + 8 \<le> fst z) \<and> fst z + 8 \<le> unat (brk s)"
    using ys p b by auto
  show ?thesis
  proof (cases "p + 8 * k = b")
    case True
    let ?m = "wr (wr (umem s) (p + 4) (of_nat (k + n))) p (rd (umem s) b)"
    have fr: "\<forall>x. x < p \<or> p + 8 \<le> x \<longrightarrow> x < 2 ^ 31 \<longrightarrow> ?m (of_nat x) = umem s (of_nat x)"
      using brk b p by (auto simp: wr_apart)
    have "join_lower (of_nat b) (of_nat p) s = Some (Ret () (s\<lparr>umem := ?m\<rparr>))"
      using brk p b True
      by (simp add: join_lower_def uacc hk hn of_nat_u32_less_iff e rd_wr_apart del: of_nat_add of_nat_mult)
         (simp add: uacc rd_wr_apart)
    moreover have "upath ?m B (us @ (p, k + n) # ys) B"
      using keep [OF fr pus us'] keep [OF fr pys] ys' brk p b by (auto simp: upath_append rd_wr_apart)
    ultimately show ?thesis using fr True by (auto simp: merge_lower_def)
  next
    case False
    let ?m = "wr (umem s) p (of_nat b)"
    have fr: "\<forall>x. x < p \<or> p + 8 \<le> x \<longrightarrow> x < 2 ^ 31 \<longrightarrow> ?m (of_nat x) = umem s (of_nat x)"
      using brk b p by (auto intro!: wr_apart)
    have "join_lower (of_nat b) (of_nat p) s = Some (Ret () (s\<lparr>umem := ?m\<rparr>))"
      using brk p b False by (simp add: join_lower_def uacc hk of_nat_u32_less_iff e del: of_nat_add of_nat_mult)
    moreover have "upath ?m B (us @ (p, k) # (b, n) # ys) B"
      using keep [OF fr pus us'] keep [OF fr pb ys'] brk p b hk
      by (simp add: upath_append rd_wr_apart unat_of_nat_u32)
    ultimately show ?thesis using fr False by (auto simp: merge_lower_def)
  qed
qed

text \<open>The bytes the allocator may write: its anchor and the free blocks.\<close>

definition own_bytes :: "nat \<Rightarrow> ublock list \<Rightarrow> nat set" where
  "own_bytes B fs = {B ..< B + 8} \<union> free_bytes fs"

definition same_outside :: "nat set \<Rightarrow> uheap \<Rightarrow> uheap \<Rightarrow> bool" where
  "same_outside F s t \<longleftrightarrow> (\<forall>x < 2 ^ 31. x \<notin> F \<longrightarrow> umem t (of_nat x) = umem s (of_nat x))"

lemma same_outside_rd:
  assumes "same_outside F s t" "\<And>y. x \<le> y \<Longrightarrow> y < x + 4 \<Longrightarrow> y \<notin> F" "x + 4 \<le> 2 ^ 31"
  shows "rd (umem t) x = rd (umem s) x"
  using assms by (intro rd_same) (auto simp: same_outside_def)

lemma same_outside_trans: "same_outside F s t \<Longrightarrow> same_outside G t u \<Longrightarrow> same_outside (F \<union> G) s u"
  by (auto simp: same_outside_def)

lemma same_outside_mono: "same_outside F s t \<Longrightarrow> F \<subseteq> G \<Longrightarrow> same_outside G s t"
  by (auto simp: same_outside_def)

lemma free_header: "z \<in> set fs \<Longrightarrow> 0 < snd z \<Longrightarrow> {fst z ..< fst z + 8} \<subseteq> free_bytes fs"
  by (force simp: free_bytes_def ubytes_def)

lemma last_addr_merge: "last_addr B xs \<in> insert B (fst ` set (merge_lower xs ys))"
proof (cases "xs = []")
  case False
  have "last xs \<in> set xs" using False by simp
  then show ?thesis using False by (cases ys) (auto simp: last_addr_def merge_lower_def)
qed simp

lemma merge_lower_base:
  assumes "B < fst (hd ys)" "ys \<noteq> []"
  shows "merge_lower ((B, 0) # xs) ys = (B, 0) # merge_lower xs ys"
  using assms by (auto simp: merge_lower_def split: list.split)

lemma below_last:
  assumes "ordered (B + 8) xs hi"
  shows "\<forall>z \<in> set (butlast ((B, 0) # xs)). fst z + 8 \<le> last_addr B xs"
proof (cases xs rule: rev_cases)
  case (snoc vs v)
  have o2: "ordered (B + 8) vs (uend (B + 8) vs)" "uend (B + 8) vs \<le> fst v"
    using assms by (simp_all add: snoc ordered_append)
  have "fst z + 8 \<le> fst v" if "z \<in> set vs" for z using ordered_mem [OF o2(1) that] o2(2) by linarith
  moreover have "B + 8 \<le> fst v" using ordered_mem [OF assms, of v] by (simp add: snoc)
  ultimately show ?thesis by (auto simp: snoc)
qed simp

text \<open>The ring cut where a block at \<open>b\<close> belongs: \<open>(p, k)\<close> is the block before it.\<close>

lemma ring_cut:
  assumes ring: "ring_ok B fs s" and n: "0 < n" and b: "B + 8 \<le> b"
    and dj: "ubytes (b, n) \<inter> free_bytes fs = {}"
  obtains us p k ys where
    "(B, 0) # takeWhile (\<lambda>z. fst z < b) fs = us @ [(p, k)]" "ys = dropWhile (\<lambda>z. fst z < b) fs"
    "p = last_addr B (takeWhile (\<lambda>z. fst z < b) fs)"
    "upath (umem s) B (us @ [(p, k)]) (unat (rd (umem s) p))" "upath (umem s) p ((p, k) # ys) B"
    "p + 8 \<le> b" "p + 8 * k \<le> b" "{p ..< p + 8} \<subseteq> own_bytes B fs"
    "\<forall>z \<in> set us. fst z + 8 \<le> p" "\<forall>z \<in> set ys. b + 8 * n \<le> fst z \<and> fst z + 8 \<le> unat (brk s)"
    "b \<notin> fst ` set fs"
proof -
  define xs where "xs = takeWhile (\<lambda>z. fst z < b) fs"
  define ys where "ys = dropWhile (\<lambda>z. fst z < b) fs"
  define p where "p = last_addr B xs"
  define k where "k = (if xs = [] then 0 else snd (last xs))"
  define us where "us = butlast ((B, 0) # xs)"
  have fs: "fs = xs @ ys" by (simp add: xs_def ys_def)
  have o1: "ordered (B + 8) fs (unat (brk s))" using ring by (simp add: ring_ok_def)
  have dj': "ubytes z \<inter> {b ..< b + 8 * n} = {}" if "z \<in> set fs" for z
  proof -
    have "ubytes z \<inter> ubytes (b, n) = {}" using dj that by (auto simp: free_bytes_def)
    then show ?thesis by (simp add: ubytes_def)
  qed
  note cut = ordered_cut [OF o1 dj' n, folded xs_def ys_def]
  have mem: "B + 8 \<le> fst z" "0 < snd z" "fst z + 8 * snd z \<le> unat (brk s)" if "z \<in> set fs" for z
    using ordered_mem [OF o1 that] by auto
  have W: "(B, 0) # xs = us @ [(p, k)]" by (simp add: us_def p_def k_def last_addr_def)
  have lst: "fst (last xs) + 8 * snd (last xs) \<le> b" "0 < snd (last xs)" "last xs \<in> set fs" if "xs \<noteq> []"
    using that cut(1) mem [of "last xs"] by (simp_all add: fs)
  have "p + 8 \<le> b" "p + 8 * k \<le> b" using b lst by (force simp: p_def k_def last_addr_def)+
  moreover have "{p ..< p + 8} \<subseteq> own_bytes B fs"
    using lst free_header [of "last xs" fs] by (auto simp: p_def last_addr_def own_bytes_def)
  moreover have "\<forall>z \<in> set us. fst z + 8 \<le> p"
    using below_last [of B xs "uend (B + 8) xs"] o1 by (simp add: us_def p_def fs ordered_append)
  moreover have "b \<notin> fst ` set fs" using dj' n mem(2) by (force simp: ubytes_def)
  moreover have "\<forall>z \<in> set ys. b + 8 * n \<le> fst z \<and> fst z + 8 \<le> unat (brk s)" using cut(2) mem by (force simp: fs)
  moreover have "upath (umem s) B ((us @ [(p, k)]) @ ys) B" using ring_base(1) [OF ring] W by (metis append_Cons fs)
  ultimately show thesis using that [of us p k ys] W by (auto simp: upath_append xs_def ys_def p_def)
qed

lemma free_ring:
  assumes ring: "ring_ok B fs s" and n: "0 < n" and b: "B + 8 \<le> b" "b + 8 * n \<le> unat (brk s)"
    and hn: "rd (umem s) (b + 4) = of_nat n" and dj: "ubytes (b, n) \<inter> free_bytes fs = {}"
  shows "\<exists>t. free (of_nat b + 8) s = Some (Ret () t) \<and> ring_ok B (insert_free b n fs) t \<and> brk t = brk s
    \<and> freep t = of_nat (last_addr B (takeWhile (\<lambda>z. fst z < b) fs))
    \<and> same_outside (own_bytes B fs \<union> ubytes (b, n)) s t"
proof -
  note base = ring_base [OF ring]
  obtain us p k ys where W: "(B, 0) # takeWhile (\<lambda>z. fst z < b) fs = us @ [(p, k)]"
    and ys: "ys = dropWhile (\<lambda>z. fst z < b) fs" and p: "p = last_addr B (takeWhile (\<lambda>z. fst z < b) fs)"
    and pp: "upath (umem s) B (us @ [(p, k)]) (unat (rd (umem s) p))" and py: "upath (umem s) p ((p, k) # ys) B"
    and pk: "p + 8 \<le> b" "p + 8 * k \<le> b" and own: "{p ..< p + 8} \<subseteq> own_bytes B fs"
    and us8: "\<forall>z \<in> set us. fst z + 8 \<le> p"
    and ys8: "\<forall>z \<in> set ys. b + 8 * n \<le> fst z \<and> fst z + 8 \<le> unat (brk s)" and bn: "b \<notin> fst ` set fs"
    by (rule ring_cut [OF ring n b(1) dj]) blast
  have find: "free_find (of_nat b) (freep s) s = Some (Ret (of_nat p) s)"
    using free_find_pred [OF ring _ _ bn] b base(4) n by (simp add: p)
  obtain m1 where m1: "join_upper (of_nat b) (of_nat p) s = Some (Ret () (s\<lparr>umem := m1\<rparr>))"
      "upath m1 b (merge_upper b n ys) B"
      "\<And>x. x < b \<or> b + 8 \<le> x \<Longrightarrow> x < 2 ^ 31 \<Longrightarrow> m1 (of_nat x) = umem s (of_nat x)"
    using join_upper_links [OF base(4) n b(2) hn py pk(1) _ ys8] b(1) by auto
  obtain j zs where mu: "merge_upper b n ys = (b, j) # zs" "\<forall>z \<in> set zs. b + 8 \<le> fst z \<and> fst z + 8 \<le> unat (brk s)"
    using ys8 n by (fastforce simp: merge_upper_def split: list.splits if_splits)
  have pp1: "upath m1 B (us @ [(p, k)]) (unat (rd (umem s) p))"
  proof (rule upath_cong [OF pp])
    fix z assume "z \<in> set (us @ [(p, k)])"
    then have "fst z + 8 \<le> b" using us8 pk by auto
    then show "rd m1 (fst z) = rd (umem s) (fst z) \<and> rd m1 (fst z + 4) = rd (umem s) (fst z + 4)"
      using m1(3) b base(4) by (auto intro!: rd_same)
  qed
  obtain m2 where m2: "join_lower (of_nat b) (of_nat p) (s\<lparr>umem := m1\<rparr>) = Some (Ret () (s\<lparr>umem := m2\<rparr>))"
      "upath m2 B (merge_lower (us @ [(p, k)]) ((b, j) # zs)) B"
      "\<And>x. x < p \<or> p + 8 \<le> x \<Longrightarrow> x < 2 ^ 31 \<Longrightarrow> m2 (of_nat x) = m1 (of_nat x)"
    using join_lower_links [of "s\<lparr>umem := m1\<rparr>" b j zs B us p k "unat (rd (umem s) p)"]
      base(4) b n m1(2) mu pp1 pk us8 by auto
  define t where "t = s\<lparr>umem := m2, freep := of_nat p\<rparr>"
  have "upath m2 B ((B, 0) # insert_free b n fs) B"
    using m2(2) merge_lower_base [of B "(b, j) # zs"] b(1) mu(1) by (simp add: insert_free_def ys W [symmetric])
  moreover have "p \<in> insert B (fst ` set (insert_free b n fs))"
    using last_addr_merge by (simp add: p insert_free_def)
  moreover have "unat (of_nat p :: u32) = p" using pk b base(4) by (simp add: unat_of_nat_u32)
  moreover have "ordered (B + 8) (insert_free b n fs) (unat (brk s))"
    using insert_free_ordered [OF _ dj n b] ring by (simp add: ring_ok_def)
  ultimately have "ring_ok B (insert_free b n fs) t" using ring by (simp add: ring_ok_def t_def)
  moreover have "free (of_nat b + 8) s = Some (Ret () t)" by (simp add: free_def find m1(1) m2(1) t_def)
  moreover have "same_outside (own_bytes B fs \<union> ubytes (b, n)) s t"
    unfolding same_outside_def
  proof (intro allI impI)
    fix x :: nat assume x: "x < 2 ^ 31" "x \<notin> own_bytes B fs \<union> ubytes (b, n)"
    then have "x \<notin> {p ..< p + 8}" "x \<notin> ubytes (b, n)" using own by blast+
    then have "x < p \<or> p + 8 \<le> x" "x < b \<or> b + 8 \<le> x" using n by (auto simp: ubytes_def)
    then show "umem t (of_nat x) = umem s (of_nat x)" using m1(3) m2(3) x(1) by (simp add: t_def)
  qed
  ultimately show ?thesis by (auto simp: t_def p)
qed

text \<open>Blocks that the program holds are not touched.\<close>

lemma held_frame:
  assumes "held_ok B fs al s" "same_outside F s t" "unat (brk s) \<le> unat (brk t)" "unat (brk s) < 2 ^ 31"
    and "al' \<subseteq> al" "\<And>z. z \<in> al' \<Longrightarrow> ubytes z \<inter> F = {}" "\<And>z. z \<in> al' \<Longrightarrow> ubytes z \<inter> free_bytes fs' = {}"
  shows "held_ok B fs' al' t"
  unfolding held_ok_def
proof (intro ballI conjI impI)
  fix z assume z: "z \<in> al'"
  then have za: "z \<in> al" using assms(5) by blast
  note h = assms(1) [unfolded held_ok_def, rule_format, OF za]
  show "0 < snd z" "B + 8 \<le> fst z" "fst z + 8 * snd z \<le> unat (brk t)" "ubytes z \<inter> free_bytes fs' = {}"
    using h assms(3) assms(7) [OF z] by auto
  have "rd (umem t) (fst z + 4) = rd (umem s) (fst z + 4)"
  proof (rule same_outside_rd [OF assms(2)])
    show "fst z + 4 + 4 \<le> 2 ^ 31" using h assms(4) by auto
    fix y assume "fst z + 4 \<le> y" "y < fst z + 4 + 4"
    then have "y \<in> ubytes z" using h by (auto simp: ubytes_def)
    then show "y \<notin> F" using assms(6) [OF z] by blast
  qed
  then show "rd (umem t) (fst z + 4) = of_nat (snd z)" using h by simp
  fix y assume "y \<in> al'" "y \<noteq> z"
  then show "ubytes y \<inter> ubytes z = {}" using h assms(5) by blast
qed

end
