(* ===== verification/Umalloc_Heap.thy ===== *)
theory Umalloc_Heap imports Umalloc begin

text \<open>
  The search of \<^verbatim>\<open>malloc\<close> through the ring, the growth of the heap, and the contract of the allocator: what
  \<^verbatim>\<open>malloc\<close> and \<^verbatim>\<open>free\<close> promise to a program that holds a set of blocks.
\<close>

section \<open>Allocating\<close>

lemma malloc_walk:
  assumes "upath (umem s) p zs q" "unat (brk s) < 2 ^ 31" "nu < 2 ^ 31"
    and "\<forall>z \<in> set zs. snd z < nu \<and> of_nat (fst z) \<noteq> freep s \<and> fst z + 8 \<le> unat (brk s)"
  shows "malloc_loop avail (of_nat nu) (of_nat prev) (of_nat p) s
    = malloc_loop avail (of_nat nu) (of_nat (last_addr prev zs)) (of_nat q) s"
  using assms
proof (induction zs arbitrary: p prev)
  case (Cons z zs)
  have p: "p = fst z" "rd (umem s) (p + 4) = of_nat (snd z)" using Cons.prems(1) by auto
  have "malloc_loop avail (of_nat nu) (of_nat prev) (of_nat p) s
      = malloc_loop avail (of_nat nu) (of_nat p) (of_nat (unat (rd (umem s) p))) s"
    using Cons.prems p by (subst malloc_loop.simps) (simp add: uacc of_nat_u32_less_iff)
  also have "\<dots> = malloc_loop avail (of_nat nu) (of_nat (last_addr p zs)) (of_nat q) s"
    by (rule Cons.IH) (use Cons.prems in auto)
  finally show ?case by (simp add: p)
qed simp

lemma rotate_pred:
  assumes R: "R = X @ w # Y" and zs: "Y @ X @ [w] = zs1 @ z # zs2" and z: "z \<noteq> hd R" and d: "distinct R"
  shows "\<exists>P Q. R = P @ z # Q \<and> P \<noteq> [] \<and> fst (last P) = last_addr (fst w) zs1"
proof -
  consider us where "Y = zs1 @ z # us" | us where "zs1 = Y @ us" "X @ [w] = us @ z # zs2"
  proof -
    obtain us where "Y = zs1 @ us \<and> us @ X @ [w] = z # zs2 \<or> zs1 = Y @ us \<and> X @ [w] = us @ z # zs2"
      using zs unfolding append_eq_append_conv2 by auto
    then show thesis using that by (cases us) auto
  qed
  then show ?thesis
  proof cases
    case 1
    then have "R = (X @ w # zs1) @ z # us" by (simp add: R)
    moreover have "fst (last (X @ w # zs1)) = last_addr (fst w) zs1" by (simp add: last_addr_def)
    ultimately show ?thesis by blast
  next
    case 2
    have "R = us @ z # zs2 @ Y" using R 2(2) by (metis append_Cons append_Nil append_assoc)
    moreover have "us \<noteq> []" using z calculation by auto
    moreover have "fst (last us) = last_addr (fst w) zs1" using calculation(2) by (simp add: 2 last_addr_def)
    ultimately show ?thesis by blast
  qed
qed

text \<open>The units of a block are taken from its upper end; an exact fit is unlinked.\<close>

definition take_units :: "nat \<Rightarrow> nat \<Rightarrow> nat \<Rightarrow> ublock list" where
  "take_units nu a k = (if k = nu then [] else [(a, k - nu)])"

lemma uring_split:
  assumes ring: "ring_ok B (us @ (a, k) # vs) s"
  obtains ws q j where "(B, 0) # us = ws @ [(q, j)]" "q = last_addr B us" "q \<in> insert B (fst ` set us)" "q + 8 \<le> a"
    "\<forall>z \<in> set ws. fst z + 8 \<le> q" "\<forall>z \<in> set vs. a + 8 * k \<le> fst z \<and> fst z + 8 \<le> unat (brk s)"
    "{q ..< q + 8} \<subseteq> own_bytes B us" "upath (umem s) B (ws @ [(q, j)]) a"
    "upath (umem s) (unat (rd (umem s) a)) vs B" "rd (umem s) (a + 4) = of_nat k"
    "0 < k" "a + 8 * k \<le> unat (brk s)" "unat (brk s) < 2 ^ 31" "ordered (B + 8) us a"
proof -
  define q where "q = last_addr B us"
  note base = ring_base [OF ring] and tl = ring_tail [OF ring, simplified]
  have o1: "ordered (B + 8) (us @ (a, k) # vs) (unat (brk s))" using ring by (simp add: ring_ok_def)
  then have o2: "ordered (B + 8) us (uend (B + 8) us)" "uend (B + 8) us \<le> a" by (simp_all add: ordered_append)
  have lst: "fst (last us) + 8 \<le> a" "{fst (last us) ..< fst (last us) + 8} \<subseteq> free_bytes us" if "us \<noteq> []"
    using that ordered_mem [OF o2(1), of "last us"] free_header [of "last us" us] o2(2) by auto
  have qa: "q + 8 \<le> a" using lst(1) tl(3) by (auto simp: q_def last_addr_def)
  have own: "{q ..< q + 8} \<subseteq> own_bytes B us" using lst(2) by (auto simp: q_def last_addr_def own_bytes_def)
  have vs: "\<forall>z \<in> set vs. a + 8 * k \<le> fst z \<and> fst z + 8 \<le> unat (brk s)"
    using o1 by (auto simp: ordered_append dest: ordered_mem)
  have pth: "upath (umem s) B ((B, 0) # us) a"
    using base(1) upath_append [of "umem s" B "(B, 0) # us" "(a, k) # vs" B] by auto
  define ws where "ws = butlast ((B, 0) # us)"
  define j where "j = snd (last ((B, 0) # us))"
  have W: "(B, 0) # us = ws @ [(q, j)]" by (cases us rule: rev_cases) (auto simp: q_def ws_def j_def)
  have qm: "q \<in> insert B (fst ` set us)" by (simp add: q_def last_addr_def)
  have ws: "\<forall>z \<in> set ws. fst z + 8 \<le> q" unfolding q_def ws_def by (rule below_last [OF o2(1)])
  have ou: "ordered (B + 8) us a" using o2 by (auto intro: ordered_mono)
  have "rd (umem s) (a + 4) = of_nat k" "upath (umem s) (unat (rd (umem s) a)) vs B" using tl(1) by simp_all
  from that [OF W q_def qm qa ws vs own pth [unfolded W] this(2,1) tl(4,5) base(4) ou] show thesis .
qed

lemma malloc_exact:
  assumes ring: "ring_ok B (us @ (a, nu) # vs) s"
  shows "\<exists>t. malloc_loop avail (of_nat nu) (of_nat (last_addr B us)) (of_nat a) s = Some (Ret (of_nat a + 8) t)
    \<and> ring_ok B (us @ vs) t \<and> brk t = brk s \<and> rd (umem t) (a + 4) = of_nat nu \<and> same_outside (own_bytes B us) s t"
proof -
  obtain ws q j where W: "(B, 0) # us = ws @ [(q, j)]" and q: "q = last_addr B us" "q \<in> insert B (fst ` set us)" "q + 8 \<le> a"
    and ws8: "\<forall>z \<in> set ws. fst z + 8 \<le> q" and vs8: "\<forall>z \<in> set vs. a + 8 * nu \<le> fst z \<and> fst z + 8 \<le> unat (brk s)"
    and own: "{q ..< q + 8} \<subseteq> own_bytes B us" and pw: "upath (umem s) B (ws @ [(q, j)]) a"
    and pv: "upath (umem s) (unat (rd (umem s) a)) vs B" and ha: "rd (umem s) (a + 4) = of_nat nu"
    and sz: "0 < nu" "a + 8 * nu \<le> unat (brk s)" "unat (brk s) < 2 ^ 31" and ou: "ordered (B + 8) us a"
    by (rule uring_split [OF ring]) blast
  let ?m = "wr (umem s) q (rd (umem s) a)"
  define t where "t = s\<lparr>umem := ?m, freep := of_nat q\<rparr>"
  have fr: "?m (of_nat x) = umem s (of_nat x)" if "x < q \<or> q + 4 \<le> x" "x < 2 ^ 31" for x
    using that q sz by (auto intro!: wr_apart)
  have "malloc_loop avail (of_nat nu) (of_nat q) (of_nat a) s = Some (Ret (of_nat a + 8) t)"
    using q sz by (subst malloc_loop.simps) (simp add: uacc ha t_def)
  moreover have "upath ?m B ((B, 0) # us @ vs) B"
  proof -
    have "upath (umem s) B ws q" using pw by (auto simp: upath_append)
    then have "upath ?m B ws q" by (rule upath_cong) (use ws8 q sz in \<open>auto simp: rd_wr_apart\<close>)
    moreover have "upath ?m (unat (rd (umem s) a)) vs B"
      by (rule upath_cong [OF pv]) (use vs8 q sz in \<open>auto simp: rd_wr_apart\<close>)
    moreover have "rd ?m (q + 4) = of_nat j" using pw q sz by (auto simp: upath_append rd_wr_apart)
    ultimately have "upath ?m B ((ws @ [(q, j)]) @ vs) B" by (auto simp: upath_append)
    then show ?thesis using W by (metis append_Cons)
  qed
  moreover have "ordered (B + 8) (us @ vs) (unat (brk s))"
    using ring by (auto simp: ring_ok_def ordered_append intro: ordered_mono)
  moreover have "unat (of_nat q :: u32) = q" using q sz by (simp add: unat_of_nat_u32)
  moreover have "same_outside (own_bytes B us) s t"
    unfolding same_outside_def
  proof (intro allI impI)
    fix x :: nat assume x: "x < 2 ^ 31" "x \<notin> own_bytes B us"
    then have "x \<notin> {q ..< q + 8}" using own by blast
    then show "umem t (of_nat x) = umem s (of_nat x)" using fr x(1) by (auto simp: t_def)
  qed
  moreover have "rd ?m (a + 4) = of_nat nu" using ha q sz by (simp add: rd_wr_apart)
  ultimately show ?thesis using ring q by (auto simp: ring_ok_def t_def)
qed

lemma malloc_split:
  assumes ring: "ring_ok B (us @ (a, k) # vs) s" and nu: "0 < nu" "nu < k"
  shows "\<exists>t. malloc_loop avail (of_nat nu) (of_nat (last_addr B us)) (of_nat a) s
      = Some (Ret (of_nat (a + 8 * (k - nu)) + 8) t)
    \<and> ring_ok B (us @ (a, k - nu) # vs) t \<and> brk t = brk s
    \<and> rd (umem t) (a + 8 * (k - nu) + 4) = of_nat nu \<and> same_outside (ubytes (a, k)) s t"
proof -
  obtain ws q j where W: "(B, 0) # us = ws @ [(q, j)]" and q: "q = last_addr B us" "q \<in> insert B (fst ` set us)" "q + 8 \<le> a"
    and ws8: "\<forall>z \<in> set ws. fst z + 8 \<le> q" and vs8: "\<forall>z \<in> set vs. a + 8 * k \<le> fst z \<and> fst z + 8 \<le> unat (brk s)"
    and own: "{q ..< q + 8} \<subseteq> own_bytes B us" and pw: "upath (umem s) B (ws @ [(q, j)]) a"
    and pv: "upath (umem s) (unat (rd (umem s) a)) vs B" and ha: "rd (umem s) (a + 4) = of_nat k"
    and sz: "0 < k" "a + 8 * k \<le> unat (brk s)" "unat (brk s) < 2 ^ 31" and ou: "ordered (B + 8) us a"
    by (rule uring_split [OF ring]) blast
  let ?r = "a + 8 * (k - nu)"
  let ?m = "wr (wr (umem s) (a + 4) (of_nat (k - nu))) (?r + 4) (of_nat nu)"
  define t where "t = s\<lparr>umem := ?m, freep := of_nat q\<rparr>"
  have d: "(of_nat k - of_nat nu :: u32) = of_nat (k - nu)" using nu by (simp add: of_nat_diff)
  have r8: "?r + 8 \<le> a + 8 * k" "a + 8 \<le> ?r" using nu by auto
  have e: "of_nat a + 8 * (of_nat (k - nu) :: u32) = of_nat ?r" by simp
  have "malloc_loop avail (of_nat nu) (of_nat q) (of_nat a) s = Some (Ret (of_nat ?r + 8) t)"
    using q sz nu r8 by (subst malloc_loop.simps)
      (simp add: uacc ha t_def of_nat_u32_less_iff d e del: of_nat_diff of_nat_add of_nat_mult)
  moreover have "upath ?m B ((B, 0) # us @ (a, k - nu) # vs) B"
  proof -
    have "upath ?m B (ws @ [(q, j)]) a"
      by (rule upath_cong [OF pw]) (use ws8 q sz r8 in \<open>auto simp: rd_wr_apart\<close>)
    moreover have "upath ?m (unat (rd (umem s) a)) vs B"
      by (rule upath_cong [OF pv]) (use vs8 q sz r8 in \<open>auto simp: rd_wr_apart\<close>)
    moreover have "rd ?m a = rd (umem s) a" "rd ?m (a + 4) = of_nat (k - nu)" using sz r8 by (auto simp: rd_wr_apart)
    ultimately have "upath ?m B ((ws @ [(q, j)]) @ (a, k - nu) # vs) B"
      by (simp only: upath_append) (auto simp del: of_nat_diff)
    then show ?thesis using W by (metis append_Cons)
  qed
  moreover have "ordered (B + 8) (us @ (a, k - nu) # vs) (unat (brk s))"
    using ring nu by (auto simp: ring_ok_def ordered_append intro: ordered_mono)
  moreover have "unat (of_nat q :: u32) = q" using q sz by (simp add: unat_of_nat_u32)
  moreover have "same_outside (ubytes (a, k)) s t"
    using r8 sz by (auto simp: same_outside_def t_def ubytes_def wr_apart not_le)
  ultimately show ?thesis using ring q by (auto simp: ring_ok_def t_def)
qed

lemma take_bytes:
  assumes "ordered lo (us @ (a, k) # vs) hi" "nu \<le> k"
  shows "ubytes (a + 8 * (k - nu), nu) \<subseteq> free_bytes (us @ (a, k) # vs)"
    "free_bytes (us @ take_units nu a k @ vs) = free_bytes (us @ (a, k) # vs) - ubytes (a + 8 * (k - nu), nu)"
proof -
  let ?r = "a + 8 * (k - nu)"
  have e: "?r + 8 * nu = a + 8 * k" using assms(2) by (simp add: algebra_simps)
  have T: "free_bytes (take_units nu a k) = {a ..< ?r}" by (auto simp: take_units_def ubytes_def)
  have o1: "ordered lo us (uend lo us)" "uend lo us \<le> a" "ordered (a + 8 * k) vs hi"
    using assms(1) by (simp_all add: ordered_append)
  have U: "x < a" if "x \<in> free_bytes us" for x
    using that o1(2) by (auto simp: free_bytes_def ubytes_def dest!: ordered_mem [OF o1(1)])
  have V: "a + 8 * k \<le> x" if "x \<in> free_bytes vs" for x
    using that by (auto simp: free_bytes_def ubytes_def dest!: ordered_mem [OF o1(3)])
  have R: "ubytes (?r, nu) = {?r ..< a + 8 * k}" "ubytes (a, k) = {a ..< a + 8 * k}"
    using e by (simp_all only: ubytes_def fst_conv snd_conv)
  show "ubytes (?r, nu) \<subseteq> free_bytes (us @ (a, k) # vs)" by (auto simp: R)
  have "a \<le> ?r" "?r \<le> a + 8 * k" using assms(2) by auto
  then show "free_bytes (us @ take_units nu a k @ vs) = free_bytes (us @ (a, k) # vs) - ubytes (?r, nu)"
    unfolding free_bytes_simps T R by (auto dest: U V)
qed

lemma malloc_take:
  assumes ring: "ring_ok B fs s" and fs: "fs = us @ (a, k) # vs" and nu: "0 < nu" "nu \<le> k"
  shows "\<exists>t. malloc_loop avail (of_nat nu) (of_nat (last_addr B us)) (of_nat a) s
      = Some (Ret (of_nat (a + 8 * (k - nu)) + 8) t)
    \<and> ring_ok B (us @ take_units nu a k @ vs) t \<and> brk t = brk s
    \<and> rd (umem t) (a + 8 * (k - nu) + 4) = of_nat nu \<and> same_outside (own_bytes B fs) s t"
proof (cases "nu = k")
  case True
  have "own_bytes B us \<subseteq> own_bytes B fs" by (auto simp: fs own_bytes_def)
  then show ?thesis using malloc_exact [of B us a k vs s avail] ring True same_outside_mono
    by (fastforce simp: fs take_units_def)
next
  case False
  have "ubytes (a, k) \<subseteq> own_bytes B fs" by (auto simp: fs own_bytes_def)
  then show ?thesis using malloc_split [of B us a k vs s nu avail] ring nu False same_outside_mono
    by (fastforce simp: fs take_units_def)
qed

text \<open>The ring as seen from \<^verbatim>\<open>freep\<close>.\<close>

lemma ring_from_freep:
  assumes ring: "ring_ok B fs s"
  obtains X w Y where "(B, 0) # fs = X @ w # Y" "freep s = of_nat (fst w)" "fst w + 8 \<le> unat (brk s)"
    "rd (umem s) (fst w + 4) = of_nat (snd w)" "upath (umem s) (unat (rd (umem s) (fst w))) (Y @ X) (fst w)"
    "\<forall>z \<in> set (Y @ X). of_nat (fst z) \<noteq> freep s \<and> fst z + 8 \<le> unat (brk s)" "distinct ((B, 0) # fs)"
proof -
  note base = ring_base [OF ring]
  have o1: "ordered (B + 8) fs (unat (brk s))" using ring by (simp add: ring_ok_def)
  have le: "fst z + 8 \<le> unat (brk s)" if "z \<in> set ((B, 0) # fs)" for z
    using that base(3) ordered_mem [OF o1, of z] by auto
  have d: "distinct (map fst ((B, 0) # fs))"
    using ordered_distinct [OF o1] ordered_mem [OF o1] by fastforce
  obtain w where w: "w \<in> set ((B, 0) # fs)" "unat (freep s) = fst w"
  proof -
    have "unat (freep s) \<in> fst ` set ((B, 0) # fs)" using ring by (simp add: ring_ok_def)
    then show thesis using that by blast
  qed
  then obtain X Y where R: "(B, 0) # fs = X @ w # Y" by (meson split_list)
  have f: "freep s = of_nat (fst w)" using w(2) by (rule of_nat_unat_eq)
  have p: "upath (umem s) B (X @ w # Y) B" using base(1) R by simp
  then have "upath (umem s) (unat (rd (umem s) (fst w))) (Y @ X) (fst w)" "rd (umem s) (fst w + 4) = of_nat (snd w)"
    by (auto simp: upath_append)
  moreover have "\<forall>z \<in> set (Y @ X). of_nat (fst z) \<noteq> freep s \<and> fst z + 8 \<le> unat (brk s)"
  proof
    fix z assume "z \<in> set (Y @ X)"
    then have z: "z \<in> set ((B, 0) # fs)" "fst z \<noteq> fst w" using d unfolding R by (auto simp: image_iff)
    then show "of_nat (fst z) \<noteq> freep s \<and> fst z + 8 \<le> unat (brk s)"
      using le [OF z(1)] le [OF w(1)] base(4) by (simp add: f of_nat_u32_less_iff)
  qed
  moreover have "distinct ((B, 0) # fs)" using d by (simp only: distinct_map)
  ultimately show thesis using that R f le [OF w(1)] by blast
qed

definition malloc_search :: "(u32 \<Rightarrow> u32 \<Rightarrow> bool) \<Rightarrow> nat \<Rightarrow> uheap \<Rightarrow> u32 urun" where
  "malloc_search avail nu s = uthen (uload (freep s) s) (\<lambda>p s. malloc_loop avail (of_nat nu) (freep s) p s)"

lemma search_hit:
  assumes ring: "ring_ok B fs s" and nu: "0 < nu" "nu < 2 ^ 31" and hit: "\<exists>z \<in> set fs. nu \<le> snd z"
  shows "\<exists>r t fs'. malloc_search avail nu s = Some (Ret (of_nat r + 8) t)
    \<and> ring_ok B fs' t \<and> brk t = brk s \<and> rd (umem t) (r + 4) = of_nat nu \<and> same_outside (own_bytes B fs) s t
    \<and> ubytes (r, nu) \<subseteq> free_bytes fs \<and> free_bytes fs' = free_bytes fs - ubytes (r, nu)"
proof -
  note base = ring_base [OF ring]
  obtain X w Y where R: "(B, 0) # fs = X @ w # Y" and f: "freep s = of_nat (fst w)" "fst w + 8 \<le> unat (brk s)"
    and hw: "rd (umem s) (fst w + 4) = of_nat (snd w)"
    and p: "upath (umem s) (unat (rd (umem s) (fst w))) (Y @ X) (fst w)"
    and far: "\<forall>z \<in> set (Y @ X). of_nat (fst z) \<noteq> freep s \<and> fst z + 8 \<le> unat (brk s)" and d: "distinct ((B, 0) # fs)"
    by (rule ring_from_freep [OF ring]) blast
  have "\<exists>z \<in> set (Y @ X @ [w]). nu \<le> snd z"
    using hit R by (metis Un_iff list.set_intros(2) list.simps(15) set_append Un_insert_right insert_iff)
  then obtain zs1 z zs2 where zs: "Y @ X @ [w] = zs1 @ z # zs2" and z: "nu \<le> snd z" and lt: "\<forall>y \<in> set zs1. snd y < nu"
    using split_list_first_prop [of "Y @ X @ [w]" "\<lambda>z. nu \<le> snd z"] by (auto simp: not_le)
  have "z \<noteq> hd ((B, 0) # fs)" using z nu by auto
  from rotate_pred [OF R zs this d] obtain P us vs where P: "(B, 0) # fs = P @ z # vs" "P \<noteq> []"
    "fst (last P) = last_addr (fst w) zs1" by blast
  then obtain us where us: "P = (B, 0) # us" "fs = us @ z # vs" by (cases P) auto
  have la: "last_addr (fst w) zs1 = last_addr B us" using P(3) by (simp add: us last_addr_def split: if_splits)
  have walk: "malloc_loop avail (of_nat nu) (freep s) (rd (umem s) (fst w)) s
      = malloc_loop avail (of_nat nu) (of_nat (last_addr B us)) (of_nat (fst z)) s"
  proof -
    have "upath (umem s) (unat (rd (umem s) (fst w))) ((Y @ X) @ [w]) (unat (rd (umem s) (fst w)))"
      using p hw unfolding upath_append [of _ _ "Y @ X" "[w]"] by auto
    then have "upath (umem s) (unat (rd (umem s) (fst w))) zs1 (fst z)" using zs by (auto simp: upath_append)
    moreover have "Y @ X = zs1 @ butlast (z # zs2)" using zs by (metis append_assoc butlast_append butlast_snoc list.distinct(1))
    then have "set zs1 \<subseteq> set (Y @ X)" by simp
    ultimately show ?thesis
      using malloc_walk [of s "unat (rd (umem s) (fst w))" zs1 "fst z" nu avail "fst w"] base(4) nu lt far f la by auto
  qed
  obtain a k where ak: "z = (a, k)" by (cases z)
  have o1: "ordered (B + 8) fs (unat (brk s))" using ring by (simp add: ring_ok_def)
  show ?thesis
  proof -
    have "malloc_search avail nu s = malloc_loop avail (of_nat nu) (of_nat (last_addr B us)) (of_nat a) s"
      using walk f base(4) by (simp add: malloc_search_def uacc ak)
    moreover have k: "nu \<le> k" using z ak by simp
    note malloc_take [OF ring us(2) [unfolded ak] nu(1) k, of avail]
    moreover note take_bytes [OF o1 [unfolded us(2) ak] k, folded ak, folded us(2)]
    ultimately show ?thesis
      by (intro exI [of _ "a + 8 * (k - nu)"]) (elim exE, rule_tac x = t in exI,
        rule_tac x = "us @ take_units nu a k @ vs" in exI, simp only: simp_thms)
  qed
qed

lemma search_miss:
  assumes ring: "ring_ok B fs s" and nu: "0 < nu" "nu < 2 ^ 31" and miss: "\<forall>z \<in> set fs. snd z < nu"
  shows "malloc_search avail nu s = uthen (morecore avail (of_nat nu) s) (\<lambda>p s.
       if p = 0 then Some (Ret 0 s) else uthen (uload p s) (\<lambda>q s. malloc_loop avail (of_nat nu) p q s))"
proof -
  note base = ring_base [OF ring]
  obtain X w Y where R: "(B, 0) # fs = X @ w # Y" and f: "freep s = of_nat (fst w)" "fst w + 8 \<le> unat (brk s)"
    and hw: "rd (umem s) (fst w + 4) = of_nat (snd w)"
    and p: "upath (umem s) (unat (rd (umem s) (fst w))) (Y @ X) (fst w)"
    and far: "\<forall>z \<in> set (Y @ X). of_nat (fst z) \<noteq> freep s \<and> fst z + 8 \<le> unat (brk s)"
    by (rule ring_from_freep [OF ring]) blast
  have lt: "snd z < nu" if "z \<in> set (X @ w # Y)" for z using that miss nu by (auto simp: R [symmetric])
  have "malloc_loop avail (of_nat nu) (freep s) (rd (umem s) (fst w)) s
      = malloc_loop avail (of_nat nu) (of_nat (last_addr (fst w) (Y @ X))) (of_nat (fst w)) s"
  proof -
    have "\<forall>z \<in> set (Y @ X). snd z < nu \<and> of_nat (fst z) \<noteq> freep s \<and> fst z + 8 \<le> unat (brk s)"
      using far lt by (metis (no_types, lifting) Un_iff list.set_intros(2) set_append)
    then show ?thesis using malloc_walk [OF p base(4) nu(2), of avail "fst w"] f by simp
  qed
  also have "\<dots> = uthen (morecore avail (of_nat nu) s) (\<lambda>p s.
       if p = 0 then Some (Ret 0 s) else uthen (uload p s) (\<lambda>q s. malloc_loop avail (of_nat nu) p q s))"
    using f base(4) hw lt [of w] nu
    by (subst malloc_loop.simps) (simp add: uacc of_nat_u32_less_iff not_le [symmetric])
  finally show ?thesis using f base(4) by (simp add: malloc_search_def uacc)
qed

section \<open>Growing the heap\<close>

definition grow_units :: "nat \<Rightarrow> nat" where "grow_units nu = max nu 4096"

definition can_grow :: "(u32 \<Rightarrow> u32 \<Rightarrow> bool) \<Rightarrow> nat \<Rightarrow> uheap \<Rightarrow> bool" where
  "can_grow avail nu s \<longleftrightarrow> unat (brk s) + 8 * grow_units nu < 2 ^ 31
     \<and> avail (brk s) (of_nat (unat (brk s) + 8 * grow_units nu))"

lemma sbrk_grow:
  assumes brk: "unat (brk s) < 2 ^ 31" and nu: "0 < nu" "nu < 2 ^ 28"
  shows "sbrk avail (of_nat nu * 8) s =
    (if unat (brk s) + 8 * nu < 2 ^ 31 \<and> avail (brk s) (of_nat (unat (brk s) + 8 * nu)) then
       Some (Ret (brk s) (s\<lparr>brk := of_nat (unat (brk s) + 8 * nu),
         umem := (\<lambda>a. if PGROUNDUP (brk s) \<le> a \<and> a < PGROUNDUP (of_nat (unat (brk s) + 8 * nu)) then 0 else umem s a)\<rparr>))
     else Some (Ret (- 1) s))"
proof -
  let ?new = "unat (brk s) + 8 * nu"
  have n: "(of_nat nu * 8 :: u32) = of_nat (8 * nu)" by simp
  have si: "0 < sint (of_nat (8 * nu) :: u32)" using nu by (subst sint_of_nat_small) auto
  have new: "brk s + of_nat (8 * nu) = of_nat ?new" by simp
  have u: "unat (of_nat ?new :: u32) = ?new" using brk nu by (intro unat_of_nat_u32) simp
  have le: "\<not> (of_nat ?new :: u32) < brk s" by (simp add: word_less_nat_alt u del: of_nat_add of_nat_mult)
  have kb: "KERNBASE \<le> (of_nat ?new :: u32) \<longleftrightarrow> \<not> ?new < 2 ^ 31"
    by (simp add: word_le_nat_alt u not_less del: of_nat_add of_nat_mult)
  show ?thesis unfolding sbrk_def Let_def n new using si le kb by (simp del: of_nat_add of_nat_mult)
qed

lemma ring_grow:
  assumes ring: "ring_ok B fs s" and new: "unat (brk s) \<le> unat (brk t)" "unat (brk t) < 2 ^ 31"
    and same: "same_outside {unat (brk s) ..} s t" and fp: "freep t = freep s"
  shows "ring_ok B fs t"
proof -
  have o1: "ordered (B + 8) fs (unat (brk s))" using ring by (simp add: ring_ok_def)
  have "upath (umem t) B ((B, 0) # fs) B"
  proof (rule upath_cong [OF ring_base(1) [OF ring]])
    fix z assume "z \<in> set ((B, 0) # fs)"
    then have "fst z + 8 \<le> unat (brk s)" using ordered_mem [OF o1, of z] ring_base(3) [OF ring] by auto
    then show "rd (umem t) (fst z) = rd (umem s) (fst z) \<and> rd (umem t) (fst z + 4) = rd (umem s) (fst z + 4)"
      using ring_base(4) [OF ring] by (auto intro!: same_outside_rd [OF same])
  qed
  then show ?thesis using ring new fp by (auto simp: ring_ok_def intro: ordered_mono)
qed

lemma morecore_fails:
  assumes "ring_ok B fs s" "0 < nu" "nu < 2 ^ 28" "\<not> can_grow avail nu s"
  shows "morecore avail (of_nat nu) s = Some (Ret 0 s)"
proof -
  have "(if (of_nat nu :: u32) < 4096 then 4096 else of_nat nu) = (of_nat (grow_units nu) :: u32)"
    using assms(3) of_nat_u32_less_iff(1) [of nu 4096] by (auto simp: grow_units_def max_def)
  then show ?thesis
    using sbrk_grow [of s "grow_units nu" avail] assms ring_base(4) [OF assms(1)]
    by (auto simp: morecore_def can_grow_def grow_units_def)
qed

lemma morecore_grows:
  assumes ring: "ring_ok B fs s" and nu: "0 < nu" "nu < 2 ^ 28" and can: "can_grow avail nu s"
  shows "\<exists>t. morecore avail (of_nat nu) s = Some (Ret (freep t) t) \<and> freep t \<noteq> 0
    \<and> ring_ok B (insert_free (unat (brk s)) (grow_units nu) fs) t
    \<and> brk t = of_nat (unat (brk s) + 8 * grow_units nu)
    \<and> same_outside (own_bytes B fs \<union> {unat (brk s) ..}) s t"
proof -
  let ?b = "unat (brk s)" and ?n = "grow_units nu"
  note base = ring_base [OF ring]
  have n: "0 < ?n" "?n < 2 ^ 28" using nu by (auto simp: grow_units_def)
  have max: "(if (of_nat nu :: u32) < 4096 then 4096 else of_nat nu) = (of_nat ?n :: u32)"
    using nu of_nat_u32_less_iff(1) [of nu 4096] by (auto simp: grow_units_def max_def)
  have fit: "?b + 8 * ?n < 2 ^ 31" "avail (brk s) (of_nat (?b + 8 * ?n))" using can by (auto simp: can_grow_def)
  have ub: "unat (of_nat (?b + 8 * ?n) :: u32) = ?b + 8 * ?n" using fit by (intro unat_of_nat_u32) simp
  define s1 where "s1 = s\<lparr>brk := of_nat (?b + 8 * ?n),
    umem := (\<lambda>a. if PGROUNDUP (brk s) \<le> a \<and> a < PGROUNDUP (of_nat (?b + 8 * ?n)) then 0 else umem s a)\<rparr>"
  define s2 where "s2 = s1\<lparr>umem := wr (umem s1) (?b + 4) (of_nat ?n)\<rparr>"
  have brk1: "unat (brk s1) = ?b + 8 * ?n" using ub by (simp add: s1_def)
  have sb: "sbrk avail (of_nat ?n * 8) s = Some (Ret (brk s) s1)"
    using sbrk_grow [OF base(4) n] fit by (simp add: s1_def)
  have old: "umem s1 (of_nat x) = umem s (of_nat x)" if "x < ?b" for x
  proof -
    have "?b \<le> unat (PGROUNDUP (brk s))" using base(4) by (simp add: unat_PGROUNDUP)
    then have "\<not> PGROUNDUP (brk s) \<le> of_nat x"
      using that base(4) by (simp add: word_le_nat_alt unat_of_nat_u32)
    then show ?thesis by (simp add: s1_def)
  qed
  have same2: "same_outside {?b ..} s s2"
    using old fit n by (auto simp: same_outside_def s2_def wr_apart)
  have st: "ustore (brk s + 4) (of_nat ?n) s1 = Some (Ret () s2)"
    using ustore_nat4 [of ?b s1 "of_nat ?n"] brk1 fit n by (simp add: s2_def)
  have ring2: "ring_ok B fs s2"
    by (rule ring_grow [OF ring _ _ same2]) (use brk1 fit in \<open>auto simp: s2_def s1_def ub simp del: of_nat_add of_nat_mult\<close>)
  have o1: "ordered (B + 8) fs ?b" using ring by (simp add: ring_ok_def)
  have "ubytes (?b, ?n) \<inter> free_bytes fs = {}"
    by (auto simp: free_bytes_def ubytes_def dest!: ordered_mem [OF o1])
  then obtain t where t: "free (of_nat ?b + 8) s2 = Some (Ret () t)" "ring_ok B (insert_free ?b ?n fs) t" "brk t = brk s2"
    "same_outside (own_bytes B fs \<union> ubytes (?b, ?n)) s2 t"
    using free_ring [OF ring2 n(1), of ?b] base(3) brk1 by (force simp: s2_def)
  have "freep t \<noteq> 0" using t(2) ordered_mem by (fastforce simp: ring_ok_def)
  moreover have "morecore avail (of_nat nu) s = Some (Ret (freep t) t)"
  proof -
    have "brk s \<noteq> - 1" using base(4) by (auto simp: word_unat_eq_iff unsigned_minus_1_eq_mask mask_eq_exp_minus_1)
    then show ?thesis using sb st t(1) by (simp add: morecore_def max)
  qed
  moreover have "same_outside (own_bytes B fs \<union> {?b ..}) s t"
    using same_outside_trans [OF same2 t(4)] by (rule same_outside_mono) (auto simp: ubytes_def)
  ultimately show ?thesis using t by (auto simp: s2_def s1_def)
qed

lemma merge_upper_big: "\<exists>k zs. merge_upper b n ys = (b, k) # zs \<and> n \<le> k"
  by (cases ys) (auto simp: merge_upper_def)

lemma insert_free_big: "\<exists>z \<in> set (insert_free b n fs). n \<le> snd z"
proof -
  obtain k zs where "merge_upper b n (dropWhile (\<lambda>z. fst z < b) fs) = (b, k) # zs" "n \<le> k"
    using merge_upper_big by blast
  then show ?thesis by (auto simp: insert_free_def merge_lower_def)
qed

lemma freep_loads: "ring_ok B fs s \<Longrightarrow> \<exists>q. uload (freep s) s = Some (Ret q s)"
proof -
  assume ring: "ring_ok B fs s"
  obtain w where "freep s = of_nat w" "w + 8 \<le> unat (brk s)"
    by (rule ring_from_freep [OF ring]) blast
  then show ?thesis using uload_nat [of w s] ring_base(4) [OF ring] by auto
qed

text \<open>
  What a search hands out: \<open>nu\<close> units that were free or new, out of the ring afterwards.
\<close>

definition handed :: "nat \<Rightarrow> ublock list \<Rightarrow> nat \<Rightarrow> uheap \<Rightarrow> nat \<Rightarrow> ublock list \<Rightarrow> uheap \<Rightarrow> bool" where
  "handed B fs nu s a fs' t \<longleftrightarrow> ring_ok B fs' t \<and> unat (brk s) \<le> unat (brk t)
     \<and> rd (umem t) (a + 4) = of_nat nu \<and> same_outside (own_bytes B fs \<union> {unat (brk s) ..}) s t
     \<and> ubytes (a, nu) \<subseteq> free_bytes fs \<union> {unat (brk s) ..}
     \<and> B + 8 \<le> a \<and> a + 8 * nu \<le> unat (brk t)
     \<and> free_bytes fs' \<subseteq> (free_bytes fs \<union> {unat (brk s) ..}) - ubytes (a, nu)"

lemma free_bytes_bounds: "ring_ok B fs s \<Longrightarrow> free_bytes fs \<subseteq> {B + 8 ..< unat (brk s)}"
  by (auto simp: ring_ok_def free_bytes_def ubytes_def dest!: ordered_mem)

lemma ubytes_inside:
  assumes "ubytes (a, nu) \<subseteq> {lo ..< hi}" "0 < nu"
  shows "lo \<le> a" "a + 8 * nu \<le> hi"
proof -
  have "a \<in> ubytes (a, nu)" "a + 8 * nu - 1 \<in> ubytes (a, nu)" using assms(2) by (auto simp: ubytes_def)
  then have "a \<in> {lo ..< hi}" "a + 8 * nu - 1 \<in> {lo ..< hi}" using assms(1) by blast+
  then show "lo \<le> a" "a + 8 * nu \<le> hi" by auto
qed

lemma search_finds:
  assumes ring: "ring_ok B fs s" and nu: "0 < nu" "nu < 2 ^ 28" and hit: "\<exists>z \<in> set fs. nu \<le> snd z"
  shows "\<exists>a fs' t. malloc_search avail nu s = Some (Ret (of_nat a + 8) t) \<and> handed B fs nu s a fs' t"
proof -
  obtain a t fs' where t: "malloc_search avail nu s = Some (Ret (of_nat a + 8) t)" "ring_ok B fs' t" "brk t = brk s"
    "rd (umem t) (a + 4) = of_nat nu" "same_outside (own_bytes B fs) s t" "ubytes (a, nu) \<subseteq> free_bytes fs"
    "free_bytes fs' = free_bytes fs - ubytes (a, nu)"
    using search_hit [OF ring nu(1) _ hit, of avail] nu(2) by force
  have "B + 8 \<le> a" "a + 8 * nu \<le> unat (brk s)"
    using ubytes_inside [OF subset_trans [OF t(6) free_bytes_bounds [OF ring]] nu(1)] by auto
  then have "handed B fs nu s a fs' t"
    unfolding handed_def using t by (auto intro: same_outside_mono)
  then show ?thesis using t(1) by blast
qed

lemma search_result:
  assumes ring: "ring_ok B fs s" and nu: "0 < nu" "nu < 2 ^ 28"
  shows "malloc_search avail nu s = Some (Ret 0 s) \<and> \<not> can_grow avail nu s
    \<or> (\<exists>a fs' t. malloc_search avail nu s = Some (Ret (of_nat a + 8) t) \<and> handed B fs nu s a fs' t)"
proof (cases "\<exists>z \<in> set fs. nu \<le> snd z")
  case True
  then show ?thesis using search_finds [OF ring nu] by blast
next
  case False
  then have miss: "malloc_search avail nu s = uthen (morecore avail (of_nat nu) s) (\<lambda>p s.
       if p = 0 then Some (Ret 0 s) else uthen (uload p s) (\<lambda>q s. malloc_loop avail (of_nat nu) p q s))"
    using nu by (intro search_miss [OF ring]) (auto simp: not_le)
  show ?thesis
  proof (cases "can_grow avail nu s")
    case False
    then show ?thesis using miss morecore_fails [OF ring nu False] by simp
  next
    case True
    let ?b = "unat (brk s)" and ?fs = "insert_free (unat (brk s)) (grow_units nu) fs"
    obtain u where u: "morecore avail (of_nat nu) s = Some (Ret (freep u) u)" "freep u \<noteq> 0" "ring_ok B ?fs u"
      "brk u = of_nat (?b + 8 * grow_units nu)" "same_outside (own_bytes B fs \<union> {?b ..}) s u"
      using morecore_grows [OF ring nu True] by blast
    have "\<exists>z \<in> set ?fs. nu \<le> snd z"
      using insert_free_big [of ?b "grow_units nu" fs] by (auto simp: grow_units_def intro: order_trans)
    then obtain a fs' t where t: "malloc_search avail nu u = Some (Ret (of_nat a + 8) t)" "handed B ?fs nu u a fs' t"
      using search_finds [OF u(3) nu] by blast
    have bu: "?b \<le> unat (brk u)"
    proof -
      have "?b + 8 * grow_units nu < 2 ^ 31" using True by (simp add: can_grow_def)
      then have "unat (brk u) = ?b + 8 * grow_units nu" unfolding u(4) by (intro unat_of_nat_u32) simp
      then show ?thesis by simp
    qed
    have fb: "free_bytes ?fs \<subseteq> free_bytes fs \<union> {?b ..}" by (auto simp: insert_free_bytes ubytes_def)
    have "handed B fs nu s a fs' t"
    proof -
      have "same_outside (own_bytes B ?fs \<union> {unat (brk u) ..}) u t" using t(2) by (simp add: handed_def)
      from same_outside_trans [OF u(5) this] have "same_outside (own_bytes B fs \<union> {?b ..}) s t"
        by (rule same_outside_mono) (use fb bu in \<open>auto simp: own_bytes_def\<close>)
      then show ?thesis using t(2) bu fb unfolding handed_def by auto
    qed
    moreover have "malloc_search avail nu s = malloc_search avail nu u"
    proof -
      have "\<exists>q. uload (freep u) u = Some (Ret q u)" by (rule freep_loads [OF u(3)])
      then show ?thesis using u(2) by (auto simp: miss u(1) malloc_search_def [of avail nu u])
    qed
    ultimately show ?thesis using t(1) by auto
  qed
qed

section \<open>The contract\<close>

definition heap_inv :: "nat \<Rightarrow> ublock set \<Rightarrow> uheap \<Rightarrow> bool" where
  "heap_inv B al s \<longleftrightarrow> (\<exists>fs. heap_ok B fs al s)
     \<or> freep s = 0 \<and> al = {} \<and> 0 < B \<and> B + 8 \<le> unat (brk s) \<and> unat (brk s) < 2 ^ 31"

definition nunits :: "u32 \<Rightarrow> nat" where
  "nunits nbytes = (unat nbytes + 7) div 8 + 1"

lemma nunits_eq:
  assumes "unat nbytes \<le> 2 ^ 31 - 16"
  shows "(nbytes + 8 - 1) div 8 + 1 = (of_nat (nunits nbytes) :: u32)" "0 < nunits nbytes" "nunits nbytes < 2 ^ 28"
    "unat nbytes + 8 \<le> 8 * nunits nbytes"
proof -
  have "unat (7 + nbytes) = unat nbytes + 7" using assms by (simp add: unat_word_ariths)
  then have "(nbytes + 8 - 1) div 8 = (of_nat ((unat nbytes + 7) div 8) :: u32)"
    by (intro of_nat_unat_eq) (simp add: unat_div)
  then show "(nbytes + 8 - 1) div 8 + 1 = (of_nat (nunits nbytes) :: u32)" by (simp add: nunits_def)
  show "0 < nunits nbytes" "nunits nbytes < 2 ^ 28" "unat nbytes + 8 \<le> 8 * nunits nbytes"
    using assms by (auto simp: nunits_def)
qed

lemma malloc_init_ok:
  assumes "heap_inv B al s"
  shows "\<exists>fs u. malloc_init (of_nat B) s = Some (Ret () u) \<and> heap_ok B fs al u \<and> brk u = brk s
    \<and> (\<forall>z \<in> al. u = s)"
proof (cases "\<exists>fs. heap_ok B fs al s")
  case True
  then obtain fs where fs: "heap_ok B fs al s" by blast
  then have "freep s \<noteq> 0" using ordered_mem by (fastforce simp: heap_ok_def ring_ok_def)
  then show ?thesis using fs by (auto simp: malloc_init_def)
next
  case False
  then have i: "freep s = 0" "al = {}" "0 < B" "B + 8 \<le> unat (brk s)" "unat (brk s) < 2 ^ 31"
    using assms by (auto simp: heap_inv_def)
  define u where "u = s\<lparr>freep := of_nat B, umem := wr (wr (umem s) B (of_nat B)) (B + 4) 0\<rparr>"
  have "malloc_init (of_nat B) s = Some (Ret () u)"
    using i by (simp add: malloc_init_def ustore_nat ustore_nat4 u_def)
  moreover have "heap_ok B [] al u"
    using i by (simp add: heap_ok_def ring_ok_def held_ok_def u_def rd_wr_apart unat_of_nat_u32)
  ultimately show ?thesis using i by (auto simp: u_def)
qed

lemma handed_inv:
  assumes hd: "handed B fs nu s a fs' t" and heap: "heap_ok B fs al s" and nu: "0 < nu"
  shows "heap_inv B (insert (a, nu) al) t" "\<forall>z \<in> al. ubytes z \<inter> ubytes (a, nu) = {}"
    "\<forall>z \<in> al. \<forall>x \<in> ubytes z. umem t (of_nat x) = umem s (of_nat x)"
proof -
  have h: "0 < snd z" "B + 8 \<le> fst z" "fst z + 8 * snd z \<le> unat (brk s)" "ubytes z \<inter> free_bytes fs = {}" if "z \<in> al" for z
    using heap that by (auto simp: heap_ok_def held_ok_def)
  have brk: "unat (brk s) < 2 ^ 31" using heap ring_base(4) by (auto simp: heap_ok_def)
  have out: "ubytes z \<inter> (own_bytes B fs \<union> {unat (brk s) ..}) = {}" if "z \<in> al" for z
    using h [OF that] by (auto simp: own_bytes_def ubytes_def)
  show dj: "\<forall>z \<in> al. ubytes z \<inter> ubytes (a, nu) = {}"
    using hd out unfolding handed_def own_bytes_def by blast
  show "\<forall>z \<in> al. \<forall>x \<in> ubytes z. umem t (of_nat x) = umem s (of_nat x)"
  proof (intro ballI)
    fix z x assume z: "z \<in> al" "x \<in> ubytes z"
    then have "x < 2 ^ 31" using h [OF z(1)] brk by (auto simp: ubytes_def)
    then show "umem t (of_nat x) = umem s (of_nat x)" using hd out [OF z(1)] z(2)
      unfolding handed_def same_outside_def by blast
  qed
  have "held_ok B fs' al t"
  proof (rule held_frame)
    show "held_ok B fs al s" "same_outside (own_bytes B fs \<union> {unat (brk s) ..}) s t"
      "unat (brk s) \<le> unat (brk t)" "unat (brk s) < 2 ^ 31" "al \<subseteq> al"
      using hd heap brk by (auto simp: handed_def heap_ok_def)
    fix z assume z: "z \<in> al"
    show "ubytes z \<inter> (own_bytes B fs \<union> {unat (brk s) ..}) = {}" by (rule out [OF z])
    then show "ubytes z \<inter> free_bytes fs' = {}" using hd unfolding handed_def own_bytes_def by blast
  qed
  moreover have "ubytes (a, nu) \<inter> free_bytes fs' = {}" using hd unfolding handed_def by blast
  ultimately have "heap_ok B fs' (insert (a, nu) al) t"
    using hd nu dj unfolding heap_ok_def held_ok_def handed_def by (auto simp: Int_commute)
  then show "heap_inv B (insert (a, nu) al) t" by (auto simp: heap_inv_def)
qed

text \<open>
  C36: in a heap whose invariant holds \<^verbatim>\<open>malloc\<close> ends without a fault, for a request of at most \<open>2 ^ 31 - 16\<close> bytes, writes no byte
  of a block the program holds, and either returns a block of at least the requested size that overlaps none of these, or returns 0
  because the break cannot grow; the invariant holds again.
\<close>

theorem malloc_allocates:
  assumes inv: "heap_inv B al s" and n: "unat nbytes \<le> 2 ^ 31 - 16"
  shows "\<exists>r t. malloc avail (of_nat B) nbytes s = Some (Ret r t)
    \<and> (\<forall>z \<in> al. \<forall>x \<in> ubytes z. umem t (of_nat x) = umem s (of_nat x))
    \<and> (r = 0 \<and> \<not> can_grow avail (nunits nbytes) s \<and> heap_inv B al t
       \<or> (\<exists>a. r = of_nat (a + 8) \<and> unat nbytes \<le> 8 * nunits nbytes - 8
            \<and> B + 8 \<le> a \<and> a + 8 * nunits nbytes \<le> unat (brk t)
            \<and> (\<forall>z \<in> al. ubytes z \<inter> ubytes (a, nunits nbytes) = {})
            \<and> heap_inv B (insert (a, nunits nbytes) al) t))"
proof -
  note nu = nunits_eq [OF n]
  obtain fs u where u: "malloc_init (of_nat B) s = Some (Ret () u)" "heap_ok B fs al u" "brk u = brk s" "\<forall>z \<in> al. u = s"
    using malloc_init_ok [OF inv] by blast
  have ring: "ring_ok B fs u" using u(2) by (simp add: heap_ok_def)
  have m: "malloc avail (of_nat B) nbytes s = malloc_search avail (nunits nbytes) u"
    unfolding malloc_def malloc_search_def Let_def nu(1) by (simp add: u(1))
  have cg: "can_grow avail (nunits nbytes) u = can_grow avail (nunits nbytes) s" by (simp add: can_grow_def u(3))
  from search_result [OF ring nu(2,3), of avail] show ?thesis
  proof (elim disjE conjE exE)
    assume "malloc_search avail (nunits nbytes) u = Some (Ret 0 u)" "\<not> can_grow avail (nunits nbytes) u"
    then show ?thesis using m u cg by (auto simp: heap_inv_def)
  next
    fix a fs' t assume t: "malloc_search avail (nunits nbytes) u = Some (Ret (of_nat a + 8) t)"
      "handed B fs (nunits nbytes) u a fs' t"
    note h = handed_inv [OF t(2) u(2) nu(2)]
    have "B + 8 \<le> a" "a + 8 * nunits nbytes \<le> unat (brk t)" using t(2) by (auto simp: handed_def)
    moreover have "of_nat (a + 8) = (of_nat a + 8 :: u32)" by simp
    moreover have "\<forall>z \<in> al. \<forall>x \<in> ubytes z. umem t (of_nat x) = umem s (of_nat x)" using h(3) u(4) by metis
    ultimately show ?thesis using m t(1) h nu(4) by (metis add_le_imp_le_diff)
  qed
qed

text \<open>
  C37: \<^verbatim>\<open>free\<close> of a block the program holds ends without a fault, writes no byte of another held block and
  keeps the invariant; afterwards a request that fits into the freed block succeeds, whether or not the break
  can grow.
\<close>

theorem free_returns:
  assumes inv: "heap_inv B al s" and b: "(b, n) \<in> al"
  shows "\<exists>t. free (of_nat (b + 8)) s = Some (Ret () t) \<and> heap_inv B (al - {(b, n)}) t
    \<and> (\<forall>z \<in> al - {(b, n)}. \<forall>x \<in> ubytes z. umem t (of_nat x) = umem s (of_nat x))
    \<and> (\<forall>avail nbytes. nunits nbytes \<le> n \<longrightarrow>
         (\<exists>a u. malloc avail (of_nat B) nbytes t = Some (Ret (of_nat (a + 8)) u) \<and> B + 8 \<le> a \<and> brk u = brk s))"
proof -
  obtain fs where heap: "heap_ok B fs al s" using inv b by (auto simp: heap_inv_def)
  have ring: "ring_ok B fs s" using heap by (simp add: heap_ok_def)
  note brk = ring_base(4) [OF ring]
  have h: "0 < snd z" "B + 8 \<le> fst z" "fst z + 8 * snd z \<le> unat (brk s)" "ubytes z \<inter> free_bytes fs = {}"
    "rd (umem s) (fst z + 4) = of_nat (snd z)" "\<forall>y \<in> al. y \<noteq> z \<longrightarrow> ubytes y \<inter> ubytes z = {}" if "z \<in> al" for z
    using heap that by (auto simp: heap_ok_def held_ok_def)
  obtain t where t: "free (of_nat b + 8) s = Some (Ret () t)" "ring_ok B (insert_free b n fs) t" "brk t = brk s"
    "same_outside (own_bytes B fs \<union> ubytes (b, n)) s t"
    using free_ring [OF ring, of n b] h [OF b] by auto
  have out: "ubytes z \<inter> (own_bytes B fs \<union> ubytes (b, n)) = {}" if "z \<in> al - {(b, n)}" for z
    using h(2,4) [of z] h(6) [OF b] that by (fastforce simp: own_bytes_def ubytes_def)
  have "held_ok B (insert_free b n fs) (al - {(b, n)}) t"
  proof (rule held_frame)
    show "held_ok B fs al s" using heap by (simp add: heap_ok_def)
    show "same_outside (own_bytes B fs \<union> ubytes (b, n)) s t" by (rule t(4))
    fix z assume z: "z \<in> al - {(b, n)}"
    show "ubytes z \<inter> (own_bytes B fs \<union> ubytes (b, n)) = {}" by (rule out [OF z])
    then show "ubytes z \<inter> free_bytes (insert_free b n fs) = {}" by (auto simp: insert_free_bytes own_bytes_def)
  qed (use t(3) brk in auto)
  then have ok: "heap_ok B (insert_free b n fs) (al - {(b, n)}) t" using t(2) by (simp add: heap_ok_def)
  moreover have "\<forall>z \<in> al - {(b, n)}. \<forall>x \<in> ubytes z. umem t (of_nat x) = umem s (of_nat x)"
  proof (intro ballI)
    fix z x assume z: "z \<in> al - {(b, n)}" "x \<in> ubytes z"
    then have "x < 2 ^ 31" using h(3) [of z] brk by (auto simp: ubytes_def)
    then show "umem t (of_nat x) = umem s (of_nat x)"
      using t(4) out [OF z(1)] z(2) unfolding same_outside_def by blast
  qed
  moreover have "\<exists>a u. malloc avail (of_nat B) nbytes t = Some (Ret (of_nat (a + 8)) u) \<and> B + 8 \<le> a \<and> brk u = brk s"
    if fits: "nunits nbytes \<le> n" for avail nbytes
  proof -
    have "n < 2 ^ 28" using h(3) [OF b] brk by simp
    then have "unat nbytes \<le> 2 ^ 31 - 16" using fits by (simp add: nunits_def)
    note nu = nunits_eq [OF this]
    have "freep t \<noteq> 0" using t(2) ordered_mem by (fastforce simp: ring_ok_def)
    then have m: "malloc avail (of_nat B) nbytes t = malloc_search avail (nunits nbytes) t"
      unfolding malloc_def malloc_search_def Let_def nu(1) by (simp add: malloc_init_def)
    have hit: "\<exists>z \<in> set (insert_free b n fs). nunits nbytes \<le> snd z"
      using insert_free_big [of b n fs] fits by (auto intro: order_trans)
    obtain a u fs' where u: "malloc_search avail (nunits nbytes) t = Some (Ret (of_nat a + 8) u)" "brk u = brk t"
      "ubytes (a, nunits nbytes) \<subseteq> free_bytes (insert_free b n fs)"
      using search_hit [OF t(2) nu(2) _ hit, of avail] nu(3) by force
    have "B + 8 \<le> a" using ubytes_inside(1) [OF subset_trans [OF u(3) free_bytes_bounds [OF t(2)]] nu(2)] .
    moreover have "of_nat (a + 8) = (of_nat a + 8 :: u32)" by simp
    ultimately show ?thesis using m u t(3) by metis
  qed
  moreover have "of_nat (b + 8) = (of_nat b + 8 :: u32)" by simp
  ultimately show ?thesis using t(1) unfolding heap_inv_def by metis
qed

text \<open>A program may write what it likes into the blocks it holds, behind their headers.\<close>

lemma client_write:
  assumes "heap_ok B fs al s" "(a, n) \<in> al" "a + 8 \<le> x" "x < a + 8 * n"
  shows "heap_ok B fs al (s\<lparr>umem := (umem s)(of_nat x := v)\<rparr>)" (is "heap_ok B fs al ?t")
proof -
  have ring: "ring_ok B fs s" and held: "held_ok B fs al s" using assms(1) by (auto simp: heap_ok_def)
  note brk = ring_base(4) [OF ring]
  have h: "ubytes (a, n) \<inter> free_bytes fs = {}" "B + 8 \<le> a" "a + 8 * n \<le> unat (brk s)"
    "\<forall>y \<in> al. y \<noteq> (a, n) \<longrightarrow> ubytes y \<inter> ubytes (a, n) = {}"
    using held assms(2) by (auto simp: held_ok_def)
  have x: "x \<in> ubytes (a, n)" "x < 2 ^ 31" using assms(3,4) h(3) brk by (auto simp: ubytes_def)
  have same: "same_outside {x} s ?t"
    using x(2) by (auto simp: same_outside_def of_nat_u32_less_iff(3))
  have keep: "rd (umem ?t) y = rd (umem s) y" if "x < y \<or> y + 4 \<le> x" "y + 4 \<le> 2 ^ 31" for y
    by (rule same_outside_rd [OF same]) (use that in auto)
  have o1: "ordered (B + 8) fs (unat (brk s))" using ring by (simp add: ring_ok_def)
  have node: "(x < fst z \<or> fst z + 8 \<le> x) \<and> fst z + 8 \<le> unat (brk s)" if "z \<in> set ((B, 0) # fs)" for z
  proof (cases "z = (B, 0)")
    case False
    then have z: "z \<in> set fs" using that by simp
    then have "{fst z ..< fst z + 8} \<subseteq> free_bytes fs" using free_header [OF z] ordered_mem [OF o1 z] by simp
    then have "x \<notin> {fst z ..< fst z + 8}" using h(1) x(1) by blast
    then show ?thesis using ordered_mem [OF o1 z] by auto
  qed (use h assms(3) ring_base(3) [OF ring] in auto)
  have "upath (umem ?t) B ((B, 0) # fs) B"
  proof (rule upath_cong [OF ring_base(1) [OF ring]])
    fix z assume "z \<in> set ((B, 0) # fs)"
    from node [OF this] brk show "rd (umem ?t) (fst z) = rd (umem s) (fst z) \<and> rd (umem ?t) (fst z + 4) = rd (umem s) (fst z + 4)"
      by (intro conjI keep) auto
  qed
  moreover have "rd (umem ?t) (fst z + 4) = rd (umem s) (fst z + 4)" if z: "z \<in> al" for z
  proof (rule keep)
    have zb: "0 < snd z" "fst z + 8 * snd z \<le> unat (brk s)" using held z by (auto simp: held_ok_def)
    then show "fst z + 4 + 4 \<le> 2 ^ 31" using brk by simp
    have "z = (a, n) \<or> x \<notin> ubytes z" using h(4) z x(1) by blast
    then show "x < fst z + 4 \<or> fst z + 4 + 4 \<le> x" using assms(3) zb by (auto simp: ubytes_def)
  qed
  ultimately show ?thesis using ring held by (simp add: heap_ok_def ring_ok_def held_ok_def)
qed

lemma sint_of_nat_neg:
  assumes "2 ^ 31 \<le> m" "m < 2 ^ 32"
  shows "sint (of_nat m :: u32) < 0"
proof -
  have "take_bit 32 (int m + 2 ^ 31) = int m + 2 ^ 31 - 2 ^ 32"
  proof -
    have "(int m + 2 ^ 31) mod 2 ^ 32 = (int m + 2 ^ 31 - 2 ^ 32) mod 2 ^ 32" by (metis minus_mod_self2)
    also have "\<dots> = int m + 2 ^ 31 - 2 ^ 32" using assms by (intro mod_pos_pos_trivial) auto
    finally show ?thesis by (simp add: take_bit_eq_mod)
  qed
  then show ?thesis using assms by (simp add: signed_of_nat signed_take_bit_eq_take_bit_shift)
qed

text \<open>
  The header of a block at the break itself: accessible when the page that holds the break has eight bytes left.
\<close>

lemma tail_access:
  assumes "unat (brk s) = b" "b < 2 ^ 31" "b + 8 \<le> unat (PGROUNDUP (brk s))"
  shows "uload (of_nat b) s = Some (Ret (rd (umem s) b) s)" "uload (of_nat b + 4) s = Some (Ret (rd (umem s) (b + 4)) s)"
    "ustore (of_nat b) v s = Some (Ret () (s\<lparr>umem := wr (umem s) b v\<rparr>))"
    "ustore (of_nat b + 4) v s = Some (Ret () (s\<lparr>umem := wr (umem s) (b + 4) v\<rparr>))"
proof -
  have u: "unat (of_nat b :: u32) = b" "unat (of_nat b + 4 :: u32) = b + 4"
    using assms(2) unat_of_nat_u32 [of "b + 4"] by (simp_all add: unat_of_nat_u32 add.commute)
  have m: "mapped s (of_nat b)" "mapped s (of_nat b + 4)" using assms(3) by (simp_all add: mapped_def u)
  have e: "(of_nat b + 4 :: u32) = of_nat (b + 4)" by simp
  show "uload (of_nat b) s = Some (Ret (rd (umem s) b) s)" "ustore (of_nat b) v s = Some (Ret () (s\<lparr>umem := wr (umem s) b v\<rparr>))"
    using m(1) by (simp_all add: uload_def ustore_def rd_def wr_def)
  show "uload (of_nat b + 4) s = Some (Ret (rd (umem s) (b + 4)) s)"
    "ustore (of_nat b + 4) v s = Some (Ret () (s\<lparr>umem := wr (umem s) (b + 4) v\<rparr>))"
    using m(2) by (simp_all only: uload_def ustore_def rd_def wr_def e if_True)
qed

text \<open>
  What \<^verbatim>\<open>malloc\<close> makes of a block whose header it has written at the break although the heap has not grown: the block
  goes to the end of the ring, alone or merged with a last block that ends at the break, and is handed out at once.
\<close>

lemma malloc_phantom:
  assumes ring: "ring_ok B fs s" and b: "unat (brk s) = b" "b + 8 \<le> unat (PGROUNDUP (brk s))"
    and nu: "2 ^ 28 \<le> nu" "nu < 2 ^ 29" "b + 8 * nu < 2 ^ 32"
  shows "\<exists>p t u. uthen (ustore (of_nat b + 4) (of_nat nu) s) (\<lambda>_ s.
        uthen (free (of_nat b + 8) s) (\<lambda>_ s. Some (Ret (freep s) s))) = Some (Ret p t) \<and> p \<noteq> 0 \<and> brk t = brk s
      \<and> uthen (uload p t) (\<lambda>q s. malloc_loop avail (of_nat nu) p q s) = Some (Ret (of_nat b + 8) u) \<and> brk u = brk s"
proof -
  note base = ring_base [OF ring]
  have o1: "ordered (B + 8) fs b" using ring b(1) by (simp add: ring_ok_def)
  have "b < 2 ^ 31" "B + 8 \<le> b" using base(3,4) b(1) by simp_all
  moreover have "b + 8 \<le> 2 ^ 31"
  proof -
    have "b + 4095 < 524289 * 4096" using calculation(1) by simp
    then have "(b + 4095) div 4096 < 524289" by (rule less_mult_imp_div_less)
    then show ?thesis using b calculation(1) by (simp add: unat_PGROUNDUP)
  qed
  ultimately have b31: "b < 2 ^ 31" "B + 8 \<le> b" "b + 8 \<le> 2 ^ 31" by simp_all
  define p where "p = last_addr B fs"
  define us where "us = butlast ((B, 0) # fs)"
  define k where "k = snd (last ((B, 0) # fs))"
  have mem: "B + 8 \<le> fst z \<and> 0 < snd z \<and> fst z + 8 * snd z \<le> b" if "z \<in> set fs" for z using ordered_mem [OF o1 that] .
  have W: "(B, 0) # fs = us @ [(p, k)]" by (cases fs rule: rev_cases) (auto simp: p_def us_def k_def)
  have pk: "p + 8 \<le> b" "p + 8 * k \<le> b" "B \<le> p" "k = 0 \<longrightarrow> p = B"
    using b31 mem [of "last fs"] by (cases "fs = []"; auto simp: p_def k_def last_addr_def)+
  have us8: "\<forall>z \<in> set us. fst z + 8 \<le> p" unfolding p_def us_def by (rule below_last [OF o1])
  have small: "snd z < nu" if "z \<in> set us" for z
  proof -
    have "z \<in> set ((B, 0) # fs)" using W that by simp
    then show ?thesis using mem [of z] b31(1) nu(1) by auto
  qed
  have kb: "k < 2 ^ 28" using pk(2) b31(1) by simp
  have pth: "upath (umem s) B us p" "rd (umem s) (p + 4) = of_nat k" "rd (umem s) p = of_nat B"
    using base(1) W by (auto simp: upath_append intro: of_nat_unat_eq)
  let ?m1 = "wr (umem s) (b + 4) (of_nat nu)"
  let ?m2 = "wr ?m1 b (of_nat B)"
  let ?s1 = "s\<lparr>umem := ?m1\<rparr>"
  have tail: "uload (of_nat b) x = Some (Ret (rd (umem x) b) x)" "uload (of_nat b + 4) x = Some (Ret (rd (umem x) (b + 4)) x)"
    "ustore (of_nat b) v x = Some (Ret () (x\<lparr>umem := wr (umem x) b v\<rparr>))"
    "ustore (of_nat b + 4) v x = Some (Ret () (x\<lparr>umem := wr (umem x) (b + 4) v\<rparr>))" if "brk x = brk s" for x v
    using tail_access(1,2) [of x b] tail_access(3,4) [of x b v] that b b31(1) by simp_all
  have at_p: "uload (of_nat p) x = Some (Ret (rd (umem x) p) x)" "uload (of_nat p + 4) x = Some (Ret (rd (umem x) (p + 4)) x)"
    "ustore (of_nat p) v x = Some (Ret () (x\<lparr>umem := wr (umem x) p v\<rparr>))"
    "ustore (of_nat p + 4) v x = Some (Ret () (x\<lparr>umem := wr (umem x) (p + 4) v\<rparr>))" if "brk x = brk s" for x v
    using that b b31(1) pk(1) by (simp_all add: uacc)
  have st: "ustore (of_nat b + 4) (of_nat nu) s = Some (Ret () ?s1)" by (simp add: tail)
  have bn: "b \<notin> fst ` set fs" using mem by force
  have ring1: "ring_ok B fs ?s1"
  proof -
    have "upath ?m1 B ((B, 0) # fs) B"
    proof (rule upath_cong [OF base(1)])
      fix z assume "z \<in> set ((B, 0) # fs)"
      then have "fst z + 8 \<le> b" using b31 mem [of z] by auto
      then show "rd ?m1 (fst z) = rd (umem s) (fst z) \<and> rd ?m1 (fst z + 4) = rd (umem s) (fst z + 4)"
        using b31 by (simp add: rd_wr_apart)
    qed
    then show ?thesis using ring by (simp add: ring_ok_def)
  qed
  have tw: "takeWhile (\<lambda>z. fst z < b) fs = fs" using mem by (force simp: takeWhile_eq_all_conv)
  have find: "free_find (of_nat b) (freep s) ?s1 = Some (Ret (of_nat p) ?s1)"
    using free_find_pred [OF ring1 _ b31(1) bn, unfolded tw] b31(2) by (simp add: p_def)
  have up: "join_upper (of_nat b) (of_nat p) ?s1 = Some (Ret () (s\<lparr>umem := ?m2\<rparr>))"
  proof -
    have "of_nat b + 8 * of_nat nu = (of_nat (b + 8 * nu) :: u32)" by simp
    moreover have "(of_nat (b + 8 * nu) :: u32) \<noteq> of_nat B"
    proof
      assume "(of_nat (b + 8 * nu) :: u32) = of_nat B"
      then have "unat (of_nat (b + 8 * nu) :: u32) = unat (of_nat B :: u32)" by simp
      moreover have "unat (of_nat (b + 8 * nu) :: u32) = b + 8 * nu" using nu(3) by (intro unat_of_nat_u32) simp
      moreover have "unat (of_nat B :: u32) = B" using b31 by (intro unat_of_nat_u32) simp
      ultimately have "b + 8 * nu = B" by metis
      then show False using b31(2) by simp
    qed
    ultimately have "of_nat b + 8 * of_nat nu \<noteq> (of_nat B :: u32)" by metis
    moreover have "rd ?m1 p = of_nat B" using pth(3) pk(1) b31 by (simp add: rd_wr_apart)
    ultimately show ?thesis by (simp add: join_upper_def tail at_p)
  qed
  have r2: "rd ?m2 (p + 4) = of_nat k" "rd ?m2 (b + 4) = of_nat nu" "rd ?m2 b = of_nat B"
    using pth(2) pk(1) b31 by (simp_all add: rd_wr_apart)
  have e: "of_nat p + 8 * of_nat k = (of_nat (p + 8 * k) :: u32)" by simp
  have p0: "(of_nat p :: u32) \<noteq> 0"
    using of_nat_u32_less_iff(3) [of p 0] pk(1,3) b31(1) ring by (auto simp: ring_ok_def)
  show ?thesis
  proof (cases "p + 8 * k = b")
    case False
    let ?m3 = "wr ?m2 p (of_nat b)"
    let ?t = "s\<lparr>umem := ?m3, freep := of_nat p\<rparr>"
    have "(of_nat (p + 8 * k) :: u32) \<noteq> of_nat b" using False pk(2) b31(1) of_nat_u32_less_iff(3) [of "p + 8 * k" b] by simp
    then have "join_lower (of_nat b) (of_nat p) (s\<lparr>umem := ?m2\<rparr>) = Some (Ret () (s\<lparr>umem := ?m3\<rparr>))"
      by (simp add: join_lower_def at_p r2 e del: of_nat_add of_nat_mult)
    then have fr: "free (of_nat b + 8) ?s1 = Some (Ret () ?t)" using find up by (simp add: free_def)
    have r3: "rd ?m3 p = of_nat b" "rd ?m3 (b + 4) = of_nat nu" "rd ?m3 b = of_nat B"
      using r2 pk(1) b31 by (simp_all add: rd_wr_apart)
    have "malloc_loop avail (of_nat nu) (of_nat p) (of_nat b) ?t = Some (Ret (of_nat b + 8) (?t\<lparr>umem := wr ?m3 p (of_nat B), freep := of_nat p\<rparr>))"
      by (subst malloc_loop.simps) (simp add: tail at_p r3)
    then show ?thesis using st fr p0 r3(1)
      by (intro exI [of _ "of_nat p"] exI [of _ ?t] exI [of _ "?t\<lparr>umem := wr ?m3 p (of_nat B), freep := of_nat p\<rparr>"]) (simp add: at_p)
  next
    case True
    let ?m3 = "wr (wr ?m2 (p + 4) (of_nat (k + nu))) p (of_nat B)"
    let ?t = "s\<lparr>umem := ?m3, freep := of_nat p\<rparr>"
    have k0: "0 < k" using True pk(4) b31(2) by (cases k) auto
    have "join_lower (of_nat b) (of_nat p) (s\<lparr>umem := ?m2\<rparr>) = Some (Ret () (s\<lparr>umem := ?m3\<rparr>))"
      using True pk(1) b31 r2 by (simp add: join_lower_def at_p tail e rd_wr_apart del: of_nat_add of_nat_mult)
        (simp add: at_p tail rd_wr_apart)
    then have fr: "free (of_nat b + 8) ?s1 = Some (Ret () ?t)" using find up by (simp add: free_def)
    have r3: "rd ?m3 p = of_nat B" "rd ?m3 (p + 4) = of_nat (k + nu)"
      using pk(1) b31 by (simp_all add: rd_wr_apart)
    have "upath ?m3 B us p"
    proof (rule upath_cong [OF pth(1)])
      fix z assume "z \<in> set us"
      then have "fst z + 8 \<le> p" using us8 by blast
      then show "rd ?m3 (fst z) = rd (umem s) (fst z) \<and> rd ?m3 (fst z + 4) = rd (umem s) (fst z + 4)"
        using pk(1) b31 by (simp add: rd_wr_apart)
    qed
    moreover have "\<forall>z \<in> set us. snd z < nu \<and> of_nat (fst z) \<noteq> (of_nat p :: u32) \<and> fst z + 8 \<le> unat (brk ?t)"
      using us8 small pk(1) b(1) b31(1) of_nat_u32_less_iff(3) [of _ p] by fastforce
    ultimately have walk: "malloc_loop avail (of_nat nu) (of_nat p) (of_nat B) ?t
        = malloc_loop avail (of_nat nu) (of_nat (last_addr p us)) (of_nat p) ?t"
      using malloc_walk [of ?t B us p nu avail p] nu(2) base(4) by simp
    have big: "(of_nat nu :: u32) \<le> of_nat (k + nu)" "(of_nat (k + nu) :: u32) \<noteq> of_nat nu"
      using of_nat_u32_less_iff(2,3) [of nu "k + nu"] of_nat_u32_less_iff(3) [of "k + nu" nu] kb k0 nu(2) by auto
    have kk: "(of_nat (k + nu) :: u32) - of_nat nu = of_nat k" by simp
    let ?u = "?t\<lparr>umem := wr (wr ?m3 (p + 4) (of_nat k)) (b + 4) (of_nat nu), freep := of_nat (last_addr p us)\<rparr>"
    have "malloc_loop avail (of_nat nu) (of_nat (last_addr p us)) (of_nat p) ?t = Some (Ret (of_nat b + 8) ?u)"
      using big True e by (subst malloc_loop.simps) (simp add: at_p r3 kk tail Let_def del: of_nat_add of_nat_mult)
    then show ?thesis using st fr p0 r3(1) walk
      by (intro exI [of _ "of_nat p"] exI [of _ ?t] exI [of _ ?u]) (simp add: at_p)
  qed
qed

text \<open>
  C38: a request of two gigabytes or more (up to the size at which the end of the block would wrap around the address space)
  does not return 0, and the memory is not there.  The number of bytes asked of \<^verbatim>\<open>sbrk\<close> is negative as a signed integer,
  \<^verbatim>\<open>growproc\<close> takes this for a request to shrink beyond the address space and reports success without doing anything.  The
  program is then killed when it writes the header of the block at its break, unless the page of the break happens to have
  room for the header; in that case \<^verbatim>\<open>malloc\<close> returns a pointer to the first byte behind that header.  The break has not moved
  in either case, so that all memory from at most one page behind it is still unmapped.
\<close>

theorem malloc_huge_faults:
  assumes ring: "ring_ok B fs s"
    and n: "2 ^ 31 - 16 < unat nbytes" "unat nbytes + unat (brk s) + 16 \<le> 2 ^ 32"
  shows "\<exists>t. malloc avail (of_nat B) nbytes s
      = Some (if unat (brk s) + 8 \<le> unat (PGROUNDUP (brk s)) then Ret (brk s + 8) t else Fault t)
    \<and> brk t = brk s \<and> (\<forall>x. unat (brk s) + 4096 \<le> unat x \<longrightarrow> \<not> mapped t x)"
proof -
  let ?nu = "nunits nbytes"
  note base = ring_base [OF ring]
  have nu: "2 ^ 28 \<le> ?nu" "8 * ?nu + unat (brk s) < 2 ^ 32" "?nu < 2 ^ 29" using n base(3) by (auto simp: nunits_def)
  have "unat (7 + nbytes) = unat nbytes + 7" using n base(3) by (simp add: unat_word_ariths)
  then have "(nbytes + 8 - 1) div 8 = (of_nat ((unat nbytes + 7) div 8) :: u32)"
    by (intro of_nat_unat_eq) (simp add: unat_div)
  then have e: "(nbytes + 8 - 1) div 8 + 1 = (of_nat ?nu :: u32)" by (simp add: nunits_def)
  have fp: "freep s \<noteq> 0" using ring ordered_mem by (fastforce simp: ring_ok_def)
  have m: "malloc avail (of_nat B) nbytes s = malloc_search avail ?nu s"
    unfolding malloc_def malloc_search_def Let_def e using fp by (simp add: malloc_init_def)
  have "snd z < ?nu" if "z \<in> set fs" for z
    using ring ordered_mem [of "B + 8" fs _ z] that nu(1) by (fastforce simp: ring_ok_def)
  then have miss: "malloc_search avail ?nu s = uthen (morecore avail (of_nat ?nu) s) (\<lambda>p s.
       if p = 0 then Some (Ret 0 s) else uthen (uload p s) (\<lambda>q s. malloc_loop avail (of_nat ?nu) p q s))"
    using nu by (intro search_miss [OF ring]) auto
  have big: "\<not> (of_nat ?nu :: u32) < 4096" using nu of_nat_u32_less_iff(1) [of ?nu 4096] by simp
  have mul: "(of_nat ?nu * 8 :: u32) = of_nat (8 * ?nu)" by simp
  have u8: "unat (of_nat (8 * ?nu) :: u32) = 8 * ?nu" using nu base(3) by (intro unat_of_nat_u32) simp
  have si: "sint (of_nat (8 * ?nu) :: u32) < 0" using nu by (intro sint_of_nat_neg) auto
  have new: "brk s \<le> brk s + of_nat (8 * ?nu)"
    using nu(2) by (simp add: word_le_nat_alt unat_word_ariths(1) u8 del: of_nat_mult)
  have sb: "sbrk avail (of_nat ?nu * 8) s = Some (Ret (brk s) s)"
    unfolding sbrk_def mul Let_def using si new by auto
  have b1: "brk s \<noteq> - 1" using base(4) by (auto simp: word_unat_eq_iff unsigned_minus_1_eq_mask mask_eq_exp_minus_1)
  have more: "morecore avail (of_nat ?nu) s = uthen (ustore (brk s + 4) (of_nat ?nu) s) (\<lambda>_ x.
      uthen (free (brk s + 8) x) (\<lambda>_ x. Some (Ret (freep x) x)))"
    using big sb b1 by (simp add: morecore_def)
  have unm: "\<not> mapped t x" if "brk t = brk s" "unat (brk s) + 4096 \<le> unat x" for t x
    using that base(4) by (auto simp: mapped_def unat_PGROUNDUP)
  show ?thesis
  proof (cases "unat (brk s) + 8 \<le> unat (PGROUNDUP (brk s))")
    case True
    have bk: "brk s = of_nat (unat (brk s))" by simp
    obtain p t u where t: "uthen (ustore (brk s + 4) (of_nat ?nu) s) (\<lambda>_ x.
        uthen (free (brk s + 8) x) (\<lambda>_ x. Some (Ret (freep x) x))) = Some (Ret p t)" "p \<noteq> 0"
      "uthen (uload p t) (\<lambda>q s. malloc_loop avail (of_nat ?nu) p q s) = Some (Ret (brk s + 8) u)" "brk u = brk s"
      using malloc_phantom [OF ring refl True nu(1,3), of avail] nu(2) by (auto simp: add.commute)
    have "malloc avail (of_nat B) nbytes s = Some (Ret (brk s + 8) u)"
      unfolding m miss more t(1) using t(2,3) by simp
    then show ?thesis using True t(4) unm by (intro exI [of _ u]) simp
  next
    case False
    have b4: "unat (brk s + 4) = unat (brk s) + 4" using base(4) by (simp add: unat_word_ariths(1))
    then have nm: "\<not> mapped s (brk s + 4)" using False by (simp add: mapped_def)
    then have "malloc avail (of_nat B) nbytes s = Some (Fault s)" unfolding m miss more by (simp add: ustore_def)
    then show ?thesis using False unm by (intro exI [of _ s]) simp
  qed
qed

text \<open>A heap with an empty free list in which the program holds a block of three units at 8192.\<close>

definition heap_demo :: uheap where
  "heap_demo = \<lparr>umem = wr (wr (wr (\<lambda>_. 0) 4096 4096) 4100 0) 8196 3, freep = 4096, brk = 12288\<rparr>"

lemma heap_demo_ring: "ring_ok 4096 [] heap_demo"
  by (simp add: ring_ok_def heap_demo_def rd_wr_apart)

lemma heap_demo_inv: "heap_inv 4096 {(8192, 3)} heap_demo"
proof -
  have "heap_ok 4096 [] {(8192, 3)} heap_demo"
    using heap_demo_ring by (simp add: heap_ok_def held_ok_def heap_demo_def)
  then show ?thesis by (auto simp: heap_inv_def)
qed

theorem malloc_allocates_witness:
  "nunits 100 = 14 \<and> (\<exists>r t. malloc (\<lambda>_ _. True) (of_nat 4096) 100 heap_demo = Some (Ret r t)
    \<and> (\<forall>x \<in> ubytes (8192, 3). umem t (of_nat x) = umem heap_demo (of_nat x)) \<and> r \<noteq> 0)"
proof -
  have n: "nunits 100 = 14" by (simp add: nunits_def)
  have g: "can_grow (\<lambda>_ _. True) 14 heap_demo" by (simp add: can_grow_def heap_demo_def grow_units_def)
  obtain r t where t: "malloc (\<lambda>_ _. True) (of_nat 4096) 100 heap_demo = Some (Ret r t)"
    "\<forall>z \<in> {(8192, 3)}. \<forall>x \<in> ubytes z. umem t (of_nat x) = umem heap_demo (of_nat x)"
    "r = 0 \<and> \<not> can_grow (\<lambda>_ _. True) (nunits 100) heap_demo \<and> heap_inv 4096 {(8192, 3)} t
     \<or> (\<exists>a. r = of_nat (a + 8) \<and> unat (100 :: u32) \<le> 8 * nunits 100 - 8
            \<and> 4096 + 8 \<le> a \<and> a + 8 * nunits 100 \<le> unat (brk t)
            \<and> (\<forall>z \<in> {(8192, 3)}. ubytes z \<inter> ubytes (a, nunits 100) = {})
            \<and> heap_inv 4096 (insert (a, nunits 100) {(8192, 3)}) t)"
    using malloc_allocates [OF heap_demo_inv, of 100 "\<lambda>_ _. True"] by auto
  have "r \<noteq> 0"
  proof
    assume "r = 0"
    then obtain a where a: "of_nat (a + 8) = (0 :: u32)" "a + 8 * nunits 100 \<le> unat (brk t)" using t(3) g n by auto
    have "unat (of_nat (a + 8) :: u32) = a + 8"
      using a(2) unat_u32_less [of "brk t"] n by (intro unat_of_nat_u32) simp
    then show False using a(1) by simp
  qed
  then show ?thesis using n t(1,2) by auto
qed

theorem free_returns_witness:
  "\<exists>t. free (of_nat (8192 + 8)) heap_demo = Some (Ret () t) \<and> heap_inv 4096 {} t
     \<and> (\<exists>a u. malloc (\<lambda>_ _. False) (of_nat 4096) 16 t = Some (Ret (of_nat (a + 8)) u) \<and> 4096 + 8 \<le> a \<and> brk u = brk heap_demo)"
proof -
  have "nunits 16 \<le> 3" by (simp add: nunits_def)
  then show ?thesis using free_returns [OF heap_demo_inv, of 8192 3] by force
qed

theorem malloc_huge_faults_witness:
  "\<exists>t. malloc (\<lambda>_ _. True) (of_nat 4096) 0x80000000 (heap_demo\<lparr>brk := 12296\<rparr>) = Some (Ret 12304 t) \<and> brk t = 12296"
proof -
  let ?s = "heap_demo\<lparr>brk := 12296\<rparr>"
  have r: "ring_ok 4096 [] ?s" using heap_demo_ring by (simp add: ring_ok_def)
  have p: "unat (PGROUNDUP (12296 :: u32)) = 16384" by (simp add: unat_PGROUNDUP)
  have "\<exists>t. malloc (\<lambda>_ _. True) (of_nat 4096) 0x80000000 ?s
      = Some (if unat (brk ?s) + 8 \<le> unat (PGROUNDUP (brk ?s)) then Ret (brk ?s + 8) t else Fault t)
    \<and> brk t = brk ?s \<and> (\<forall>x. unat (brk ?s) + 4096 \<le> unat x \<longrightarrow> \<not> mapped t x)"
    by (rule malloc_huge_faults [OF r]) simp_all
  then show ?thesis using p by auto
qed

end
