(* ===== verification/Ulib.thy ===== *)
theory Ulib imports Str begin

text \<open>
  The memory routines of the user library (\<^verbatim>\<open>ulib.c\<close>): \<^verbatim>\<open>strcpy\<close>, \<^verbatim>\<open>memset\<close> and \<^verbatim>\<open>memmove\<close>, compared with those of the
  kernel in \<open>Str\<close>; \<^verbatim>\<open>strlen\<close> is the same code.
\<close>

section \<open>Definitions\<close>

text \<open>\<^verbatim>\<open>while((*s++ = *t++) != 0)\<close>; \<open>None\<close> when no NUL is ever found.\<close>

partial_function (option) strcpy_loop :: "memory \<Rightarrow> u32 \<Rightarrow> u32 \<Rightarrow> memory option" where
  "strcpy_loop m s t =
     (let c = m t; m = m(s := c) in if c \<noteq> 0 then strcpy_loop m (s + 1) (t + 1) else Some m)"

definition strcpy :: "memory \<Rightarrow> u32 \<Rightarrow> u32 \<Rightarrow> memory option" where
  "strcpy m s t = strcpy_loop m s t"

definition umemset :: "memory \<Rightarrow> u32 \<Rightarrow> u32 \<Rightarrow> u32 \<Rightarrow> memory" where
  "umemset m dst c n = stosb m dst (ucast c) (unat n)"

text \<open>\<^verbatim>\<open>while(n-- > 0) *dst++ = *src++\<close>, with a signed counter.\<close>

definition umemmove :: "memory \<Rightarrow> u32 \<Rightarrow> u32 \<Rightarrow> u32 \<Rightarrow> memory" where
  "umemmove m dst src n = copy_up m dst src (nat (sint n))"

section \<open>Copying strings\<close>

lemma cstr_at_cong:
  assumes "cstr_at m s xs" "\<And>i. i \<le> length xs \<Longrightarrow> m' (s + of_nat i) = m (s + of_nat i)"
  shows "cstr_at m' s xs"
  using assms
proof (induction xs arbitrary: s)
  case Nil
  then show ?case using Nil.prems(2) [of 0] by simp
next
  case (Cons x xs)
  have "m' (s + 1 + of_nat i) = m (s + 1 + of_nat i)" if "i \<le> length xs" for i
    using Cons.prems(2) [of "Suc i"] that by (simp add: add.assoc)
  then have "cstr_at m' (s + 1) xs" using Cons by simp
  then show ?case using Cons.prems(1) Cons.prems(2) [of 0] by simp
qed

theorem strcpy_copies:
  assumes "cstr_at m t xs" "length xs < 2 ^ 32 - 1"
    and "\<And>i j. i \<le> length xs \<Longrightarrow> j \<le> length xs \<Longrightarrow> s + of_nat i \<noteq> t + of_nat j"
  shows "\<exists>m'. strcpy m s t = Some m' \<and> cstr_at m' s xs
    \<and> (\<forall>a. (\<forall>i \<le> length xs. a \<noteq> s + of_nat i) \<longrightarrow> m' a = m a)"
  unfolding strcpy_def
  using assms
proof (induction xs arbitrary: m s t)
  case Nil
  then show ?case by (subst strcpy_loop.simps) auto
next
  case (Cons x xs)
  let ?m = "m(s := x)"
  have far: "s + 1 + of_nat i \<noteq> t + 1 + of_nat j" if "i \<le> length xs" "j \<le> length xs" for i j
    using Cons.prems(3) [of "Suc i" "Suc j"] that by (simp add: add.assoc)
  have "cstr_at ?m (t + 1) xs"
  proof (rule cstr_at_cong)
    show "cstr_at m (t + 1) xs" using Cons.prems(1) by simp
    fix i assume "i \<le> length xs"
    then show "?m (t + 1 + of_nat i) = m (t + 1 + of_nat i)"
      using Cons.prems(3) [of 0 "Suc i"] by (auto simp: add.assoc)
  qed
  from Cons.IH [OF this _ far] obtain m' where m': "strcpy_loop ?m (s + 1) (t + 1) = Some m'" "cstr_at m' (s + 1) xs"
    "\<forall>a. (\<forall>i \<le> length xs. a \<noteq> s + 1 + of_nat i) \<longrightarrow> m' a = ?m a" using Cons.prems(2) by (auto simp del: fun_upd_apply)
  have "s \<noteq> s + 1 + of_nat i" if "i \<le> length xs" for i
  proof
    assume "s = s + 1 + of_nat i"
    then have "(of_nat (Suc i) :: u32) = 0" by (simp add: add.assoc)
    moreover have "unat (of_nat (Suc i) :: u32) = Suc i" using that Cons.prems(2) by (intro unat_of_nat_u32) simp
    ultimately show False by simp
  qed
  then have "m' s = x" using m'(3) by auto
  moreover have "strcpy_loop m s t = Some m'" using Cons.prems(1) m'(1) by (subst strcpy_loop.simps) simp
  moreover have "m' a = m a" if "\<forall>i \<le> length (x # xs). a \<noteq> s + of_nat i" for a
  proof -
    have "a \<noteq> s + 1 + of_nat i" if "i \<le> length xs" for i
      using \<open>\<forall>i \<le> length (x # xs). a \<noteq> s + of_nat i\<close> that by (auto dest!: spec [of _ "Suc i"] simp: add.assoc)
    moreover have "a \<noteq> s" using that by (auto dest!: spec [of _ 0])
    ultimately show ?thesis using m'(3) by simp
  qed
  ultimately show ?case using Cons.prems(1) m'(2) by auto
qed

section \<open>Filling and moving\<close>

lemma umemset_eq_memset: "umemset m dst c n = memset m dst c n"
proof -
  have "unat n \<le> 2 ^ 32" using unat_u32_less [of n] by simp
  then show ?thesis by (simp add: umemset_def memset_eq stosb_fill word_less_nat_alt)
qed

text \<open>
  The \<^verbatim>\<open>memmove\<close> of the user library copies upwards only.  It is the kernel's unless the target begins inside the source;
  then it is not: a move by one place repeats the first byte.
\<close>

theorem umemmove_eq_memmove:
  assumes "unat src + unat n < 2 ^ 31" "unat dst + unat n < 2 ^ 31" "\<not> (src < dst \<and> dst < src + n)"
  shows "umemmove m dst src n = memmove m dst src n"
proof -
  have "sint n = int (unat n)" using assms(1) sint_of_nat_small [of "unat n"] by simp
  then show ?thesis using assms(3) by (auto simp: umemmove_def memmove_def)
qed

theorem umemmove_repeats:
  assumes "0 < k" "k < 2 ^ 31"
  shows "umemmove m (src + 1) src (of_nat k) = (\<lambda>a. if unat (a - src) \<le> k then m src else m a)"
proof -
  have si: "nat (sint (of_nat k :: u32)) = k" using assms sint_of_nat_small [of k] by simp
  have "copy_up m (s + 1) s n = (\<lambda>a. if unat (a - s) \<le> n then m s else m a)" if "n < 2 ^ 31" for n m s
    using that
  proof (induction n arbitrary: m s)
    case 0
    have "unat (a - s) = 0 \<longleftrightarrow> a = s" for a :: u32 by (simp add: unat_eq_0)
    then show ?case by (auto simp: fun_eq_iff)
  next
    case (Suc n)
    have "unat (a - s) \<le> Suc n \<longleftrightarrow> a = s \<or> unat (a - (s + 1)) \<le> n" for a
      using unat_diff_step [of "Suc n" a s] Suc.prems by (simp add: less_Suc_eq_le)
    then have step: "(if unat (a - s) \<le> Suc n then m s else m a) = (if unat (a - (s + 1)) \<le> n then m s else (m(s + 1 := m s)) a)" for a
      by simp
    have "copy_up m (s + 1) s (Suc n) = copy_up (m(s + 1 := m s)) (s + 1 + 1) (s + 1) n" by (simp only: copy_up.simps)
    also have "\<dots> = (\<lambda>a. if unat (a - (s + 1)) \<le> n then (m(s + 1 := m s)) (s + 1) else (m(s + 1 := m s)) a)"
      using Suc.prems by (intro Suc.IH) simp
    finally show ?case using step by (simp add: fun_eq_iff)
  qed
  then show ?thesis using assms(2) by (simp add: umemmove_def si)
qed

end
