(* ===== verification/Bcache.thy ===== *)
theory Bcache
  imports File
begin

text \<open>
  The contract of the buffer cache (\<^verbatim>\<open>bio.c\<close>): the LRU list as a doubly linked list, the cache invariant \<open>cache_ok\<close>, the contents
  \<open>content\<close> of a block as its readers see it, and for each of \<^verbatim>\<open>bread\<close>, \<^verbatim>\<open>bwrite\<close> and \<^verbatim>\<open>brelse\<close> its exact effect on them when
  a single process uses the cache (\<open>good\<close>).
\<close>


section \<open>The LRU list\<close>

text \<open>
  The links as two functions.  \<open>seg N P x zs y\<close>: the links lead from \<open>x\<close> through \<open>zs\<close> to \<open>y\<close>, and back.
\<close>

definition nexts :: "(nat \<Rightarrow> buf) \<Rightarrow> nat \<Rightarrow> nat" where
  "nexts B b = bnext (B b)"

definition prevs :: "(nat \<Rightarrow> buf) \<Rightarrow> nat \<Rightarrow> nat" where
  "prevs B b = bprev (B b)"

fun seg :: "(nat \<Rightarrow> nat) \<Rightarrow> (nat \<Rightarrow> nat) \<Rightarrow> nat \<Rightarrow> nat list \<Rightarrow> nat \<Rightarrow> bool" where
  "seg N P x [] y \<longleftrightarrow> N x = y \<and> P y = x"
| "seg N P x (z # zs) y \<longleftrightarrow> N x = z \<and> P z = x \<and> seg N P z zs y"

definition lru :: "(nat \<Rightarrow> buf) \<Rightarrow> nat list \<Rightarrow> bool" where
  "lru B xs \<longleftrightarrow> seg (nexts B) (prevs B) NBUF xs NBUF \<and> distinct xs \<and> set xs = {0..<NBUF}"

lemma seg_append: "seg N P x (zs @ w # zs') y \<longleftrightarrow> seg N P x zs w \<and> seg N P w zs' y"
  by (induction zs arbitrary: x) auto

lemma seg_upd [simp]:
  "v \<notin> insert x (set zs) \<Longrightarrow> seg (N(v := k)) P x zs y \<longleftrightarrow> seg N P x zs y"
  "v \<notin> insert y (set zs) \<Longrightarrow> seg N (P(v := k)) x zs y \<longleftrightarrow> seg N P x zs y"
  by (induction zs arbitrary: x) auto

lemma seg_next: "seg N P x zs y \<Longrightarrow> N x = hd (zs @ [y])"
  by (cases zs) auto

lemma seg_prev: "seg N P x zs y \<Longrightarrow> P y = last (x # zs)"
  by (induction zs arbitrary: x) auto

text \<open>The searches of \<^verbatim>\<open>bget\<close> end, and find the first match in list order and in reverse order.\<close>

lemma bget_cached_find:
  assumes "seg (nexts B) (prevs B) x zs NBUF" "NBUF \<notin> set zs"
  shows "bget_cached B dev bno (bnext (B x)) = Some (find (\<lambda>b. bdev (B b) = dev \<and> blockno (B b) = bno) zs)"
  using assms
proof (induction zs arbitrary: x)
  case Nil
  then show ?case by (subst bget_cached.simps) (simp add: nexts_def)
next
  case (Cons z zs)
  then have "bget_cached B dev bno (bnext (B z)) = Some (find (\<lambda>b. bdev (B b) = dev \<and> blockno (B b) = bno) zs)" by simp
  with Cons.prems show ?case by (subst bget_cached.simps) (auto simp: nexts_def)
qed

lemma bget_unused_find:
  assumes "seg (nexts B) (prevs B) NBUF zs y" "NBUF \<notin> set zs"
  shows "bget_unused B (bprev (B y)) = Some (find (\<lambda>b. refcnt (B b) = 0 \<and> \<not> bdirty (B b)) (rev zs))"
  using assms
proof (induction zs arbitrary: y rule: rev_induct)
  case Nil
  then show ?case by (subst bget_unused.simps) (simp add: prevs_def)
next
  case (snoc z zs)
  then have "bget_unused B (bprev (B z)) = Some (find (\<lambda>b. refcnt (B b) = 0 \<and> \<not> bdirty (B b)) (rev zs))"
    by (simp add: seg_append)
  with snoc.prems show ?case by (subst bget_unused.simps) (auto simp: seg_append prevs_def)
qed

text \<open>Unlinking a node and pushing it behind the head.\<close>

lemma seg_unlink:
  assumes "seg N P x zs b" "seg N P b zs' y" "distinct (zs @ b # zs')" "x \<notin> set (zs @ b # zs')" "y \<notin> set (zs @ b # zs')"
  shows "seg (N(P b := N b)) (P(N b := P b)) x (zs @ zs') y"
proof -
  have nb: "N b = hd (zs' @ [y])" and pb: "P b = last (x # zs)" using seg_next [OF assms(2)] seg_prev [OF assms(1)] .
  have tail: "seg (N(q := N b)) (P(N b := q)) q zs' y" if "q \<notin> set zs'" for q
    using assms(2,3,5) nb that by (cases zs') auto
  show ?thesis
  proof (cases zs rule: rev_cases)
    case Nil
    then show ?thesis using tail [of x] pb assms(4) by simp
  next
    case (snoc us q)
    have "N b \<notin> set us" "N b \<noteq> q" using nb assms(3,5) snoc by (cases zs'; auto)+
    then have "seg (N(q := N b)) (P(N b := q)) x us q" using assms(1,3,4) snoc by (simp add: seg_append)
    then show ?thesis using tail [of q] pb snoc assms(3) by (simp add: seg_append)
  qed
qed

lemma seg_push:
  assumes "seg N P x zs x" "distinct zs" "x \<notin> set zs" "b \<notin> set zs" "b \<noteq> x"
  shows "seg (N(b := N x, x := b)) (P(b := x, N x := b)) x (b # zs) x"
proof -
  have nx: "N x = hd (zs @ [x])" by (rule seg_next [OF assms(1)])
  have "seg (N(b := N x, x := b)) (P(b := x, N x := b)) b zs x"
    using assms nx by (cases zs) auto
  moreover have "b \<noteq> N x" using nx assms(4,5) by (cases zs) auto
  ultimately show ?thesis using assms(5) by simp
qed

lemma links_upd [simp]:
  "nexts (set_prev w k B) = nexts B" "prevs (set_prev w k B) = (prevs B)(w := k)"
  "nexts (set_next w k B) = (nexts B)(w := k)" "prevs (set_next w k B) = prevs B"
  by (auto simp: nexts_def prevs_def fun_eq_iff set_next_def set_prev_def)

lemma set_link_fields [simp]:
  "bvalid (set_next w k B v) = bvalid (B v)" "bdirty (set_next w k B v) = bdirty (B v)" "bdev (set_next w k B v) = bdev (B v)"
  "blockno (set_next w k B v) = blockno (B v)" "blk (set_next w k B v) = blk (B v)" "refcnt (set_next w k B v) = refcnt (B v)"
  "bdata (set_next w k B v) = bdata (B v)"
  "bvalid (set_prev w k B v) = bvalid (B v)" "bdirty (set_prev w k B v) = bdirty (B v)" "bdev (set_prev w k B v) = bdev (B v)"
  "blockno (set_prev w k B v) = blockno (B v)" "blk (set_prev w k B v) = blk (B v)" "refcnt (set_prev w k B v) = refcnt (B v)"
  "bdata (set_prev w k B v) = bdata (B v)"
  by (simp_all add: set_next_def set_prev_def)

text \<open>The assignments with the pointers they go through resolved.\<close>

lemma brelse_move_eq:
  assumes "b \<noteq> NBUF" and n: "n = nexts B b" and p: "p = prevs B b" and h: "h = ((nexts B)(p := n)) NBUF"
  shows "brelse_move b B = set_next NBUF b (set_prev h b (set_prev b NBUF (set_next b h (set_next p n (set_prev n p B)))))"
proof -
  have lf: "bnext (C w) = nexts C w" "bprev (C w) = prevs C w" for C w by (simp_all add: nexts_def prevs_def)
  define B1 where "B1 = set_prev n p B"
  define B2 where "B2 = set_next p n B1"
  define B4 where "B4 = set_prev b NBUF (set_next b h B2)"
  have 1: "set_prev (bnext (B b)) (bprev (B b)) B = B1" by (simp add: lf B1_def n p)
  have 2: "set_next (bprev (B1 b)) (bnext (B1 b)) B1 = B2" unfolding lf B2_def by (simp add: B1_def n p)
  have 3: "bnext (B2 NBUF) = h" unfolding lf by (simp add: B2_def B1_def h)
  have 4: "bnext (B4 NBUF) = h" unfolding lf using assms(1) 3 [unfolded lf] by (simp add: B4_def)
  show ?thesis unfolding brelse_move_def Let_def 1 2 3 B4_def [symmetric] 4 by (simp add: B4_def B2_def B1_def)
qed

lemma brelse_move_fields [simp]:
  assumes "b \<noteq> NBUF"
  shows "bvalid (brelse_move b B v) = bvalid (B v)" "bdirty (brelse_move b B v) = bdirty (B v)" "bdev (brelse_move b B v) = bdev (B v)"
    "blockno (brelse_move b B v) = blockno (B v)" "blk (brelse_move b B v) = blk (B v)" "refcnt (brelse_move b B v) = refcnt (B v)"
    "bdata (brelse_move b B v) = bdata (B v)"
  by (simp_all add: brelse_move_eq [OF assms refl refl refl])

lemma brelse_move_lru:
  assumes "lru B xs" "b < NBUF"
  shows "\<exists>ys. lru (brelse_move b B) ys"
proof -
  have "b \<in> set xs" using assms by (simp add: lru_def)
  then obtain zs zs' where xs: "xs = zs @ b # zs'" by (meson split_list)
  let ?N = "nexts B" and ?P = "prevs B"
  have s: "seg ?N ?P NBUF zs b" "seg ?N ?P b zs' NBUF" "distinct (zs @ b # zs')" "NBUF \<notin> set (zs @ b # zs')" "set (b # zs @ zs') = {0..<NBUF}"
    using assms xs by (auto simp: lru_def seg_append)
  let ?N1 = "?N(?P b := ?N b)" and ?P1 = "?P(?N b := ?P b)"
  have "seg (?N1(b := ?N1 NBUF, NBUF := b)) (?P1(b := NBUF, ?N1 NBUF := b)) NBUF (b # zs @ zs') NBUF"
    by (rule seg_push [OF seg_unlink [OF s(1,2)]]) (use s(3,4) in auto)
  moreover have "b \<noteq> NBUF" using assms(2) by simp
  ultimately have "seg (nexts (brelse_move b B)) (prevs (brelse_move b B)) NBUF (b # zs @ zs') NBUF"
    by (subst (1 2) brelse_move_eq [OF _ refl refl refl]) (simp_all del: seg.simps)
  then show ?thesis using s unfolding lru_def by (intro exI [of _ "b # zs @ zs'"]) auto
qed

section \<open>Critical sections and locks\<close>

lemma release_bcache_eq:
  assumes "on_cpu s i" "\<not> locked (bcache_lock s)" "lcpu (bcache_lock s) = None"
  shows "release_bcache ((bc.held i s)\<lparr>bufs := B\<rparr>) = Ok () ((settled i s)\<lparr>bufs := B\<rparr>)"
proof -
  have "release_bcache ((bc.held i s)\<lparr>bufs := B\<rparr>) = Ok () (bc.leave i s ((bc.held i s)\<lparr>bufs := B\<rparr>))"
    unfolding release_bcache_def by (rule bc.release_leave [OF assms]) (simp_all, simp add: bc.held_def pushed_def)
  moreover have "bc.leave i s ((bc.held i s)\<lparr>bufs := B\<rparr>) = (settled i s)\<lparr>bufs := B\<rparr>"
    by (rule bio_st.equality) (simp_all add: bc.leave_def bc.held_def pushed_def settled_def)
  ultimately show ?thesis by simp
qed

lemma bio_fields_held [simp]:
  "bufs (bc.held i s) = bufs s" "disk (bc.held i s) = disk s" "dwrites (bc.held i s) = dwrites s"
  by (simp_all add: bc.held_def pushed_def)

lemma bio_fields_settled [simp]:
  "bufs (settled i s) = bufs s" "disk (settled i s) = disk s" "dwrites (settled i s) = dwrites s"
  "disksize (settled i s) = disksize s" "bcache_lock (settled i s) = bcache_lock s"
  by (simp_all add: settled_def)

lemma settled_bio_upd [simp]:
  "settled i (s\<lparr>bufs := B\<rparr>) = (settled i s)\<lparr>bufs := B\<rparr>" "settled i (s\<lparr>disk := d\<rparr>) = (settled i s)\<lparr>disk := d\<rparr>"
  "settled i (s\<lparr>dwrites := w\<rparr>) = (settled i s)\<lparr>dwrites := w\<rparr>"
  by (simp_all add: settled_def)

text \<open>Process \<open>p\<close> runs on CPU \<open>i\<close>; the lock of the cache and the inner locks of all buffers are free.\<close>

definition bio_ready :: "nat \<Rightarrow> nat \<Rightarrow> 'z bio_st_scheme \<Rightarrow> bool" where
  "bio_ready i p s \<longleftrightarrow> calling i p s \<and> \<not> locked (bcache_lock s) \<and> lcpu (bcache_lock s) = None
     \<and> (\<forall>b < NBUF. \<not> locked (slk (blk (bufs s b))) \<and> lcpu (slk (blk (bufs s b))) = None)"

lemma bio_ready_on_cpu: "bio_ready i p s \<Longrightarrow> on_cpu s i"
  by (simp add: bio_ready_def calling_def proc_ready_def)

lemma bio_ready_lock: "bio_ready i p s \<Longrightarrow> b < NBUF \<Longrightarrow> bl.ready b i p s"
  by (simp add: bio_ready_def bl.ready_def buf_lock_def)

lemma calling_settled [simp]: "calling i p s \<Longrightarrow> calling i p (settled i s)"
  using on_cpuD(1) [of s i] by (simp add: calling_def proc_ready_def) (simp add: settled_def)

lemma bio_ready_settled [simp]: "bio_ready i p s \<Longrightarrow> bio_ready i p (settled i s)"
  by (simp add: bio_ready_def)

lemma bio_ready_bufs:
  assumes "bio_ready i p s" "\<And>b. b < NBUF \<Longrightarrow> slk (blk (B b)) = slk (blk (bufs s b))"
  shows "bio_ready i p (s\<lparr>bufs := B\<rparr>)"
proof -
  have "calling i p (s\<lparr>bufs := B\<rparr>) = calling i p s" by (simp add: calling_def proc_ready_def on_cpu_def)
  then show ?thesis using assms by (simp add: bio_ready_def)
qed

text \<open>The buffer once the caller holds it.\<close>

definition take_buf :: "int \<Rightarrow> buf \<Rightarrow> buf" where
  "take_buf me x = x\<lparr>refcnt := refcnt x + 1, blk := (blk x)\<lparr>slocked := True, slpid := me\<rparr>\<rparr>"

lemma take_lock:
  assumes r: "bio_ready i p s" and b: "b < NBUF" "\<not> slocked (blk x)" "slk (blk x) = slk (blk (bufs s b))"
  shows "andthen (release_bcache (upd_buf b (\<lambda>_. x\<lparr>refcnt := refcnt x + 1\<rparr>) (bc.held i s))) (\<lambda>_ s.
           andthen (acquiresleep (ChBufLock b) (buf_lock b) (buf_lock_update b) s) (\<lambda>_ s. Ok b s))
    = Ok b ((settled i s)\<lparr>bufs := (bufs s)(b := take_buf (pid (ptable s ! p)) x)\<rparr>)"
proof -
  let ?B = "(bufs s)(b := x\<lparr>refcnt := refcnt x + 1\<rparr>)"
  have rel: "release_bcache (upd_buf b (\<lambda>_. x\<lparr>refcnt := refcnt x + 1\<rparr>) (bc.held i s)) = Ok () ((settled i s)\<lparr>bufs := ?B\<rparr>)"
    unfolding upd_buf_def using release_bcache_eq [OF bio_ready_on_cpu [OF r]] r by (simp add: bio_ready_def)
  let ?t = "(settled i s)\<lparr>bufs := ?B\<rparr>"
  have "bio_ready i p ?t" using b(3) r by (intro bio_ready_bufs) auto
  then have "bl.ready b i p ?t" using b(1) by (rule bio_ready_lock)
  from bl.acquiresleep_free [OF this, of "ChBufLock b"] b(2)
  have "acquiresleep (ChBufLock b) (buf_lock b) (buf_lock_update b) ?t
      = Ok () (buf_lock_update b (\<lambda>l. l\<lparr>slocked := True, slpid := pid (ptable s ! p)\<rparr>) ?t)"
    by (simp add: buf_lock_def)
  then show ?thesis unfolding rel by (simp add: buf_lock_update_def upd_buf_def take_buf_def)
qed

lemma find_in_lru:
  assumes "lru B xs"
  shows "find P xs = None \<longleftrightarrow> (\<forall>b < NBUF. \<not> P b)" "find P xs = Some b \<Longrightarrow> b < NBUF \<and> P b"
    "find P (rev xs) = None \<longleftrightarrow> (\<forall>b < NBUF. \<not> P b)" "find P (rev xs) = Some b \<Longrightarrow> b < NBUF \<and> P b"
proof -
  have s: "set xs = {0..<NBUF}" "set (rev xs) = {0..<NBUF}" using assms by (simp_all add: lru_def)
  have n: "find P ys = None \<longleftrightarrow> (\<forall>x \<in> set ys. \<not> P x)" and m: "find P ys = Some b \<Longrightarrow> b \<in> set ys \<and> P b" for ys
    by (auto simp: find_None_iff find_Some_iff)
  show "find P xs = None \<longleftrightarrow> (\<forall>b < NBUF. \<not> P b)" "find P xs = Some b \<Longrightarrow> b < NBUF \<and> P b"
    "find P (rev xs) = None \<longleftrightarrow> (\<forall>b < NBUF. \<not> P b)" "find P (rev xs) = Some b \<Longrightarrow> b < NBUF \<and> P b"
    using n [of xs] m [of xs] n [of "rev xs"] m [of "rev xs"] unfolding s by auto
qed

lemma bget_hit:
  assumes r: "bio_ready i p s" and l: "lru (bufs s) xs"
    and f: "find (\<lambda>b. bdev (bufs s b) = dev \<and> blockno (bufs s b) = bno) xs = Some b" and free: "\<not> slocked (blk (bufs s b))"
  shows "bget dev bno s = Ok b ((settled i s)\<lparr>bufs := (bufs s)(b := take_buf (pid (ptable s ! p)) (bufs s b))\<rparr>)"
proof -
  have b: "b < NBUF" using find_in_lru(2) [OF l f] by simp
  have acq: "acquire_bcache s = Ok () (bc.held i s)"
    unfolding acquire_bcache_def using r bc.acquire_free [OF bio_ready_on_cpu [OF r]] by (simp add: bio_ready_def)
  have "NBUF \<notin> set xs" using l by (simp add: lru_def)
  then have c: "bget_cached (bufs s) dev bno (bnext (bufs s NBUF)) = Some (Some b)"
    using bget_cached_find [of "bufs s" NBUF xs] l f by (simp add: lru_def)
  have "upd_buf b (\<lambda>x. x\<lparr>refcnt := refcnt x + 1\<rparr>) (bc.held i s)
      = upd_buf b (\<lambda>_. (bufs s b)\<lparr>refcnt := refcnt (bufs s b) + 1\<rparr>) (bc.held i s)" by (simp add: upd_buf_def)
  then show ?thesis
    using take_lock [OF r b free refl] by (simp add: bget_def acq c)
qed

lemma bget_miss:
  assumes r: "bio_ready i p s" and l: "lru (bufs s) xs"
    and f: "find (\<lambda>b. bdev (bufs s b) = dev \<and> blockno (bufs s b) = bno) xs = None"
    and u: "find (\<lambda>b. refcnt (bufs s b) = 0 \<and> \<not> bdirty (bufs s b)) (rev xs) = Some b" and free: "\<not> slocked (blk (bufs s b))"
  shows "bget dev bno s = Ok b ((settled i s)\<lparr>bufs := (bufs s)(b := take_buf (pid (ptable s ! p))
           ((bufs s b)\<lparr>bdev := dev, blockno := bno, bvalid := False, bdirty := False, refcnt := 0\<rparr>))\<rparr>)"
proof -
  let ?x = "(bufs s b)\<lparr>bdev := dev, blockno := bno, bvalid := False, bdirty := False, refcnt := 0\<rparr>"
  have b: "b < NBUF" using find_in_lru(4) [OF l u] by simp
  have acq: "acquire_bcache s = Ok () (bc.held i s)"
    unfolding acquire_bcache_def using r bc.acquire_free [OF bio_ready_on_cpu [OF r]] by (simp add: bio_ready_def)
  have n: "NBUF \<notin> set xs" using l by (simp add: lru_def)
  then have c: "bget_cached (bufs s) dev bno (bnext (bufs s NBUF)) = Some None"
    "bget_unused (bufs s) (bprev (bufs s NBUF)) = Some (Some b)"
    using bget_cached_find [of "bufs s" NBUF xs] bget_unused_find [of "bufs s" xs NBUF] l f u by (simp_all add: lru_def)
  have "upd_buf b (\<lambda>x. x\<lparr>bdev := dev, blockno := bno, bvalid := False, bdirty := False, refcnt := 1\<rparr>) (bc.held i s)
      = upd_buf b (\<lambda>_. ?x\<lparr>refcnt := refcnt ?x + 1\<rparr>) (bc.held i s)" by (simp add: upd_buf_def)
  then show ?thesis
    using take_lock [OF r b, of ?x] free by (simp add: bget_def acq c)
qed

section \<open>Outcomes with the buffer lock held\<close>

definition mine :: "nat \<Rightarrow> nat \<Rightarrow> 'z bio_st_scheme \<Rightarrow> bool" where
  "mine p b s \<longleftrightarrow> slocked (blk (bufs s b)) \<and> slpid (blk (bufs s b)) = pid (ptable s ! p)"

lemma holdingsleep_mine:
  "bio_ready i p s \<Longrightarrow> b < NBUF \<Longrightarrow> holdingsleep (buf_lock b) (buf_lock_update b) s = Ok (mine p b s) (settled i s)"
  using bl.holdingsleep_eq [OF bio_ready_lock] by (simp add: mine_def buf_lock_def)

lemma iderw_read:
  assumes "bio_ready i p s" "b < NBUF" "mine p b s" "\<not> bvalid (bufs s b)" "\<not> bdirty (bufs s b)" "bdev (bufs s b) = 1"
    "blockno (bufs s b) < disksize s"
  shows "iderw b s = Ok () ((settled i s)\<lparr>bufs := (bufs s)(b := (bufs s b)\<lparr>bdata := disk s (blockno (bufs s b)), bvalid := True\<rparr>)\<rparr>)"
  using assms by (simp add: iderw_def holdingsleep_mine upd_buf_def Let_def not_le)

lemma iderw_write:
  assumes "bio_ready i p s" "b < NBUF" "mine p b s" "bdirty (bufs s b)" "bdev (bufs s b) = 1" "blockno (bufs s b) < disksize s"
  shows "iderw b s = Ok () ((settled i s)\<lparr>bufs := (bufs s)(b := (bufs s b)\<lparr>bdirty := False, bvalid := True\<rparr>),
     disk := (disk s)(blockno (bufs s b) := bdata (bufs s b)), dwrites := dwrites s @ [(blockno (bufs s b), bdata (bufs s b))]\<rparr>)"
  using assms by (simp add: iderw_def holdingsleep_mine upd_buf_def Let_def not_le)

lemma bwrite_eq:
  assumes "bio_ready i p s" "b < NBUF" "mine p b s" "bdev (bufs s b) = 1" "blockno (bufs s b) < disksize s"
  shows "bwrite b s = Ok () ((settled i s)\<lparr>bufs := (bufs s)(b := (bufs s b)\<lparr>bdirty := False, bvalid := True\<rparr>),
     disk := (disk s)(blockno (bufs s b) := bdata (bufs s b)), dwrites := dwrites s @ [(blockno (bufs s b), bdata (bufs s b))]\<rparr>)"
proof -
  let ?s = "upd_buf b (\<lambda>x. x\<lparr>bdirty := True\<rparr>) (settled i s)"
  have "bio_ready i p ?s" unfolding upd_buf_def using assms(1) by (intro bio_ready_bufs) simp_all
  then have "iderw b ?s = Ok () ((settled i ?s)\<lparr>bufs := (bufs ?s)(b := (bufs ?s b)\<lparr>bdirty := False, bvalid := True\<rparr>),
     disk := (disk ?s)(blockno (bufs ?s b) := bdata (bufs ?s b)), dwrites := dwrites ?s @ [(blockno (bufs ?s b), bdata (bufs ?s b))]\<rparr>)"
    by (rule iderw_write [OF _ assms(2)]) (use assms in \<open>simp_all add: mine_def upd_buf_def\<close>)
  moreover have "(settled i ?s)\<lparr>bufs := (bufs ?s)(b := (bufs ?s b)\<lparr>bdirty := False, bvalid := True\<rparr>),
     disk := (disk ?s)(blockno (bufs ?s b) := bdata (bufs ?s b)), dwrites := dwrites ?s @ [(blockno (bufs ?s b), bdata (bufs ?s b))]\<rparr>
   = (settled i s)\<lparr>bufs := (bufs s)(b := (bufs s b)\<lparr>bdirty := False, bvalid := True\<rparr>),
     disk := (disk s)(blockno (bufs s b) := bdata (bufs s b)), dwrites := dwrites s @ [(blockno (bufs s b), bdata (bufs s b))]\<rparr>"
    by (rule bio_st.equality) (simp_all add: upd_buf_def fun_eq_iff)
  ultimately show ?thesis using assms by (simp add: bwrite_def holdingsleep_mine)
qed

text \<open>The buffers after \<^verbatim>\<open>brelse\<close>.\<close>

definition drop_buf :: "buf \<Rightarrow> buf" where
  "drop_buf x = x\<lparr>blk := (blk x)\<lparr>slocked := False, slpid := 0\<rparr>, refcnt := refcnt x - 1\<rparr>"

lemma brelse_eq:
  assumes r: "bio_ready i p s" and b: "b < NBUF" "mine p b s"
  shows "brelse b s = Ok () ((settled i s)\<lparr>
     bufs := (let B = (bufs s)(b := drop_buf (bufs s b)) in if refcnt (B b) = 0 then brelse_move b B else B),
     ptable := map (wake (Some (ChBufLock b))) (ptable s)\<rparr>)"
proof -
  let ?B = "(bufs s)(b := drop_buf (bufs s b))"
  let ?pt = "map (wake (Some (ChBufLock b))) (ptable s)"
  let ?t = "(settled i s)\<lparr>bufs := (bufs s)(b := (bufs s b)\<lparr>blk := (blk (bufs s b))\<lparr>slocked := False, slpid := 0\<rparr>\<rparr>), ptable := ?pt\<rparr>"
  have rel: "releasesleep (ChBufLock b) (buf_lock b) (buf_lock_update b) (settled i s) = Ok () ?t"
    using bl.releasesleep_eq [OF bio_ready_lock [OF bio_ready_settled [OF r] b(1)], of "ChBufLock b"]
    by (simp add: buf_lock_update_def upd_buf_def)
  have on: "on_cpu ?t i" using bio_ready_on_cpu [OF r] on_cpu_settled [of s i] by (simp add: on_cpu_def)
  have lk: "\<not> locked (bcache_lock ?t)" "lcpu (bcache_lock ?t) = None" using r by (simp_all add: bio_ready_def)
  have acq: "acquire_bcache ?t = Ok () (bc.held i ?t)" unfolding acquire_bcache_def by (rule bc.acquire_free [OF on lk(1)])
  have st: "settled i ?t = ?t" by simp
  have "upd_buf b (\<lambda>x. x\<lparr>refcnt := refcnt x - 1\<rparr>) (bc.held i ?t) = (bc.held i ?t)\<lparr>bufs := ?B\<rparr>"
    by (simp add: upd_buf_def drop_buf_def)
  then show ?thesis
    using release_bcache_eq [OF on lk] b(2)
    by (simp add: brelse_def holdingsleep_mine [OF r b(1)] rel acq st Let_def del: fun_upd_apply)
qed

section \<open>The cache invariant\<close>

text \<open>Buffer \<open>b\<close> is assigned to block \<open>bno\<close> of the disk.\<close>

definition caches :: "(nat \<Rightarrow> buf) \<Rightarrow> u32 \<Rightarrow> nat \<Rightarrow> bool" where
  "caches B bno b \<longleftrightarrow> b < NBUF \<and> bdev (B b) = 1 \<and> blockno (B b) = bno"

text \<open>What a reader of block \<open>bno\<close> sees: the buffer if there is a valid one, else the disk.\<close>

definition content :: "'z bio_st_scheme \<Rightarrow> u32 \<Rightarrow> block" where
  "content s bno = (case find (\<lambda>b. caches (bufs s) bno b \<and> bvalid (bufs s b)) [0..<NBUF] of
     Some b \<Rightarrow> bdata (bufs s b) | None \<Rightarrow> disk s bno)"

text \<open>
  The list is well formed; a block has at most one buffer; a clean valid buffer agrees with the disk; a dirty buffer is
  valid.
\<close>

definition cache_ok :: "'z bio_st_scheme \<Rightarrow> bool" where
  "cache_ok s \<longleftrightarrow> (\<exists>xs. lru (bufs s) xs)
     \<and> (\<forall>bno b b'. caches (bufs s) bno b \<longrightarrow> caches (bufs s) bno b' \<longrightarrow> b = b')
     \<and> (\<forall>bno b. caches (bufs s) bno b \<longrightarrow> bvalid (bufs s b) \<longrightarrow> \<not> bdirty (bufs s b) \<longrightarrow> bdata (bufs s b) = disk s bno)
     \<and> (\<forall>b < NBUF. bdirty (bufs s b) \<longrightarrow> bvalid (bufs s b) \<and> bdev (bufs s b) = 1)"

lemma content_cached:
  assumes "cache_ok s" "caches (bufs s) bno b" "bvalid (bufs s b)"
  shows "content s bno = bdata (bufs s b)"
proof -
  have u: "b' = b" if "caches (bufs s) bno b'" for b' using assms(1,2) that unfolding cache_ok_def by blast
  have "\<exists>x. find (\<lambda>b. caches (bufs s) bno b \<and> bvalid (bufs s b)) [0..<NBUF] = Some x"
    using assms by (cases "find (\<lambda>b. caches (bufs s) bno b \<and> bvalid (bufs s b)) [0..<NBUF]") (auto simp: find_None_iff caches_def)
  then obtain x where x: "find (\<lambda>b. caches (bufs s) bno b \<and> bvalid (bufs s b)) [0..<NBUF] = Some x" ..
  then have "caches (bufs s) bno x" by (auto simp: find_Some_iff)
  then have "x = b" by (rule u)
  with x show ?thesis by (simp add: content_def)
qed

lemma content_uncached: "(\<And>b. caches (bufs s) bno b \<Longrightarrow> \<not> bvalid (bufs s b)) \<Longrightarrow> content s bno = disk s bno"
proof -
  assume "\<And>b. caches (bufs s) bno b \<Longrightarrow> \<not> bvalid (bufs s b)"
  then have "find (\<lambda>b. caches (bufs s) bno b \<and> bvalid (bufs s b)) [0..<NBUF] = None" by (auto simp: find_None_iff)
  then show ?thesis by (simp add: content_def)
qed

text \<open>
  The state between two calls of a process \<open>p\<close> on CPU \<open>i\<close> that holds exactly the buffers \<open>H\<close> while nobody else holds any.
\<close>

definition good :: "nat \<Rightarrow> nat \<Rightarrow> nat set \<Rightarrow> 'z bio_st_scheme \<Rightarrow> bool" where
  "good i p H s \<longleftrightarrow> bio_ready i p s \<and> cache_ok s \<and> H \<subseteq> {0..<NBUF}
     \<and> (\<forall>b < NBUF. if b \<in> H then mine p b s \<and> refcnt (bufs s b) = 1
                   else \<not> slocked (blk (bufs s b)) \<and> refcnt (bufs s b) = 0)"

text \<open>What the operations may change.\<close>

definition bio_frame :: "nat \<Rightarrow> 'z bio_st_scheme \<Rightarrow> 'z bio_st_scheme \<Rightarrow> bool" where
  "bio_frame i s t \<longleftrightarrow> t = (settled i s)\<lparr>bufs := bufs t, disk := disk t, dwrites := dwrites t, ptable := ptable t\<rparr>
     \<and> map pid (ptable t) = map pid (ptable s)"

lemma bio_frame_trans: "bio_frame i s t \<Longrightarrow> bio_frame i t u \<Longrightarrow> bio_frame i s u"
proof -
  assume a: "bio_frame i s t" "bio_frame i t u"
  let ?t = "(settled i s)\<lparr>bufs := bufs t, disk := disk t, dwrites := dwrites t, ptable := ptable t\<rparr>"
  have t: "t = ?t" and u: "u = (settled i t)\<lparr>bufs := bufs u, disk := disk u, dwrites := dwrites u, ptable := ptable u\<rparr>"
    using a by (simp_all add: bio_frame_def)
  have st: "settled i t = (settled i s)\<lparr>bufs := bufs t, disk := disk t, dwrites := dwrites t, ptable := ptable t\<rparr>"
    by (subst t) simp
  have "u = (settled i s)\<lparr>bufs := bufs u, disk := disk u, dwrites := dwrites u, ptable := ptable u\<rparr>"
    by (subst u, subst st) simp
  with a show ?thesis by (simp add: bio_frame_def)
qed

text \<open>How \<^verbatim>\<open>bread\<close> ends: with some buffer that now holds the contents of the block.\<close>

definition bread_result :: "'z bio_st_scheme \<Rightarrow> u32 \<Rightarrow> nat \<Rightarrow> buf \<Rightarrow> bool" where
  "bread_result s bno b y \<longleftrightarrow> b < NBUF \<and> refcnt (bufs s b) = 0 \<and> bdev y = 1 \<and> blockno y = bno \<and> bvalid y
     \<and> bdirty y = bdirty (bufs s b) \<and> refcnt y = 0 \<and> slk (blk y) = slk (blk (bufs s b))
     \<and> bnext y = bnext (bufs s b) \<and> bprev y = bprev (bufs s b) \<and> bdata y = content s bno
     \<and> (\<not> bdirty y \<longrightarrow> bdata y = disk s bno)
     \<and> (caches (bufs s) bno b \<or> (\<forall>b'. \<not> caches (bufs s) bno b') \<and> \<not> bdirty (bufs s b))"

lemma bread_fill:
  assumes r: "bio_ready i p s" and b: "b < NBUF" "bdev y = 1" "blockno y = bno" "bno < disksize s" "bvalid y \<or> \<not> bdirty y"
    and k: "slk (blk y) = slk (blk (bufs s b))"
    and g: "bget 1 bno s = Ok b ((settled i s)\<lparr>bufs := (bufs s)(b := take_buf (pid (ptable s ! p)) y)\<rparr>)"
  shows "bread 1 bno s = Ok b ((settled i s)\<lparr>bufs := (bufs s)(b := take_buf (pid (ptable s ! p))
     (if bvalid y then y else y\<lparr>bdata := disk s bno, bvalid := True\<rparr>))\<rparr>)"
proof (cases "bvalid y")
  case True
  then show ?thesis by (simp add: bread_def g take_buf_def)
next
  case False
  let ?t = "(settled i s)\<lparr>bufs := (bufs s)(b := take_buf (pid (ptable s ! p)) y)\<rparr>"
  have "bio_ready i p ?t" by (rule bio_ready_bufs) (use r k in \<open>auto simp: take_buf_def\<close>)
  then have "iderw b ?t = Ok () ((settled i ?t)\<lparr>bufs := (bufs ?t)(b := (bufs ?t b)\<lparr>bdata := disk ?t (blockno (bufs ?t b)), bvalid := True\<rparr>)\<rparr>)"
    by (rule iderw_read [OF _ b(1)]) (use b False in \<open>simp_all add: mine_def take_buf_def\<close>)
  moreover have "(settled i ?t)\<lparr>bufs := (bufs ?t)(b := (bufs ?t b)\<lparr>bdata := disk ?t (blockno (bufs ?t b)), bvalid := True\<rparr>)\<rparr>
      = (settled i s)\<lparr>bufs := (bufs s)(b := take_buf (pid (ptable s ! p)) (y\<lparr>bdata := disk s bno, bvalid := True\<rparr>))\<rparr>"
    by (rule bio_st.equality) (simp_all add: take_buf_def fun_eq_iff b)
  moreover have "\<not> bvalid (bufs ?t b)" using False by (simp add: take_buf_def)
  ultimately show ?thesis unfolding bread_def g andthen.simps if_not_P [OF False] by (simp only: if_False andthen.simps)
qed

lemma good_frees: "good i p H s \<Longrightarrow> b < NBUF \<Longrightarrow> refcnt (bufs s b) = 0 \<Longrightarrow> \<not> slocked (blk (bufs s b)) \<and> b \<notin> H"
  by (cases "b \<in> H") (auto simp: good_def)

lemma bread_eq:
  assumes g: "good i p H s" and bno: "bno < disksize s" "\<forall>b \<in> H. \<not> caches (bufs s) bno b"
    and room: "(\<exists>b. caches (bufs s) bno b) \<or> (\<exists>b < NBUF. b \<notin> H \<and> \<not> bdirty (bufs s b))"
  shows "\<exists>b y. bread 1 bno s = Ok b ((settled i s)\<lparr>bufs := (bufs s)(b := take_buf (pid (ptable s ! p)) y)\<rparr>) \<and> bread_result s bno b y"
proof -
  have r: "bio_ready i p s" and ok: "cache_ok s" using g by (simp_all add: good_def)
  obtain xs where l: "lru (bufs s) xs" using ok by (auto simp: cache_ok_def)
  let ?P = "\<lambda>b. bdev (bufs s b) = 1 \<and> blockno (bufs s b) = bno"
  let ?U = "\<lambda>b. refcnt (bufs s b) = 0 \<and> \<not> bdirty (bufs s b)"
  show ?thesis
  proof (cases "find ?P xs")
    case (Some b)
    have b: "b < NBUF" "?P b" using find_in_lru(2) [OF l Some] by auto
    then have c: "caches (bufs s) bno b" by (simp add: caches_def)
    then have nh: "b \<notin> H" using bno(2) by blast
    then have f: "\<not> slocked (blk (bufs s b))" "refcnt (bufs s b) = 0" using g b(1) by (auto simp: good_def)
    have d: "bvalid (bufs s b) \<or> \<not> bdirty (bufs s b)" using ok b(1) unfolding cache_ok_def by blast
    let ?y = "if bvalid (bufs s b) then bufs s b else (bufs s b)\<lparr>bdata := disk s bno, bvalid := True\<rparr>"
    have u: "b' = b" if "caches (bufs s) bno b'" for b' using ok c that unfolding cache_ok_def by blast
    have "content s bno = disk s bno" if "\<not> bvalid (bufs s b)"
      by (rule content_uncached) (use u that in blast)
    then have "bdata ?y = content s bno" using content_cached [OF ok c] by simp
    moreover have "\<not> bdirty (bufs s b) \<Longrightarrow> bvalid (bufs s b) \<Longrightarrow> bdata (bufs s b) = disk s bno"
      using ok c unfolding cache_ok_def by blast
    ultimately have "bread_result s bno b ?y" using b f c by (cases "bvalid (bufs s b)") (auto simp: bread_result_def)
    moreover have "bread 1 bno s = Ok b ((settled i s)\<lparr>bufs := (bufs s)(b := take_buf (pid (ptable s ! p)) ?y)\<rparr>)"
      using bread_fill [OF r b(1) _ _ bno(1) d refl bget_hit [OF r l Some f(1)]] b(2) by simp
    ultimately show ?thesis by blast
  next
    case None
    then have nc: "\<not> caches (bufs s) bno b'" for b' using find_in_lru(1) [OF l] by (auto simp: caches_def)
    then obtain b0 where "b0 < NBUF" "b0 \<notin> H" "\<not> bdirty (bufs s b0)" using room by blast
    then have "?U b0" using g by (auto simp: good_def)
    then obtain b where u: "find ?U (rev xs) = Some b"
      using find_in_lru(3) [OF l, of ?U] \<open>b0 < NBUF\<close> by (cases "find ?U (rev xs)") auto
    have b: "b < NBUF" "?U b" using find_in_lru(4) [OF l u] by auto
    have f: "\<not> slocked (blk (bufs s b))" using good_frees [OF g b(1)] b(2) by blast
    let ?x = "(bufs s b)\<lparr>bdev := 1, blockno := bno, bvalid := False, bdirty := False, refcnt := 0\<rparr>"
    have "bread 1 bno s = Ok b ((settled i s)\<lparr>bufs := (bufs s)(b := take_buf (pid (ptable s ! p)) (?x\<lparr>bdata := disk s bno, bvalid := True\<rparr>))\<rparr>)"
      using bread_fill [OF r b(1) _ _ bno(1) _ _ bget_miss [OF r l None u f]] by simp
    moreover have "content s bno = disk s bno" using content_uncached [of s bno] nc by blast
    then have "bread_result s bno b (?x\<lparr>bdata := disk s bno, bvalid := True\<rparr>)" using b nc by (auto simp: bread_result_def)
    ultimately show ?thesis by blast
  qed
qed

lemma content_cong:
  assumes "\<And>x. caches (bufs t) n x \<longleftrightarrow> caches (bufs s) n x" "disk t n = disk s n"
    and "\<And>x. caches (bufs s) n x \<Longrightarrow> bvalid (bufs t x) = bvalid (bufs s x) \<and> bdata (bufs t x) = bdata (bufs s x)"
  shows "content t n = content s n"
proof -
  have P: "(\<lambda>x. caches (bufs t) n x \<and> bvalid (bufs t x)) = (\<lambda>x. caches (bufs s) n x \<and> bvalid (bufs s x))"
    using assms(1,3) by auto
  show ?thesis
  proof (cases "find (\<lambda>x. caches (bufs s) n x \<and> bvalid (bufs s x)) [0..<NBUF]")
    case None
    then show ?thesis using assms(2) by (simp add: content_def P)
  next
    case (Some x)
    then have "caches (bufs s) n x" by (auto simp: find_Some_iff)
    with Some assms(3) show ?thesis by (simp add: content_def P)
  qed
qed

text \<open>The invariant after a read: the block may have displaced a clean one.\<close>

lemma lru_upd:
  assumes "lru B xs" "bnext y = bnext (B b)" "bprev y = bprev (B b)"
  shows "lru (B(b := y)) xs"
proof -
  have "nexts (B(b := y)) = nexts B" "prevs (B(b := y)) = prevs B" using assms(2,3) by (auto simp: nexts_def prevs_def)
  then show ?thesis using assms(1) by (simp add: lru_def)
qed

lemma cache_after_read:
  assumes ok: "cache_ok s" and y: "bread_result s bno b y" and s: "bufs t = (bufs s)(b := take_buf me y)" "disk t = disk s"
  shows "cache_ok t" "content t = content s"
proof -
  have Y: "b < NBUF" "bdev y = 1" "blockno y = bno" "bvalid y" "bdirty y = bdirty (bufs s b)" "bdata y = content s bno"
    "bnext y = bnext (bufs s b)" "bprev y = bprev (bufs s b)" "\<not> bdirty y \<Longrightarrow> bdata y = disk s bno"
    "caches (bufs s) bno b \<or> (\<forall>b'. \<not> caches (bufs s) bno b') \<and> \<not> bdirty (bufs s b)"
    using y by (auto simp: bread_result_def)
  have c: "caches (bufs t) n x \<longleftrightarrow> (if x = b then n = bno else caches (bufs s) n x)" for n x
    using Y(1-3) by (auto simp: s caches_def take_buf_def)
  have u: "caches (bufs s) n x \<Longrightarrow> caches (bufs s) n x' \<Longrightarrow> x = x'" for n x x' using ok unfolding cache_ok_def by blast
  have other: "caches (bufs s) bno x \<Longrightarrow> x = b" for x using Y(10) u by blast
  obtain xs where "lru (bufs s) xs" using ok by (auto simp: cache_ok_def)
  then have "\<exists>xs. lru (bufs t) xs" using lru_upd [of "bufs s" xs "take_buf me y" b] Y by (auto simp: s take_buf_def)
  moreover have "x = x'" if "caches (bufs t) n x" "caches (bufs t) n x'" for n x x'
    using that u other unfolding c by (auto split: if_splits)
  moreover have "bdata (bufs t x) = disk t n" if "caches (bufs t) n x" "bvalid (bufs t x)" "\<not> bdirty (bufs t x)" for n x
  proof (cases "x = b")
    case True
    then show ?thesis using that Y by (simp add: c) (simp add: s take_buf_def)
  next
    case False
    then show ?thesis using that ok unfolding c cache_ok_def by (auto simp: s)
  qed
  moreover have "bvalid (bufs t x) \<and> bdev (bufs t x) = 1" if "x < NBUF" "bdirty (bufs t x)" for x
    using that ok Y unfolding cache_ok_def by (cases "x = b") (auto simp: s take_buf_def)
  ultimately show okt: "cache_ok t" unfolding cache_ok_def by blast
  show "content t = content s"
  proof
    fix n
    consider "n = bno" | "n \<noteq> bno" "caches (bufs s) n b" | "n \<noteq> bno" "\<not> caches (bufs s) n b" by blast
    then show "content t n = content s n"
    proof cases
      case 1
      then show ?thesis using content_cached [OF okt, of bno b] Y c by (simp add: s take_buf_def)
    next
      case 2
      then have nd: "\<not> bdirty (bufs s b)" using Y(3,10) by (auto simp: caches_def)
      have "\<not> caches (bufs t) n x" for x using 2 u [of n x b] unfolding c by (auto split: if_splits)
      then have "content t n = disk s n" using content_uncached [of t n] s(2) by simp
      moreover have "content s n = disk s n"
      proof (cases "bvalid (bufs s b)")
        case True
        then show ?thesis using content_cached [OF ok 2(2)] ok 2(2) nd unfolding cache_ok_def by auto
      next
        case False
        then show ?thesis using content_uncached [of s n] u [of n _ b] 2(2) by blast
      qed
      ultimately show ?thesis by simp
    next
      case 3
      have "caches (bufs t) n x = caches (bufs s) n x" "caches (bufs s) n x \<Longrightarrow> bufs t x = bufs s x" for x
        using 3 unfolding c by (auto simp: s)
      then show ?thesis using s(2) by (intro content_cong) simp_all
    qed
  qed
qed

section \<open>The contract\<close>

lemma bio_ready_frame:
  assumes "bio_ready i p s" "bio_frame i s t" "\<And>b. b < NBUF \<Longrightarrow> slk (blk (bufs t b)) = slk (blk (bufs s b))"
  shows "bio_ready i p t" "pid (ptable t ! p) = pid (ptable s ! p)"
proof -
  have t: "t = (settled i s)\<lparr>bufs := bufs t, disk := disk t, dwrites := dwrites t, ptable := ptable t\<rparr>"
    and m: "map pid (ptable t) = map pid (ptable s)" using assms(2) by (simp_all add: bio_frame_def)
  have c: "calling i p s" using assms(1) by (simp add: bio_ready_def)
  have len: "length (ptable t) = length (ptable s)" using map_eq_imp_length_eq [OF m] .
  have f: "cpus t = cpus (settled i s)" "lapicid t = lapicid (settled i s)" "iflag t = iflag (settled i s)"
    "ptable_lock t = ptable_lock s" "bcache_lock t = bcache_lock s"
    by (subst t, simp)+
  have "calling i p (settled i s)" using c by simp
  then have "calling i p t" using len by (simp add: calling_def proc_ready_def on_cpu_def f)
  then show "bio_ready i p t" using assms(1,3) by (simp add: bio_ready_def f)
  have "p < length (ptable s)" using c by (simp add: calling_def proc_ready_def)
  then show "pid (ptable t ! p) = pid (ptable s ! p)" using m len by (metis nth_map)
qed

lemma bread_good:
  assumes g: "good i p H s" and bno: "bno < disksize s" "\<forall>b \<in> H. \<not> caches (bufs s) bno b"
    and room: "(\<exists>b. caches (bufs s) bno b) \<or> (\<exists>b < NBUF. b \<notin> H \<and> \<not> bdirty (bufs s b))"
  obtains b t where "bread 1 bno s = Ok b t" "bio_frame i s t" "good i p (insert b H) t" "b \<notin> H" "caches (bufs t) bno b"
    "bdata (bufs t b) = content s bno" "content t = content s" "disk t = disk s" "dwrites t = dwrites s"
    "\<And>x. bdirty (bufs t x) = bdirty (bufs s x)"
    "\<And>x. x \<noteq> b \<Longrightarrow> bufs t x = bufs s x" "caches (bufs s) bno b \<or> \<not> bdirty (bufs s b)" "bvalid (bufs t b)"
proof -
  obtain b y where e: "bread 1 bno s = Ok b ((settled i s)\<lparr>bufs := (bufs s)(b := take_buf (pid (ptable s ! p)) y)\<rparr>)"
    and y: "bread_result s bno b y" using bread_eq [OF assms] by blast
  let ?t = "(settled i s)\<lparr>bufs := (bufs s)(b := take_buf (pid (ptable s ! p)) y)\<rparr>"
  have r: "bio_ready i p s" and ok: "cache_ok s" using g by (simp_all add: good_def)
  have Y: "b < NBUF" "refcnt (bufs s b) = 0" "bdev y = 1" "blockno y = bno" "bvalid y" "refcnt y = 0" "bdirty y = bdirty (bufs s b)"
    "slk (blk y) = slk (blk (bufs s b))" "bdata y = content s bno" using y by (auto simp: bread_result_def)
  have nh: "b \<notin> H" using good_frees [OF g Y(1,2)] by simp
  have fr: "bio_frame i s ?t" by (simp add: bio_frame_def)
  have "bio_ready i p ?t" by (rule bio_ready_bufs) (use r Y(8) in \<open>auto simp: take_buf_def\<close>)
  moreover have "cache_ok ?t" "content ?t = content s" by (rule cache_after_read [OF ok y]; simp)+
  ultimately have "good i p (insert b H) ?t"
    using g Y by (auto simp: good_def mine_def take_buf_def)
  moreover have "caches (bufs ?t) bno b" using Y by (simp add: caches_def take_buf_def)
  moreover have "bdata (bufs ?t b) = content s bno" "bdirty (bufs ?t x) = bdirty (bufs s x)" "x \<noteq> b \<Longrightarrow> bufs ?t x = bufs s x"
    "disk ?t = disk s" "dwrites ?t = dwrites s" "bvalid (bufs ?t b)" for x using Y by (simp_all add: take_buf_def)
  moreover have "caches (bufs s) bno b \<or> \<not> bdirty (bufs s b)" using y by (auto simp: bread_result_def)
  ultimately show thesis using that [OF e fr _ nh] \<open>content ?t = content s\<close> by blast
qed

lemma bwrite_good:
  assumes g: "good i p H s" and b: "b \<in> H" "caches (bufs s) bno b" "bno < disksize s"
  obtains t where "bwrite b (upd_buf b (\<lambda>x. x\<lparr>bdata := d\<rparr>) s) = Ok () t" "bio_frame i s t" "good i p H t"
    "bufs t = (bufs s)(b := (bufs s b)\<lparr>bdata := d, bdirty := False, bvalid := True\<rparr>)"
    "disk t = (disk s)(bno := d)" "dwrites t = dwrites s @ [(bno, d)]" "content t = (content s)(bno := d)"
proof -
  let ?s = "upd_buf b (\<lambda>x. x\<lparr>bdata := d\<rparr>) s"
  have r: "bio_ready i p s" and ok: "cache_ok s" and m: "mine p b s" and B: "b < NBUF" "bdev (bufs s b) = 1" "blockno (bufs s b) = bno"
    using g b by (auto simp: good_def caches_def)
  have rs: "bio_ready i p ?s" unfolding upd_buf_def by (rule bio_ready_bufs) (use r in auto)
  let ?t = "(settled i s)\<lparr>bufs := (bufs s)(b := (bufs s b)\<lparr>bdata := d, bdirty := False, bvalid := True\<rparr>), disk := (disk s)(bno := d),
     dwrites := dwrites s @ [(bno, d)]\<rparr>"
  have "bwrite b ?s = Ok () ((settled i ?s)\<lparr>bufs := (bufs ?s)(b := (bufs ?s b)\<lparr>bdirty := False, bvalid := True\<rparr>),
     disk := (disk ?s)(blockno (bufs ?s b) := bdata (bufs ?s b)), dwrites := dwrites ?s @ [(blockno (bufs ?s b), bdata (bufs ?s b))]\<rparr>)"
    by (rule bwrite_eq [OF rs B(1)]) (use m B b(3) in \<open>simp_all add: mine_def upd_buf_def\<close>)
  also have "(settled i ?s)\<lparr>bufs := (bufs ?s)(b := (bufs ?s b)\<lparr>bdirty := False, bvalid := True\<rparr>),
     disk := (disk ?s)(blockno (bufs ?s b) := bdata (bufs ?s b)), dwrites := dwrites ?s @ [(blockno (bufs ?s b), bdata (bufs ?s b))]\<rparr> = ?t"
    by (rule bio_st.equality) (simp_all add: upd_buf_def fun_eq_iff B)
  finally have e: "bwrite b ?s = Ok () ?t" .
  have fr: "bio_frame i s ?t" by (simp add: bio_frame_def)
  have rt: "bio_ready i p ?t"
    by (rule bio_ready_frame(1) [OF r fr]) auto
  have c: "caches (bufs ?t) n x = caches (bufs s) n x" for n x by (auto simp: caches_def)
  have u: "caches (bufs s) n x \<Longrightarrow> caches (bufs s) n x' \<Longrightarrow> x = x'" for n x x' using ok unfolding cache_ok_def by blast
  obtain xs where "lru (bufs s) xs" using ok by (auto simp: cache_ok_def)
  then have "\<exists>xs. lru (bufs ?t) xs" using lru_upd [of "bufs s" xs "(bufs s b)\<lparr>bdata := d, bdirty := False, bvalid := True\<rparr>" b] by auto
  moreover have "bdata (bufs ?t x) = disk ?t n" if "caches (bufs ?t) n x" "bvalid (bufs ?t x)" "\<not> bdirty (bufs ?t x)" for n x
    using that ok u [of n x b] b(2) unfolding c cache_ok_def by (cases "x = b") (auto simp: caches_def)
  moreover have "bvalid (bufs ?t x) \<and> bdev (bufs ?t x) = 1" if "x < NBUF" "bdirty (bufs ?t x)" for x
    using that ok unfolding cache_ok_def by (cases "x = b") auto
  ultimately have okt: "cache_ok ?t" unfolding cache_ok_def c using u by blast
  have "content ?t = (content s)(bno := d)"
  proof
    fix n
    show "content ?t n = ((content s)(bno := d)) n"
    proof (cases "n = bno")
      case True
      then show ?thesis using content_cached [OF okt, of bno b] b(2) c by simp
    next
      case False
      then have "content ?t n = content s n" using b(2) c by (intro content_cong) (auto simp: caches_def)
      with False show ?thesis by simp
    qed
  qed
  moreover have "good i p H ?t" using g rt okt by (auto simp: good_def mine_def)
  ultimately show thesis using that [OF e fr] by simp
qed

lemma brelse_good:
  assumes g: "good i p H s" and b: "b \<in> H"
  obtains t where "brelse b s = Ok () t" "bio_frame i s t" "good i p (H - {b}) t" "content t = content s" "disk t = disk s"
    "dwrites t = dwrites s" "\<And>x n. caches (bufs t) n x = caches (bufs s) n x" "\<And>x. bdirty (bufs t x) = bdirty (bufs s x)"
    "\<And>x. bdata (bufs t x) = bdata (bufs s x)" "\<And>x. bvalid (bufs t x) = bvalid (bufs s x)"
proof -
  have r: "bio_ready i p s" and ok: "cache_ok s" and m: "mine p b s" "refcnt (bufs s b) = 1" and B: "b < NBUF"
    using g b by (auto simp: good_def)
  let ?D = "(bufs s)(b := drop_buf (bufs s b))"
  let ?t = "(settled i s)\<lparr>bufs := brelse_move b ?D, ptable := map (wake (Some (ChBufLock b))) (ptable s)\<rparr>"
  have e: "brelse b s = Ok () ?t" using brelse_eq [OF r B m(1)] m(2) by (simp add: Let_def drop_buf_def)
  have "map pid (map (wake (Some (ChBufLock b))) (ptable s)) = map pid (ptable s)" by (simp add: wake_def)
  then have fr: "bio_frame i s ?t" by (simp add: bio_frame_def)
  have nb: "b \<noteq> NBUF" using B by simp
  note bm = brelse_move_fields [OF nb]
  have rt: "bio_ready i p ?t" "pid (ptable ?t ! p) = pid (ptable s ! p)"
    by (rule bio_ready_frame [OF r fr]; auto simp: bm drop_buf_def)+
  have c: "caches (bufs ?t) n x = caches (bufs s) n x" for n x by (simp add: caches_def bm drop_buf_def)
  have d: "bdirty (bufs ?t x) = bdirty (bufs s x)" "bdata (bufs ?t x) = bdata (bufs s x)" "bvalid (bufs ?t x) = bvalid (bufs s x)"
    "bdev (bufs ?t x) = bdev (bufs s x)" for x
    by (simp_all add: bm drop_buf_def)
  obtain xs where "lru (bufs s) xs" using ok by (auto simp: cache_ok_def)
  then have "lru ?D xs" by (rule lru_upd) (simp_all add: drop_buf_def)
  then have "\<exists>xs. lru (bufs ?t) xs" using brelse_move_lru B by auto
  then have "cache_ok ?t" using ok unfolding cache_ok_def c d by simp
  then have "good i p (H - {b}) ?t" using g rt m(2) by (auto simp: good_def mine_def bm drop_buf_def)
  moreover have "content ?t n = content s n" for n
    by (rule content_cong [OF c]) (use d in \<open>simp_all del: bm\<close>)
  ultimately show thesis using that [OF e fr] c d by (simp add: fun_eq_iff)
qed

section \<open>Initialisation\<close>

lemma upd_buf_links:
  "nexts (bufs (upd_buf w (\<lambda>x. x\<lparr>bnext := k\<rparr>) s)) = (nexts (bufs s))(w := k)" "prevs (bufs (upd_buf w (\<lambda>x. x\<lparr>bnext := k\<rparr>) s)) = prevs (bufs s)"
  "nexts (bufs (upd_buf w (\<lambda>x. x\<lparr>bprev := k\<rparr>) s)) = nexts (bufs s)" "prevs (bufs (upd_buf w (\<lambda>x. x\<lparr>bprev := k\<rparr>) s)) = (prevs (bufs s))(w := k)"
  "nexts (bufs (upd_buf w (\<lambda>x. x\<lparr>blk := f x\<rparr>) s)) = nexts (bufs s)" "prevs (bufs (upd_buf w (\<lambda>x. x\<lparr>blk := f x\<rparr>) s)) = prevs (bufs s)"
  by (auto simp: upd_buf_def nexts_def prevs_def fun_eq_iff)

lemma binit_step_links:
  assumes "b \<noteq> NBUF"
  shows "nexts (bufs (binit_step b s)) = (nexts (bufs s))(b := nexts (bufs s) NBUF, NBUF := b)"
    "prevs (bufs (binit_step b s)) = (prevs (bufs s))(b := NBUF, nexts (bufs s) NBUF := b)"
proof -
  have lf: "bnext (C w) = nexts C w" for C w by (simp add: nexts_def)
  show "nexts (bufs (binit_step b s)) = (nexts (bufs s))(b := nexts (bufs s) NBUF, NBUF := b)"
    "prevs (bufs (binit_step b s)) = (prevs (bufs s))(b := NBUF, nexts (bufs s) NBUF := b)"
    using assms unfolding binit_step_def Let_def lf by (simp_all only: upd_buf_links fun_upd_apply if_False if_cancel)
qed

lemma binit_loop_links:
  assumes "k \<le> NBUF" "seg (nexts (bufs s)) (prevs (bufs s)) NBUF [] NBUF"
  shows "seg (nexts (bufs (fold binit_step [0..<k] s))) (prevs (bufs (fold binit_step [0..<k] s))) NBUF (rev [0..<k]) NBUF"
  using assms(1)
proof (induction k)
  case 0
  then show ?case using assms(2) by simp
next
  case (Suc k)
  let ?s = "fold binit_step [0..<k] s"
  have k: "k \<noteq> NBUF" using Suc.prems by simp
  have "seg (nexts (bufs ?s)) (prevs (bufs ?s)) NBUF (rev [0..<k]) NBUF" using Suc by simp
  then have "seg (nexts (bufs (binit_step k ?s))) (prevs (bufs (binit_step k ?s))) NBUF (k # rev [0..<k]) NBUF"
    unfolding binit_step_links [OF k] by (rule seg_push) (use k Suc.prems in auto)
  then show ?case by simp
qed

lemma binit_lru: "lru (bufs (binit s)) (rev [0..<NBUF])"
proof -
  let ?s = "upd_buf NBUF (\<lambda>x. x\<lparr>bprev := NBUF, bnext := NBUF\<rparr>) (s\<lparr>bcache_lock := initlock ''bcache'' (bcache_lock s)\<rparr>)"
  have "seg (nexts (bufs ?s)) (prevs (bufs ?s)) NBUF [] NBUF" by (simp add: nexts_def prevs_def upd_buf_def)
  from binit_loop_links [OF _ this, of NBUF] show ?thesis by (simp add: lru_def binit_def Let_def del: upt_Suc)
qed

text \<open>The other fields of the buffers: \<^verbatim>\<open>binit\<close> only initialises the locks.\<close>

lemma binit_step_fields:
  "bvalid (bufs (binit_step b s) x) = bvalid (bufs s x)" "bdirty (bufs (binit_step b s) x) = bdirty (bufs s x)"
  "bdev (bufs (binit_step b s) x) = bdev (bufs s x)" "refcnt (bufs (binit_step b s) x) = refcnt (bufs s x)"
  "blk (bufs (binit_step b s) x) = (if x = b then initsleeplock ''buffer'' (blk (bufs s x)) else blk (bufs s x))"
  "disk (binit_step b s) = disk s" "calling i p (binit_step b s) = calling i p s" "bcache_lock (binit_step b s) = bcache_lock s" "disksize (binit_step b s) = disksize s"
  by (simp_all add: binit_step_def upd_buf_def Let_def calling_def proc_ready_def on_cpu_def)

lemma binit_loop_fields:
  assumes "s' = fold binit_step [0..<k] s"
  shows "bvalid (bufs s' x) = bvalid (bufs s x)" "bdirty (bufs s' x) = bdirty (bufs s x)"
    "bdev (bufs s' x) = bdev (bufs s x)" "refcnt (bufs s' x) = refcnt (bufs s x)"
    "blk (bufs s' x) = (if x < k then initsleeplock ''buffer'' (blk (bufs s x)) else blk (bufs s x))"
    "disk s' = disk s" "calling i p s' = calling i p s" "bcache_lock s' = bcache_lock s" "disksize s' = disksize s"
  unfolding assms by (induction k) (auto simp: binit_step_fields)

lemma binit_good:
  assumes "calling i p s" "\<forall>b < NBUF. \<not> bvalid (bufs s b) \<and> \<not> bdirty (bufs s b) \<and> bdev (bufs s b) = 0 \<and> refcnt (bufs s b) = 0"
  shows "good i p {} (binit s) \<and> content (binit s) = disk s"
proof -
  let ?s = "upd_buf NBUF (\<lambda>x. x\<lparr>bprev := NBUF, bnext := NBUF\<rparr>) (s\<lparr>bcache_lock := initlock ''bcache'' (bcache_lock s)\<rparr>)"
  have e: "binit s = fold binit_step [0..<NBUF] ?s" by (simp add: binit_def)
  note f = binit_loop_fields [OF e]
  have z: "\<not> bvalid (bufs (binit s) b) \<and> \<not> bdirty (bufs (binit s) b) \<and> bdev (bufs (binit s) b) = 0 \<and> refcnt (bufs (binit s) b) = 0"
    if "b < NBUF" for b using assms(2) that by (simp add: f upd_buf_def)
  have nc: "\<not> caches (bufs (binit s)) n b" for n b using z by (auto simp: caches_def)
  have "cache_ok (binit s)" using binit_lru [of s] nc z unfolding cache_ok_def by blast
  moreover have "calling i p (binit s)"
    unfolding f(7) using assms(1) by (simp add: upd_buf_def calling_def proc_ready_def on_cpu_def)
  then have "bio_ready i p (binit s)" by (simp add: bio_ready_def f upd_buf_def initlock_def initsleeplock_def)
  moreover have "content (binit s) n = disk s n" for n
    using content_uncached [of "binit s" n] nc by (simp add: f upd_buf_def)
  ultimately show ?thesis
    using z by (simp add: good_def fun_eq_iff) (simp add: f upd_buf_def initsleeplock_def)
qed

text \<open>
  \<^verbatim>\<open>binit\<close> on the zeroed buffers of a fresh kernel establishes the invariant of the buffer cache: the thirty buffers form
  one doubly linked list through the head, all of them free, unlocked and assigned to no block.
\<close>

theorem binit_establishes:
  assumes "calling i p s" "\<forall>b < NBUF. \<not> bvalid (bufs s b) \<and> \<not> bdirty (bufs s b) \<and> bdev (bufs s b) = 0 \<and> refcnt (bufs s b) = 0"
  shows "good i p {} (binit s) \<and> content (binit s) = disk s"
  using assms by (rule binit_good)

theorem binit_establishes_witness: "good 0 0 {} (binit file_demo)"
  using binit_establishes [OF file_demo_calling] by (simp add: file_demo_def zero_buf_def)

text \<open>
  C25: the buffer cache is coherent.  Whoever reads a block gets its current contents, cached or not, in a buffer of its own; if
  some buffer is clean and unused the read cannot fail; and no block's contents, on disk or in memory, change, not even
  those of the block whose buffer is recycled.
\<close>

theorem bread_coherent:
  assumes "good i p H s" "bno < disksize s" "\<forall>b \<in> H. \<not> caches (bufs s) bno b"
    and "(\<exists>b. caches (bufs s) bno b) \<or> (\<exists>b < NBUF. b \<notin> H \<and> \<not> bdirty (bufs s b))"
  shows "\<exists>b t. bread 1 bno s = Ok b t \<and> good i p (insert b H) t \<and> b \<notin> H \<and> bdata (bufs t b) = content s bno
    \<and> content t = content s \<and> disk t = disk s"
  by (rule bread_good [OF assms]) blast

theorem bread_coherent_witness:
  "\<exists>b t. bread 1 3 (binit (file_demo\<lparr>disksize := 10\<rparr>)) = Ok b t \<and> bdata (bufs t b) = (\<lambda>_. 0)"
proof -
  let ?s = "file_demo\<lparr>disksize := 10\<rparr>"
  have "calling 0 0 ?s" using file_demo_calling by (simp add: calling_def proc_ready_def on_cpu_def)
  then have g: "good 0 0 {} (binit ?s) \<and> content (binit ?s) = disk ?s"
    by (rule binit_good) (simp add: file_demo_def zero_buf_def)
  have z: "\<not> bdirty (bufs (binit ?s) 0)" "disksize (binit ?s) = 10"
    by (simp_all add: binit_def binit_loop_fields [OF refl]) (simp_all add: upd_buf_def file_demo_def zero_buf_def)
  have room: "\<exists>b < NBUF. b \<notin> {} \<and> \<not> bdirty (bufs (binit ?s) b)" using z(1) by (intro exI [of _ 0]) simp
  have "disk ?s 3 = (\<lambda>_. 0)" by (simp add: file_demo_def)
  with bread_coherent [OF conjunct1 [OF g] _ _ disjI2 [OF room], of 3] z(2) g show ?thesis by auto
qed

end
