(* ===== verification/Log_Crash.thy ===== *)
theory Log_Crash
  imports Bcache
begin

text \<open>
  Crash safety of the log (\<^verbatim>\<open>log.c\<close>) over the buffer cache.  The disk of the model keeps the sequence of the blocks
  written to it; a crash keeps a prefix of that sequence and loses the cache.  The loops of \<^verbatim>\<open>commit\<close> and
  \<^verbatim>\<open>recover_from_log\<close> are executed symbolically to the writes they issue (\<open>wrote\<close>), and the rest is reasoning about sequences
  of writes (\<open>apply_writes\<close>).
\<close>

section \<open>Frames\<close>

lemma bio_frame_log:
  assumes "bio_frame i s t"
  shows "log_dev t = log_dev s" "log_start t = log_start s" "lh_n t = lh_n s" "lh_block t = lh_block s"
    "log_lock t = log_lock s" "log_size t = log_size s" "outstanding t = outstanding s"
proof -
  have t: "t = (settled i s)\<lparr>bufs := bufs t, disk := disk t, dwrites := dwrites t, ptable := ptable t\<rparr>"
    using assms by (simp add: bio_frame_def)
  show "log_dev t = log_dev s" "log_start t = log_start s" "lh_n t = lh_n s" "lh_block t = lh_block s"
    "log_lock t = log_lock s" "log_size t = log_size s" "outstanding t = outstanding s"
    by (subst t, simp add: settled_def)+
qed

lemma bio_frame_size: "bio_frame i s t \<Longrightarrow> disksize t = disksize s"
proof -
  assume "bio_frame i s t"
  then have t: "t = (settled i s)\<lparr>bufs := bufs t, disk := disk t, dwrites := dwrites t, ptable := ptable t\<rparr>"
    by (simp add: bio_frame_def)
  show ?thesis by (subst t) simp
qed

lemma good_log_upd [simp]:
  "good i p H (s\<lparr>lh_n := n\<rparr>) = good i p H s" "good i p H (s\<lparr>lh_block := f\<rparr>) = good i p H s"
  by (simp_all add: good_def bio_ready_def cache_ok_def mine_def calling_def proc_ready_def on_cpu_def)

lemma content_log_upd [simp]: "content (s\<lparr>lh_n := n\<rparr>) = content s" "content (s\<lparr>lh_block := f\<rparr>) = content s"
  by (rule ext, rule content_cong; simp)+

section \<open>Copying a block\<close>

text \<open>Dirty buffers keep their blocks.\<close>

definition keeps_dirty :: "(nat \<Rightarrow> buf) \<Rightarrow> (nat \<Rightarrow> buf) \<Rightarrow> bool" where
  "keeps_dirty B B' \<longleftrightarrow> (\<forall>b n. bdirty (B b) \<longrightarrow> caches B' n b = caches B n b)"

lemma bread_keeps:
  assumes "good i p H s" "bno < disksize s" "\<forall>b \<in> H. \<not> caches (bufs s) bno b"
    and "(\<exists>b. caches (bufs s) bno b) \<or> (\<exists>b < NBUF. b \<notin> H \<and> \<not> bdirty (bufs s b))"
  obtains b t where "bread 1 bno s = Ok b t" "bio_frame i s t" "good i p (insert b H) t" "b \<notin> H" "caches (bufs t) bno b"
    "bdata (bufs t b) = content s bno" "content t = content s" "disk t = disk s" "dwrites t = dwrites s"
    "\<And>x. bdirty (bufs t x) = bdirty (bufs s x)" "\<And>x. x \<noteq> b \<Longrightarrow> bufs t x = bufs s x" "keeps_dirty (bufs s) (bufs t)"
proof -
  obtain b t where o: "bread 1 bno s = Ok b t" "bio_frame i s t" "good i p (insert b H) t" "b \<notin> H" "caches (bufs t) bno b"
    "bdata (bufs t b) = content s bno" "content t = content s" "disk t = disk s" "dwrites t = dwrites s"
    "\<And>x. bdirty (bufs t x) = bdirty (bufs s x)" "\<And>x. x \<noteq> b \<Longrightarrow> bufs t x = bufs s x" "caches (bufs s) bno b \<or> \<not> bdirty (bufs s b)"
    by (rule bread_good [OF assms]) blast
  have "keeps_dirty (bufs s) (bufs t)"
    unfolding keeps_dirty_def
  proof (intro allI impI)
    fix x n assume d: "bdirty (bufs s x)"
    show "caches (bufs t) n x = caches (bufs s) n x"
    proof (cases "x = b")
      case True
      then have "caches (bufs s) bno b" using d o(12) by blast
      then show ?thesis using True o(5) by (auto simp: caches_def)
    qed (use o(11) in \<open>simp add: caches_def\<close>)
  qed
  then show thesis using that [OF o(1-11)] by blast
qed

text \<open>Two different blocks at a time.\<close>

lemma read_two:
  assumes g: "good i p {} s" and xy: "x \<noteq> y" "x < disksize s" "y < disksize s"
    and room: "\<exists>b < NBUF. \<not> bdirty (bufs s b)"
    and room2: "(\<exists>b. caches (bufs s) y b \<and> bdirty (bufs s b)) \<or> (\<forall>b < NBUF. \<not> bdirty (bufs s b))"
  obtains b1 t1 b2 t where "bread 1 x s = Ok b1 t1" "bio_frame i s t1" "bread 1 y t1 = Ok b2 t" "bio_frame i s t"
    "good i p {b1, b2} t" "b1 \<noteq> b2" "caches (bufs t) x b1" "caches (bufs t) y b2" "bdata (bufs t b1) = content s x" "bdata (bufs t b2) = content s y"
    "content t = content s" "disk t = disk s" "dwrites t = dwrites s" "\<And>x. bdirty (bufs t x) = bdirty (bufs s x)" "keeps_dirty (bufs s) (bufs t)"
proof -
  obtain b1 t1 where o: "bread 1 x s = Ok b1 t1" "bio_frame i s t1" "good i p {b1} t1" "caches (bufs t1) x b1"
    "bdata (bufs t1 b1) = content s x" "content t1 = content s" "disk t1 = disk s" "dwrites t1 = dwrites s"
    "\<And>x. bdirty (bufs t1 x) = bdirty (bufs s x)" "keeps_dirty (bufs s) (bufs t1)"
    by (rule bread_keeps [OF g xy(2)]) (use room in auto)
  have y1: "y < disksize t1" "\<forall>b \<in> {b1}. \<not> caches (bufs t1) y b" using xy o(4) bio_frame_size [OF o(2)] by (auto simp: caches_def)
  have "(\<exists>b. caches (bufs t1) y b) \<or> (\<exists>b < NBUF. b \<notin> {b1} \<and> \<not> bdirty (bufs t1 b))"
  proof (cases "\<exists>b. caches (bufs s) y b \<and> bdirty (bufs s b)")
    case True
    then show ?thesis using o(10) unfolding keeps_dirty_def by blast
  next
    case False
    then have "\<not> bdirty (bufs t1 0)" "\<not> bdirty (bufs t1 1)" using room2 o(9) by auto
    then show ?thesis by (intro disjI2 exI [of _ "if b1 = 0 then 1 else 0"]) auto
  qed
  then obtain b2 t where q: "bread 1 y t1 = Ok b2 t" "bio_frame i t1 t" "good i p (insert b2 {b1}) t" "b2 \<notin> {b1}" "caches (bufs t) y b2"
    "bdata (bufs t b2) = content t1 y" "content t = content t1" "disk t = disk t1" "dwrites t = dwrites t1"
    "\<And>x. bdirty (bufs t x) = bdirty (bufs t1 x)" "\<And>x. x \<noteq> b2 \<Longrightarrow> bufs t x = bufs t1 x" "keeps_dirty (bufs t1) (bufs t)"
    by (rule bread_keeps [OF o(3) y1]) blast
  have k: "keeps_dirty (bufs s) (bufs t)" using o(9,10) q(12) unfolding keeps_dirty_def by simp
  have b: "bufs t b1 = bufs t1 b1" by (rule q(11)) (use q(4) in simp)
  show thesis
    by (rule that [OF o(1,2) q(1) bio_frame_trans [OF o(2) q(2)]])
      (use o q b k in \<open>auto simp: caches_def insert_commute\<close>)
qed
text \<open>Writing one of two held buffers and releasing both, in either order.\<close>

lemma write_and_release:
  assumes g: "good i p {b1, b2} s" and d: "dst \<in> {b1, b2}" "caches (bufs s) n dst" "n < disksize s"
    and uv: "{u, v} = {b1, b2}" "u \<noteq> v"
  obtains t1 t2 t where "bwrite dst (upd_buf dst (\<lambda>x. x\<lparr>bdata := c\<rparr>) s) = Ok () t1" "brelse u t1 = Ok () t2" "brelse v t2 = Ok () t"
    "bio_frame i s t1" "bio_frame i s t2" "bio_frame i s t" "good i p {} t" "content t = (content s)(n := c)" "disk t = (disk s)(n := c)"
    "dwrites t = dwrites s @ [(n, c)]" "\<And>x. bdirty (bufs t x) = (if x = dst then False else bdirty (bufs s x))"
    "\<And>x m. caches (bufs t) m x = caches (bufs s) m x"
proof -
  obtain t1 where a: "bwrite dst (upd_buf dst (\<lambda>x. x\<lparr>bdata := c\<rparr>) s) = Ok () t1" "bio_frame i s t1" "good i p {b1, b2} t1"
    "bufs t1 = (bufs s)(dst := (bufs s dst)\<lparr>bdata := c, bdirty := False, bvalid := True\<rparr>)"
    "disk t1 = (disk s)(n := c)" "dwrites t1 = dwrites s @ [(n, c)]" "content t1 = (content s)(n := c)"
    by (rule bwrite_good [OF g d]) blast
  have "u \<in> {b1, b2}" using uv by auto
  then obtain t2 where b: "brelse u t1 = Ok () t2" "bio_frame i t1 t2" "good i p ({b1, b2} - {u}) t2" "content t2 = content t1" "disk t2 = disk t1"
    "dwrites t2 = dwrites t1" "\<And>x n. caches (bufs t2) n x = caches (bufs t1) n x" "\<And>x. bdirty (bufs t2 x) = bdirty (bufs t1 x)"
    by (rule brelse_good [OF a(3)]) blast
  have "v \<in> {b1, b2} - {u}" using uv by auto
  then obtain t where r: "brelse v t2 = Ok () t" "bio_frame i t2 t" "good i p ({b1, b2} - {u} - {v}) t" "content t = content t2" "disk t = disk t2"
    "dwrites t = dwrites t2" "\<And>x n. caches (bufs t) n x = caches (bufs t2) n x" "\<And>x. bdirty (bufs t x) = bdirty (bufs t2 x)"
    by (rule brelse_good [OF b(3)]) blast
  have e: "{b1, b2} - {u} - {v} = {}" using uv by auto
  have d1: "bdirty (bufs t x) = (if x = dst then False else bdirty (bufs s x))" for x by (simp add: r(8) b(8) a(4))
  have "caches (bufs t1) m x = caches (bufs s) m x" for m x by (simp add: a(4) caches_def)
  then have c1: "caches (bufs t) m x = caches (bufs s) m x" for m x by (simp add: r(7) b(7))
  show thesis
    by (rule that [OF a(1) b(1) r(1) a(2) bio_frame_trans [OF a(2) b(2)] bio_frame_trans [OF bio_frame_trans [OF a(2) b(2)] r(2)]])
      (use r(3-6) a(5-7) b(4-6) d1 c1 e in simp_all)
qed

section \<open>Transactions\<close>

text \<open>
  The layout that a log with room for \<open>n\<close> blocks and a transaction with the blocks \<open>bl\<close> must have: everything on
  disk, the blocks distinct and outside of the log area.
\<close>

definition layout_ok :: "nat \<Rightarrow> (nat \<Rightarrow> u32) \<Rightarrow> 'z log_st_scheme \<Rightarrow> bool" where
  "layout_ok n bl s \<longleftrightarrow> log_dev s = 1 \<and> n \<le> 29 \<and> unat (log_start s) + n < unat (disksize s)
     \<and> (\<forall>j < n. bl j < disksize s) \<and> inj_on bl {0..<n}
     \<and> (\<forall>j < n. \<forall>k \<le> n. bl j \<noteq> log_start s + of_nat k)"

text \<open>The dirty buffers are those of the blocks in \<open>D\<close>, each of which has one.\<close>

definition pinned :: "u32 set \<Rightarrow> 'z bio_st_scheme \<Rightarrow> bool" where
  "pinned D s \<longleftrightarrow> (\<forall>b < NBUF. bdirty (bufs s b) \<longleftrightarrow> (\<exists>m \<in> D. caches (bufs s) m b))
     \<and> (\<forall>m \<in> D. \<exists>b. caches (bufs s) m b)"

lemma pinned_room:
  assumes "cache_ok s" "pinned D s" "finite D" "card D \<le> 29"
  shows "\<exists>b < NBUF. \<not> bdirty (bufs s b)"
proof (rule ccontr)
  assume "\<not> ?thesis"
  then have "\<forall>b < NBUF. \<exists>m \<in> D. caches (bufs s) m b" using assms(2) by (simp add: pinned_def)
  then obtain f where f: "\<And>b. b < NBUF \<Longrightarrow> f b \<in> D \<and> caches (bufs s) (f b) b" by metis
  have "inj_on f {0..<NBUF}"
  proof (rule inj_onI)
    fix x y assume "x \<in> {0..<NBUF}" "y \<in> {0..<NBUF}" "f x = f y"
    then have "caches (bufs s) (f x) x" "caches (bufs s) (f x) y" using f [of x] f [of y] by auto
    then show "x = y" using assms(1) unfolding cache_ok_def by blast
  qed
  moreover have "f ` {0..<NBUF} \<subseteq> D" using f by auto
  ultimately have "NBUF \<le> card D" using card_inj_on_le [of f "{0..<NBUF}" D] assms(3) by simp
  with assms(4) show False by simp
qed

lemma pinned_dirty:
  assumes "pinned D s" "m \<in> D"
  shows "\<exists>b. caches (bufs s) m b \<and> bdirty (bufs s b)"
proof -
  obtain b where b: "caches (bufs s) m b" using assms by (auto simp: pinned_def)
  then have "b < NBUF" by (simp add: caches_def)
  then show ?thesis using assms b unfolding pinned_def by blast
qed

lemma pinned_content:
  assumes "cache_ok s" "pinned D s" "m \<notin> D"
  shows "content s m = disk s m"
proof (cases "\<exists>b. caches (bufs s) m b \<and> bvalid (bufs s b)")
  case True
  then obtain b where b: "caches (bufs s) m b" "bvalid (bufs s b)" by blast
  have "\<not> bdirty (bufs s b)" using b(1) assms(2,3) by (auto simp: pinned_def caches_def)
  then have "bdata (bufs s b) = disk s m" using b assms(1) unfolding cache_ok_def by blast
  then show ?thesis using content_cached [OF assms(1) b] by simp
qed (use content_uncached in blast)

text \<open>After a write to block \<open>w\<close> through \<open>dst\<close>, block \<open>w\<close> is clean and the other blocks are as before.\<close>

lemma pinned_write:
  assumes "cache_ok s" "pinned D s" "keeps_dirty (bufs s) (bufs t')"
    and "cache_ok t'" "\<And>x. bdirty (bufs t' x) = bdirty (bufs s x)"
    and "caches (bufs t') w dst" "\<And>x. bdirty (bufs t x) = (if x = dst then False else bdirty (bufs t' x))"
    "\<And>x m. caches (bufs t) m x = caches (bufs t') m x"
  shows "pinned (D - {w}) t"
proof -
  have u: "caches (bufs t') n x \<Longrightarrow> caches (bufs t') n x' \<Longrightarrow> x = x'" for n x x' using assms(4) unfolding cache_ok_def by blast
  have D: "\<exists>b. caches (bufs t') m b \<and> bdirty (bufs t' b)" if m: "m \<in> D" for m
  proof -
    obtain b where "caches (bufs s) m b" "bdirty (bufs s b)" using pinned_dirty [OF assms(2) m] by blast
    then show ?thesis using assms(3,5) unfolding keeps_dirty_def by blast
  qed
  have dm: "\<exists>m \<in> D. caches (bufs t') m b" if b: "b < NBUF" "bdirty (bufs t' b)" for b
  proof -
    have d: "bdirty (bufs s b)" using b assms(5) by simp
    then obtain m where "m \<in> D" "caches (bufs s) m b" using b(1) assms(2) by (auto simp: pinned_def)
    then show ?thesis using assms(3) d unfolding keeps_dirty_def by blast
  qed
  have "bdirty (bufs t b) \<longleftrightarrow> (\<exists>m \<in> D - {w}. caches (bufs t) m b)" if b: "b < NBUF" for b
  proof (cases "b = dst")
    case True
    have "m = w" if "caches (bufs t') m dst" for m using that assms(6) by (simp add: caches_def)
    then show ?thesis using True by (auto simp: assms(7,8))
  next
    case False
    show ?thesis
    proof
      assume "bdirty (bufs t b)"
      then have "bdirty (bufs t' b)" using False by (simp add: assms(7))
      then obtain m where m: "m \<in> D" "caches (bufs t') m b" using dm b by blast
      moreover have "m \<noteq> w" using u [OF assms(6), of b] m(2) False by blast
      ultimately show "\<exists>m \<in> D - {w}. caches (bufs t) m b" by (auto simp: assms(8))
    next
      assume "\<exists>m \<in> D - {w}. caches (bufs t) m b"
      then obtain m where m: "m \<in> D" "caches (bufs t') m b" by (auto simp: assms(8))
      then obtain b' where "caches (bufs t') m b'" "bdirty (bufs t' b')" using D by blast
      then show "bdirty (bufs t b)" using u [OF m(2)] False by (auto simp: assms(7))
    qed
  qed
  moreover have "\<exists>b. caches (bufs t) m b" if "m \<in> D - {w}" for m using D [of m] that by (auto simp: assms(8))
  ultimately show ?thesis by (simp add: pinned_def)
qed

lemma log_block:
  assumes "layout_ok n bl s" "k \<le> n"
  shows "log_start s + of_nat k < disksize s" "j < n \<Longrightarrow> bl j \<noteq> log_start s + of_nat k"
    "k' \<le> n \<Longrightarrow> log_start s + of_nat k = log_start s + of_nat k' \<longleftrightarrow> k = k'"
proof -
  have u: "unat (of_nat x :: u32) = x" if "x \<le> n" for x using assms(1) that by (intro unat_of_nat_u32) (simp add: layout_ok_def)
  have "unat (log_start s + of_nat k) \<le> unat (log_start s) + k" using unat_add_le [of "log_start s" "of_nat k"] u [OF assms(2)] by simp
  then show "log_start s + of_nat k < disksize s" using assms by (simp add: layout_ok_def word_less_nat_alt)
  show "j < n \<Longrightarrow> bl j \<noteq> log_start s + of_nat k" using assms by (simp add: layout_ok_def)
  show "k' \<le> n \<Longrightarrow> log_start s + of_nat k = log_start s + of_nat k' \<longleftrightarrow> k = k'" using u assms(2) by (metis add_left_cancel)
qed


section \<open>Sequences of disk writes\<close>

definition apply_writes :: "(u32 \<times> block) list \<Rightarrow> (u32 \<Rightarrow> block) \<Rightarrow> (u32 \<Rightarrow> block)" where
  "apply_writes ws d = fold (\<lambda>w d. d(fst w := snd w)) ws d"

lemma apply_writes_simps [simp]:
  "apply_writes [] d = d" "apply_writes (w # ws) d = apply_writes ws (d(fst w := snd w))"
  "apply_writes (us @ ws) d = apply_writes ws (apply_writes us d)"
  by (simp_all add: apply_writes_def)

lemma apply_writes_other: "m \<notin> fst ` set ws \<Longrightarrow> apply_writes ws d m = d m"
  by (induction ws arbitrary: d) auto

lemma apply_writes_map:
  "inj_on f (set ks) \<Longrightarrow> k \<in> set ks \<Longrightarrow> apply_writes (map (\<lambda>k. (f k, g k)) ks) d (f k) = g k"
proof (induction ks arbitrary: d)
  case (Cons j ks)
  show ?case
  proof (cases "k \<in> set ks")
    case False
    then have "j = k" "f k \<notin> f ` set ks" using Cons.prems by (auto simp: inj_on_def)
    then show ?thesis using apply_writes_other [of "f k" "map (\<lambda>k. (f k, g k)) ks"] by (auto simp: image_iff)
  qed (use Cons in auto)
qed simp

text \<open>A step of the log: the observable effect of writing the blocks \<open>ws\<close>.\<close>

definition wrote :: "nat \<Rightarrow> nat \<Rightarrow> (u32 \<times> block) list \<Rightarrow> 'z log_st_scheme \<Rightarrow> 'z log_st_scheme \<Rightarrow> bool" where
  "wrote i p ws s t \<longleftrightarrow> good i p {} t \<and> content t = apply_writes ws (content s) \<and> disk t = apply_writes ws (disk s)
     \<and> dwrites t = dwrites s @ ws \<and> disksize t = disksize s
     \<and> log_dev t = log_dev s \<and> log_start t = log_start s"

lemma wrote_trans: "wrote i p us s t \<Longrightarrow> wrote i p ws t u \<Longrightarrow> wrote i p (us @ ws) s u"
  by (simp add: wrote_def)

lemma wrote_frame:
  assumes "bio_frame i s t" "good i p {} t" "content t = (content s)(w := c)" "disk t = (disk s)(w := c)" "dwrites t = dwrites s @ [(w, c)]"
  shows "wrote i p [(w, c)] s t"
  using assms by (simp add: wrote_def bio_frame_log [OF assms(1)] bio_frame_size [OF assms(1)])

lemma write_log_step:
  assumes g: "good i p {} s" and dev: "log_dev s = 1" and D: "pinned D s" "finite D" "card D \<le> 29"
    and x: "x = log_start s + of_nat k + 1" "x < disksize s" "x \<notin> D" and y: "lh_block s k \<in> D" "lh_block s k < disksize s"
  obtains t where "write_log_loop (k # ks) s = write_log_loop ks t" "wrote i p [(x, content s (lh_block s k))] s t" "pinned D t"
    "lh_n t = lh_n s" "lh_block t = lh_block s"
proof -
  let ?y = "lh_block s k"
  have ok: "cache_ok s" using g by (simp add: good_def)
  have ne: "x \<noteq> ?y" using x(3) y(1) by blast
  obtain b1 t1 b2 t2 where r: "bread 1 x s = Ok b1 t1" "bio_frame i s t1" "bread 1 ?y t1 = Ok b2 t2" "bio_frame i s t2"
    "good i p {b1, b2} t2" "b1 \<noteq> b2" "caches (bufs t2) x b1" "bdata (bufs t2 b2) = content s ?y"
    "content t2 = content s" "disk t2 = disk s" "dwrites t2 = dwrites s" "\<And>x. bdirty (bufs t2 x) = bdirty (bufs s x)" "keeps_dirty (bufs s) (bufs t2)"
    by (rule read_two [OF g ne x(2) y(2) pinned_room [OF ok D] disjI1 [OF pinned_dirty [OF D(1) y(1)]]]) blast
  have x2: "x < disksize t2" using x(2) bio_frame_size [OF r(4)] by simp
  obtain t3 t4 t where w: "bwrite b1 (upd_buf b1 (\<lambda>z. z\<lparr>bdata := content s ?y\<rparr>) t2) = Ok () t3" "brelse b2 t3 = Ok () t4" "brelse b1 t4 = Ok () t"
    "bio_frame i t2 t" "good i p {} t" "content t = (content t2)(x := content s ?y)" "disk t = (disk t2)(x := content s ?y)"
    "dwrites t = dwrites t2 @ [(x, content s ?y)]" "\<And>z. bdirty (bufs t z) = (if z = b1 then False else bdirty (bufs t2 z))"
    "\<And>z m. caches (bufs t) m z = caches (bufs t2) m z"
    by (rule write_and_release [OF r(5) _ r(7) x2, of b2 b1 "content s ?y"]) (use r(6) in auto)
  have f: "bio_frame i s t" by (rule bio_frame_trans [OF r(4) w(4)])
  have "pinned (D - {x}) t"
    by (rule pinned_write [OF ok D(1) r(13) _ r(12) r(7) w(9,10)]) (use r(5) in \<open>simp add: good_def\<close>)
  then have "pinned D t" using x(3) by simp
  moreover have "write_log_loop (k # ks) s = write_log_loop ks t"
    using r w by (simp add: dev x(1) [symmetric] bio_frame_log [OF r(2)])
  moreover have "wrote i p [(x, content s ?y)] s t" by (rule wrote_frame [OF f w(5)]) (simp_all add: w r)
  ultimately show thesis using that bio_frame_log [OF f] by blast
qed

lemma install_step:
  assumes g: "good i p {} s" and dev: "log_dev s = 1" and D: "pinned D s" "finite D" "card D \<le> 29"
    and x: "x = log_start s + of_nat k + 1" "x < disksize s" and y: "lh_block s k \<in> D \<or> D = {}" "lh_block s k < disksize s" "x \<noteq> lh_block s k"
  obtains t where "install_trans_loop (k # ks) s = install_trans_loop ks t" "wrote i p [(lh_block s k, content s x)] s t"
    "pinned (D - {lh_block s k}) t" "lh_n t = lh_n s" "lh_block t = lh_block s"
proof -
  let ?y = "lh_block s k"
  have ok: "cache_ok s" using g by (simp add: good_def)
  have room: "(\<exists>b. caches (bufs s) ?y b \<and> bdirty (bufs s b)) \<or> (\<forall>b < NBUF. \<not> bdirty (bufs s b))"
    using y(1) pinned_dirty [OF D(1), of ?y] D(1) by (auto simp: pinned_def)
  obtain b1 t1 b2 t2 where r: "bread 1 x s = Ok b1 t1" "bio_frame i s t1" "bread 1 ?y t1 = Ok b2 t2" "bio_frame i s t2"
    "good i p {b1, b2} t2" "b1 \<noteq> b2" "caches (bufs t2) ?y b2" "bdata (bufs t2 b1) = content s x"
    "content t2 = content s" "disk t2 = disk s" "dwrites t2 = dwrites s" "\<And>x. bdirty (bufs t2 x) = bdirty (bufs s x)" "keeps_dirty (bufs s) (bufs t2)"
    by (rule read_two [OF g y(3) x(2) y(2) pinned_room [OF ok D] room]) blast
  have y2: "?y < disksize t2" using y(2) bio_frame_size [OF r(4)] by simp
  obtain t3 t4 t where w: "bwrite b2 (upd_buf b2 (\<lambda>z. z\<lparr>bdata := content s x\<rparr>) t2) = Ok () t3" "brelse b1 t3 = Ok () t4" "brelse b2 t4 = Ok () t"
    "bio_frame i t2 t" "good i p {} t" "content t = (content t2)(?y := content s x)" "disk t = (disk t2)(?y := content s x)"
    "dwrites t = dwrites t2 @ [(?y, content s x)]" "\<And>z. bdirty (bufs t z) = (if z = b2 then False else bdirty (bufs t2 z))"
    "\<And>z m. caches (bufs t) m z = caches (bufs t2) m z"
    by (rule write_and_release [OF r(5) _ r(7) y2, of b1 b2 "content s x"]) (use r(6) in auto)
  have f: "bio_frame i s t" by (rule bio_frame_trans [OF r(4) w(4)])
  have "pinned (D - {?y}) t"
    by (rule pinned_write [OF ok D(1) r(13) _ r(12) r(7) w(9,10)]) (use r(5) in \<open>simp add: good_def\<close>)
  moreover have "install_trans_loop (k # ks) s = install_trans_loop ks t"
    using r w by (simp add: dev x(1) [symmetric] bio_frame_log [OF r(2)])
  moreover have "wrote i p [(?y, content s x)] s t" by (rule wrote_frame [OF f w(5)]) (simp_all add: w r)
  ultimately show thesis using that bio_frame_log [OF f] by blast
qed

section \<open>The header block\<close>

lemma read_one:
  assumes g: "good i p {} s" and x: "x < disksize s" and D: "pinned D s" "finite D" "card D \<le> 29"
  obtains b t where "bread 1 x s = Ok b t" "bio_frame i s t" "good i p {b} t" "caches (bufs t) x b" "bdata (bufs t b) = content s x"
    "content t = content s" "disk t = disk s" "dwrites t = dwrites s" "\<And>x. bdirty (bufs t x) = bdirty (bufs s x)" "keeps_dirty (bufs s) (bufs t)"
  by (rule bread_keeps [OF g x]) (use pinned_room [OF _ D] g in \<open>auto simp: good_def\<close>)

lemma write_head_step:
  assumes g: "good i p {} s" and dev: "log_dev s = 1" and D: "pinned D s" "finite D" "card D \<le> 29"
    and x: "log_start s < disksize s" "log_start s \<notin> D"
    and d: "d = encode_head [0..<nat (lh_n s)] (lh_block s) (store32 (content s (log_start s)) 0 (of_int (lh_n s)))"
  obtains t where "write_head s = Ok () t" "wrote i p [(log_start s, d)] s t" "pinned D t" "lh_n t = lh_n s" "lh_block t = lh_block s"
proof -
  let ?x = "log_start s"
  have ok: "cache_ok s" using g by (simp add: good_def)
  obtain b t1 where r: "bread 1 ?x s = Ok b t1" "bio_frame i s t1" "good i p {b} t1" "caches (bufs t1) ?x b" "bdata (bufs t1 b) = content s ?x"
    "content t1 = content s" "disk t1 = disk s" "dwrites t1 = dwrites s" "\<And>x. bdirty (bufs t1 x) = bdirty (bufs s x)" "keeps_dirty (bufs s) (bufs t1)"
    by (rule read_one [OF g x(1) D]) blast
  have x1: "?x < disksize t1" using x(1) bio_frame_size [OF r(2)] by simp
  obtain t2 where a: "bwrite b (upd_buf b (\<lambda>x. x\<lparr>bdata := d\<rparr>) t1) = Ok () t2" "bio_frame i t1 t2" "good i p {b} t2"
    "bufs t2 = (bufs t1)(b := (bufs t1 b)\<lparr>bdata := d, bdirty := False, bvalid := True\<rparr>)"
    "disk t2 = (disk t1)(?x := d)" "dwrites t2 = dwrites t1 @ [(?x, d)]" "content t2 = (content t1)(?x := d)"
    by (rule bwrite_good [OF r(3) _ r(4) x1]) blast+
  obtain t where c: "brelse b t2 = Ok () t" "bio_frame i t2 t" "good i p ({b} - {b}) t" "content t = content t2" "disk t = disk t2"
    "dwrites t = dwrites t2" "\<And>x n. caches (bufs t) n x = caches (bufs t2) n x" "\<And>x. bdirty (bufs t x) = bdirty (bufs t2 x)"
    by (rule brelse_good [OF a(3)]) blast+
  have f: "bio_frame i s t" by (rule bio_frame_trans [OF r(2) bio_frame_trans [OF a(2) c(2)]])
  have "caches (bufs t2) m x = caches (bufs t1) m x" for m x by (simp add: a(4) caches_def)
  then have "pinned (D - {?x}) t"
    by (intro pinned_write [OF ok D(1) r(10) _ r(9) r(4)]) (use r(3) in \<open>simp_all add: good_def c a(4)\<close>)
  then have "pinned D t" using x(2) by simp
  moreover have "write_head s = Ok () t"
    using r a c by (simp add: write_head_def dev bio_frame_log [OF r(2)] d Let_def)
  moreover have "wrote i p [(?x, d)] s t" by (rule wrote_frame [OF f]) (use c(3) in \<open>simp_all add: c a r\<close>)
  ultimately show thesis using that bio_frame_log [OF f] by blast
qed

lemma read_head_step:
  assumes g: "good i p {} s" and dev: "log_dev s = 1" and D: "pinned {} s"
    and x: "log_start s < disksize s" and n: "nat (sint (load32 (disk s (log_start s)) 0)) = n"
  obtains t where "read_head s = Ok () t" "wrote i p [] s t" "pinned {} t" "lh_n t = sint (load32 (disk s (log_start s)) 0)"
    "\<And>k. k < n \<Longrightarrow> lh_block t k = load32 (disk s (log_start s)) (head_slot k)"
proof -
  let ?x = "log_start s" and ?d = "disk s (log_start s)"
  have ok: "cache_ok s" using g by (simp add: good_def)
  have e: "content s ?x = ?d" by (rule pinned_content [OF ok D]) simp
  obtain b t1 where r: "bread 1 ?x s = Ok b t1" "bio_frame i s t1" "good i p {b} t1" "caches (bufs t1) ?x b" "bdata (bufs t1 b) = ?d"
    "content t1 = content s" "disk t1 = disk s" "dwrites t1 = dwrites s" "\<And>x. bdirty (bufs t1 x) = bdirty (bufs s x)"
    by (rule read_one [OF g x D]) (use e in auto)
  define t2 where "t2 = t1\<lparr>lh_n := sint (load32 ?d 0), lh_block := (\<lambda>i. if i < nat (sint (load32 ?d 0)) then load32 ?d (head_slot i) else lh_block t1 i)\<rparr>"
  have g2: "good i p {b} t2" using r(3) by (simp add: t2_def)
  obtain t where c: "brelse b t2 = Ok () t" "bio_frame i t2 t" "good i p ({b} - {b}) t" "content t = content t2" "disk t = disk t2"
    "dwrites t = dwrites t2" "\<And>x n. caches (bufs t) n x = caches (bufs t2) n x" "\<And>x. bdirty (bufs t x) = bdirty (bufs t2 x)"
    by (rule brelse_good [OF g2]) blast+
  note fl = bio_frame_log [OF r(2)] bio_frame_size [OF r(2)] bio_frame_log [OF c(2)] bio_frame_size [OF c(2)]
  have "read_head s = Ok () t" using r(1,5) c(1) by (simp add: read_head_def dev Let_def t2_def cong: if_cong)
  moreover have "wrote i p [] s t" using c(3) by (simp add: wrote_def c(4-6) fl) (simp add: t2_def r fl)
  moreover have "pinned {} t" using D by (simp add: pinned_def c(8)) (simp add: t2_def r(9))
  moreover have "lh_n t = sint (load32 ?d 0)" "k < n \<Longrightarrow> lh_block t k = load32 ?d (head_slot k)" for k
    using n by (simp_all add: fl) (simp_all add: t2_def)
  ultimately show thesis using that by blast
qed

lemma head_slot_eq: "head_slot k = of_nat (4 + 4 * k)"
  by (simp add: head_slot_def)

lemma head_slot_apart:
  assumes "k < 100"
  shows "4 \<le> head_slot k" "4 \<le> 0 - head_slot k"
  using of_nat_apart [of "4 + 4 * k" 0] of_nat_apart [of 0 "4 + 4 * k"] assms by (simp_all add: head_slot_eq)

lemma head_slots_apart:
  assumes "k < 100" "j < 100" "j \<noteq> k"
  shows "4 \<le> head_slot k - head_slot j"
  unfolding head_slot_eq by (rule of_nat_apart) (use assms in auto)

lemma encode_head_count:
  "n < 100 \<Longrightarrow> load32 (encode_head [0..<n] B d) 0 = load32 d 0"
  unfolding encode_head_def
proof (induction n)
  case (Suc n)
  then show ?case using head_slot_apart [of n] by (simp add: load32_store32_other)
qed simp

lemma encode_head_block:
  "n < 100 \<Longrightarrow> k < n \<Longrightarrow> load32 (encode_head [0..<n] B d) (head_slot k) = B k"
  unfolding encode_head_def
proof (induction n)
  case (Suc n)
  show ?case
  proof (cases "k = n")
    case True
    then show ?thesis by (simp add: load32_store32)
  next
    case False
    then have "4 \<le> head_slot k - head_slot n" "4 \<le> head_slot n - head_slot k" using Suc.prems by (auto intro!: head_slots_apart)
    then show ?thesis using Suc False by (simp add: load32_store32_other)
  qed
qed simp

section \<open>The loops of the log\<close>

lemma write_log_loop_wrote:
  assumes "good i p {} s" "layout_ok n bl s" "pinned D s" "finite D" "card D \<le> 29"
    and "D = bl ` {0..<n}" "\<And>k. k < n \<Longrightarrow> lh_block s k = bl k" "set ks \<subseteq> {0..<n}"
  obtains t where "write_log_loop ks s = Ok () t" "wrote i p (map (\<lambda>k. (log_start s + of_nat (k + 1), content s (bl k))) ks) s t" "pinned D t"
    "lh_n t = lh_n s" "lh_block t = lh_block s"
  using assms
proof (induction ks arbitrary: s thesis)
  case Nil
  then show ?case by (simp add: wrote_def)
next
  case (Cons k ks)
  note pr = Cons.prems
  let ?x = "log_start s + of_nat (k + 1)"
  have k: "k < n" "k + 1 \<le> n" using pr(9) by auto
  have xD: "?x \<notin> D" using log_block(2) [OF pr(3) k(2)] unfolding pr(7) by fastforce
  have dev: "log_dev s = 1" and yd: "lh_block s k < disksize s" using pr(3) k(1) by (simp_all add: layout_ok_def pr(8))
  have y: "lh_block s k \<in> D" "?x = log_start s + of_nat k + 1" using k by (auto simp: pr(7,8))
  obtain t where t: "write_log_loop (k # ks) s = write_log_loop ks t" "wrote i p [(?x, content s (lh_block s k))] s t" "pinned D t"
    "lh_n t = lh_n s" "lh_block t = lh_block s"
    by (rule write_log_step [OF pr(2) dev pr(4-6) y(2) log_block(1) [OF pr(3) k(2)] xD y(1) yd]) blast
  have c: "content t (bl j) = content s (bl j)" if "j < n" for j
    using t(2) log_block(2) [OF pr(3) k(2) that] by (simp add: wrote_def)
  have W: "good i p {} t" "log_start t = log_start s" "layout_ok n bl t" using t(2) pr(3) by (simp_all add: wrote_def layout_ok_def)
  obtain u where u: "write_log_loop ks t = Ok () u" "wrote i p (map (\<lambda>k. (log_start t + of_nat (k + 1), content t (bl k))) ks) t u"
    "pinned D u" "lh_n u = lh_n t" "lh_block u = lh_block t"
    using Cons.IH [OF _ W(1,3) t(3) pr(5-7)] pr(8,9) t(5) by auto
  have e: "map (\<lambda>k. (log_start t + of_nat (k + 1), content t (bl k))) ks = map (\<lambda>k. (log_start s + of_nat (k + 1), content s (bl k))) ks"
    using c pr(9) W(2) by auto
  have "wrote i p (map (\<lambda>k. (log_start s + of_nat (k + 1), content s (bl k))) (k # ks)) s u"
    using wrote_trans [OF t(2) u(2)] unfolding e pr(8) [OF k(1)] by (simp only: list.map append_Cons append_Nil)
  then show ?case using pr(1) t(1,4,5) u by simp
qed

lemma install_loop_wrote:
  assumes "good i p {} s" "layout_ok n bl s" "pinned D s" "finite D" "card D \<le> 29"
    and "D = bl ` set ks \<or> D = {}" "\<And>k. k < n \<Longrightarrow> lh_block s k = bl k" "set ks \<subseteq> {0..<n}" "distinct ks"
  obtains t where "install_trans_loop ks s = Ok () t" "wrote i p (map (\<lambda>k. (bl k, content s (log_start s + of_nat (k + 1)))) ks) s t" "pinned {} t"
    "lh_n t = lh_n s" "lh_block t = lh_block s"
  using assms
proof (induction ks arbitrary: s D thesis)
  case Nil
  then show ?case by (auto simp: wrote_def)
next
  case (Cons k ks)
  note pr = Cons.prems
  let ?x = "log_start s + of_nat (k + 1)"
  have k: "k < n" "k + 1 \<le> n" using pr(9) by auto
  have dev: "log_dev s = 1" and yd: "lh_block s k < disksize s" using pr(3) k(1) by (simp_all add: layout_ok_def pr(8))
  have ne: "?x \<noteq> lh_block s k" using log_block(2) [OF pr(3) k(2) k(1)] k(1) by (simp add: pr(8))
  have y: "lh_block s k \<in> D \<or> D = {}" "?x = log_start s + of_nat k + 1" using k pr(7,8) by auto
  obtain t where t: "install_trans_loop (k # ks) s = install_trans_loop ks t" "wrote i p [(lh_block s k, content s ?x)] s t"
    "pinned (D - {lh_block s k}) t" "lh_n t = lh_n s" "lh_block t = lh_block s"
    by (rule install_step [OF pr(2) dev pr(4-6) y(2) log_block(1) [OF pr(3) k(2)] y(1) yd ne]) blast
  have c: "content t (log_start s + of_nat (j + 1)) = content s (log_start s + of_nat (j + 1))" if "j < n" for j
    using t(2) log_block(2) [OF pr(3) _ k(1), of "j + 1"] that by (simp add: wrote_def pr(8) [OF k(1)])
  have W: "good i p {} t" "log_start t = log_start s" "layout_ok n bl t" using t(2) pr(3) by (simp_all add: wrote_def layout_ok_def)
  have "inj_on bl (set (k # ks))" using pr(3,9) unfolding layout_ok_def by (blast intro: inj_on_subset)
  then have "bl ` set (k # ks) - {bl k} = bl ` set ks" using pr(10) by auto
  then have D: "D - {lh_block s k} = bl ` set ks \<or> D - {lh_block s k} = {}" using pr(7) by (auto simp: pr(8) [OF k(1)])
  have fc: "finite (D - {lh_block s k})" "card (D - {lh_block s k}) \<le> 29"
    using pr(5,6) card_Diff1_le [of D "lh_block s k"] by simp_all
  obtain u where u: "install_trans_loop ks t = Ok () u" "wrote i p (map (\<lambda>k. (bl k, content t (log_start t + of_nat (k + 1)))) ks) t u"
    "pinned {} u" "lh_n u = lh_n t" "lh_block u = lh_block t"
    using Cons.IH [OF _ W(1,3) t(3) fc D] pr(8-10) t(5) by auto
  have e: "map (\<lambda>k. (bl k, content t (log_start t + of_nat (k + 1)))) ks = map (\<lambda>k. (bl k, content s (log_start s + of_nat (k + 1)))) ks"
    using c pr(9) W(2) by auto
  have "wrote i p (map (\<lambda>k. (bl k, content s (log_start s + of_nat (k + 1)))) (k # ks)) s u"
    using wrote_trans [OF t(2) u(2)] unfolding e pr(8) [OF k(1)] by (simp only: list.map append_Cons append_Nil)
  then show ?case using pr(1) t(1,4,5) u by simp
qed

section \<open>Commit and recovery\<close>

lemma empty_transaction:
  assumes "good i p {} s" "pinned D s" "finite D" "card D \<le> 29" "log_dev s = 1" "log_start s < disksize s" "log_start s \<notin> D"
  obtains t H where "write_head (s\<lparr>lh_n := 0\<rparr>) = Ok () t" "wrote i p [(log_start s, H)] s t" "pinned D t" "lh_n t = 0" "load32 H 0 = 0"
proof -
  let ?s = "s\<lparr>lh_n := 0\<rparr>"
  have g: "good i p {} ?s" "pinned D ?s" using assms(1,2) by (simp_all add: pinned_def)
  obtain t where t: "write_head ?s = Ok () t" "wrote i p [(log_start ?s, encode_head [0..<nat (lh_n ?s)] (lh_block ?s) (store32 (content ?s (log_start ?s)) 0 (of_int (lh_n ?s))))] ?s t"
    "pinned D t" "lh_n t = lh_n ?s"
    by (rule write_head_step [OF g(1) _ g(2) assms(3,4) _ _ refl]) (use assms(5-7) in auto)
  then show thesis
    using that [OF t(1) _ t(3)] by (simp add: wrote_def encode_head_def load32_store32)
qed

lemma recover_wrote:
  assumes g: "good i p {} s" and D: "pinned {} s" and lay: "layout_ok n bl s"
    and h: "load32 (disk s (log_start s)) 0 = of_nat n" "\<And>k. k < n \<Longrightarrow> load32 (disk s (log_start s)) (head_slot k) = bl k"
  obtains t H where "recover_from_log s = Ok () t" "pinned {} t" "lh_n t = 0" "load32 H 0 = 0"
    "wrote i p (map (\<lambda>k. (bl k, disk s (log_start s + of_nat (k + 1)))) [0..<n] @ [(log_start s, H)]) s t"
proof -
  have n: "n \<le> 29" and dev: "log_dev s = 1" using lay by (simp_all add: layout_ok_def)
  have hd: "log_start s < disksize s" using log_block(1) [OF lay, of 0] by simp
  have sn: "sint (load32 (disk s (log_start s)) 0) = int n" using n by (simp add: h sint_of_nat_small)
  obtain t1 where t1: "read_head s = Ok () t1" "wrote i p [] s t1" "pinned {} t1" "lh_n t1 = int n" "\<And>k. k < n \<Longrightarrow> lh_block t1 k = bl k"
    by (rule read_head_step [OF g dev D hd, of n]) (use sn h in auto)
  have w1: "good i p {} t1" "disk t1 = disk s" "log_start t1 = log_start s" "log_dev t1 = log_dev s" "disksize t1 = disksize s"
    using t1(2) by (simp_all add: wrote_def)
  have l1: "layout_ok n bl t1" using lay by (simp add: layout_ok_def w1)
  have c1: "content t1 = disk s" using pinned_content [OF _ t1(3)] w1 by (simp add: good_def fun_eq_iff)
  obtain t2 where t2: "install_trans_loop [0..<n] t1 = Ok () t2"
    "wrote i p (map (\<lambda>k. (bl k, content t1 (log_start t1 + of_nat (k + 1)))) [0..<n]) t1 t2" "pinned {} t2"
    by (rule install_loop_wrote [OF w1(1) l1 t1(3), of "[0..<n]"]) (use t1(5) in auto)
  have w2: "good i p {} t2" "log_start t2 = log_start s" "log_dev t2 = log_dev s" "disksize t2 = disksize s"
    using t2(2) w1 by (simp_all add: wrote_def)
  obtain t H where t: "write_head (t2\<lparr>lh_n := 0\<rparr>) = Ok () t" "wrote i p [(log_start t2, H)] t2 t" "pinned {} t" "lh_n t = 0" "load32 H 0 = 0"
    by (rule empty_transaction [OF w2(1) t2(3)]) (use dev hd w2 in auto)
  have "recover_from_log s = Ok () t" using t1 t2 t by (simp add: recover_from_log_def install_trans_def)
  moreover have "wrote i p (map (\<lambda>k. (bl k, disk s (log_start s + of_nat (k + 1)))) [0..<n] @ [(log_start s, H)]) s t"
    using wrote_trans [OF t1(2) wrote_trans [OF t2(2) t(2)]] unfolding c1 w1(3) w2(2) append_Nil by simp
  ultimately show thesis using that t by blast
qed

text \<open>The writes of a commit: the log blocks, the header, the home locations, the cleared header.\<close>

definition commit_writes :: "'z log_st_scheme \<Rightarrow> nat \<Rightarrow> block \<Rightarrow> block \<Rightarrow> (u32 \<times> block) list" where
  "commit_writes s n H H0 = map (\<lambda>k. (log_start s + of_nat (k + 1), content s (lh_block s k))) [0..<n] @ [(log_start s, H)]
     @ map (\<lambda>k. (lh_block s k, content s (lh_block s k))) [0..<n] @ [(log_start s, H0)]"

lemma log_writes_read:
  assumes lay: "layout_ok n bl s" and k: "k < n"
  shows "apply_writes (map (\<lambda>k. (log_start s + of_nat (k + 1), c k)) [0..<n] @ [(log_start s, H)]) d (log_start s + of_nat (k + 1)) = c k"
proof -
  let ?f = "\<lambda>k. log_start s + of_nat (k + 1) :: u32"
  have "inj_on ?f (set [0..<n])"
    using log_block(3) [OF lay] by (intro inj_onI) (auto simp del: of_nat_Suc of_nat_add simp flip: Suc_eq_plus1)
  then have "apply_writes (map (\<lambda>k. (?f k, c k)) [0..<n]) d (?f k) = c k" using k by (intro apply_writes_map) auto
  moreover have "?f k \<noteq> log_start s" using log_block(3) [OF lay, of "k + 1" 0] k by simp
  ultimately show ?thesis by simp
qed

lemma commit_wrote:
  assumes g: "good i p {} s" and lay: "layout_ok n (lh_block s) s" and n: "lh_n s = int n" "0 < n"
    and D: "pinned (lh_block s ` {0..<n}) s"
  obtains t H H0 where "commit s = Ok () t" "pinned {} t" "lh_n t = 0" "wrote i p (commit_writes s n H H0) s t"
    "load32 H 0 = of_nat n" "\<And>k. k < n \<Longrightarrow> load32 H (head_slot k) = lh_block s k" "load32 H0 0 = 0"
proof -
  let ?bl = "lh_block s" and ?D = "lh_block s ` {0..<n}"
  have n29: "n \<le> 29" and dev: "log_dev s = 1" using lay by (simp_all add: layout_ok_def)
  have fin: "finite ?D" "card ?D \<le> 29" using n29 card_image_le [of "{0..<n}" ?bl] by simp_all
  have hd: "log_start s < disksize s" "log_start s \<notin> ?D" using log_block(1,2) [OF lay, of 0] by force+
  obtain t1 where t1: "write_log_loop [0..<n] s = Ok () t1"
    "wrote i p (map (\<lambda>k. (log_start s + of_nat (k + 1), content s (?bl k))) [0..<n]) s t1" "pinned ?D t1" "lh_n t1 = lh_n s" "lh_block t1 = ?bl"
    by (rule write_log_loop_wrote [OF g lay D fin, of "[0..<n]"]) auto
  have w1: "good i p {} t1" "log_start t1 = log_start s" "log_dev t1 = 1" "disksize t1 = disksize s" using t1(2) dev by (simp_all add: wrote_def)
  define H where "H = encode_head [0..<nat (lh_n t1)] (lh_block t1) (store32 (content t1 (log_start t1)) 0 (of_int (lh_n t1)))"
  obtain t2 where t2: "write_head t1 = Ok () t2" "wrote i p [(log_start t1, H)] t1 t2" "pinned ?D t2" "lh_n t2 = lh_n t1" "lh_block t2 = lh_block t1"
    by (rule write_head_step [OF w1(1,3) t1(3) fin _ _ H_def]) (use hd w1 in auto)
  have w2: "good i p {} t2" "log_start t2 = log_start s" "log_dev t2 = 1" "disksize t2 = disksize s" using t2(2) w1 by (simp_all add: wrote_def)
  have l2: "layout_ok n ?bl t2" using lay by (simp add: layout_ok_def w2)
  obtain t3 where t3: "install_trans_loop [0..<n] t2 = Ok () t3"
    "wrote i p (map (\<lambda>k. (?bl k, content t2 (log_start t2 + of_nat (k + 1)))) [0..<n]) t2 t3" "pinned {} t3"
    by (rule install_loop_wrote [OF w2(1) l2 t2(3) fin, of "[0..<n]"]) (use t1(5) t2(5) in auto)
  have w12: "wrote i p (map (\<lambda>k. (log_start s + of_nat (k + 1), content s (?bl k))) [0..<n] @ [(log_start s, H)]) s t2"
    using wrote_trans [OF t1(2) t2(2)] unfolding w1(2) .
  then have c2: "content t2 (log_start s + of_nat (k + 1)) = content s (?bl k)" if "k < n" for k
    using log_writes_read [OF lay that] by (simp add: wrote_def)
  have e: "map (\<lambda>k. (?bl k, content t2 (log_start t2 + of_nat (k + 1)))) [0..<n] = map (\<lambda>k. (?bl k, content s (?bl k))) [0..<n]"
    by (rule map_cong) (use c2 in \<open>simp_all add: w2(2)\<close>)
  have w3: "good i p {} t3" "log_start t3 = log_start s" "log_dev t3 = 1" "disksize t3 = disksize s" using t3(2) w2 by (simp_all add: wrote_def)
  obtain t H0 where t: "write_head (t3\<lparr>lh_n := 0\<rparr>) = Ok () t" "wrote i p [(log_start t3, H0)] t3 t" "pinned {} t" "lh_n t = 0" "load32 H0 0 = 0"
    by (rule empty_transaction [OF w3(1) t3(3)]) (use hd w3 in auto)
  have "commit s = Ok () t"
    using t1 t2 t3 t n by (simp add: commit_def write_log_def install_trans_def)
  moreover have "wrote i p (commit_writes s n H H0) s t"
    using wrote_trans [OF w12 wrote_trans [OF t3(2) t(2)]] unfolding e w3(2) commit_writes_def by (simp only: append_assoc)
  moreover have "load32 H 0 = of_nat n" "k < n \<Longrightarrow> load32 H (head_slot k) = ?bl k" for k
    using n29 by (simp_all add: H_def t1 n encode_head_count encode_head_block load32_store32)
  ultimately show thesis using that t by blast
qed

section \<open>Crashes\<close>

text \<open>
  Two disks agree on every block outside of the log; a machine that starts again after a crash: an empty buffer cache over
  the disk \<open>d\<close>, the log where it was.
\<close>

definition same_blocks :: "nat \<Rightarrow> 'z log_st_scheme \<Rightarrow> (u32 \<Rightarrow> block) \<Rightarrow> (u32 \<Rightarrow> block) \<Rightarrow> bool" where
  "same_blocks n s d d' \<longleftrightarrow> (\<forall>m. (\<forall>k \<le> n. m \<noteq> log_start s + of_nat k) \<longrightarrow> d m = d' m)"

definition rebooted :: "(u32 \<Rightarrow> block) \<Rightarrow> 'z log_st_scheme \<Rightarrow> 'z log_st_scheme \<Rightarrow> bool" where
  "rebooted d s s' \<longleftrightarrow> (\<exists>i p. good i p {} s') \<and> (\<forall>b < NBUF. \<not> bdirty (bufs s' b)) \<and> disk s' = d
     \<and> disksize s' = disksize s \<and> log_dev s' = log_dev s \<and> log_start s' = log_start s"

lemma off_log: "\<forall>k \<le> n. m \<noteq> L + of_nat k \<Longrightarrow> m \<noteq> L" for m L :: u32
  by (drule spec [of _ 0]) simp

lemma recover_blocks:
  assumes r: "rebooted d s s'" and lay: "layout_ok n bl s"
    and h: "load32 (d (log_start s)) 0 = of_nat n" "\<And>k. k < n \<Longrightarrow> load32 (d (log_start s)) (head_slot k) = bl k"
  obtains t where "recover_from_log s' = Ok () t" "\<And>k. k < n \<Longrightarrow> disk t (bl k) = d (log_start s + of_nat (k + 1))"
    "\<And>m. m \<noteq> log_start s \<Longrightarrow> m \<notin> bl ` {0..<n} \<Longrightarrow> disk t m = d m"
proof -
  have e: "disk s' = d" "disksize s' = disksize s" "log_dev s' = log_dev s" "log_start s' = log_start s"
    and pin: "pinned {} s'" using r by (simp_all add: rebooted_def pinned_def)
  obtain i p where g: "good i p {} s'" using r by (auto simp: rebooted_def)
  have lay': "layout_ok n bl s'" using lay by (simp add: layout_ok_def e)
  obtain t H where t: "recover_from_log s' = Ok () t"
    "wrote i p (map (\<lambda>k. (bl k, disk s' (log_start s' + of_nat (k + 1)))) [0..<n] @ [(log_start s', H)]) s' t"
    by (rule recover_wrote [OF g pin lay']) (use h e in auto)
  then have d: "disk t = (apply_writes (map (\<lambda>k. (bl k, d (log_start s + of_nat (k + 1)))) [0..<n]) d)(log_start s := H)"
    by (simp add: wrote_def e)
  have "disk t (bl k) = d (log_start s + of_nat (k + 1))" if "k < n" for k
  proof -
    have "bl k \<noteq> log_start s" using log_block(2) [OF lay, of 0 k] that by simp
    then show ?thesis
      using apply_writes_map [of bl "[0..<n]" k "\<lambda>k. d (log_start s + of_nat (k + 1))" d] lay that by (simp add: d layout_ok_def)
  qed
  moreover have "disk t m = d m" if "m \<noteq> log_start s" "m \<notin> bl ` {0..<n}" for m
    using that by (simp add: d apply_writes_other image_iff)
  ultimately show thesis using that [OF t(1)] by blast
qed

text \<open>Recovery when the header on disk is empty keeps every block.\<close>

lemma recover_empty:
  assumes r: "rebooted d s s'" and lay: "layout_ok n bl s" and h: "load32 (d (log_start s)) 0 = 0" and same: "same_blocks n s d d'"
  shows "\<exists>t. recover_from_log s' = Ok () t \<and> same_blocks n s (disk t) d'"
proof -
  have "layout_ok 0 bl s" using lay by (simp add: layout_ok_def)
  then obtain t where t: "recover_from_log s' = Ok () t" "\<And>m. m \<noteq> log_start s \<Longrightarrow> disk t m = d m"
    by (rule recover_blocks [OF r]) (use h in auto)
  show ?thesis using t same off_log unfolding same_blocks_def by metis
qed

text \<open>A crash before the header is on disk, after it, and after the log has been cleared.\<close>

lemma taken_keys: "m \<in> fst ` set (take j (map (\<lambda>k. (f k, g k)) [0..<n])) \<Longrightarrow> \<exists>k < n. m = f k"
proof -
  assume "m \<in> fst ` set (take j (map (\<lambda>k. (f k, g k)) [0..<n]))"
  then have "m \<in> fst ` set (map (\<lambda>k. (f k, g k)) [0..<n])" using set_take_subset by fastforce
  then show ?thesis by auto
qed

lemma log_writes_same:
  assumes "layout_ok n bl s"
  shows "same_blocks n s (apply_writes (take k (map (\<lambda>k. (log_start s + of_nat (k + 1), c k)) [0..<n])) d) d"
    "apply_writes (take k (map (\<lambda>k. (log_start s + of_nat (k + 1), c k)) [0..<n])) d (log_start s) = d (log_start s)"
proof -
  let ?ws = "take k (map (\<lambda>k. (log_start s + of_nat (k + 1), c k)) [0..<n])"
  have w: "\<exists>j < n. m = log_start s + of_nat (j + 1)" if "m \<in> fst ` set ?ws" for m using taken_keys [OF that] .
  show "same_blocks n s (apply_writes ?ws d) d"
    unfolding same_blocks_def
  proof (intro allI impI apply_writes_other notI)
    fix m assume m: "\<forall>k \<le> n. m \<noteq> log_start s + of_nat k" "m \<in> fst ` set ?ws"
    then obtain j where "j < n" "m = log_start s + of_nat (j + 1)" using w by blast
    then show False using m(1) [rule_format, of "j + 1"] by simp
  qed
  have "log_start s \<noteq> log_start s + of_nat (j + 1)" if "j < n" for j using log_block(3) [OF assms, of 0 "j + 1"] that by simp
  then show "apply_writes ?ws d (log_start s) = d (log_start s)" by (intro apply_writes_other notI) (use w in blast)
qed

text \<open>The disk when the header and the first \<open>j\<close> home locations have been written.\<close>

definition crash_disk :: "'z log_st_scheme \<Rightarrow> nat \<Rightarrow> block \<Rightarrow> nat \<Rightarrow> u32 \<Rightarrow> block" where
  "crash_disk s n H j = apply_writes (take j (map (\<lambda>k. (lh_block s k, content s (lh_block s k))) [0..<n]))
     (apply_writes (map (\<lambda>k. (log_start s + of_nat (k + 1), content s (lh_block s k))) [0..<n] @ [(log_start s, H)]) (disk s))"

lemma crash_disk_log:
  assumes lay: "layout_ok n (lh_block s) s"
  shows "crash_disk s n H j (log_start s) = H"
    "k < n \<Longrightarrow> crash_disk s n H j (log_start s + of_nat (k + 1)) = content s (lh_block s k)"
proof -
  let ?homes = "take j (map (\<lambda>k. (lh_block s k, content s (lh_block s k))) [0..<n])"
  have o: "log_start s + of_nat k \<notin> fst ` set ?homes" if "k \<le> n" for k
    using log_block(2) [OF lay that] taken_keys [of "log_start s + of_nat k" j "lh_block s" _ n] by force
  show "crash_disk s n H j (log_start s) = H" unfolding crash_disk_def by (subst apply_writes_other) (use o [of 0] in simp_all)
  show "crash_disk s n H j (log_start s + of_nat (k + 1)) = content s (lh_block s k)" if "k < n"
  proof -
    have "k + 1 \<le> n" using that by simp
    from apply_writes_other [OF o [OF this]] show ?thesis unfolding crash_disk_def by (simp only: log_writes_read [OF lay that])
  qed
qed

lemma crash_disk_other:
  assumes lay: "layout_ok n (lh_block s) s" and D: "cache_ok s" "pinned (lh_block s ` {0..<n}) s"
    and m: "\<forall>k \<le> n. m \<noteq> log_start s + of_nat k" "m \<notin> lh_block s ` {0..<n}"
  shows "crash_disk s n H j m = content s m"
proof -
  let ?homes = "take j (map (\<lambda>k. (lh_block s k, content s (lh_block s k))) [0..<n])"
  have "m \<notin> fst ` set ?homes" using m(2) by (auto dest!: taken_keys simp del: set_take_subset)
  moreover have "m \<noteq> log_start s" by (rule off_log [OF m(1)])
  ultimately show ?thesis
    using log_writes_same(1) [OF lay, of n "\<lambda>k. content s (lh_block s k)" "disk s"] m pinned_content [OF D m(2)]
    by (simp add: crash_disk_def apply_writes_other same_blocks_def)
qed

lemma recover_new:
  assumes lay: "layout_ok n (lh_block s) s" and D: "cache_ok s" "pinned (lh_block s ` {0..<n}) s"
    and H: "load32 H 0 = of_nat n" "\<And>k. k < n \<Longrightarrow> load32 H (head_slot k) = lh_block s k" and r: "rebooted (crash_disk s n H j) s s'"
  shows "\<exists>t. recover_from_log s' = Ok () t \<and> same_blocks n s (disk t) (content s)"
proof -
  obtain t where t: "recover_from_log s' = Ok () t" "\<And>k. k < n \<Longrightarrow> disk t (lh_block s k) = crash_disk s n H j (log_start s + of_nat (k + 1))"
    "\<And>m. m \<noteq> log_start s \<Longrightarrow> m \<notin> lh_block s ` {0..<n} \<Longrightarrow> disk t m = crash_disk s n H j m"
    by (rule recover_blocks [OF r lay]) (use H crash_disk_log(1) [OF lay] in auto)
  have "disk t m = content s m" if m: "\<forall>k \<le> n. m \<noteq> log_start s + of_nat k" for m
  proof (cases "m \<in> lh_block s ` {0..<n}")
    case True
    then show ?thesis using t(2) crash_disk_log(2) [OF lay] by auto
  next
    case False
    then show ?thesis using t(3) [OF off_log [OF m]] crash_disk_other [OF lay D m] by simp
  qed
  then show ?thesis using t(1) by (auto simp: same_blocks_def)
qed

lemma crash_disk_done:
  assumes lay: "layout_ok n (lh_block s) s" and D: "cache_ok s" "pinned (lh_block s ` {0..<n}) s"
  shows "same_blocks n s ((crash_disk s n H n)(log_start s := H0)) (content s)"
  unfolding same_blocks_def
proof (intro allI impI)
  fix m assume m: "\<forall>k \<le> n. m \<noteq> log_start s + of_nat k"
  then have "m \<noteq> log_start s" by (rule off_log)
  moreover have "crash_disk s n H n m = content s m"
  proof (cases "m \<in> lh_block s ` {0..<n}")
    case True
    then obtain j where "j < n" "m = lh_block s j" by auto
    then show ?thesis
      using apply_writes_map [of "lh_block s" "[0..<n]" j "\<lambda>k. content s (lh_block s k)"] lay by (simp add: crash_disk_def layout_ok_def)
  qed (use crash_disk_other [OF lay D m] in blast)
  ultimately show "((crash_disk s n H n)(log_start s := H0)) m = content s m" by simp
qed

lemma commit_crash:
  assumes g: "good i p {} s" and lay: "layout_ok n (lh_block s) s" and n: "lh_n s = int n" "0 < n"
    and D: "pinned (lh_block s ` {0..<n}) s" and old: "load32 (disk s (log_start s)) 0 = 0"
  obtains t ws where "commit s = Ok () t" "dwrites t = dwrites s @ ws"
    "\<And>k s'. \<lbrakk> k \<le> length ws; rebooted (apply_writes (take k ws) (disk s)) s s' \<rbrakk> \<Longrightarrow>
       \<exists>t'. recover_from_log s' = Ok () t' \<and> same_blocks n s (disk t') (if k \<le> n then disk s else content s)" "n < length ws"
proof -
  let ?bl = "lh_block s" and ?L = "log_start s"
  have ok: "cache_ok s" using g by (simp add: good_def)
  obtain t H H0 where t: "commit s = Ok () t" "wrote i p (commit_writes s n H H0) s t" "load32 H 0 = of_nat n"
    "\<And>k. k < n \<Longrightarrow> load32 H (head_slot k) = ?bl k" "load32 H0 0 = 0"
    by (rule commit_wrote [OF g lay n D]) blast
  define logs where "logs = map (\<lambda>k. (?L + of_nat (k + 1), content s (?bl k))) [0..<n]"
  define homes where "homes = map (\<lambda>k. (?bl k, content s (?bl k))) [0..<n]"
  have ws: "commit_writes s n H H0 = logs @ [(?L, H)] @ homes @ [(?L, H0)]" "length logs = n" "length homes = n"
    by (simp_all add: commit_writes_def logs_def homes_def)
  have d: "crash_disk s n H j = apply_writes (logs @ [(?L, H)] @ take j homes) (disk s)" for j
    by (simp add: crash_disk_def logs_def homes_def)
  have crash: "\<exists>t'. recover_from_log s' = Ok () t' \<and> same_blocks n s (disk t') (if k \<le> n then disk s else content s)"
    if k: "k \<le> length (commit_writes s n H H0)" and r: "rebooted (apply_writes (take k (commit_writes s n H H0)) (disk s)) s s'" for k s'
  proof -
    have "k \<le> n + 1 + n + 1" using k by (simp add: ws)
    then consider (old) "k \<le> n" | (new) "n + 1 \<le> k" "k \<le> n + 1 + n" | (cleared) "k = n + 1 + n + 1" by linarith
    then show ?thesis
    proof cases
      case old
      then have "rebooted (apply_writes (take k logs) (disk s)) s s'" using r ws by simp
      moreover note l = log_writes_same [OF lay, of k "\<lambda>k. content s (?bl k)" "disk s", folded logs_def]
      moreover have "load32 (apply_writes (take k logs) (disk s) ?L) 0 = 0" unfolding l(2) by (rule assms(6))
      ultimately show ?thesis using recover_empty [OF _ lay] old by simp
    next
      case new
      then obtain j where j: "k = n + 1 + j" "j \<le> n" using le_Suc_ex [of "n + 1" k] by auto
      then have "rebooted (crash_disk s n H j) s s'" using r ws by (simp add: d)
      then show ?thesis using recover_new [OF lay ok D t(3,4)] new by simp
    next
      case cleared
      then have r': "rebooted ((crash_disk s n H n)(?L := H0)) s s'" using r ws d [of n] by simp
      show ?thesis using recover_empty [OF r' lay _ crash_disk_done [OF lay ok D]] t(5) cleared by simp
    qed
  qed
  have "dwrites t = dwrites s @ commit_writes s n H H0" using t(2) by (simp add: wrote_def)
  from that [OF t(1) this crash] show thesis by (simp add: ws)
qed

text \<open>
  C1: commits are atomic under crashes.  Whenever the log is empty on disk and exactly the blocks of the transaction are
  dirty in the buffer cache, \<^verbatim>\<open>commit\<close> succeeds; and if the machine stops after any number \<open>k\<close> of its block writes and
  starts again with an empty cache, \<^verbatim>\<open>recover_from_log\<close> succeeds and leaves outside of the log either all blocks as they were
  on disk before the commit or all blocks as the transaction wrote them, the latter once the commit is complete.
\<close>

theorem commit_crash_atomic:
  assumes "good i p {} s" "layout_ok n (lh_block s) s" "lh_n s = int n" "pinned (lh_block s ` {0..<n}) s"
    and "load32 (disk s (log_start s)) 0 = 0"
  shows "\<exists>t ws. commit s = Ok () t \<and> dwrites t = dwrites s @ ws
    \<and> (\<forall>k s'. k \<le> length ws \<and> rebooted (apply_writes (take k ws) (disk s)) s s' \<longrightarrow>
         (\<exists>t'. recover_from_log s' = Ok () t'
            \<and> (same_blocks n s (disk t') (disk s) \<and> k < length ws \<or> same_blocks n s (disk t') (content s))))"
proof (cases "n = 0")
  case True
  have "content s = disk s" using pinned_content assms(1,4) True by (auto simp: good_def)
  then have "\<exists>t'. recover_from_log s' = Ok () t' \<and> same_blocks n s (disk t') (content s)" if "rebooted (disk s) s s'" for s'
    using recover_empty [OF that assms(2,5)] by (simp add: same_blocks_def)
  then have "\<forall>k s'. k \<le> length [] \<and> rebooted (apply_writes (take k []) (disk s)) s s' \<longrightarrow> (\<exists>t'. recover_from_log s' = Ok () t'
     \<and> (same_blocks n s (disk t') (disk s) \<and> k < length [] \<or> same_blocks n s (disk t') (content s)))" by simp
  moreover have "commit s = Ok () s" using assms(3) True by (simp add: commit_def)
  ultimately show ?thesis by (intro exI [of _ s] exI [of _ "[]"]) simp
next
  case False
  then have "0 < n" by simp
  then obtain t ws where t: "commit s = Ok () t" "dwrites t = dwrites s @ ws" "n < length ws"
    and c: "\<And>k s'. \<lbrakk> k \<le> length ws; rebooted (apply_writes (take k ws) (disk s)) s s' \<rbrakk> \<Longrightarrow>
       \<exists>t'. recover_from_log s' = Ok () t' \<and> same_blocks n s (disk t') (if k \<le> n then disk s else content s)"
    by (rule commit_crash [OF assms(1-3) _ assms(4,5)]) blast
  have "\<exists>t'. recover_from_log s' = Ok () t' \<and> (same_blocks n s (disk t') (disk s) \<and> k < length ws \<or> same_blocks n s (disk t') (content s))"
    if "k \<le> length ws" "rebooted (apply_writes (take k ws) (disk s)) s s'" for k s'
    using c [OF that] t(3) by (cases "k \<le> n") auto
  then show ?thesis using t by blast
qed

section \<open>Building a transaction\<close>

lemma release_log_eq:
  assumes "on_cpu s i" "\<not> locked (log_lock s)" "lcpu (log_lock s) = None"
  shows "release_log ((lg.held i s)\<lparr>bufs := B, lh_n := n, lh_block := f\<rparr>) = Ok () ((settled i s)\<lparr>bufs := B, lh_n := n, lh_block := f\<rparr>)"
proof -
  let ?h = "(lg.held i s)\<lparr>bufs := B, lh_n := n, lh_block := f\<rparr>"
  have "release_log ?h = Ok () (lg.leave i s ?h)"
    unfolding release_log_def by (rule lg.release_leave [OF assms]) (simp_all, simp add: lg.held_def pushed_def)
  moreover have "lg.leave i s ?h = (settled i s)\<lparr>bufs := B, lh_n := n, lh_block := f\<rparr>"
    by (rule log_st.equality) (simp_all add: lg.leave_def lg.held_def pushed_def settled_def)
  ultimately show ?thesis by simp
qed

lemma log_fields_held [simp]:
  "bufs (lg.held i s) = bufs s" "lh_n (lg.held i s) = lh_n s" "lh_block (lg.held i s) = lh_block s"
  by (simp_all add: lg.held_def pushed_def)

lemma log_write_eq:
  assumes "on_cpu s i" "\<not> locked (log_lock s)" "lcpu (log_lock s) = None"
    and "lh_n s = int n" "n < 30" "int n < log_size s - 1" "1 \<le> outstanding s" and k: "k = log_slot s (blockno (bufs s b))"
  shows "log_write b s = Ok () ((settled i s)\<lparr>bufs := (bufs s)(b := (bufs s b)\<lparr>bdirty := True\<rparr>),
    lh_n := int (if k = n then n + 1 else n), lh_block := (lh_block s)(k := blockno (bufs s b))\<rparr>)"
proof -
  have aq: "acquire_log s = Ok () (lg.held i s)" unfolding acquire_log_def by (rule lg.acquire_free [OF assms(1,2)])
  have sl: "log_slot (lg.held i s) m = log_slot s m" for m by (simp add: log_slot_def cong: option.case_cong)
  have cm: "(lg.held i s)\<lparr>lh_block := f, lh_n := m, bufs := B\<rparr> = (lg.held i s)\<lparr>bufs := B, lh_n := m, lh_block := f\<rparr>"
    "(lg.held i s)\<lparr>lh_block := f, bufs := B\<rparr> = (lg.held i s)\<lparr>bufs := B, lh_n := lh_n s, lh_block := f\<rparr>" for f m B
    by (rule log_st.equality; simp)+
  show ?thesis
    using assms(4-7) by (simp add: log_write_def Let_def upd_buf_def aq sl cm release_log_eq [OF assms(1-3)] flip: k)
qed

text \<open>The block numbers of the current transaction.\<close>

definition txn :: "'z log_st_scheme \<Rightarrow> u32 list" where
  "txn s = map (lh_block s) [0..<nat (lh_n s)]"

lemma log_slot_txn: "log_slot s m = (case findi (\<lambda>x. x = m) (txn s) of Some k \<Rightarrow> k | None \<Rightarrow> length (txn s))"
  by (simp add: log_slot_def txn_def findi_map cong: option.case_cong)

lemma log_slot_add:
  assumes "lh_n s = int n" "k = log_slot s m" "lh_n t = int (if k = n then n + 1 else n)" "lh_block t = (lh_block s)(k := m)"
  shows "txn t = (if m \<in> set (txn s) then txn s else txn s @ [m])"
proof (cases "findi (\<lambda>x. x = m) (txn s)")
  case None
  then have "m \<notin> set (txn s)" by (auto simp: findi_None_iff)
  moreover have "k = length (txn s)" using assms(2) unfolding log_slot_txn None by simp
  ultimately have "m \<notin> set (txn s)" "k = n" using assms(1) by (simp_all add: txn_def)
  moreover have "nat (1 + int n) = Suc n" by simp
  ultimately show ?thesis using assms by (simp add: txn_def)
next
  case (Some j)
  then have "k = j" using assms(2) by (simp add: log_slot_txn)
  moreover have "j < n" "txn s ! j = m" using Some assms(1) by (simp_all add: findi_Some_iff txn_def)
  ultimately have j: "j < n" "txn s ! j = m" "k = j" by auto
  then have "m \<in> set (txn s)" using assms(1) by (auto simp: txn_def in_set_conv_nth)
  moreover have "(lh_block s)(k := m) = lh_block s" using j assms(1) by (auto simp: txn_def)
  ultimately show ?thesis using assms j by (simp add: txn_def)
qed

lemma good_dirty:
  assumes g: "good i p H s" and b: "b \<in> H" "caches (bufs s) m b" "bvalid (bufs s b)"
    and t: "t = (settled i s)\<lparr>bufs := (bufs s)(b := (bufs s b)\<lparr>bdata := d, bdirty := True\<rparr>), lh_n := n, lh_block := f\<rparr>"
  shows "good i p H t" "content t = (content s)(m := d)"
proof -
  have ok: "cache_ok s" using g by (simp add: good_def)
  have B: "b < NBUF" "bdev (bufs s b) = 1" using b(2) by (simp_all add: caches_def)
  have c: "caches (bufs t) n x = caches (bufs s) n x" for n x by (simp add: t caches_def)
  have u: "caches (bufs s) n x \<Longrightarrow> caches (bufs s) n x' \<Longrightarrow> x = x'" for n x x' using ok unfolding cache_ok_def by blast
  obtain xs where "lru (bufs s) xs" using ok by (auto simp: cache_ok_def)
  then have "lru ((bufs s)(b := (bufs s b)\<lparr>bdata := d, bdirty := True\<rparr>)) xs" by (rule lru_upd) simp_all
  then have l: "\<exists>xs. lru (bufs t) xs" by (auto simp: t)
  have cl: "bdata (bufs t x) = disk t n" if "caches (bufs t) n x" "bvalid (bufs t x)" "\<not> bdirty (bufs t x)" for n x
    using that ok unfolding c cache_ok_def by (cases "x = b") (auto simp: t)
  have dv: "bvalid (bufs t x) \<and> bdev (bufs t x) = 1" if "x < NBUF" "bdirty (bufs t x)" for x
    using that ok b(3) B unfolding cache_ok_def by (cases "x = b") (auto simp: t)
  have okt: "cache_ok t" unfolding cache_ok_def c using u l cl dv c by blast
  have r: "bio_ready i p s" using g by (simp add: good_def)
  have "bio_ready i p ((settled i s)\<lparr>bufs := (bufs s)(b := (bufs s b)\<lparr>bdata := d, bdirty := True\<rparr>)\<rparr>)"
    by (rule bio_ready_bufs) (use r in auto)
  then have "bio_ready i p t" by (simp add: t bio_ready_def calling_def proc_ready_def on_cpu_def)
  then show "good i p H t" using g okt by (auto simp: good_def mine_def t)
  show "content t = (content s)(m := d)"
  proof
    fix n
    show "content t n = ((content s)(m := d)) n"
    proof (cases "n = m")
      case True
      then show ?thesis using content_cached [OF okt, of m b] b c by (simp add: t)
    next
      case False
      then have "content t n = content s n" using b(2) c by (intro content_cong) (auto simp: caches_def t)
      with False show ?thesis by simp
    qed
  qed
qed

lemma pinned_dirtied:
  assumes "cache_ok s" "pinned D s" "caches (bufs s) m b" "\<And>x n. caches (bufs t) n x = caches (bufs s) n x"
    "\<And>x. bdirty (bufs t x) = (x = b \<or> bdirty (bufs s x))"
  shows "pinned (insert m D) t"
proof -
  have "x = b" if "caches (bufs s) m x" for x using assms(1,3) that unfolding cache_ok_def by blast
  then have "caches (bufs s) m x = (x = b)" for x using assms(3) by blast
  then show ?thesis using assms(2) by (simp add: pinned_def assms(4,5)) blast
qed

lemma log_write_step:
  assumes "good i p H s" "b \<in> H" "caches (bufs s) m b" "bvalid (bufs s b)" "\<not> locked (log_lock s)" "lcpu (log_lock s) = None"
    and "0 \<le> lh_n s" "lh_n s < 30" "lh_n s < log_size s - 1" "1 \<le> outstanding s" "pinned (set (txn s)) s"
  shows "\<exists>t. log_write b (upd_buf b (\<lambda>x. x\<lparr>bdata := d\<rparr>) s) = Ok () t
    \<and> txn t = (if m \<in> set (txn s) then txn s else txn s @ [m]) \<and> pinned (set (txn t)) t
    \<and> good i p H t \<and> content t = (content s)(m := d) \<and> disk t = disk s
    \<and> (\<exists>B n f. t = (settled i s)\<lparr>bufs := B, lh_n := int n, lh_block := f\<rparr>)
    \<and> (\<forall>x. blockno (bufs t x) = blockno (bufs s x) \<and> bdev (bufs t x) = bdev (bufs s x) \<and> bvalid (bufs t x) = bvalid (bufs s x))"
proof -
  let ?s = "upd_buf b (\<lambda>x. x\<lparr>bdata := d\<rparr>) s"
  obtain n where n: "lh_n s = int n" using assms(7) by (metis nonneg_int_cases)
  have on: "on_cpu ?s i" using assms(1) bio_ready_on_cpu [of i p s] by (simp add: good_def on_cpu_def upd_buf_def)
  have bn: "blockno (bufs ?s b) = m" using assms(3) by (simp add: upd_buf_def caches_def)
  define k where "k = log_slot ?s (blockno (bufs ?s b))"
  define t where "t = (settled i s)\<lparr>bufs := (bufs s)(b := (bufs s b)\<lparr>bdata := d, bdirty := True\<rparr>),
    lh_n := int (if k = n then n + 1 else n), lh_block := (lh_block s)(k := m)\<rparr>"
  have "log_write b ?s = Ok () ((settled i ?s)\<lparr>bufs := (bufs ?s)(b := (bufs ?s b)\<lparr>bdirty := True\<rparr>),
    lh_n := int (if k = n then n + 1 else n), lh_block := (lh_block ?s)(k := blockno (bufs ?s b))\<rparr>)"
    by (rule log_write_eq [OF on _ _ _ _ _ _ k_def]) (use assms n in \<open>simp_all add: upd_buf_def\<close>)
  moreover have "(settled i ?s)\<lparr>bufs := (bufs ?s)(b := (bufs ?s b)\<lparr>bdirty := True\<rparr>),
    lh_n := int (if k = n then n + 1 else n), lh_block := (lh_block ?s)(k := blockno (bufs ?s b))\<rparr> = t"
    unfolding bn t_def by (simp add: upd_buf_def)
  ultimately have e: "log_write b ?s = Ok () t" by simp
  note gd = good_dirty [OF assms(1-4) t_def]
  have "k = log_slot s m" unfolding k_def bn by (simp add: log_slot_def upd_buf_def cong: option.case_cong)
  then have x: "txn t = (if m \<in> set (txn s) then txn s else txn s @ [m])" by (rule log_slot_add [OF n]) (simp_all add: t_def)
  have "pinned (insert m (set (txn s))) t"
    by (rule pinned_dirtied [OF _ assms(11,3)]) (use assms(1) in \<open>auto simp: good_def t_def caches_def\<close>)
  moreover have "insert m (set (txn s)) = set (txn t)" unfolding x by auto
  moreover have "\<exists>B n f. t = (settled i s)\<lparr>bufs := B, lh_n := int n, lh_block := f\<rparr>"
    "\<forall>x. blockno (bufs t x) = blockno (bufs s x) \<and> bdev (bufs t x) = bdev (bufs s x) \<and> bvalid (bufs t x) = bvalid (bufs s x)"
    unfolding t_def by blast (simp add: caches_def)
  ultimately show ?thesis using e x gd by (intro exI [of _ t]) (simp add: t_def)
qed

text \<open>
  \<^verbatim>\<open>log_write\<close> adds a block to the transaction.  A caller that holds the buffer of block \<open>m\<close> and has changed its data gets the
  buffer pinned dirty in the cache and the block recorded once: a block that the transaction already has is absorbed.  The
  new data is what every later reader sees, and the disk is untouched.
\<close>

theorem log_write_pins:
  assumes "good i p H s" "b \<in> H" "caches (bufs s) m b" "bvalid (bufs s b)" "\<not> locked (log_lock s)" "lcpu (log_lock s) = None"
    and "0 \<le> lh_n s" "lh_n s < 30" "lh_n s < log_size s - 1" "1 \<le> outstanding s" "pinned (set (txn s)) s"
  shows "\<exists>t. log_write b (upd_buf b (\<lambda>x. x\<lparr>bdata := d\<rparr>) s) = Ok () t
    \<and> txn t = (if m \<in> set (txn s) then txn s else txn s @ [m]) \<and> pinned (set (txn t)) t
    \<and> good i p H t \<and> content t = (content s)(m := d) \<and> disk t = disk s"
  using log_write_step [OF assms, of d] by blast

section \<open>An example\<close>

text \<open>A machine with a disk of ten blocks, the log at block 2, started on the disk \<open>d\<close>; and a transaction with block 5.\<close>

definition boot_demo :: "(u32 \<Rightarrow> block) \<Rightarrow> file_st" where
  "boot_demo d = binit (file_demo\<lparr>disk := d, disksize := 10, log_dev := 1, log_start := 2, log_size := 20, outstanding := 1\<rparr>)"

definition txn_demo :: file_st where
  "txn_demo = upd_buf 0 (\<lambda>x. x\<lparr>bdev := 1, blockno := 5, bvalid := True, bdirty := True, bdata := \<lambda>_. 7\<rparr>)
     ((boot_demo (\<lambda>_ _. 0))\<lparr>lh_n := 1, lh_block := \<lambda>_. 5\<rparr>)"

lemma binit_loop_log:
  "log_dev (fold binit_step xs s) = log_dev s" "log_start (fold binit_step xs s) = log_start s"
  "log_lock (fold binit_step xs s) = log_lock s" "lh_n (fold binit_step xs s) = lh_n s"
  "log_size (fold binit_step xs s) = log_size s" "outstanding (fold binit_step xs s) = outstanding s"
  by (induction xs arbitrary: s) (simp_all add: binit_step_def upd_buf_def Let_def)

lemma binit_log_fields:
  "log_dev (binit s) = log_dev s" "log_start (binit s) = log_start s" "log_lock (binit s) = log_lock s" "lh_n (binit s) = lh_n s"
  "log_size (binit s) = log_size s" "outstanding (binit s) = outstanding s"
  unfolding binit_def Let_def binit_loop_log by (simp_all add: upd_buf_def)

lemma boot_demo_fields [simp]:
  "disk (boot_demo d) = d" "disksize (boot_demo d) = 10" "log_dev (boot_demo d) = 1" "log_start (boot_demo d) = 2"
  "log_lock (boot_demo d) = zero_lock" "lh_n (boot_demo d) = 0" "log_size (boot_demo d) = 20" "outstanding (boot_demo d) = 1"
proof -
  show "disk (boot_demo d) = d" "disksize (boot_demo d) = 10"
    by (simp_all add: boot_demo_def binit_def binit_loop_fields [OF refl]) (simp_all add: upd_buf_def)
qed (simp_all add: boot_demo_def binit_log_fields file_demo_def)

lemma boot_demo_good: "good 0 0 {} (boot_demo d)"
proof -
  have "calling 0 0 (file_demo\<lparr>disk := d, disksize := 10, log_dev := 1, log_start := 2, log_size := 20, outstanding := 1\<rparr>)"
    using file_demo_calling by (simp add: calling_def proc_ready_def on_cpu_def)
  from binit_good [OF this] show ?thesis by (simp add: boot_demo_def) (simp add: file_demo_def zero_buf_def)
qed

lemma boot_demo_clean: "\<not> bdirty (bufs (boot_demo d) b)" "\<not> caches (bufs (boot_demo d)) m b"
proof -
  show "\<not> bdirty (bufs (boot_demo d) b)"
    by (simp add: boot_demo_def binit_def binit_loop_fields [OF refl]) (simp add: upd_buf_def file_demo_def zero_buf_def)
  have "bdev (bufs (boot_demo d) b) = 0"
    by (simp add: boot_demo_def binit_def binit_loop_fields [OF refl]) (simp add: upd_buf_def file_demo_def zero_buf_def)
  then show "\<not> caches (bufs (boot_demo d)) m b" by (simp add: caches_def)
qed

lemma boot_demo_rebooted: "log_dev s = 1 \<Longrightarrow> log_start s = 2 \<Longrightarrow> disksize s = 10 \<Longrightarrow> rebooted d s (boot_demo d)"
  using boot_demo_good boot_demo_clean by (auto simp: rebooted_def)

text \<open>The transaction as \<^verbatim>\<open>log_write\<close> leaves it after a read of block 5, once its buffer has been released.\<close>

lemma txn_demo_fields:
  "disk txn_demo = (\<lambda>_ _. 0)" "disksize txn_demo = 10" "log_dev txn_demo = 1" "log_start txn_demo = 2" "lh_n txn_demo = 1" "lh_block txn_demo = (\<lambda>_. 5)"
  by (simp_all add: txn_demo_def upd_buf_def)

lemma txn_demo_caches: "caches (bufs txn_demo) m b \<longleftrightarrow> b = 0 \<and> m = 5" "bdirty (bufs txn_demo b) \<longleftrightarrow> b = 0"
  using boot_demo_clean by (auto simp: txn_demo_def upd_buf_def caches_def)

lemma txn_demo_good: "good 0 0 {} txn_demo"
proof -
  let ?s = "(boot_demo (\<lambda>_ _. 0))\<lparr>lh_n := 1, lh_block := \<lambda>_. 5\<rparr>"
  have g: "good 0 0 {} ?s" using boot_demo_good by simp
  then have "bio_ready 0 0 ?s" by (simp add: good_def)
  then have r: "bio_ready 0 0 txn_demo" unfolding txn_demo_def upd_buf_def by (rule bio_ready_bufs) auto
  obtain xs where "lru (bufs ?s) xs" using g by (auto simp: good_def cache_ok_def)
  then have "lru (bufs txn_demo) xs" unfolding txn_demo_def upd_buf_def by simp (rule lru_upd, simp_all)
  moreover have "bvalid (bufs txn_demo 0)" "bdev (bufs txn_demo 0) = 1" by (simp_all add: txn_demo_def upd_buf_def)
  ultimately have "cache_ok txn_demo" unfolding cache_ok_def txn_demo_caches by auto
  moreover have "\<not> slocked (blk (bufs txn_demo b)) \<and> refcnt (bufs txn_demo b) = 0" if "b < NBUF" for b
    using g that by (simp add: good_def txn_demo_def upd_buf_def)
  ultimately show ?thesis using r by (simp add: good_def)
qed

lemma txn_demo_layout: "layout_ok 1 (lh_block txn_demo) txn_demo"
  by (simp add: layout_ok_def txn_demo_fields le_Suc_eq)

lemma txn_demo_pinned: "pinned (lh_block txn_demo ` {0..<1}) txn_demo"
  by (auto simp: pinned_def txn_demo_fields txn_demo_caches)

theorem commit_crash_atomic_witness:
  "\<exists>t ws t'. commit txn_demo = Ok () t \<and> dwrites t = dwrites txn_demo @ ws
    \<and> recover_from_log (boot_demo (apply_writes ws (disk txn_demo))) = Ok () t' \<and> disk t' 5 = (\<lambda>_. 7)"
proof -
  have h: "load32 (disk txn_demo (log_start txn_demo)) 0 = 0" by (simp add: txn_demo_fields load32_def)
  have n: "lh_n txn_demo = int 1" by (simp add: txn_demo_fields)
  obtain t ws where t: "commit txn_demo = Ok () t" "dwrites t = dwrites txn_demo @ ws"
    and c: "\<forall>k s'. k \<le> length ws \<and> rebooted (apply_writes (take k ws) (disk txn_demo)) txn_demo s' \<longrightarrow> (\<exists>t'. recover_from_log s' = Ok () t'
      \<and> (same_blocks 1 txn_demo (disk t') (disk txn_demo) \<and> k < length ws \<or> same_blocks 1 txn_demo (disk t') (content txn_demo)))"
    using commit_crash_atomic [OF txn_demo_good txn_demo_layout n txn_demo_pinned h] by blast
  have "rebooted (apply_writes ws (disk txn_demo)) txn_demo (boot_demo (apply_writes ws (disk txn_demo)))"
    by (rule boot_demo_rebooted) (simp_all add: txn_demo_fields)
  with c [rule_format, of "length ws"] obtain t' where t': "recover_from_log (boot_demo (apply_writes ws (disk txn_demo))) = Ok () t'"
    "same_blocks 1 txn_demo (disk t') (content txn_demo)" by auto
  have "content txn_demo 5 = (\<lambda>_. 7)"
    using content_cached [of txn_demo 5 0] txn_demo_good by (simp add: good_def txn_demo_caches) (simp add: txn_demo_def upd_buf_def)
  then have "disk t' 5 = (\<lambda>_. 7)" using t'(2) by (simp add: same_blocks_def txn_demo_fields le_Suc_eq)
  with t t'(1) show ?thesis by blast
qed

theorem log_write_pins_witness:
  "\<exists>b s t. bread 1 5 (boot_demo (\<lambda>_ _. 0)) = Ok b s \<and> log_write b (upd_buf b (\<lambda>x. x\<lparr>bdata := \<lambda>_. 7\<rparr>) s) = Ok () t
    \<and> txn t = [5] \<and> content t 5 = (\<lambda>_. 7) \<and> disk t 5 = (\<lambda>_. 0)"
proof -
  let ?s = "boot_demo (\<lambda>_ _. 0)"
  have "(\<exists>b. caches (bufs ?s) 5 b) \<or> (\<exists>b < NBUF. b \<notin> {} \<and> \<not> bdirty (bufs ?s b))" using boot_demo_clean(1) by (intro disjI2 exI [of _ 0]) simp
  then obtain b s where b: "bread 1 5 ?s = Ok b s" "bio_frame 0 ?s s" "good 0 0 {b} s" "caches (bufs s) 5 b" "bvalid (bufs s b)" "disk s = disk ?s"
    "\<And>x. bdirty (bufs s x) = bdirty (bufs ?s x)"
    by (rule bread_good [OF boot_demo_good, rotated 2]) auto
  have f: "txn s = []" by (simp add: txn_def bio_frame_log [OF b(2)])
  have p: "pinned (set (txn s)) s" using boot_demo_clean(1) by (simp add: f pinned_def b(7))
  have h: "\<not> locked (log_lock s)" "lcpu (log_lock s) = None" "0 \<le> lh_n s" "lh_n s < 30" "lh_n s < log_size s - 1" "1 \<le> outstanding s"
    by (simp_all add: bio_frame_log [OF b(2)] zero_lock_def)
  from log_write_pins [OF b(3) insertI1 b(4,5) h p, of "\<lambda>_. 7"] b(1,6) show ?thesis by (auto simp: f)
qed

end
