(* ===== verification/Fs_Txn.thy ===== *)
theory Fs_Txn
  imports Log_Crash
begin

text \<open>
  The blocks of the disk as the file system sees them, over the buffer cache and the log.  Inside a transaction the three calls of
  \<^verbatim>\<open>fs.c\<close>, \<^verbatim>\<open>bread\<close>, \<^verbatim>\<open>log_write\<close> and \<^verbatim>\<open>brelse\<close>, act on the map \<open>content\<close> from block numbers to contents: a read leaves it alone, and a
  read, a change and a \<^verbatim>\<open>log_write\<close> update it at one block (\<open>read_block\<close>, \<open>edit_block\<close>).  The invariant \<open>in_txn\<close> counts the blocks that
  still fit into the log, which also guarantees that a clean buffer is left.
\<close>

section \<open>The state inside a transaction\<close>

text \<open>
  Process \<open>p\<close> on CPU \<open>i\<close> holds the buffers \<open>H\<close>, all valid and of the disk, and exactly the blocks of the transaction are dirty in the
  cache.  \<open>in_txn\<close> adds that a transaction is open and that at least \<open>n\<close> more blocks fit into the log.
\<close>

definition fs_ready :: "nat \<Rightarrow> nat \<Rightarrow> nat set \<Rightarrow> 'z log_st_scheme \<Rightarrow> bool" where
  "fs_ready i p H s \<longleftrightarrow> good i p H s \<and> pinned (set (txn s)) s \<and> (\<forall>b \<in> H. bvalid (bufs s b) \<and> bdev (bufs s b) = 1)
     \<and> length (txn s) + card H \<le> 30"

definition in_txn :: "nat \<Rightarrow> nat \<Rightarrow> nat set \<Rightarrow> nat \<Rightarrow> 'z log_st_scheme \<Rightarrow> bool" where
  "in_txn i p H n s \<longleftrightarrow> fs_ready i p H s \<and> \<not> locked (log_lock s) \<and> lcpu (log_lock s) = None \<and> 1 \<le> outstanding s
     \<and> 0 \<le> lh_n s \<and> lh_n s + int n \<le> 30 \<and> lh_n s + int n \<le> log_size s - 1 \<and> card H < n"

text \<open>The block held in buffer \<open>b\<close>, and what the steps below keep.\<close>

definition fs_same :: "nat set \<Rightarrow> 'z fs_st_scheme \<Rightarrow> 'z fs_st_scheme \<Rightarrow> bool" where
  "fs_same H s t \<longleftrightarrow> sb t = sb s \<and> inodes t = inodes s \<and> disksize t = disksize s \<and> (\<forall>b \<in> H. blockno (bufs t b) = blockno (bufs s b))"

lemma fs_same_refl [simp]: "fs_same H s s"
  by (simp add: fs_same_def)

lemma fs_same_trans: "fs_same H s t \<Longrightarrow> fs_same H' t u \<Longrightarrow> H \<subseteq> H' \<Longrightarrow> fs_same H s u"
  by (auto simp: fs_same_def)

lemma fs_sameD: "fs_same H s t \<Longrightarrow> sb t = sb s" "fs_same H s t \<Longrightarrow> inodes t = inodes s" "fs_same H s t \<Longrightarrow> disksize t = disksize s"
  "fs_same H s t \<Longrightarrow> b \<in> H \<Longrightarrow> blockno (bufs t b) = blockno (bufs s b)"
  by (simp_all add: fs_same_def)

lemma bio_frame_fs:
  assumes "bio_frame i s t" shows "sb t = sb s" "inodes t = inodes s"
proof -
  have t: "t = (settled i s)\<lparr>bufs := bufs t, disk := disk t, dwrites := dwrites t, ptable := ptable t\<rparr>" using assms by (simp add: bio_frame_def)
  show "sb t = sb s" "inodes t = inodes s" by (subst t, simp add: settled_def)+
qed

lemma held_content: "fs_ready i p H s \<Longrightarrow> b \<in> H \<Longrightarrow> bdata (bufs s b) = content s (blockno (bufs s b))"
  using content_cached [of s "blockno (bufs s b)" b] by (auto simp: fs_ready_def good_def caches_def)

lemma held_caches: "fs_ready i p H s \<Longrightarrow> b \<in> H \<Longrightarrow> caches (bufs s) m b \<longleftrightarrow> blockno (bufs s b) = m"
  by (auto simp: fs_ready_def good_def caches_def)

lemma txn_frame: "bio_frame i s t \<Longrightarrow> txn t = txn s"
  using bio_frame_log [of i s t] by (simp add: txn_def)

lemma dirty_few:
  assumes "cache_ok s" "pinned (set xs) s"
  shows "card {b. b < NBUF \<and> bdirty (bufs s b)} \<le> length xs"
proof -
  let ?D = "{b. b < NBUF \<and> bdirty (bufs s b)}"
  have "\<forall>b \<in> ?D. \<exists>m \<in> set xs. caches (bufs s) m b" using assms(2) unfolding pinned_def by blast
  then obtain f where f: "\<And>b. b \<in> ?D \<Longrightarrow> f b \<in> set xs \<and> caches (bufs s) (f b) b" by metis
  have "inj_on f ?D"
  proof (rule inj_onI)
    fix x y assume "x \<in> ?D" "y \<in> ?D" "f x = f y"
    then have "caches (bufs s) (f x) x" "caches (bufs s) (f x) y" using f [of x] f [of y] by auto
    then show "x = y" using assms(1) unfolding cache_ok_def by blast
  qed
  then have "card ?D \<le> card (set xs)" using f by (intro card_inj_on_le) auto
  then show ?thesis using card_length [of xs] by simp
qed

lemma clean_buffer:
  assumes "fs_ready i p H s" "length (txn s) + card H < 30"
  shows "\<exists>b < NBUF. b \<notin> H \<and> \<not> bdirty (bufs s b)"
proof (rule ccontr)
  let ?D = "{b. b < NBUF \<and> bdirty (bufs s b)}"
  have ok: "cache_ok s" "pinned (set (txn s)) s" "H \<subseteq> {0..<NBUF}" using assms(1) by (auto simp: fs_ready_def good_def)
  assume "\<not> ?thesis"
  then have "{0..<NBUF} \<subseteq> H \<union> ?D" by auto
  moreover have "finite H" using ok(3) finite_subset by blast
  ultimately have "NBUF \<le> card (H \<union> ?D)" using card_mono [of "H \<union> ?D" "{0..<NBUF}"] by simp
  also have "\<dots> \<le> card H + card ?D" by (rule card_Un_le)
  finally show False using dirty_few [OF ok(1,2)] assms(2) by simp
qed

section \<open>The steps of a transaction\<close>

lemma read_ready:
  assumes r: "fs_ready i p H s" and m: "m < disksize s" "\<And>b. b \<in> H \<Longrightarrow> blockno (bufs s b) \<noteq> m" and room: "length (txn s) + card H < 30"
  obtains b t where "bread 1 m s = Ok b t" "fs_ready i p (insert b H) t" "b \<notin> H" "blockno (bufs t b) = m" "bdata (bufs t b) = content s m"
    "content t = content s" "fs_same H s t" "bio_frame i s t" "txn t = txn s"
proof -
  have g: "good i p H s" and pin: "pinned (set (txn s)) s" and v: "\<And>b. b \<in> H \<Longrightarrow> bvalid (bufs s b) \<and> bdev (bufs s b) = 1"
    using r by (auto simp: fs_ready_def)
  have nc: "\<forall>b \<in> H. \<not> caches (bufs s) m b" using m(2) by (auto simp: caches_def)
  obtain b t where o: "bread 1 m s = Ok b t" "bio_frame i s t" "good i p (insert b H) t" "b \<notin> H" "caches (bufs t) m b"
    "bdata (bufs t b) = content s m" "content t = content s" "disk t = disk s" "dwrites t = dwrites s"
    "\<And>x. bdirty (bufs t x) = bdirty (bufs s x)"
    "\<And>x. x \<noteq> b \<Longrightarrow> bufs t x = bufs s x" "caches (bufs s) m b \<or> \<not> bdirty (bufs s b)" "bvalid (bufs t b)"
    by (rule bread_good [OF g m(1) nc disjI2 [OF clean_buffer [OF r room]]]) blast
  have tx: "txn t = txn s" by (rule txn_frame [OF o(2)])
  have okt: "cache_ok t" using o(3) by (simp add: good_def)
  have ut: "caches (bufs t) n x \<Longrightarrow> caches (bufs t) n y \<Longrightarrow> x = y" for n x y using okt unfolding cache_ok_def by blast
  have c: "caches (bufs t) n x = caches (bufs s) n x" if "x \<noteq> b" for n x using o(11) [OF that] by (simp add: caches_def)
  have pin': "pinned (set (txn s)) t"
    unfolding pinned_def
  proof (intro conjI allI impI ballI)
    fix x assume x: "x < NBUF"
    have "(\<exists>n \<in> set (txn s). caches (bufs t) n x) \<longleftrightarrow> bdirty (bufs s x)"
    proof (cases "x = b")
      case True
      have "(\<exists>n \<in> set (txn s). caches (bufs t) n b) \<longleftrightarrow> m \<in> set (txn s)" using o(5) by (auto simp: caches_def)
      moreover have "bdirty (bufs s b)" if mt: "m \<in> set (txn s)"
      proof -
        obtain y where y: "caches (bufs s) m y" "bdirty (bufs s y)" using pinned_dirty [OF pin mt] by blast
        then have "y = b" using c [of y m] ut [OF o(5), of y] by auto
        then show ?thesis using y by simp
      qed
      moreover have "m \<in> set (txn s)" if d: "bdirty (bufs s b)"
      proof -
        obtain n where "n \<in> set (txn s)" "caches (bufs s) n b" using pin x True d unfolding pinned_def by blast
        then show ?thesis using o(12) d by (auto simp: caches_def)
      qed
      ultimately show ?thesis using True by blast
    qed (use pin x c in \<open>simp add: pinned_def\<close>)
    then show "bdirty (bufs t x) \<longleftrightarrow> (\<exists>n \<in> set (txn s). caches (bufs t) n x)" using o(10) by simp
  next
    fix n assume n: "n \<in> set (txn s)"
    obtain x where x: "caches (bufs s) n x" "bdirty (bufs s x)" using pinned_dirty [OF pin n] by blast
    show "\<exists>x. caches (bufs t) n x"
    proof (cases "x = b")
      case True
      then have "n = m" using x o(12) by (auto simp: caches_def)
      then show ?thesis using o(5) by blast
    qed (use x c in blast)
  qed
  have fin: "finite H" using g finite_subset [of H "{0..<NBUF}"] by (auto simp: good_def)
  have vt: "bvalid (bufs t x) \<and> bdev (bufs t x) = 1" if "x \<in> insert b H" for x
  proof (cases "x = b")
    case True
    then show ?thesis using o(5,13) by (simp add: caches_def)
  qed (use that v o(11) in simp)
  have "fs_ready i p (insert b H) t"
    unfolding fs_ready_def tx using o(3,4) pin' vt room fin by simp
  moreover have "bufs t x = bufs s x" if "x \<in> H" for x using o(4,11) that by metis
  then have "fs_same H s t" using bio_frame_fs [OF o(2)] bio_frame_size [OF o(2)] by (simp add: fs_same_def)
  ultimately show thesis using that o tx by (auto simp: caches_def)
qed

lemma in_txn_frame:
  assumes "in_txn i p H n s" "bio_frame i s t" "fs_ready i p H' t" "card H' < n"
  shows "in_txn i p H' n t"
  using assms bio_frame_log [OF assms(2)] by (simp add: in_txn_def)

lemma in_txn_less: "in_txn i p H n s \<Longrightarrow> card H < m \<Longrightarrow> m \<le> n \<Longrightarrow> in_txn i p H m s"
  by (simp add: in_txn_def)

lemma in_txnD: "in_txn i p H n s \<Longrightarrow> fs_ready i p H s" "in_txn i p H n s \<Longrightarrow> length (txn s) + card H < 30"
  by (auto simp: in_txn_def txn_def)

lemma finite_held: "fs_ready i p H s \<Longrightarrow> finite H"
  using finite_subset [of H "{0..<NBUF}"] by (auto simp: fs_ready_def good_def)

lemma read_step:
  assumes t: "in_txn i p H n s" and m: "m < disksize s" "\<And>b. b \<in> H \<Longrightarrow> blockno (bufs s b) \<noteq> m" and room: "Suc (card H) < n"
  obtains b t where "bread 1 m s = Ok b t" "in_txn i p (insert b H) n t" "b \<notin> H" "blockno (bufs t b) = m" "bdata (bufs t b) = content s m"
    "content t = content s" "fs_same H s t"
proof -
  obtain b t where o: "bread 1 m s = Ok b t" "fs_ready i p (insert b H) t" "b \<notin> H" "blockno (bufs t b) = m" "bdata (bufs t b) = content s m"
    "content t = content s" "fs_same H s t" "bio_frame i s t"
    by (rule read_ready [OF in_txnD(1) [OF t] m in_txnD(2) [OF t]]) blast+
  have "card (insert b H) < n" using room finite_held [OF in_txnD(1) [OF t]] o(3) by simp
  then show thesis by (rule that [OF o(1) in_txn_frame [OF t o(8,2)] o(3-7)])
qed

lemma release_ready:
  assumes r: "fs_ready i p H s" and b: "b \<in> H"
  obtains t where "brelse b s = Ok () t" "fs_ready i p (H - {b}) t" "content t = content s" "fs_same H s t" "bio_frame i s t" "txn t = txn s"
proof -
  have g: "good i p H s" and v: "\<And>b. b \<in> H \<Longrightarrow> bvalid (bufs s b) \<and> bdev (bufs s b) = 1" and l: "length (txn s) + card H \<le> 30"
    using r by (auto simp: fs_ready_def)
  obtain t where o: "brelse b s = Ok () t" "bio_frame i s t" "good i p (H - {b}) t" "content t = content s"
    "\<And>x n. caches (bufs t) n x = caches (bufs s) n x" "\<And>x. bdirty (bufs t x) = bdirty (bufs s x)"
    "\<And>x. bvalid (bufs t x) = bvalid (bufs s x)"
    by (rule brelse_good [OF g b]) blast
  have tx: "txn t = txn s" by (rule txn_frame [OF o(2)])
  have H: "x < NBUF" if "x \<in> H" for x using g that by (auto simp: good_def)
  have bn: "bdev (bufs t x) = 1 \<and> blockno (bufs t x) = blockno (bufs s x)" if "x \<in> H" for x
    using o(5) [of "blockno (bufs s x)" x] v [OF that] H [OF that] by (auto simp: caches_def)
  have "pinned (set (txn s)) t" using r unfolding fs_ready_def pinned_def o(5,6) by blast
  moreover have "card (H - {b}) \<le> card H" using finite_held [OF r] by (intro card_mono) auto
  ultimately have "fs_ready i p (H - {b}) t"
    using o(3,7) v bn l by (auto simp: fs_ready_def tx)
  moreover have "fs_same H s t" using bn bio_frame_fs [OF o(2)] bio_frame_size [OF o(2)] by (auto simp: fs_same_def)
  ultimately show thesis using that o tx by blast
qed

lemma release_step:
  assumes "in_txn i p H n s" "b \<in> H"
  obtains t where "brelse b s = Ok () t" "in_txn i p (H - {b}) n t" "content t = content s" "fs_same H s t"
proof -
  obtain t where o: "brelse b s = Ok () t" "fs_ready i p (H - {b}) t" "content t = content s" "fs_same H s t" "bio_frame i s t"
    by (rule release_ready [OF in_txnD(1) [OF assms(1)] assms(2)]) blast
  have "card (H - {b}) \<le> card H" by (rule card_mono [OF finite_held [OF in_txnD(1) [OF assms(1)]]]) auto
  then have "card (H - {b}) < n" using assms(1) by (auto simp: in_txn_def)
  then show thesis by (rule that [OF o(1) in_txn_frame [OF assms(1) o(5,2)] o(3,4)])
qed

lemma write_step:
  assumes t: "in_txn i p H (Suc n) s" and b: "b \<in> H" "blockno (bufs s b) = m" and n: "card H < n"
  obtains t where "log_write b (upd_buf b (\<lambda>x. x\<lparr>bdata := f (bdata x)\<rparr>) s) = Ok () t" "in_txn i p H n t"
    "content t = (content s)(m := f (content s m))" "fs_same H s t"
proof -
  have r: "fs_ready i p H s" and h: "\<not> locked (log_lock s)" "lcpu (log_lock s) = None" "0 \<le> lh_n s" "lh_n s < 30" "lh_n s < log_size s - 1" "1 \<le> outstanding s"
    using t by (auto simp: in_txn_def)
  have g: "good i p H s" "pinned (set (txn s)) s" "caches (bufs s) m b" "bvalid (bufs s b)" "bdata (bufs s b) = content s m"
    using r b held_caches [OF r b(1)] held_content [OF r b(1)] by (auto simp: fs_ready_def)
  obtain t where o: "log_write b (upd_buf b (\<lambda>x. x\<lparr>bdata := f (content s m)\<rparr>) s) = Ok () t"
    "txn t = (if m \<in> set (txn s) then txn s else txn s @ [m])" "pinned (set (txn t)) t" "good i p H t"
    "content t = (content s)(m := f (content s m))" "\<exists>B n g. t = (settled i s)\<lparr>bufs := B, lh_n := int n, lh_block := g\<rparr>"
    "\<forall>x. blockno (bufs t x) = blockno (bufs s x) \<and> bdev (bufs t x) = bdev (bufs s x) \<and> bvalid (bufs t x) = bvalid (bufs s x)"
    using log_write_step [OF g(1) b(1) g(3,4) h g(2), of "f (content s m)"] by blast
  have e: "upd_buf b (\<lambda>x. x\<lparr>bdata := f (bdata x)\<rparr>) s = upd_buf b (\<lambda>x. x\<lparr>bdata := f (content s m)\<rparr>) s"
    using g(5) by (simp add: upd_buf_def)
  obtain B k ff where t': "t = (settled i s)\<lparr>bufs := B, lh_n := int k, lh_block := ff\<rparr>" using o(6) by blast
  have fld: "log_lock t = log_lock s" "log_size t = log_size s" "outstanding t = outstanding s" "sb t = sb s" "inodes t = inodes s" "disksize t = disksize s"
    by (simp_all add: t' settled_def)
  have "length (txn t) \<le> Suc (length (txn s))" using o(2) by simp
  then have len: "length (txn t) \<le> Suc (length (txn s))" "length (txn s) = nat (lh_n s)" "length (txn t) = nat (lh_n t)" by (simp_all add: txn_def)
  have "0 \<le> lh_n t" by (simp add: t')
  then have "in_txn i p H n t" using t n len o(3,4,7) fld by (auto simp: in_txn_def fs_ready_def)
  moreover have "fs_same H s t" using o(7) fld by (simp add: fs_same_def)
  ultimately show thesis using that o(1,5) e by metis
qed

section \<open>Reading and editing one block\<close>

text \<open>A block is read and released.\<close>

lemma read_block:
  assumes "in_txn i p H n s" "m < disksize s" "\<And>b. b \<in> H \<Longrightarrow> blockno (bufs s b) \<noteq> m" "Suc (card H) < n"
  obtains b t u where "bread 1 m s = Ok b t" "bdata (bufs t b) = content s m" "fs_same H s t" "content t = content s"
    "brelse b t = Ok () u" "in_txn i p H n u" "content u = content s" "fs_same H s u"
proof -
  obtain b t where o: "bread 1 m s = Ok b t" "in_txn i p (insert b H) n t" "b \<notin> H" "blockno (bufs t b) = m" "bdata (bufs t b) = content s m"
    "content t = content s" "fs_same H s t"
    by (rule read_step [OF assms]) blast+
  obtain u where u: "brelse b t = Ok () u" "in_txn i p (insert b H - {b}) n u" "content u = content t" "fs_same (insert b H) t u"
    by (rule release_step [OF o(2) insertI1]) blast
  have "insert b H - {b} = H" using o(3) by blast
  with u(2) have "in_txn i p H n u" by simp
  moreover have "fs_same H s u" by (rule fs_same_trans [OF o(7) u(4)]) blast
  ultimately show thesis using that [OF o(1,5,7,6) u(1)] u(3) o(6) by simp
qed

text \<open>A block is read, its data changed by \<open>f\<close>, recorded in the log and released.\<close>

lemma edit_held:
  assumes t: "in_txn i p (insert b H) (Suc n) s" and b: "b \<notin> H" "blockno (bufs s b) = m" and n: "Suc (card H) < n"
  obtains t u where "log_write b (upd_buf b (\<lambda>x. x\<lparr>bdata := f (bdata x)\<rparr>) s) = Ok () t" "brelse b t = Ok () u"
    "in_txn i p H n u" "content u = (content s)(m := f (content s m))" "fs_same H s u"
proof -
  have "card (insert b H) < n" using n b(1) finite_held [OF in_txnD(1) [OF t]] by simp
  from t insertI1 b(2) this obtain t where o: "log_write b (upd_buf b (\<lambda>x. x\<lparr>bdata := f (bdata x)\<rparr>) s) = Ok () t" "in_txn i p (insert b H) n t"
    "content t = (content s)(m := f (content s m))" "fs_same (insert b H) s t"
    by (rule write_step [where f = f]) blast
  obtain u where u: "brelse b t = Ok () u" "in_txn i p (insert b H - {b}) n u" "content u = content t" "fs_same (insert b H) t u"
    by (rule release_step [OF o(2) insertI1]) blast
  have "insert b H - {b} = H" using b(1) by blast
  with u(2) have "in_txn i p H n u" by simp
  moreover have "fs_same H s u" using fs_same_trans [OF o(4) u(4)] by (auto simp: fs_same_def)
  ultimately show thesis using that [OF o(1) u(1)] u(3) o(3) by simp
qed

lemma edit_block:
  assumes "in_txn i p H (Suc n) s" "m < disksize s" "\<And>b. b \<in> H \<Longrightarrow> blockno (bufs s b) \<noteq> m" "Suc (card H) < n"
  obtains b t u v where "bread 1 m s = Ok b t" "bdata (bufs t b) = content s m" "fs_same H s t" "content t = content s"
    "log_write b (upd_buf b (\<lambda>x. x\<lparr>bdata := f (bdata x)\<rparr>) t) = Ok () u" "brelse b u = Ok () v"
    "in_txn i p H n v" "content v = (content s)(m := f (content s m))" "fs_same H s v"
proof -
  have "Suc (card H) < Suc n" using assms(4) by simp
  from assms(1-3) this obtain b t where o: "bread 1 m s = Ok b t" "in_txn i p (insert b H) (Suc n) t" "b \<notin> H" "blockno (bufs t b) = m"
    "bdata (bufs t b) = content s m" "content t = content s" "fs_same H s t"
    by (rule read_step) blast+
  obtain u v where u: "log_write b (upd_buf b (\<lambda>x. x\<lparr>bdata := f (bdata x)\<rparr>) t) = Ok () u" "brelse b u = Ok () v"
    "in_txn i p H n v" "content v = (content t)(m := f (content t m))" "fs_same H t v"
    by (rule edit_held [OF o(2-4) assms(4), where f = f]) blast
  have "fs_same H s v" by (rule fs_same_trans [OF o(7) u(5)]) blast
  then show thesis using that [OF o(1,5,7,6) u(1-3)] u(4) o(6) by simp
qed

lemma bzero_txn:
  assumes "in_txn i p H (Suc n) s" "m < disksize s" "\<And>b. b \<in> H \<Longrightarrow> blockno (bufs s b) \<noteq> m" "Suc (card H) < n"
  obtains t where "bzero 1 m s = Ok () t" "in_txn i p H n t" "content t = (content s)(m := memset (content s m) 0 0 BSIZE)" "fs_same H s t"
proof -
  obtain b t u v where o: "bread 1 m s = Ok b t" "log_write b (upd_buf b (\<lambda>x. x\<lparr>bdata := memset (bdata x) 0 0 BSIZE\<rparr>) t) = Ok () u" "brelse b u = Ok () v"
    "in_txn i p H n v" "content v = (content s)(m := memset (content s m) 0 0 BSIZE)" "fs_same H s v"
    by (rule edit_block [OF assms, where f = "\<lambda>d. memset d 0 0 BSIZE"]) blast+
  then show thesis by (intro that [of v]) (simp_all add: bzero_def)
qed

end
