(* ===== verification/Fs_Blocks.thy ===== *)
theory Fs_Blocks
  imports Fs_Txn
begin

text \<open>
  Block allocation and the block map of a file (\<^verbatim>\<open>balloc\<close> and \<^verbatim>\<open>bmap\<close> of \<^verbatim>\<open>fs.c\<close>).  \<open>used\<close> reads the bitmap, \<open>slot\<close> the disk blocks of
  an inode, direct and indirect.  \<open>file_ok\<close> is the invariant of a file: its blocks are marked in the bitmap, distinct, and no
  metadata.  \<open>balloc\<close> takes a free block, and \<open>bmap\<close> keeps \<open>file_ok\<close>, maps the block asked for and moves no other.
\<close>

section \<open>Block allocation\<close>

text \<open>Block \<open>b\<close> is in use according to the bitmap.\<close>

definition used :: "(u32 \<Rightarrow> block) \<Rightarrow> superblock \<Rightarrow> nat \<Rightarrow> bool" where
  "used c S b \<longleftrightarrow> bit_set (c (BBLOCK (of_nat b) S)) (b mod 4096)"

text \<open>The contents of the disk after block \<open>b\<close> has been allocated: it is marked in the bitmap and cleared.\<close>

definition alloc_content :: "superblock \<Rightarrow> nat \<Rightarrow> (u32 \<Rightarrow> block) \<Rightarrow> (u32 \<Rightarrow> block)" where
  "alloc_content S b c =
     (let c = c(BBLOCK (of_nat b) S := mark_bit (c (BBLOCK (of_nat b) S)) (b mod 4096)) in c(of_nat b := memset (c (of_nat b)) 0 0 BSIZE))"

lemma BBLOCK_chunk:
  assumes "4096 * k + j < 2 ^ 32" "j < 4096"
  shows "BBLOCK (of_nat (4096 * k + j)) S = BBLOCK (of_nat (4096 * k)) S"
proof -
  have "(of_nat (4096 * k + j) :: u32) div 4096 = of_nat (4096 * k) div 4096"
    using assms by (simp add: word_unat_eq_iff unat_div unat_of_nat del: of_nat_add of_nat_mult)
  then show ?thesis by (simp add: BBLOCK_def)
qed

lemma findi_upt: "findi P [0..<n] = Some j \<longleftrightarrow> j < n \<and> P j \<and> (\<forall>i < j. \<not> P i)" "findi P [0..<n] = None \<longleftrightarrow> (\<forall>i < n. \<not> P i)"
  by (auto simp: findi_Some_iff findi_None_iff)

text \<open>What \<open>balloc\<close> needs to know of the first free block \<open>b\<close> and of the bitmap.\<close>

definition first_free :: "nat set \<Rightarrow> nat \<Rightarrow> 'z fs_st_scheme \<Rightarrow> bool" where
  "first_free H b s \<longleftrightarrow> b < unat (sb_size (sb s)) \<and> \<not> used (content s) (sb s) b \<and> (\<forall>j < b. used (content s) (sb s) j)
     \<and> of_nat b < disksize s \<and> (\<forall>j \<le> b. BBLOCK (of_nat j) (sb s) < disksize s)
     \<and> (\<forall>x \<in> H. blockno (bufs s x) \<noteq> of_nat b \<and> (\<forall>j \<le> b. blockno (bufs s x) \<noteq> BBLOCK (of_nat j) (sb s)))"

lemma first_free_same:
  assumes "first_free H b s" "fs_same H s t" "content t = content s"
  shows "first_free H b t"
  using assms(1) fs_sameD [OF assms(2)] by (simp add: first_free_def assms(3))

lemma balloc_loop_txn:
  assumes "in_txn i p H (Suc (Suc n)) s" "Suc (card H) < n" "first_free H b s" "k \<le> b div 4096" "b div 4096 < K"
  shows "\<exists>t. balloc_loop 1 (map (\<lambda>k. 4096 * k) [k..<K]) s = Ok (of_nat b) t \<and> in_txn i p H n t
    \<and> content t = alloc_content (sb s) b (content s) \<and> fs_same H s t"
  using assms
proof (induction "b div 4096 - k" arbitrary: k s)
  case (Suc d)
  have b: "b < unat (sb_size (sb s))" "\<And>j. j < b \<Longrightarrow> used (content s) (sb s) j" using Suc.prems(3) by (auto simp: first_free_def)
  have kb: "4096 * k + j < b" if "j < 4096" for j using Suc.hyps(2) that by linarith
  have small: "4096 * k + j < 2 ^ 32" if "j < 4096" for j using kb [OF that] b(1) unat_u32_less [of "sb_size (sb s)"] by simp
  let ?m = "BBLOCK (of_nat (4096 * k)) (sb s)"
  have mb: "?m < disksize s" "x \<in> H \<Longrightarrow> blockno (bufs s x) \<noteq> ?m" for x
    using Suc.prems(3) kb [of 0] unfolding first_free_def by (metis add.right_neutral less_imp_le zero_less_numeral)+
  have room: "Suc (card H) < Suc (Suc n)" using Suc.prems(2) by simp
  from Suc.prems(1) mb room obtain bp t u where o: "bread 1 ?m s = Ok bp t" "bdata (bufs t bp) = content s ?m" "fs_same H s t" "brelse bp t = Ok () u"
    "in_txn i p H (Suc (Suc n)) u" "content u = content s" "fs_same H s u"
    by (rule read_block) blast+
  have "bit_set (content s ?m) j" if "j < 4096" for j
  proof -
    have "(4096 * k + j) mod 4096 = j" using that by simp
    then show ?thesis using b(2) [OF kb [OF that]] BBLOCK_chunk [OF small [OF that] that] by (simp add: used_def)
  qed
  then have none: "findi (\<lambda>bi. 4096 * k + bi < unat (sb_size (sb t)) \<and> \<not> bit_set (bdata (bufs t bp)) bi) [0..<4096] = None"
    unfolding findi_upt(2) o(2) by blast
  have ff: "first_free H b u" by (rule first_free_same [OF Suc.prems(3) o(7,6)])
  have "d = b div 4096 - Suc k" "Suc k \<le> b div 4096" using Suc.hyps(2) by simp_all
  from Suc.hyps(1) [OF this(1) o(5) Suc.prems(2) ff this(2) Suc.prems(5)] obtain v where
    v: "balloc_loop 1 (map (\<lambda>k. 4096 * k) [Suc k..<K]) u = Ok (of_nat b) v" "in_txn i p H n v"
      "content v = alloc_content (sb s) b (content s)" "fs_same H u v" using fs_sameD(1) [OF o(7)] o(6) by auto
  have "[k..<K] = k # [Suc k..<K]" using Suc.prems(4,5) by (simp add: upt_conv_Cons)
  then have "balloc_loop 1 (map (\<lambda>k. 4096 * k) [k..<K]) s = Ok (of_nat b) v" using o(1,4) none v(1) by simp
  then show ?case using v fs_same_trans [OF o(7) v(4)] by blast
next
  case 0
  let ?j = "b mod 4096" let ?m = "BBLOCK (of_nat (4096 * k)) (sb s)"
  have k: "k = b div 4096" using 0 by simp
  then have bk: "4096 * k + ?j = b" by simp
  have b: "b < unat (sb_size (sb s))" "\<And>j. j < b \<Longrightarrow> used (content s) (sb s) j" "\<not> used (content s) (sb s) b" "of_nat b < disksize s"
    "\<And>x. x \<in> H \<Longrightarrow> blockno (bufs s x) \<noteq> of_nat b"
    using 0(4) by (auto simp: first_free_def)
  have b32: "b < 2 ^ 32" using b(1) unat_u32_less [of "sb_size (sb s)"] by simp
  have m: "BBLOCK (of_nat (4096 * k + j)) (sb s) = ?m" if "j \<le> ?j" for j
    by (rule BBLOCK_chunk) (use that b32 bk in linarith)+
  have mb: "?m = BBLOCK (of_nat b) (sb s)" using m [of ?j] bk by simp
  have md: "?m < disksize s" "x \<in> H \<Longrightarrow> blockno (bufs s x) \<noteq> ?m" for x using 0(4) mb by (auto simp: first_free_def)
  have nb: "bit_set (content s ?m) j \<longleftrightarrow> j < ?j" if "j \<le> ?j" for j
  proof -
    have "(4096 * k + j) mod 4096 = j" "4096 * k + j < b \<longleftrightarrow> j < ?j" "4096 * k + j = b \<longleftrightarrow> j = ?j" using that bk mod_less_divisor [of 4096 b] by auto
    then show ?thesis using b(2) [of "4096 * k + j"] b(3) m [OF that] that by (auto simp: used_def)
  qed
  from 0(2) have t1: "in_txn i p H (Suc (Suc n)) s" .
  have room: "Suc (card H) < Suc n" using 0(3) by simp
  from t1 md room obtain bp t u v where o: "bread 1 ?m s = Ok bp t" "bdata (bufs t bp) = content s ?m" "fs_same H s t"
    "log_write bp (upd_buf bp (\<lambda>x. x\<lparr>bdata := mark_bit (bdata x) ?j\<rparr>) t) = Ok () u" "brelse bp u = Ok () v"
    "in_txn i p H (Suc n) v" "content v = (content s)(?m := mark_bit (content s ?m) ?j)" "fs_same H s v"
    by (rule edit_block [where f = "\<lambda>d. mark_bit d ?j"]) blast+
  have bb: "of_nat b < disksize v" "x \<in> H \<Longrightarrow> blockno (bufs v x) \<noteq> of_nat b" for x using b(4,5) fs_sameD(3,4) [OF o(8)] by auto
  from o(6) bb 0(3) obtain w where w: "bzero 1 (of_nat b) v = Ok () w" "in_txn i p H n w"
    "content w = (content v)(of_nat b := memset (content v (of_nat b)) 0 0 BSIZE)" "fs_same H v w"
    by (rule bzero_txn) blast+
  have "findi (\<lambda>bi. 4096 * k + bi < unat (sb_size (sb t)) \<and> \<not> bit_set (bdata (bufs t bp)) bi) [0..<4096] = Some ?j"
    unfolding findi_upt(1) o(2) fs_sameD(1) [OF o(3)] using nb bk b(1) by auto
  moreover have "[k..<K] = k # [Suc k..<K]" using 0(6) k by (simp add: upt_conv_Cons)
  ultimately have "balloc_loop 1 (map (\<lambda>k. 4096 * k) [k..<K]) s = Ok (of_nat b) w" using o(1,4,5) w(1) bk by simp
  moreover have "content w = alloc_content (sb s) b (content s)" unfolding alloc_content_def Let_def w(3) o(7) mb ..
  ultimately show ?case using w(2) fs_same_trans [OF o(8) w(4)] by blast
qed

lemma balloc_txn:
  assumes "in_txn i p H (Suc (Suc n)) s" "Suc (card H) < n" "first_free H b s"
  obtains t where "balloc 1 s = Ok (of_nat b) t" "in_txn i p H n t" "content t = alloc_content (sb s) b (content s)" "fs_same H s t"
proof -
  have "b < unat (sb_size (sb s))" using assms(3) by (simp add: first_free_def)
  then have "b div 4096 < (unat (sb_size (sb s)) + 4095) div 4096" by linarith
  then show thesis using balloc_loop_txn [OF assms le0] that unfolding balloc_def by blast
qed

lemma bit_set_iff: "bit_set d j \<longleftrightarrow> bit (d (of_nat (j div 8))) (j mod 8)"
  by (simp add: bit_set_def and_exp_eq_0_iff_not_bit flip: push_bit_eq_mult bit_iff_and_push_bit_not_eq_0)

lemma mark_bit_set: "j < 4096 \<Longrightarrow> k < 4096 \<Longrightarrow> bit_set (mark_bit d k) j \<longleftrightarrow> j = k \<or> bit_set d j"
proof -
  assume jk: "j < 4096" "k < 4096"
  then have "(of_nat (j div 8) :: u32) = of_nat (k div 8) \<longleftrightarrow> j div 8 = k div 8" by (simp add: word_unat_eq_iff unat_of_nat)
  moreover have "j = k \<longleftrightarrow> j div 8 = k div 8 \<and> j mod 8 = k mod 8" by (metis mult_div_mod_eq)
  ultimately show ?thesis by (auto simp: bit_set_iff mark_bit_def bit_or_iff bit_exp_iff)
qed

lemma clear_bit_set: "j < 4096 \<Longrightarrow> k < 4096 \<Longrightarrow> bit_set (clear_bit d k) j \<longleftrightarrow> j \<noteq> k \<and> bit_set d j"
proof -
  assume jk: "j < 4096" "k < 4096"
  then have "(of_nat (j div 8) :: u32) = of_nat (k div 8) \<longleftrightarrow> j div 8 = k div 8" by (simp add: word_unat_eq_iff unat_of_nat)
  moreover have "j = k \<longleftrightarrow> j div 8 = k div 8 \<and> j mod 8 = k mod 8" by (metis mult_div_mod_eq)
  ultimately show ?thesis by (auto simp: bit_set_iff clear_bit_def bit_and_iff bit_not_iff bit_exp_iff)
qed

text \<open>
  The bitmap describes a file system of \<^verbatim>\<open>sb.size\<close> blocks that fits on a disk of \<open>D\<close> blocks; block 0 and the bitmap itself are in
  use.
\<close>

definition bitmap_ok :: "(u32 \<Rightarrow> block) \<Rightarrow> superblock \<Rightarrow> u32 \<Rightarrow> bool" where
  "bitmap_ok c S D \<longleftrightarrow> sb_size S \<le> D \<and> used c S 0
     \<and> (\<forall>j < unat (sb_size S). BBLOCK (of_nat j) S < sb_size S \<and> used c S (unat (BBLOCK (of_nat j) S)))"

lemma BBLOCK_eq_iff:
  assumes "j < 2 ^ 32" "k < 2 ^ 32"
  shows "BBLOCK (of_nat j) S = BBLOCK (of_nat k) S \<longleftrightarrow> j div 4096 = k div 4096"
  using assms by (simp add: BBLOCK_def word_unat_eq_iff [of "of_nat j div 4096"] unat_div unat_of_nat)

lemma used_alloc:
  assumes ok: "bitmap_ok c S D" and b: "b < unat (sb_size S)" "\<not> used c S b" and j: "j < unat (sb_size S)"
  shows "used (alloc_content S b c) S j \<longleftrightarrow> j = b \<or> used c S j"
proof -
  have lt: "j < 2 ^ 32" "b < 2 ^ 32" using b(1) j unat_u32_less [of "sb_size S"] by simp_all
  have "BBLOCK (of_nat j) S \<noteq> of_nat b"
  proof
    assume "BBLOCK (of_nat j) S = of_nat b"
    then have "used c S (unat (of_nat b :: u32))" using ok j by (auto simp: bitmap_ok_def)
    then show False using b(2) lt(2) by (simp add: unat_of_nat)
  qed
  then have c: "alloc_content S b c (BBLOCK (of_nat j) S) =
    (if j div 4096 = b div 4096 then mark_bit (c (BBLOCK (of_nat b) S)) (b mod 4096) else c (BBLOCK (of_nat j) S))"
    using BBLOCK_eq_iff [OF lt] by (simp add: alloc_content_def Let_def)
  show ?thesis
  proof (cases "j div 4096 = b div 4096")
    case True
    then have "j = b \<longleftrightarrow> j mod 4096 = b mod 4096" by (metis mult_div_mod_eq)
    moreover have "BBLOCK (of_nat j) S = BBLOCK (of_nat b) S" using BBLOCK_eq_iff [OF lt] True by blast
    ultimately
    show ?thesis using True c by (simp add: used_def mark_bit_set)
  next
    case False
    then show ?thesis using c by (auto simp: used_def)
  qed
qed

lemma first_free_exists:
  assumes ok: "bitmap_ok (content s) (sb s) (disksize s)" and free: "b < unat (sb_size (sb s))" "\<not> used (content s) (sb s) b"
    and held: "\<And>x. x \<in> H \<Longrightarrow> used (content s) (sb s) (unat (blockno (bufs s x)))"
      "\<And>x j. x \<in> H \<Longrightarrow> j < unat (sb_size (sb s)) \<Longrightarrow> blockno (bufs s x) \<noteq> BBLOCK (of_nat j) (sb s)"
  obtains a where "first_free H a s" "a \<le> b" "\<not> used (content s) (sb s) a"
proof -
  obtain a where a: "\<not> used (content s) (sb s) a" "a \<le> b" "\<And>j. j < a \<Longrightarrow> used (content s) (sb s) j"
    using exists_least_iff [of "\<lambda>b. \<not> used (content s) (sb s) b"] free(2) by (metis not_less)
  have lt: "a < unat (sb_size (sb s))" "a < 2 ^ 32" using a(2) free(1) unat_u32_less [of "sb_size (sb s)"] by simp_all
  have "of_nat a < sb_size (sb s)" using lt by (simp add: word_less_nat_alt unat_of_nat)
  then have "of_nat a < disksize s" using ok by (auto simp: bitmap_ok_def intro: less_le_trans)
  moreover have "BBLOCK (of_nat j) (sb s) < disksize s" if "j \<le> a" for j using ok that lt(1) unfolding bitmap_ok_def by (meson le_less_trans less_le_trans)
  moreover have "blockno (bufs s x) \<noteq> of_nat a" if "x \<in> H" for x using held(1) [OF that] a(1) lt(2) by (auto simp: unat_of_nat)
  ultimately have "first_free H a s" using a lt held(2) by (auto simp: first_free_def)
  then show thesis using that a by blast
qed

definition bitmap_block :: "superblock \<Rightarrow> u32 \<Rightarrow> bool" where
  "bitmap_block S m \<longleftrightarrow> (\<exists>j < unat (sb_size S). m = BBLOCK (of_nat j) S)"

lemma bitmap_ok_alloc:
  assumes "bitmap_ok c S D" "b < unat (sb_size S)" "\<not> used c S b"
  shows "bitmap_ok (alloc_content S b c) S D"
proof -
  have "0 < unat (sb_size S)" using assms(2) by simp
  then show ?thesis
    unfolding bitmap_ok_def using assms(1) used_alloc [OF assms, of 0] used_alloc [OF assms] by (auto simp: bitmap_ok_def word_less_nat_alt)
qed

lemma alloc_other: "m \<noteq> of_nat b \<Longrightarrow> b < unat (sb_size S) \<Longrightarrow> \<not> bitmap_block S m \<Longrightarrow> alloc_content S b c m = c m"
  by (auto simp: alloc_content_def Let_def bitmap_block_def)

lemma alloc_zero: "k < 512 \<Longrightarrow> alloc_content S b c (of_nat b) k = 0"
  by (simp add: alloc_content_def Let_def memset_eq)

text \<open>The number of free blocks.\<close>

definition nfree :: "(u32 \<Rightarrow> block) \<Rightarrow> superblock \<Rightarrow> nat" where
  "nfree c S = card {b. b < unat (sb_size S) \<and> \<not> used c S b}"

lemma nfree_alloc:
  assumes "bitmap_ok c S D" "b < unat (sb_size S)" "\<not> used c S b"
  shows "nfree (alloc_content S b c) S = nfree c S - 1"
proof -
  have "{j. j < unat (sb_size S) \<and> \<not> used (alloc_content S b c) S j} = {j. j < unat (sb_size S) \<and> \<not> used c S j} - {b}"
    using used_alloc [OF assms] by auto
  then show ?thesis using assms(2,3) by (simp add: nfree_def)
qed

lemma nfree_pos: "0 < nfree c S \<Longrightarrow> \<exists>b. b < unat (sb_size S) \<and> \<not> used c S b"
proof (rule ccontr)
  assume p: "0 < nfree c S" and "\<not> ?thesis"
  then have "{b. b < unat (sb_size S) \<and> \<not> used c S b} = {}" by auto
  with p show False by (simp only: nfree_def card.empty)
qed

lemma balloc_some:
  assumes t: "in_txn i p H (Suc (Suc n)) s" "Suc (card H) < n" and ok: "bitmap_ok (content s) (sb s) (disksize s)"
    and free: "0 < nfree (content s) (sb s)"
    and held: "\<And>x. x \<in> H \<Longrightarrow> used (content s) (sb s) (unat (blockno (bufs s x))) \<and> \<not> bitmap_block (sb s) (blockno (bufs s x))"
  obtains b t where "balloc 1 s = Ok (of_nat b) t" "b < unat (sb_size (sb s))" "\<not> used (content s) (sb s) b" "b \<noteq> 0"
    "in_txn i p H n t" "content t = alloc_content (sb s) b (content s)" "fs_same H s t"
proof -
  obtain a where a: "a < unat (sb_size (sb s))" "\<not> used (content s) (sb s) a" using nfree_pos [OF free] by blast
  have h: "x \<in> H \<Longrightarrow> used (content s) (sb s) (unat (blockno (bufs s x)))"
    "x \<in> H \<Longrightarrow> j < unat (sb_size (sb s)) \<Longrightarrow> blockno (bufs s x) \<noteq> BBLOCK (of_nat j) (sb s)" for x j
    using held [of x] by (auto simp: bitmap_block_def)
  from ok a h obtain b where b: "first_free H b s" "\<not> used (content s) (sb s) b" by (rule first_free_exists) blast+
  have bs: "b < unat (sb_size (sb s))" "b \<noteq> 0" using b ok by (auto simp: first_free_def bitmap_ok_def intro: ccontr)
  obtain t where "balloc 1 s = Ok (of_nat b) t" "in_txn i p H n t" "content t = alloc_content (sb s) b (content s)" "fs_same H s t"
    by (rule balloc_txn [OF t b(1)]) blast
  then show thesis using that bs b(2) by blast
qed

text \<open>
  C6: \<open>balloc\<close> hands out a block that was free, marks exactly it in the bitmap, clears it, and changes no block but these two; the
  bitmap stays well formed.  The effect goes through the log: the transaction stays in order, with room for two blocks less.
\<close>

theorem balloc_allocates:
  assumes "in_txn i p {} (Suc (Suc n)) s" "1 < n" "bitmap_ok (content s) (sb s) (disksize s)" "0 < nfree (content s) (sb s)"
  shows "\<exists>b t. balloc 1 s = Ok (of_nat b) t \<and> b \<noteq> 0 \<and> b < unat (sb_size (sb s)) \<and> \<not> used (content s) (sb s) b
    \<and> (\<forall>j < unat (sb_size (sb s)). used (content t) (sb s) j \<longleftrightarrow> j = b \<or> used (content s) (sb s) j)
    \<and> (\<forall>k < 512. content t (of_nat b) k = 0) \<and> (\<forall>m. m \<noteq> of_nat b \<longrightarrow> m \<noteq> BBLOCK (of_nat b) (sb s) \<longrightarrow> content t m = content s m)
    \<and> bitmap_ok (content t) (sb s) (disksize s) \<and> in_txn i p {} n t"
proof -
  obtain b t where o: "balloc 1 s = Ok (of_nat b) t" "b < unat (sb_size (sb s))" "\<not> used (content s) (sb s) b" "b \<noteq> 0"
    "in_txn i p {} n t" "content t = alloc_content (sb s) b (content s)"
    by (rule balloc_some [OF assms(1) _ assms(3,4)]) (use assms(2) in auto)
  have "content t m = content s m" if "m \<noteq> of_nat b" "m \<noteq> BBLOCK (of_nat b) (sb s)" for m
    using that by (simp add: o(6) alloc_content_def Let_def)
  then show ?thesis
    using o used_alloc [OF assms(3) o(2,3)] bitmap_ok_alloc [OF assms(3) o(2,3)] alloc_zero [of _ "sb s" b "content s"] by (intro exI [of _ b] exI [of _ t]) simp
qed

section \<open>The blocks of a file\<close>

text \<open>
  Slot \<open>j\<close> of an inode: the disk block of file block \<open>j\<close> for \<open>j < 140\<close>, 0 if there is none; slot 140 is the indirect block.
\<close>

definition slot :: "(u32 \<Rightarrow> block) \<Rightarrow> inode \<Rightarrow> nat \<Rightarrow> u32" where
  "slot c ino j = (if j < 12 then iaddrs ino j else if j = 140 then iaddrs ino 12
     else if iaddrs ino 12 = 0 then 0 else load32 (c (iaddrs ino 12)) (4 * of_nat (j - 12)))"

text \<open>A block of file data or an indirect block: in use, and no block of the bitmap nor the one the inode itself is in.\<close>

definition data_block :: "(u32 \<Rightarrow> block) \<Rightarrow> superblock \<Rightarrow> inode \<Rightarrow> u32 \<Rightarrow> bool" where
  "data_block c S ino m \<longleftrightarrow> m < sb_size S \<and> used c S (unat m) \<and> \<not> bitmap_block S m \<and> m \<noteq> IBLOCK (inum ino) S"

text \<open>The blocks of an inode are data blocks, and no two slots share one.\<close>

definition file_ok :: "(u32 \<Rightarrow> block) \<Rightarrow> superblock \<Rightarrow> u32 \<Rightarrow> inode \<Rightarrow> bool" where
  "file_ok c S D ino \<longleftrightarrow> bitmap_ok c S D \<and> idev ino = 1 \<and> IBLOCK (inum ino) S < sb_size S \<and> used c S (unat (IBLOCK (inum ino) S))
     \<and> \<not> bitmap_block S (IBLOCK (inum ino) S)
     \<and> (\<forall>j \<le> 140. slot c ino j \<noteq> 0 \<longrightarrow> data_block c S ino (slot c ino j) \<and> (\<forall>k \<le> 140. slot c ino k = slot c ino j \<longrightarrow> k = j))"

lemma file_okD:
  assumes "file_ok c S D ino"
  shows "bitmap_ok c S D" "idev ino = 1" "IBLOCK (inum ino) S < sb_size S" "used c S (unat (IBLOCK (inum ino) S))" "\<not> bitmap_block S (IBLOCK (inum ino) S)"
    "j \<le> 140 \<Longrightarrow> slot c ino j \<noteq> 0 \<Longrightarrow> data_block c S ino (slot c ino j)"
    "j \<le> 140 \<Longrightarrow> k \<le> 140 \<Longrightarrow> slot c ino j \<noteq> 0 \<Longrightarrow> slot c ino k = slot c ino j \<Longrightarrow> k = j"
  using assms by (auto simp: file_ok_def)

text \<open>A fresh block put into one slot.\<close>

lemma file_ok_add:
  assumes ok: "file_ok c S D ino" and b: "b < unat (sb_size S)" "\<not> used c S b"
    and u: "\<And>x. x < unat (sb_size S) \<Longrightarrow> used c' S x \<longleftrightarrow> x = b \<or> used c S x"
    and s: "\<And>k. k \<le> 140 \<Longrightarrow> slot c' ino' k = (if k = j then of_nat b else slot c ino k)" and n: "inum ino' = inum ino" "idev ino' = idev ino"
  shows "file_ok c' S D ino'"
proof -
  have b32: "unat (of_nat b :: u32) = b" using b(1) unat_u32_less [of "sb_size S"] by (simp add: unat_of_nat)
  have u': "used c' S (unat m)" if "m < sb_size S" "used c S (unat m)" for m using u [of "unat m"] that by (simp add: word_less_nat_alt)
  have ok': "bitmap_ok c S D" using file_okD(1) [OF ok] .
  then have "bitmap_ok c' S D" using u' u [of 0] b(1) by (auto simp: bitmap_ok_def)
  moreover have nb: "\<not> bitmap_block S (of_nat b)" using ok' b b32 by (auto simp: bitmap_block_def bitmap_ok_def)
  have ni: "of_nat b \<noteq> IBLOCK (inum ino) S" using file_okD(4) [OF ok] b(2) b32 by metis
  have fresh: "slot c ino k \<noteq> of_nat b" if "k \<le> 140" for k
  proof
    assume e: "slot c ino k = of_nat b"
    have "b \<noteq> 0" using ok' b(2) by (auto simp: bitmap_ok_def intro: ccontr)
    then have "of_nat b \<noteq> (0 :: u32)" using b32 by (metis unat_0)
    then have "used c S (unat (slot c ino k))" using file_okD(6) [OF ok that] e by (simp add: data_block_def)
    then show False using e b b32 by simp
  qed
  have "data_block c' S ino' (slot c' ino' k)" if "k \<le> 140" "slot c' ino' k \<noteq> 0" for k
  proof (cases "k = j")
    case True
    then show ?thesis using s [OF that(1)] nb ni b b32 u [OF b(1)] n by (simp add: data_block_def word_less_nat_alt)
  next
    case False
    then show ?thesis using s [OF that(1)] that file_okD(6) [OF ok that(1)] u' n by (simp add: data_block_def)
  qed
  moreover have "k = l" if "k \<le> 140" "l \<le> 140" "slot c' ino' l \<noteq> 0" "slot c' ino' k = slot c' ino' l" for k l
    using that s [OF that(1)] s [OF that(2)] fresh [OF that(1)] fresh [OF that(2)] file_okD(7) [OF ok that(2,1)] by (auto split: if_splits)
  ultimately show ?thesis
    using file_okD(2-5) [OF ok] u' n by (auto simp: file_ok_def)
qed

text \<open>Blocks that a change of the disk may not touch: those in use outside of the bitmap and other than \<open>x\<close>.\<close>

definition keeps_data :: "superblock \<Rightarrow> u32 \<Rightarrow> (u32 \<Rightarrow> block) \<Rightarrow> (u32 \<Rightarrow> block) \<Rightarrow> bool" where
  "keeps_data S x c c' \<longleftrightarrow> (\<forall>m. m < sb_size S \<longrightarrow> used c S (unat m) \<longrightarrow> used c' S (unat m) \<and> (\<not> bitmap_block S m \<longrightarrow> m \<noteq> x \<longrightarrow> c' m = c m))"

lemma keeps_dataD: "keeps_data S x c c' \<Longrightarrow> data_block c S ino m \<Longrightarrow> m \<noteq> x \<Longrightarrow> c' m = c m"
  by (simp add: keeps_data_def data_block_def)

lemma keeps_data_alloc:
  assumes "bitmap_ok c S D" "b < unat (sb_size S)" "\<not> used c S b"
  shows "keeps_data S x c (alloc_content S b c)"
proof -
  have "m \<noteq> of_nat b" if "used c S (unat m)" for m :: u32 using that assms(3) unat_of_nat_u32 [of b] assms(2) unat_u32_less [of "sb_size S"] by auto
  then show ?thesis using alloc_other [of _ b S c] used_alloc [OF assms] assms(2) by (auto simp: keeps_data_def word_less_nat_alt)
qed

text \<open>Allocation of a block leaves the slots of the file alone.\<close>

lemma slot_alloc:
  assumes "file_ok c S D ino" "b < unat (sb_size S)" "\<not> used c S b"
  shows "slot (alloc_content S b c) ino k = slot c ino k"
proof -
  have "alloc_content S b c (iaddrs ino 12) = c (iaddrs ino 12)" if "iaddrs ino 12 \<noteq> 0"
    using keeps_dataD [OF keeps_data_alloc [OF file_okD(1) [OF assms(1)] assms(2,3), of 0] file_okD(6) [OF assms(1), of 140]] that by (simp add: slot_def)
  then show ?thesis by (simp add: slot_def)
qed

lemma load_store_index:
  assumes "i < 128" "j < 128"
  shows "load32 (store32 d (4 * of_nat i) v) (4 * of_nat j) = (if i = j then v else load32 d (4 * of_nat j))"
proof (cases "i = j")
  case False
  then have "4 \<le> (of_nat (4 * j) - of_nat (4 * i) :: u32)" "4 \<le> (of_nat (4 * i) - of_nat (4 * j) :: u32)"
    using assms by (intro of_nat_apart; auto)+
  then show ?thesis using False by (simp add: load32_store32_other)
qed (simp add: load32_store32)

lemma load_zero: "(\<And>k. k < 512 \<Longrightarrow> d k = 0) \<Longrightarrow> i < 128 \<Longrightarrow> load32 d (4 * of_nat i) = 0"
proof -
  assume z: "\<And>k. k < 512 \<Longrightarrow> d k = 0" and i: "i < 128"
  have "load32 d (4 * of_nat i) = load32 (\<lambda>_. 0) (4 * of_nat i)"
  proof (rule load32_cong)
    fix k :: u32 assume "k < 4"
    moreover have "unat (of_nat (4 * i) :: u32) = 4 * i" using i by (simp add: unat_of_nat del: of_nat_mult)
    then have "unat (4 * of_nat i :: u32) = 4 * i" by simp
    ultimately have "unat (4 * of_nat i + k) < 512" using i unat_add_le [of "4 * of_nat i" k] by (simp add: word_less_nat_alt)
    then show "d (4 * of_nat i + k) = 0" using z by (simp add: word_less_nat_alt)
  qed
  then show ?thesis by (simp add: load32_def)
qed

section \<open>Mapping a file block\<close>

lemma in_txn_upd_inode [simp]: "in_txn i p H n (upd_inode k f s) = in_txn i p H n s"
  by (simp add: in_txn_def fs_ready_def upd_inode_def good_def bio_ready_def cache_ok_def mine_def calling_def proc_ready_def on_cpu_def pinned_def txn_def)

lemma content_upd_inode [simp]: "content (upd_inode k f s) = content s"
  by (rule ext, rule content_cong) (simp_all add: upd_inode_def)

lemma upd_inode_fields [simp]: "sb (upd_inode k f s) = sb s" "disksize (upd_inode k f s) = disksize s"
  "inodes (upd_inode k f s) = (inodes s)(k := f (inodes s k))" "bufs (upd_inode k f s) = bufs s"
  by (simp_all add: upd_inode_def)

text \<open>
  The outcome of \<open>bmap\<close> for file block \<open>bn\<close> of inode \<open>ip\<close>: it has the disk block \<open>a\<close>, its old one or a fresh block full of zeros,
  the other file blocks are where they were, and data blocks keep their contents, the indirect block apart.
\<close>

definition bmapped :: "nat \<Rightarrow> nat \<Rightarrow> u32 \<Rightarrow> 'z fs_st_scheme \<Rightarrow> 'z fs_st_scheme \<Rightarrow> bool" where
  "bmapped ip bn a s t \<longleftrightarrow> sb t = sb s \<and> disksize t = disksize s \<and> (\<exists>A. inodes t = (inodes s)(ip := (inodes s ip)\<lparr>iaddrs := A\<rparr>))
     \<and> file_ok (content t) (sb s) (disksize s) (inodes t ip)
     \<and> keeps_data (sb s) (slot (content t) (inodes t ip) 140) (content s) (content t)
     \<and> (\<forall>k < 140. slot (content t) (inodes t ip) k = (if k = bn then a else slot (content s) (inodes s ip) k))
     \<and> a \<noteq> 0 \<and> (if slot (content s) (inodes s ip) bn \<noteq> 0 then a = slot (content s) (inodes s ip) bn else \<forall>k < 512. content t a k = 0)
     \<and> (\<forall>k \<le> 140. slot (content t) (inodes t ip) k \<noteq> slot (content s) (inodes s ip) k \<longrightarrow>
           \<not> used (content s) (sb s) (unat (slot (content t) (inodes t ip) k)))
     \<and> nfree (content s) (sb s) \<le> nfree (content t) (sb s) + 2"

lemma unat_fresh: "b < unat (sb_size S) \<Longrightarrow> unat (of_nat b :: u32) = b"
  using unat_u32_less [of "sb_size S"] by (simp add: unat_of_nat)

lemma of_nat_fresh: "b < unat (sb_size S) \<Longrightarrow> b \<noteq> 0 \<Longrightarrow> of_nat b \<noteq> (0 :: u32)"
proof -
  assume b: "b < unat (sb_size S)" "b \<noteq> 0"
  then have "unat (of_nat b :: u32) = b" using unat_u32_less [of "sb_size S"] by (simp add: unat_of_nat)
  then show ?thesis using b(2) by (metis unat_0)
qed

lemma bmap_direct:
  assumes t: "in_txn i p {} (n + 5) s" "1 < n" and ok: "file_ok (content s) (sb s) (disksize s) (inodes s ip)" and bn: "bn < 12"
    and free: "0 < nfree (content s) (sb s)"
  obtains a t where "bmap ip (of_nat bn) s = Ok a t" "in_txn i p {} n t" "bmapped ip bn a s t"
proof -
  let ?c = "content s" and ?S = "sb s" and ?ino = "inodes s ip"
  have w: "(of_nat bn :: u32) < 12" "unat (of_nat bn :: u32) = bn" using bn by (simp_all add: word_less_nat_alt unat_of_nat)
  have sl: "slot ?c ?ino bn = iaddrs ?ino bn" using bn by (simp add: slot_def)
  show thesis
  proof (cases "iaddrs ?ino bn = 0")
    case False
    then have "bmap ip (of_nat bn) s = Ok (iaddrs ?ino bn) s" using w by (simp add: bmap_def Let_def)
    moreover have "(inodes s)(ip := ?ino\<lparr>iaddrs := iaddrs ?ino\<rparr>) = inodes s" by simp
    then have "bmapped ip bn (iaddrs ?ino bn) s s" using ok False sl by (auto simp: bmapped_def keeps_data_def intro: exI [of _ "iaddrs ?ino"])
    moreover have "in_txn i p {} n s" by (rule in_txn_less [OF t(1)]) (use t(2) in simp_all)
    ultimately show thesis using that by blast
  next
    case True
    have t': "in_txn i p {} (Suc (Suc n)) s" by (rule in_txn_less [OF t(1)]) simp_all
    from t' obtain b t where o: "balloc 1 s = Ok (of_nat b) t" "b < unat (sb_size ?S)" "\<not> used ?c ?S b" "b \<noteq> 0"
      "in_txn i p {} n t" "content t = alloc_content ?S b ?c" "fs_same {} s t"
      by (rule balloc_some [OF _ _ file_okD(1) [OF ok] free]) (use t(2) in auto)
    let ?u = "upd_inode ip (\<lambda>x. x\<lparr>iaddrs := (iaddrs x)(bn := of_nat b)\<rparr>) t"
    let ?ino' = "?ino\<lparr>iaddrs := (iaddrs ?ino)(bn := of_nat b)\<rparr>"
    note same = fs_sameD [OF o(7)]
    have sl': "slot (content t) ?ino' k = (if k = bn then of_nat b else slot ?c ?ino k)" for k
      using bn slot_alloc [OF ok o(2,3), of k] by (auto simp: slot_def o(6) split: if_splits)
    have "file_ok (content t) ?S (disksize s) ?ino'"
      by (rule file_ok_add [OF ok o(2,3) _ sl']) (simp_all add: o(6) used_alloc [OF file_okD(1) [OF ok] o(2,3)])
    moreover have "nfree ?c ?S \<le> nfree (content t) ?S + 2" using nfree_alloc [OF file_okD(1) [OF ok] o(2,3)] by (simp add: o(6))
    moreover have "keeps_data ?S x ?c (content t)" for x unfolding o(6) by (rule keeps_data_alloc [OF file_okD(1) [OF ok] o(2,3)])
    moreover have "\<forall>k < 512. content t (of_nat b) k = 0" by (simp add: o(6) alloc_zero)
    ultimately have "bmapped ip bn (of_nat b) s ?u"
      using True same of_nat_fresh [OF o(2,4)] sl sl' unat_fresh [OF o(2)] o(3) by (auto simp: bmapped_def)
    moreover have "bmap ip (of_nat bn) s = Ok (of_nat b) ?u" using True w o(1) file_okD(2) [OF ok] by (simp add: bmap_def Let_def)
    ultimately show thesis using that o(5) by simp
  qed
qed

text \<open>The indirect block, allocated if need be.\<close>

lemma bmap_indirect_block:
  assumes t: "in_txn i p {} (Suc (Suc n)) s" "1 < n" and ok: "file_ok (content s) (sb s) (disksize s) (inodes s ip)"
    and free: "1 < nfree (content s) (sb s)"
  obtains a t where "(if iaddrs (inodes s ip) 12 = 0
      then andthen (balloc (idev (inodes s ip)) s) (\<lambda>addr s. Ok addr (upd_inode ip (\<lambda>x. x\<lparr>iaddrs := (iaddrs x)(12 := addr)\<rparr>) s))
      else Ok (iaddrs (inodes s ip) 12) s) = Ok a t"
    "in_txn i p {} n t" "sb t = sb s" "disksize t = disksize s" "\<exists>A. inodes t = (inodes s)(ip := (inodes s ip)\<lparr>iaddrs := A\<rparr>)"
    "file_ok (content t) (sb s) (disksize s) (inodes t ip)" "keeps_data (sb s) a (content s) (content t)"
    "\<And>k. k < 140 \<Longrightarrow> slot (content t) (inodes t ip) k = slot (content s) (inodes s ip) k" "a \<noteq> 0" "iaddrs (inodes t ip) 12 = a"
    "nfree (content s) (sb s) \<le> nfree (content t) (sb s) + 1" "0 < nfree (content t) (sb s)"
    "a \<noteq> iaddrs (inodes s ip) 12 \<Longrightarrow> \<not> used (content s) (sb s) (unat a)"
proof -
  let ?c = "content s" and ?S = "sb s" and ?ino = "inodes s ip"
  show thesis
  proof (cases "iaddrs ?ino 12 = 0")
    case False
    have "in_txn i p {} n s" by (rule in_txn_less [OF t(1)]) (use t(2) in simp_all)
    moreover have "(inodes s)(ip := ?ino\<lparr>iaddrs := iaddrs ?ino\<rparr>) = inodes s" by simp
    then have "\<exists>A. inodes s = (inodes s)(ip := ?ino\<lparr>iaddrs := A\<rparr>)" by metis
    ultimately show thesis using that [of "iaddrs ?ino 12" s] False ok free by (simp add: keeps_data_def)
  next
    case True
    from t(1) obtain b t where o: "balloc 1 s = Ok (of_nat b) t" "b < unat (sb_size ?S)" "\<not> used ?c ?S b" "b \<noteq> 0"
      "in_txn i p {} n t" "content t = alloc_content ?S b ?c" "fs_same {} s t"
      by (rule balloc_some [OF _ _ file_okD(1) [OF ok]]) (use t(2) free in auto)
    let ?u = "upd_inode ip (\<lambda>x. x\<lparr>iaddrs := (iaddrs x)(12 := of_nat b)\<rparr>) t"
    let ?ino' = "?ino\<lparr>iaddrs := (iaddrs ?ino)(12 := of_nat b)\<rparr>"
    note same = fs_sameD [OF o(7)] and nz = of_nat_fresh [OF o(2,4)]
    have z: "load32 (content t (of_nat b)) (4 * of_nat k) = 0" if "k < 128" for k
      using that by (rule load_zero [rotated]) (simp add: o(6) alloc_zero)
    have sl': "slot (content t) ?ino' k = (if k = 140 then of_nat b else slot ?c ?ino k)" if "k \<le> 140" for k
      using True nz z [of "k - 12"] that by (auto simp: slot_def)
    have "file_ok (content t) ?S (disksize s) ?ino'"
      by (rule file_ok_add [OF ok o(2,3) _ sl']) (simp_all add: o(6) used_alloc [OF file_okD(1) [OF ok] o(2,3)])
    moreover have "nfree (content t) ?S = nfree ?c ?S - 1" using nfree_alloc [OF file_okD(1) [OF ok] o(2,3)] by (simp add: o(6))
    moreover have "keeps_data ?S (of_nat b) ?c (content t)" unfolding o(6) by (rule keeps_data_alloc [OF file_okD(1) [OF ok] o(2,3)])
    ultimately show thesis using that [of "of_nat b" ?u] True same nz sl' o(1,3,5) unat_fresh [OF o(2)] file_okD(2) [OF ok] free by simp blast
  qed
qed

text \<open>The entry of file block \<open>bn\<close> in the indirect block \<open>x\<close>, allocated if need be.\<close>

lemma bmap_indirect_entry:
  assumes t: "in_txn i p {} (n + 3) s" "2 < n" and ok: "file_ok (content s) (sb s) (disksize s) (inodes s ip)"
    and free: "0 < nfree (content s) (sb s)" and bn: "12 \<le> bn" "bn < 140" and x: "x = iaddrs (inodes s ip) 12" "x \<noteq> 0"
  obtains a t where "andthen (bread (idev (inodes s ip)) x s) (\<lambda>bp s.
        let addr = load32 (bdata (bufs s bp)) (4 * of_nat (bn - 12))
        in andthen (if addr = 0
                    then andthen (balloc (idev (inodes s ip)) s) (\<lambda>addr s.
                         andthen (log_write bp (upd_buf bp (\<lambda>x. x\<lparr>bdata := store32 (bdata x) (4 * of_nat (bn - 12)) addr\<rparr>) s)) (\<lambda>_ s.
                         Ok addr s))
                    else Ok addr s) (\<lambda>addr s.
           andthen (brelse bp s) (\<lambda>_ s. Ok addr s))) = Ok a t" "in_txn i p {} n t" "bmapped ip bn a s t"
    "nfree (content s) (sb s) \<le> nfree (content t) (sb s) + 1" "iaddrs (inodes t ip) = iaddrs (inodes s ip)"
proof -
  let ?c = "content s" and ?S = "sb s" and ?ino = "inodes s ip" and ?e = "4 * of_nat (bn - 12) :: u32"
  have d: "data_block ?c ?S ?ino x" using file_okD(6) [OF ok, of 140] x by (simp add: slot_def)
  have xd: "x < disksize s" using d file_okD(1) [OF ok] by (auto simp: data_block_def bitmap_ok_def intro: less_le_trans)
  have sl: "slot ?c ?ino bn = load32 (?c x) ?e" using bn x by (simp add: slot_def)
  have dev: "idev ?ino = 1" by (rule file_okD(2) [OF ok])
  from t(1) xd obtain bp t where o: "bread 1 x s = Ok bp t" "in_txn i p {bp} (n + 3) t" "blockno (bufs t bp) = x" "bdata (bufs t bp) = ?c x"
    "content t = ?c" "fs_same {} s t"
    by (rule read_step) (use t(2) in auto)
  note same = fs_sameD [OF o(6)]
  show thesis
  proof (cases "load32 (?c x) ?e = 0")
    case False
    obtain u where u: "brelse bp t = Ok () u" "in_txn i p ({bp} - {bp}) (n + 3) u" "content u = content t" "fs_same {bp} t u"
      by (rule release_step [OF o(2) insertI1]) blast
    note same' = fs_sameD [OF u(4)]
    have in_u: "in_txn i p {} n u" by (rule in_txn_less [of i p _ "n + 3"]) (use u(2) t(2) in simp_all)
    have "(inodes s)(ip := ?ino\<lparr>iaddrs := iaddrs ?ino\<rparr>) = inodes s" by simp
    then have bm: "bmapped ip bn (load32 (?c x) ?e) s u"
      using ok False sl same same' u(3) o(5) by (auto simp: bmapped_def keeps_data_def intro: exI [of _ "iaddrs ?ino"])
    show thesis by (rule that [OF _ in_u bm]) (use o False u(1,3) same same' dev in \<open>simp_all add: Let_def\<close>)
  next
    case True
    have ok': "bitmap_ok (content t) (sb t) (disksize t)" using file_okD(1) [OF ok] same o(5) by simp
    have h: "used (content t) (sb t) (unat (blockno (bufs t y))) \<and> \<not> bitmap_block (sb t) (blockno (bufs t y))" if "y \<in> {bp}" for y
      using that d o(3,5) same by (simp add: data_block_def)
    have t2: "in_txn i p {bp} (Suc (Suc (n + 1))) t" using o(2) by (simp add: eval_nat_numeral)
    have fr: "0 < nfree (content t) (sb t)" using free o(5) same by simp
    from t2 _ ok' fr h obtain b u where u: "balloc 1 t = Ok (of_nat b) u" "b < unat (sb_size ?S)" "\<not> used ?c ?S b" "b \<noteq> 0"
      "in_txn i p {bp} (n + 1) u" "content u = alloc_content ?S b ?c" "fs_same {bp} t u"
      by (rule balloc_some) (use t(2) o(5) same in auto)
    note bok = file_okD(1) [OF ok] u(2,3)
    have bu: "blockno (bufs u bp) = x" using fs_sameD(4) [OF u(7), of bp] o(3) by simp
    have in_u: "in_txn i p (insert bp {}) (Suc n) u" using u(5) by simp
    obtain v w where w: "log_write bp (upd_buf bp (\<lambda>x. x\<lparr>bdata := store32 (bdata x) ?e (of_nat b)\<rparr>) u) = Ok () v" "brelse bp v = Ok () w"
      "in_txn i p {} n w" "content w = (content u)(x := store32 (content u x) ?e (of_nat b))" "fs_same {} u w"
      by (rule edit_held [OF in_u _ bu, where f = "\<lambda>d. store32 d ?e (of_nat b)"]) (use t(2) in auto)
    have "x \<noteq> of_nat b" using d u(2,3) unat_of_nat_u32 [of b] unat_u32_less [of "sb_size ?S"] by (auto simp: data_block_def)
    have cux: "content u x = ?c x" using keeps_dataD [OF keeps_data_alloc [OF bok, of 0] d] x(2) by (simp add: u(6))
    have us: "used (content w) ?S j = used (content u) ?S j" if "j < unat (sb_size ?S)" for j
    proof -
      have "BBLOCK (of_nat j) ?S \<noteq> x" using d that by (auto simp: data_block_def bitmap_block_def)
      then show ?thesis by (simp add: used_def w(4))
    qed
    have us': "used (content w) ?S j \<longleftrightarrow> j = b \<or> used ?c ?S j" if "j < unat (sb_size ?S)" for j
      using us [OF that] used_alloc [OF bok that] by (simp add: u(6))
    have sl': "slot (content w) ?ino k = (if k = bn then of_nat b else slot ?c ?ino k)" if "k \<le> 140" for k
    proof (cases "12 \<le> k \<and> k \<noteq> 140")
      case True
      then show ?thesis using that bn x cux load_store_index [of "bn - 12" "k - 12" "?c x" "of_nat b"] by (auto simp: slot_def w(4))
    qed (use bn that in \<open>auto simp: slot_def\<close>)
    have ino: "inodes w = inodes s" "sb w = ?S" "disksize w = disksize s" using fs_sameD [OF w(5)] fs_sameD [OF u(7)] same by simp_all
    have "file_ok (content w) ?S (disksize s) ?ino" by (rule file_ok_add [OF ok u(2,3) us' sl']) simp_all
    moreover have "keeps_data ?S x ?c (content w)"
      using keeps_data_alloc [OF bok, of x] us by (auto simp: keeps_data_def w(4) u(6) word_less_nat_alt)
    moreover have "\<forall>k < 512. content w (of_nat b) k = 0" using \<open>x \<noteq> of_nat b\<close> by (simp add: w(4) u(6) alloc_zero)
    moreover have "{j. j < unat (sb_size ?S) \<and> \<not> used (content w) ?S j} = {j. j < unat (sb_size ?S) \<and> \<not> used (content u) ?S j}" using us by auto
    then have nf: "nfree ?c ?S \<le> nfree (content w) ?S + 1" using nfree_alloc [OF bok] by (simp add: nfree_def u(6))
    moreover have "(inodes s)(ip := ?ino\<lparr>iaddrs := iaddrs ?ino\<rparr>) = inodes s" by simp
    then have "\<exists>A. inodes s = (inodes s)(ip := ?ino\<lparr>iaddrs := A\<rparr>)" by metis
    moreover have "slot (content w) ?ino 140 = x" using x by (simp add: slot_def)
    ultimately have bm: "bmapped ip bn (of_nat b) s w"
      using ino sl' True sl of_nat_fresh [OF u(2,4)] unat_fresh [OF u(2)] u(3) by (simp add: bmapped_def)
    show thesis
      by (rule that [OF _ w(3) bm nf]) (use o u(1) w(1,2) True ino dev same in \<open>simp_all add: Let_def\<close>)
  qed
qed

lemma bmapped_after:
  assumes b: "bmapped ip bn a t u" and s: "sb t = sb s" "disksize t = disksize s" "\<exists>A. inodes t = (inodes s)(ip := (inodes s ip)\<lparr>iaddrs := A\<rparr>)"
    and k: "keeps_data (sb s) (slot (content u) (inodes u ip) 140) (content s) (content t)"
    and sl: "\<And>k. k < 140 \<Longrightarrow> slot (content t) (inodes t ip) k = slot (content s) (inodes s ip) k"
    and bn: "bn < 140" and n: "nfree (content s) (sb s) \<le> nfree (content u) (sb s) + 2"
    and fr: "slot (content u) (inodes u ip) 140 \<noteq> slot (content s) (inodes s ip) 140 \<Longrightarrow> \<not> used (content s) (sb s) (unat (slot (content u) (inodes u ip) 140))"
    and ut: "\<And>m. used (content s) (sb s) (unat m) \<Longrightarrow> m < sb_size (sb s) \<Longrightarrow> used (content t) (sb s) (unat m)"
  shows "bmapped ip bn a s u"
proof -
  have fresh: "\<not> used (content s) (sb s) (unat (slot (content u) (inodes u ip) j))"
    if j: "j \<le> 140" "slot (content u) (inodes u ip) j \<noteq> slot (content s) (inodes s ip) j" for j
  proof (cases "j = 140")
    case False
    have "j < 140" "slot (content u) (inodes u ip) j \<noteq> slot (content t) (inodes t ip) j" using sl [of j] j False by auto
    moreover from this have "slot (content u) (inodes u ip) j \<noteq> 0 \<and> slot (content u) (inodes u ip) j < sb_size (sb s)"
      using b s file_okD(6) [of "content u" "sb s" "disksize s" "inodes u ip" j] by (auto simp: bmapped_def data_block_def split: if_splits)
    moreover have "\<not> used (content t) (sb t) (unat (slot (content u) (inodes u ip) j))"
      using b j(1) calculation(2) unfolding bmapped_def by blast
    ultimately show ?thesis using s(1) ut [of "slot (content u) (inodes u ip) j"] by metis
  qed (use j fr in simp)
  obtain A B where "inodes t = (inodes s)(ip := (inodes s ip)\<lparr>iaddrs := A\<rparr>)" "inodes u = (inodes t)(ip := (inodes t ip)\<lparr>iaddrs := B\<rparr>)"
    using s(3) b by (auto simp: bmapped_def)
  then have "inodes u = (inodes s)(ip := (inodes s ip)\<lparr>iaddrs := B\<rparr>)" by simp
  moreover have "keeps_data (sb s) (slot (content u) (inodes u ip) 140) (content s) (content u)"
    using k b s by (auto simp: keeps_data_def bmapped_def)
  ultimately show ?thesis using b s sl bn n fresh by (auto simp: bmapped_def)
qed

lemma bmap_txn:
  assumes t: "in_txn i p {} (n + 5) s" "2 < n" and ok: "file_ok (content s) (sb s) (disksize s) (inodes s ip)" and bn: "bn < 140"
    and free: "2 \<le> nfree (content s) (sb s)"
  obtains a t where "bmap ip (of_nat bn) s = Ok a t" "in_txn i p {} n t" "bmapped ip bn a s t"
proof (cases "bn < 12")
  case True
  show thesis by (rule bmap_direct [OF t(1) _ ok True]) (use t(2) free that in auto)
next
  case False
  have t5: "in_txn i p {} (Suc (Suc (n + 3))) s" using t(1) by (simp add: eval_nat_numeral)
  from t5 _ ok obtain x t where o: "(if iaddrs (inodes s ip) 12 = 0
      then andthen (balloc (idev (inodes s ip)) s) (\<lambda>addr s. Ok addr (upd_inode ip (\<lambda>x. x\<lparr>iaddrs := (iaddrs x)(12 := addr)\<rparr>) s))
      else Ok (iaddrs (inodes s ip) 12) s) = Ok x t"
    "in_txn i p {} (n + 3) t" "sb t = sb s" "disksize t = disksize s" "\<exists>A. inodes t = (inodes s)(ip := (inodes s ip)\<lparr>iaddrs := A\<rparr>)"
    "file_ok (content t) (sb s) (disksize s) (inodes t ip)" "keeps_data (sb s) x (content s) (content t)"
    "\<And>k. k < 140 \<Longrightarrow> slot (content t) (inodes t ip) k = slot (content s) (inodes s ip) k" "x \<noteq> 0" "iaddrs (inodes t ip) 12 = x"
    "nfree (content s) (sb s) \<le> nfree (content t) (sb s) + 1" "0 < nfree (content t) (sb s)"
    "x \<noteq> iaddrs (inodes s ip) 12 \<Longrightarrow> \<not> used (content s) (sb s) (unat x)"
    by (rule bmap_indirect_block) (use free in auto)
  have dev: "idev (inodes t ip) = idev (inodes s ip)" using o(5) by auto
  have okt: "file_ok (content t) (sb t) (disksize t) (inodes t ip)" "0 < nfree (content t) (sb t)" "12 \<le> bn" "x = iaddrs (inodes t ip) 12"
    using o False by simp_all
  obtain a u where u: "andthen (bread (idev (inodes t ip)) x t) (\<lambda>bp s.
        let addr = load32 (bdata (bufs s bp)) (4 * of_nat (bn - 12))
        in andthen (if addr = 0
                    then andthen (balloc (idev (inodes s ip)) s) (\<lambda>addr s.
                         andthen (log_write bp (upd_buf bp (\<lambda>x. x\<lparr>bdata := store32 (bdata x) (4 * of_nat (bn - 12)) addr\<rparr>) s)) (\<lambda>_ s.
                         Ok addr s))
                    else Ok addr s) (\<lambda>addr s.
           andthen (brelse bp s) (\<lambda>_ s. Ok addr s))) = Ok a u" "in_txn i p {} n u" "bmapped ip bn a t u"
    "nfree (content t) (sb t) \<le> nfree (content u) (sb t) + 1" "iaddrs (inodes u ip) = iaddrs (inodes t ip)"
    by (rule bmap_indirect_entry [OF o(2) t(2) okt(1,2,3) bn okt(4) o(9)]) blast
  have "slot (content u) (inodes u ip) 140 = x" "slot (content s) (inodes s ip) 140 = iaddrs (inodes s ip) 12" using u(5) o(10) by (simp_all add: slot_def)
  then have bm: "bmapped ip bn a s u"
    by (intro bmapped_after [OF u(3) o(3,4,5)]) (use o(3,7,8,11,13) u(4) bn in \<open>simp_all add: keeps_data_def\<close>)
  have "of_nat (bn - 12) < (128 :: u32)" using bn by (simp add: word_less_nat_alt unat_of_nat)
  moreover have "\<not> (of_nat bn :: u32) < 12" "(of_nat bn - 12 :: u32) = of_nat (bn - 12)"
    using False bn by (simp_all add: word_less_nat_alt unat_of_nat of_nat_diff)
  ultimately have "bmap ip (of_nat bn) s = Ok a u" using o(1) u(1) dev by (simp add: bmap_def Let_def)
  then show thesis using that u(2) bm by blast
qed

section \<open>An example\<close>

text \<open>
  A disk of ten blocks: inodes in block 6, the bitmap in block 7 with blocks 8 and 9 free, and the three bytes of one file in block 5.
  The file is inode 0 of the table, and a transaction is open.
\<close>

definition demo_disk :: "u32 \<Rightarrow> block" where
  "demo_disk b = (if b = 7 then (\<lambda>k. if k = 0 then 0xFF else 0) else if b = 5 then (\<lambda>k. if k = 0 then 0x61 else if k = 1 then 0x62 else 0x63) else (\<lambda>_. 0))"

definition demo_sb :: superblock where
  "demo_sb = \<lparr>sb_size = 10, sb_nblocks = 3, sb_ninodes = 8, sb_nlog = 3, sb_logstart = 2, sb_inodestart = 6, sb_bmapstart = 7\<rparr>"

definition demo_inode :: inode where
  "demo_inode = zero_inode\<lparr>idev := 1, inum := 1, iref := 1, ivalid := True, itype := 2, inlink := 1, isize := 3, iaddrs := (\<lambda>_. 0)(0 := 5)\<rparr>"

definition fs_demo :: file_st where
  "fs_demo = (boot_demo demo_disk)\<lparr>sb := demo_sb, inodes := (\<lambda>_. demo_inode)\<rparr>"

lemma good_fs_upd: "good i p H (s\<lparr>sb := x, inodes := y\<rparr>) = good i p H s"
  by (simp add: good_def bio_ready_def cache_ok_def mine_def calling_def proc_ready_def on_cpu_def)

lemma fs_demo_content: "content fs_demo = demo_disk"
  by (rule ext, subst content_uncached) (simp_all add: fs_demo_def boot_demo_clean)

lemma fs_demo_txn: "in_txn 0 0 {} 10 fs_demo" "txn fs_demo = []"
proof -
  have g: "good 0 0 {} fs_demo" unfolding fs_demo_def good_fs_upd by (rule boot_demo_good)
  show e: "txn fs_demo = []" by (simp add: txn_def fs_demo_def)
  have "pinned (set (txn fs_demo)) fs_demo" unfolding e by (simp add: pinned_def fs_demo_def boot_demo_clean)
  with g e show "in_txn 0 0 {} 10 fs_demo" by (simp add: in_txn_def fs_ready_def) (simp add: fs_demo_def zero_lock_def)
qed

lemma fs_demo_fields [simp]: "sb fs_demo = demo_sb" "inodes fs_demo = (\<lambda>_. demo_inode)" "disksize fs_demo = 10"
  by (simp_all add: fs_demo_def)

lemma demo_BBLOCK: "j < 10 \<Longrightarrow> BBLOCK (of_nat j) demo_sb = 7"
proof -
  assume "j < 10"
  then have "(of_nat j :: u32) div 4096 = 0" by (simp add: word_unat_eq_iff unat_div unat_of_nat)
  then show ?thesis by (simp add: BBLOCK_def demo_sb_def)
qed

lemma demo_used: "j < 10 \<Longrightarrow> used demo_disk demo_sb j \<longleftrightarrow> j < 8"
proof -
  assume j: "j < 10"
  then have "j = 0 \<or> j = 1 \<or> j = 2 \<or> j = 3 \<or> j = 4 \<or> j = 5 \<or> j = 6 \<or> j = 7 \<or> j = 8 \<or> j = 9" by auto
  then show ?thesis using demo_BBLOCK [OF j] by (elim disjE) (simp_all add: used_def bit_set_def demo_disk_def)
qed

lemma demo_bitmap: "bitmap_ok demo_disk demo_sb 10" "nfree demo_disk demo_sb = 2"
proof -
  have n: "unat (sb_size demo_sb) = 10" by (simp add: demo_sb_def)
  show "bitmap_ok demo_disk demo_sb 10"
    unfolding bitmap_ok_def n using demo_BBLOCK demo_used by (simp add: demo_sb_def)
  have "{b. b < unat (sb_size demo_sb) \<and> \<not> used demo_disk demo_sb b} = {8, 9}" unfolding n using demo_used by auto
  then show "nfree demo_disk demo_sb = 2" by (simp add: nfree_def)
qed

lemma demo_slot: "slot demo_disk demo_inode j = (if j = 0 then 5 else 0)"
  by (simp add: slot_def demo_inode_def)

theorem balloc_allocates_witness:
  "\<exists>b t. balloc 1 fs_demo = Ok (of_nat b) t \<and> b < 10 \<and> \<not> used demo_disk demo_sb b \<and> used (content t) demo_sb b"
proof -
  have "in_txn 0 0 {} (Suc (Suc 8)) fs_demo" using fs_demo_txn(1) by simp
  from balloc_allocates [OF this] show ?thesis using demo_bitmap by (simp add: fs_demo_content) (auto simp: demo_sb_def)
qed

end
