(* ===== verification/Fs_File.thy ===== *)
theory Fs_File
  imports Fs_Blocks
begin

text \<open>
  The contents of a file (\<^verbatim>\<open>readi\<close>, \<^verbatim>\<open>writei\<close> and \<^verbatim>\<open>iupdate\<close> of \<^verbatim>\<open>fs.c\<close>).  \<open>fbytes\<close> is the list of bytes of a file; \<open>readi\<close> returns a
  part of it and \<open>writei\<close> replaces a part of it or extends it, block by block, without touching other files.  An inode written to disk
  reads back as itself.
\<close>

section \<open>The contents of a file\<close>

definition fbyte :: "(u32 \<Rightarrow> block) \<Rightarrow> inode \<Rightarrow> nat \<Rightarrow> u8" where
  "fbyte c ino k = c (slot c ino (k div 512)) (of_nat (k mod 512))"

definition fbytes :: "(u32 \<Rightarrow> block) \<Rightarrow> inode \<Rightarrow> u8 list" where
  "fbytes c ino = map (fbyte c ino) [0..<unat (isize ino)]"

text \<open>A file without holes, no longer than \<^verbatim>\<open>MAXFILE\<close> blocks.\<close>

definition whole :: "(u32 \<Rightarrow> block) \<Rightarrow> inode \<Rightarrow> bool" where
  "whole c ino \<longleftrightarrow> unat (isize ino) \<le> 140 * 512 \<and> (\<forall>k < unat (isize ino). slot c ino (k div 512) \<noteq> 0)"

section \<open>Chunks\<close>

lemma unat_chunk: "unat (chunk left off) = min (unat left) (512 - unat off mod 512)"
proof -
  have "unat (BSIZE - off mod BSIZE) = 512 - unat off mod 512" by (simp add: unat_sub unat_mod word_le_nat_alt)
  then show ?thesis by (simp add: chunk_def word_less_nat_alt min_def)
qed

lemma block_offset:
  assumes "x mod 512 + i < (512 :: nat)"
  shows "(x + i) div 512 = x div 512" "(x + i) mod 512 = x mod 512 + i"
proof -
  have "i < 512" using assms by simp
  then show "(x + i) div 512 = x div 512" using assms by (simp add: div_add1_eq [of x i])
  show "(x + i) mod 512 = x mod 512 + i" using assms mod_add_left_eq [of x 512 i] by simp
qed

text \<open>The block and the offset of the bytes of a chunk.\<close>

lemma chunk_bytes:
  assumes "i < unat (chunk left off)"
  shows "(unat off + i) div 512 = unat off div 512" "(unat off + i) mod 512 = unat off mod 512 + i" "unat off mod 512 + i < 512"
proof -
  show l: "unat off mod 512 + i < 512" using assms by (simp add: unat_chunk less_diff_conv add.commute)
  show "(unat off + i) div 512 = unat off div 512" "(unat off + i) mod 512 = unat off mod 512 + i" by (rule block_offset [OF l])+
qed

lemma off_words: "off div BSIZE = of_nat (unat off div 512)" "off mod BSIZE + of_nat i = of_nat (unat off mod 512 + i)"
proof -
  have "unat off div 512 < 2 ^ 32" using div_le_dividend [of "unat off" 512] unat_u32_less [of off] by simp
  then show "off div BSIZE = of_nat (unat off div 512)" by (simp add: word_unat_eq_iff unat_div unat_of_nat)
  show "off mod BSIZE + of_nat i = of_nat (unat off mod 512 + i)" by (simp add: word_unat_eq_iff unat_of_nat unat_word_ariths unat_mod)
qed

lemma chunk_split:
  assumes "left \<noteq> 0" "unat off + unat left < 2 ^ 32"
  shows "unat (off + chunk left off) = unat off + unat (chunk left off)" "unat (left - chunk left off) = unat left - unat (chunk left off)"
    "0 < unat (chunk left off)" "unat (chunk left off) \<le> unat left"
proof -
  show le: "unat (chunk left off) \<le> unat left" "0 < unat (chunk left off)" using chunk_pos [OF assms(1), of off] by (simp_all add: word_le_nat_alt)
  then show "unat (off + chunk left off) = unat off + unat (chunk left off)" using assms(2) by (simp add: unat_word_ariths)
  show "unat (left - chunk left off) = unat left - unat (chunk left off)" using le by (simp add: unat_sub word_le_nat_alt)
qed

section \<open>Reading\<close>

lemma read_release:
  assumes "fs_ready i p {} s" "m < disksize s" "length (txn s) < 30"
  obtains b t u where "bread 1 m s = Ok b t" "bdata (bufs t b) = content s m" "fs_same {} s t"
    "brelse b t = Ok () u" "fs_ready i p {} u" "content u = content s" "fs_same {} s u" "txn u = txn s"
proof -
  obtain b t where o: "bread 1 m s = Ok b t" "fs_ready i p {b} t" "bdata (bufs t b) = content s m" "content t = content s" "fs_same {} s t" "txn t = txn s"
    by (rule read_ready [OF assms(1,2)]) (use assms(3) in auto)
  obtain u where u: "brelse b t = Ok () u" "fs_ready i p ({b} - {b}) u" "content u = content t" "fs_same {b} t u" "txn u = txn t"
    by (rule release_ready [OF o(2) insertI1]) blast
  show thesis by (rule that [OF o(1,3,5) u(1)]) (use u o fs_same_trans [OF o(5) u(4)] in simp_all)
qed

lemma bmap_mapped:
  assumes r: "fs_ready i p {} s" "length (txn s) < 30" and ok: "file_ok (content s) (sb s) (disksize s) (inodes s ip)"
    and bn: "bn < 140" "slot (content s) (inodes s ip) bn \<noteq> 0"
  obtains t where "bmap ip (of_nat bn) s = Ok (slot (content s) (inodes s ip) bn) t" "fs_ready i p {} t" "content t = content s" "fs_same {} s t" "txn t = txn s"
proof (cases "bn < 12")
  case True
  then have "(of_nat bn :: u32) < 12" "unat (of_nat bn :: u32) = bn" by (simp_all add: word_less_nat_alt unat_of_nat)
  then have "bmap ip (of_nat bn) s = Ok (slot (content s) (inodes s ip) bn) s" using True bn(2) by (simp add: bmap_def Let_def slot_def)
  then show thesis using that r(1) by simp
next
  case False
  let ?x = "iaddrs (inodes s ip) 12"
  have x: "?x \<noteq> 0" "slot (content s) (inodes s ip) bn = load32 (content s ?x) (4 * of_nat (bn - 12))"
    using bn False by (auto simp: slot_def split: if_splits)
  have "data_block (content s) (sb s) (inodes s ip) ?x" using file_okD(6) [OF ok, of 140] x(1) by (simp add: slot_def)
  then have "?x < disksize s" using file_okD(1) [OF ok] by (auto simp: data_block_def bitmap_ok_def intro: less_le_trans)
  from r(1) this r(2) obtain b t u where o: "bread 1 ?x s = Ok b t" "bdata (bufs t b) = content s ?x" "fs_same {} s t"
    "brelse b t = Ok () u" "fs_ready i p {} u" "content u = content s" "fs_same {} s u" "txn u = txn s"
    by (rule read_release) blast
  have "of_nat (bn - 12) < (128 :: u32)" using bn by (simp add: word_less_nat_alt unat_of_nat)
  moreover have "\<not> (of_nat bn :: u32) < 12" "(of_nat bn - 12 :: u32) = of_nat (bn - 12)"
    using False bn by (simp_all add: word_less_nat_alt unat_of_nat of_nat_diff)
  ultimately have "bmap ip (of_nat bn) s = Ok (slot (content s) (inodes s ip) bn) u"
    using o x bn(2) file_okD(2) [OF ok] by (simp add: bmap_def Let_def)
  then show thesis using that o by blast
qed

lemma readi_loop_reads:
  assumes "fs_ready i p {} s" "length (txn s) < 30" "file_ok (content s) (sb s) (disksize s) (inodes s ip)"
    and "whole (content s) (inodes s ip)" "unat off + unat left \<le> unat (isize (inodes s ip))"
  shows "\<exists>t. readi_loop ip off left s = Ok (map (fbyte (content s) (inodes s ip)) [unat off..<unat off + unat left]) t
    \<and> fs_ready i p {} t \<and> content t = content s \<and> fs_same {} s t"
  using assms
proof (induction "unat left" arbitrary: off left s rule: less_induct)
  case less
  show ?case
  proof (cases "left = 0")
    case True
    then show ?thesis using less.prems by (simp add: readi_loop.simps)
  next
    case False
    let ?c = "content s" and ?ino = "inodes s ip" and ?m = "chunk left off"
    have sz: "unat off + unat left \<le> 140 * 512" using less.prems(4,5) by (simp add: whole_def)
    note m = chunk_split [OF False, of off]
    have m': "unat (off + ?m) = unat off + unat ?m" "unat (left - ?m) = unat left - unat ?m" "0 < unat ?m" "unat ?m \<le> unat left"
      using m sz by simp_all
    let ?bn = "unat off div 512"
    have bn: "?bn < 140" "slot ?c ?ino ?bn \<noteq> 0" using less.prems(4,5) sz m'(3,4) by (auto simp: whole_def)
    obtain t where t: "bmap ip (of_nat ?bn) s = Ok (slot ?c ?ino ?bn) t" "fs_ready i p {} t" "content t = ?c" "fs_same {} s t" "txn t = txn s"
      by (rule bmap_mapped [OF less.prems(1-3) bn]) blast
    have d: "data_block ?c (sb s) ?ino (slot ?c ?ino ?bn)" using file_okD(6) [OF less.prems(3) _ bn(2)] bn(1) by simp
    then have "slot ?c ?ino ?bn < disksize t"
      using file_okD(1) [OF less.prems(3)] fs_sameD(3) [OF t(4)] by (auto simp: data_block_def bitmap_ok_def intro: less_le_trans)
    then obtain bp u v where o: "bread 1 (slot ?c ?ino ?bn) t = Ok bp u" "bdata (bufs u bp) = ?c (slot ?c ?ino ?bn)" "fs_same {} t u"
      "brelse bp u = Ok () v" "fs_ready i p {} v" "content v = ?c" "fs_same {} t v" "txn v = txn s"
      by (rule read_release [OF t(2)]) (use t less.prems(2) in auto)
    have bytes: "map (\<lambda>i. ?c (slot ?c ?ino ?bn) (off mod BSIZE + of_nat i)) [0..<unat ?m] = map (fbyte ?c ?ino) [unat off..<unat off + unat ?m]"
      by (rule nth_equalityI) (auto simp: fbyte_def off_words chunk_bytes)
    have sv: "fs_same {} s v" by (rule fs_same_trans [OF t(4) o(7)]) simp
    note same = fs_sameD [OF sv]
    have "\<exists>w. readi_loop ip (off + ?m) (left - ?m) v = Ok (map (fbyte (content v) (inodes v ip)) [unat (off + ?m)..<unat (off + ?m) + unat (left - ?m)]) w
      \<and> fs_ready i p {} w \<and> content w = content v \<and> fs_same {} v w"
      by (rule less.hyps) (use less.prems m' o same in auto)
    then obtain w where w: "readi_loop ip (off + ?m) (left - ?m) v = Ok (map (fbyte ?c ?ino) [unat off + unat ?m..<unat off + unat left]) w"
      "fs_ready i p {} w" "content w = ?c" "fs_same {} v w" using m' same o(6) by auto
    have "[unat off..<unat off + unat left] = [unat off..<unat off + unat ?m] @ [unat off + unat ?m..<unat off + unat left]"
      using upt_add_eq_append [of "unat off" "unat off + unat ?m" "unat left - unat ?m"] m'(4) by simp
    moreover have "idev (inodes t ip) = 1" using file_okD(2) [OF less.prems(3)] fs_sameD(2) [OF t(4)] by simp
    ultimately have "readi_loop ip off left s = Ok (map (fbyte ?c ?ino) [unat off..<unat off + unat left]) w"
      using False t(1) o(1,2,4) w(1) bytes by (simp add: readi_loop.simps [of ip off left] off_words(1) Let_def)
    then show ?thesis using w fs_same_trans [OF sv w(4)] by blast
  qed
qed

text \<open>
  C3: reading a file returns its contents.  \<open>readi\<close> from offset \<open>off\<close> gives the \<open>n\<close> bytes there, fewer at the end of the file, whether
  the blocks are direct or indirect, cached or not; it changes no block and no inode.  An offset beyond the end, or one that wraps, is
  an error.
\<close>

theorem readi_reads:
  assumes "fs_ready i p {} s" "length (txn s) < 30" "file_ok (content s) (sb s) (disksize s) (inodes s ip)" "whole (content s) (inodes s ip)"
  shows "\<exists>t. readi_data ip off n s =
      Ok (if unat (isize (inodes s ip)) < unat off \<or> 2 ^ 32 \<le> unat off + unat n then None
          else Some (take (unat n) (drop (unat off) (fbytes (content s) (inodes s ip))))) t
    \<and> fs_ready i p {} t \<and> content t = content s \<and> inodes t = inodes s"
proof -
  let ?sz = "isize (inodes s ip)"
  have ov: "off + n < off \<longleftrightarrow> 2 ^ 32 \<le> unat off + unat n"
    using unat_u32_less [of off] unat_u32_less [of n] by (auto simp: word_less_nat_alt unat_word_ariths not_less mod_if)
  show ?thesis
  proof (cases "?sz < off \<or> off + n < off")
    case True
    then show ?thesis using ov assms(1) by (auto simp: readi_data_def Let_def word_less_nat_alt)
  next
    case False
    let ?n = "if ?sz < off + n then ?sz - off else n"
    have u: "unat (off + n) = unat off + unat n" using False ov by (simp add: unat_word_ariths)
    have n: "unat ?n = min (unat n) (unat ?sz - unat off)" using False u by (auto simp: word_less_nat_alt unat_sub word_le_nat_alt not_less)
    then have "unat off + unat ?n \<le> unat ?sz" using False by (auto simp: word_less_nat_alt not_less)
    from readi_loop_reads [OF assms this] obtain t where t: "readi_loop ip off ?n s = Ok (map (fbyte (content s) (inodes s ip)) [unat off..<unat off + unat ?n]) t"
      "fs_ready i p {} t" "content t = content s" "fs_same {} s t" by blast
    have "map (fbyte (content s) (inodes s ip)) [unat off..<unat off + unat ?n] = take (unat n) (drop (unat off) (fbytes (content s) (inodes s ip)))"
      by (rule nth_equalityI) (use n in \<open>auto simp: fbytes_def\<close>)
    then show ?thesis using False ov t fs_sameD(2) [OF t(4)] by (auto simp: readi_data_def Let_def word_less_nat_alt)
  qed
qed

section \<open>Writing\<close>

text \<open>New data in block \<open>a\<close>, which is neither the indirect block nor part of the bitmap.\<close>

lemma content_change:
  assumes ok: "file_ok c S D ino" and a: "a \<noteq> slot c ino 140 \<or> slot c ino 140 = 0" "\<not> bitmap_block S a" and c': "c' = c(a := d)"
  shows "slot c' ino = slot c ino" "j < unat (sb_size S) \<Longrightarrow> used c' S j = used c S j" "file_ok c' S D ino" "nfree c' S = nfree c S"
proof -
  show sl: "slot c' ino = slot c ino" using a(1) by (auto simp: slot_def c' fun_eq_iff)
  show u: "used c' S j = used c S j" if "j < unat (sb_size S)" for j using a(2) that by (auto simp: used_def c' bitmap_block_def)
  have u': "m < sb_size S \<Longrightarrow> used c' S (unat m) = used c S (unat m)" for m using u [of "unat m"] by (simp add: word_less_nat_alt)
  have "used c' S 0" "0 < unat (sb_size S)" using ok u [of 0] unat_gt_0 [of "sb_size S"] by (auto simp: file_ok_def bitmap_ok_def)
  then have "bitmap_ok c' S D" using ok u' by (auto simp: file_ok_def bitmap_ok_def)
  then show "file_ok c' S D ino" using ok u' unfolding file_ok_def sl data_block_def by blast
  have "{j. j < unat (sb_size S) \<and> \<not> used c' S j} = {j. j < unat (sb_size S) \<and> \<not> used c S j}" using u by auto
  then show "nfree c' S = nfree c S" by (simp add: nfree_def)
qed

lemma put_chunk:
  assumes "j < 512" "q + length cs \<le> 512"
  shows "put_bytes d (of_nat q) cs (of_nat j) = (if q \<le> j \<and> j < q + length cs then cs ! (j - q) else d (of_nat j))"
proof -
  have u: "unat (of_nat j :: u32) = j" "unat (of_nat q :: u32) = q" using assms by (simp_all add: unat_of_nat)
  show ?thesis
  proof (cases "q \<le> j")
    case True
    then have "unat (of_nat j - of_nat q :: u32) = j - q" by (simp add: unat_sub word_le_nat_alt u)
    then show ?thesis using True by (auto simp: put_bytes_def)
  next
    case False
    then have "unat (of_nat j - of_nat q :: u32) = 2 ^ 32 + j - q" by (simp add: unat_sub_if_size u word_size)
    moreover have "\<not> 2 ^ 32 + j - q < length cs" using assms False by simp
    ultimately show ?thesis using False by (simp add: put_bytes_def)
  qed
qed

text \<open>The blocks of other files: in use, not in the bitmap and not in a slot of this file.\<close>

definition keeps_others :: "superblock \<Rightarrow> inode \<Rightarrow> (u32 \<Rightarrow> block) \<Rightarrow> (u32 \<Rightarrow> block) \<Rightarrow> bool" where
  "keeps_others S ino c c' \<longleftrightarrow> (\<forall>m. m < sb_size S \<longrightarrow> used c S (unat m) \<longrightarrow>
     used c' S (unat m) \<and> (\<not> bitmap_block S m \<longrightarrow> (\<forall>j \<le> 140. m \<noteq> slot c ino j) \<longrightarrow> c' m = c m))"

text \<open>The bytes \<open>src\<close> have been written to file \<open>ip\<close> from position \<open>lo\<close> on.\<close>

definition wrote_range :: "nat \<Rightarrow> nat \<Rightarrow> u8 list \<Rightarrow> 'z fs_st_scheme \<Rightarrow> 'z fs_st_scheme \<Rightarrow> bool" where
  "wrote_range ip lo src s t \<longleftrightarrow> sb t = sb s \<and> disksize t = disksize s \<and> (\<exists>A. inodes t = (inodes s)(ip := (inodes s ip)\<lparr>iaddrs := A\<rparr>))
     \<and> file_ok (content t) (sb s) (disksize s) (inodes t ip) \<and> keeps_others (sb s) (inodes s ip) (content s) (content t)
     \<and> (\<forall>j \<le> 140. slot (content t) (inodes t ip) j \<noteq> slot (content s) (inodes s ip) j \<longrightarrow>
           \<not> used (content s) (sb s) (unat (slot (content t) (inodes t ip) j)))
     \<and> (\<forall>k < 140 * 512.
          if lo \<le> k \<and> k < lo + length src then slot (content t) (inodes t ip) (k div 512) \<noteq> 0 \<and> fbyte (content t) (inodes t ip) k = src ! (k - lo)
          else slot (content s) (inodes s ip) (k div 512) \<noteq> 0 \<longrightarrow>
            slot (content t) (inodes t ip) (k div 512) \<noteq> 0 \<and> fbyte (content t) (inodes t ip) k = fbyte (content s) (inodes s ip) k)"

lemma write_block:
  assumes t: "in_txn i p {} (n + 6) s" "2 < n" and ok: "file_ok (content s) (sb s) (disksize s) (inodes s ip)" and bn: "bn < 140"
    and free: "2 \<le> nfree (content s) (sb s)" and q: "q + length cs \<le> 512"
  obtains a t bp u v w where "bmap ip (of_nat bn) s = Ok a t" "bread 1 a t = Ok bp u" "idev (inodes t ip) = 1"
    "log_write bp (upd_buf bp (\<lambda>x. x\<lparr>bdata := put_bytes (bdata x) (of_nat q) cs\<rparr>) u) = Ok () v" "brelse bp v = Ok () w"
    "in_txn i p {} n w" "wrote_range ip (512 * bn + q) cs s w" "nfree (content s) (sb s) \<le> nfree (content w) (sb s) + 2"
proof -
  let ?c = "content s" and ?S = "sb s" and ?ino = "inodes s ip"
  have t6: "in_txn i p {} (Suc n + 5) s" using t(1) by (simp add: eval_nat_numeral)
  obtain a t where b: "bmap ip (of_nat bn) s = Ok a t" "in_txn i p {} (Suc n) t" "bmapped ip bn a s t"
    by (rule bmap_txn [OF t6 _ ok bn free]) (use t(2) in auto)
  let ?ct = "content t" and ?it = "inodes t ip"
  have B: "sb t = ?S" "disksize t = disksize s" "file_ok ?ct ?S (disksize s) ?it" "keeps_data ?S (slot ?ct ?it 140) ?c ?ct" "a \<noteq> 0"
    "\<And>k. k < 140 \<Longrightarrow> slot ?ct ?it k = (if k = bn then a else slot ?c ?ino k)" "slot ?c ?ino bn \<noteq> 0 \<Longrightarrow> a = slot ?c ?ino bn"
    "\<And>k. k \<le> 140 \<Longrightarrow> slot ?ct ?it k \<noteq> slot ?c ?ino k \<Longrightarrow> \<not> used ?c ?S (unat (slot ?ct ?it k))" "nfree ?c ?S \<le> nfree ?ct ?S + 2"
    using b(3) by (auto simp: bmapped_def)
  have a: "slot ?ct ?it bn = a" "data_block ?ct ?S ?it a" using B(6) [OF bn] file_okD(6) [OF B(3), of bn] bn B(5) by auto
  have ad: "a < disksize t" using a(2) file_okD(1) [OF B(3)] B(2) by (auto simp: data_block_def bitmap_ok_def intro: less_le_trans)
  from b(2) ad obtain bp u v w where e: "bread 1 a t = Ok bp u" "log_write bp (upd_buf bp (\<lambda>x. x\<lparr>bdata := put_bytes (bdata x) (of_nat q) cs\<rparr>) u) = Ok () v"
    "brelse bp v = Ok () w" "in_txn i p {} n w" "content w = ?ct(a := put_bytes (?ct a) (of_nat q) cs)" "fs_same {} t w"
    by (rule edit_block [where f = "\<lambda>d. put_bytes d (of_nat q) cs"]) (use t(2) in auto)
  note same = fs_sameD [OF e(6)]
  have a140: "a \<noteq> slot ?ct ?it 140" using file_okD(7) [OF B(3), of bn 140] a(1) bn B(5) by auto
  have nb: "\<not> bitmap_block ?S a" using a(2) by (simp add: data_block_def)
  note cw = content_change [OF B(3) disjI1 [OF a140] nb e(5)]
  have "keeps_others ?S ?ino ?c (content w)"
    unfolding keeps_others_def
  proof (intro allI impI conjI)
    fix m assume m: "m < sb_size ?S" "used ?c ?S (unat m)"
    then show um: "used (content w) ?S (unat m)" using B(4) cw(2) [of "unat m"] by (simp add: keeps_data_def word_less_nat_alt)
    assume nbm: "\<not> bitmap_block ?S m" and oth: "\<forall>j \<le> 140. m \<noteq> slot ?c ?ino j"
    have "m \<noteq> slot ?ct ?it j" if "j \<le> 140" for j using B(8) [OF that] m(2) oth that by metis
    from this [of bn] this [of 140] have "m \<noteq> a" "m \<noteq> slot ?ct ?it 140" using a(1) bn by simp_all
    then show "content w m = ?c m" using B(4) m nbm e(5) by (simp add: keeps_data_def)
  qed
  moreover have "slot (content w) ?it (k div 512) \<noteq> 0 \<and> fbyte (content w) ?it k = cs ! (k - (512 * bn + q))"
    if k: "512 * bn + q \<le> k" "k < 512 * bn + q + length cs" for k
  proof -
    have "k div 512 = bn" using k q by (intro div_nat_eqI) auto
    then have kb: "k div 512 = bn" "k mod 512 = k - 512 * bn" "k - 512 * bn < 512" using minus_mult_div_eq_mod [of k 512] mod_less_divisor [of 512 k] by simp_all
    have "fbyte (content w) ?it k = put_bytes (?ct a) (of_nat q) cs (of_nat (k - 512 * bn))" using kb a(1) cw(1) by (simp add: fbyte_def) (simp add: e(5))
    moreover have "q \<le> k - 512 * bn" "k - 512 * bn < q + length cs" using k by linarith+
    ultimately have "fbyte (content w) ?it k = cs ! (k - (512 * bn + q))" unfolding put_chunk [OF kb(3) q] by simp
    then show ?thesis using a(1) B(5) kb(1) by (simp add: cw(1))
  qed
  moreover have "slot (content w) ?it (k div 512) \<noteq> 0 \<and> fbyte (content w) ?it k = fbyte ?c ?ino k"
    if k: "k < 140 * 512" "\<not> (512 * bn + q \<le> k \<and> k < 512 * bn + q + length cs)" "slot ?c ?ino (k div 512) \<noteq> 0" for k
  proof -
    let ?j = "k div 512"
    have j: "?j < 140" using k(1) by auto
    have sj: "slot ?ct ?it ?j = slot ?c ?ino ?j" using B(6) [OF j] B(7) k(3) by auto
    have dj: "data_block ?c ?S ?ino (slot ?c ?ino ?j)" using file_okD(6) [OF ok] j k(3) by simp
    have "slot ?c ?ino ?j \<noteq> slot ?ct ?it 140" using file_okD(7) [OF B(3), of ?j 140] j k(3) sj by auto
    then have ct: "?ct (slot ?c ?ino ?j) = ?c (slot ?c ?ino ?j)" by (rule keeps_dataD [OF B(4) dj])
    have "content w (slot ?c ?ino ?j) (of_nat (k mod 512)) = ?c (slot ?c ?ino ?j) (of_nat (k mod 512))"
    proof (cases "?j = bn")
      case True
      then have "512 * bn + k mod 512 = k" using mult_div_mod_eq [of 512 k] by simp
      moreover have "\<not> (q \<le> y \<and> y < q + length cs)" if "512 * bn + y = k" for y using k(2) that by auto
      ultimately have "\<not> (q \<le> k mod 512 \<and> k mod 512 < q + length cs)" by blast
      then have "put_bytes (?ct a) (of_nat q) cs (of_nat (k mod 512)) = ?ct a (of_nat (k mod 512))" using put_chunk [OF _ q, of "k mod 512" "?ct a"] by auto
      then show ?thesis using ct sj a(1) True by (simp add: e(5))
    next
      case False
      then have "slot ?c ?ino ?j \<noteq> a" using file_okD(7) [OF B(3), of ?j bn] j bn k(3) sj a(1) by auto
      then show ?thesis using ct by (simp add: e(5))
    qed
    then show ?thesis using k(3) sj cw(1) by (simp add: fbyte_def)
  qed
  moreover have "\<exists>A. inodes w = (inodes s)(ip := ?ino\<lparr>iaddrs := A\<rparr>)" "inodes w ip = ?it" using b(3) same by (auto simp: bmapped_def)
  ultimately have "wrote_range ip (512 * bn + q) cs s w"
    using same B(1,2,8) cw(1,3) by (simp add: wrote_range_def)
  then show thesis using that [OF b(1) e(1) file_okD(2) [OF B(3)] e(2-4)] B(9) cw(4) by simp
qed

lemma wrote_range_used:
  "wrote_range ip lo src s t \<Longrightarrow> m < sb_size (sb s) \<Longrightarrow> used (content s) (sb s) (unat m) \<Longrightarrow> used (content t) (sb s) (unat m)"
  by (simp add: wrote_range_def keeps_others_def)

lemma wrote_range_fresh:
  assumes w: "wrote_range ip lo xs s t" "wrote_range ip hi ys t u" and j: "j \<le> 140" "slot (content u) (inodes u ip) j \<noteq> slot (content s) (inodes s ip) j"
  shows "\<not> used (content s) (sb s) (unat (slot (content u) (inodes u ip) j))"
proof (cases "slot (content u) (inodes u ip) j = slot (content t) (inodes t ip) j")
  case True
  then show ?thesis using w(1) j by (simp add: wrote_range_def)
next
  case False
  have sb: "sb t = sb s" using w(1) by (simp add: wrote_range_def)
  have n: "\<not> used (content t) (sb s) (unat (slot (content u) (inodes u ip) j))" using w(2) j(1) False sb by (simp add: wrote_range_def)
  have "used (content t) (sb s) 0" using w(1) by (simp add: wrote_range_def file_ok_def bitmap_ok_def)
  then have "slot (content u) (inodes u ip) j \<noteq> 0" using n by auto
  then have "slot (content u) (inodes u ip) j < sb_size (sb s)"
    using w(2) sb j(1) file_okD(6) [of "content u" "sb t" "disksize t" "inodes u ip" j] by (simp add: wrote_range_def data_block_def)
  then show ?thesis using n wrote_range_used [OF w(1)] by blast
qed

lemma wrote_range_append:
  assumes w: "wrote_range ip lo xs s t" "wrote_range ip (lo + length xs) ys t u"
  shows "wrote_range ip lo (xs @ ys) s u"
proof -
  have sb: "sb t = sb s" "disksize t = disksize s" using w(1) by (simp_all add: wrote_range_def)
  have "keeps_others (sb s) (inodes s ip) (content s) (content u)"
    unfolding keeps_others_def
  proof (intro allI impI conjI)
    fix m assume m: "m < sb_size (sb s)" "used (content s) (sb s) (unat m)"
    have ut: "used (content t) (sb s) (unat m)" by (rule wrote_range_used [OF w(1) m])
    then show "used (content u) (sb s) (unat m)" using wrote_range_used [OF w(2)] m(1) sb by simp
    assume nb: "\<not> bitmap_block (sb s) m" and o: "\<forall>j \<le> 140. m \<noteq> slot (content s) (inodes s ip) j"
    have "m \<noteq> slot (content t) (inodes t ip) j" if "j \<le> 140" for j using w(1) m(2) o that unfolding wrote_range_def by metis
    then have "content u m = content t m" using w(2) ut m(1) nb sb by (simp add: wrote_range_def keeps_others_def)
    also have "\<dots> = content s m" using w(1) m nb o by (simp add: wrote_range_def keeps_others_def)
    finally show "content u m = content s m" .
  qed
  moreover have "\<exists>A. inodes u = (inodes s)(ip := (inodes s ip)\<lparr>iaddrs := A\<rparr>)"
  proof -
    obtain A B where "inodes t = (inodes s)(ip := (inodes s ip)\<lparr>iaddrs := A\<rparr>)" "inodes u = (inodes t)(ip := (inodes t ip)\<lparr>iaddrs := B\<rparr>)"
      using w by (auto simp: wrote_range_def)
    then show ?thesis by auto
  qed
  moreover have "if lo \<le> k \<and> k < lo + length (xs @ ys) then slot (content u) (inodes u ip) (k div 512) \<noteq> 0 \<and> fbyte (content u) (inodes u ip) k = (xs @ ys) ! (k - lo)
     else slot (content s) (inodes s ip) (k div 512) \<noteq> 0 \<longrightarrow>
       slot (content u) (inodes u ip) (k div 512) \<noteq> 0 \<and> fbyte (content u) (inodes u ip) k = fbyte (content s) (inodes s ip) k" if k: "k < 140 * 512" for k
  proof -
    have 1: "if lo \<le> k \<and> k < lo + length xs then slot (content t) (inodes t ip) (k div 512) \<noteq> 0 \<and> fbyte (content t) (inodes t ip) k = xs ! (k - lo)
          else slot (content s) (inodes s ip) (k div 512) \<noteq> 0 \<longrightarrow>
            slot (content t) (inodes t ip) (k div 512) \<noteq> 0 \<and> fbyte (content t) (inodes t ip) k = fbyte (content s) (inodes s ip) k"
      using w(1) k by (simp add: wrote_range_def)
    have 2: "if lo + length xs \<le> k \<and> k < lo + length xs + length ys
          then slot (content u) (inodes u ip) (k div 512) \<noteq> 0 \<and> fbyte (content u) (inodes u ip) k = ys ! (k - (lo + length xs))
          else slot (content t) (inodes t ip) (k div 512) \<noteq> 0 \<longrightarrow>
            slot (content u) (inodes u ip) (k div 512) \<noteq> 0 \<and> fbyte (content u) (inodes u ip) k = fbyte (content t) (inodes t ip) k"
      using w(2) k by (simp add: wrote_range_def)
    show ?thesis using 1 2 by (auto simp: nth_append split: if_splits)
  qed
  ultimately show ?thesis
    using w sb wrote_range_fresh [OF w] unfolding wrote_range_def by simp
qed

text \<open>The number of blocks that \<open>n\<close> bytes from position \<open>k\<close> on touch.\<close>

definition nblocks :: "nat \<Rightarrow> nat \<Rightarrow> nat" where
  "nblocks k n = (if n = 0 then 0 else Suc ((k + n - 1) div 512 - k div 512))"

lemma nblocks_chunk: "0 < n \<Longrightarrow> m = min n (512 - k mod 512) \<Longrightarrow> nblocks k n = Suc (nblocks (k + m) (n - m))"
proof (cases "n \<le> 512 - k mod 512")
  case True
  assume n: "0 < n" "m = min n (512 - k mod 512)"
  have "k mod 512 + (n - 1) < 512" using True n(1) mod_less_divisor [of 512 k] by linarith
  from block_offset(1) [OF this] show ?thesis using n True by (simp add: nblocks_def)
next
  case False
  assume n: "0 < n" "m = min n (512 - k mod 512)"
  have m: "m = 512 - k mod 512" "m < n" using n False by auto
  have l: "k mod 512 < 512" by simp
  have "k + (512 - y) = 512 * Suc x" if "512 * x + y = k" "y < 512" for x y using that by simp
  from this [of "k div 512" "k mod 512"] have "k + m = 512 * Suc (k div 512)" using m(1) l by simp
  then have d: "(k + m) div 512 = Suc (k div 512)" by simp
  have "Suc (k div 512) \<le> (k + n - 1) div 512" unfolding d [symmetric] using m(2) by (intro div_le_mono) simp
  moreover have "k + m + (n - m) - 1 = k + n - 1" "n - m \<noteq> 0" "n \<noteq> 0" using m(2) by simp_all
  ultimately show ?thesis unfolding nblocks_def d by (simp add: Suc_diff_Suc Suc_le_lessD)
qed

lemma writei_loop_writes:
  assumes "in_txn i p {} (n + 6 * nblocks (unat off) (unat left)) s" "2 < n" "file_ok (content s) (sb s) (disksize s) (inodes s ip)"
    and "2 * nblocks (unat off) (unat left) \<le> nfree (content s) (sb s)" "unat off + unat left \<le> 140 * 512" "length src = unat left"
  shows "\<exists>t. writei_loop ip src off left s = Ok (off + left) t \<and> in_txn i p {} n t \<and> wrote_range ip (unat off) src s t"
  using assms
proof (induction "unat left" arbitrary: off left s src rule: less_induct)
  case less
  let ?c = "content s" and ?ino = "inodes s ip" and ?m = "chunk left off" and ?bn = "unat off div 512" and ?q = "unat off mod 512"
  show ?case
  proof (cases "left = 0")
    case True
    have "(inodes s)(ip := ?ino\<lparr>iaddrs := iaddrs ?ino\<rparr>) = inodes s" by simp
    then have "\<exists>A. inodes s = (inodes s)(ip := ?ino\<lparr>iaddrs := A\<rparr>)" by metis
    then have "wrote_range ip (unat off) src s s" using less.prems(3,6) True by (auto simp: wrote_range_def keeps_others_def)
    then show ?thesis using less.prems(1) True by (simp add: writei_loop.simps nblocks_def)
  next
    case False
    have m: "unat (off + ?m) = unat off + unat ?m" "unat (left - ?m) = unat left - unat ?m" "0 < unat ?m" "unat ?m \<le> unat left"
      using chunk_split [OF False, of off] less.prems(5) by simp_all
    have nb: "nblocks (unat off) (unat left) = Suc (nblocks (unat (off + ?m)) (unat (left - ?m)))"
      unfolding m(1,2) by (rule nblocks_chunk) (use m in \<open>simp_all add: unat_chunk\<close>)
    let ?K = "nblocks (unat (off + ?m)) (unat (left - ?m))"
    have t6: "in_txn i p {} (n + 6 * ?K + 6) s" using less.prems(1) nb by (simp add: add_ac)
    have bn: "?bn < 140" using less.prems(5) m(3,4) by auto
    have fr: "2 \<le> nfree ?c (sb s)" "?q + length (take (unat ?m) src) \<le> 512" using less.prems(4,6) nb m(4) unat_chunk [of left off] by auto
    obtain a t bp u v w where o: "bmap ip (of_nat ?bn) s = Ok a t" "bread 1 a t = Ok bp u" "idev (inodes t ip) = 1"
      "log_write bp (upd_buf bp (\<lambda>x. x\<lparr>bdata := put_bytes (bdata x) (of_nat ?q) (take (unat ?m) src)\<rparr>) u) = Ok () v" "brelse bp v = Ok () w"
      "in_txn i p {} (n + 6 * ?K) w" "wrote_range ip (512 * ?bn + ?q) (take (unat ?m) src) s w" "nfree ?c (sb s) \<le> nfree (content w) (sb s) + 2"
      by (rule write_block [OF t6 _ less.prems(3) bn fr]) (use less.prems(2) in auto)
    have sw: "sb w = sb s" "disksize w = disksize s" "file_ok (content w) (sb s) (disksize s) (inodes w ip)" using o(7) by (simp_all add: wrote_range_def)
    have "\<exists>x. writei_loop ip (drop (unat ?m) src) (off + ?m) (left - ?m) w = Ok (off + ?m + (left - ?m)) x \<and> in_txn i p {} n x
      \<and> wrote_range ip (unat (off + ?m)) (drop (unat ?m) src) w x"
      by (rule less.hyps) (use less.prems m nb o(6,8) sw in auto)
    then obtain x where x: "writei_loop ip (drop (unat ?m) src) (off + ?m) (left - ?m) w = Ok (off + left) x" "in_txn i p {} n x"
      "wrote_range ip (unat off + unat ?m) (drop (unat ?m) src) w x" using m(1) by auto
    have "length (take (unat ?m) src) = unat ?m" using less.prems(6) m(4) by simp
    then have "wrote_range ip (unat off) (take (unat ?m) src @ drop (unat ?m) src) s x"
      using o(7) x(3) by (intro wrote_range_append) simp_all
    moreover have "off mod BSIZE = of_nat ?q" using off_words(2) [of off 0] by simp
    then have "writei_loop ip src off left s = Ok (off + left) x"
      using False o(1-5) x(1) by (simp add: writei_loop.simps [of ip src off left] off_words(1) Let_def)
    ultimately show ?thesis using x(2) by auto
  qed
qed

section \<open>Inodes on disk\<close>

lemma bytes_of_u16:
  fixes v :: u16
  shows "ucast (ucast v :: u8) OR push_bit 8 (ucast (ucast (drop_bit 8 v) :: u8)) = v" (is "?w = v")
proof (rule bit_word_eqI)
  fix n assume n: "n < LENGTH(16)"
  consider "n < 8" | "8 \<le> n" by linarith
  then show "bit ?w n \<longleftrightarrow> bit v n" using n by cases (auto simp: bit_simps)
qed

text \<open>The addresses of an inode on disk, from byte 12 of it on.\<close>

definition store_addrs :: "nat \<Rightarrow> inode \<Rightarrow> u32 \<Rightarrow> block \<Rightarrow> block" where
  "store_addrs n ip off d = fold (\<lambda>i d. store32 d (off + 12 + 4 * of_nat i) (iaddrs ip i)) [0..<n] d"

lemma addr_apart: "i < 13 \<Longrightarrow> a + 4 \<le> 12 + 4 * i \<or> 16 + 4 * i \<le> a \<Longrightarrow> a < 64 \<Longrightarrow> 4 \<le> (off + of_nat a) - (off + 12 + 4 * of_nat i :: u32)"
  using of_nat_apart [of a "12 + 4 * i"] by (simp add: algebra_simps)

lemma store_addrs_byte:
  "n \<le> 13 \<Longrightarrow> (\<And>i. i < n \<Longrightarrow> 4 \<le> b - (off + 12 + 4 * of_nat i)) \<Longrightarrow> store_addrs n ip off d b = d b"
  by (induction n) (simp_all add: store_addrs_def store32_other)

lemma load_store_addrs: "n \<le> 13 \<Longrightarrow> j < n \<Longrightarrow> load32 (store_addrs n ip off d) (off + 12 + 4 * of_nat j) = iaddrs ip j"
proof (induction n)
  case (Suc n)
  show ?case
  proof (cases "j = n")
    case False
    then have "4 \<le> (off + of_nat (12 + 4 * j)) - (off + 12 + 4 * of_nat n)" "4 \<le> (off + of_nat (12 + 4 * n)) - (off + 12 + 4 * of_nat j)"
      using Suc.prems by (intro addr_apart; auto)+
    then have "4 \<le> (off + 12 + 4 * of_nat j) - (off + 12 + 4 * of_nat n)" "4 \<le> (off + 12 + 4 * of_nat n) - (off + 12 + 4 * of_nat j)"
      by (simp_all add: algebra_simps)
    then show ?thesis using Suc False by (simp add: store_addrs_def load32_store32_other)
  qed (simp add: store_addrs_def load32_store32)
qed simp

lemma store_dinode_eq:
  "store_dinode ip off d = store_addrs 13 ip off (store32 (store16 (store16 (store16 (store16 d off (itype ip)) (off + 2) (imajor ip))
     (off + 4) (iminor ip)) (off + 6) (inlink ip)) (off + 8) (isize ip))"
  by (simp add: store_dinode_def store_addrs_def Let_def)

lemma store_dinode_head:
  assumes "k < 12"
  shows "store_dinode ip off d (off + of_nat k) = store32 (store16 (store16 (store16 (store16 d off (itype ip)) (off + 2) (imajor ip))
     (off + 4) (iminor ip)) (off + 6) (inlink ip)) (off + 8) (isize ip) (off + of_nat k)"
  unfolding store_dinode_eq
proof (rule store_addrs_byte)
  fix i assume i: "i < (13 :: nat)"
  have "unat (of_nat (12 + 4 * i) :: u32) = 12 + 4 * i" "unat (of_nat k :: u32) = k" using i assms by (simp_all add: unat_of_nat del: of_nat_add of_nat_mult)
  then have "4 \<le> (of_nat k - of_nat (12 + 4 * i) :: u32)" using i assms by (simp add: word_le_nat_alt unat_sub_if_size word_size del: of_nat_add of_nat_mult)
  then show "4 \<le> off + of_nat k - (off + 12 + 4 * of_nat i)" by (simp add: algebra_simps)
qed simp

text \<open>An inode read back from where it was written.\<close>

lemma load_store_dinode: "load_dinode (store_dinode ip off d) off ip = ip"
proof -
  note h = store_dinode_head [of _ ip off d]
  have "load16 (store_dinode ip off d) off = itype ip" "load16 (store_dinode ip off d) (off + 2) = imajor ip"
    "load16 (store_dinode ip off d) (off + 4) = iminor ip" "load16 (store_dinode ip off d) (off + 6) = inlink ip"
    using h [of 0] h [of 1] h [of 2] h [of 3] h [of 4] h [of 5] h [of 6] h [of 7]
    by (simp_all add: load16_def store16_def store32_def bytes_of_u16 add.assoc)
  moreover have "load32 (store_dinode ip off d) (off + 8) = isize ip"
    using h [of 8] h [of 9] h [of 10] h [of 11] by (simp add: load32_def store32_def bytes_of_u32 add.assoc)
  moreover have "load32 (store_dinode ip off d) (off + 12 + 4 * of_nat i) = iaddrs ip i" if "i < 13" for i
    using load_store_addrs [of 13 i] that by (simp add: store_dinode_eq)
  ultimately show ?thesis by (intro inode.equality) (auto simp: load_dinode_def)
qed

text \<open>The bytes of the other inodes of the block stay.\<close>

lemma store_dinode_other: "64 \<le> b - off \<Longrightarrow> store_dinode ip off d b = d b"
proof -
  assume b: "64 \<le> b - off"
  then have u: "64 \<le> unat (b - off)" by (simp add: word_le_nat_alt)
  have far: "4 \<le> b - (off + of_nat k)" if "k \<le> 60" for k
  proof -
    have "unat (of_nat k :: u32) = k" using that by (simp add: unat_of_nat)
    then have "unat (b - off - of_nat k) = unat (b - off) - k" using u that by (simp add: unat_sub word_le_nat_alt)
    then show ?thesis using u that by (simp add: word_le_nat_alt diff_diff_eq)
  qed
  have ne: "b \<noteq> off + of_nat k" if "k < 64" for k
  proof
    assume "b = off + of_nat k"
    then have "unat (b - off) = k" using that by (simp add: unat_of_nat)
    then show False using u that by simp
  qed
  have a: "store_addrs 13 ip off d' b = d' b" for d'
    using far [of "12 + 4 * i" for i] by (intro store_addrs_byte) (simp_all add: add.assoc)
  show ?thesis
    using ne [of 0] ne [of 1] ne [of 2] ne [of 3] ne [of 4] ne [of 5] ne [of 6] ne [of 7] far [of 8]
    by (simp add: store_dinode_eq a store32_other store16_def add.assoc)
qed

lemma iupdate_txn:
  assumes "in_txn i p {} (Suc n) s" "1 < n" "idev (inodes s ip) = 1" "IBLOCK (inum (inodes s ip)) (sb s) < disksize s"
  obtains t where "iupdate ip s = Ok () t" "in_txn i p {} n t" "fs_same {} s t"
    "content t = (content s)(IBLOCK (inum (inodes s ip)) (sb s) :=
       store_dinode (inodes s ip) (dinode_off (inum (inodes s ip))) (content s (IBLOCK (inum (inodes s ip)) (sb s))))"
proof -
  let ?m = "IBLOCK (inum (inodes s ip)) (sb s)" and ?f = "store_dinode (inodes s ip) (dinode_off (inum (inodes s ip)))"
  from assms(1,4) obtain b t u v where o: "bread 1 ?m s = Ok b t" "fs_same {} s t"
    "log_write b (upd_buf b (\<lambda>x. x\<lparr>bdata := ?f (bdata x)\<rparr>) t) = Ok () u" "brelse b u = Ok () v"
    "in_txn i p {} n v" "content v = (content s)(?m := ?f (content s ?m))" "fs_same {} s v"
    by (rule edit_block [where f = ?f]) (use assms(2) in auto)
  then have "iupdate ip s = Ok () v" using assms(3) fs_sameD(2) [OF o(2)] by (simp add: iupdate_def)
  then show thesis using that o(5-7) by blast
qed

section \<open>Writing a file\<close>

lemma inode_size_simps [simp]:
  "slot c (ino\<lparr>isize := n\<rparr>) = slot c ino" "fbyte c (ino\<lparr>isize := n\<rparr>) = fbyte c ino" "file_ok c S D (ino\<lparr>isize := n\<rparr>) = file_ok c S D ino"
  by (auto simp: slot_def fbyte_def file_ok_def data_block_def fun_eq_iff)

text \<open>A change of the block that holds the inode leaves the file alone.\<close>

lemma inode_block_change:
  assumes ok: "file_ok c S D ino" and c': "c' = c(IBLOCK (inum ino) S := d)"
  shows "file_ok c' S D ino" "slot c' ino = slot c ino" "slot c ino (k div 512) \<noteq> 0 \<Longrightarrow> k < 140 * 512 \<Longrightarrow> fbyte c' ino k = fbyte c ino k"
proof -
  have "IBLOCK (inum ino) S \<noteq> slot c ino j" if "j \<le> 140" "slot c ino j \<noteq> 0" for j
    using file_okD(6) [OF ok that] by (auto simp: data_block_def)
  note ne = this
  have "IBLOCK (inum ino) S \<noteq> slot c ino 140 \<or> slot c ino 140 = 0" using ne [of 140] by auto
  note cc = content_change [OF ok this file_okD(5) [OF ok] c']
  show "file_ok c' S D ino" "slot c' ino = slot c ino" by (rule cc)+
  show "fbyte c' ino k = fbyte c ino k" if "slot c ino (k div 512) \<noteq> 0" "k < 140 * 512"
  proof -
    have "k div 512 \<le> 140" using that(2) by auto
    then have "c' (slot c ino (k div 512)) = c (slot c ino (k div 512))" using ne [of "k div 512"] that(1) by (simp add: c')
    then show ?thesis unfolding fbyte_def cc(1) by simp
  qed
qed

text \<open>The bytes of a file after a write of \<open>src\<close> at \<open>lo\<close>.\<close>

lemma wrote_bytes:
  assumes w: "wrote_range ip lo src s t" and wh: "whole (content s) (inodes s ip)" and lo: "lo \<le> unat (isize (inodes s ip))" "lo + length src \<le> 140 * 512"
    and ino: "slot c ino = slot (content t) (inodes t ip)" "unat (isize ino) = max (unat (isize (inodes s ip))) (lo + length src)"
    and fb: "\<And>k. k < 140 * 512 \<Longrightarrow> slot c ino (k div 512) \<noteq> 0 \<Longrightarrow> fbyte c ino k = fbyte (content t) (inodes t ip) k"
  shows "whole c ino" "fbytes c ino = take lo (fbytes (content s) (inodes s ip)) @ src @ drop (lo + length src) (fbytes (content s) (inodes s ip))"
proof -
  let ?n = "unat (isize (inodes s ip))"
  have sz: "?n \<le> 140 * 512" "\<And>k. k < ?n \<Longrightarrow> slot (content s) (inodes s ip) (k div 512) \<noteq> 0" using wh by (auto simp: whole_def)
  have k: "slot c ino (k div 512) \<noteq> 0 \<and> fbyte c ino k = (if lo \<le> k \<and> k < lo + length src then src ! (k - lo) else fbyte (content s) (inodes s ip) k)"
    if "k < max ?n (lo + length src)" for k
  proof -
    have k1: "k < 140 * 512" using that sz(1) lo(2) by auto
    have k2: "\<not> (lo \<le> k \<and> k < lo + length src) \<Longrightarrow> slot (content s) (inodes s ip) (k div 512) \<noteq> 0" using that sz(2) lo(1) by auto
    have "if lo \<le> k \<and> k < lo + length src then slot (content t) (inodes t ip) (k div 512) \<noteq> 0 \<and> fbyte (content t) (inodes t ip) k = src ! (k - lo)
          else slot (content s) (inodes s ip) (k div 512) \<noteq> 0 \<longrightarrow>
            slot (content t) (inodes t ip) (k div 512) \<noteq> 0 \<and> fbyte (content t) (inodes t ip) k = fbyte (content s) (inodes s ip) k"
      using w k1 by (simp add: wrote_range_def)
    then show ?thesis using k2 fb [OF k1] ino(1) by (auto split: if_splits)
  qed
  show "whole c ino" using k sz(1) lo(2) ino(2) by (auto simp: whole_def)
  show "fbytes c ino = take lo (fbytes (content s) (inodes s ip)) @ src @ drop (lo + length src) (fbytes (content s) (inodes s ip))"
  proof (rule nth_equalityI)
    show "length (fbytes c ino) = length (take lo (fbytes (content s) (inodes s ip)) @ src @ drop (lo + length src) (fbytes (content s) (inodes s ip)))"
      using lo(1) ino(2) by (simp add: fbytes_def)
    fix j assume "j < length (fbytes c ino)"
    then have j: "j < max ?n (lo + length src)" using ino(2) by (simp add: fbytes_def)
    then have "fbytes c ino ! j = (if lo \<le> j \<and> j < lo + length src then src ! (j - lo) else fbyte (content s) (inodes s ip) j)"
      using k [OF j] ino(2) by (simp add: fbytes_def)
    then show "fbytes c ino ! j = (take lo (fbytes (content s) (inodes s ip)) @ src @ drop (lo + length src) (fbytes (content s) (inodes s ip))) ! j"
      using j lo(1) by (auto simp: nth_append fbytes_def)
  qed
qed

text \<open>
  C2: writing a file.  \<open>writei\<close> of the bytes \<open>src\<close> at an offset inside the file or at its end replaces exactly these bytes, growing the
  file if they reach beyond its end, with blocks allocated as needed, direct or through the indirect block.  The file stays well formed
  and without holes, no other inode in memory changes, and on disk no byte of another file changes, neither of its blocks nor of its
  inode: of the block that the inode shares with seven others only its own 64 bytes are written (inodes do not live in block 0, the
  boot block).  When the file grows its inode on disk agrees with the one in memory.  Everything goes through the log.
\<close>

theorem writei_writes:
  assumes "in_txn i p {} (Suc k + 6 * nblocks (unat off) (length src)) s" "2 < k" "file_ok (content s) (sb s) (disksize s) (inodes s ip)"
    and "whole (content s) (inodes s ip)" "2 * nblocks (unat off) (length src) \<le> nfree (content s) (sb s)"
    and "unat off \<le> unat (isize (inodes s ip))" "unat off + length src \<le> 140 * 512" "IBLOCK (inum (inodes s ip)) (sb s) \<noteq> 0"
  shows "\<exists>t. writei_data ip src off (of_nat (length src)) s = Ok (int (length src)) t
    \<and> fbytes (content t) (inodes t ip) = take (unat off) (fbytes (content s) (inodes s ip)) @ src @ drop (unat off + length src) (fbytes (content s) (inodes s ip))
    \<and> file_ok (content t) (sb s) (disksize s) (inodes t ip) \<and> whole (content t) (inodes t ip) \<and> (\<forall>j. j \<noteq> ip \<longrightarrow> inodes t j = inodes s j)
    \<and> (\<forall>m b. m < sb_size (sb s) \<longrightarrow> used (content s) (sb s) (unat m) \<longrightarrow> \<not> bitmap_block (sb s) m \<longrightarrow>
          (\<forall>j \<le> 140. m \<noteq> slot (content s) (inodes s ip) j) \<longrightarrow>
          (m = IBLOCK (inum (inodes s ip)) (sb s) \<longrightarrow> 64 \<le> b - dinode_off (inum (inodes s ip))) \<longrightarrow> content t m b = content s m b)
    \<and> (unat (isize (inodes s ip)) < unat off + length src \<longrightarrow>
         load_dinode (content t (IBLOCK (inum (inodes s ip)) (sb s))) (dinode_off (inum (inodes s ip))) (inodes t ip) = inodes t ip)
    \<and> in_txn i p {} k t"
proof -
  let ?n = "of_nat (length src) :: u32" and ?ino = "inodes s ip" and ?IB = "IBLOCK (inum (inodes s ip)) (sb s)"
  have n: "unat ?n = length src" "sint ?n = int (length src)" using assms(7) by (simp_all add: unat_of_nat sint_of_nat_small)
  have on: "unat (off + ?n) = unat off + length src" using assms(7) n(1) by (simp add: unat_word_ariths)
  have guards: "\<not> isize ?ino < off" "\<not> off + ?n < off" "\<not> 140 * BSIZE < off + ?n" using assms(6,7) on by (simp_all add: word_less_nat_alt)
  obtain t where t: "writei_loop ip src off ?n s = Ok (off + ?n) t" "in_txn i p {} (Suc k) t" "wrote_range ip (unat off) src s t"
    using writei_loop_writes [of i p "Suc k" off ?n s ip src] assms n(1) by auto
  have w: "sb t = sb s" "disksize t = disksize s" "file_ok (content t) (sb s) (disksize s) (inodes t ip)" "keeps_others (sb s) ?ino (content s) (content t)"
    using t(3) by (auto simp: wrote_range_def)
  obtain A where A: "inodes t = (inodes s)(ip := ?ino\<lparr>iaddrs := A\<rparr>)" using t(3) by (auto simp: wrote_range_def)
  have "?IB \<noteq> slot (content s) ?ino j" if "j \<le> 140" for j
    using file_okD(6) [OF assms(3) that] assms(8) by (cases "slot (content s) ?ino j = 0") (auto simp: data_block_def)
  then have ib0: "content t ?IB = content s ?IB" using w(4) file_okD(3-5) [OF assms(3)] by (simp add: keeps_others_def)
  show ?thesis
  proof (cases "0 < ?n \<and> isize ?ino < off + ?n")
    case False
    then have mx: "unat (isize (inodes t ip)) = max (unat (isize ?ino)) (unat off + length src)" "\<not> unat (isize ?ino) < unat off + length src"
      using A on n(1) assms(6) by (auto simp: word_less_nat_alt max_def)
    have "writei_data ip src off ?n s = Ok (int (length src)) t" using guards t(1) False A n(2) by (auto simp: writei_data_def)
    moreover have "in_txn i p {} k t" by (rule in_txn_less [OF t(2)]) (use assms(2) in simp_all)
    ultimately show ?thesis
      using wrote_bytes [OF t(3) assms(4,6,7) refl mx(1) refl] w A mx(2) by (intro exI [of _ t]) (simp add: keeps_others_def)
  next
    case True
    let ?u = "upd_inode ip (\<lambda>x. x\<lparr>isize := off + ?n\<rparr>) t"
    have iu: "inum (inodes ?u ip) = inum ?ino" "idev (inodes ?u ip) = 1" using A file_okD(2) [OF assms(3)] by simp_all
    have "?IB < disksize s" using file_okD(1,3) [OF assms(3)] by (auto simp: bitmap_ok_def intro: less_le_trans)
    then have ib: "IBLOCK (inum (inodes ?u ip)) (sb ?u) < disksize ?u" using iu w(1,2) by simp
    have tu: "in_txn i p {} (Suc k) ?u" using t(2) by simp
    obtain v where v: "iupdate ip ?u = Ok () v" "in_txn i p {} k v" "fs_same {} ?u v"
      "content v = (content t)(?IB := store_dinode (inodes ?u ip) (dinode_off (inum ?ino)) (content t ?IB))"
      by (rule iupdate_txn [OF tu _ iu(2) ib]) (use assms(2) iu(1) w(1) in auto)
    have iv: "inodes v ip = (inodes t ip)\<lparr>isize := off + ?n\<rparr>" "\<And>j. j \<noteq> ip \<Longrightarrow> inodes v j = inodes s j" using fs_sameD(2) [OF v(3)] A by simp_all
    have nt: "inum (inodes t ip) = inum ?ino" using A by simp
    note bc = inode_block_change [OF w(3), unfolded nt, OF v(4)]
    have mx: "unat (isize (inodes v ip)) = max (unat (isize ?ino)) (unat off + length src)" using True on by (simp add: iv word_less_nat_alt)
    have sl: "slot (content v) (inodes v ip) = slot (content t) (inodes t ip)" using bc(2) iv(1) by simp
    have fb: "fbyte (content v) (inodes v ip) j = fbyte (content t) (inodes t ip) j"
      if "j < 140 * 512" "slot (content v) (inodes v ip) (j div 512) \<noteq> 0" for j using bc(3) [of j] that sl iv(1) by simp
    have "writei_data ip src off ?n s = Ok (int (length src)) v" using guards t(1) True A v(1) n(2) by (simp add: writei_data_def)
    moreover have "load_dinode (content v ?IB) (dinode_off (inum ?ino)) (inodes v ip) = inodes v ip"
      using load_store_dinode [of "inodes ?u ip" "dinode_off (inum ?ino)" "content t ?IB"] v(4) iv(1) by simp
    moreover have "file_ok (content v) (sb s) (disksize s) (inodes v ip)" using bc(1) iv(1) by simp
    moreover have "content v m b = content s m b"
      if "m < sb_size (sb s)" "used (content s) (sb s) (unat m)" "\<not> bitmap_block (sb s) m" "\<forall>j \<le> 140. m \<noteq> slot (content s) ?ino j"
        "m = ?IB \<longrightarrow> 64 \<le> b - dinode_off (inum ?ino)" for m b
      using that w(4) v(4) ib0 store_dinode_other [of b "dinode_off (inum ?ino)"] by (auto simp: keeps_others_def)
    ultimately show ?thesis
      using wrote_bytes [OF t(3) assms(4,6,7) sl mx fb] v(2) iv(2) by (intro exI [of _ v]) simp
  qed
qed

section \<open>The example\<close>

lemma demo_file: "file_ok demo_disk demo_sb 10 demo_inode" "whole demo_disk demo_inode" "fbytes demo_disk demo_inode = [0x61, 0x62, 0x63]"
proof -
  have ib: "IBLOCK (inum demo_inode) demo_sb = 6" by (simp add: IBLOCK_def demo_inode_def demo_sb_def)
  have nb: "bitmap_block demo_sb m \<longleftrightarrow> m = 7" for m
  proof -
    have "unat (sb_size demo_sb) = 10" by (simp add: demo_sb_def)
    then show ?thesis using demo_BBLOCK demo_BBLOCK [of 0] unfolding bitmap_block_def by (metis zero_less_numeral)
  qed
  show "file_ok demo_disk demo_sb 10 demo_inode"
    unfolding file_ok_def ib demo_slot data_block_def nb using demo_bitmap(1) demo_used by (simp add: demo_sb_def) (simp add: demo_inode_def)
  show "whole demo_disk demo_inode" by (auto simp: whole_def demo_slot) (simp_all add: demo_inode_def)
  have "unat (isize demo_inode) = Suc (Suc (Suc 0))" by (simp add: demo_inode_def)
  then show "fbytes demo_disk demo_inode = [0x61, 0x62, 0x63]" by (simp add: fbytes_def fbyte_def demo_slot demo_disk_def)
qed

theorem readi_reads_witness: "\<exists>t. readi_data 0 1 10 fs_demo = Ok (Some [0x62, 0x63]) t"
proof -
  have sz: "unat (isize demo_inode) = 3" by (simp add: demo_inode_def)
  show ?thesis using readi_reads [OF in_txnD(1) [OF fs_demo_txn(1)], of 0 1 10, unfolded fs_demo_content fs_demo_fields demo_file(3) sz] fs_demo_txn(2) demo_file by auto
qed

theorem writei_writes_witness:
  "\<exists>t. writei_data 0 [0x31, 0x32, 0x33] 2 3 fs_demo = Ok 3 t \<and> fbytes (content t) (inodes t 0) = [0x61, 0x62, 0x31, 0x32, 0x33]"
proof -
  have nb: "nblocks (unat (2 :: u32)) (length [0x31, 0x32, 0x33 :: u8]) = 1" by (simp add: nblocks_def)
  have sz: "unat (isize demo_inode) = 3" by (simp add: demo_inode_def)
  have "IBLOCK (inum demo_inode) demo_sb \<noteq> 0" by (simp add: IBLOCK_def demo_inode_def demo_sb_def)
  with writei_writes [of 0 0 3 2 "[0x31, 0x32, 0x33]" fs_demo 0] nb sz fs_demo_txn(1) demo_file demo_bitmap(2)
  show ?thesis by (auto simp: fs_demo_content)
qed

end
