(* ===== verification/Mkfs.thy ===== *)
theory Mkfs imports Fs_File begin

text \<open>
  The program that builds the disk image (\<^verbatim>\<open>mkfs.c\<close>), and how it lays out a file: block after block, with an indirect block when
  the direct ones are used up.
\<close>

section \<open>The builder\<close>

text \<open>
  The image is a file of \<open>FSSIZE\<close> blocks.  \<open>None\<close> is the end of the program with an error: a failed assertion, or a read
  or an open that fails; a block beyond the end of the image cannot be read.
\<close>

abbreviation FSSIZE :: u32 where "FSSIZE \<equiv> 1000"

definition nbitmap :: u32 where "nbitmap = FSSIZE div (512 * 8) + 1"
definition ninodeblocks :: u32 where "ninodeblocks = 200 div 8 + 1"
definition nlog :: u32 where "nlog = 30"
definition nmeta :: u32 where "nmeta = 2 + nlog + ninodeblocks + nbitmap"

text \<open>The bytes of a number in the order of the target machine, read as a number by the host, which is an x86 too.\<close>

definition xint :: "u32 \<Rightarrow> u32" where
  "xint x = load32 ((\<lambda>_. 0)(0 := ucast x, 1 := ucast (drop_bit 8 x), 2 := ucast (drop_bit 16 x), 3 := ucast (drop_bit 24 x))) 0"

definition xshort :: "u16 \<Rightarrow> u16" where
  "xshort x = load16 ((\<lambda>_. 0)(0 := ucast x, 1 := ucast (drop_bit 8 x))) 0"

definition mkfs_sb :: superblock where
  "mkfs_sb = \<lparr>sb_size = xint FSSIZE, sb_nblocks = xint (FSSIZE - nmeta), sb_ninodes = xint 200, sb_nlog = xint nlog,
     sb_logstart = xint 2, sb_inodestart = xint (2 + nlog), sb_bmapstart = xint (2 + nlog + ninodeblocks)\<rparr>"

record mkfs_st =
  img :: "u32 \<Rightarrow> block"
  freeinode :: u32
  freeblock :: u32

definition rsect :: "u32 \<Rightarrow> mkfs_st \<Rightarrow> block option" where
  "rsect sec st = (if sec < FSSIZE then Some (img st sec) else None)"

definition wsect :: "u32 \<Rightarrow> block \<Rightarrow> mkfs_st \<Rightarrow> mkfs_st" where
  "wsect sec buf st = st\<lparr>img := (img st)(sec := buf)\<rparr>"

text \<open>\<^verbatim>\<open>struct dinode\<close> in memory is an \<^typ>\<open>inode\<close> of which only the fields on disk are used.\<close>

definition winode :: "u32 \<Rightarrow> inode \<Rightarrow> mkfs_st \<Rightarrow> mkfs_st option" where
  "winode n ip st =
     (let bn = IBLOCK n mkfs_sb
      in map_option (\<lambda>buf. wsect bn (store_dinode ip (dinode_off n) buf) st) (rsect bn st))"

definition rinode :: "u32 \<Rightarrow> mkfs_st \<Rightarrow> inode option" where
  "rinode n st = map_option (\<lambda>buf. load_dinode buf (dinode_off n) zero_inode) (rsect (IBLOCK n mkfs_sb) st)"

definition mkfs_ialloc :: "u16 \<Rightarrow> mkfs_st \<Rightarrow> (u32 \<times> mkfs_st) option" where
  "mkfs_ialloc typ st =
     (let n = freeinode st; st = st\<lparr>freeinode := freeinode st + 1\<rparr>
      in map_option (\<lambda>st. (n, st)) (winode n (zero_inode\<lparr>itype := xshort typ, inlink := xshort 1, isize := xint 0\<rparr>) st))"

text \<open>\<^verbatim>\<open>freeblock++\<close>.\<close>

definition take_block :: "mkfs_st \<Rightarrow> u32 \<times> mkfs_st" where
  "take_block st = (freeblock st, st\<lparr>freeblock := freeblock st + 1\<rparr>)"

text \<open>The disk block of file block \<open>fbn\<close> of the inode \<open>din\<close>, allocated if there is none.\<close>

definition file_block :: "u32 \<Rightarrow> inode \<Rightarrow> mkfs_st \<Rightarrow> (u32 \<times> inode \<times> mkfs_st) option" where
  "file_block fbn din st =
     (if fbn < 12 then
        let (din, st) =
          (if xint (iaddrs din (unat fbn)) = 0
           then let (b, st) = take_block st in (din\<lparr>iaddrs := (iaddrs din)(unat fbn := xint b)\<rparr>, st) else (din, st))
        in Some (xint (iaddrs din (unat fbn)), din, st)
      else
        let (din, st) =
          (if xint (iaddrs din 12) = 0
           then let (b, st) = take_block st in (din\<lparr>iaddrs := (iaddrs din)(12 := xint b)\<rparr>, st) else (din, st))
        in case rsect (xint (iaddrs din 12)) st of
             None \<Rightarrow> None
           | Some indirect \<Rightarrow>
               let a = 4 * (fbn - 12);
                   (indirect, st) =
                     (if load32 indirect a = 0
                      then let (b, st) = take_block st; indirect = store32 indirect a (xint b)
                           in (indirect, wsect (xint (iaddrs din 12)) indirect st)
                      else (indirect, st))
               in Some (xint (load32 indirect a), din, st))"

fun copy_in :: "u32 \<Rightarrow> u8 list \<Rightarrow> block \<Rightarrow> block" where
  "copy_in a [] d = d"
| "copy_in a (x # xs) d = copy_in (a + 1) xs (d(a := x))"

lemma chunk_room:
  fixes off :: u32
  assumes "off div 512 < 140"
  shows "unat ((off div 512 + 1) * 512 - off) = 512 - unat off mod 512"
    "unat (off div 512 * 512 + 512 - off) = 512 - unat off mod 512"
proof -
  have q: "unat (off div 512) = unat off div 512" by (simp add: unat_div)
  then have lt: "unat off div 512 < 140" using assms by (simp add: word_less_nat_alt)
  have m: "unat ((off div 512 + 1) * 512) = (unat off div 512 + 1) * 512"
    using lt by (simp add: unat_word_ariths q)
  have "unat off \<le> (unat off div 512 + 1) * 512" by simp
  then have "off \<le> (off div 512 + 1) * 512" unfolding word_le_nat_alt m .
  then have "unat ((off div 512 + 1) * 512 - off) = (unat off div 512 + 1) * 512 - unat off"
    unfolding m [symmetric] by (rule unat_sub)
  moreover have "(unat off div 512 + 1) * 512 - unat off = 512 - unat off mod 512"
  proof -
    have "a * 512 + b = c \<Longrightarrow> (a + 1) * 512 - c = 512 - b" for a b c :: nat by auto
    then show ?thesis using div_mult_mod_eq [of "unat off" 512] by blast
  qed
  ultimately show "unat ((off div 512 + 1) * 512 - off) = 512 - unat off mod 512" by simp
  then show "unat (off div 512 * 512 + 512 - off) = 512 - unat off mod 512" by (simp add: distrib_right)
qed

function iappend_loop :: "u8 list \<Rightarrow> u32 \<Rightarrow> inode \<Rightarrow> mkfs_st \<Rightarrow> (u32 \<times> inode \<times> mkfs_st) option" where
  "iappend_loop p off din st =
     (if p = [] then Some (off, din, st)
      else let fbn = off div 512
           in if \<not> fbn < 140 then None
              else case file_block fbn din st of
                None \<Rightarrow> None
              | Some (x, din, st) \<Rightarrow>
                  let n1 = min (length p) (unat ((fbn + 1) * 512 - off))
                  in (case rsect x st of
                        None \<Rightarrow> None
                      | Some buf \<Rightarrow>
                          iappend_loop (drop n1 p) (off + of_nat n1) din (wsect x (copy_in (off - fbn * 512) (take n1 p) buf) st)))"
  by pat_completeness auto
termination
  by (relation "measure (\<lambda>(p, _). length p)") (auto simp: chunk_room)

declare iappend_loop.simps [simp del]

definition iappend :: "u32 \<Rightarrow> u8 list \<Rightarrow> mkfs_st \<Rightarrow> mkfs_st option" where
  "iappend n p st =
     (case rinode n st of None \<Rightarrow> None
      | Some din \<Rightarrow>
          (case iappend_loop p (xint (isize din)) din st of None \<Rightarrow> None
           | Some (off, din, st) \<Rightarrow> winode n (din\<lparr>isize := xint off\<rparr>) st))"

definition mkfs_balloc :: "u32 \<Rightarrow> mkfs_st \<Rightarrow> mkfs_st option" where
  "mkfs_balloc n st =
     (if \<not> sint n < 512 * 8 then None
      else Some (wsect (sb_bmapstart mkfs_sb) (fold (\<lambda>i buf. mark_bit buf i) [0..<nat (sint n)] (\<lambda>_. 0)) st))"

text \<open>\<^verbatim>\<open>while((cc = read(fd, buf, sizeof(buf))) > 0) iappend(inum, buf, cc)\<close> on an ordinary file.\<close>

function append_file :: "u32 \<Rightarrow> u8 list \<Rightarrow> mkfs_st \<Rightarrow> mkfs_st option" where
  "append_file n data st =
     (if data = [] then Some st
      else Option.bind (iappend n (take 512 data) st) (append_file n (drop 512 data)))"
  by pat_completeness auto
termination
  by (relation "measure (\<lambda>(_, data, _). length data)") auto

declare append_file.simps [simp del]

text \<open>A file argument: its name, and its bytes unless it cannot be opened.\<close>

definition add_file :: "u8 list \<times> u8 list option \<Rightarrow> mkfs_st \<Rightarrow> mkfs_st option" where
  "add_file f st =
     (if 0x2F \<in> set (fst f) then None
      else case snd f of None \<Rightarrow> None
      | Some data \<Rightarrow>
          let name = (if fst f \<noteq> [] \<and> hd (fst f) = 0x5F then tl (fst f) else fst f)
          in Option.bind (mkfs_ialloc 2 st) (\<lambda>(n, st).
             Option.bind (iappend 1 (make_dirent (xshort (ucast n)) name) st) (append_file n data)))"

fun add_files :: "(u8 list \<times> u8 list option) list \<Rightarrow> mkfs_st \<Rightarrow> mkfs_st option" where
  "add_files [] st = Some st"
| "add_files (f # fs) st = Option.bind (add_file f st) (add_files fs)"

definition encode_sb :: "superblock \<Rightarrow> block" where
  "encode_sb S = store32 (store32 (store32 (store32 (store32 (store32 (store32 (\<lambda>_. 0) 0 (sb_size S)) 4 (sb_nblocks S)) 8 (sb_ninodes S))
     12 (sb_nlog S)) 16 (sb_logstart S)) 20 (sb_inodestart S)) 24 (sb_bmapstart S)"

definition fix_root :: "mkfs_st \<Rightarrow> mkfs_st option" where
  "fix_root st =
     (case rinode 1 st of None \<Rightarrow> None
      | Some din \<Rightarrow> let off = xint (isize din); off = (off div 512 + 1) * 512 in winode 1 (din\<lparr>isize := xint off\<rparr>) st)"

definition mkfs_main :: "(u8 list \<times> u8 list option) list \<Rightarrow> mkfs_st option" where
  "mkfs_main args =
     (let st = \<lparr>img = (\<lambda>_ _. 0), freeinode = 1, freeblock = nmeta\<rparr>;
          st = wsect 1 (encode_sb mkfs_sb) st
      in Option.bind (mkfs_ialloc 1 st) (\<lambda>(rootino, st).
         if rootino \<noteq> 1 then None
         else Option.bind (iappend rootino (make_dirent (xshort (ucast rootino)) [0x2E]) st) (\<lambda>st.
              Option.bind (iappend rootino (make_dirent (xshort (ucast rootino)) [0x2E, 0x2E]) st) (\<lambda>st.
              Option.bind (add_files args st) (\<lambda>st.
              Option.bind (fix_root st) (\<lambda>st. mkfs_balloc (freeblock st) st))))))"

section \<open>Files under construction\<close>

lemma xint_id [simp]: "xint x = x"
  by (simp add: xint_def load32_def bytes_of_u32)

lemma xshort_id [simp]: "xshort x = x"
  by (simp add: xshort_def load16_def bytes_of_u16)

lemma mkfs_sb_eq: "mkfs_sb = \<lparr>sb_size = 1000, sb_nblocks = 941, sb_ninodes = 200, sb_nlog = 30,
     sb_logstart = 2, sb_inodestart = 32, sb_bmapstart = 58\<rparr>" "nmeta = 59"
  by (simp_all add: mkfs_sb_def nmeta_def nlog_def ninodeblocks_def nbitmap_def)

text \<open>
  \<open>laid c F ino nb xs\<close>: the inode has \<open>nb\<close> blocks of data, different blocks between the end of the metadata and the first free
  block \<open>F\<close>, an indirect block when it needs one, and its bytes are \<open>xs\<close> followed by zeros.
\<close>

definition laid :: "(u32 \<Rightarrow> block) \<Rightarrow> nat \<Rightarrow> inode \<Rightarrow> nat \<Rightarrow> u8 list \<Rightarrow> bool" where
  "laid c F ino nb xs \<longleftrightarrow> nb \<le> 140 \<and> length xs \<le> 512 * nb
     \<and> (\<forall>j < 140. slot c ino j \<noteq> 0 \<longleftrightarrow> j < nb) \<and> (slot c ino 140 \<noteq> 0 \<longleftrightarrow> 12 < nb)
     \<and> (\<forall>j \<le> 140. slot c ino j \<noteq> 0 \<longrightarrow> 59 \<le> unat (slot c ino j) \<and> unat (slot c ino j) < F
          \<and> (\<forall>k \<le> 140. slot c ino k = slot c ino j \<longrightarrow> k = j))
     \<and> (\<forall>k < 512 * nb. fbyte c ino k = (if k < length xs then xs ! k else 0))"

definition owned :: "(u32 \<Rightarrow> block) \<Rightarrow> inode \<Rightarrow> u32 set" where
  "owned c ino = slot c ino ` {..140} - {0}"

definition zero_above :: "(u32 \<Rightarrow> block) \<Rightarrow> nat \<Rightarrow> bool" where
  "zero_above c F \<longleftrightarrow> (\<forall>m. F \<le> unat m \<longrightarrow> unat m < 1000 \<longrightarrow> c m = (\<lambda>_. 0))"

definition dblocks :: "nat \<Rightarrow> nat" where
  "dblocks nb = nb + (if 12 < nb then 1 else 0)"

text \<open>What work on one file leaves alone.\<close>

definition file_step :: "nat \<Rightarrow> inode \<Rightarrow> mkfs_st \<Rightarrow> nat \<Rightarrow> inode \<Rightarrow> mkfs_st \<Rightarrow> bool" where
  "file_step F ino st F' ino' st' \<longleftrightarrow> F \<le> F' \<and> freeblock st' = of_nat F' \<and> freeinode st' = freeinode st
     \<and> (\<exists>A. ino' = ino\<lparr>iaddrs := A\<rparr>) \<and> zero_above (img st') F'
     \<and> (\<forall>m. unat m < F \<longrightarrow> m \<notin> owned (img st) ino \<longrightarrow> img st' m = img st m)
     \<and> owned (img st') ino' \<subseteq> owned (img st) ino \<union> {m. F \<le> unat m \<and> unat m < F'}"

lemma file_step_trans:
  assumes "file_step F ino st F' ino' st'" "file_step F' ino' st' F'' ino'' st''"
  shows "file_step F ino st F'' ino'' st''"
proof -
  have "img st'' m = img st m" if m: "unat m < F" "m \<notin> owned (img st) ino" for m
  proof -
    have "unat m < F'" "m \<notin> owned (img st') ino'" using m assms(1) unfolding file_step_def by fastforce+
    then have "img st'' m = img st' m" using assms(2) unfolding file_step_def by blast
    then show ?thesis using assms(1) m unfolding file_step_def by simp
  qed
  moreover have "\<exists>A. ino'' = ino\<lparr>iaddrs := A\<rparr>" using assms unfolding file_step_def by fastforce
  moreover have "owned (img st'') ino'' \<subseteq> owned (img st) ino \<union> {m. F \<le> unat m \<and> unat m < F''}"
    using assms unfolding file_step_def by fastforce
  ultimately show ?thesis using assms unfolding file_step_def by auto
qed

lemma laidD:
  assumes "laid c F ino nb xs"
  shows "nb \<le> 140" "length xs \<le> 512 * nb" "\<And>j. j < 140 \<Longrightarrow> slot c ino j \<noteq> 0 \<longleftrightarrow> j < nb" "slot c ino 140 \<noteq> 0 \<longleftrightarrow> 12 < nb"
    "\<And>j. j \<le> 140 \<Longrightarrow> slot c ino j \<noteq> 0 \<Longrightarrow> 59 \<le> unat (slot c ino j)"
    "\<And>j. j \<le> 140 \<Longrightarrow> slot c ino j \<noteq> 0 \<Longrightarrow> unat (slot c ino j) < F"
    "\<And>j k. j \<le> 140 \<Longrightarrow> k \<le> 140 \<Longrightarrow> slot c ino j \<noteq> 0 \<Longrightarrow> slot c ino k = slot c ino j \<Longrightarrow> k = j"
    "\<And>k. k < 512 * nb \<Longrightarrow> fbyte c ino k = (if k < length xs then xs ! k else 0)"
  using assms unfolding laid_def by blast+

lemma slot_iaddrs: "slot c ino j = (if j < 12 then iaddrs ino j else if j = 140 then iaddrs ino 12
     else if iaddrs ino 12 = 0 then 0 else load32 (c (iaddrs ino 12)) (4 * of_nat (j - 12)))"
  by (rule slot_def)

text \<open>A new last block: the slots of the others are as before, the new ones are the next free blocks.\<close>

lemma laid_extend:
  assumes l: "laid c F ino nb xs" and nb: "nb < 140" and z: "zero_above c F" and g: "g = dblocks (nb + 1) - dblocks nb" and F: "59 \<le> F" "F + g \<le> 1000"
    and old: "\<And>j. j < 140 \<Longrightarrow> j \<noteq> nb \<Longrightarrow> slot c' ino' j = slot c ino j"
    and new: "F \<le> unat (slot c' ino' nb)" "unat (slot c' ino' nb) < F + g"
    and ind: "if nb = 12 then unat (slot c' ino' 140) = F \<and> unat (slot c' ino' nb) = F + 1 else slot c' ino' 140 = slot c ino 140"
    and same: "\<And>m. m \<noteq> slot c' ino' 140 \<Longrightarrow> c' m = c m"
  shows "laid c' (F + g) ino' (nb + 1) xs"
    "owned c' ino' \<subseteq> owned c ino \<union> {m. F \<le> unat m \<and> unat m < F + g}"
proof -
  note d = laidD [OF l]
  let ?F = "F + g"
  let ?new = "\<lambda>j. j = nb \<or> j = 140 \<and> nb = 12"
  have olds: "unat (slot c ino j) < F" if "j \<le> 140" for j using d(6) [OF that] F by (cases "slot c ino j = 0") auto
  have N: "F \<le> unat (slot c' ino' j) \<and> unat (slot c' ino' j) < ?F" if "?new j" for j
    using that new ind by (auto simp: g dblocks_def split: if_splits)
  have O: "slot c' ino' j = slot c ino j" if "\<not> ?new j" "j \<le> 140" for j
    using that old [of j] ind by (cases "j = 140") (auto split: if_splits)
  have nz: "slot c' ino' j \<noteq> 0" if "?new j" for j using N [OF that] F by auto
  have inj: "k = j" if jk: "j \<le> 140" "k \<le> 140" "slot c' ino' j \<noteq> 0" "slot c' ino' k = slot c' ino' j" for j k
  proof (cases "?new j \<or> ?new k")
    case True
    then have "?new j \<and> ?new k" using N [of j] N [of k] O [of j] O [of k] olds [of j] olds [of k] jk by (metis leD)
    then show ?thesis using jk(4) ind by (auto split: if_splits)
  next
    case False
    then show ?thesis using O [of j] O [of k] jk d(7) by auto
  qed
  have "fbyte c' ino' k = (if k < length xs then xs ! k else 0)" if k: "k < 512 * (nb + 1)" for k
  proof -
    let ?j = "k div 512"
    have j: "?j \<le> nb" using k by (simp add: less_mult_imp_div_less)
    have s: "slot c' ino' ?j \<noteq> 0" using nz [of ?j] O [of ?j] d(3) [of ?j] j nb by (cases "?j = nb") auto
    have "slot c' ino' ?j \<noteq> slot c' ino' 140" using inj [of ?j 140] s j nb by auto
    then have same': "c' (slot c' ino' ?j) = c (slot c' ino' ?j)" by (rule same)
    show ?thesis
    proof (cases "?j = nb")
      case True
      then have "length xs \<le> k" using d(2) div_times_less_eq_dividend [of k 512] by simp
      moreover have "c (slot c' ino' nb) = (\<lambda>_. 0)" using z N [of nb] F unfolding zero_above_def by simp
      ultimately show ?thesis using same' True by (simp add: fbyte_def)
    next
      case False
      then have jn: "?j < nb" using j by simp
      then have "k < 512 * nb" by (simp add: less_mult_imp_div_less dividend_less_times_div div_less_iff_less_mult mult.commute)
      then show ?thesis using d(8) [of k] same' O [of ?j] jn nb by (simp add: fbyte_def)
    qed
  qed
  moreover have "slot c' ino' j \<noteq> 0 \<longleftrightarrow> j < nb + 1" if "j < 140" for j
    using nz [of j] O [of j] d(3) [OF that] that by (cases "j = nb") auto
  moreover have "slot c' ino' 140 \<noteq> 0 \<longleftrightarrow> 12 < nb + 1"
    using nz [of 140] O [of 140] d(4) nb by (cases "nb = 12") auto
  moreover have "59 \<le> unat (slot c' ino' j) \<and> unat (slot c' ino' j) < ?F" if "j \<le> 140" "slot c' ino' j \<noteq> 0" for j
    using N [of j] O [of j] d(5,6) [of j] that F by (cases "?new j") auto
  ultimately show "laid c' ?F ino' (nb + 1) xs" using d(1,2) nb inj unfolding laid_def by auto
  show "owned c' ino' \<subseteq> owned c ino \<union> {m. F \<le> unat m \<and> unat m < ?F}"
  proof
    fix m assume "m \<in> owned c' ino'"
    then obtain j where j: "j \<le> 140" "m = slot c' ino' j" "m \<noteq> 0" by (auto simp: owned_def)
    then show "m \<in> owned c ino \<union> {m. F \<le> unat m \<and> unat m < ?F}"
      using N [of j] O [of j] by (cases "?new j") (auto simp: owned_def)
  qed
qed

lemma owned_laid: "laid c F ino nb xs \<Longrightarrow> m \<in> owned c ino \<Longrightarrow> 59 \<le> unat m \<and> unat m < F"
  by (auto simp: owned_def dest: laidD)

lemma slot_indirect:
  assumes "12 \<le> j" "j < 140"
  shows "slot c ino j = (if iaddrs ino 12 = 0 then 0 else load32 (c (iaddrs ino 12)) (4 * (of_nat j - 12)))"
proof -
  have "of_nat (j - 12) = (of_nat j - 12 :: u32)" using assms by (simp add: of_nat_diff)
  then show ?thesis using assms by (simp add: slot_def)
qed

lemma slot_140: "slot c ino 140 = iaddrs ino 12"
  by (simp add: slot_def)

lemma file_block_old:
  assumes l: "laid (img st) F din nb xs" and fbn: "fbn < nb" and F: "F \<le> 1000"
  shows "file_block (of_nat fbn) din st = Some (slot (img st) din fbn, din, st)"
proof -
  note d = laidD [OF l]
  have u: "unat (of_nat fbn :: u32) = fbn" using fbn d(1) by (simp add: unat_of_nat_u32)
  have lt: "of_nat fbn < (12 :: u32) \<longleftrightarrow> fbn < 12" by (simp add: word_less_nat_alt u)
  have s: "slot (img st) din fbn \<noteq> 0" using d(1) d(3) [of fbn] fbn by simp
  show ?thesis
  proof (cases "fbn < 12")
    case True
    then show ?thesis using s by (simp add: file_block_def lt u slot_def)
  next
    case False
    have i: "slot (img st) din 140 \<noteq> 0" using d(4) fbn False by simp
    then have "unat (iaddrs din 12) < 1000" using d(6) [of 140] F by (simp add: slot_140)
    then show ?thesis using s i False fbn d(1)
      by (simp add: file_block_def lt u slot_indirect slot_140 rsect_def word_less_nat_alt Let_def split: if_splits)
  qed
qed

lemma unat_lt_1000: "F < 1000 \<Longrightarrow> unat (of_nat F :: u32) = F"
  by (simp add: unat_of_nat_u32)

text \<open>The next block of a file is made in one of three ways.\<close>

lemma file_block_direct:
  assumes l: "laid (img st) F din nb xs" and z: "zero_above (img st) F" and f: "freeblock st = of_nat F"
    and nb: "nb < 12" and F: "59 \<le> F" "F < 1000"
  shows "\<exists>din' st'. file_block (of_nat nb) din st = Some (slot (img st') din' nb, din', st')
    \<and> file_step F din st (F + 1) din' st' \<and> laid (img st') (F + 1) din' (nb + 1) xs"
proof -
  note d = laidD [OF l]
  have u: "unat (of_nat nb :: u32) = nb" using nb by (simp add: unat_of_nat_u32)
  define din' where "din' = din\<lparr>iaddrs := (iaddrs din)(nb := of_nat F)\<rparr>"
  define st' where "st' = st\<lparr>freeblock := of_nat F + 1\<rparr>"
  have "iaddrs din nb = 0" using d(3) [of nb] nb by (simp add: slot_def)
  then have "file_block (of_nat nb) din st = Some (slot (img st') din' nb, din', st')"
    using nb by (simp add: file_block_def word_less_nat_alt u take_block_def f din'_def st'_def slot_def)
  moreover have diff: "1 = dblocks (nb + 1) - dblocks nb" using nb by (simp add: dblocks_def)
  have sl: "slot (img st) din' j = (if j = nb then of_nat F else slot (img st) din j)" if "j \<le> 140" for j
    using nb by (simp add: slot_def din'_def)
  have "laid (img st) (F + 1) din' (nb + 1) xs" "owned (img st) din' \<subseteq> owned (img st) din \<union> {m. F \<le> unat m \<and> unat m < F + 1}"
    using laid_extend [OF l _ z diff, of "img st" din'] F nb sl by (auto simp: unat_lt_1000)
  moreover have "zero_above (img st) (F + 1)" using z by (simp add: zero_above_def)
  ultimately show ?thesis by (intro exI [of _ din'] exI [of _ st']) (auto simp: file_step_def st'_def din'_def)
qed

lemma file_block_first_indirect:
  assumes l: "laid (img st) F din 12 xs" and z: "zero_above (img st) F" and f: "freeblock st = of_nat F"
    and F: "59 \<le> F" "F + 1 < 1000"
  shows "\<exists>din' st'. file_block 12 din st = Some (slot (img st') din' 12, din', st')
    \<and> file_step F din st (F + 2) din' st' \<and> laid (img st') (F + 2) din' 13 xs"
proof -
  note d = laidD [OF l]
  have u: "unat (of_nat F :: u32) = F" "unat (of_nat F + 1 :: u32) = F + 1"
    using F unat_lt_1000 [of "F + 1"] by (simp_all add: unat_lt_1000 add.commute)
  define din' where "din' = din\<lparr>iaddrs := (iaddrs din)(12 := of_nat F)\<rparr>"
  define c' where "c' = (img st)(of_nat F := store32 (\<lambda>_. 0) 0 (of_nat F + 1))"
  define st' where "st' = st\<lparr>freeblock := of_nat F + 2, img := c'\<rparr>"
  have z0: "img st (of_nat F) = (\<lambda>_. 0)" using z F u by (simp add: zero_above_def)
  have l0: "load32 (\<lambda>_. 0) a = 0" for a by (simp add: load32_def)
  have "iaddrs din 12 = 0" using d(4) by (simp add: slot_140)
  then have fb: "file_block 12 din st = Some (of_nat F + 1, din', st')"
    using F by (simp add: file_block_def take_block_def f din'_def st'_def c'_def rsect_def wsect_def word_less_nat_alt u z0 l0 load32_store32 add.assoc Let_def)
  have F0: "(of_nat F :: u32) \<noteq> 0" using F u by auto
  have s12: "slot c' din' 12 = of_nat F + 1" using F0 by (simp add: slot_indirect din'_def c'_def load32_store32)
  have s140: "slot c' din' 140 = of_nat F" by (simp add: slot_140 din'_def)
  have old: "slot c' din' j = slot (img st) din j" if j: "j < 140" "j \<noteq> 12" for j
  proof (cases "j < 12")
    case False
    then have "slot (img st) din j = 0" using d(3) [of j] j by simp
    moreover have "4 \<le> (of_nat (4 * (j - 12)) - of_nat 0 :: u32)" by (rule of_nat_apart) (use False j in auto)
    moreover have "4 \<le> (of_nat 0 - of_nat (4 * (j - 12)) :: u32)" by (rule of_nat_apart) (use False j in auto)
    ultimately have "load32 (store32 (\<lambda>_. 0) 0 (of_nat F + 1)) (4 * of_nat (j - 12)) = 0" "slot (img st) din j = 0"
      by (simp_all add: load32_store32_other l0)
    then show ?thesis using False j by (subst slot_def) (simp add: din'_def c'_def)
  qed (simp add: slot_def din'_def)
  have diff: "2 = dblocks (12 + 1) - dblocks 12" by (simp add: dblocks_def)
  have ext: "laid c' (F + 2) din' 13 xs" "owned c' din' \<subseteq> owned (img st) din \<union> {m. F \<le> unat m \<and> unat m < F + 2}"
    using laid_extend [OF l _ z diff, of c' din'] F old s12 s140 u by (auto simp: c'_def)
  moreover have "zero_above c' (F + 2)" using z u by (auto simp: zero_above_def c'_def)
  ultimately show ?thesis using fb s12 u
    by (intro exI [of _ din'] exI [of _ st']) (auto simp: file_step_def st'_def din'_def c'_def)
qed

lemma file_block_indirect:
  assumes l: "laid (img st) F din nb xs" and z: "zero_above (img st) F" and f: "freeblock st = of_nat F"
    and nb: "12 < nb" "nb < 140" and F: "59 \<le> F" "F < 1000"
  shows "\<exists>din' st'. file_block (of_nat nb) din st = Some (slot (img st') din' nb, din', st')
    \<and> file_step F din st (F + 1) din' st' \<and> laid (img st') (F + 1) din' (nb + 1) xs"
proof -
  note d = laidD [OF l]
  let ?i = "iaddrs din 12" and ?a = "4 * (of_nat nb - 12) :: u32"
  have u: "unat (of_nat F :: u32) = F" using F by (simp add: unat_lt_1000)
  have un: "unat (of_nat nb :: u32) = nb" using nb by (simp add: unat_of_nat_u32)
  have i: "?i \<noteq> 0" "unat ?i < F" using d(4) d(6) [of 140] nb by (auto simp: slot_140)
  define c' where "c' = (img st)(?i := store32 (img st ?i) ?a (of_nat F))"
  define st' where "st' = st\<lparr>freeblock := of_nat F + 1, img := c'\<rparr>"
  have "load32 (img st ?i) ?a = 0" using d(3) [of nb] nb i by (simp add: slot_indirect)
  then have fb: "file_block (of_nat nb) din st = Some (of_nat F, din, st')"
    using F i nb by (simp add: file_block_def word_less_nat_alt un take_block_def f st'_def c'_def rsect_def wsect_def load32_store32 Let_def)
  have sn: "slot c' din nb = of_nat F" using i nb by (simp add: slot_indirect c'_def load32_store32)
  have old: "slot c' din j = slot (img st) din j" if j: "j < 140" "j \<noteq> nb" for j
  proof (cases "j < 12")
    case False
    have e: "?a = of_nat (4 * (nb - 12))" "4 * (of_nat j - 12 :: u32) = of_nat (4 * (j - 12))"
      using nb False by (simp_all add: of_nat_diff)
    have "load32 (store32 (img st ?i) ?a (of_nat F)) (4 * (of_nat j - 12)) = load32 (img st ?i) (4 * (of_nat j - 12))"
      unfolding e by (rule load32_store32_other; rule of_nat_apart) (use nb j False in auto)
    then show ?thesis using False j i by (simp add: slot_indirect c'_def)
  qed (simp add: slot_def)
  have diff: "1 = dblocks (nb + 1) - dblocks nb" using nb by (simp add: dblocks_def)
  have ext: "laid c' (F + 1) din (nb + 1) xs" "owned c' din \<subseteq> owned (img st) din \<union> {m. F \<le> unat m \<and> unat m < F + 1}"
    using laid_extend [OF l nb(2) z diff, of c' din] F old sn u nb by (auto simp: c'_def slot_140)
  moreover have "zero_above c' (F + 1)" using z i by (auto simp: zero_above_def c'_def)
  moreover have "?i \<in> slot (img st) din ` {..140}" by (rule image_eqI [of _ _ 140]) (simp_all add: slot_140)
  then have "?i \<in> owned (img st) din" using i by (simp add: owned_def)
  ultimately show ?thesis using fb sn
    by (intro exI [of _ din] exI [of _ st']) (auto simp: file_step_def st'_def c'_def intro!: exI [of _ "iaddrs din"])
qed

lemma laid_file_block:
  assumes l: "laid (img st) F din nb xs" and z: "zero_above (img st) F" and f: "freeblock st = of_nat F"
    and fbn: "fbn \<le> nb" "fbn < 140" and F: "59 \<le> F" "F' = F + (dblocks (max nb (fbn + 1)) - dblocks nb)" "F' \<le> 1000"
  shows "\<exists>din' st'. file_block (of_nat fbn) din st = Some (slot (img st') din' fbn, din', st')
    \<and> file_step F din st F' din' st' \<and> laid (img st') F' din' (max nb (fbn + 1)) xs"
proof (cases "fbn < nb")
  case True
  then have max: "max nb (fbn + 1) = nb" by simp
  have "file_step F din st F din st"
    using z f by (auto simp: file_step_def intro!: exI [of _ "iaddrs din"])
  then show ?thesis using file_block_old [OF l True] l F unfolding max by auto
next
  case False
  then have e: "fbn = nb" using fbn by simp
  consider "nb < 12" | "nb = 12" | "12 < nb" by linarith
  then show ?thesis
  proof cases
    case 1
    then have "F' = F + 1" using F e by (simp add: dblocks_def)
    then show ?thesis using file_block_direct [OF l z f 1] F e by auto
  next
    case 2
    then have "F' = F + 2" using F e by (simp add: dblocks_def)
    then show ?thesis using file_block_first_indirect [OF l [unfolded 2] z f] F e 2 by auto
  next
    case 3
    then have "F' = F + 1" using F e by (simp add: dblocks_def)
    then show ?thesis using file_block_indirect [OF l z f 3] F e fbn by auto
  qed
qed

section \<open>Appending\<close>

lemma copy_in_nth:
  "a + length ys \<le> 512 \<Longrightarrow> j < 512 \<Longrightarrow>
   copy_in (of_nat a) ys d (of_nat j) = (if a \<le> j \<and> j < a + length ys then ys ! (j - a) else d (of_nat j))"
proof (induction ys arbitrary: a d)
  case (Cons y ys)
  have inj: "(of_nat j :: u32) = of_nat a \<longleftrightarrow> j = a"
  proof -
    have "unat (of_nat j :: u32) = j" "unat (of_nat a :: u32) = a" using Cons.prems by (simp_all add: unat_of_nat_u32)
    then show ?thesis by (auto simp: word_unat_eq_iff)
  qed
  have "copy_in (of_nat a) (y # ys) d (of_nat j) = copy_in (of_nat (Suc a)) ys (d(of_nat a := y)) (of_nat j)"
    by (simp add: add.commute)
  also have "\<dots> = (if Suc a \<le> j \<and> j < Suc a + length ys then ys ! (j - Suc a) else (d(of_nat a := y)) (of_nat j))"
    by (rule Cons.IH) (use Cons.prems in auto)
  finally show ?case using inj by (cases "j = a") (auto simp: nth_Cons' not_less_eq_eq Suc_diff_le)
qed auto

lemma laid_put:
  assumes l: "laid c F ino nb xs" and o: "length xs = 512 * fbn + r" "r < 512" "fbn < nb" and ys: "r + length ys \<le> 512"
  shows "laid (c(slot c ino fbn := copy_in (of_nat r) ys (c (slot c ino fbn)))) F ino nb (xs @ ys)"
    "owned (c(slot c ino fbn := copy_in (of_nat r) ys (c (slot c ino fbn)))) ino = owned c ino"
proof -
  note d = laidD [OF l]
  let ?x = "slot c ino fbn"
  let ?c = "c(?x := copy_in (of_nat r) ys (c ?x))"
  have fb: "fbn < 140" using o(3) d(1) by simp
  have x0: "?x \<noteq> 0" using d(3) [OF fb] o(3) by simp
  have ne: "?x \<noteq> slot c ino 140" using d(7) [of fbn 140] x0 fb by auto
  have slots: "slot ?c ino j = slot c ino j" for j
    using ne unfolding slot_140 by (simp add: slot_def)
  have "fbyte ?c ino k = (if k < length (xs @ ys) then (xs @ ys) ! k else 0)" if k: "k < 512 * nb" for k
  proof (cases "k div 512 = fbn")
    case True
    have kr: "k = 512 * fbn + k mod 512" using True by (metis mult_div_mod_eq)
    have "fbyte ?c ino k = (if r \<le> k mod 512 \<and> k mod 512 < r + length ys then ys ! (k mod 512 - r) else fbyte c ino k)"
      using True copy_in_nth [OF ys, of "k mod 512"] by (simp add: fbyte_def slots)
    moreover have "k - (512 * fbn + r) = k mod 512 - r" "r \<le> k mod 512 \<longleftrightarrow> 512 * fbn + r \<le> k"
      "k mod 512 < r + length ys \<longleftrightarrow> k < 512 * fbn + r + length ys" using kr by linarith+
    ultimately show ?thesis using d(8) [OF k] o(1) by (auto simp: nth_append)
  next
    case False
    have "slot c ino (k div 512) \<noteq> ?x"
      using d(7) [of fbn "k div 512"] x0 fb False less_mult_imp_div_less [of k 140 512] k d(1) by auto
    then have "fbyte ?c ino k = fbyte c ino k" by (simp add: fbyte_def slots)
    moreover have "k < length xs \<longleftrightarrow> k < length (xs @ ys)"
    proof -
      have "k < 512 * fbn \<or> 512 * (fbn + 1) \<le> k" using False
        by (metis Suc_eq_plus1 div_less_iff_less_mult div_nat_eqI leI mult.commute zero_less_numeral)
      then show ?thesis using o(1) ys by auto
    qed
    ultimately show ?thesis using d(8) [OF k] by (auto simp: nth_append)
  qed
  moreover have "length (xs @ ys) \<le> 512 * nb" using o ys by (simp add: algebra_simps)
  ultimately show "laid ?c F ino nb (xs @ ys)" using l unfolding laid_def by (simp add: slots)
  show "owned ?c ino = owned c ino" by (simp add: owned_def slots)
qed

definition cdiv :: "nat \<Rightarrow> nat" where "cdiv n = (n + 511) div 512"

lemma cdiv_split:
  assumes "r < 512"
  shows "cdiv (512 * q + r) = (if r = 0 then q else q + 1)"
  unfolding cdiv_def by (rule div_nat_eqI) (use assms in \<open>auto simp: algebra_simps\<close>)

lemma cdiv_mono: "m \<le> n \<Longrightarrow> cdiv m \<le> cdiv n"
  by (simp add: cdiv_def div_le_mono)

lemma dblocks_mono: "m \<le> n \<Longrightarrow> dblocks m \<le> dblocks n"
  by (auto simp: dblocks_def)

lemma iappend_step:
  assumes l: "laid (img st) F din (cdiv (length xs)) xs" and z: "zero_above (img st) F" and f: "freeblock st = of_nat F"
    and F: "59 \<le> F" and off: "length xs = 512 * fbn + r" "r < 512" "fbn < 140"
    and ys: "ys \<noteq> []" "r + length ys \<le> 512"
    and F': "F' = F + (dblocks (fbn + 1) - dblocks (cdiv (length xs)))" "F' \<le> 1000"
  shows "\<exists>x din' st' buf. file_block (of_nat fbn) din st = Some (x, din', st') \<and> rsect x st' = Some buf
    \<and> file_step F din st F' din' (wsect x (copy_in (of_nat r) ys buf) st')
    \<and> laid (img (wsect x (copy_in (of_nat r) ys buf) st')) F' din' (cdiv (length (xs @ ys))) (xs @ ys)
    \<and> cdiv (length (xs @ ys)) = fbn + 1"
proof -
  let ?nb = "cdiv (length xs)"
  have nb: "fbn \<le> ?nb" "max ?nb (fbn + 1) = fbn + 1" using cdiv_split [OF off(2), of fbn] off(1) by auto
  obtain din' st' where b: "file_block (of_nat fbn) din st = Some (slot (img st') din' fbn, din', st')"
    "file_step F din st F' din' st'" "laid (img st') F' din' (fbn + 1) xs"
    using laid_file_block [OF l z f nb(1) off(3) F, of F'] F' nb(2) by auto
  let ?x = "slot (img st') din' fbn"
  let ?st = "wsect ?x (copy_in (of_nat r) ys (img st' ?x)) st'"
  have xn: "?x \<noteq> 0" "unat ?x < F'" using laidD(3,6) [OF b(3), of fbn] off(3) by auto
  then have rs: "rsect ?x st' = Some (img st' ?x)" using F'(2) by (simp add: rsect_def word_less_nat_alt)
  have p: "laid (img ?st) F' din' (fbn + 1) (xs @ ys)" "owned (img ?st) din' = owned (img st') din'"
    using laid_put [OF b(3) off(1,2) _ ys(2)] by (simp_all add: wsect_def)
  have "?x \<in> owned (img st') din'" using xn off(3) by (auto simp: owned_def)
  then have "file_step F' din' st' F' din' ?st"
    using b(2) xn p(2) by (auto simp: file_step_def wsect_def zero_above_def intro!: exI [of _ "iaddrs din'"])
  then have "file_step F din st F' din' ?st" by (rule file_step_trans [OF b(2)])
  moreover have "cdiv (length (xs @ ys)) = fbn + 1"
  proof (cases "r + length ys = 512")
    case True
    then have "length (xs @ ys) = 512 * (fbn + 1) + 0" using off(1) by simp
    then show ?thesis using cdiv_split [of 0 "fbn + 1"] by simp
  next
    case False
    then show ?thesis using cdiv_split [of "r + length ys" fbn] ys off(1) by (simp add: add.assoc)
  qed
  ultimately show ?thesis using b(1) rs p(1) by auto
qed

lemma iappend_loop_laid:
  assumes "laid (img st) F din (cdiv (length xs)) xs" "zero_above (img st) F" "freeblock st = of_nat F" "59 \<le> F"
    and "length (xs @ ys) \<le> 71680"
    and "F' = F + (dblocks (cdiv (length (xs @ ys))) - dblocks (cdiv (length xs)))" "F' \<le> 1000"
  shows "\<exists>din' st'. iappend_loop ys (of_nat (length xs)) din st = Some (of_nat (length (xs @ ys)), din', st')
    \<and> file_step F din st F' din' st' \<and> laid (img st') F' din' (cdiv (length (xs @ ys))) (xs @ ys)"
  using assms
proof (induction "length ys" arbitrary: ys xs st din F rule: less_induct)
  case less
  show ?case
  proof (cases "ys = []")
    case True
    then show ?thesis using less.prems
      by (subst iappend_loop.simps) (auto simp: file_step_def intro!: exI [of _ "iaddrs din"])
  next
    case False
    define fbn where "fbn = length xs div 512"
    define r where "r = length xs mod 512"
    define n1 where "n1 = min (length ys) (512 - r)"
    have off: "length xs = 512 * fbn + r" "r < 512" by (simp_all add: fbn_def r_def)
    have lx: "length xs < 71680" using less.prems(5) False by (cases ys) auto
    then have f140: "fbn < 140" by (simp add: fbn_def less_mult_imp_div_less)
    have u: "unat (of_nat (length xs) :: u32) = length xs" using lx by (simp add: unat_of_nat_u32)
    have q: "(of_nat (length xs) :: u32) div 512 = of_nat fbn"
      using f140 by (simp add: word_unat_eq_iff unat_div u unat_of_nat_u32 fbn_def)
    have o: "of_nat (length xs) - of_nat fbn * 512 = (of_nat r :: u32)" by (simp add: off(1))
    have q140: "(of_nat fbn :: u32) < 140" using f140 by (simp add: word_less_nat_alt unat_of_nat_u32)
    have room: "unat (of_nat fbn * 512 + 512 - of_nat (length xs) :: u32) = 512 - r"
      using chunk_room(2) [of "of_nat (length xs)"] q140 u by (simp add: q r_def)
    have ys1: "take n1 ys \<noteq> []" "r + length (take n1 ys) \<le> 512" "length (take n1 ys) = n1" using False off(2) by (auto simp: n1_def)
    let ?F = "F + (dblocks (fbn + 1) - dblocks (cdiv (length xs)))"
    have le: "fbn + 1 \<le> cdiv (length (xs @ ys))" "cdiv (length xs) \<le> fbn + 1"
      using cdiv_split [OF off(2), of fbn] cdiv_mono [of "512 * fbn + (r + 1)" "length (xs @ ys)"] cdiv_split [of "r + 1" fbn]
        cdiv_split [of 0 "fbn + 1"] off False by (cases ys; cases "r + 1 = 512"; auto)+
    have d: "dblocks (cdiv (length xs)) \<le> dblocks (fbn + 1)" "dblocks (fbn + 1) \<le> dblocks (cdiv (length (xs @ ys)))"
      by (rule dblocks_mono, rule le)+
    then have F1: "?F \<le> 1000" using less.prems(6,7) by linarith
    obtain x din1 st1 buf where s: "file_block (of_nat fbn) din st = Some (x, din1, st1)" "rsect x st1 = Some buf"
      "file_step F din st ?F din1 (wsect x (copy_in (of_nat r) (take n1 ys) buf) st1)"
      "laid (img (wsect x (copy_in (of_nat r) (take n1 ys) buf) st1)) ?F din1 (cdiv (length (xs @ take n1 ys))) (xs @ take n1 ys)"
      "cdiv (length (xs @ take n1 ys)) = fbn + 1"
      using iappend_step [OF less.prems(1-4) off f140 ys1(1,2) refl F1] by blast
    let ?st = "wsect x (copy_in (of_nat r) (take n1 ys) buf) st1"
    have c1: "cdiv (length (xs @ take n1 ys)) = fbn + 1" using s(5) .
    have e: "(xs @ take n1 ys) @ drop n1 ys = xs @ ys" by simp
    have "\<exists>din' st'. iappend_loop (drop n1 ys) (of_nat (length (xs @ take n1 ys))) din1 ?st
        = Some (of_nat (length ((xs @ take n1 ys) @ drop n1 ys)), din', st')
      \<and> file_step ?F din1 ?st F' din' st' \<and> laid (img st') F' din' (cdiv (length ((xs @ take n1 ys) @ drop n1 ys))) ((xs @ take n1 ys) @ drop n1 ys)"
      by (rule less.hyps) (use less.prems s(3,4) d c1 ys1 False in \<open>auto simp: file_step_def\<close>)
    then obtain din' st' where t: "iappend_loop (drop n1 ys) (of_nat (length (xs @ take n1 ys))) din1 ?st = Some (of_nat (length (xs @ ys)), din', st')"
      "file_step ?F din1 ?st F' din' st'" "laid (img st') F' din' (cdiv (length (xs @ ys))) (xs @ ys)"
      unfolding e by blast
    have "iappend_loop ys (of_nat (length xs)) din st = Some (of_nat (length (xs @ ys)), din', st')"
      using False s(1,2) t(1) ys1(3)
      by (subst iappend_loop.simps) (simp add: q q140 o room Let_def flip: n1_def)
    then show ?thesis using file_step_trans [OF s(3) t(2)] t(3) by blast
  qed
qed

end
