(* ===== verification/Mkfs_Image.thy ===== *)
theory Mkfs_Image imports Mkfs begin

text \<open>
  The image that \<^verbatim>\<open>mkfs\<close> builds, as a list of files: each step of the program is a step on that list, and the finished image is
  one on which the theorems about the kernel's file system apply.
\<close>

section \<open>The inode table\<close>

text \<open>The inode numbered \<open>n\<close> in the image; the image has room for 208 of them.\<close>

definition disk_ino :: "(u32 \<Rightarrow> block) \<Rightarrow> nat \<Rightarrow> inode" where
  "disk_ino c n = load_dinode (c (IBLOCK (of_nat n) mkfs_sb)) (dinode_off (of_nat n)) zero_inode"

lemma unat_IBLOCK: "n < 208 \<Longrightarrow> unat (IBLOCK (of_nat n) mkfs_sb) = 32 + n div 8"
  by (simp add: IBLOCK_def mkfs_sb_eq unat_word_ariths unat_div unat_of_nat_u32)

lemma rinode_eq: "n < 208 \<Longrightarrow> rinode (of_nat n) st = Some (disk_ino (img st) n)"
  using unat_IBLOCK [of n] by (simp add: rinode_def rsect_def disk_ino_def word_less_nat_alt)

lemma winode_eq: "n < 208 \<Longrightarrow> winode (of_nat n) ip st = Some (wsect (IBLOCK (of_nat n) mkfs_sb)
    (store_dinode ip (dinode_off (of_nat n)) (img st (IBLOCK (of_nat n) mkfs_sb))) st)"
  using unat_IBLOCK [of n] by (simp add: winode_def rsect_def word_less_nat_alt Let_def)

lemma load_dinode_cong:
  assumes "\<And>k. k < 64 \<Longrightarrow> d' (off + of_nat k) = d (off + of_nat k)"
  shows "load_dinode d' off ip = load_dinode d off ip"
proof -
  have w: "load32 d' (off + of_nat k) = load32 d (off + of_nat k)" if "k + 4 \<le> 64" for k
    using assms [of k] assms [of "k + 1"] assms [of "k + 2"] assms [of "k + 3"] that by (simp add: load32_def add_ac)
  have h: "load16 d' (off + of_nat k) = load16 d (off + of_nat k)" if "k + 2 \<le> 64" for k
    using assms [of k] assms [of "k + 1"] that by (simp add: load16_def add_ac)
  have "load32 d' (off + 12 + 4 * of_nat i) = load32 d (off + 12 + 4 * of_nat i)" if "i < 13" for i
    using w [of "12 + 4 * i"] that by (simp add: add.assoc)
  then show ?thesis using h [of 0] h [of 2] h [of 4] h [of 6] w [of 8] by (simp add: load_dinode_def cong: if_cong)
qed

lemma disk_ino_other:
  assumes "m < 208" "n < 208" "m \<noteq> n"
  shows "disk_ino (c(IBLOCK (of_nat n) mkfs_sb := store_dinode ip (dinode_off (of_nat n)) d)) m
    = disk_ino (c(IBLOCK (of_nat n) mkfs_sb := d)) m"
proof (cases "IBLOCK (of_nat m) mkfs_sb = IBLOCK (of_nat n) mkfs_sb")
  case True
  then have q: "m div 8 = n div 8" using unat_IBLOCK [of m] unat_IBLOCK [of n] assms by simp
  have r: "unat (dinode_off (of_nat j)) = 64 * (j mod 8)" if "j < 208" for j
    using that by (simp add: dinode_off_def unat_word_ariths unat_mod unat_of_nat_u32)
  have ne: "m mod 8 \<noteq> n mod 8" using q assms(3) by (metis mult_div_mod_eq)
  have "load_dinode (store_dinode ip (dinode_off (of_nat n)) d) (dinode_off (of_nat m)) zero_inode
      = load_dinode d (dinode_off (of_nat m)) zero_inode"
  proof (rule load_dinode_cong, rule store_dinode_other)
    fix k :: nat assume k: "k < 64"
    have u: "unat (dinode_off (of_nat m) + of_nat k :: u32) = 64 * (m mod 8) + k"
      using k r [OF assms(1)] by (simp add: unat_word_ariths unat_of_nat_u32)
    have lt: "64 * (m mod 8) + k < 512" "64 * (n mod 8) < 512" using k mod_less_divisor [of 8 m] by linarith+
    have "64 * (m mod 8) + k < 64 * (n mod 8) \<or> 64 * (n mod 8) + 64 \<le> 64 * (m mod 8) + k" using ne k by linarith
    then show "64 \<le> dinode_off (of_nat m) + of_nat k - dinode_off (of_nat n)"
      using lt by (auto simp: word_le_nat_alt unat_sub_if_size word_size u r [OF assms(2)])
  qed
  then show ?thesis using True by (simp add: disk_ino_def)
qed (simp add: disk_ino_def)

lemma disk_ino_same:
  fixes c n d ip
  defines "j \<equiv> disk_ino (c(IBLOCK (of_nat n) mkfs_sb := store_dinode ip (dinode_off (of_nat n)) d)) n"
  shows "itype j = itype ip" "inlink j = inlink ip" "isize j = isize ip" "\<And>i. i < 13 \<Longrightarrow> iaddrs j i = iaddrs ip i"
proof -
  let ?d = "store_dinode ip (dinode_off (of_nat n)) d" and ?o = "dinode_off (of_nat n)"
  have e: "load_dinode ?d ?o ip = ip" by (rule load_store_dinode)
  have f: "itype (load_dinode ?d ?o ip) = load16 ?d ?o" "inlink (load_dinode ?d ?o ip) = load16 ?d (?o + 6)"
    "isize (load_dinode ?d ?o ip) = load32 ?d (?o + 8)"
    "\<And>i. i < 13 \<Longrightarrow> iaddrs (load_dinode ?d ?o ip) i = load32 ?d (?o + 12 + 4 * of_nat i)" by (simp_all add: load_dinode_def)
  show "itype j = itype ip" "inlink j = inlink ip" "isize j = isize ip" "\<And>i. i < 13 \<Longrightarrow> iaddrs j i = iaddrs ip i"
    using f [unfolded e] by (simp_all add: j_def disk_ino_def load_dinode_def)
qed

lemma laid_cong:
  assumes "laid c F ino nb xs" "\<And>m. m \<in> owned c ino \<Longrightarrow> c' m = c m" "\<And>i. i < 13 \<Longrightarrow> iaddrs ino' i = iaddrs ino i" "F \<le> F'"
  shows "laid c' F' ino' nb xs" "owned c' ino' = owned c ino"
proof -
  note d = laidD [OF assms(1)]
  have own: "slot c ino j \<in> owned c ino" if "j \<le> 140" "slot c ino j \<noteq> 0" for j using that by (auto simp: owned_def)
  have i12: "iaddrs ino 12 \<noteq> 0 \<Longrightarrow> c' (iaddrs ino 12) = c (iaddrs ino 12)" using assms(2) own [of 140] by (simp add: slot_140)
  have s: "slot c' ino' j = slot c ino j" for j
    using assms(3) [of j] assms(3) [of 12] i12 by (simp add: slot_def)
  show "owned c' ino' = owned c ino" by (simp add: owned_def s)
  have "fbyte c' ino' k = fbyte c ino k" if "k < 512 * nb" for k
  proof -
    have "k div 512 < nb" using that by (simp add: less_mult_imp_div_less mult.commute)
    then have "c' (slot c ino (k div 512)) = c (slot c ino (k div 512))"
      using d(1) d(3) [of "k div 512"] own [of "k div 512"] assms(2) by auto
    then show ?thesis by (simp add: fbyte_def s)
  qed
  then show "laid c' F' ino' nb xs" using assms(1,4) unfolding laid_def s by fastforce
qed

section \<open>The image\<close>

text \<open>
  The abstract image: the types and contents of its inodes, from number 1 on.  \<open>img_ok\<close> says that the image holds exactly these,
  that no two files share a block, that blocks are taken in order, and that the rest of the disk is empty.
\<close>

type_synonym afile = "u16 \<times> u8 list"

definition file_blocks :: "afile \<Rightarrow> nat" where
  "file_blocks f = dblocks (cdiv (length (snd f)))"

definition next_block :: "afile list \<Rightarrow> nat" where
  "next_block fs = 59 + sum_list (map file_blocks fs)"

definition holds :: "(u32 \<Rightarrow> block) \<Rightarrow> nat \<Rightarrow> nat \<Rightarrow> afile \<Rightarrow> bool" where
  "holds c F n f \<longleftrightarrow> itype (disk_ino c n) = fst f \<and> inlink (disk_ino c n) = 1 \<and> isize (disk_ino c n) = of_nat (length (snd f))
     \<and> length (snd f) \<le> 71680 \<and> laid c F (disk_ino c n) (cdiv (length (snd f))) (snd f)"

definition img_ok :: "afile list \<Rightarrow> mkfs_st \<Rightarrow> bool" where
  "img_ok fs st \<longleftrightarrow> length fs < 200 \<and> freeinode st = of_nat (length fs + 1)
     \<and> freeblock st = of_nat (next_block fs) \<and> next_block fs \<le> 1000 \<and> zero_above (img st) (next_block fs)
     \<and> (\<forall>k < length fs. holds (img st) (next_block fs) (k + 1) (fs ! k))
     \<and> (\<forall>k < length fs. \<forall>l < length fs. k \<noteq> l \<longrightarrow> owned (img st) (disk_ino (img st) (k + 1)) \<inter> owned (img st) (disk_ino (img st) (l + 1)) = {})
     \<and> img st 1 = encode_sb mkfs_sb \<and> (\<forall>m. unat m = 0 \<or> 2 \<le> unat m \<and> unat m < 32 \<longrightarrow> img st m = (\<lambda>_. 0))"

lemma img_okD:
  assumes "img_ok fs st"
  shows "length fs < 200" "freeinode st = of_nat (length fs + 1)" "freeblock st = of_nat (next_block fs)" "next_block fs \<le> 1000"
    "zero_above (img st) (next_block fs)" "\<And>k. k < length fs \<Longrightarrow> holds (img st) (next_block fs) (k + 1) (fs ! k)"
    "\<And>k l. k < length fs \<Longrightarrow> l < length fs \<Longrightarrow> k \<noteq> l \<Longrightarrow>
       owned (img st) (disk_ino (img st) (k + 1)) \<inter> owned (img st) (disk_ino (img st) (l + 1)) = {}"
    "img st 1 = encode_sb mkfs_sb" "\<And>m. unat m = 0 \<or> 2 \<le> unat m \<and> unat m < 32 \<Longrightarrow> img st m = (\<lambda>_. 0)"
  using assms unfolding img_ok_def by blast+

lemma next_block_ge: "59 \<le> next_block fs"
  by (simp add: next_block_def)

text \<open>A step that works on inode \<open>n\<close> and its blocks leaves the other files as they are.\<close>

lemma holds_keep:
  assumes "holds c F n f" "F \<le> F'" "disk_ino c' n = disk_ino c n" "\<And>m. m \<in> owned c (disk_ino c n) \<Longrightarrow> c' m = c m"
  shows "holds c' F' n f" "owned c' (disk_ino c' n) = owned c (disk_ino c n)"
proof -
  have l: "laid c F (disk_ino c n) (cdiv (length (snd f))) (snd f)" using assms(1) by (simp add: holds_def)
  show "holds c' F' n f" using laid_cong(1) [OF l, of c' "disk_ino c n" F'] assms by (simp add: holds_def)
  show "owned c' (disk_ino c' n) = owned c (disk_ino c n)"
    using laid_cong(2) [OF l, of c' "disk_ino c n" F'] assms by simp
qed

lemma meta_block: "n < 208 \<Longrightarrow> 32 \<le> unat (IBLOCK (of_nat n) mkfs_sb) \<and> unat (IBLOCK (of_nat n) mkfs_sb) < 58"
  using unat_IBLOCK [of n] by auto

lemma holds_owned: "holds c F n f \<Longrightarrow> m \<in> owned c (disk_ino c n) \<Longrightarrow> 59 \<le> unat m \<and> unat m < F"
  using owned_laid unfolding holds_def by blast

lemma zero_above_upd: "zero_above c F \<Longrightarrow> unat b < F \<Longrightarrow> zero_above (c(b := d)) F"
  by (auto simp: zero_above_def)

lemma ialloc_img:
  assumes ok: "img_ok fs st" and n: "length fs < 199"
  shows "\<exists>st'. mkfs_ialloc typ st = Some (of_nat (length fs + 1), st') \<and> img_ok (fs @ [(typ, [])]) st'"
proof -
  note d = img_okD [OF ok]
  let ?n = "length fs + 1" and ?F = "next_block fs"
  let ?ip = "zero_inode\<lparr>itype := typ, inlink := 1, isize := 0\<rparr>" and ?b = "IBLOCK (of_nat (length fs + 1)) mkfs_sb"
  define c' where "c' = (img st)(?b := store_dinode ?ip (dinode_off (of_nat ?n)) (img st ?b))"
  define st' where "st' = st\<lparr>freeinode := of_nat ?n + 1, img := c'\<rparr>"
  have mb: "32 \<le> unat ?b" "unat ?b < 58" using meta_block [of ?n] n by auto
  have w: "mkfs_ialloc typ st = Some (of_nat ?n, st')"
    using winode_eq [of ?n] n d(2) by (simp add: mkfs_ialloc_def st'_def c'_def wsect_def Let_def)
  have F: "next_block (fs @ [(typ, [])]) = ?F" by (simp add: next_block_def file_blocks_def cdiv_def dblocks_def)
  have old: "disk_ino c' (k + 1) = disk_ino (img st) (k + 1)" if "k < length fs" for k
    using disk_ino_other [of "k + 1" ?n "img st" ?ip "img st ?b"] that n by (simp add: c'_def)
  have same: "c' m = img st m" if "m \<noteq> ?b" for m using that by (simp add: c'_def)
  have keep: "c' m = img st m" if "k < length fs" "m \<in> owned (img st) (disk_ino (img st) (k + 1))" for k m
    using holds_owned [OF d(6) [OF that(1)] that(2)] mb same [of m] by (cases "m = ?b") auto
  have h: "holds c' ?F (k + 1) (fs ! k)" "owned c' (disk_ino c' (k + 1)) = owned (img st) (disk_ino (img st) (k + 1))" if "k < length fs" for k
    using holds_keep [OF d(6) [OF that] order_refl old [OF that]] keep [OF that] by blast+
  have ino: "itype (disk_ino c' ?n) = typ" "inlink (disk_ino c' ?n) = 1" "isize (disk_ino c' ?n) = 0" "\<And>i. i < 13 \<Longrightarrow> iaddrs (disk_ino c' ?n) i = 0"
    using disk_ino_same [where c = "img st" and n = ?n and ip = ?ip and d = "img st ?b"] by (simp_all add: c'_def zero_inode_def)
  have s0: "slot c' (disk_ino c' ?n) j = 0" for j using ino(4) [of j] ino(4) [of 12] by (simp add: slot_def)
  then have new: "holds c' ?F ?n (typ, [])" "owned c' (disk_ino c' ?n) = {}"
    using ino by (auto simp: holds_def laid_def cdiv_def owned_def)
  have "img_ok (fs @ [(typ, [])]) st'"
    unfolding img_ok_def F
  proof (intro conjI allI impI)
    show "zero_above (img st') ?F" using d(5) zero_above_upd [of "img st" ?F ?b] mb next_block_ge [of fs] by (simp add: st'_def c'_def)
    show "holds (img st') ?F (k + 1) ((fs @ [(typ, [])]) ! k)" if "k < length (fs @ [(typ, [])])" for k
      using that h(1) [of k] new(1) by (cases "k = length fs") (auto simp: st'_def nth_append)
    show "owned (img st') (disk_ino (img st') (k + 1)) \<inter> owned (img st') (disk_ino (img st') (l + 1)) = {}"
      if "k < length (fs @ [(typ, [])])" "l < length (fs @ [(typ, [])])" "k \<noteq> l" for k l
      using that h(2) [of k] h(2) [of l] d(7) [of k l] new(2) by (cases "k = length fs"; cases "l = length fs") (auto simp: st'_def)
    show "img st' m = (\<lambda>_. 0)" if "unat m = 0 \<or> 2 \<le> unat m \<and> unat m < 32" for m
      using d(9) [OF that] same [of m] mb that by (cases "m = ?b") (auto simp: st'_def)
    show "img st' 1 = encode_sb mkfs_sb" using d(8) same [of 1] mb by (cases "1 = ?b") (auto simp: st'_def)
  qed (use n d in \<open>auto simp: st'_def\<close>)
  then show ?thesis using w by blast
qed

lemma next_block_update:
  assumes "k < length fs" "file_blocks (fs ! k) \<le> file_blocks f"
  shows "next_block (fs[k := f]) = next_block fs + (file_blocks f - file_blocks (fs ! k))"
proof -
  have "file_blocks (fs ! k) \<le> sum_list (map file_blocks fs)"
    using assms(1) member_le_sum_list [of "file_blocks (fs ! k)" "map file_blocks fs"] by force
  then show ?thesis using assms by (simp add: next_block_def map_update sum_list_update)
qed

lemma iappend_img:
  assumes ok: "img_ok fs st" and k: "k < length fs" and f: "f = (fst (fs ! k), snd (fs ! k) @ ys)"
    and len: "length (snd f) \<le> 71680" and room: "next_block (fs[k := f]) \<le> 1000"
  shows "\<exists>st'. iappend (of_nat (k + 1)) ys st = Some st' \<and> img_ok (fs[k := f]) st'"
proof -
  note d = img_okD [OF ok]
  let ?n = "k + 1" and ?F = "next_block fs" and ?F' = "next_block (fs[k := f])" and ?xs = "snd (fs ! k)"
  let ?c = "img st"
  let ?ino = "disk_ino ?c ?n" and ?b = "IBLOCK (of_nat (k + 1)) mkfs_sb"
  have n: "?n < 208" using k d(1) by simp
  have h: "itype ?ino = fst (fs ! k)" "inlink ?ino = 1" "isize ?ino = of_nat (length ?xs)" "laid ?c ?F ?ino (cdiv (length ?xs)) ?xs"
    using d(6) [OF k] by (auto simp: holds_def)
  have fb: "file_blocks (fs ! k) \<le> file_blocks f" unfolding file_blocks_def f by (intro dblocks_mono cdiv_mono) simp
  have F': "?F' = ?F + (dblocks (cdiv (length (?xs @ ys))) - dblocks (cdiv (length ?xs)))"
    using next_block_update [OF k fb] by (simp add: file_blocks_def f)
  obtain din' st1 where s: "iappend_loop ys (of_nat (length ?xs)) ?ino st = Some (of_nat (length (?xs @ ys)), din', st1)"
    "file_step ?F ?ino st ?F' din' st1" "laid (img st1) ?F' din' (cdiv (length (?xs @ ys))) (?xs @ ys)"
    using iappend_loop_laid [OF h(4) d(5) d(3) next_block_ge _ F' room] len f by auto
  let ?ip = "din'\<lparr>isize := of_nat (length (?xs @ ys))\<rparr>"
  define c' where "c' = (img st1)(?b := store_dinode ?ip (dinode_off (of_nat ?n)) (img st1 ?b))"
  define st' where "st' = st1\<lparr>img := c'\<rparr>"
  have w: "iappend (of_nat ?n) ys st = Some st'"
    by (simp only: iappend_def rinode_eq [OF n] option.case h(3) xint_id s(1) prod.case winode_eq [OF n] st'_def c'_def wsect_def)
  have mb: "32 \<le> unat ?b" "unat ?b < 58" using meta_block [OF n] by auto
  have fs1: "?F \<le> ?F'" "freeblock st1 = of_nat ?F'" "freeinode st1 = freeinode st" "zero_above (img st1) ?F'"
    "\<And>m. unat m < ?F \<Longrightarrow> m \<notin> owned ?c ?ino \<Longrightarrow> img st1 m = ?c m"
    "owned (img st1) din' \<subseteq> owned ?c ?ino \<union> {m. ?F \<le> unat m \<and> unat m < ?F'}" "itype din' = itype ?ino" "inlink din' = inlink ?ino"
    using s(2) unfolding file_step_def by auto
  have low: "img st1 m = ?c m" if "unat m < 59" for m
    using fs1(5) [of m] holds_owned [OF d(6) [OF k], of m] that next_block_ge [of fs] by auto
  have other: "disk_ino c' (l + 1) = disk_ino ?c (l + 1)" if "l < length fs" "l \<noteq> k" for l
  proof -
    have l: "l + 1 < 208" using that d(1) by simp
    have "disk_ino c' (l + 1) = disk_ino (img st1) (l + 1)"
      using disk_ino_other [OF l n, of "img st1" ?ip "img st1 ?b"] that(2) by (simp add: c'_def)
    moreover have "img st1 (IBLOCK (of_nat (l + 1)) mkfs_sb) = ?c (IBLOCK (of_nat (l + 1)) mkfs_sb)"
      using meta_block [OF l] by (intro low) simp
    ultimately show ?thesis by (simp add: disk_ino_def del: of_nat_add)
  qed
  have keep: "c' m = ?c m" if "l < length fs" "l \<noteq> k" "m \<in> owned ?c (disk_ino ?c (l + 1))" for l m
  proof -
    have "m \<notin> owned ?c ?ino" using d(7) [OF that(1) k that(2)] that(3) by auto
    then show ?thesis using fs1(5) [of m] holds_owned [OF d(6) [OF that(1)] that(3)] mb by (auto simp: c'_def)
  qed
  have o: "holds c' ?F' (l + 1) (fs ! l)" "owned c' (disk_ino c' (l + 1)) = owned ?c (disk_ino ?c (l + 1))" if "l < length fs" "l \<noteq> k" for l
    using holds_keep [OF d(6) [OF that(1)] fs1(1) other [OF that]] keep [OF that] by blast+
  have j: "itype (disk_ino c' ?n) = itype ?ino" "inlink (disk_ino c' ?n) = 1" "isize (disk_ino c' ?n) = of_nat (length (?xs @ ys))"
    "\<And>i. i < 13 \<Longrightarrow> iaddrs (disk_ino c' ?n) i = iaddrs din' i"
    using disk_ino_same [where c = "img st1" and n = ?n and ip = ?ip and d = "img st1 ?b"] fs1(7,8) h(2) by (simp_all add: c'_def)
  have "c' m = img st1 m" if "m \<in> owned (img st1) din'" for m
    using owned_laid [OF s(3) that] mb by (auto simp: c'_def)
  note lc = laid_cong [OF s(3) this j(4) order_refl]
  have mine: "holds c' ?F' ?n f" using lc(1) j h(1) len by (auto simp: holds_def f)
  have sep: "owned c' (disk_ino c' ?n) \<inter> owned c' (disk_ino c' (l + 1)) = {}" if "l < length fs" "l \<noteq> k" for l
    using lc(2) o(2) [OF that] fs1(6) d(7) [OF that(1) k that(2)] holds_owned [OF d(6) [OF that(1)]] by fastforce
  have "img_ok (fs[k := f]) st'"
    unfolding img_ok_def
  proof (intro conjI allI impI)
    show "zero_above (img st') ?F'" using zero_above_upd [OF fs1(4), of ?b] mb next_block_ge [of "fs[k := f]"] by (simp add: st'_def c'_def)
    show "holds (img st') ?F' (l + 1) (fs[k := f] ! l)" if "l < length (fs[k := f])" for l
      using that o(1) [of l] mine by (cases "l = k") (auto simp: st'_def)
    show "owned (img st') (disk_ino (img st') (i + 1)) \<inter> owned (img st') (disk_ino (img st') (l + 1)) = {}"
      if "i < length (fs[k := f])" "l < length (fs[k := f])" "i \<noteq> l" for i l
      using that sep [of i] sep [of l] o(2) [of i] o(2) [of l] d(7) [of i l] by (cases "i = k"; cases "l = k") (auto simp: st'_def)
    show "img st' m = (\<lambda>_. 0)" if "unat m = 0 \<or> 2 \<le> unat m \<and> unat m < 32" for m
      using d(9) [OF that] low [of m] mb that by (auto simp: st'_def c'_def)
    show "img st' 1 = encode_sb mkfs_sb" using d(8) low [of 1] mb by (auto simp: st'_def c'_def)
  qed (use d fs1 room in \<open>auto simp: st'_def\<close>)
  then show ?thesis using w by blast
qed

lemma append_file_img:
  assumes "img_ok fs st" "k < length fs" "f = (fst (fs ! k), snd (fs ! k) @ data)" "length (snd f) \<le> 71680" "next_block (fs[k := f]) \<le> 1000"
  shows "\<exists>st'. append_file (of_nat (k + 1)) data st = Some st' \<and> img_ok (fs[k := f]) st'"
  using assms
proof (induction "length data" arbitrary: data fs st rule: less_induct)
  case less
  show ?case
  proof (cases "data = []")
    case True
    then have "fs[k := f] = fs" using less.prems(2,3) by simp
    then show ?thesis using True less.prems(1) by (subst append_file.simps) simp
  next
    case False
    let ?g = "(fst (fs ! k), snd (fs ! k) @ take 512 data)"
    have e: "fs[k := ?g, k := f] = fs[k := f]" by simp
    have b: "file_blocks (fs ! k) \<le> file_blocks ?g" "file_blocks ?g \<le> file_blocks f" unfolding file_blocks_def less.prems(3)
      by (intro dblocks_mono cdiv_mono; simp)+
    have g: "length (snd ?g) \<le> 71680" using less.prems(3,4) by auto
    have "next_block (fs[k := ?g]) \<le> next_block (fs[k := f])"
      using next_block_update [OF less.prems(2) b(1)] next_block_update [OF less.prems(2) order_trans [OF b]] b by linarith
    then obtain st1 where s: "iappend (of_nat (k + 1)) (take 512 data) st = Some st1" "img_ok (fs[k := ?g]) st1"
      using iappend_img [OF less.prems(1,2) refl, of "take 512 data"] less.prems(5) g by auto
    have "\<exists>st'. append_file (of_nat (k + 1)) (drop 512 data) st1 = Some st' \<and> img_ok (fs[k := ?g, k := f]) st'"
      using False less.prems(2-5) s(2) by (intro less.hyps) auto
    then show ?thesis using False s(1) unfolding e by (subst append_file.simps) (auto simp del: of_nat_add)
  qed
qed

text \<open>Adding a file: an entry in the root directory, which is the first inode, and a new inode with the bytes of the file.\<close>

definition file_name :: "u8 list \<Rightarrow> u8 list" where
  "file_name s = (if s \<noteq> [] \<and> hd s = 0x5F then tl s else s)"

definition entry :: "nat \<Rightarrow> u8 list \<Rightarrow> u8 list" where
  "entry n s = make_dirent (of_nat n) (file_name s)"

definition added :: "u8 list \<times> u8 list option \<Rightarrow> afile list \<Rightarrow> afile list" where
  "added f fs = fs[0 := (fst (fs ! 0), snd (fs ! 0) @ entry (length fs + 1) (fst f))] @ [(2, the (snd f))]"

definition arg_ok :: "u8 list \<times> u8 list option \<Rightarrow> bool" where
  "arg_ok f \<longleftrightarrow> 0x2F \<notin> set (fst f) \<and> snd f \<noteq> None \<and> length (the (snd f)) \<le> 71680"

lemma next_block_snoc: "next_block (fs @ [f]) = next_block fs + file_blocks f"
  by (simp add: next_block_def)

lemma ucast_small: "n < 2 ^ 32 \<Longrightarrow> ucast (of_nat n :: u32) = (of_nat n :: u16)"
  by (simp add: unsigned_of_nat take_bit_nat_eq_self)

lemma add_file_img:
  assumes ok: "img_ok fs st" and fs: "fs \<noteq> []" "length fs < 199" and f: "arg_ok f" and room: "next_block (added f fs) \<le> 1000"
    and len: "length (snd (added f fs ! 0)) \<le> 71680"
  shows "\<exists>st'. add_file f st = Some st' \<and> img_ok (added f fs) st'"
proof -
  let ?n = "length fs + 1" and ?e = "entry (length fs + 1) (fst f)"
  let ?r = "(fst (fs ! 0), snd (fs ! 0) @ ?e)"
  let ?fs1 = "fs @ [(2, [])]" and ?fs2 = "fs[0 := ?r] @ [(2, [])]"
  have r0: "(fs @ [(2, [])]) ! 0 = fs ! 0" "added f fs ! 0 = ?r" using fs(1) by (simp_all add: added_def nth_append)
  obtain st1 where s1: "mkfs_ialloc 2 st = Some (of_nat ?n, st1)" "img_ok ?fs1 st1" using ialloc_img [OF ok fs(2)] by blast
  have e: "make_dirent (xshort (ucast (of_nat ?n :: u32))) (file_name (fst f)) = ?e"
  proof -
    have "ucast (of_nat ?n :: u32) = (of_nat ?n :: u16)" using fs(2) by (intro ucast_small) simp
    then show ?thesis by (simp add: entry_def del: of_nat_add)
  qed
  have up: "?fs1[0 := ?r] = ?fs2" using fs(1) by (simp add: list_update_append)
  have "next_block ?fs2 \<le> next_block (added f fs)" by (simp add: added_def next_block_snoc file_blocks_def cdiv_def dblocks_def)
  then have nb1: "next_block (?fs1[0 := ?r]) \<le> 1000" unfolding up using room by linarith
  have "\<exists>st'. iappend (of_nat (0 + 1)) ?e st1 = Some st' \<and> img_ok (?fs1[0 := ?r]) st'"
    by (rule iappend_img [OF s1(2) _ _ _ nb1]) (use len r0 in simp_all)
  then obtain st2 where s2: "iappend 1 ?e st1 = Some st2" "img_ok ?fs2 st2" unfolding up by auto
  obtain data where data: "snd f = Some data" "length data \<le> 71680" using f by (auto simp: arg_ok_def)
  have up2: "?fs2[length fs := (2, data)] = added f fs" using data by (simp add: added_def list_update_append)
  have nb2: "next_block (?fs2[length fs := (2, data)]) \<le> 1000" unfolding up2 by (rule room)
  have "\<exists>st'. append_file (of_nat (length fs + 1)) data st2 = Some st' \<and> img_ok (?fs2[length fs := (2, data)]) st'"
    by (rule append_file_img [OF s2(2) _ _ _ nb2]) (use data in \<open>auto simp: nth_append\<close>)
  then obtain st3 where s3: "append_file (of_nat ?n) data st2 = Some st3" "img_ok (added f fs) st3" unfolding up2 by blast
  have "add_file f st = Some st3"
    using f data s1(1) s2(1) s3(1) e unfolding add_file_def arg_ok_def by (simp add: file_name_def del: of_nat_add)
  then show ?thesis using s3(2) by blast
qed

fun entries :: "nat \<Rightarrow> (u8 list \<times> u8 list option) list \<Rightarrow> u8 list" where
  "entries n [] = []"
| "entries n (f # fs) = entry n (fst f) @ entries (n + 1) fs"

lemma length_entries: "length (entries n fs) = 16 * length fs"
  by (induction fs arbitrary: n) (simp_all add: entry_def make_dirent_def)

lemma fold_added:
  "fold added args (r # fs) = (fst r, snd r @ entries (length fs + 2) args) # fs @ map (\<lambda>f. (2, the (snd f))) args"
  by (induction args arbitrary: r fs) (simp_all add: added_def)

lemma added_le: "fs \<noteq> [] \<Longrightarrow> next_block fs \<le> next_block (added f fs)"
proof -
  assume fs: "fs \<noteq> []"
  let ?r = "(fst (fs ! 0), snd (fs ! 0) @ entry (length fs + 1) (fst f))"
  have "file_blocks (fs ! 0) \<le> file_blocks ?r" unfolding file_blocks_def by (intro dblocks_mono cdiv_mono) simp
  then show ?thesis using next_block_update [of 0 fs ?r] fs by (simp add: added_def next_block_snoc)
qed

lemma fold_added_le: "fs \<noteq> [] \<Longrightarrow> next_block fs \<le> next_block (fold added args fs)"
proof (induction args arbitrary: fs)
  case (Cons f args)
  have "added f fs \<noteq> []" by (simp add: added_def)
  then show ?case using Cons.IH [of "added f fs"] added_le [OF Cons.prems, of f] by simp
qed simp

lemma add_files_img:
  assumes "img_ok fs st" "fs \<noteq> []" "length fs + length args < 200" "\<forall>f \<in> set args. arg_ok f"
    and "next_block (fold added args fs) \<le> 1000" "length (snd (fs ! 0)) + 16 * length args \<le> 71680"
  shows "\<exists>st'. add_files args st = Some st' \<and> img_ok (fold added args fs) st'"
  using assms
proof (induction args arbitrary: fs st)
  case (Cons f args)
  have a0: "snd (added f fs ! 0) = snd (fs ! 0) @ entry (length fs + 1) (fst f)" "added f fs \<noteq> []" "length (added f fs) = length fs + 1"
    using Cons.prems(2) by (auto simp: added_def nth_append)
  have e16: "length (entry n s) = 16" for n s by (simp add: entry_def make_dirent_def)
  obtain st1 where s: "add_file f st = Some st1" "img_ok (added f fs) st1"
    using add_file_img [OF Cons.prems(1,2), of f] Cons.prems fold_added_le [OF a0(2), of args] a0 e16 by auto
  then show ?case using Cons.IH [OF s(2) a0(2)] Cons.prems a0 e16 by auto
qed simp

section \<open>The finished image\<close>

definition image_files :: "(u8 list \<times> u8 list option) list \<Rightarrow> afile list" where
  "image_files args = (1, make_dirent 1 [0x2E] @ make_dirent 1 [0x2E, 0x2E] @ entries 2 args) # map (\<lambda>f. (2, the (snd f))) args"

lemma img_start: "img_ok [] \<lparr>img = (\<lambda>_ _. 0)(1 := encode_sb mkfs_sb), freeinode = 1, freeblock = nmeta\<rparr>"
  by (auto simp: img_ok_def next_block_def mkfs_sb_eq(2) zero_above_def)

text \<open>Everything up to the last two steps of \<^verbatim>\<open>main\<close>.\<close>

definition mkfs_fill :: "(u8 list \<times> u8 list option) list \<Rightarrow> mkfs_st option" where
  "mkfs_fill args =
     (let st = wsect 1 (encode_sb mkfs_sb) \<lparr>img = (\<lambda>_ _. 0), freeinode = 1, freeblock = nmeta\<rparr>
      in Option.bind (mkfs_ialloc 1 st) (\<lambda>(rootino, st).
         if rootino \<noteq> 1 then None
         else Option.bind (iappend rootino (make_dirent (xshort (ucast rootino)) [0x2E]) st) (\<lambda>st.
              Option.bind (iappend rootino (make_dirent (xshort (ucast rootino)) [0x2E, 0x2E]) st) (add_files args))))"

lemma mkfs_main_fill:
  "mkfs_main args = Option.bind (mkfs_fill args) (\<lambda>st. Option.bind (fix_root st) (\<lambda>st. mkfs_balloc (freeblock st) st))"
  by (auto simp: mkfs_main_def mkfs_fill_def Let_def split: Option.bind_splits prod.splits)

lemma mkfs_fill_img:
  assumes "length args < 199" "\<forall>f \<in> set args. arg_ok f" "next_block (image_files args) \<le> 1000"
  shows "\<exists>st. mkfs_fill args = Some st \<and> img_ok (image_files args) st"
proof -
  let ?st = "\<lparr>img = (\<lambda>_ _. 0)(1 := encode_sb mkfs_sb), freeinode = 1, freeblock = nmeta\<rparr>"
  let ?d1 = "make_dirent 1 [0x2E]" and ?d2 = "make_dirent 1 [0x2E, 0x2E]"
  have len: "length ?d1 = 16" "length ?d2 = 16" by (simp_all add: make_dirent_def)
  have fin: "fold added args [(1, ?d1 @ ?d2)] = image_files args" by (simp add: fold_added image_files_def numeral_2_eq_2)
  have nb: "next_block [(1, d)] \<le> 1000" if "length d \<le> 32" for d :: "u8 list"
    using that by (auto simp: next_block_def file_blocks_def dblocks_def cdiv_def)
  obtain st1 where s1: "mkfs_ialloc 1 ?st = Some (1, st1)" "img_ok [(1, [])] st1" using ialloc_img [OF img_start, of 1] by auto
  obtain st2 where s2: "iappend 1 ?d1 st1 = Some st2" "img_ok [(1, ?d1)] st2"
    using iappend_img [OF s1(2), of 0 "(1, ?d1)" ?d1] len nb [of ?d1] by auto
  obtain st3 where s3: "iappend 1 ?d2 st2 = Some st3" "img_ok [(1, ?d1 @ ?d2)] st3"
    using iappend_img [OF s2(2), of 0 "(1, ?d1 @ ?d2)" ?d2] len nb [of "?d1 @ ?d2"] by auto
  obtain st4 where s4: "add_files args st3 = Some st4" "img_ok (image_files args) st4"
    using add_files_img [OF s3(2), of args] assms len by (auto simp: fin)
  have "mkfs_fill args = Some st4"
    using s1(1) s2(1) s3(1) s4(1) by (simp add: mkfs_fill_def wsect_def)
  then show ?thesis using s4(2) by blast
qed

lemma decode_encode_sb: "decode_sb (encode_sb S) = S"
  by (rule superblock.equality) (simp_all add: decode_sb_def encode_sb_def load32_store32 load32_store32_other)

lemma mark_bits: "n \<le> 4096 \<Longrightarrow> j < 4096 \<Longrightarrow> bit_set (fold (\<lambda>i buf. mark_bit buf i) [0..<n] (\<lambda>_. 0)) j \<longleftrightarrow> j < n"
proof (induction n)
  case 0
  then show ?case by (simp add: bit_set_def)
next
  case (Suc n)
  then show ?case by (auto simp: mark_bit_set)
qed

text \<open>The inode as the kernel has it in memory once it is read.\<close>

definition kino :: "(u32 \<Rightarrow> block) \<Rightarrow> nat \<Rightarrow> inode" where
  "kino c n = (disk_ino c n)\<lparr>idev := 1, inum := of_nat n\<rparr>"

lemma kino_simps [simp]: "slot c (kino d n) = slot c (disk_ino d n)" "fbyte c (kino d n) = fbyte c (disk_ino d n)"
  "itype (kino c n) = itype (disk_ino c n)" "isize (kino c n) = isize (disk_ino c n)" "inum (kino c n) = of_nat n" "idev (kino c n) = 1"
  "inlink (kino c n) = inlink (disk_ino c n)"
  by (auto simp: kino_def slot_def fbyte_def fun_eq_iff)

definition marked :: "nat \<Rightarrow> (u32 \<Rightarrow> block) \<Rightarrow> bool" where
  "marked F c \<longleftrightarrow> c 58 = fold (\<lambda>i buf. mark_bit buf i) [0..<F] (\<lambda>_. 0)"

lemma BBLOCK_mkfs: "j < 1000 \<Longrightarrow> BBLOCK (of_nat j) mkfs_sb = 58"
  by (simp add: BBLOCK_def mkfs_sb_eq word_unat_eq_iff unat_word_ariths unat_div unat_of_nat_u32)

lemma sb_size_mkfs [simp]: "sb_size mkfs_sb = 1000"
  by (simp add: mkfs_sb_eq)

lemma bitmap_block_mkfs: "bitmap_block mkfs_sb m \<longleftrightarrow> m = 58"
  using BBLOCK_mkfs BBLOCK_mkfs [of 0] by (auto simp: bitmap_block_def intro!: exI [of _ 0])

lemma used_mkfs:
  assumes "marked F c" "F \<le> 1000" "b < 1000"
  shows "used c mkfs_sb b \<longleftrightarrow> b < F"
  using mark_bits [of F b] assms by (simp add: used_def BBLOCK_mkfs marked_def)

lemma bitmap_ok_mkfs:
  assumes "marked F c" "59 \<le> F" "F \<le> 1000"
  shows "bitmap_ok c mkfs_sb 1000"
  using used_mkfs [OF assms(1,3)] assms by (simp add: bitmap_ok_def BBLOCK_mkfs)

lemma file_ok_mkfs:
  assumes c: "marked F c" "59 \<le> F" "F \<le> 1000"
    and n: "n < 208" and l: "laid c F (disk_ino c n) nb xs"
  shows "file_ok c mkfs_sb 1000 (kino c n)"
proof -
  note d = laidD [OF l]
  have b: "32 \<le> unat (IBLOCK (of_nat n) mkfs_sb)" "unat (IBLOCK (of_nat n) mkfs_sb) < 58" using meta_block [OF n] by auto
  have "data_block c mkfs_sb (kino c n) (slot c (disk_ino c n) j)" if "j \<le> 140" "slot c (disk_ino c n) j \<noteq> 0" for j
    using d(5,6) [OF that] used_mkfs [OF c(1,3)] c b
    by (auto simp: data_block_def bitmap_block_mkfs word_less_nat_alt)
  moreover have "used c mkfs_sb (unat (IBLOCK (of_nat n) mkfs_sb))" using used_mkfs [OF c(1,3)] b c by simp
  ultimately show ?thesis
    using bitmap_ok_mkfs [OF c] b d(7) by (auto simp: file_ok_def bitmap_block_mkfs word_less_nat_alt)
qed

lemma fbytes_laid:
  assumes "laid c F (disk_ino c n) nb xs" "unat (isize (disk_ino c n)) = sn" "length xs \<le> sn" "sn \<le> 512 * nb"
  shows "whole c (kino c n)" "fbytes c (kino c n) = xs @ replicate (sn - length xs) 0"
proof -
  note d = laidD [OF assms(1)]
  have "slot c (disk_ino c n) (k div 512) \<noteq> 0" if "k < sn" for k
  proof -
    have "k < nb * 512" using that assms(4) by (simp add: mult.commute)
    then have "k div 512 < nb" by (rule less_mult_imp_div_less)
    then show ?thesis using d(1) d(3) [of "k div 512"] by simp
  qed
  then show "whole c (kino c n)" using assms d(1) by (auto simp: whole_def)
  show "fbytes c (kino c n) = xs @ replicate (sn - length xs) 0"
    by (rule nth_equalityI) (use assms d(8) in \<open>auto simp: fbytes_def nth_append\<close>)
qed

lemma fbytes_laid_prefix:
  assumes "laid c F (disk_ino c n) nb xs" "length xs \<le> unat (isize (disk_ino c n))"
  shows "\<exists>ys. fbytes c (kino c n) = xs @ ys"
proof -
  note d = laidD [OF assms(1)]
  have "take (length xs) (fbytes c (kino c n)) = xs"
    by (rule nth_equalityI) (use assms d(2,8) in \<open>auto simp: fbytes_def\<close>)
  then show ?thesis by (metis append_take_drop_id)
qed

text \<open>The last two steps change the size of the root directory and write the bitmap.\<close>

lemma mkfs_finish:
  assumes ok: "img_ok fs st" and fs: "fs \<noteq> []" and F: "F = next_block fs"
  shows "\<exists>st'. Option.bind (fix_root st) (\<lambda>st. mkfs_balloc (freeblock st) st) = Some st'
    \<and> marked F (img st') \<and> img st' 1 = encode_sb mkfs_sb \<and> img st' 2 = (\<lambda>_. 0)
    \<and> (\<forall>k < length fs. laid (img st') F (disk_ino (img st') (k + 1)) (cdiv (length (snd (fs ! k)))) (snd (fs ! k))
         \<and> owned (img st') (disk_ino (img st') (k + 1)) = owned (img st) (disk_ino (img st) (k + 1))
         \<and> itype (disk_ino (img st') (k + 1)) = fst (fs ! k) \<and> inlink (disk_ino (img st') (k + 1)) = 1
         \<and> unat (isize (disk_ino (img st') (k + 1))) = (if k = 0 then 512 * (length (snd (fs ! 0)) div 512 + 1) else length (snd (fs ! k))))"
proof -
  note d = img_okD [OF ok]
  let ?c = "img st" and ?b = "IBLOCK (of_nat 1) mkfs_sb" and ?len = "length (snd (fs ! 0))"
  let ?off = "(of_nat ?len div 512 + 1) * 512 :: u32"
  let ?ip = "(disk_ino ?c 1)\<lparr>isize := ?off\<rparr>"
  have h: "holds ?c F (k + 1) (fs ! k)" if "k < length fs" for k using d(6) [OF that] F by simp
  have h0: "isize (disk_ino ?c 1) = of_nat ?len" "?len \<le> 71680" using h [of 0] fs by (auto simp: holds_def)
  define c1 where "c1 = ?c(?b := store_dinode ?ip (dinode_off (of_nat 1)) (?c ?b))"
  define c' where "c' = c1(58 := fold (\<lambda>i buf. mark_bit buf i) [0..<F] (\<lambda>_. 0))"
  define st' where "st' = st\<lparr>img := c'\<rparr>"
  have root: "fix_root st = Some (st\<lparr>img := c1\<rparr>)"
    using rinode_eq [of 1 st] winode_eq [of 1 ?ip st] h0 by (simp add: fix_root_def c1_def wsect_def)
  have F1000: "F \<le> 1000" "59 \<le> F" using d(4) next_block_ge F by auto
  then have si: "sint (of_nat F :: u32) = int F" by (intro sint_of_nat_small) simp
  have bal: "mkfs_balloc (freeblock st) (st\<lparr>img := c1\<rparr>) = Some st'"
    unfolding d(3) F [symmetric] mkfs_balloc_def si using F1000 by (simp add: wsect_def mkfs_sb_eq st'_def c'_def)
  have b: "32 \<le> unat ?b" "unat ?b < 58" using meta_block [of 1] by auto
  have same: "c' m = ?c m" if "unat m < 32 \<or> 59 \<le> unat m" for m
    using that b by (cases "m = 58"; cases "m = ?b") (auto simp: c'_def c1_def)
  have n58: "IBLOCK (of_nat n) mkfs_sb \<noteq> 58" if "n < 208" for n using meta_block [OF that] by auto
  have d58: "disk_ino c' n = disk_ino c1 n" if "n < 208" for n using n58 [OF that] by (simp add: disk_ino_def c'_def)
  have other: "disk_ino c' (k + 1) = disk_ino ?c (k + 1)" if "k < length fs" "k \<noteq> 0" for k
    using d58 [of "k + 1"] disk_ino_other [of "k + 1" 1 ?c ?ip "?c ?b"] that d(1) by (simp add: c1_def)
  have j: "itype (disk_ino c' 1) = itype (disk_ino ?c 1)" "inlink (disk_ino c' 1) = inlink (disk_ino ?c 1)" "isize (disk_ino c' 1) = ?off"
    "\<And>i. i < 13 \<Longrightarrow> iaddrs (disk_ino c' 1) i = iaddrs (disk_ino ?c 1) i"
    using disk_ino_same [where c = ?c and n = 1 and ip = ?ip and d = "?c ?b"] d58 [of 1] by (simp_all add: c1_def)
  have off: "unat ?off = 512 * (?len div 512 + 1)"
  proof -
    have "unat (of_nat ?len div 512 :: u32) = ?len div 512" using h0(2) by (simp add: unat_div unat_of_nat_u32)
    moreover have "?len div 512 \<le> 140" using h0(2) by simp
    ultimately show ?thesis by (simp add: unat_word_ariths)
  qed
  have ia: "iaddrs (disk_ino c' (k + 1)) i = iaddrs (disk_ino ?c (k + 1)) i" if "k < length fs" "i < 13" for k i
    using that other [of k] j(4) [of i] by (cases "k = 0") auto
  have "laid c' F (disk_ino c' (k + 1)) (cdiv (length (snd (fs ! k)))) (snd (fs ! k))
      \<and> owned c' (disk_ino c' (k + 1)) = owned ?c (disk_ino ?c (k + 1))
      \<and> itype (disk_ino c' (k + 1)) = fst (fs ! k) \<and> inlink (disk_ino c' (k + 1)) = 1
      \<and> unat (isize (disk_ino c' (k + 1))) = (if k = 0 then 512 * (?len div 512 + 1) else length (snd (fs ! k)))"
    if k: "k < length fs" for k
  proof -
    have l: "laid ?c F (disk_ino ?c (k + 1)) (cdiv (length (snd (fs ! k)))) (snd (fs ! k))" using h [OF k] by (simp add: holds_def)
    have "c' m = ?c m" if "m \<in> owned ?c (disk_ino ?c (k + 1))" for m using owned_laid [OF l that] same [of m] by simp
    note lc = laid_cong [OF l this ia [OF k] order_refl]
    have "itype (disk_ino c' (k + 1)) = fst (fs ! k) \<and> inlink (disk_ino c' (k + 1)) = 1
      \<and> unat (isize (disk_ino c' (k + 1))) = (if k = 0 then 512 * (?len div 512 + 1) else length (snd (fs ! k)))"
      using h [OF k] other [OF k] j off by (cases "k = 0") (auto simp: holds_def unat_of_nat_u32)
    then show ?thesis using lc by blast
  qed
  moreover have "c' 1 = encode_sb mkfs_sb" "c' 2 = (\<lambda>_. 0)" using same [of 1] same [of 2] d(8) d(9) [of 2] by simp_all
  moreover have "Option.bind (fix_root st) (\<lambda>st. mkfs_balloc (freeblock st) st) = Some st'" using root bal by simp
  ultimately show ?thesis by (intro exI [of _ st']) (auto simp: st'_def c'_def marked_def)
qed

text \<open>The size recorded for a file covers its bytes and stays within its blocks; the root directory's is rounded up.\<close>

lemma image_size_bounds:
  assumes "(2 + length args) mod 32 \<noteq> 0"
    and "n = (if k = 0 then 512 * (length (snd (image_files args ! 0)) div 512 + 1) else length (snd (image_files args ! k)))"
  shows "length (snd (image_files args ! k)) \<le> n" "n \<le> 512 * cdiv (length (snd (image_files args ! k)))"
proof -
  have r0: "length (snd (image_files args ! 0)) = 16 * (2 + length args)"
    by (simp add: image_files_def length_entries make_dirent_def)
  define q where "q = (2 + length args) div 32"
  define r where "r = (2 + length args) mod 32"
  have "2 + length args = 32 * q + r" by (simp add: q_def r_def)
  then have qr: "16 * (2 + length args) = 512 * q + 16 * r" "0 < r" "r < 32"
    using assms(1) by (simp_all add: r_def)
  have rd: "length (snd (image_files args ! 0)) div 512 = q" "cdiv (length (snd (image_files args ! 0))) = q + 1"
    unfolding r0 qr(1) using qr cdiv_split [of "16 * r" q] by (auto intro: div_nat_eqI)
  have "m \<le> 512 * cdiv m" for m by (simp add: cdiv_def)
  then show "n \<le> 512 * cdiv (length (snd (image_files args ! k)))" using assms(2) rd by (cases "k = 0") simp_all
  show "length (snd (image_files args ! k)) \<le> n" using assms(2) rd r0 qr by (cases "k = 0") simp_all
qed

text \<open>When the entries of the root directory fill its blocks exactly, the rounded size is a block more than \<^verbatim>\<open>mkfs\<close> gave it.\<close>

lemma root_size_hole:
  assumes "(2 + length args) mod 32 = 0" and "length args < 199"
  obtains q where "length (snd (image_files args ! 0)) = 512 * q" "length (snd (image_files args ! 0)) div 512 = q"
    "cdiv (length (snd (image_files args ! 0))) = q" "q < 140"
proof (rule that [of "(2 + length args) div 32"])
  have r0: "length (snd (image_files args ! 0)) = 16 * (2 + length args)"
    by (simp add: image_files_def length_entries make_dirent_def)
  define q where "q = (2 + length args) div 32"
  have q: "2 + length args = 32 * q" using assms(1) by (simp add: q_def mod_0_imp_dvd)
  show "length (snd (image_files args ! 0)) = 512 * ((2 + length args) div 32)"
    "length (snd (image_files args ! 0)) div 512 = (2 + length args) div 32"
    "cdiv (length (snd (image_files args ! 0))) = (2 + length args) div 32" "(2 + length args) div 32 < 140"
    unfolding r0 q using cdiv_split [of 0 q] q assms(2) by simp_all
qed

text \<open>
  C7: \<^verbatim>\<open>mkfs\<close> builds an image the kernel can use.  When the files fit on the disk it ends without an error; the superblock reads back
  as it was meant, the log is empty, exactly the blocks up to the last one handed out are marked in the bitmap; every file is
  well formed in the sense the kernel's file operations need and has the bytes of its source, without holes; the root directory
  lists the files under their names without a leading underscore; and no two files share a block.  The size of the root directory
  is rounded up to the next block even when its entries, two more than the files, already fill their blocks (32 to a block): then,
  with 30, 62, 94, 126, 158 or 190 files, and only then, the directory ends in a block that is not there; otherwise what follows
  the entries is zeros.
\<close>

theorem mkfs_builds:
  assumes "\<forall>f \<in> set args. arg_ok f" "length args < 199" "next_block (image_files args) \<le> 1000"
  shows "\<exists>st. mkfs_main args = Some st \<and> decode_sb (img st 1) = mkfs_sb \<and> img st 2 = (\<lambda>_. 0) \<and> bitmap_ok (img st) mkfs_sb 1000
    \<and> (\<forall>b < 1000. used (img st) mkfs_sb b \<longleftrightarrow> b < next_block (image_files args))
    \<and> (\<forall>n \<le> length args. file_ok (img st) mkfs_sb 1000 (kino (img st) (n + 1))
         \<and> (whole (img st) (kino (img st) (n + 1)) \<longleftrightarrow> n \<noteq> 0 \<or> (2 + length args) mod 32 \<noteq> 0)
         \<and> inlink (kino (img st) (n + 1)) = 1
         \<and> (\<forall>k \<le> length args. k \<noteq> n \<longrightarrow> owned (img st) (kino (img st) (n + 1)) \<inter> owned (img st) (kino (img st) (k + 1)) = {}))
    \<and> itype (kino (img st) 1) = 1
    \<and> (\<exists>ys. fbytes (img st) (kino (img st) 1) = make_dirent 1 [0x2E] @ make_dirent 1 [0x2E, 0x2E] @ entries 2 args @ ys
         \<and> ((2 + length args) mod 32 \<noteq> 0 \<longrightarrow> set ys \<subseteq> {0}))
    \<and> (\<forall>i < length args. itype (kino (img st) (i + 2)) = 2 \<and> fbytes (img st) (kino (img st) (i + 2)) = the (snd (args ! i)))"
proof -
  let ?fs = "image_files args"
  define F where "F = next_block (image_files args)"
  have ln: "length ?fs = length args + 1" "?fs \<noteq> []" by (simp_all add: image_files_def)
  have sub: "?fs ! (i + 1) = (2, the (snd (args ! i)))" if "i < length args" for i using that by (simp add: image_files_def)
  obtain st0 where s0: "mkfs_fill args = Some st0" "img_ok ?fs st0" using mkfs_fill_img [OF assms(2,1,3)] by blast
  from mkfs_finish [OF s0(2) ln(2) F_def] obtain st where st: "Option.bind (fix_root st0) (\<lambda>st. mkfs_balloc (freeblock st) st) = Some st"
    "marked F (img st)" "img st 1 = encode_sb mkfs_sb" "img st 2 = (\<lambda>_. 0)"
    and fl: "\<And>k. k < length ?fs \<Longrightarrow> laid (img st) F (disk_ino (img st) (k + 1)) (cdiv (length (snd (?fs ! k)))) (snd (?fs ! k))
         \<and> owned (img st) (disk_ino (img st) (k + 1)) = owned (img st0) (disk_ino (img st0) (k + 1))
         \<and> itype (disk_ino (img st) (k + 1)) = fst (?fs ! k) \<and> inlink (disk_ino (img st) (k + 1)) = 1
         \<and> unat (isize (disk_ino (img st) (k + 1))) = (if k = 0 then 512 * (length (snd (?fs ! 0)) div 512 + 1) else length (snd (?fs ! k)))"
    by blast
  have F: "59 \<le> F" "F \<le> 1000" using assms(3) next_block_ge by (simp_all add: F_def)
  have kown: "owned c (kino c n) = owned c (disk_ino c n)" for c n by (simp add: owned_def)
  have full: "n \<le> 512 * cdiv n" for n by (simp add: cdiv_def)
  have whole: "whole (img st) (kino (img st) (k + 1))"
    "fbytes (img st) (kino (img st) (k + 1)) = snd (?fs ! k) @ replicate (unat (isize (disk_ino (img st) (k + 1))) - length (snd (?fs ! k))) 0"
    if "k < length ?fs" "k \<noteq> 0 \<or> (2 + length args) mod 32 \<noteq> 0" for k
  proof -
    have "length (snd (?fs ! k)) \<le> unat (isize (disk_ino (img st) (k + 1)))"
      "unat (isize (disk_ino (img st) (k + 1))) \<le> 512 * cdiv (length (snd (?fs ! k)))"
      using fl [OF that(1)] image_size_bounds [of args _ k] full [of "length (snd (?fs ! k))"] that(2) by (cases "k = 0"; simp)+
    then show "whole (img st) (kino (img st) (k + 1))"
      "fbytes (img st) (kino (img st) (k + 1)) = snd (?fs ! k) @ replicate (unat (isize (disk_ino (img st) (k + 1))) - length (snd (?fs ! k))) 0"
      using fbytes_laid [of "img st" F "k + 1", OF _ refl] fl [OF that(1)] by blast+
  qed
  have hole: "\<not> whole (img st) (kino (img st) 1)" "\<exists>ys. fbytes (img st) (kino (img st) 1) = snd (?fs ! 0) @ ys"
    if m: "(2 + length args) mod 32 = 0"
  proof -
    obtain q where q: "length (snd (?fs ! 0)) = 512 * q" "length (snd (?fs ! 0)) div 512 = q"
      "cdiv (length (snd (?fs ! 0))) = q" "q < 140"
      using root_size_hole [OF m assms(2)] by blast
    have f0: "laid (img st) F (disk_ino (img st) 1) q (snd (?fs ! 0))" "unat (isize (disk_ino (img st) 1)) = 512 * (q + 1)"
      using fl [of 0] ln q(2,3) by simp_all
    have "slot (img st) (kino (img st) 1) (512 * q div 512) = 0" using laidD(3) [OF f0(1), of q] q(4) by simp
    moreover have "512 * q < unat (isize (kino (img st) 1))" using f0(2) by simp
    ultimately show "\<not> whole (img st) (kino (img st) 1)" unfolding whole_def by blast
    show "\<exists>ys. fbytes (img st) (kino (img st) 1) = snd (?fs ! 0) @ ys"
      using fbytes_laid_prefix [OF f0(1)] f0(2) q(1) by simp
  qed
  have "mkfs_main args = Some st" using s0(1) st(1) by (simp add: mkfs_main_fill)
  moreover have "\<forall>n \<le> length args. file_ok (img st) mkfs_sb 1000 (kino (img st) (n + 1))
       \<and> (whole (img st) (kino (img st) (n + 1)) \<longleftrightarrow> n \<noteq> 0 \<or> (2 + length args) mod 32 \<noteq> 0)
       \<and> inlink (kino (img st) (n + 1)) = 1
       \<and> (\<forall>k \<le> length args. k \<noteq> n \<longrightarrow> owned (img st) (kino (img st) (n + 1)) \<inter> owned (img st) (kino (img st) (k + 1)) = {})"
  proof (intro allI impI conjI)
    fix n assume n: "n \<le> length args"
    then have n': "n < length ?fs" using ln by simp
    show "file_ok (img st) mkfs_sb 1000 (kino (img st) (n + 1))"
      using file_ok_mkfs [OF st(2) F] fl [OF n'] n assms(2) by auto
    show "whole (img st) (kino (img st) (n + 1)) \<longleftrightarrow> n \<noteq> 0 \<or> (2 + length args) mod 32 \<noteq> 0"
      using whole(1) [OF n'] hole(1) by (cases "n = 0") auto
    show "inlink (kino (img st) (n + 1)) = 1" using fl [OF n'] by simp
    fix k assume k: "k \<le> length args" "k \<noteq> n"
    then show "owned (img st) (kino (img st) (n + 1)) \<inter> owned (img st) (kino (img st) (k + 1)) = {}"
      using fl [OF n'] fl [of k] img_okD(7) [OF s0(2), of n k] n' ln by (simp add: kown)
  qed
  moreover have "itype (kino (img st) 1) = 1" using fl [of 0] ln by (simp add: image_files_def)
  moreover have "\<exists>ys. fbytes (img st) (kino (img st) 1) = make_dirent 1 [0x2E] @ make_dirent 1 [0x2E, 0x2E] @ entries 2 args @ ys
       \<and> ((2 + length args) mod 32 \<noteq> 0 \<longrightarrow> set ys \<subseteq> {0})"
  proof (cases "(2 + length args) mod 32 = 0")
    case True
    then show ?thesis using hole(2) by (auto simp: image_files_def)
  next
    case False
    then show ?thesis using whole(2) [of 0] ln by (auto simp: image_files_def)
  qed
  moreover have "itype (kino (img st) (i + 2)) = 2 \<and> fbytes (img st) (kino (img st) (i + 2)) = the (snd (args ! i))" if "i < length args" for i
    using whole(2) [of "i + 1"] fl [of "i + 1"] sub [OF that] ln that by simp
  ultimately show ?thesis
    using bitmap_ok_mkfs [OF st(2) F] used_mkfs [OF st(2) F(2)] st(3,4) decode_encode_sb [of mkfs_sb] unfolding F_def [symmetric] by auto
qed

theorem mkfs_builds_witness:
  "\<exists>st. mkfs_main [([0x5F, 0x63], Some [0x68, 0x69])] = Some st \<and> fbytes (img st) (kino (img st) 2) = [0x68, 0x69]
     \<and> (\<forall>b < 1000. used (img st) mkfs_sb b \<longleftrightarrow> b < 61)"
proof -
  let ?args = "[([0x5F, 0x63], Some [0x68, 0x69])] :: (u8 list \<times> u8 list option) list"
  have nb: "next_block (image_files ?args) = 61"
    by (simp add: next_block_def image_files_def file_blocks_def dblocks_def cdiv_def length_entries make_dirent_def del: entries.simps)
  have ok: "\<forall>f \<in> set ?args. arg_ok f" "length ?args < 199" by (simp_all add: arg_ok_def)
  have le: "next_block (image_files ?args) \<le> 1000" unfolding nb by simp
  obtain st where "mkfs_main ?args = Some st"
    "\<forall>i < length ?args. itype (kino (img st) (i + 2)) = 2 \<and> fbytes (img st) (kino (img st) (i + 2)) = the (snd (?args ! i))"
    "\<forall>b < 1000. used (img st) mkfs_sb b \<longleftrightarrow> b < next_block (image_files ?args)"
    using mkfs_builds [OF ok le] by blast
  then show ?thesis unfolding nb by (auto simp: numeral_2_eq_2)
qed


end
