(* ===== verification/Vm_Map.thy ===== *)
theory Vm_Map imports Vm begin

text \<open>
  Page tables as maps.  \<open>pte_of\<close> reads the page table entry of a virtual address from the directory and the tables in byte memory; under
  the invariant \<open>vm_ok\<close> (the directory and its tables are distinct pages, none of them on the free list of the allocator) a store to an
  entry and a fresh table change the map only where they should, and so \<open>walkpgdir\<close> and \<open>mappages\<close> implement a finite update of it.
  \<open>translate_pte_of\<close> relates the map to what the paging hardware reads.
\<close>

section \<open>Addresses of entries\<close>

lemma unat_PDX: "unat (PDX va) = unat va div 2 ^ 22"
proof -
  have "PDX va = take_bit 10 (drop_bit 22 va)" by (simp add: PDX_def take_bit_eq_mask mask_eq_exp_minus_1)
  also have "\<dots> = drop_bit 22 va" by (rule bit_word_eqI) (auto simp: bit_simps dest: bit_imp_le_length)
  finally show ?thesis by (simp add: unat_div drop_bit_eq_div)
qed

lemma unat_PTX: "unat (PTX va) = unat va div 4096 mod 1024"
proof -
  have "PTX va = take_bit 10 (drop_bit 12 va)" by (simp add: PTX_def take_bit_eq_mask mask_eq_exp_minus_1)
  then have "PTX va = drop_bit 12 va mod 1024" by (simp add: take_bit_eq_mod)
  then show ?thesis by (simp add: unat_mod unat_div drop_bit_eq_div)
qed

text \<open>The number of the page of a virtual address.\<close>

definition vpn :: "u32 \<Rightarrow> nat" where
  "vpn va = unat va div 4096"

lemma entry_less: "unat (PDX va) < 1024" "unat (PTX va) < 1024"
  using unat_u32_less [of va] by (simp_all add: unat_PDX unat_PTX)

lemma vpn_eq_iff: "vpn v = vpn w \<longleftrightarrow> PDX v = PDX w \<and> PTX v = PTX w"
proof -
  have "unat (PDX x) = vpn x div 1024" "unat (PTX x) = vpn x mod 1024" for x
    by (simp_all add: vpn_def unat_PDX unat_PTX flip: div_mult2_eq)
  then show ?thesis unfolding word_unat_eq_iff by (metis div_mult_mod_eq)
qed

text \<open>Entry \<open>j\<close> of the table at \<open>p\<close>.\<close>

definition entry :: "u32 \<Rightarrow> nat \<Rightarrow> u32" where
  "entry p j = p + of_nat (4 * j)"

lemma entry_PDX: "p + 4 * PDX va = entry p (unat (PDX va))" "p + 4 * PTX va = entry p (unat (PTX va))"
  by (simp_all add: entry_def)

lemma entry_offset: "j < 1024 \<Longrightarrow> i < 4 \<Longrightarrow> unat (of_nat (4 * j) + i :: u32) < 4096"
proof -
  assume j: "j < 1024" and i: "i < 4"
  have "unat (of_nat (4 * j) :: u32) = 4 * j" using j by (simp add: unat_of_nat del: of_nat_mult)
  then show ?thesis using unat_add_le [of "of_nat (4 * j)" i] j i by (simp add: word_less_nat_alt)
qed

lemma load_entry_cong:
  assumes "page_aligned p" "page_aligned q" "p \<noteq> q" "j < 1024" "\<And>b. 4096 \<le> unat (b - q) \<Longrightarrow> m' b = m b"
  shows "load32 m' (entry p j) = load32 m (entry p j)"
proof (rule load32_cong)
  fix i :: u32 assume "i < 4"
  then show "m' (entry p j + i) = m (entry p j + i)"
    using assms(5) other_page_offset [OF assms(1-3) entry_offset [OF assms(4)]] by (simp add: entry_def add.assoc)
qed

lemma store_entry_far: "j < 1024 \<Longrightarrow> 4096 \<le> unat (b - q) \<Longrightarrow> store32 m (entry q j) v b = m b"
  unfolding entry_def by (rule store32_same_page) (simp_all add: unat_of_nat del: of_nat_mult)

lemma load_store_entry:
  assumes "j < 1024" "k < 1024"
  shows "load32 (store32 m (entry p j) v) (entry p k) = (if j = k then v else load32 m (entry p k))"
proof (cases "j = k")
  case False
  then have "4 \<le> (of_nat (4 * k) - of_nat (4 * j) :: u32)" "4 \<le> (of_nat (4 * j) - of_nat (4 * k) :: u32)"
    using False assms by (intro of_nat_apart; auto)+
  then show ?thesis using False by (simp add: entry_def load32_store32_other del: of_nat_mult)
qed (simp add: load32_store32)

lemma load_store_entry_other:
  "page_aligned p \<Longrightarrow> page_aligned q \<Longrightarrow> p \<noteq> q \<Longrightarrow> j < 1024 \<Longrightarrow> k < 1024 \<Longrightarrow>
   load32 (store32 m (entry q k) v) (entry p j) = load32 m (entry p j)"
  by (rule load_entry_cong [where q = q]) (simp_all add: store_entry_far)

lemma load_memset_entry: "j < 1024 \<Longrightarrow> load32 (memset m p 0 4096) (entry p j) = 0"
proof -
  assume j: "j < 1024"
  have "load32 (memset m p 0 4096) (entry p j) = load32 (\<lambda>_. 0) (entry p j)"
    by (rule load32_cong) (use entry_offset [OF j] in \<open>simp add: memset_eq entry_def word_less_nat_alt add.assoc\<close>)
  then show ?thesis by (simp add: load32_def)
qed

lemma load_memset_other:
  "page_aligned p \<Longrightarrow> page_aligned q \<Longrightarrow> p \<noteq> q \<Longrightarrow> j < 1024 \<Longrightarrow> load32 (memset m q 0 4096) (entry p j) = load32 m (entry p j)"
  by (rule load_entry_cong [where q = q]) (simp_all add: memset_eq word_less_nat_alt)

lemma PTE_ADDR_aligned [simp]: "page_aligned (PTE_ADDR e)" "page_aligned (P2V (PTE_ADDR e))"
proof -
  show "page_aligned (PTE_ADDR e)" using page_aligned_PGROUNDDOWN [of e] by (simp add: PTE_ADDR_def PGROUNDDOWN_def)
  then show "page_aligned (P2V (PTE_ADDR e))" unfolding P2V_def by (rule page_aligned_add) (simp add: page_aligned_def)
qed

lemma PTE_ADDR_flags: "page_aligned a \<Longrightarrow> f < 4096 \<Longrightarrow> PTE_ADDR (a OR f) = a"
proof -
  assume a: "page_aligned a" and f: "f < 4096"
  have "PTE_ADDR (a OR f) = PGROUNDDOWN a OR PGROUNDDOWN f" by (simp add: PTE_ADDR_def PGROUNDDOWN_def bit.conj_disj_distrib2)
  moreover have "PGROUNDDOWN a = a" using a by (simp add: PGROUNDDOWN_eq page_aligned_def)
  moreover have "f mod 4096 = f" using f by (simp add: mod_word_less)
  ultimately show ?thesis by (simp add: PGROUNDDOWN_eq)
qed

section \<open>Page tables as maps\<close>

text \<open>The page table entry of a virtual address under the directory \<open>pg\<close>; 0 where there is no table.\<close>

definition pde_of :: "memory \<Rightarrow> u32 \<Rightarrow> nat \<Rightarrow> u32" where
  "pde_of m pg j = load32 m (entry pg j)"

definition tab_of :: "memory \<Rightarrow> u32 \<Rightarrow> nat \<Rightarrow> u32" where
  "tab_of m pg j = P2V (PTE_ADDR (pde_of m pg j))"

definition present :: "memory \<Rightarrow> u32 \<Rightarrow> nat \<Rightarrow> bool" where
  "present m pg j \<longleftrightarrow> pde_of m pg j AND PTE_P \<noteq> 0"

definition pte_of :: "memory \<Rightarrow> u32 \<Rightarrow> u32 \<Rightarrow> u32" where
  "pte_of m pg va =
     (if present m pg (unat (PDX va)) then load32 m (entry (tab_of m pg (unat (PDX va))) (unat (PTX va))) else 0)"

text \<open>
  The directory and its tables are distinct kernel pages, none of them free: \<open>xs\<close> is the free list and \<open>e\<close> the end of the kernel.
\<close>

definition pt_ok :: "memory \<Rightarrow> u32 \<Rightarrow> u32 list \<Rightarrow> u32 \<Rightarrow> bool" where
  "pt_ok m pg xs e \<longleftrightarrow> page_aligned pg \<and> pg \<notin> set xs
     \<and> (\<forall>j < 1024. present m pg j \<longrightarrow> kpage e (tab_of m pg j) \<and> tab_of m pg j \<noteq> pg \<and> tab_of m pg j \<notin> set xs
         \<and> (\<forall>k < 1024. present m pg k \<longrightarrow> j \<noteq> k \<longrightarrow> tab_of m pg j \<noteq> tab_of m pg k))"

lemma tab_aligned [simp]: "page_aligned (tab_of m pg j)"
  by (simp add: tab_of_def)

lemma pt_okD:
  assumes "pt_ok m pg xs e"
  shows "page_aligned pg" "pg \<notin> set xs"
    "j < 1024 \<Longrightarrow> present m pg j \<Longrightarrow> kpage e (tab_of m pg j) \<and> tab_of m pg j \<noteq> pg \<and> tab_of m pg j \<notin> set xs"
    "j < 1024 \<Longrightarrow> k < 1024 \<Longrightarrow> present m pg j \<Longrightarrow> present m pg k \<Longrightarrow> j \<noteq> k \<Longrightarrow> tab_of m pg j \<noteq> tab_of m pg k"
  using assms by (auto simp: pt_ok_def)

lemma pt_ok_cong:
  assumes "pt_ok m pg xs e" "\<And>j. j < 1024 \<Longrightarrow> pde_of m' pg j = pde_of m pg j"
  shows "pt_ok m' pg xs e"
  using assms by (simp add: pt_ok_def present_def tab_of_def)

text \<open>A store to an entry of one of the tables changes that entry and no other.\<close>

lemma store_pte:
  assumes ok: "pt_ok m pg xs e" and p: "present m pg (unat (PDX va))"
    and m'_def: "m' = store32 m (entry (tab_of m pg (unat (PDX va))) (unat (PTX va))) v"
  shows "pt_ok m' pg xs e" "pte_of m' pg w = (if vpn w = vpn va then v else pte_of m pg w)"
proof -
  let ?t = "tab_of m pg (unat (PDX va))"
  have t: "?t \<noteq> pg" using pt_okD(3) [OF ok entry_less(1) p] by simp
  have pde: "pde_of m' pg j = pde_of m pg j" if "j < 1024" for j
    unfolding pde_of_def m'_def using load_store_entry_other [OF pt_okD(1) [OF ok] tab_aligned] t that entry_less(2) by metis
  show "pt_ok m' pg xs e" by (rule pt_ok_cong [OF ok pde])
  have pr: "present m' pg (unat (PDX w)) = present m pg (unat (PDX w))" "tab_of m' pg (unat (PDX w)) = tab_of m pg (unat (PDX w))"
    using pde [OF entry_less(1)] by (simp_all add: present_def tab_of_def)
  show "pte_of m' pg w = (if vpn w = vpn va then v else pte_of m pg w)"
  proof (cases "present m pg (unat (PDX w))")
    case pw: True
    show ?thesis
    proof (cases "PDX w = PDX va")
      case True
      then have "pte_of m' pg w = (if unat (PTX va) = unat (PTX w) then v else pte_of m pg w)"
        using pw pr load_store_entry [OF entry_less(2) entry_less(2)] by (simp add: pte_of_def) (simp add: m'_def)
      then show ?thesis using True by (auto simp: vpn_eq_iff word_unat_eq_iff)
    next
      case False
      then have "?t \<noteq> tab_of m pg (unat (PDX w))"
        using pt_okD(4) [OF ok entry_less(1) entry_less(1) p pw] by (metis word_unat_eq_iff)
      then have "load32 m' (entry (tab_of m pg (unat (PDX w))) (unat (PTX w))) = load32 m (entry (tab_of m pg (unat (PDX w))) (unat (PTX w)))"
        unfolding m'_def by (intro load_store_entry_other entry_less(2)) simp_all
      then show ?thesis using False pw pr by (simp add: pte_of_def vpn_eq_iff)
    qed
  next
    case False
    then have "PDX w \<noteq> PDX va" using p by auto
    then show ?thesis using False pr by (simp add: pte_of_def vpn_eq_iff)
  qed
qed

text \<open>A fresh, cleared table hung into the directory changes no entry.\<close>

lemma new_table:
  assumes ok: "pt_ok m pg (x # xs) e" and np: "\<not> present m pg (unat (PDX va))" and x: "kpage e x" "x \<notin> set xs"
    and m'_def: "m' = store32 (memset m x 0 4096) (entry pg (unat (PDX va))) (V2P x OR PTE_P OR PTE_W OR PTE_U)"
  shows "pt_ok m' pg xs e" "present m' pg (unat (PDX va))" "tab_of m' pg (unat (PDX va)) = x" "pte_of m' pg w = pte_of m pg w"
proof -
  let ?j = "unat (PDX va)" and ?e = "V2P x OR PTE_P OR PTE_W OR PTE_U"
  have xa: "page_aligned x" "page_aligned (V2P x)" using kpage_aligned [OF x(1)] by (simp_all add: V2P_def page_aligned_sub page_aligned_def [of "0x80000000"])
  have pg: "page_aligned pg" "pg \<noteq> x" "pg \<notin> set xs" using pt_okD(1,2) [OF ok] by auto
  have e: "PTE_ADDR ?e = V2P x" using PTE_ADDR_flags [OF xa(2), of 7] by (simp add: or.assoc)
  have pde: "pde_of m' pg j = (if j = ?j then ?e else pde_of m pg j)" if "j < 1024" for j
    using that load_store_entry [OF entry_less(1) that, of "memset m x 0 4096" pg va ?e] load_memset_other [OF pg(1) xa(1) pg(2) that]
    by (auto simp: pde_of_def m'_def)
  have "bit (?e AND PTE_P) 0" by (simp add: bit_or_iff bit_and_iff)
  then have e0: "?e AND PTE_P \<noteq> 0" by (metis bit_0_eq bot_apply bot_bool_def)
  show pj: "present m' pg ?j" using pde [OF entry_less(1)] e0 by (simp add: present_def)
  show tj: "tab_of m' pg ?j = x" using pde [OF entry_less(1)] e by (simp add: tab_of_def)
  have oth: "present m' pg j = present m pg j \<and> tab_of m' pg j = tab_of m pg j" if "j < 1024" "j \<noteq> ?j" for j
    using pde [OF that(1)] that(2) by (simp add: present_def tab_of_def)
  have old: "kpage e (tab_of m pg j) \<and> tab_of m pg j \<noteq> pg \<and> tab_of m pg j \<notin> set (x # xs)" if "j < 1024" "present m pg j" for j
    using pt_okD(3) [OF ok that] .
  show "pt_ok m' pg xs e"
    unfolding pt_ok_def
  proof (intro conjI allI impI pg)
    fix j k assume j: "j < 1024" "present m' pg j"
    show "kpage e (tab_of m' pg j)" "tab_of m' pg j \<noteq> pg" "tab_of m' pg j \<notin> set xs"
      using j oth [of j] old [of j] tj x pg by (cases "j = ?j"; auto)+
    assume k: "k < 1024" "present m' pg k" "j \<noteq> k"
    show "tab_of m' pg j \<noteq> tab_of m' pg k"
      using j k oth [of j] oth [of k] old [of j] old [of k] tj pt_okD(4) [OF ok, of j k] by (cases "j = ?j"; cases "k = ?j"; auto)
  qed
  show "pte_of m' pg w = pte_of m pg w"
  proof (cases "unat (PDX w) = ?j")
    case True
    have "load32 m' (entry x (unat (PTX w))) = 0"
      unfolding m'_def using load_store_entry_other [OF xa(1) pg(1)] pg(2) entry_less load_memset_entry by metis
    then show ?thesis using True np pj tj by (simp add: pte_of_def)
  next
    case False
    show ?thesis
    proof (cases "present m pg (unat (PDX w))")
      case True
      let ?t = "tab_of m pg (unat (PDX w))"
      have "?t \<noteq> pg" "?t \<noteq> x" using old [OF entry_less(1) True] by auto
      then have "load32 m' (entry ?t (unat (PTX w))) = load32 m (entry ?t (unat (PTX w)))"
        unfolding m'_def using load_store_entry_other [OF tab_aligned pg(1)] load_memset_other [OF tab_aligned xa(1)] entry_less by metis
      then show ?thesis using oth [OF entry_less(1) False] by (simp add: pte_of_def)
    next
      case False
      then show ?thesis using oth [OF entry_less(1), of w] \<open>unat (PDX w) \<noteq> ?j\<close> by (simp add: pte_of_def)
    qed
  qed
qed

section \<open>Walking and mapping\<close>

lemma kmem_owns_mem:
  assumes "kmem_owns s xs" "page_aligned p" "p \<notin> set xs" "\<And>b. 4096 \<le> unat (b - p) \<Longrightarrow> m' b = mem s b"
  shows "kmem_owns (s\<lparr>mem := m'\<rparr>) xs"
proof -
  have same: "run_next m' x = run_next (mem s) x" "run_size m' x = run_size (mem s) x" if "x \<in> set xs" for x
  proof -
    have x: "page_aligned x" "x \<noteq> p" using assms(1,3) that by (auto simp: kmem_owns_def free_blocks_def kpage_aligned)
    show "run_next m' x = run_next (mem s) x" by (rule run_next_other(1) [OF x(1) assms(2) x(2)]) (rule assms(4))
    show "run_size m' x = run_size (mem s) x" by (rule run_next_other(2) [OF x(1) assms(2) x(2)]) (rule assms(4))
  qed
  then have "chain (run_next m') (freelist s) xs = chain (run_next (mem s)) (freelist s) xs" by (intro chain_cong)
  then show ?thesis using assms(1) same by (auto simp: kmem_owns_def free_blocks_def)
qed

text \<open>The state of a walk: the allocator owns \<open>xs\<close> and the page tables are in order.\<close>

definition vm_ok :: "u32 \<Rightarrow> u32 list \<Rightarrow> 'z vm_st_scheme \<Rightarrow> bool" where
  "vm_ok pg xs s \<longleftrightarrow> kmem_owns s xs \<and> pt_ok (mem s) pg xs (kend s)"

lemma vm_ok_store_pte:
  assumes "vm_ok pg xs s" "present (mem s) pg (unat (PDX va))"
  shows "vm_ok pg xs (s\<lparr>mem := store32 (mem s) (entry (tab_of (mem s) pg (unat (PDX va))) (unat (PTX va))) v\<rparr>)"
proof -
  have ok: "kmem_owns s xs" "pt_ok (mem s) pg xs (kend s)" using assms(1) by (simp_all add: vm_ok_def)
  have "tab_of (mem s) pg (unat (PDX va)) \<notin> set xs" using pt_okD(3) [OF ok(2) entry_less(1) assms(2)] by simp
  then show ?thesis using store_pte(1) [OF ok(2) assms(2) refl] kmem_owns_mem [OF ok(1) tab_aligned] store_entry_far [OF entry_less(2)]
    by (simp add: vm_ok_def)
qed

lemma zero_aligned: "page_aligned 0"
  by (simp add: page_aligned_def)

lemma walkpgdir_alloc:
  assumes "vm_ok pg xs s"
  shows "\<exists>pte t ys. walkpgdir pg va True s = Ok pte t \<and> vm_ok pg ys t \<and> pte_of (mem t) pg = pte_of (mem s) pg \<and> kend t = kend s
    \<and> (if pte = 0 then ys = [] else present (mem t) pg (unat (PDX va)) \<and> pte = entry (tab_of (mem t) pg (unat (PDX va))) (unat (PTX va)))"
proof -
  have ok: "kmem_owns s xs" "pt_ok (mem s) pg xs (kend s)" using assms by (simp_all add: vm_ok_def)
  let ?j = "unat (PDX va)"
  have nz: "entry (tab_of m pg ?j) (unat (PTX va)) \<noteq> 0" if "kpage e (tab_of m pg ?j)" for m e
  proof
    assume "entry (tab_of m pg ?j) (unat (PTX va)) = 0"
    then have "tab_of m pg ?j = 0 \<or> 4096 \<le> unat (0 - tab_of m pg ?j :: u32)"
      using pages_apart [OF zero_aligned tab_aligned [of m pg ?j]] by auto
    moreover have "unat (0 - tab_of m pg ?j :: u32) < 4096"
    proof -
      have "0 - tab_of m pg ?j = of_nat (4 * unat (PTX va))"
        using \<open>entry (tab_of m pg ?j) (unat (PTX va)) = 0\<close> by (simp only: entry_def diff_0 eq_neg_iff_add_eq_0 neg_eq_iff_add_eq_0)
      then show ?thesis using entry_less(2) [of va] by (simp add: unat_of_nat del: of_nat_mult)
    qed
    ultimately show False using kpage_nonzero [OF that] by simp
  qed
  show ?thesis
  proof (cases "present (mem s) pg ?j")
    case True
    have "walkpgdir pg va True s = Ok (entry (tab_of (mem s) pg ?j) (unat (PTX va))) s"
      using True by (simp add: walkpgdir_def entry_PDX present_def pde_of_def tab_of_def Let_def)
    then show ?thesis using True assms nz pt_okD(3) [OF ok(2) entry_less(1) True] by auto
  next
    case False
    then have np: "load32 (mem s) (entry pg ?j) AND PTE_P = 0" by (simp add: present_def pde_of_def)
    obtain t where t: "kalloc s = Ok (if xs = [] then 0 else hd xs) t" "kmem_owns t (tl xs)" "kend t = kend s" "mem t = mem s"
      using kalloc_lifo [OF ok(1)] by blast
    show ?thesis
    proof (cases xs)
      case Nil
      then have "walkpgdir pg va True s = Ok 0 t" using np t(1) by (simp add: walkpgdir_def entry_PDX Let_def)
      moreover have "vm_ok pg [] t" using t ok(2) Nil by (simp add: vm_ok_def)
      ultimately show ?thesis using t by auto
    next
      case (Cons x ys)
      have x: "kpage (kend s) x" "x \<notin> set ys" "x \<noteq> 0" using ok(1) Cons by (auto simp: kmem_owns_def free_blocks_def kpage_nonzero)
      let ?m = "store32 (memset (mem s) x 0 4096) (entry pg ?j) (V2P x OR PTE_P OR PTE_W OR PTE_U)"
      let ?u = "t\<lparr>mem := ?m\<rparr>"
      note nt = new_table [OF ok(2) [unfolded Cons] False x(1,2) refl]
      have pg: "page_aligned pg" "pg \<notin> set ys" using pt_okD(1,2) [OF ok(2)] Cons by auto
      have "kmem_owns (t\<lparr>mem := memset (mem s) x 0 4096\<rparr>) ys"
        using t(2,4) Cons x(2) by (intro kmem_owns_mem [OF _ kpage_aligned [OF x(1)]]) (auto simp: memset_eq word_less_nat_alt)
      from kmem_owns_mem [OF this pg, of ?m] have "kmem_owns ?u ys" using store_entry_far [OF entry_less(1)] by simp
      then have "vm_ok pg ys ?u" using nt(1) t(3) by (simp add: vm_ok_def)
      moreover have "walkpgdir pg va True s = Ok (entry x (unat (PTX va))) ?u"
        using np t(1,4) Cons x(3) by (simp add: walkpgdir_def entry_PDX Let_def)
      moreover have "entry x (unat (PTX va)) \<noteq> 0" using nz [of "kend s" ?m] x(1) nt(3) by simp
      ultimately show ?thesis using nt(2-4) t(3) by (auto simp: fun_eq_iff)
    qed
  qed
qed

text \<open>The entries after the pages from number \<open>n\<close> on, \<open>k\<close> of them, are mapped to \<open>pa\<close> and following.\<close>

definition mapped :: "nat \<Rightarrow> nat \<Rightarrow> u32 \<Rightarrow> u32 \<Rightarrow> (u32 \<Rightarrow> u32) \<Rightarrow> u32 \<Rightarrow> u32" where
  "mapped n k pa perm f w =
     (if n \<le> vpn w \<and> vpn w < n + k then (pa + of_nat (vpn w - n) * PGSIZE) OR perm OR PTE_P else f w)"

lemma vpn_next: "page_aligned a \<Longrightarrow> vpn a + 1 < 2 ^ 20 \<Longrightarrow> vpn (a + PGSIZE) = vpn a + 1"
  by (auto simp: vpn_def page_aligned_iff unat_word_ariths elim!: dvdE)

lemma mappages_step:
  assumes "vm_ok pg xs s" "pte_of (mem s) pg a AND PTE_P = 0"
  obtains (full) t where "mappages_loop pg a pa perm k s = Ok (- 1) t" "vm_ok pg [] t"
  | (step) t ys where "vm_ok pg ys t" "\<And>w. pte_of (mem t) pg w = (if vpn w = vpn a then pa OR perm OR PTE_P else pte_of (mem s) pg w)"
    "mappages_loop pg a pa perm k s = (case k of 0 \<Rightarrow> Ok 0 t | Suc k \<Rightarrow> mappages_loop pg (a + PGSIZE) (pa + PGSIZE) perm k t)"
proof -
  obtain pte t ys where w: "walkpgdir pg a True s = Ok pte t" "vm_ok pg ys t" "pte_of (mem t) pg = pte_of (mem s) pg"
    "if pte = 0 then ys = [] else present (mem t) pg (unat (PDX a)) \<and> pte = entry (tab_of (mem t) pg (unat (PDX a))) (unat (PTX a))"
    using walkpgdir_alloc [OF assms(1), of a] by blast
  show thesis
  proof (cases "pte = 0")
    case True
    then show thesis using w by (intro full [of t]) (simp_all add: mappages_loop.simps)
  next
    case False
    let ?t = "t\<lparr>mem := store32 (mem t) pte (pa OR perm OR PTE_P)\<rparr>"
    have p: "present (mem t) pg (unat (PDX a))" "pte = entry (tab_of (mem t) pg (unat (PDX a))) (unat (PTX a))" using w(4) False by auto
    have "pt_ok (mem t) pg ys (kend t)" using w(2) by (simp add: vm_ok_def)
    note st = store_pte(2) [OF this p(1) refl]
    have "load32 (mem t) pte AND PTE_P = 0" using assms(2) w(3) p by (metis pte_of_def)
    then have "mappages_loop pg a pa perm k s = (case k of 0 \<Rightarrow> Ok 0 ?t | Suc k \<Rightarrow> mappages_loop pg (a + PGSIZE) (pa + PGSIZE) perm k ?t)"
      using w(1) False by (simp add: mappages_loop.simps [of pg a] Let_def)
    then show thesis using vm_ok_store_pte [OF w(2) p(1), of "pa OR perm OR PTE_P"] st w(3) p(2) by (intro step [of ys ?t]) simp_all
  qed
qed

lemma mappages_loop_maps:
  assumes "vm_ok pg xs s" "page_aligned a" "vpn a + k < 2 ^ 20" "\<And>w. vpn a \<le> vpn w \<Longrightarrow> vpn w \<le> vpn a + k \<Longrightarrow> pte_of (mem s) pg w AND PTE_P = 0"
  shows "\<exists>r t ys. mappages_loop pg a pa perm k s = Ok r t \<and> vm_ok pg ys t \<and>
    (r = 0 \<and> pte_of (mem t) pg = mapped (vpn a) (Suc k) pa perm (pte_of (mem s) pg) \<or> r = - 1 \<and> ys = [])"
  using assms
proof (induction k arbitrary: a pa s xs)
  case (0 a pa s xs)
  have "pte_of (mem s) pg a AND PTE_P = 0" using 0(4) [of a] by simp
  from 0(1) this show ?case
  proof (cases rule: mappages_step [of pg xs s a pa perm 0])
    case (step t ys)
    then have "pte_of (mem t) pg = mapped (vpn a) 1 pa perm (pte_of (mem s) pg)" by (auto simp: mapped_def fun_eq_iff)
    then show ?thesis using step by auto
  qed auto
next
  case (Suc k a pa s xs)
  have "pte_of (mem s) pg a AND PTE_P = 0" using Suc.prems(4) [of a] by simp
  from Suc.prems(1) this show ?case
  proof (cases rule: mappages_step [of pg xs s a pa perm "Suc k"])
    case (step t ys)
    have n: "vpn (a + PGSIZE) = vpn a + 1" by (rule vpn_next) (use Suc.prems in auto)
    have al: "page_aligned (a + PGSIZE)" using Suc.prems(2) by (intro page_aligned_add) (simp_all add: page_aligned_def)
    have free: "pte_of (mem t) pg w AND PTE_P = 0" if "vpn (a + PGSIZE) \<le> vpn w" "vpn w \<le> vpn (a + PGSIZE) + k" for w
      using that n step(2) [of w] Suc.prems(4) [of w] by simp
    obtain r u zs where u: "mappages_loop pg (a + PGSIZE) (pa + PGSIZE) perm k t = Ok r u" "vm_ok pg zs u"
      "r = 0 \<and> pte_of (mem u) pg = mapped (vpn (a + PGSIZE)) (Suc k) (pa + PGSIZE) perm (pte_of (mem t) pg) \<or> r = - 1 \<and> zs = []"
      using Suc.IH [OF step(1) al _ free, of "pa + PGSIZE"] n Suc.prems(3) by auto
    have "mapped (vpn (a + PGSIZE)) (Suc k) (pa + PGSIZE) perm (pte_of (mem t) pg) w = mapped (vpn a) (Suc (Suc k)) pa perm (pte_of (mem s) pg) w" for w
    proof (cases "vpn a + 1 \<le> vpn w \<and> vpn w < vpn a + 1 + Suc k")
      case True
      then have "of_nat (vpn w - vpn a) = (of_nat (vpn w - (vpn a + 1)) + 1 :: u32)" by (simp add: of_nat_diff)
      then show ?thesis using True n by (simp add: mapped_def algebra_simps)
    next
      case False
      then show ?thesis using n step(2) [of w] by (auto simp: mapped_def)
    qed
    then show ?thesis using u step(3) by (auto simp: fun_eq_iff)
  qed auto
qed

lemma vpn_less: "vpn va < 2 ^ 20"
  using unat_u32_less [of va] by (simp add: vpn_def)

lemma vpn_PGROUNDDOWN: "unat (PGROUNDDOWN va) = 4096 * vpn va" "vpn (PGROUNDDOWN va) = vpn va" "page_aligned (PGROUNDDOWN va)"
proof -
  have "unat (PGROUNDDOWN va) = unat va - unat va mod 4096"
    by (simp add: PGROUNDDOWN_eq unat_sub unat_mod word_le_nat_alt)
  then show "unat (PGROUNDDOWN va) = 4096 * vpn va" by (simp add: vpn_def minus_mod_eq_mult_div)
  then show "vpn (PGROUNDDOWN va) = vpn va" by (simp add: vpn_def)
  show "page_aligned (PGROUNDDOWN va)" by (rule page_aligned_PGROUNDDOWN)
qed

lemma vpn_mono: "va \<le> wa \<Longrightarrow> vpn va \<le> vpn wa"
  by (simp add: vpn_def div_le_mono word_le_nat_alt)

lemma range_no_wrap: "0 < n \<Longrightarrow> unat va + unat n \<le> 2 ^ 32 \<Longrightarrow> va \<le> va + n - (1 :: u32)"
proof -
  assume n: "0 < n" and w: "unat va + unat n \<le> 2 ^ 32"
  have "unat (n - 1) = unat n - 1" using n by (simp add: unat_minus_one word_gt_0)
  moreover have "0 < unat n" using n by (simp add: word_less_nat_alt)
  ultimately have "unat (va + (n - 1)) = unat va + (unat n - 1)" using w by (simp add: unat_word_ariths)
  then show ?thesis by (simp add: word_le_nat_alt add_diff_eq)
qed

text \<open>
  C14: \<open>mappages\<close> maps exactly the pages that the bytes \<open>va .. va + n - 1\<close> touch, to consecutive physical pages from \<open>pa\<close> on with the
  permissions asked for, and leaves the translation of every other address of the 4 GB as it was, tables it has to allocate on the way
  included; the page tables stay disjoint from each other and from the free list.  It fails with -1 only when no free page is left.
\<close>

theorem mappages_maps:
  assumes "vm_ok pg xs s" "0 < n" "unat va + unat n \<le> 2 ^ 32"
    and "\<And>w. vpn va \<le> vpn w \<Longrightarrow> vpn w \<le> vpn (va + n - 1) \<Longrightarrow> pte_of (mem s) pg w AND PTE_P = 0"
  shows "\<exists>r t ys. mappages pg va n pa perm s = Ok r t \<and> vm_ok pg ys t \<and>
    (r = 0 \<and> (\<forall>w. pte_of (mem t) pg w =
        (if vpn va \<le> vpn w \<and> vpn w \<le> vpn (va + n - 1) then (pa + of_nat (vpn w - vpn va) * PGSIZE) OR perm OR PTE_P
         else pte_of (mem s) pg w))
     \<or> r = - 1 \<and> ys = [])"
proof -
  let ?l = "va + n - 1"
  have le: "vpn va \<le> vpn ?l" by (rule vpn_mono [OF range_no_wrap [OF assms(2,3)]])
  have "unat (PGROUNDDOWN ?l - PGROUNDDOWN va) = 4096 * vpn ?l - 4096 * vpn va"
    using le by (subst unat_sub) (simp_all add: vpn_PGROUNDDOWN word_le_nat_alt)
  then have k: "unat (PGROUNDDOWN ?l - PGROUNDDOWN va) div 4096 = vpn ?l - vpn va" by (simp flip: diff_mult_distrib2)
  have map: "mapped (vpn va) (Suc (vpn ?l - vpn va)) pa perm f w =
    (if vpn va \<le> vpn w \<and> vpn w \<le> vpn ?l then (pa + of_nat (vpn w - vpn va) * PGSIZE) OR perm OR PTE_P else f w)" for f w
    using le by (auto simp: mapped_def)
  have "\<exists>r t ys. mappages_loop pg (PGROUNDDOWN va) pa perm (vpn ?l - vpn va) s = Ok r t \<and> vm_ok pg ys t \<and>
    (r = 0 \<and> pte_of (mem t) pg = mapped (vpn va) (Suc (vpn ?l - vpn va)) pa perm (pte_of (mem s) pg) \<or> r = - 1 \<and> ys = [])"
    using mappages_loop_maps [OF assms(1) vpn_PGROUNDDOWN(3) [of va], of "vpn ?l - vpn va" pa perm] assms(4) le vpn_less [of ?l]
    unfolding vpn_PGROUNDDOWN(2) by simp
  then show ?thesis unfolding mappages_def Let_def k fun_eq_iff map .
qed

text \<open>A state with one free page, an empty page directory at \<^verbatim>\<open>0x80200000\<close>, and the kernel ending at \<^verbatim>\<open>0x80115000\<close>.\<close>

definition one_page :: vm_st where
  "one_page = \<lparr>mem = store32 (\<lambda>_. 0) 0x80116000 PGSIZE, lapicid = 0, iflag = (\<lambda>_. False), cr3 = 0, cpus = [],
     kmem_lock = \<lparr>locked = False, lname = ''kmem'', lcpu = None\<rparr>, use_lock = False,
     freelist = 0x80116000, kend = 0x80115000, kpgdir = 0, kdata = 0x80108000\<rparr>"

lemma one_page_ok: "vm_ok 0x80200000 [0x80116000] one_page" "pte_of (mem one_page) 0x80200000 w = 0"
proof -
  have x: "page_aligned 0x80116000" "page_aligned 0x80200000" by (simp_all add: page_aligned_def)
  have st: "store32 m 0x80116000 v = store32 m (entry 0x80116000 0) v" for m v by (simp add: entry_def)
  have pde: "pde_of (mem one_page) 0x80200000 j = 0" if "j < 1024" for j
    using load_store_entry_other [OF x(2,1) _ that, of 0] by (simp add: pde_of_def one_page_def st load32_def)
  then have np: "\<not> present (mem one_page) 0x80200000 j" if "j < 1024" for j using that by (simp add: present_def)
  show "pte_of (mem one_page) 0x80200000 w = 0" using np [OF entry_less(1)] by (simp add: pte_of_def)
  have "run_next (mem one_page) 0x80116000 = 0" "run_size (mem one_page) 0x80116000 = PGSIZE"
    by (simp_all add: run_next_def run_size_def one_page_def load32_store32 load32_store32_other) (simp add: load32_def)
  then have "kmem_owns one_page [0x80116000]"
    by (auto simp: kmem_owns_def free_blocks_def kmem_ready_def) (auto simp: one_page_def kpage_def V2P_def)
  then show "vm_ok 0x80200000 [0x80116000] one_page" using np x by (simp add: vm_ok_def pt_ok_def)
qed

theorem mappages_maps_witness:
  "\<exists>r t ys. mappages 0x80200000 0x1800 0x1000 0x200000 (PTE_W OR PTE_U) one_page = Ok r t \<and> vm_ok 0x80200000 ys t \<and>
    (r = 0 \<and> (\<forall>w. pte_of (mem t) 0x80200000 w =
        (if 1 \<le> vpn w \<and> vpn w \<le> 2 then (0x200000 + of_nat (vpn w - 1) * PGSIZE) OR (PTE_W OR PTE_U) OR PTE_P else 0))
     \<or> r = - 1 \<and> ys = [])"
proof -
  have v: "vpn 0x1800 = 1" "vpn (0x1800 + 0x1000 - 1) = 2" by (simp_all add: vpn_def)
  show ?thesis using mappages_maps [OF one_page_ok(1), of "0x1000" "0x1800" "0x200000" "PTE_W OR PTE_U"] unfolding v one_page_ok(2) by simp
qed

text \<open>What the paging hardware makes of the page tables.\<close>

lemma translate_pte_of:
  assumes "va < KERNBASE" "cr3 s = V2P pg"
  shows "translate s va = (let e = pte_of (mem s) pg va in if e AND PTE_P = 0 then None else Some (P2V (PTE_ADDR e) OR (va AND 0xFFF)))"
  using assms by (auto simp: translate_def pte_of_def present_def pde_of_def tab_of_def entry_PDX Let_def P2V_def V2P_def not_le)

end
