(* ===== verification/Pipe_Fifo.thy ===== *)
theory Pipe_Fifo
  imports File
begin

text \<open>
  Pipes refine a bounded byte queue (\<^verbatim>\<open>pipe.c\<close>): \<open>pipe_queue\<close> is the contents of the ring between its two counters, and the
  locale \<open>bounded_queue\<close> is interpreted on the two ring assignments.  Writers append, readers take from the front, and
  no outcome loses, reorders or invents a byte.
\<close>

section \<open>The ring as a queue\<close>

definition pipe_queue :: "pipe \<Rightarrow> u8 list" where
  "pipe_queue x = ring 512 (pdata x) (nread x) (nwrite x)"

lemma pipe_queue_put: "length (pipe_queue x) < 512 \<Longrightarrow> pipe_queue (pipe_put c x) = pipe_queue x @ [c]"
  using ring_put [of 9 "nwrite x" "nread x" "pdata x" c] by (simp add: pipe_queue_def pipe_put_def)

lemma pipe_queue_get: "pipe_queue x = c # cs \<Longrightarrow> pipe_get x = (d, y) \<Longrightarrow> d = c \<and> pipe_queue y = cs"
  using ring_get [of "nread x" "nwrite x" 512 "pdata x"]
  by (cases "nread x = nwrite x") (auto simp: pipe_queue_def pipe_get_def)

interpretation pq: bounded_queue pipe_queue pipe_put pipe_get 512
  by unfold_locales (fact pipe_queue_put pipe_queue_get)+

lemma pipe_empty_iff: "nread x = nwrite x \<longleftrightarrow> pipe_queue x = []"
  by (simp add: pipe_queue_def)

lemma pipe_full_iff: "nwrite x = nread x + 512 \<longleftrightarrow> length (pipe_queue x) = 512"
proof -
  have "nwrite x = nread x + 512 \<longleftrightarrow> nwrite x - nread x = 512" by (auto simp: algebra_simps)
  also have "\<dots> \<longleftrightarrow> unat (nwrite x - nread x) = 512" by (auto simp: word_unat_eq_iff)
  finally show ?thesis by (simp add: pipe_queue_def)
qed

section \<open>What the operations leave alone\<close>

text \<open>The observation of pipe \<open>p\<close> that its users share: contents and open ends.\<close>

definition pipe_view :: "u32 \<Rightarrow> 'z file_st_scheme \<Rightarrow> u8 list \<times> bool \<times> bool" where
  "pipe_view p s = (pipe_queue (pipes s p), readopen (pipes s p), writeopen (pipes s p))"

text \<open>Memory and the page directory register: what user bytes are read from.\<close>

definition user_view :: "'z machine_scheme \<Rightarrow> memory \<times> u32" where
  "user_view s = (mem s, cr3 s)"

lemma view_quiet [simp]: "table_quiet (pipe_view p)" "table_quiet user_view" "quiet user_view"
  "pipe_view p (pipe_lock_update q f s) = pipe_view p s" "user_view (pipe_lock_update q f s) = user_view s"
  by (simp_all add: table_quiet_def quiet_def pipe_view_def user_view_def pipe_lock_update_def upd_pipe_def pipe_queue_def)

lemma translate_view: "user_view s = user_view t \<Longrightarrow> translate s = translate t"
  by (rule ext) (simp add: user_view_def translate_def Let_def)

lemma ubyte_view: "user_view s = user_view t \<Longrightarrow> ubyte s = ubyte t"
  by (rule ext) (simp add: user_view_def ubyte_def translate_def Let_def)

lemma user_view_upd [simp]: "user_view (upd_pipe p f s) = user_view s"
  by (simp add: user_view_def upd_pipe_def)

lemma pipe_view_upd: "pipe_view p (upd_pipe p f s) = (pipe_queue (f (pipes s p)), readopen (f (pipes s p)), writeopen (f (pipes s p)))"
  by (simp add: pipe_view_def upd_pipe_def)

text \<open>The tail of \<^verbatim>\<open>pipewrite\<close> and the test for giving up keep both views.\<close>

lemma frame_pipe_release:
  "pipe_view q (kstate (release (pipe_lock p) (pipe_lock_update p) s)) = pipe_view q s"
  "user_view (kstate (release (pipe_lock p) (pipe_lock_update p) s)) = user_view s"
  by (rule frame_release; simp add: table_quietD)+

lemma frame_pipe_acquire:
  "pipe_view q (kstate (acquire (pipe_lock p) (pipe_lock_update p) s)) = pipe_view q s"
  "user_view (kstate (acquire (pipe_lock p) (pipe_lock_update p) s)) = user_view s"
  by (rule frame_acquire; simp add: table_quietD)+

section \<open>Writing\<close>

text \<open>\<open>cs\<close> are the bytes of user memory from \<open>a\<close> on.\<close>

definition user_bytes :: "'z machine_scheme \<Rightarrow> u32 \<Rightarrow> u8 list \<Rightarrow> bool" where
  "user_bytes s a cs \<longleftrightarrow> (\<forall>i < length cs. ubyte s (a + of_nat i) = Some (cs ! i))"

lemma user_bytes_Nil [simp]: "user_bytes s a []"
  by (simp add: user_bytes_def)

lemma user_bytes_Cons: "user_bytes s a (c # cs) \<longleftrightarrow> ubyte s a = Some c \<and> user_bytes s (a + 1) cs"
proof -
  have "(\<forall>i < Suc n. P i) \<longleftrightarrow> P 0 \<and> (\<forall>i < n. P (Suc i))" for n and P :: "nat \<Rightarrow> bool"
    by (auto simp: less_Suc_eq_0_disj)
  then show ?thesis by (simp add: user_bytes_def add.assoc)
qed

text \<open>
  The outcome \<open>r\<close> of a writer that found the pipe as \<open>x\<close>, with \<open>k\<close> bytes at \<open>a\<close> left to write: it has appended
  some of them, all of them if it reports success, and it sleeps only on a full pipe with a reader.
\<close>

definition write_outcome ::
  "u32 \<Rightarrow> u32 \<Rightarrow> nat \<Rightarrow> int \<Rightarrow> 'z file_st_scheme \<Rightarrow> (int, 'z file_st_scheme) kres \<Rightarrow> bool" where
  "write_outcome p a k n s r \<longleftrightarrow>
     (\<exists>cs. user_bytes s a cs \<and> length cs \<le> k
        \<and> pipe_view p (kstate r) = (pipe_queue (pipes s p) @ cs, readopen (pipes s p), writeopen (pipes s p))
        \<and> length (pipe_queue (pipes s p) @ cs) \<le> 512
        \<and> (\<forall>v t. r = Ok v t \<longrightarrow> v = n \<and> length cs = k \<or> v = - 1 \<and> length (pipe_queue (pipes s p) @ cs) = 512)
        \<and> (\<forall>t. r = Swtch t \<longrightarrow> length (pipe_queue (pipes s p) @ cs) = 512 \<and> readopen (pipes s p)))"

lemma frame_quit:
  "pipe_view p (kstate (andthen (myproc s) (\<lambda>q s. andthen (proc_ptr q s) (\<lambda>i s. Ok (killed (ptable s ! i)) s)))) = pipe_view p s"
  by (rule frame_andthen [where h = "pipe_view p"], simp add: frame_myproc table_quietD)
    (rule frame_andthen [where h = "pipe_view p"], simp_all)

lemma frame_full:
  "pipe_view p (kstate (andthen (if \<not> readopen (pipes s p) then Ok True s
       else andthen (myproc s) (\<lambda>q s. andthen (proc_ptr q s) (\<lambda>i s. Ok (killed (ptable s ! i)) s))) (\<lambda>quit s.
     if quit then andthen (release (pipe_lock p) (pipe_lock_update p) s) (\<lambda>_ s. Ok (- 1) s)
     else andthen (wakeup (Some (ChPipeRead p)) s) (\<lambda>_ s.
          sleep (Some (ChPipeWrite p)) (Some (OtherLock (pipe_lock p) (pipe_lock_update p))) s)) :: (int, _) kres)) = pipe_view p s"
proof (rule frame_andthen [where h = "pipe_view p"], goal_cases)
  case 1
  then show ?case by (simp add: frame_quit)
next
  case (2 quit t)
  have "pipe_view p (kstate (andthen (release (pipe_lock p) (pipe_lock_update p) t) (\<lambda>_ s. Ok (- 1) s) :: (int, _) kres)) = pipe_view p t"
    by (rule frame_andthen [where h = "pipe_view p"]) (simp_all add: frame_pipe_release)
  moreover have "pipe_view p (kstate (andthen (wakeup (Some (ChPipeRead p)) t) (\<lambda>_ s.
      sleep (Some (ChPipeWrite p)) (Some (OtherLock (pipe_lock p) (pipe_lock_update p))) s) :: (int, _) kres)) = pipe_view p t"
    by (rule frame_andthen [where h = "pipe_view p"]) (simp_all add: frame_wakeup frame_sleep)
  ultimately show ?case using 2 by simp
qed

lemma pipewrite_loop_outcome:
  assumes "length (pipe_queue (pipes s p)) \<le> 512"
  shows "write_outcome p a k n s (pipewrite_loop p a k n s)"
  using assms
proof (induction p a k n s rule: pipewrite_loop.induct)
  case (1 p a n s)
  let ?r = "pipewrite_loop p a 0 n s"
  have "pipe_view p (kstate ?r) = pipe_view p s"
    by (auto simp: frame_wakeup frame_pipe_release intro!: frame_andthen [where h = "pipe_view p"])
  moreover have "\<forall>t. ?r \<noteq> Swtch t" by (simp add: andthen_eq_Swtch_iff)
  moreover have "\<forall>v t. ?r = Ok v t \<longrightarrow> v = n" by (auto simp: andthen_eq_Ok_iff)
  ultimately show ?case using 1
    unfolding write_outcome_def by (intro exI [of _ "[]"]) (simp add: pipe_view_def)
next
  case (2 p a k n s)
  show ?case
  proof (cases "nwrite (pipes s p) = nread (pipes s p) + PIPESIZE")
    case True
    let ?r = "pipewrite_loop p a (Suc k) n s"
    have "pipe_view p (kstate ?r) = pipe_view p s"
      unfolding pipewrite_loop.simps if_P [OF True] by (rule frame_full)
    moreover have "\<forall>t. ?r = Swtch t \<longrightarrow> readopen (pipes s p)"
      unfolding pipewrite_loop.simps if_P [OF True]
      by (cases "readopen (pipes s p)") (auto simp: andthen_eq_Swtch_iff)
    moreover have "\<forall>v t. ?r = Ok v t \<longrightarrow> v = - 1"
      unfolding pipewrite_loop.simps if_P [OF True] by (auto simp: andthen_eq_Ok_iff split: if_splits)
    moreover have "length (pipe_queue (pipes s p)) = 512" using True by (simp only: pipe_full_iff)
    ultimately show ?thesis
      unfolding write_outcome_def by (intro exI [of _ "[]"]) (simp add: pipe_view_def del: pipewrite_loop.simps)
  next
    case False
    then have lt: "length (pipe_queue (pipes s p)) < 512" using 2(2) by (simp add: pipe_full_iff)
    show ?thesis
    proof (cases "translate s a")
      case None
      with False lt show ?thesis unfolding write_outcome_def
        by (intro exI [of _ "[]"]) (simp add: deref8_def pipe_view_def)
    next
      case (Some b)
      let ?s = "upd_pipe p (pipe_put (mem s b)) s"
      have d: "deref8 a s = Ok (mem s b) s" using Some by (simp add: deref8_def)
      have q: "pipe_queue (pipes ?s p) = pipe_queue (pipes s p) @ [mem s b]"
        by (simp add: upd_pipe_def pipe_queue_put lt)
      have o: "readopen (pipes ?s p) = readopen (pipes s p)" "writeopen (pipes ?s p) = writeopen (pipes s p)"
        by (simp_all add: upd_pipe_def pipe_put_def)
      have "write_outcome p (a + 1) k n ?s (pipewrite_loop p (a + 1) k n ?s)"
        by (rule 2(1) [OF False d]) (use q lt in simp)
      then obtain cs where cs: "user_bytes ?s (a + 1) cs" "length cs \<le> k"
        "pipe_view p (kstate (pipewrite_loop p (a + 1) k n ?s)) = (pipe_queue (pipes s p) @ mem s b # cs, readopen (pipes s p), writeopen (pipes s p))"
        "length (pipe_queue (pipes s p) @ mem s b # cs) \<le> 512"
        "\<forall>v t. pipewrite_loop p (a + 1) k n ?s = Ok v t \<longrightarrow> v = n \<and> length cs = k \<or> v = - 1 \<and> length (pipe_queue (pipes s p) @ mem s b # cs) = 512"
        "\<forall>t. pipewrite_loop p (a + 1) k n ?s = Swtch t \<longrightarrow> length (pipe_queue (pipes s p) @ mem s b # cs) = 512 \<and> readopen (pipes s p)"
        unfolding write_outcome_def q o by auto
      have "user_bytes s a (mem s b # cs)"
        using cs(1) ubyte_view [of ?s s] Some by (simp add: user_bytes_Cons) (simp add: user_bytes_def ubyte_def)
      with cs(2-) False d show ?thesis unfolding write_outcome_def by (intro exI [of _ "mem s b # cs"]) simp
    qed
  qed
qed

section \<open>Success\<close>

text \<open>With room for all of its bytes the loop runs to its end.\<close>

lemma pipewrite_loop_room:
  assumes "user_bytes s a cs" "length (pipe_queue (pipes s p)) + length cs \<le> 512"
  shows "pipewrite_loop p a (length cs) n s = pipewrite_loop p (a + of_nat (length cs)) 0 n (upd_pipe p (fold pipe_put cs) s)"
  using assms
proof (induction cs arbitrary: s a)
  case Nil
  then show ?case by (simp add: upd_pipe_def)
next
  case (Cons c cs)
  have nf: "nwrite (pipes s p) \<noteq> nread (pipes s p) + PIPESIZE"
    unfolding pipe_full_iff using Cons.prems(2) by simp
  have d: "deref8 a s = Ok c s" using Cons.prems(1) by (auto simp: user_bytes_Cons deref8_def ubyte_def split: option.splits)
  have q: "pipe_queue (pipes (upd_pipe p (pipe_put c) s) p) = pipe_queue (pipes s p) @ [c]"
    using Cons.prems(2) by (simp add: upd_pipe_def pipe_queue_put)
  have "pipewrite_loop p a (length (c # cs)) n s = pipewrite_loop p (a + 1) (length cs) n (upd_pipe p (pipe_put c) s)"
    using nf d by simp
  also have "\<dots> = pipewrite_loop p (a + 1 + of_nat (length cs)) 0 n (upd_pipe p (fold pipe_put cs) (upd_pipe p (pipe_put c) s))"
  proof (rule Cons.IH)
    show "user_bytes (upd_pipe p (pipe_put c) s) (a + 1) cs"
      using Cons.prems(1) ubyte_view [of "upd_pipe p (pipe_put c) s" s] by (simp add: user_bytes_Cons) (simp add: user_bytes_def)
  qed (use Cons.prems(2) q in simp)
  also have "upd_pipe p (fold pipe_put cs) (upd_pipe p (pipe_put c) s) = upd_pipe p (fold pipe_put (c # cs)) s"
    by (simp add: upd_pipe_def)
  also have "a + 1 + of_nat (length cs) = a + of_nat (length (c # cs))" by simp
  finally show ?case .
qed

lemma fold_pipe_put_fields:
  "plock (fold pipe_put cs x) = plock x" "readopen (fold pipe_put cs x) = readopen x" "writeopen (fold pipe_put cs x) = writeopen x"
  by (induction cs arbitrary: x) (simp_all add: pipe_put_def)

lemma upd_pipe_fields [simp]:
  "cpus (upd_pipe p f s) = cpus s" "iflag (upd_pipe p f s) = iflag s" "lapicid (upd_pipe p f s) = lapicid s"
  "ptable_lock (upd_pipe p f s) = ptable_lock s" "ptable (upd_pipe p f s) = ptable s"
  "plock (f (pipes s p)) = plock (pipes s p) \<Longrightarrow> pipe_lock p (upd_pipe p f s) = pipe_lock p s"
  by (simp_all add: upd_pipe_def pipe_lock_def)

lemma held_pipe_fields [simp]:
  "ptable (pk.held p i s) = ptable s" "ptable_lock (pk.held p i s) = ptable_lock s" "lapicid (pk.held p i s) = lapicid s"
  "user_view (pk.held p i s) = user_view s" "pipe_queue (pipes (pk.held p i s) p) = pipe_queue (pipes s p)"
  by (simp_all add: pk.held_def pushed_def user_view_def pipe_lock_update_def upd_pipe_def pipe_queue_def)

text \<open>
  C20: a writer whose bytes all fit succeeds at once: \<^verbatim>\<open>pipewrite\<close> returns the count and the pipe holds what it held
  before followed by the caller's bytes in order, whatever the positions of the 32-bit counters.
\<close>

theorem pipewrite_appends:
  assumes "calling i q s" "\<not> locked (pipe_lock p s)" "lcpu (pipe_lock p s) = None"
    and "user_bytes s a cs" "length (pipe_queue (pipes s p)) + length cs \<le> 512"
  shows "\<exists>t. pipewrite p a (int (length cs)) s = Ok (int (length cs)) t
    \<and> pipe_queue (pipes t p) = pipe_queue (pipes s p) @ cs \<and> user_view t = user_view s"
proof -
  have r: "proc_ready i s" "on_cpu s i" "length (ptable s) = NPROC" using assms(1) by (simp_all add: calling_def proc_ready_def)
  let ?h = "pk.held p i s"
  let ?t = "upd_pipe p (fold pipe_put cs) ?h"
  have "acquire (pipe_lock p) (pipe_lock_update p) s = Ok () ?h" by (rule pk.acquire_free [OF r(2) assms(2)])
  moreover have "user_bytes ?h a cs" using assms(4) ubyte_view [of ?h s] by (simp add: user_bytes_def)
  ultimately have w: "pipewrite p a (int (length cs)) s
      = pipewrite_loop p (a + of_nat (length cs)) 0 (int (length cs)) ?t"
    using pipewrite_loop_room [of ?h a cs p] assms(5) by (simp add: pipewrite_def)
  obtain v where v: "andthen (wakeup (Some (ChPipeRead p)) ?t) (\<lambda>_ s. release (pipe_lock p) (pipe_lock_update p) s) = Ok () v"
    using pk.wakeup_release [OF r(1) assms(2,3), of ?t] r(3) by (auto simp: fold_pipe_put_fields)
  have "pipe_view p v = pipe_view p ?t \<and> user_view v = user_view ?t"
    using frame_andthen [where h = "pipe_view p" and s = ?t and r = "wakeup (Some (ChPipeRead p)) ?t" and f = "\<lambda>_ s. release (pipe_lock p) (pipe_lock_update p) s"]
      frame_andthen [where h = "user_view" and s = ?t and r = "wakeup (Some (ChPipeRead p)) ?t" and f = "\<lambda>_ s. release (pipe_lock p) (pipe_lock_update p) s"]
    by (simp add: v frame_wakeup frame_pipe_release)
  moreover have "pipe_queue (pipes ?t p) = pipe_queue (pipes s p) @ cs"
    using pq.puts_queue [of "pipes ?h p" cs] assms(5) by (simp add: upd_pipe_def)
  ultimately have "pipe_queue (pipes v p) = pipe_queue (pipes s p) @ cs \<and> user_view v = user_view s"
    by (simp add: pipe_view_def)
  moreover have "pipewrite p a (int (length cs)) s = Ok (int (length cs)) v"
    using v by (auto simp: w andthen_eq_Ok_iff)
  ultimately show ?thesis by blast
qed

section \<open>Reading\<close>

lemma uwrite_view:
  assumes "uwrite a cs s = Ok () v" "user_view s = user_view t"
  shows "uwrite a cs t = Ok () (t\<lparr>mem := mem v\<rparr>) \<and> cr3 v = cr3 s"
  using assms
proof (induction cs arbitrary: a s t)
  case Nil
  then show ?case by (simp add: user_view_def)
next
  case (Cons c cs)
  obtain b where b: "translate s a = Some b" "uwrite (a + 1) cs (s\<lparr>mem := (mem s)(b := c)\<rparr>) = Ok () v"
    using Cons.prems(1) by (auto split: option.splits)
  have "translate t a = Some b"
    using b(1) translate_view [OF Cons.prems(2)] by simp
  moreover have "user_view (s\<lparr>mem := (mem s)(b := c)\<rparr>) = user_view (t\<lparr>mem := (mem t)(b := c)\<rparr>)"
    using Cons.prems(2) by (simp add: user_view_def)
  ultimately show ?case using Cons.IH [OF b(2)] by simp
qed

lemma uwrite_snoc_split:
  "uwrite a (c # cs) s = Ok () v \<Longrightarrow> \<exists>w. uwrite a [c] s = Ok () w \<and> uwrite (a + 1) cs w = Ok () v"
  by (auto split: option.splits)

text \<open>The copy loop moves the oldest bytes, as many as are wanted and there are.\<close>

lemma piperead_copy_moves:
  assumes "uwrite a (take k (pipe_queue (pipes s p))) s = Ok () v"
  shows "\<exists>x. piperead_copy p a k s
      = Ok (int (min k (length (pipe_queue (pipes s p))))) ((upd_pipe p (\<lambda>_. x) s)\<lparr>mem := mem v\<rparr>)
    \<and> plock x = plock (pipes s p) \<and> pipe_queue x = drop k (pipe_queue (pipes s p))"
  using assms
proof (induction k arbitrary: a s v)
  case 0
  have "s = (upd_pipe p (\<lambda>_. pipes s p) s)\<lparr>mem := mem v\<rparr>" using 0 by (simp add: upd_pipe_def)
  then show ?case by (intro exI [of _ "pipes s p"]) simp
next
  case (Suc k)
  show ?case
  proof (cases "pipe_queue (pipes s p)")
    case Nil
    then have "s = (upd_pipe p (\<lambda>_. pipes s p) s)\<lparr>mem := mem v\<rparr>" using Suc.prems by (simp add: upd_pipe_def)
    then show ?thesis using Nil by (intro exI [of _ "pipes s p"]) (simp add: pipe_empty_iff)
  next
    case (Cons c cs)
    obtain d y where g: "pipe_get (pipes s p) = (d, y)" by fastforce
    have gq: "d = c" "pipe_queue y = cs" using pipe_queue_get [OF Cons g] by simp_all
    have py: "plock y = plock (pipes s p)" using g by (auto simp: pipe_get_def)
    let ?s = "upd_pipe p (\<lambda>_. y) s"
    obtain w where w: "uwrite a [c] s = Ok () w" "uwrite (a + 1) (take k cs) w = Ok () v"
      using uwrite_snoc_split Suc.prems Cons by fastforce
    let ?w = "?s\<lparr>mem := mem w\<rparr>"
    have s1: "uwrite a [c] ?s = Ok () ?w" using uwrite_view [OF w(1), of ?s] by simp
    have "user_view w = user_view ?w" using uwrite_view [OF w(1), of s] by (simp add: user_view_def upd_pipe_def)
    then have "uwrite (a + 1) (take k cs) ?w = Ok () (?w\<lparr>mem := mem v\<rparr>)" using uwrite_view [OF w(2)] by blast
    moreover have "pipe_queue (pipes ?w p) = cs" using gq by (simp add: upd_pipe_def)
    ultimately obtain x where x: "piperead_copy p (a + 1) k ?w
        = Ok (int (min k (length cs))) ((upd_pipe p (\<lambda>_. x) ?w)\<lparr>mem := mem v\<rparr>)"
      "plock x = plock (pipes ?w p)" "pipe_queue x = drop k cs"
      using Suc.IH [of "a + 1" ?w "?w\<lparr>mem := mem v\<rparr>"] by auto
    have "nread (pipes s p) \<noteq> nwrite (pipes s p)" using Cons by (simp add: pipe_empty_iff)
    then have "piperead_copy p a (Suc k) s = Ok (int (min k (length cs)) + 1) ((upd_pipe p (\<lambda>_. x) ?w)\<lparr>mem := mem v\<rparr>)"
      using s1 x(1) by (simp add: g gq(1))
    moreover have "(upd_pipe p (\<lambda>_. x) ?w)\<lparr>mem := mem v\<rparr> = (upd_pipe p (\<lambda>_. x) s)\<lparr>mem := mem v\<rparr>"
      by (simp add: upd_pipe_def)
    ultimately show ?thesis using x py Cons by (intro exI [of _ x]) (simp add: upd_pipe_def)
  qed
qed

text \<open>
  C21: a reader of a pipe that holds bytes, or whose write end is closed, gets the oldest bytes in the order they
  were written: \<^verbatim>\<open>piperead\<close> returns how many, at most what was asked for and what there was, stores exactly these
  in user memory and removes exactly these from the pipe.  On an empty pipe with no writer it returns 0.
\<close>

theorem piperead_takes:
  assumes "calling i q s" "\<not> locked (pipe_lock p s)" "lcpu (pipe_lock p s) = None"
    and "pipe_queue (pipes s p) \<noteq> [] \<or> \<not> writeopen (pipes s p)"
    and "uwrite a (take (nat n) (pipe_queue (pipes s p))) s = Ok () v"
  shows "\<exists>t. piperead p a n s = Ok (int (min (nat n) (length (pipe_queue (pipes s p))))) t
    \<and> pipe_queue (pipes t p) = drop (nat n) (pipe_queue (pipes s p)) \<and> user_view t = user_view v"
proof -
  have r: "proc_ready i s" "on_cpu s i" "length (ptable s) = NPROC" using assms(1) by (simp_all add: calling_def proc_ready_def)
  let ?h = "pk.held p i s"
  let ?q = "pipe_queue (pipes s p)"
  have acq: "acquire (pipe_lock p) (pipe_lock_update p) s = Ok () ?h" by (rule pk.acquire_free [OF r(2) assms(2)])
  have "writeopen (pipes ?h p) = writeopen (pipes s p)"
    by (simp add: pk.held_def pushed_def pipe_lock_update_def upd_pipe_def)
  then have go: "\<not> (nread (pipes ?h p) = nwrite (pipes ?h p) \<and> writeopen (pipes ?h p))"
    using assms(4) unfolding pipe_empty_iff by auto
  have wv: "uwrite a (take (nat n) ?q) ?h = Ok () (?h\<lparr>mem := mem v\<rparr>)" "cr3 v = cr3 s"
    using uwrite_view [OF assms(5), of ?h] by simp_all
  have h: "pipe_queue (pipes ?h p) = ?q" by simp
  obtain x where x: "piperead_copy p a (nat n) ?h = Ok (int (min (nat n) (length ?q))) ((upd_pipe p (\<lambda>_. x) ?h)\<lparr>mem := mem v\<rparr>)"
    "plock x = plock (pipes ?h p)" "pipe_queue x = drop (nat n) ?q"
    using piperead_copy_moves [of a "nat n" ?h p, unfolded h, OF wv(1)] by auto
  let ?t = "(upd_pipe p (\<lambda>_. x) ?h)\<lparr>mem := mem v\<rparr>"
  obtain w where w: "andthen (wakeup (Some (ChPipeWrite p)) ?t) (\<lambda>_ s. release (pipe_lock p) (pipe_lock_update p) s) = Ok () w"
    using pk.wakeup_release [OF r(1) assms(2,3), of ?t] r(3) x(2) by (auto simp: pipe_lock_def upd_pipe_def)
  have "pipe_view p w = pipe_view p ?t \<and> user_view w = user_view ?t"
    using frame_andthen [where h = "pipe_view p" and s = ?t and r = "wakeup (Some (ChPipeWrite p)) ?t" and f = "\<lambda>_ s. release (pipe_lock p) (pipe_lock_update p) s"]
      frame_andthen [where h = "user_view" and s = ?t and r = "wakeup (Some (ChPipeWrite p)) ?t" and f = "\<lambda>_ s. release (pipe_lock p) (pipe_lock_update p) s"]
    by (simp add: w frame_wakeup frame_pipe_release)
  moreover have "cr3 ?h = cr3 s" by (simp add: pk.held_def pushed_def pipe_lock_update_def upd_pipe_def)
  ultimately have "pipe_queue (pipes w p) = drop (nat n) ?q \<and> user_view w = user_view v"
    using x(3) wv(2) by (simp add: pipe_view_def user_view_def upd_pipe_def)
  moreover have "piperead p a n s = Ok (int (min (nat n) (length ?q))) w"
    using w by (auto simp: piperead_def acq piperead_loop_def go x(1) andthen_eq_Ok_iff)
  ultimately show ?thesis by blast
qed

section \<open>An example\<close>

lemma file_demo_pipe: "\<not> locked (pipe_lock p file_demo)" "lcpu (pipe_lock p file_demo) = None"
  "pipe_queue (pipes file_demo p) = [0x78]"
  by (simp_all add: pipe_lock_def file_demo_def zero_lock_def pipe_queue_def ring_def)

lemma file_demo_translate: "translate file_demo 0x100 = Some 0x80202100" "translate file_demo 0x101 = Some 0x80202101"
  by (simp_all add: translate_def file_demo_def PDX_def PTX_def PTE_ADDR_def P2V_def load32_store32_other load32_store32)

lemma file_demo_bytes: "user_bytes file_demo 0x100 [0x61, 0x62]"
proof -
  have "mem file_demo 0x80202100 = 0x61" "mem file_demo 0x80202101 = 0x62" by (simp_all add: file_demo_def store32_def)
  then show ?thesis by (simp add: user_bytes_Cons ubyte_def file_demo_translate)
qed

theorem pipewrite_appends_witness:
  "\<exists>t. pipewrite 0x80116000 0x100 2 file_demo = Ok 2 t \<and> pipe_queue (pipes t 0x80116000) = [0x78, 0x61, 0x62]"
  using pipewrite_appends [OF file_demo_calling file_demo_pipe(1,2) file_demo_bytes, of "0x80116000"]
  by (auto simp: file_demo_pipe(3))

theorem piperead_takes_witness:
  "\<exists>t. piperead 0x80116000 0x100 5 file_demo = Ok 1 t \<and> pipe_queue (pipes t 0x80116000) = [] \<and> mem t 0x80202100 = 0x78"
proof -
  have "uwrite 0x100 (take (nat 5) (pipe_queue (pipes file_demo 0x80116000))) file_demo
      = Ok () (file_demo\<lparr>mem := (mem file_demo)(0x80202100 := 0x78)\<rparr>)"
    by (simp add: file_demo_pipe file_demo_translate)
  from piperead_takes [OF file_demo_calling file_demo_pipe(1,2) _ this] show ?thesis
    by (auto simp: file_demo_pipe(3) user_view_def)
qed

section \<open>Every outcome\<close>

lemma write_outcome_view:
  assumes "pipe_view p t = pipe_view p s" "user_view t = user_view s"
  shows "write_outcome p a k n t r \<longleftrightarrow> write_outcome p a k n s r"
  using assms(1) ubyte_view [OF assms(2)] by (simp add: write_outcome_def pipe_view_def user_bytes_def)

text \<open>
  C22: however \<^verbatim>\<open>pipewrite\<close> ends, the pipe has gained a prefix of the caller's bytes and lost nothing, and never holds
  more than 512 bytes.  It reports success only when all bytes are in, and gives up or goes to sleep only when the
  pipe is full; it sleeps only while the read end is open.
\<close>

theorem pipewrite_outcome:
  assumes "length (pipe_queue (pipes s p)) \<le> 512"
  shows "write_outcome p a (nat n) n s (pipewrite p a n s)"
proof -
  let ?q = "acquire (pipe_lock p) (pipe_lock_update p) s"
  have v: "pipe_view p (kstate ?q) = pipe_view p s" "user_view (kstate ?q) = user_view s"
    by (fact frame_pipe_acquire)+
  show ?thesis
  proof (cases "\<exists>t. ?q = Ok () t")
    case True
    then obtain t where t: "?q = Ok () t" by blast
    then have e: "pipe_view p t = pipe_view p s" "user_view t = user_view s" using v by simp_all
    then have "length (pipe_queue (pipes t p)) \<le> 512" using assms by (simp add: pipe_view_def)
    from pipewrite_loop_outcome [OF this] show ?thesis
      by (simp add: pipewrite_def t write_outcome_view [OF e])
  next
    case False
    then have "write_outcome p a (nat n) n s (andthen ?q (\<lambda>_ s. pipewrite_loop p a (nat n) n s))"
      using v assms unfolding write_outcome_def by (intro exI [of _ "[]"]) (cases ?q; simp add: pipe_view_def)
    then show ?thesis by (simp add: pipewrite_def)
  qed
qed

theorem pipewrite_outcome_witness:
  "\<exists>cs. user_bytes file_demo 0x100 cs \<and> length cs \<le> 600
     \<and> fst (pipe_view 0x80116000 (kstate (pipewrite 0x80116000 0x100 600 file_demo))) = [0x78] @ cs \<and> length cs < 512"
  using pipewrite_outcome [of file_demo "0x80116000" "0x100" 600]
  by (auto simp: write_outcome_def file_demo_pipe)

end
