(* ===== verification/Console_Line.thy ===== *)
theory Console_Line
  imports File
begin

text \<open>
  The console (\<^verbatim>\<open>console.c\<close>): the cursor stays on the screen, the interrupt handler implements line editing over the
  input ring, and \<^verbatim>\<open>printint\<close> prints numbers that read back as themselves.
\<close>

section \<open>The screen\<close>

text \<open>The cursor is on the screen, which has 2000 cells of two bytes.\<close>

definition on_screen :: "'z cons_st_scheme \<Rightarrow> bool" where
  "on_screen s \<longleftrightarrow> 0 \<le> crt_pos s \<and> crt_pos s < 2000"

lemma crt_offset: "crt pos - crt 0 = 2 * of_int pos"
  by (simp add: crt_def)

lemma screen_offset:
  assumes "0 \<le> pos" "pos < 2000"
  shows "unat (2 * of_int pos :: u32) = 2 * nat pos"
proof -
  have "(2 * of_int pos :: u32) = of_nat (2 * nat pos)" using assms by simp
  then show ?thesis using assms by (simp add: unat_of_nat_u32 del: of_nat_mult)
qed

text \<open>Memory outside the screen.\<close>

definition same_off_screen :: "memory \<Rightarrow> memory \<Rightarrow> bool" where
  "same_off_screen m m' \<longleftrightarrow> (\<forall>a. 4000 \<le> unat (a - crt 0) \<longrightarrow> m' a = m a)"

lemma same_off_screen_trans: "same_off_screen m m' \<Longrightarrow> same_off_screen m' m'' \<Longrightarrow> same_off_screen m m''"
  by (simp add: same_off_screen_def)

lemma store16_off_screen:
  assumes "0 \<le> pos" "pos < 2000"
  shows "same_off_screen m (store16 m (crt pos) v)"
  unfolding same_off_screen_def
proof (intro allI impI)
  fix a assume a: "4000 \<le> unat (a - crt 0)"
  have c: "crt pos - crt 0 = of_nat (2 * nat pos)" using assms by (simp add: crt_offset)
  have u: "unat (crt pos - crt 0) = 2 * nat pos" using assms by (simp add: crt_offset screen_offset)
  have "crt pos + 1 - crt 0 = of_nat (Suc (2 * nat pos))" using c by (simp add: algebra_simps)
  then have "unat (crt pos + 1 - crt 0) = Suc (2 * nat pos)" using assms by (simp add: unat_of_nat_u32 del: of_nat_Suc)
  then have "a \<noteq> crt pos" "a \<noteq> crt pos + 1" using a u assms by auto
  then show "store16 m (crt pos) v a = m a" by (simp add: store16_def)
qed

lemma scroll_off_screen: "same_off_screen m (memmove m (crt 0) (crt 80) (2 * 23 * 80))"
proof -
  have "memmove m (crt 0) (crt 80) (2 * 23 * 80) = copy_up m (crt 0) (crt 80) 3680"
    by (simp add: memmove_def crt_def P2V_def)
  moreover have "copy_up m (crt 0) (crt 80) 3680 = (\<lambda>a. if unat (a - crt 0) < 3680 then m (crt 80 + (a - crt 0)) else m a)"
    by (rule copy_up_copies) (simp_all add: crt_def P2V_def)
  ultimately show ?thesis by (simp add: same_off_screen_def)
qed

lemma clear_off_screen:
  assumes "0 \<le> pos" "pos \<le> 1920"
  shows "same_off_screen m (memset m (crt pos) 0 (2 * of_int (24 * 80 - pos)))"
  unfolding same_off_screen_def
proof (intro allI impI)
  fix a assume a: "4000 \<le> unat (a - crt 0)"
  have "(2 * of_int (24 * 80 - pos) :: u32) = of_nat (2 * nat (1920 - pos))" using assms by simp
  then have n: "unat (2 * of_int (24 * 80 - pos) :: u32) = 2 * nat (1920 - pos)"
    using assms by (simp add: unat_of_nat_u32 del: of_nat_mult)
  have "a - crt 0 = (a - crt pos) + of_nat (2 * nat pos)" using crt_offset [of pos] assms by (simp add: algebra_simps)
  moreover have "unat (of_nat (2 * nat pos) :: u32) = 2 * nat pos" using assms by (simp add: unat_of_nat_u32 del: of_nat_mult)
  ultimately have "unat (a - crt 0) \<le> unat (a - crt pos) + 2 * nat pos" by (metis unat_add_le)
  then have "\<not> a - crt pos < 2 * of_int (24 * 80 - pos)" using a n assms by (simp add: word_less_nat_alt)
  then show "memset m (crt pos) 0 (2 * of_int (24 * 80 - pos)) a = m a" by (simp only: memset_eq if_False)
qed

text \<open>The second half of \<^verbatim>\<open>cgaputc\<close>: scroll if need be and draw the cursor.\<close>

definition cga_finish :: "int \<Rightarrow> memory \<Rightarrow> int \<times> memory" where
  "cga_finish q m =
     (if 24 \<le> q div 80
      then (q - 80, store16 (memset (memmove m (crt 0) (crt 80) (2 * 23 * 80)) (crt (q - 80)) 0 (2 * of_int (24 * 80 - (q - 80))))
              (crt (q - 80)) (0x20 OR 0x0700))
      else (q, store16 m (crt q) (0x20 OR 0x0700)))"

lemma cga_finish_bounds:
  assumes "0 \<le> q" "q \<le> 2000" "cga_finish q m = (r, m')"
  shows "0 \<le> r" "r \<le> 1920" "same_off_screen m m'"
proof -
  have r: "r = (if 24 \<le> q div 80 then q - 80 else q)" using assms(3) by (auto simp: cga_finish_def split: if_splits)
  show b: "0 \<le> r" "r \<le> 1920" unfolding r using assms(1,2) by (auto split: if_splits)
  have s: "same_off_screen x (store16 x (crt r) v)" for x v using b by (intro store16_off_screen) simp_all
  show "same_off_screen m m'"
  proof (cases "24 \<le> q div 80")
    case True
    then have m': "m' = store16 (memset (memmove m (crt 0) (crt 80) (2 * 23 * 80)) (crt r) 0 (2 * of_int (24 * 80 - r))) (crt r) (0x20 OR 0x0700)"
      using assms(3) by (auto simp: cga_finish_def)
    show ?thesis unfolding m'
      by (rule same_off_screen_trans [OF same_off_screen_trans [OF scroll_off_screen clear_off_screen [OF b]] s])
  next
    case False
    then show ?thesis using assms(3) s [of m] r by (auto simp: cga_finish_def)
  qed
qed

lemma cgaputc_two_steps:
  assumes "on_screen s"
  obtains q m where "cgaputc c s = Ok () (s\<lparr>crt_pos := fst (cga_finish q m), mem := snd (cga_finish q m)\<rparr>)"
    "0 \<le> q" "q \<le> 2000" "same_off_screen (mem s) m"
proof -
  let ?p = "crt_pos s"
  have p: "0 \<le> ?p" "?p < 2000" using assms by (simp_all add: on_screen_def)
  have fin: "cgaputc c s = Ok () (s\<lparr>crt_pos := fst (cga_finish q m), mem := snd (cga_finish q m)\<rparr>)"
    if "(if c = 10 then (?p + (80 - ?p mod 80), s) else if c = BACKSPACE then (if ?p > 0 then ?p - 1 else ?p, s)
         else (?p + 1, s\<lparr>mem := store16 (mem s) (crt ?p) (of_int (c mod 256) OR 0x0700)\<rparr>)) = (q, s\<lparr>mem := m\<rparr>)"
      "0 \<le> q" "q \<le> 2000" for q m
    using that(2,3) unfolding cgaputc_def Let_def that(1) by (simp add: cga_finish_def)
  consider "c = 10" | "c = BACKSPACE" | "c \<noteq> 10" "c \<noteq> BACKSPACE" by blast
  then show thesis
  proof cases
    case 1
    have "?p + (80 - ?p mod 80) = 80 * (?p div 80 + 1)" by (simp add: minus_mod_eq_mult_div [symmetric] algebra_simps)
    with p have "0 \<le> ?p + (80 - ?p mod 80)" "?p + (80 - ?p mod 80) \<le> 2000" by auto
    with 1 that [of _ "mem s"] fin [of _ "mem s"] show thesis by (auto simp: same_off_screen_def)
  next
    case 2
    with p that [of _ "mem s"] fin [of "if ?p > 0 then ?p - 1 else ?p" "mem s"] show thesis by (auto simp: same_off_screen_def)
  next
    case 3
    with p that [of "?p + 1"] fin [of "?p + 1"] store16_off_screen [OF p] show thesis by auto
  qed
qed

lemma cgaputc_Ok:
  assumes "on_screen s"
  obtains m pos where "cgaputc c s = Ok () (s\<lparr>crt_pos := pos, mem := m\<rparr>)" "0 \<le> pos" "pos \<le> 1920" "same_off_screen (mem s) m"
proof -
  obtain q m where q: "cgaputc c s = Ok () (s\<lparr>crt_pos := fst (cga_finish q m), mem := snd (cga_finish q m)\<rparr>)"
    "0 \<le> q" "q \<le> 2000" "same_off_screen (mem s) m" by (rule cgaputc_two_steps [OF assms])
  obtain r m' where r: "cga_finish q m = (r, m')" by fastforce
  show thesis
    using that [where pos = r and m = m'] q r cga_finish_bounds [OF q(2,3) r] same_off_screen_trans [OF q(4)] by simp
qed

text \<open>
  On a screen with its cursor in place, \<^verbatim>\<open>cgaputc\<close> never runs into its own \<^verbatim>\<open>panic\<close>, whatever the character: it
  leaves the cursor on the screen and writes nothing but screen memory.
\<close>

theorem cgaputc_stays_on_screen:
  assumes "on_screen s"
  shows "\<exists>m pos. cgaputc c s = Ok () (s\<lparr>crt_pos := pos, mem := m\<rparr>) \<and> 0 \<le> pos \<and> pos \<le> 1920
    \<and> (\<forall>a. 4000 \<le> unat (a - crt 0) \<longrightarrow> m a = mem s a)"
  using cgaputc_Ok [OF assms] unfolding same_off_screen_def by metis

theorem cgaputc_stays_on_screen_witness:
  "\<exists>m pos. cgaputc 10 (file_demo\<lparr>crt_pos := 1999\<rparr>) = Ok () (file_demo\<lparr>crt_pos := pos, mem := m\<rparr>) \<and> pos \<le> 1920
    \<and> m 0x80202100 = mem file_demo 0x80202100"
proof -
  have "on_screen (file_demo\<lparr>crt_pos := 1999\<rparr>)" by (simp add: on_screen_def)
  from cgaputc_stays_on_screen [OF this, of 10] obtain m pos where
    "cgaputc 10 (file_demo\<lparr>crt_pos := 1999\<rparr>) = Ok () (file_demo\<lparr>crt_pos := pos, mem := m\<rparr>)" "pos \<le> 1920"
    "\<forall>a. 4000 \<le> unat (a - crt 0) \<longrightarrow> m a = mem file_demo a" by auto
  moreover have "(4000 :: nat) \<le> unat (0x80202100 - crt 0)" by (simp add: crt_def P2V_def)
  ultimately show ?thesis by blast
qed

lemma consputc_Ok:
  assumes "on_screen s" "\<not> panicked s"
  obtains m pos where "consputc c s = Ok () (s\<lparr>uart_out := uart_out s @ (if c = BACKSPACE then [8, 32, 8] else [of_int c]), crt_pos := pos, mem := m\<rparr>)"
    "0 \<le> pos" "pos \<le> 1920"
proof -
  let ?s = "s\<lparr>uart_out := uart_out s @ (if c = BACKSPACE then [8, 32, 8] else [of_int c])\<rparr>"
  have "on_screen ?s" using assms(1) by (simp add: on_screen_def)
  from cgaputc_Ok [OF this, of c] obtain m pos where "cgaputc c ?s = Ok () (?s\<lparr>crt_pos := pos, mem := m\<rparr>)" "0 \<le> pos" "pos \<le> 1920"
    by blast
  with that [of m pos] assms(2) show thesis by (simp add: consputc_def)
qed

section \<open>Formatted output and the process listing\<close>

interpretation cl: other_lock cons_lock cons_lock_update
  by unfold_locales simp_all

text \<open>A console whose lock is free, with the cursor in place, as the CPU \<open>i\<close> finds it.\<close>

definition console_ready :: "nat \<Rightarrow> 'z cons_st_scheme \<Rightarrow> bool" where
  "console_ready i s \<longleftrightarrow> on_cpu s i \<and> \<not> locked (cons_lock s) \<and> lcpu (cons_lock s) = None \<and> on_screen s \<and> \<not> panicked s"

text \<open>The input side of the console, which output does not touch.\<close>

definition same_input :: "'z cons_st_scheme \<Rightarrow> 'z cons_st_scheme \<Rightarrow> bool" where
  "same_input s t \<longleftrightarrow> in_buf t = in_buf s \<and> in_r t = in_r s \<and> in_w t = in_w s \<and> in_e t = in_e s"

lemma same_input_trans: "same_input s t \<Longrightarrow> same_input t u \<Longrightarrow> same_input s u"
  by (simp add: same_input_def)

lemma on_cpu_cong:
  "on_cpu s i \<Longrightarrow> cpus t = cpus s \<Longrightarrow> iflag t = iflag s \<Longrightarrow> lapicid t = lapicid s \<Longrightarrow> on_cpu t i"
  by (simp add: on_cpu_def)

text \<open>What a piece of output may change.\<close>

definition prints :: "(unit, 'z cons_st_scheme) kres \<Rightarrow> 'z cons_st_scheme \<Rightarrow> bool" where
  "prints r s \<longleftrightarrow> (\<exists>cs pos m. r = Ok () (s\<lparr>uart_out := cs, crt_pos := pos, mem := m\<rparr>) \<and> 0 \<le> pos \<and> pos < 2000)"

lemma prints_Ok: "on_screen s \<Longrightarrow> prints (Ok () s) s"
  unfolding prints_def on_screen_def by (intro exI [of _ "uart_out s"] exI [of _ "crt_pos s"] exI [of _ "mem s"]) simp

lemma prints_consputc: "on_screen s \<Longrightarrow> \<not> panicked s \<Longrightarrow> prints (consputc c s) s"
  by (rule consputc_Ok [of s c]) (assumption+, unfold prints_def, intro exI conjI, assumption+, simp)

lemma prints_andthen:
  assumes "prints r s" "\<not> panicked s" "\<And>t. on_screen t \<Longrightarrow> \<not> panicked t \<Longrightarrow> prints (f () t) t"
  shows "prints (andthen r f) s"
proof -
  obtain cs pos m where r: "r = Ok () (s\<lparr>uart_out := cs, crt_pos := pos, mem := m\<rparr>)" "0 \<le> pos" "pos < 2000"
    using assms(1) by (auto simp: prints_def)
  have "prints (f () (s\<lparr>uart_out := cs, crt_pos := pos, mem := m\<rparr>)) (s\<lparr>uart_out := cs, crt_pos := pos, mem := m\<rparr>)"
    using r assms(2) by (intro assms(3)) (simp_all add: on_screen_def)
  with r(1) show ?thesis by (auto simp: prints_def)
qed

lemma prints_consputs: "on_screen s \<Longrightarrow> \<not> panicked s \<Longrightarrow> prints (consputs cs s) s"
  by (induction cs arbitrary: s) (auto intro: prints_Ok prints_andthen prints_consputc)

text \<open>Formats without \<^verbatim>\<open>%s\<close>: those that read no string from memory, and so always end.\<close>

fun no_str :: "u8 list \<Rightarrow> bool" where
  "no_str [] = True"
| "no_str (c # cs) = (if c \<noteq> 0x25 then no_str cs else case cs of [] \<Rightarrow> True | d # ds \<Rightarrow> d \<noteq> 0x73 \<and> no_str ds)"

lemma no_str_spliced: "no_str (spliced x @ cs) = no_str cs"
  by (induction x) (simp_all add: spliced_def bytes_def)

lemma prints_cprintf_loop:
  "no_str cs \<Longrightarrow> on_screen s \<Longrightarrow> \<not> panicked s \<Longrightarrow> prints (cprintf_loop cs argp s) s"
proof (induction cs arbitrary: argp s rule: no_str.induct)
  case 1
  then show ?case by (simp add: prints_Ok)
next
  case (2 c cs)
  show ?case
  proof (cases "c = 0x25")
    case False
    with 2 show ?thesis by (auto intro!: prints_andthen prints_consputc)
  next
    case True
    show ?thesis
    proof (cases cs)
      case Nil
      with True 2(4) show ?thesis by (simp add: prints_Ok)
    next
      case (Cons d ds)
      have "no_str ds" "d \<noteq> 0x73" using 2(3) True Cons by simp_all
      with 2(2) [OF _ Cons] True have ih: "prints (cprintf_loop ds argp s) s"
        if "on_screen s" "\<not> panicked s" for argp and s :: "'a cons_st_scheme" using that by simp
      have "prints (cprintf_loop (0x25 # d # ds) argp s) s"
        using 2(4,5) \<open>d \<noteq> 0x73\<close>
        by (auto simp: printint_def intro!: prints_andthen prints_consputc prints_consputs ih)
      then show ?thesis using True Cons by simp
    qed
  qed
qed

lemma cprintf_ready:
  assumes "console_ready i s" "no_str cs"
  shows "\<exists>t. cprintf (Some cs) argp s = Ok () t \<and> console_ready i t \<and> same_input s t"
proof (cases "cons_locking s")
  case False
  have "prints (cprintf_loop cs argp s) s"
    using assms by (intro prints_cprintf_loop) (simp_all add: console_ready_def)
  then obtain u pos m where u: "cprintf_loop cs argp s = Ok () (s\<lparr>uart_out := u, crt_pos := pos, mem := m\<rparr>)" "0 \<le> pos" "pos < 2000"
    by (auto simp: prints_def)
  with False assms(1) show ?thesis
    by (simp add: cprintf_def console_ready_def same_input_def on_screen_def on_cpu_def)
next
  case True
  have r: "on_cpu s i" "\<not> locked (cons_lock s)" "lcpu (cons_lock s) = None" "on_screen s" "\<not> panicked s"
    using assms(1) by (simp_all add: console_ready_def)
  let ?h = "cl.held i s"
  have h: "on_screen ?h" "\<not> panicked ?h" using r by (simp_all add: cl.held_def pushed_def on_screen_def)
  then obtain u pos m where u: "cprintf_loop cs argp ?h = Ok () (?h\<lparr>uart_out := u, crt_pos := pos, mem := m\<rparr>)" "0 \<le> pos" "pos < 2000"
    using prints_cprintf_loop [OF assms(2) h, of argp] unfolding prints_def by blast
  let ?v = "?h\<lparr>uart_out := u, crt_pos := pos, mem := m\<rparr>"
  have "release_cons ?v = Ok () (cl.leave i s ?v)"
    unfolding release_cons_def
    by (rule cl.release_leave [OF r(1,2,3)]) (simp_all, simp add: cl.held_def pushed_def)
  then have c: "cprintf (Some cs) argp s = Ok () (cl.leave i s ?v)"
    using True u(1) cl.acquire_free [OF r(1,2)] by (simp add: cprintf_def acquire_cons_def)
  have "on_cpu (cl.leave i s ?v) i"
    by (rule on_cpu_cong [OF on_cpu_settled [OF r(1)]])
      (simp_all add: cl.leave_def settled_def, simp add: cl.held_def pushed_def)
  then have "console_ready i (cl.leave i s ?v)"
    using r u(2,3) by (simp add: console_ready_def on_screen_def cl.leave_def) (simp add: cl.held_def pushed_def)
  moreover have "same_input s (cl.leave i s ?v)"
    by (simp add: same_input_def cl.leave_def cl.held_def pushed_def)
  ultimately show ?thesis using c by blast
qed

lemma procdump_pcs_ready:
  "console_ready i s \<Longrightarrow> \<exists>t. procdump_pcs pcs s = Ok () t \<and> console_ready i t \<and> same_input s t"
proof (induction pcs arbitrary: s)
  case Nil
  then show ?case by (simp add: same_input_def)
next
  case (Cons pc pcs)
  have f: "no_str (bytes '' %p'')" by (simp add: bytes_def)
  obtain t where t: "cprintf (Some (bytes '' %p'')) (\<lambda>_. pc) s = Ok () t" "console_ready i t" "same_input s t"
    using cprintf_ready [OF Cons.prems f, of "\<lambda>_. pc"] by blast
  from Cons.IH [OF t(2)] obtain v where v: "procdump_pcs pcs t = Ok () v" "console_ready i v" "same_input t v" by blast
  show ?case
  proof (cases "pc = 0")
    case True
    then show ?thesis using Cons.prems by (simp add: same_input_def)
  next
    case False
    then show ?thesis using t v same_input_trans [OF t(3) v(3)] by simp
  qed
qed

lemma procdump_loop_ready:
  "console_ready i s \<Longrightarrow> \<exists>t. procdump_loop xs s = Ok () t \<and> console_ready i t \<and> same_input s t"
proof (induction xs arbitrary: s)
  case Nil
  then show ?case by (simp add: same_input_def)
next
  case (Cons x xs)
  let ?p = "ptable s ! x"
  let ?f = "bytes ''%d '' @ spliced (state_name (state ?p)) @ bytes '' '' @ spliced (pname ?p)"
  let ?a = "\<lambda>_ :: nat. of_int (pid ?p) :: u32"
  have "no_str (spliced (pname ?p))" using no_str_spliced [of "pname ?p" "[]"] by simp
  then have f: "no_str ?f" by (simp add: bytes_def no_str_spliced)
  have nl: "no_str [10]" by simp
  show ?case
  proof (cases "state ?p = UNUSED")
    case True
    with Cons show ?thesis by simp
  next
    case False
    obtain t where t: "cprintf (Some ?f) ?a s = Ok () t" "console_ready i t" "same_input s t"
      using cprintf_ready [OF Cons.prems f, of ?a] by blast
    let ?pcs = "getcallerpcs (mem t) (load32 (mem t) (ctx ?p + 12) + 8)"
    obtain v where v: "(if state ?p = SLEEPING then procdump_pcs ?pcs t else Ok () t) = Ok () v" "console_ready i v" "same_input t v"
      using procdump_pcs_ready [OF t(2), of ?pcs] t(2) by (cases "state ?p = SLEEPING") (auto simp: same_input_def)
    obtain w where w: "cprintf (Some [10]) (\<lambda>_. 0) v = Ok () w" "console_ready i w" "same_input v w"
      using cprintf_ready [OF v(2) nl, of "\<lambda>_. 0"] by blast
    from Cons.IH [OF w(2)] obtain z where z: "procdump_loop xs w = Ok () z" "console_ready i z" "same_input w z" by blast
    have "procdump_loop (x # xs) s = Ok () z" using False t(1) v(1) w(1) z(1) by (simp add: Let_def)
    with z(2) same_input_trans [OF same_input_trans [OF same_input_trans [OF t(3) v(3)] w(3)] z(3)] show ?thesis by blast
  qed
qed

section \<open>Line editing\<close>

text \<open>
  The abstract line discipline: the bytes that readers may take, and the line being edited.  A line is handed over at
  newline (carriage return counts as newline), at control-D, or when the two parts together reach 128 bytes.
  \<open>edit\<close> is the effect of one key.
\<close>

type_synonym line_state = "u8 list \<times> u8 list"

definition edit :: "int \<Rightarrow> line_state \<Rightarrow> line_state" where
  "edit c = (\<lambda>(ready, line).
     if c = 0x10 then (ready, line)
     else if c = 0x15 then (ready, [])
     else if c = 8 \<or> c = 0x7f then (ready, butlast line)
     else if c = 0 \<or> 128 \<le> length ready + length line then (ready, line)
     else let c = (if c = 13 then 10 else c); line = line @ [of_int c]
          in if c = 10 \<or> c = 4 \<or> length ready + length line = 128 then (ready @ line, []) else (ready, line))"

definition line_of :: "'z cons_st_scheme \<Rightarrow> line_state" where
  "line_of s = (ring 128 (in_buf s) (in_r s) (in_w s), ring 128 (in_buf s) (in_w s) (in_e s))"

text \<open>The counters are in order, the ring is not overfull, and the line being edited has no newline in it.\<close>

definition line_ok :: "'z cons_st_scheme \<Rightarrow> bool" where
  "line_ok s \<longleftrightarrow> unat (in_w s - in_r s) \<le> unat (in_e s - in_r s) \<and> unat (in_e s - in_r s) \<le> 128
     \<and> 10 \<notin> set (ring 128 (in_buf s) (in_w s) (in_e s))"

lemma ring_lengths: "unat (m - r) \<le> unat (w - r) \<Longrightarrow> unat (w - r) = unat (m - r) + unat (w - m)" for m r w :: u32
  using ring_split [of m r w "128 :: u32" "\<lambda>_. ()"] by (metis length_append length_ring)

lemma line_ok_lengths:
  assumes "line_ok s" "line_of s = (a, b)"
  shows "length a + length b = unat (in_e s - in_r s)" "length a + length b \<le> 128"
  using assms ring_lengths [of "in_w s" "in_r s" "in_e s"] by (auto simp: line_ok_def line_of_def)

text \<open>What editing does not touch: everything but the input ring, the screen and the serial line.\<close>

definition same_but_line :: "'z cons_st_scheme \<Rightarrow> 'z cons_st_scheme \<Rightarrow> bool" where
  "same_but_line s t \<longleftrightarrow> cpus t = cpus s \<and> iflag t = iflag s \<and> lapicid t = lapicid s \<and> cons_lock t = cons_lock s
     \<and> ptable_lock t = ptable_lock s \<and> length (ptable t) = length (ptable s)
     \<and> on_screen t \<and> \<not> panicked t \<and> in_r t = in_r s"

text \<open>Erasing one character.\<close>

lemma erase_Ok:
  assumes "on_screen s" "\<not> panicked s" "line_ok s" "line_of s = (a, b)" "b \<noteq> []"
  obtains t where "consputc BACKSPACE (s\<lparr>in_e := in_e s - 1\<rparr>) = Ok () t" "same_but_line s t" "line_ok t" "line_of t = (a, butlast b)"
    "in_w t = in_w s" "in_e t = in_e s - 1" "in_buf t = in_buf s"
proof -
  let ?s = "s\<lparr>in_e := in_e s - 1\<rparr>"
  have ne: "in_w s \<noteq> in_e s" using assms(4,5) by (auto simp: line_of_def)
  have "on_screen ?s" "\<not> panicked ?s" using assms by (simp_all add: on_screen_def)
  from consputc_Ok [OF this, of BACKSPACE] obtain m pos where
    c: "consputc BACKSPACE ?s = Ok () (?s\<lparr>uart_out := uart_out s @ [8, 32, 8], crt_pos := pos, mem := m\<rparr>)" "0 \<le> pos" "pos \<le> 1920"
    by auto
  let ?t = "?s\<lparr>uart_out := uart_out s @ [8, 32, 8], crt_pos := pos, mem := m\<rparr>"
  have tb: "ring 128 (in_buf s) (in_w s) (in_e s - 1) = butlast b"
    using ring_take_back [OF ne, of 128 "in_buf s"] assms(4) by (simp add: line_of_def)
  have len: "unat (in_e s - in_r s) = unat (in_w s - in_r s) + unat (in_e s - in_w s)" "0 < unat (in_e s - in_w s)"
    using assms(3) ring_lengths [of "in_w s" "in_r s" "in_e s"] ne by (auto simp: line_ok_def unat_gt_0)
  have "0 < unat (in_e s - in_r s)" using len by linarith
  then have "in_e s - in_r s \<noteq> 0" by (simp only: unat_gt_0 simp_thms)
  then have "unat (in_e s - 1 - in_r s) = unat (in_e s - in_r s) - 1"
    using unat_minus_one [of "in_e s - in_r s"] by (simp add: algebra_simps)
  moreover have "10 \<notin> set (butlast b)" using assms(3,4) in_set_butlastD [of 10 b] by (auto simp: line_ok_def line_of_def)
  ultimately have "line_ok ?t" using assms(3) len by (auto simp: line_ok_def tb)
  moreover have "line_of ?t = (a, butlast b)" using tb assms(4) by (simp add: line_of_def)
  moreover have "same_but_line s ?t" using assms(2) c(2,3) by (simp add: same_but_line_def on_screen_def)
  ultimately show thesis using that [of ?t] c(1) by simp
qed

text \<open>The kill key erases the whole line: there is no newline to stop at.\<close>

lemma kill_line_Ok:
  assumes "on_screen s" "\<not> panicked s" "line_ok s" "line_of s = (a, b)"
  shows "\<exists>t. kill_line s = Ok () t \<and> same_but_line s t \<and> line_ok t \<and> line_of t = (a, [])"
  using assms
proof (induction "length b" arbitrary: s b)
  case 0
  then have "in_e s = in_w s" by (auto simp: line_of_def)
  then show ?case using 0 by (subst kill_line.simps) (auto simp: same_but_line_def)
next
  case (Suc n)
  then have b: "b \<noteq> []" by auto
  have ne: "in_e s \<noteq> in_w s" using b Suc.prems(4) by (auto simp: line_of_def)
  obtain t where t: "consputc BACKSPACE (s\<lparr>in_e := in_e s - 1\<rparr>) = Ok () t" "same_but_line s t" "line_ok t" "line_of t = (a, butlast b)"
    by (rule erase_Ok [OF Suc.prems b]) blast
  have "last b = in_buf s ((in_e s - 1) mod 128)"
  proof -
    have "0 < unat (in_e s - in_w s)" using ne by (simp add: unat_gt_0)
    moreover have "b = ring 128 (in_buf s) (in_w s) (in_e s)" using Suc.prems(4) by (simp add: line_of_def)
    ultimately show ?thesis
      using b by (simp add: last_conv_nth) (simp add: ring_def of_nat_diff algebra_simps)
  qed
  moreover have "10 \<notin> set b" using Suc.prems(3,4) by (auto simp: line_ok_def line_of_def)
  ultimately have nn: "in_buf s ((in_e s - 1) mod 128) \<noteq> 10" using last_in_set [OF b] by auto
  obtain u where "kill_line t = Ok () u" "same_but_line t u" "line_ok u" "line_of u = (a, [])"
    using Suc.hyps(1) [of "butlast b" t] Suc.hyps(2) [symmetric] t by (auto simp: same_but_line_def)
  then show ?case using ne nn t by (subst kill_line.simps) (auto simp: same_but_line_def)
qed

text \<open>Storing a character.\<close>

lemma store_line:
  assumes "line_ok s" "line_of s = (a, b)" "length a + length b < 128"
    and t_def: "t = s\<lparr>in_buf := (in_buf s)(in_e s mod 128 := c), in_e := in_e s + 1\<rparr>"
  shows "line_of t = (a, b @ [c])" "unat (in_e t - in_r t) = Suc (length a + length b)" "unat (in_w t - in_r t) = length a"
proof -
  let ?f = "(in_buf s)(in_e s mod 128 := c)"
  have ab: "a = ring 128 (in_buf s) (in_r s) (in_w s)" "b = ring 128 (in_buf s) (in_w s) (in_e s)"
    using assms(2) by (simp_all add: line_of_def)
  have len: "unat (in_e s - in_r s) = length a + length b" using line_ok_lengths(1) [OF assms(1,2)] by simp
  show w: "unat (in_w t - in_r t) = length a" by (simp add: t_def ab)
  have pb: "ring 128 ?f (in_w s) (in_e s + 1) = b @ [c]"
    using ring_put [of 7 "in_e s" "in_w s" "in_buf s" c] assms(3) by (simp add: ab)
  have pa: "ring 128 ?f (in_r s) (in_e s + 1) = ring 128 (in_buf s) (in_r s) (in_e s) @ [c]"
    using ring_put [of 7 "in_e s" "in_r s" "in_buf s" c] assms(3) len by simp
  then have "unat (in_e s + 1 - in_r s) = Suc (length a + length b)"
    using len by (metis length_append_singleton length_ring)
  then show e: "unat (in_e t - in_r t) = Suc (length a + length b)" by (simp add: t_def)
  have "ring 128 (in_buf s) (in_r s) (in_e s) = a @ b"
    using ring_split [of "in_w s" "in_r s" "in_e s" 128 "in_buf s"] len ab by simp
  moreover have "ring 128 ?f (in_r s) (in_e s + 1) = ring 128 ?f (in_r s) (in_w s) @ b @ [c]"
    using ring_split [of "in_w s" "in_r s" "in_e s + 1" 128 ?f] pb e w by (simp add: t_def)
  ultimately have "ring 128 ?f (in_r s) (in_w s) = a" using pa by simp
  with pb show "line_of t = (a, b @ [c])" by (simp add: line_of_def t_def)
qed

text \<open>One key, with the console lock held on CPU \<open>i\<close>.\<close>

lemma same_but_line_ready:
  assumes "proc_ready i s" "same_but_line s t"
  shows "proc_ready i t"
  using assms by (simp add: proc_ready_def same_but_line_def on_cpu_def)

lemma consoleintr_char_edits:
  assumes r: "proc_ready i s" "0 < ncli (cpus s ! i)" and scr: "on_screen s" "\<not> panicked s" and ok: "line_ok s"
    and c: "0 \<le> c" "c < 256"
  shows "\<exists>t. consoleintr_char c s = Ok (c = 0x10) t \<and> same_but_line s t \<and> line_ok t \<and> line_of t = edit c (line_of s)"
proof -
  obtain a b where ab: "line_of s = (a, b)" by fastforce
  have refl: "same_but_line s s" using scr by (simp add: same_but_line_def)
  have full: "in_e s - in_r s < 128 \<longleftrightarrow> length a + length b < 128"
    using line_ok_lengths(1) [OF ok ab] by (simp add: word_less_nat_alt)
  consider "c = 0x10" | "c = 0x15" | "c = 8 \<or> c = 0x7f"
    | "c \<notin> {0x10, 0x15, 8, 0x7f}" "c = 0 \<or> 128 \<le> length a + length b"
    | "c \<notin> {0x10, 0x15, 8, 0x7f}" "c \<noteq> 0" "length a + length b < 128" by fastforce
  then show ?thesis
  proof cases
    case 1
    then show ?thesis using refl ok by (simp add: consoleintr_char_def edit_def ab)
  next
    case 2
    then show ?thesis using kill_line_Ok [OF scr ok ab] by (auto simp: consoleintr_char_def edit_def ab)
  next
    case 3
    show ?thesis
    proof (cases "b = []")
      case True
      then have "in_e s = in_w s" using ab by (auto simp: line_of_def)
      then show ?thesis using 3 True refl ok by (auto simp: consoleintr_char_def edit_def ab)
    next
      case False
      then have "in_e s \<noteq> in_w s" using ab by (auto simp: line_of_def)
      obtain t where "consputc BACKSPACE (s\<lparr>in_e := in_e s - 1\<rparr>) = Ok () t" "same_but_line s t" "line_ok t" "line_of t = (a, butlast b)"
        by (rule erase_Ok [OF scr ok ab False])
      with 3 \<open>in_e s \<noteq> in_w s\<close> show ?thesis by (auto simp: consoleintr_char_def edit_def ab)
    qed
  next
    case 4
    then show ?thesis using refl ok full by (auto simp: consoleintr_char_def edit_def ab)
  next
    case 5
    define d where "d = (if c = 13 then 10 else c)"
    let ?s = "s\<lparr>in_buf := (in_buf s)(in_e s mod 128 := of_int d), in_e := in_e s + 1\<rparr>"
    have l: "line_of ?s = (a, b @ [of_int d])" "unat (in_e ?s - in_r ?s) = Suc (length a + length b)" "unat (in_w ?s - in_r ?s) = length a"
      by (rule store_line [OF ok ab 5(3) HOL.refl])+
    have "on_screen ?s" "\<not> panicked ?s" using scr by (simp_all add: on_screen_def)
    from consputc_Ok [OF this, of d] obtain m pos out where
      u: "consputc d ?s = Ok () (?s\<lparr>uart_out := out, crt_pos := pos, mem := m\<rparr>)" "0 \<le> pos" "pos \<le> 1920" by metis
    let ?u = "?s\<lparr>uart_out := out, crt_pos := pos, mem := m\<rparr>"
    have same: "same_but_line s ?u" using scr u(2,3) by (simp add: same_but_line_def on_screen_def)
    have lu: "line_of ?u = (a, b @ [of_int d])" using l(1) by (simp add: line_of_def)
    have step: "consoleintr_char c s = (if d = 10 \<or> d = 4 \<or> in_e ?u = in_r ?u + 128
        then andthen (wakeup (Some ChInput) (?u\<lparr>in_w := in_e ?u\<rparr>)) (\<lambda>_ s. Ok False s) else Ok False ?u)"
      using 5 full u(1) by (simp add: consoleintr_char_def Let_def d_def [symmetric])
    have "in_e ?u = in_r ?u + 128 \<longleftrightarrow> in_e ?s - in_r ?s = 128" by (auto simp: algebra_simps)
    also have "\<dots> \<longleftrightarrow> length a + length (b @ [of_int d :: u8]) = 128" using l(2) by (auto simp: word_unat_eq_iff)
    finally have fulliff: "in_e ?u = in_r ?u + 128 \<longleftrightarrow> length a + length (b @ [of_int d :: u8]) = 128" .
    have ed: "edit c (a, b) = (if d = 10 \<or> d = 4 \<or> in_e ?u = in_r ?u + 128 then (a @ b @ [of_int d], []) else (a, b @ [of_int d]))"
      using 5 unfolding fulliff by (simp add: edit_def Let_def d_def [symmetric])
    have cd: "(c = 0x10) = False" using 5 by simp
    show ?thesis
    proof (cases "d = 10 \<or> d = 4 \<or> in_e ?u = in_r ?u + 128")
      case True
      let ?v = "?u\<lparr>in_w := in_e ?u\<rparr>"
      have sv: "same_but_line s ?v" using same by (simp add: same_but_line_def on_screen_def)
      have rv: "proc_ready i ?v" by (rule same_but_line_ready [OF r(1) sv])
      have "settled i ?v = ?v" using r(2) by (intro settled_id) simp
      then have w: "wakeup (Some ChInput) ?v = Ok () (?v\<lparr>ptable := map (wake (Some ChInput)) (ptable ?v)\<rparr>)"
        using wakeup_eq [OF rv] by simp
      let ?t = "?v\<lparr>ptable := map (wake (Some ChInput)) (ptable ?v)\<rparr>"
      have "ring 128 (in_buf ?s) (in_r ?s) (in_e ?s) = a @ b @ [of_int d]"
        using ring_split [of "in_w ?s" "in_r ?s" "in_e ?s" 128 "in_buf ?s"] l by (simp add: line_of_def)
      then have "line_of ?t = (a @ b @ [of_int d], [])" by (simp add: line_of_def)
      moreover have "line_ok ?t" using l(2) 5(3) by (simp add: line_ok_def)
      moreover have "same_but_line s ?t" using sv by (simp add: same_but_line_def on_screen_def)
      ultimately show ?thesis unfolding step ab ed cd if_P [OF True] w by auto
    next
      case False
      have "(of_int d :: u8) \<noteq> 10"
      proof
        assume "(of_int d :: u8) = 10"
        then have "uint (of_int d :: u8) = 10" by simp
        moreover have "uint (of_int d :: u8) = d" using c by (simp add: d_def unsigned_of_int take_bit_int_eq_self)
        ultimately show False using False by simp
      qed
      then have "line_ok ?u" using ok ab l(2,3) 5(3) lu by (auto simp: line_ok_def line_of_def)
      then show ?thesis unfolding step ab ed cd if_not_P [OF False] using same lu by auto
    qed
  qed
qed

lemma same_but_line_trans: "same_but_line s t \<Longrightarrow> same_but_line t u \<Longrightarrow> same_but_line s u"
  by (simp add: same_but_line_def)

lemma consoleintr_loop_edits:
  assumes "proc_ready i s" "0 < ncli (cpus s ! i)" "on_screen s" "\<not> panicked s" "line_ok s"
    and "\<forall>c \<in> set keys. 0 \<le> c \<and> c < 256"
  shows "\<exists>t. consoleintr_loop keys dump s = Ok (dump \<or> 0x10 \<in> set keys) t \<and> same_but_line s t \<and> line_ok t
    \<and> line_of t = fold edit keys (line_of s)"
  using assms
proof (induction keys arbitrary: s dump)
  case Nil
  then show ?case by (auto simp: same_but_line_def)
next
  case (Cons c cs)
  obtain t where t: "consoleintr_char c s = Ok (c = 0x10) t" "same_but_line s t" "line_ok t" "line_of t = edit c (line_of s)"
    using consoleintr_char_edits [of i s c] Cons.prems by auto
  have "proc_ready i t" "0 < ncli (cpus t ! i)" "on_screen t" "\<not> panicked t"
    using same_but_line_ready [OF Cons.prems(1) t(2)] t(2) Cons.prems(2) by (auto simp: same_but_line_def)
  with Cons.IH [of t "dump \<or> c = 0x10"] Cons.prems(6) t(3) obtain u where
    "consoleintr_loop cs (dump \<or> c = 0x10) t = Ok ((dump \<or> c = 0x10) \<or> 0x10 \<in> set cs) u" "same_but_line t u" "line_ok u"
    "line_of u = fold edit cs (line_of t)" by auto
  with t Cons.prems(6) show ?case by (auto dest: same_but_line_trans)
qed

text \<open>
  C23: the console interrupt handler implements line editing.  Whatever keys arrive, in any number and wherever the ring
  counters stand, the bytes ready for readers and the line being edited afterwards are those that the abstract
  \<open>edit\<close> gives key by key; the ring never holds more than its 128 bytes, and the handler returns.  Control-P is one of the
  keys: the process listing it asks for is printed after the keys, and leaves the line alone.
\<close>

theorem console_line_discipline:
  assumes "proc_ready i s" "\<not> locked (cons_lock s)" "lcpu (cons_lock s) = None" "on_screen s" "\<not> panicked s" "line_ok s"
    and "\<forall>c \<in> set keys. 0 \<le> c \<and> c < 256"
  shows "\<exists>t. consoleintr keys s = Ok () t \<and> line_of t = fold edit keys (line_of s) \<and> line_ok t \<and> on_screen t"
proof -
  have on: "on_cpu s i" using assms(1) by (simp add: proc_ready_def)
  let ?h = "cl.held i s"
  have acq: "acquire_cons s = Ok () ?h" unfolding acquire_cons_def by (rule cl.acquire_free [OF on assms(2)])
  have h: "line_of ?h = line_of s" "line_ok ?h" "on_screen ?h" "\<not> panicked ?h" "proc_ready i ?h" "0 < ncli (cpus ?h ! i)"
    using assms cl.on_cpu_held [OF on] cl.ncli_held [OF on]
    by (simp_all add: proc_ready_def) (simp_all add: cl.held_def pushed_def line_of_def line_ok_def on_screen_def)
  let ?dump = "0x10 \<in> set keys"
  from consoleintr_loop_edits [OF h(5,6,3,4,2) assms(7), of False] obtain v where
    v: "consoleintr_loop keys False ?h = Ok ?dump v" "same_but_line ?h v" "line_ok v" "line_of v = fold edit keys (line_of s)"
    using h(1) by auto
  let ?w = "cl.leave i s v"
  have rel: "release_cons v = Ok () ?w"
    unfolding release_cons_def
    by (rule cl.release_leave [OF on assms(2,3)])
      (use v(2) in \<open>simp_all add: same_but_line_def\<close>, simp add: cl.held_def pushed_def)
  have w: "line_of ?w = line_of v" "line_ok ?w = line_ok v" "on_screen ?w = on_screen v"
    by (simp_all add: cl.leave_def line_of_def line_ok_def on_screen_def)
  have "lapicid ?w = lapicid s" using v(2) by (simp add: cl.leave_def same_but_line_def) (simp add: cl.held_def pushed_def)
  then have "on_cpu ?w i"
    by (intro on_cpu_cong [OF on_cpu_settled [OF on]]) (simp_all add: cl.leave_def settled_def)
  moreover have "\<not> panicked ?w" using v(2) by (simp add: cl.leave_def same_but_line_def)
  ultimately have "console_ready i ?w"
    using w(3) v(2) assms(2,3) by (simp add: console_ready_def same_but_line_def) (simp add: cl.leave_def)
  from procdump_loop_ready [OF this, of "[0..<NPROC]"] obtain z where
    z: "procdump ?w = Ok () z" "console_ready i z" "same_input ?w z" by (auto simp: procdump_def)
  have "line_of z = line_of ?w" "line_ok z = line_ok ?w" "on_screen z"
    using z(2,3) by (simp_all add: line_of_def line_ok_def same_input_def console_ready_def)
  then show ?thesis using v z(1) w rel by (auto simp: consoleintr_def acq same_but_line_def)
qed

theorem console_line_discipline_witness:
  "\<exists>t. consoleintr [0x61, 0x62, 8, 0x10, 0x63, 13, 0x64] file_demo = Ok () t \<and> line_of t = ([0x61, 0x63, 10], [0x64])"
proof -
  have "proc_ready 0 file_demo" using file_demo_calling by (simp add: calling_def)
  moreover have "\<not> locked (cons_lock file_demo)" "lcpu (cons_lock file_demo) = None" "on_screen file_demo"
    "\<not> panicked file_demo" "line_ok file_demo" "line_of file_demo = ([], [])"
    by (simp_all add: file_demo_def zero_lock_def on_screen_def line_ok_def line_of_def)
  ultimately show ?thesis
    using console_line_discipline [of 0 file_demo "[0x61, 0x62, 8, 0x10, 0x63, 13, 0x64]"] by (auto simp: edit_def)
qed

section \<open>Numbers\<close>

text \<open>Reading a numeral back: an optional minus sign and digits, most significant first.\<close>

definition digit_val :: "u8 \<Rightarrow> int" where
  "digit_val c = (if c < 0x3a then uint c - 0x30 else uint c - 0x57)"

definition read_int :: "int \<Rightarrow> u8 list \<Rightarrow> int" where
  "read_int base cs = (case cs of
       [] \<Rightarrow> 0
     | c # ds \<Rightarrow> if c = 0x2d then - foldl (\<lambda>n d. n * base + digit_val d) 0 ds
                 else foldl (\<lambda>n d. n * base + digit_val d) 0 cs)"

lemma digit_val_char:
  fixes d :: u32
  assumes "d < 16"
  shows "digit_val (digit_char d) = uint d" "digit_char d \<noteq> 0x2d"
proof -
  have n: "unat d < 16" using assms by (simp add: word_less_nat_alt)
  have "digit_val (digit_char (of_nat n)) = int n \<and> digit_char (of_nat n) \<noteq> 0x2d" if "n < 16" for n
  proof -
    have "n \<in> {0, 1, 2, 3, 4, 5, 6, 7, 8, 9, 10, 11, 12, 13, 14, 15}" using that by simp presburger
    then show ?thesis by (auto simp: digit_val_def digit_char_def)
  qed
  from this [OF n] show "digit_val (digit_char d) = uint d" "digit_char d \<noteq> 0x2d" by simp_all
qed

lemma int_digits_value:
  assumes "base \<le> 16" "2 \<le> base"
  shows "foldr (\<lambda>d n. n * uint base + digit_val d) (int_digits base x) 0 = uint x \<and> 0x2d \<notin> set (int_digits base x)"
  using assms
proof (induction base x rule: int_digits.induct)
  case (1 base x)
  have lt: "x mod base < 16" using 1(2,3) by (auto simp: word_less_nat_alt word_le_nat_alt unat_mod intro: less_le_trans [OF mod_less_divisor])
  have nb: "\<not> base < 2" using 1(3) by simp
  have xu: "uint x = uint (x div base) * uint base + uint (x mod base)" by (simp add: uint_div uint_mod)
  show ?case
  proof (cases "x div base = 0")
    case True
    then show ?thesis using digit_val_char [OF lt] xu by (subst (1 2) int_digits.simps) simp
  next
    case False
    with 1(1) [of] nb 1(2,3) have "foldr (\<lambda>d n. n * uint base + digit_val d) (int_digits base (x div base)) 0 = uint (x div base)"
      "0x2d \<notin> set (int_digits base (x div base))" by auto
    then show ?thesis using False nb digit_val_char [OF lt] xu by (subst (1 2) int_digits.simps) simp
  qed
qed

lemma int_digits_length: "unat x < 10 ^ Suc n \<Longrightarrow> 10 \<le> base \<Longrightarrow> length (int_digits base x) \<le> Suc n"
proof (induction n arbitrary: x)
  case 0
  then have "unat (x div base) = 0" by (simp add: unat_div word_le_nat_alt)
  then have "x div base = 0" by (simp only: unat_eq_zero)
  then show ?case by (subst int_digits.simps) simp
next
  case (Suc n)
  have b: "10 \<le> unat base" using Suc.prems(2) by (simp add: word_le_nat_alt)
  have "unat (x div base) \<le> unat x div 10" using b by (simp add: unat_div div_le_mono2)
  also have "\<dots> < 10 ^ Suc n" using Suc.prems(1) by (simp add: less_mult_imp_div_less mult.commute)
  finally show ?case using Suc.IH [OF _ Suc.prems(2)] by (subst int_digits.simps) simp
qed

text \<open>
  C24: \<^verbatim>\<open>printint\<close> prints what it is given: read back in the same base the characters are the signed or unsigned value of
  the argument, the most negative number included, and there are at most 11 of them, so that the 16-byte buffer never
  overflows.
\<close>

theorem printint_roundtrip:
  assumes "base = 10 \<or> base = 16"
  shows "read_int (uint base) (printint_chars xx base sg) = (if sg then sint xx else uint xx)
    \<and> length (printint_chars xx base sg) \<le> 11"
proof -
  have b: "base \<le> 16" "2 \<le> base" "10 \<le> base" using assms by auto
  let ?f = "\<lambda>n d. n * uint base + digit_val d"
  have v: "foldl ?f 0 (rev (int_digits base x)) = uint x" "0x2d \<notin> set (int_digits base x)" for x
    using int_digits_value [OF b(1,2), of x] by (simp_all add: foldr_conv_foldl)
  have ne: "int_digits base x \<noteq> []" for x by (subst int_digits.simps) simp
  have l: "length (int_digits base x) \<le> 10" for x
    using int_digits_length [of x 9 base] unat_u32_less [of x] b(3) by simp
  show ?thesis
  proof (cases "sg \<and> sint xx < 0")
    case True
    have "- xx = of_int (- sint xx)" by simp
    then have "uint (- xx) = take_bit 32 (- sint xx)" by (simp only: unsigned_of_int) simp
    also have "\<dots> = - sint xx"
      using True sint_greater_eq [of xx] by (intro take_bit_int_eq_self) simp_all
    finally have "uint (- xx) = - sint xx" .
    with True v [of "- xx"] l [of "- xx"] show ?thesis by (simp add: printint_chars_def read_int_def Let_def)
  next
    case False
    have "rev (int_digits base xx) \<noteq> []" using ne by simp
    then obtain c cs where c: "rev (int_digits base xx) = c # cs" by (cases "rev (int_digits base xx)") auto
    then have "c \<noteq> 0x2d" using v(2) [of xx] by (metis list.set_intros(1) set_rev)
    moreover have "uint xx = sint xx" if "0 \<le> sint xx"
    proof -
      have "uint xx = take_bit 32 (sint xx)" using unsigned_of_int [where 'b = 32 and 'a = int, of "sint xx"] by simp
      then show ?thesis using that sint_less [of xx] by (simp add: take_bit_int_eq_self)
    qed
    ultimately show ?thesis using False c v(1) [of xx] l [of xx]
      by (auto simp: printint_chars_def read_int_def Let_def not_less)
  qed
qed

theorem printint_roundtrip_witness:
  "read_int 10 (printint_chars 0x80000000 10 True) = - 2147483648"
  using printint_roundtrip [of 10 "0x80000000" True] by simp

end
