(* ===== verification/Kalloc_BST.thy ===== *)
theory Kalloc_BST
  imports Kalloc "HOL-Library.Tree" "HOL-Library.Multiset"
begin

text \<open>
  The page allocator of \<^verbatim>\<open>Archivos de prueba/kalloc_bestfit.c\<close>: free blocks of several pages in a binary search tree ordered by size, the
  nodes of which come from a fixed pool and are linked by left, right and parent pointers.  Operations have the suffix \<open>_bst\<close>
  where \<^verbatim>\<open>kalloc.c\<close> has one of the same name.  \<open>rep\<close> relates the linked nodes to an abstract tree; \<open>heap_ok\<close> is the invariant:
  the blocks are whole pages and do not overlap.
\<close>

section \<open>State\<close>

text \<open>\<^verbatim>\<open>struct bst_node\<close>; a pointer to a node is its index in the pool, \<open>None\<close> the null pointer.\<close>

record bst_node =
  baddr :: u32
  bsize :: u32
  bleft :: "nat option"
  bright :: "nat option"
  bparent :: "nat option"

text \<open>The global \<^verbatim>\<open>kmem\<close>, and \<open>bst_end\<close>, the link-time address of the symbol \<^verbatim>\<open>end\<close>.\<close>

record bst_st = machine +
  bst_lock :: spinlock
  bst_use_lock :: bool
  bst_root :: "nat option"
  total_free :: u32
  num_blocks :: u32
  bst_nodes :: "nat \<Rightarrow> bst_node"
  next_node_idx :: nat
  bst_end :: u32

definition upd_node :: "nat \<Rightarrow> (bst_node \<Rightarrow> bst_node) \<Rightarrow> 'z bst_st_scheme \<Rightarrow> 'z bst_st_scheme" where
  "upd_node k f s = s\<lparr>bst_nodes := (bst_nodes s)(k := f (bst_nodes s k))\<rparr>"

definition lock_if_used_bst :: "'z bst_st_scheme \<Rightarrow> (unit, 'z bst_st_scheme) kres" where
  "lock_if_used_bst s = (if bst_use_lock s then acquire bst_lock bst_lock_update s else Ok () s)"

definition unlock_if_used_bst :: "'z bst_st_scheme \<Rightarrow> (unit, 'z bst_st_scheme) kres" where
  "unlock_if_used_bst s = (if bst_use_lock s then release bst_lock bst_lock_update s else Ok () s)"

section \<open>The pool and the tree\<close>

definition get_node :: "'z bst_st_scheme \<Rightarrow> nat option \<times> 'z bst_st_scheme" where
  "get_node s = (if 128 \<le> next_node_idx s then (None, s)
     else (Some (next_node_idx s), s\<lparr>next_node_idx := next_node_idx s + 1\<rparr>))"

definition free_node :: "nat \<Rightarrow> 'z bst_st_scheme \<Rightarrow> 'z bst_st_scheme" where
  "free_node node s = s"

text \<open>The order of the tree: by size, then by address.\<close>

definition before :: "u32 \<Rightarrow> u32 \<Rightarrow> bst_node \<Rightarrow> bool" where
  "before addr siz c \<longleftrightarrow> siz < bsize c \<or> siz = bsize c \<and> addr < baddr c"

text \<open>
  The search loop of \<^verbatim>\<open>bst_insert\<close> from a node on: the last node before the null pointer.  Like all loops and recursions over
  the links it does not return on a cyclic structure (\<open>None\<close>).
\<close>

partial_function (option) insert_parent :: "(nat \<Rightarrow> bst_node) \<Rightarrow> u32 \<Rightarrow> u32 \<Rightarrow> nat \<Rightarrow> nat option" where
  "insert_parent B addr siz current =
     (case (if before addr siz (B current) then bleft (B current) else bright (B current)) of
        None \<Rightarrow> Some current
      | Some c \<Rightarrow> insert_parent B addr siz c)"

definition bst_insert :: "u32 \<Rightarrow> u32 \<Rightarrow> 'z bst_st_scheme \<Rightarrow> (nat option \<times> 'z bst_st_scheme) option" where
  "bst_insert addr siz s =
     (case get_node s of
        (None, s) \<Rightarrow> Some (None, s)
      | (Some n, s) \<Rightarrow>
          let s = upd_node n (\<lambda>_. \<lparr>baddr = addr, bsize = siz, bleft = None, bright = None, bparent = None\<rparr>) s
          in case bst_root s of
               None \<Rightarrow> Some (Some n, s\<lparr>bst_root := Some n\<rparr>)
             | Some r \<Rightarrow>
                 (case insert_parent (bst_nodes s) addr siz r of
                    None \<Rightarrow> None
                  | Some q \<Rightarrow>
                      let s = upd_node n (\<lambda>x. x\<lparr>bparent := Some q\<rparr>) s
                      in Some (Some n, if before addr siz (bst_nodes s q)
                           then upd_node q (\<lambda>x. x\<lparr>bleft := Some n\<rparr>) s
                           else upd_node q (\<lambda>x. x\<lparr>bright := Some n\<rparr>) s)))"

partial_function (option) bst_min_node :: "(nat \<Rightarrow> bst_node) \<Rightarrow> nat \<Rightarrow> nat option" where
  "bst_min_node B node = (case bleft (B node) of None \<Rightarrow> Some node | Some l \<Rightarrow> bst_min_node B l)"

text \<open>The assignment of \<open>child\<close> to the link that leads to \<open>node\<close>, common to the first two cases of \<^verbatim>\<open>bst_delete\<close>.\<close>

definition replace_child :: "nat \<Rightarrow> nat option \<Rightarrow> 'z bst_st_scheme \<Rightarrow> 'z bst_st_scheme" where
  "replace_child node child s =
     (case bparent (bst_nodes s node) of
        None \<Rightarrow> s\<lparr>bst_root := child\<rparr>
      | Some q \<Rightarrow> if bleft (bst_nodes s q) = Some node then upd_node q (\<lambda>x. x\<lparr>bleft := child\<rparr>) s
                  else upd_node q (\<lambda>x. x\<lparr>bright := child\<rparr>) s)"

partial_function (option) bst_delete :: "nat option \<Rightarrow> 'z bst_st_scheme \<Rightarrow> 'z bst_st_scheme option" where
  "bst_delete node s =
     (case node of None \<Rightarrow> Some s
      | Some n \<Rightarrow>
        (case (bleft (bst_nodes s n), bright (bst_nodes s n)) of
           (None, None) \<Rightarrow> Some (free_node n (replace_child n None s))
         | (Some c, None) \<Rightarrow>
             Some (free_node n (upd_node c (\<lambda>x. x\<lparr>bparent := bparent (bst_nodes s n)\<rparr>) (replace_child n (Some c) s)))
         | (None, Some c) \<Rightarrow>
             Some (free_node n (upd_node c (\<lambda>x. x\<lparr>bparent := bparent (bst_nodes s n)\<rparr>) (replace_child n (Some c) s)))
         | (Some _, Some r) \<Rightarrow>
             (case bst_min_node (bst_nodes s) r of
                None \<Rightarrow> None
              | Some m \<Rightarrow> bst_delete (Some m)
                  (upd_node n (\<lambda>x. x\<lparr>baddr := baddr (bst_nodes s m), bsize := bsize (bst_nodes s m)\<rparr>) s))))"

partial_function (option) bst_find_best_fit ::
  "(nat \<Rightarrow> bst_node) \<Rightarrow> nat option \<Rightarrow> u32 \<Rightarrow> nat option \<Rightarrow> nat option option" where
  "bst_find_best_fit B node siz best =
     (case node of None \<Rightarrow> Some best
      | Some n \<Rightarrow>
          if siz \<le> bsize (B n)
          then bst_find_best_fit B (bleft (B n)) siz
                 (case best of None \<Rightarrow> Some n | Some b \<Rightarrow> if bsize (B n) < bsize (B b) then Some n else best)
          else bst_find_best_fit B (bright (B n)) siz best)"

section \<open>Coalescing\<close>

text \<open>The search of \<^verbatim>\<open>try_coalesce\<close> for a block at \<open>next\<close>, which compares addresses.\<close>

partial_function (option) coalesce_search :: "(nat \<Rightarrow> bst_node) \<Rightarrow> u32 \<Rightarrow> nat option \<Rightarrow> nat option option" where
  "coalesce_search B next current =
     (case current of None \<Rightarrow> Some None
      | Some c \<Rightarrow>
          if baddr (B c) = next then Some (Some c)
          else if next < baddr (B c) then coalesce_search B next (bleft (B c))
          else coalesce_search B next (bright (B c)))"

partial_function (option) try_coalesce :: "u32 \<Rightarrow> u32 \<Rightarrow> 'z bst_st_scheme \<Rightarrow> (u32 \<times> 'z bst_st_scheme) option" where
  "try_coalesce addr siz s =
     (case coalesce_search (bst_nodes s) (addr + siz) (bst_root s) of
        None \<Rightarrow> None
      | Some None \<Rightarrow> Some (siz, s)
      | Some (Some c) \<Rightarrow>
          (case bst_delete (Some c) s of
             None \<Rightarrow> None
           | Some s' \<Rightarrow> try_coalesce addr (siz + bsize (bst_nodes s c)) (s'\<lparr>num_blocks := num_blocks s' - 1\<rparr>)))"

section \<open>The allocator\<close>

definition kfree_bst :: "u32 \<Rightarrow> 'z bst_st_scheme \<Rightarrow> (unit, 'z bst_st_scheme) kres" where
  "kfree_bst v s =
     (if v mod PGSIZE \<noteq> 0 \<or> v < bst_end s \<or> PHYSTOP \<le> V2P v then Panic ''kfree'' s
      else andthen (lock_if_used_bst (s\<lparr>mem := memset (mem s) v 1 PGSIZE\<rparr>)) (\<lambda>_ s.
        case try_coalesce v PGSIZE s of
          None \<Rightarrow> Spin s
        | Some (siz, s) \<Rightarrow>
            (case bst_insert v siz s of
               None \<Rightarrow> Spin s
             | Some (n, s) \<Rightarrow>
                 let s = (if n \<noteq> None then s\<lparr>total_free := total_free s + siz, num_blocks := num_blocks s + 1\<rparr> else s)
                 in unlock_if_used_bst s)))"

definition kalloc_bst :: "'z bst_st_scheme \<Rightarrow> (u32, 'z bst_st_scheme) kres" where
  "kalloc_bst s =
     andthen (lock_if_used_bst s) (\<lambda>_ s.
     case bst_find_best_fit (bst_nodes s) (bst_root s) PGSIZE None of
       None \<Rightarrow> Spin s
     | Some None \<Rightarrow> andthen (unlock_if_used_bst s) (\<lambda>_ s. Ok 0 s)
     | Some (Some b) \<Rightarrow>
         let a = baddr (bst_nodes s b)
         in if PGSIZE < bsize (bst_nodes s b)
            then let s = upd_node b (\<lambda>x. x\<lparr>baddr := baddr x + PGSIZE, bsize := bsize x - PGSIZE\<rparr>) s
                 in andthen (unlock_if_used_bst (s\<lparr>total_free := total_free s - PGSIZE\<rparr>)) (\<lambda>_ s. Ok a s)
            else case bst_delete (Some b) s of
                   None \<Rightarrow> Spin s
                 | Some s \<Rightarrow>
                     andthen (unlock_if_used_bst (s\<lparr>num_blocks := num_blocks s - 1, total_free := total_free s - PGSIZE\<rparr>))
                       (\<lambda>_ s. Ok a s))"

lemma kfree_bst_Ok_bound: "kfree_bst v s = Ok r t \<Longrightarrow> unat (v + PGSIZE) = unat v + 4096"
proof -
  assume "kfree_bst v s = Ok r t"
  then have "V2P v < PHYSTOP" by (auto simp: kfree_bst_def split: if_splits)
  then have "unat v + 4096 < 2 ^ 32" unfolding V2P_def by unat_arith
  then show ?thesis by (simp add: unat_word_ariths)
qed

function freerange_bst_loop :: "u32 \<Rightarrow> u32 \<Rightarrow> 'z bst_st_scheme \<Rightarrow> (unit, 'z bst_st_scheme) kres" where
  "freerange_bst_loop p vend s =
     (if p + PGSIZE \<le> vend
      then andthen (kfree_bst p s) (\<lambda>_ s. freerange_bst_loop (p + PGSIZE) vend s)
      else Ok () s)"
  by pat_completeness auto
termination
proof (relation "measure (\<lambda>(p, vend, s). 2 ^ 32 - unat p)")
  fix p vend :: u32 and s t :: "'z bst_st_scheme" and r
  assume "kfree_bst p s = Ok r t"
  then have "unat (p + PGSIZE) = unat p + 4096" by (rule kfree_bst_Ok_bound)
  then show "((p + PGSIZE, vend, t), p, vend, s) \<in> measure (\<lambda>(p, vend, s). 2 ^ 32 - unat p)"
    using unat_u32_less [of p] by auto
qed simp

declare freerange_bst_loop.simps [simp del]

definition freerange_bst :: "u32 \<Rightarrow> u32 \<Rightarrow> 'z bst_st_scheme \<Rightarrow> (unit, 'z bst_st_scheme) kres" where
  "freerange_bst vstart vend s = freerange_bst_loop (PGROUNDUP vstart) vend s"

definition kinit1_bst :: "u32 \<Rightarrow> u32 \<Rightarrow> 'z bst_st_scheme \<Rightarrow> (unit, 'z bst_st_scheme) kres" where
  "kinit1_bst vstart vend s =
     freerange_bst vstart vend
       (s\<lparr>bst_lock := initlock ''kmem'' (bst_lock s), bst_use_lock := False, bst_root := None, total_free := 0,
          num_blocks := 0, next_node_idx := 0\<rparr>)"

definition kinit2_bst :: "u32 \<Rightarrow> u32 \<Rightarrow> 'z bst_st_scheme \<Rightarrow> (unit, 'z bst_st_scheme) kres" where
  "kinit2_bst vstart vend s = andthen (freerange_bst vstart vend s) (\<lambda>_ s. Ok () (s\<lparr>bst_use_lock := True\<rparr>))"

definition kfreemem :: "'z bst_st_scheme \<Rightarrow> (u32, 'z bst_st_scheme) kres" where
  "kfreemem s =
     andthen (lock_if_used_bst s) (\<lambda>_ s.
     let free = total_free s
     in andthen (unlock_if_used_bst s) (\<lambda>_ s. Ok free s))"

definition knumblocks :: "'z bst_st_scheme \<Rightarrow> (u32, 'z bst_st_scheme) kres" where
  "knumblocks s =
     andthen (lock_if_used_bst s) (\<lambda>_ s.
     let blocks = num_blocks s
     in andthen (unlock_if_used_bst s) (\<lambda>_ s. Ok blocks s))"

interpretation bk: spin_lock bst_lock bst_lock_update
  by unfold_locales simp_all

section \<open>Trees in the pool\<close>

text \<open>The links from \<open>p\<close> on form the tree \<open>t\<close> of node indices, the root of which has the parent \<open>par\<close>.\<close>

fun rep :: "(nat \<Rightarrow> bst_node) \<Rightarrow> nat option \<Rightarrow> nat option \<Rightarrow> nat tree \<Rightarrow> bool" where
  "rep B par p Leaf \<longleftrightarrow> p = None"
| "rep B par p (Node l k r) \<longleftrightarrow> p = Some k \<and> bparent (B k) = par
     \<and> rep B (Some k) (bleft (B k)) l \<and> rep B (Some k) (bright (B k)) r"

lemma rep_None [simp]: "rep B par None t \<longleftrightarrow> t = Leaf"
  by (cases t) auto

lemma rep_Some: "rep B par (Some k) t \<Longrightarrow> k \<in> set_tree t"
  by (cases t) auto

lemma rep_frame: "(\<And>k. k \<in> set_tree t \<Longrightarrow> B' k = B k) \<Longrightarrow> rep B' par p t = rep B par p t"
  by (induction t arbitrary: par p) auto

lemma rep_parent:
  assumes "rep B par p t" "k \<in> set_tree t"
  shows "p = Some k \<and> bparent (B k) = par \<or> (\<exists>q \<in> set_tree t. bparent (B k) = Some q)"
  using assms by (induction t arbitrary: par p) fastforce+

lemma rep_child:
  "rep B par p t \<Longrightarrow> k \<in> set_tree t \<Longrightarrow> bleft (B k) = Some c \<or> bright (B k) = Some c \<Longrightarrow> c \<in> set_tree t"
  by (induction t arbitrary: par p) (auto dest: rep_Some)

text \<open>Insertion.\<close>

fun bst_ins :: "(nat \<Rightarrow> bst_node) \<Rightarrow> u32 \<Rightarrow> u32 \<Rightarrow> nat \<Rightarrow> nat tree \<Rightarrow> nat tree" where
  "bst_ins B a z n Leaf = Node Leaf n Leaf"
| "bst_ins B a z n (Node l k r) = (if before a z (B k) then Node (bst_ins B a z n l) k r else Node l k (bst_ins B a z n r))"

lemma set_bst_ins [simp]: "set_tree (bst_ins B a z n t) = insert n (set_tree t)"
  by (induction t) auto

definition hang :: "nat \<Rightarrow> nat \<Rightarrow> u32 \<Rightarrow> u32 \<Rightarrow> (nat \<Rightarrow> bst_node) \<Rightarrow> (nat \<Rightarrow> bst_node)" where
  "hang n q a z B = B(n := \<lparr>baddr = a, bsize = z, bleft = None, bright = None, bparent = Some q\<rparr>,
     q := if before a z (B q) then (B q)\<lparr>bleft := Some n\<rparr> else (B q)\<lparr>bright := Some n\<rparr>)"

lemma hang_other: "x \<noteq> n \<Longrightarrow> x \<noteq> q \<Longrightarrow> hang n q a z B x = B x"
  by (simp add: hang_def)

lemma rep_hang: "n \<notin> set_tree t \<Longrightarrow> q \<notin> set_tree t \<Longrightarrow> rep (hang n q a z B) par p t = rep B par p t"
  by (rule rep_frame) (auto intro: hang_other)

lemma insert_parent_rep:
  assumes "rep B par (Some c) t" "distinct (inorder t)" "n \<notin> set_tree t"
  shows "\<exists>q \<in> set_tree t. insert_parent B a z c = Some q \<and> rep (hang n q a z B) par (Some c) (bst_ins B a z n t)"
  using assms
proof (induction t arbitrary: par c)
  case (Node l k r)
  have k: "k = c" "k \<noteq> n" using Node.prems by auto
  show ?case
  proof (cases "before a z (B k)")
    case True
    show ?thesis
    proof (cases "bleft (B k)")
      case None
      have "rep (hang n k a z B) (Some k) (bright (B k)) r = rep B (Some k) (bright (B k)) r"
        using Node.prems by (simp add: rep_hang)
      then have "rep (hang n k a z B) par (Some c) (bst_ins B a z n (Node l k r))"
        using Node.prems True None k by (simp add: hang_def)
      moreover have "insert_parent B a z c = Some k" using True None k by (subst insert_parent.simps) simp
      ultimately show ?thesis by auto
    next
      case (Some c')
      then have "rep B (Some k) (Some c') l" "distinct (inorder l)" "n \<notin> set_tree l" using Node.prems by auto
      then obtain q where q: "q \<in> set_tree l" "insert_parent B a z c' = Some q"
        "rep (hang n q a z B) (Some k) (Some c') (bst_ins B a z n l)" using Node.IH(1) by blast
      have "q \<noteq> k" "q \<notin> set_tree r" using Node.prems q(1) by auto
      then have "rep (hang n q a z B) (Some k) (bright (B k)) r = rep B (Some k) (bright (B k)) r" "hang n q a z B k = B k"
        using Node.prems k(2) by (simp_all add: rep_hang hang_other)
      then have "rep (hang n q a z B) par (Some c) (bst_ins B a z n (Node l k r))" using Node.prems True q(3) Some by simp
      moreover have "insert_parent B a z c = Some q" using True Some k q(2) by (subst insert_parent.simps) simp
      ultimately show ?thesis using q(1) by auto
    qed
  next
    case False
    show ?thesis
    proof (cases "bright (B k)")
      case None
      have "rep (hang n k a z B) (Some k) (bleft (B k)) l = rep B (Some k) (bleft (B k)) l"
        using Node.prems by (simp add: rep_hang)
      then have "rep (hang n k a z B) par (Some c) (bst_ins B a z n (Node l k r))"
        using Node.prems False None k by (simp add: hang_def)
      moreover have "insert_parent B a z c = Some k" using False None k by (subst insert_parent.simps) simp
      ultimately show ?thesis by auto
    next
      case (Some c')
      then have "rep B (Some k) (Some c') r" "distinct (inorder r)" "n \<notin> set_tree r" using Node.prems by auto
      then obtain q where q: "q \<in> set_tree r" "insert_parent B a z c' = Some q"
        "rep (hang n q a z B) (Some k) (Some c') (bst_ins B a z n r)" using Node.IH(2) by blast
      have "q \<noteq> k" "q \<notin> set_tree l" using Node.prems q(1) by auto
      then have "rep (hang n q a z B) (Some k) (bleft (B k)) l = rep B (Some k) (bleft (B k)) l" "hang n q a z B k = B k"
        using Node.prems k(2) by (simp_all add: rep_hang hang_other)
      then have "rep (hang n q a z B) par (Some c) (bst_ins B a z n (Node l k r))" using Node.prems False q(3) Some by simp
      moreover have "insert_parent B a z c = Some q" using False Some k q(2) by (subst insert_parent.simps) simp
      ultimately show ?thesis using q(1) by auto
    qed
  qed
qed simp

text \<open>Removal of a node with at most one child.\<close>

fun cut :: "nat \<Rightarrow> nat tree \<Rightarrow> nat tree" where
  "cut k Leaf = Leaf"
| "cut k (Node l x r) = (if x = k then (if l = Leaf then r else l) else Node (cut k l) x (cut k r))"

lemma cut_other [simp]: "k \<notin> set_tree t \<Longrightarrow> cut k t = t"
  by (induction t) auto

lemma inorder_cut:
  "rep B par p t \<Longrightarrow> distinct (inorder t) \<Longrightarrow> bleft (B k) = None \<or> bright (B k) = None \<Longrightarrow>
   inorder (cut k t) = filter (\<lambda>x. x \<noteq> k) (inorder t)"
  by (induction t arbitrary: par p) (auto simp: filter_id_conv)

definition relink :: "nat \<Rightarrow> nat option \<Rightarrow> (nat \<Rightarrow> bst_node) \<Rightarrow> (nat \<Rightarrow> bst_node)" where
  "relink k child B =
     (let B1 = (case bparent (B k) of None \<Rightarrow> B
          | Some q \<Rightarrow> B(q := if bleft (B q) = Some k then (B q)\<lparr>bleft := child\<rparr> else (B q)\<lparr>bright := child\<rparr>))
      in case child of None \<Rightarrow> B1 | Some c \<Rightarrow> B1(c := (B1 c)\<lparr>bparent := bparent (B k)\<rparr>))"

lemma relink_other: "Some x \<noteq> bparent (B k) \<Longrightarrow> Some x \<noteq> child \<Longrightarrow> relink k child B x = B x"
  by (auto simp: relink_def Let_def split: option.split)

lemma relink_root:
  assumes t: "rep B (Some k) (Some c) t" and d: "distinct (inorder t)" and par: "\<And>q. par = Some q \<Longrightarrow> q \<notin> set_tree t" "bparent (B k) = par" "k \<notin> set_tree t"
  shows "rep (relink k (Some c) B) par (Some c) t"
proof -
  obtain t1 t2 where e: "t = Node t1 c t2" using t by (cases t) auto
  have o: "relink k (Some c) B x = B x" if "x \<in> set_tree t" "x \<noteq> c" for x
    using that par(1) [of x] by (intro relink_other) (auto simp: par(2))
  have c: "relink k (Some c) B c = (B c)\<lparr>bparent := par\<rparr>"
    using par(1) [of c] e by (auto simp: relink_def Let_def par(2) split: option.split)
  have "rep (relink k (Some c) B) (Some c) (bleft (B c)) t1 = rep B (Some c) (bleft (B c)) t1"
    "rep (relink k (Some c) B) (Some c) (bright (B c)) t2 = rep B (Some c) (bright (B c)) t2"
    using o d e by (auto intro!: rep_frame)
  then show ?thesis using t by (simp add: e c)
qed

text \<open>Removing a node of one subtree of \<open>x\<close> leaves the other subtree alone, and \<open>x\<close> unless its child is removed.\<close>

lemma relink_sub:
  assumes "rep B (Some x) pl l" "k \<in> set_tree l" "x \<notin> set_tree l" "\<And>c. child = Some c \<Longrightarrow> c \<in> set_tree l"
    and "rep B (Some x) pr r" "x \<notin> set_tree r" "set_tree l \<inter> set_tree r = {}"
  shows "rep (relink k child B) (Some x) pr r" "pl \<noteq> Some k \<Longrightarrow> relink k child B x = B x"
    "pl = Some k \<Longrightarrow> relink k child B x = (if bleft (B x) = Some k then (B x)\<lparr>bleft := child\<rparr> else (B x)\<lparr>bright := child\<rparr>)"
proof -
  have q: "pl = Some k \<and> bparent (B k) = Some x \<or> (\<exists>q \<in> set_tree l. bparent (B k) = Some q)" by (rule rep_parent [OF assms(1,2)])
  have "rep (relink k child B) (Some x) pr r = rep B (Some x) pr r"
  proof (rule rep_frame, rule relink_other)
    fix y assume y: "y \<in> set_tree r"
    show "Some y \<noteq> bparent (B k)" using q y assms(6,7) by auto
    show "Some y \<noteq> child" using assms(4) [of y] y assms(7) by auto
  qed
  then show "rep (relink k child B) (Some x) pr r" using assms(5) by simp
  have c: "Some x \<noteq> child" using assms(3,4) by auto
  show "relink k child B x = B x" if "pl \<noteq> Some k"
    by (rule relink_other) (use that q c assms(3) in auto)
  show "relink k child B x = (if bleft (B x) = Some k then (B x)\<lparr>bleft := child\<rparr> else (B x)\<lparr>bright := child\<rparr>)" if "pl = Some k"
  proof -
    have "bparent (B k) = Some x" using assms(1) that by (cases l) auto
    then show ?thesis using c by (auto simp: relink_def Let_def split: option.split)
  qed
qed

lemma relink_rep:
  assumes "rep B par p t" "distinct (inorder t)" "k \<in> set_tree t" "\<And>q. par = Some q \<Longrightarrow> q \<notin> set_tree t"
    and "bleft (B k) = None \<and> child = bright (B k) \<or> bright (B k) = None \<and> child = bleft (B k)"
  shows "rep (relink k child B) par (if p = Some k then child else p) (cut k t)"
  using assms
proof (induction t arbitrary: par p)
  case (Node l x r)
  note pr = Node.prems
  let ?B = "relink k child B"
  have N: "p = Some x" "bparent (B x) = par" "rep B (Some x) (bleft (B x)) l" "rep B (Some x) (bright (B x)) r"
    "x \<notin> set_tree l" "x \<notin> set_tree r" "set_tree l \<inter> set_tree r = {}" "distinct (inorder l)" "distinct (inorder r)" using pr by auto
  consider (root) "x = k" | (left) "k \<in> set_tree l" | (right) "k \<in> set_tree r" using pr(3) by auto
  then show ?case
  proof cases
    case root
    have *: "rep ?B par child t'" if "rep B (Some k) child t'" "distinct (inorder t')" "set_tree t' \<subseteq> set_tree (Node l x r) - {k}" for t'
    proof (cases child)
      case (Some c)
      show ?thesis using relink_root [of B k c t' par] that pr(4) N(2) root unfolding Some by fastforce
    qed (use that in simp)
    have "rep ?B par child (if l = Leaf then r else l)"
    proof (cases "l = Leaf")
      case True
      then have "child = bright (B k)" using N(3) pr(5) root by auto
      then show ?thesis using * [of r] N root True by auto
    next
      case False
      then have "child = bleft (B k)" using N(3) pr(5) root by auto
      then show ?thesis using * [of l] N root False by auto
    qed
    then show ?thesis using root N(1) by simp
  next
    case left
    have c: "c \<in> set_tree l" if "child = Some c" for c using rep_child [OF N(3) left] pr(5) that by auto
    have IH: "rep ?B (Some x) (if bleft (B x) = Some k then child else bleft (B x)) (cut k l)"
      by (rule Node.IH(1) [OF N(3,8) left _ pr(5)]) (use N in auto)
    note sub = relink_sub [OF N(3) left N(5) c N(4,6,7)]
    have "x \<noteq> k" "k \<notin> set_tree r" using left N(5,7) by auto
    then show ?thesis using IH sub N(1,2) by (cases "bleft (B x) = Some k") auto
  next
    case right
    have c: "c \<in> set_tree r" if "child = Some c" for c using rep_child [OF N(4) right] pr(5) that by auto
    have IH: "rep ?B (Some x) (if bright (B x) = Some k then child else bright (B x)) (cut k r)"
      by (rule Node.IH(2) [OF N(4,9) right _ pr(5)]) (use N in auto)
    have "set_tree r \<inter> set_tree l = {}" using N(7) by auto
    note sub = relink_sub [OF N(4) right N(6) c N(3,5) this]
    have "x \<noteq> k" "k \<notin> set_tree l" using right N(6,7) by auto
    moreover have "bleft (B x) \<noteq> Some k" using rep_Some [of B "Some x" k l] N(3) calculation(2) by auto
    ultimately show ?thesis using IH sub N(1,2) by (cases "bright (B x) = Some k") auto
  qed
qed simp

section \<open>Deletion\<close>

definition blk :: "bst_node \<Rightarrow> u32 \<times> u32" where
  "blk x = (baddr x, bsize x)"

definition pool :: "'z bst_st_scheme \<Rightarrow> nat tree \<Rightarrow> bool" where
  "pool s t \<longleftrightarrow> rep (bst_nodes s) None (bst_root s) t \<and> distinct (inorder t) \<and> (\<forall>k \<in> set_tree t. k < next_node_idx s)"

text \<open>The free blocks, in the order of the tree.\<close>

definition frees :: "'z bst_st_scheme \<Rightarrow> nat tree \<Rightarrow> (u32 \<times> u32) list" where
  "frees s t = map (\<lambda>k. blk (bst_nodes s k)) (inorder t)"

lemma rep_links:
  "(\<And>k. k \<in> set_tree t \<Longrightarrow> bleft (B' k) = bleft (B k) \<and> bright (B' k) = bright (B k) \<and> bparent (B' k) = bparent (B k)) \<Longrightarrow>
   rep B' par p t = rep B par p t"
  by (induction t arbitrary: par p) auto

lemma blk_relink [simp]: "blk (relink k child B x) = blk (B x)"
  by (auto simp: relink_def Let_def blk_def split: option.split)

lemma bst_min_node_rep:
  "rep B par (Some c) t \<Longrightarrow> \<exists>m ys. bst_min_node B c = Some m \<and> inorder t = m # ys \<and> bleft (B m) = None"
proof (induction t arbitrary: par c)
  case (Node l k r)
  show ?case
  proof (cases l)
    case Leaf
    then show ?thesis using Node.prems by (auto simp: bst_min_node.simps)
  next
    case (Node l1 k' l2)
    then have "bleft (B k) = Some k'" using Node.prems by auto
    moreover have "\<exists>m ys. bst_min_node B k' = Some m \<and> inorder l = m # ys \<and> bleft (B m) = None"
      using Node.IH(1) [of "Some k" k'] Node.prems calculation by simp
    ultimately show ?thesis using Node.prems by (auto simp: bst_min_node.simps [of B k])
  qed
qed simp

lemma successor_rep:
  "rep B par p t \<Longrightarrow> k \<in> set_tree t \<Longrightarrow> bright (B k) = Some r \<Longrightarrow>
   \<exists>m xs ys. bst_min_node B r = Some m \<and> inorder t = xs @ k # m # ys \<and> bleft (B m) = None"
proof (induction t arbitrary: par p)
  case (Node l x u)
  consider "x = k" | "k \<in> set_tree l" | "k \<in> set_tree u" using Node.prems(2) by auto
  then show ?case
  proof cases
    case 1
    then show ?thesis using Node.prems bst_min_node_rep [of B "Some x" r u] by fastforce
  next
    case 2
    then obtain m xs ys where "bst_min_node B r = Some m" "inorder l = xs @ k # m # ys" "bleft (B m) = None" using Node by fastforce
    then show ?thesis by (intro exI [of _ m] exI [of _ xs] exI [of _ "ys @ x # inorder u"]) simp
  next
    case 3
    then obtain m xs ys where "bst_min_node B r = Some m" "inorder u = xs @ k # m # ys" "bleft (B m) = None" using Node by fastforce
    then show ?thesis by (intro exI [of _ m] exI [of _ "inorder l @ x # xs"] exI [of _ ys]) simp
  qed
qed simp

lemma replace_child_eq:
  assumes "rep (bst_nodes s) None (bst_root s) t" "k \<in> set_tree t"
  shows "(case child of None \<Rightarrow> replace_child k None s
      | Some c \<Rightarrow> upd_node c (\<lambda>x. x\<lparr>bparent := bparent (bst_nodes s k)\<rparr>) (replace_child k (Some c) s))
    = s\<lparr>bst_nodes := relink k child (bst_nodes s), bst_root := if bst_root s = Some k then child else bst_root s\<rparr>"
proof -
  have root: "bparent (bst_nodes s k) = None \<longleftrightarrow> bst_root s = Some k"
    using rep_parent [OF assms] assms by (cases t) auto
  show ?thesis
    by (cases "bparent (bst_nodes s k)"; cases child)
      (use root in \<open>auto simp: replace_child_def relink_def upd_node_def Let_def intro!: bst_st.equality\<close>)
qed

lemma bst_delete_simple:
  assumes "rep (bst_nodes s) None (bst_root s) t" "k \<in> set_tree t"
    and "bleft (bst_nodes s k) = None \<or> bright (bst_nodes s k) = None"
    and "child = (if bleft (bst_nodes s k) = None then bright (bst_nodes s k) else bleft (bst_nodes s k))"
  shows "bst_delete (Some k) s
    = Some (s\<lparr>bst_nodes := relink k child (bst_nodes s), bst_root := if bst_root s = Some k then child else bst_root s\<rparr>)"
  unfolding replace_child_eq [OF assms(1,2), symmetric]
  using assms(3,4) by (subst bst_delete.simps) (auto simp: free_node_def split: option.splits)

lemma delete_simple_pool:
  assumes p: "pool s t" and k: "k \<in> set_tree t" "inorder t = xs @ k # ys" "bleft (bst_nodes s k) = None \<or> bright (bst_nodes s k) = None"
  obtains B r t' where "bst_delete (Some k) s = Some (s\<lparr>bst_nodes := B, bst_root := r\<rparr>)" "pool (s\<lparr>bst_nodes := B, bst_root := r\<rparr>) t'"
    "inorder t' = xs @ ys" "\<And>x. blk (B x) = blk (bst_nodes s x)"
proof -
  let ?B = "bst_nodes s"
  define child where "child = (if bleft (?B k) = None then bright (?B k) else bleft (?B k))"
  have r: "rep ?B None (bst_root s) t" and d: "distinct (inorder t)" using p by (simp_all add: pool_def)
  have e: "bst_delete (Some k) s = Some (s\<lparr>bst_nodes := relink k child ?B, bst_root := if bst_root s = Some k then child else bst_root s\<rparr>)"
    by (rule bst_delete_simple [OF r k(1,3) child_def])
  have "filter (\<lambda>x. x \<noteq> k) zs = zs" if "k \<notin> set zs" for zs using that by (induction zs) auto
  then have i: "inorder (cut k t) = xs @ ys" using inorder_cut [OF r d k(3)] k(2) d by simp
  have "rep (relink k child ?B) None (if bst_root s = Some k then child else bst_root s) (cut k t)"
    by (rule relink_rep [OF r d k(1)]) (use k(3) in \<open>auto simp: child_def\<close>)
  moreover have "set_tree (cut k t) \<subseteq> set_tree t" unfolding set_inorder [symmetric] i k(2) by auto
  ultimately have "pool (s\<lparr>bst_nodes := relink k child ?B, bst_root := if bst_root s = Some k then child else bst_root s\<rparr>) (cut k t)"
    using p d i k(2) by (auto simp: pool_def)
  then show thesis using that [OF e _ i] by simp
qed

lemma bst_delete_pool:
  assumes p: "pool s t" and k: "k \<in> set_tree t"
  obtains B r t' xs ys where "bst_delete (Some k) s = Some (s\<lparr>bst_nodes := B, bst_root := r\<rparr>)" "pool (s\<lparr>bst_nodes := B, bst_root := r\<rparr>) t'"
    "frees s t = xs @ blk (bst_nodes s k) # ys" "frees (s\<lparr>bst_nodes := B, bst_root := r\<rparr>) t' = xs @ ys"
proof (cases "bleft (bst_nodes s k) = None \<or> bright (bst_nodes s k) = None")
  case True
  obtain xs ys where i: "inorder t = xs @ k # ys" using k by (metis set_inorder split_list)
  obtain B r t' where d: "bst_delete (Some k) s = Some (s\<lparr>bst_nodes := B, bst_root := r\<rparr>)" "pool (s\<lparr>bst_nodes := B, bst_root := r\<rparr>) t'"
    "inorder t' = xs @ ys" "\<And>x. blk (B x) = blk (bst_nodes s x)"
    by (rule delete_simple_pool [OF p k i True]) blast
  show thesis by (rule that [OF d(1,2)]) (simp_all add: frees_def i d(3,4))
next
  case False
  let ?B = "bst_nodes s"
  from False obtain c d where cd: "bleft (?B k) = Some c" "bright (?B k) = Some d" by auto
  have r: "rep ?B None (bst_root s) t" and dt: "distinct (inorder t)" using p by (simp_all add: pool_def)
  obtain m xs ys where m: "bst_min_node ?B d = Some m" "inorder t = xs @ k # m # ys" "bleft (?B m) = None"
    using successor_rep [OF r k cd(2)] by blast
  define s1 where "s1 = upd_node k (\<lambda>x. x\<lparr>baddr := baddr (?B m), bsize := bsize (?B m)\<rparr>) s"
  have "m \<noteq> k" using m(2) dt by auto
  then have b: "bleft (bst_nodes s1 m) = None" "blk (bst_nodes s1 k) = blk (?B m)" "x \<noteq> k \<Longrightarrow> bst_nodes s1 x = ?B x" for x
    using m(3) by (simp_all add: s1_def upd_node_def blk_def)
  have "rep (bst_nodes s1) None (bst_root s) t" using r by (subst rep_links [of t _ ?B]) (simp_all add: s1_def upd_node_def)
  then have p1: "pool s1 t" using p by (simp add: pool_def s1_def upd_node_def)
  have m': "m \<in> set_tree t" "inorder t = (xs @ [k]) @ m # ys" using m(2) by (auto simp flip: set_inorder)
  obtain B rt t' where d: "bst_delete (Some m) s1 = Some (s1\<lparr>bst_nodes := B, bst_root := rt\<rparr>)" "pool (s1\<lparr>bst_nodes := B, bst_root := rt\<rparr>) t'"
    "inorder t' = (xs @ [k]) @ ys" "\<And>x. blk (B x) = blk (bst_nodes s1 x)"
    by (rule delete_simple_pool [OF p1 m' disjI1 [OF b(1)]]) blast
  have s1: "s1\<lparr>bst_nodes := B, bst_root := rt\<rparr> = s\<lparr>bst_nodes := B, bst_root := rt\<rparr>" by (simp add: s1_def upd_node_def)
  have e: "bst_delete (Some k) s = Some (s\<lparr>bst_nodes := B, bst_root := rt\<rparr>)"
    using cd m(1) d(1) by (subst bst_delete.simps) (simp add: s1_def upd_node_def)
  have "map (\<lambda>x. blk (bst_nodes s1 x)) xs = map (\<lambda>x. blk (?B x)) xs" "map (\<lambda>x. blk (bst_nodes s1 x)) ys = map (\<lambda>x. blk (?B x)) ys"
    using m(2) dt by (auto intro!: arg_cong [where f = blk] b(3))
  then show thesis
    using that [OF e, of t' "map (\<lambda>x. blk (?B x)) xs" "map (\<lambda>x. blk (?B x)) (m # ys)"] d(2-4) m(2) b(2) s1 by (simp add: frees_def)
qed

section \<open>Insertion and search\<close>

definition less_blk :: "u32 \<times> u32 \<Rightarrow> u32 \<times> u32 \<Rightarrow> bool" where
  "less_blk b c \<longleftrightarrow> snd b < snd c \<or> snd b = snd c \<and> fst b < fst c"

lemma before_blk: "before a z x = less_blk (a, z) (blk x)"
  by (simp add: before_def less_blk_def blk_def)

lemma less_blk_trans: "less_blk b c \<Longrightarrow> less_blk c d \<Longrightarrow> less_blk b d"
  by (auto simp: less_blk_def)

lemma less_blk_total: "\<not> less_blk b c \<Longrightarrow> b \<noteq> c \<Longrightarrow> less_blk c b"
  by (auto simp: less_blk_def prod_eq_iff)

lemma inorder_bst_ins:
  assumes "sorted_wrt less_blk (map (\<lambda>k. blk (B k)) (inorder t))" "(a, z) \<notin> (\<lambda>k. blk (B k)) ` set_tree t"
  shows "\<exists>xs ys. inorder t = xs @ ys \<and> inorder (bst_ins B a z n t) = xs @ n # ys
    \<and> (\<forall>x \<in> set xs. less_blk (blk (B x)) (a, z)) \<and> (\<forall>y \<in> set ys. less_blk (a, z) (blk (B y)))"
  using assms
proof (induction t)
  case (Node l k r)
  have s: "sorted_wrt less_blk (map (\<lambda>k. blk (B k)) (inorder l))" "sorted_wrt less_blk (map (\<lambda>k. blk (B k)) (inorder r))"
    and o: "\<forall>x \<in> set_tree l. less_blk (blk (B x)) (blk (B k))" "\<forall>y \<in> set_tree r. less_blk (blk (B k)) (blk (B y))"
    using Node.prems(1) by (auto simp: sorted_wrt_append)
  show ?case
  proof (cases "before a z (B k)")
    case True
    obtain xs ys where "inorder l = xs @ ys" "inorder (bst_ins B a z n l) = xs @ n # ys"
      "\<forall>x \<in> set xs. less_blk (blk (B x)) (a, z)" "\<forall>y \<in> set ys. less_blk (a, z) (blk (B y))"
      using Node.IH(1) [OF s(1)] Node.prems(2) by auto
    moreover have "\<forall>y \<in> set_tree r. less_blk (a, z) (blk (B y))" "less_blk (a, z) (blk (B k))"
      using True o(2) less_blk_trans by (auto simp: before_blk)
    ultimately have "inorder (Node l k r) = xs @ (ys @ k # inorder r) \<and> inorder (bst_ins B a z n (Node l k r)) = xs @ n # (ys @ k # inorder r)
      \<and> (\<forall>x \<in> set xs. less_blk (blk (B x)) (a, z)) \<and> (\<forall>y \<in> set (ys @ k # inorder r). less_blk (a, z) (blk (B y)))" using True by auto
    then show ?thesis by blast
  next
    case False
    then have "less_blk (blk (B k)) (a, z)" using less_blk_total [of "(a, z)" "blk (B k)"] Node.prems(2) by (auto simp: before_blk)
    moreover have "\<forall>y \<in> set_tree l. less_blk (blk (B y)) (a, z)" using calculation o(1) less_blk_trans by blast
    moreover obtain xs ys where "inorder r = xs @ ys" "inorder (bst_ins B a z n r) = xs @ n # ys"
      "\<forall>x \<in> set xs. less_blk (blk (B x)) (a, z)" "\<forall>y \<in> set ys. less_blk (a, z) (blk (B y))"
      using Node.IH(2) [OF s(2)] Node.prems(2) by auto
    ultimately have "inorder (Node l k r) = (inorder l @ k # xs) @ ys \<and> inorder (bst_ins B a z n (Node l k r)) = (inorder l @ k # xs) @ n # ys
      \<and> (\<forall>x \<in> set (inorder l @ k # xs). less_blk (blk (B x)) (a, z)) \<and> (\<forall>y \<in> set ys. less_blk (a, z) (blk (B y)))" using False by auto
    then show ?thesis by blast
  qed
qed simp

lemma mset_bst_ins: "mset (inorder (bst_ins B a z n t)) = add_mset n (mset (inorder t))"
  by (induction t) auto

lemma bst_insert_pool:
  assumes p: "pool s t" and n: "next_node_idx s < 128"
  obtains B r t' where "bst_insert a z s = Some (Some (next_node_idx s), s\<lparr>bst_nodes := B, bst_root := r, next_node_idx := next_node_idx s + 1\<rparr>)"
    "pool (s\<lparr>bst_nodes := B, bst_root := r, next_node_idx := next_node_idx s + 1\<rparr>) t'"
    "mset (frees (s\<lparr>bst_nodes := B, bst_root := r, next_node_idx := next_node_idx s + 1\<rparr>) t') = add_mset (a, z) (mset (frees s t))"
    "sorted_wrt less_blk (frees s t) \<Longrightarrow> (a, z) \<notin> set (frees s t)
       \<Longrightarrow> sorted_wrt less_blk (frees (s\<lparr>bst_nodes := B, bst_root := r, next_node_idx := next_node_idx s + 1\<rparr>) t')"
proof -
  let ?n = "next_node_idx s"
  let ?x = "\<lparr>baddr = a, bsize = z, bleft = None, bright = None, bparent = None\<rparr>"
  let ?C = "(bst_nodes s)(?n := ?x)"
  have r: "rep (bst_nodes s) None (bst_root s) t" and d: "distinct (inorder t)" and nn: "?n \<notin> set_tree t" using p by (auto simp: pool_def)
  show thesis
  proof (cases "bst_root s")
    case None
    then have "t = Leaf" using r by simp
    then show thesis
      using None n by (intro that [where B = ?C and r = "Some ?n" and t' = "Node Leaf ?n Leaf"])
        (simp_all add: bst_insert_def get_node_def upd_node_def pool_def frees_def blk_def)
  next
    case (Some c)
    have "rep ?C None (Some c) t = rep (bst_nodes s) None (Some c) t" by (rule rep_frame) (use nn in auto)
    then have rC: "rep ?C None (Some c) t" using r Some by simp
    obtain q where q: "q \<in> set_tree t" "insert_parent ?C a z c = Some q" "rep (hang ?n q a z ?C) None (Some c) (bst_ins ?C a z ?n t)"
      using insert_parent_rep [OF rC d nn] by blast
    have h: "hang ?n q a z ?C = hang ?n q a z (bst_nodes s)" using q(1) nn by (auto simp: hang_def fun_eq_iff)
    have qn: "q \<noteq> ?n" using q(1) nn by auto
    have e: "bst_insert a z s = Some (Some ?n, s\<lparr>bst_nodes := hang ?n q a z ?C, bst_root := Some c, next_node_idx := ?n + 1\<rparr>)"
      using n Some q(2) qn by (auto simp: bst_insert_def get_node_def upd_node_def hang_def Let_def fun_eq_iff intro!: bst_st.equality)
    let ?s = "s\<lparr>bst_nodes := hang ?n q a z ?C, bst_root := Some c, next_node_idx := ?n + 1\<rparr>"
    let ?t = "bst_ins ?C a z ?n t"
    have bl: "blk (hang ?n q a z ?C x) = (if x = ?n then (a, z) else blk (bst_nodes s x))" for x
      using qn by (auto simp: hang_def blk_def)
    have "distinct (inorder ?t)" using mset_bst_ins [of ?C a z ?n t] d nn
      by (metis distinct_count_atmost_1 add_mset_add_single mset_eq_imp_distinct_iff distinct.simps(2) mset.simps(2) set_inorder)
    then have pl: "pool ?s ?t" using q(3) p by (auto simp: pool_def less_Suc_eq)
    have bt: "map (\<lambda>k. blk (hang ?n q a z ?C k)) xs = map (\<lambda>k. blk (bst_nodes s k)) xs" if "?n \<notin> set xs" for xs using that bl by auto
    have ms: "mset (frees ?s ?t) = add_mset (a, z) (mset (frees s t))"
    proof -
      have "mset (frees ?s ?t) = image_mset (\<lambda>k. blk (hang ?n q a z ?C k)) (add_mset ?n (mset (inorder t)))"
        by (simp add: frees_def mset_bst_ins)
      also have "\<dots> = add_mset (blk (hang ?n q a z ?C ?n)) (mset (map (\<lambda>k. blk (hang ?n q a z ?C k)) (inorder t)))" by simp
      also have "\<dots> = add_mset (a, z) (mset (frees s t))" proof -
        have "?n \<notin> set (inorder t)" using nn by simp
        from bt [OF this] show ?thesis unfolding frees_def by (simp only: bl [of ?n] if_True simp_thms)
      qed
      finally show ?thesis .
    qed
    have "sorted_wrt less_blk (frees ?s ?t)" if so: "sorted_wrt less_blk (frees s t)" "(a, z) \<notin> set (frees s t)"
    proof -
      have bC: "map (\<lambda>k. blk (?C k)) xs = map (\<lambda>k. blk (bst_nodes s k)) xs" if "?n \<notin> set xs" for xs using that by auto
      obtain xs ys where xy: "inorder t = xs @ ys" "inorder ?t = xs @ ?n # ys"
        "\<forall>x \<in> set xs. less_blk (blk (?C x)) (a, z)" "\<forall>y \<in> set ys. less_blk (a, z) (blk (?C y))"
      proof -
        have "?n \<notin> set (inorder t)" using nn by simp
        from bC [OF this] have "sorted_wrt less_blk (map (\<lambda>k. blk (?C k)) (inorder t))" using so(1) by (simp only: frees_def)
        moreover have "(a, z) \<notin> (\<lambda>k. blk (?C k)) ` set_tree t" using so(2) nn by (auto simp: frees_def)
        ultimately show thesis using inorder_bst_ins [of ?C t a z ?n] that by blast
      qed
      have nx: "?n \<notin> set xs" "?n \<notin> set ys" using nn xy(1) by (auto simp flip: set_inorder)
      have "frees ?s ?t = map (\<lambda>k. blk (hang ?n q a z ?C k)) xs @ blk (hang ?n q a z ?C ?n) # map (\<lambda>k. blk (hang ?n q a z ?C k)) ys"
        by (simp add: frees_def xy(2))
      then have f: "frees ?s ?t = map (\<lambda>k. blk (bst_nodes s k)) xs @ (a, z) # map (\<lambda>k. blk (bst_nodes s k)) ys"
        by (simp only: bt [OF nx(1)] bt [OF nx(2)] bl [of ?n] if_True simp_thms)
      have "\<forall>x \<in> set xs. less_blk (blk (bst_nodes s x)) (a, z)" "\<forall>y \<in> set ys. less_blk (a, z) (blk (bst_nodes s y))"
        using xy(3,4) nx by (metis fun_upd_other)+
      then show ?thesis using so(1) unfolding f by (auto simp: frees_def sorted_wrt_append xy(1))
    qed
    then show thesis using that [OF e pl ms] by blast
  qed
qed

lemma coalesce_search_rep:
  "rep B par p t \<Longrightarrow> \<exists>r. coalesce_search B x p = Some r \<and> (\<forall>k. r = Some k \<longrightarrow> k \<in> set_tree t \<and> baddr (B k) = x)"
proof (induction t arbitrary: par p)
  case (Node l k r)
  then show ?case by (subst coalesce_search.simps) fastforce
qed (simp add: coalesce_search.simps)

text \<open>The search for the best fit ends; a fitting candidate is never lost.\<close>

lemma best_fit_rep:
  "rep B par p t \<Longrightarrow> \<exists>r. bst_find_best_fit B p z best = Some r
     \<and> (r = best \<or> (\<exists>k \<in> set_tree t. r = Some k \<and> z \<le> bsize (B k))) \<and> (best \<noteq> None \<longrightarrow> r \<noteq> None)
     \<and> (t \<noteq> Leaf \<and> (\<forall>k \<in> set_tree t. z \<le> bsize (B k)) \<longrightarrow> r \<noteq> None)"
proof (induction t arbitrary: par p best)
  case (Node l k r)
  let ?best = "case best of None \<Rightarrow> Some k | Some b \<Rightarrow> if bsize (B k) < bsize (B b) then Some k else best"
  show ?case
  proof (cases "z \<le> bsize (B k)")
    case True
    have "\<exists>x. bst_find_best_fit B (bleft (B k)) z ?best = Some x
     \<and> (x = ?best \<or> (\<exists>k \<in> set_tree l. x = Some k \<and> z \<le> bsize (B k))) \<and> (?best \<noteq> None \<longrightarrow> x \<noteq> None)"
      using Node.IH(1) [of "Some k" "bleft (B k)" ?best] Node.prems by auto
    then show ?thesis using Node.prems True by (subst bst_find_best_fit.simps) (auto split: option.splits if_splits)
  next
    case False
    have "\<exists>x. bst_find_best_fit B (bright (B k)) z best = Some x
     \<and> (x = best \<or> (\<exists>k \<in> set_tree r. x = Some k \<and> z \<le> bsize (B k))) \<and> (best \<noteq> None \<longrightarrow> x \<noteq> None)"
      using Node.IH(2) [of "Some k" "bright (B k)" best] Node.prems by auto
    then show ?thesis using Node.prems False by (subst bst_find_best_fit.simps) auto
  qed
qed (simp add: bst_find_best_fit.simps)

section \<open>Memory covered by blocks\<close>

definition span :: "u32 \<times> u32 \<Rightarrow> u32 set" where
  "span b = {x. x - fst b < snd b}"

definition covers :: "(u32 \<times> u32) list \<Rightarrow> u32 set" where
  "covers bs = (\<Union>b \<in> set bs. span b)"

text \<open>Blocks that do not overlap have as many bytes in all as addresses.\<close>

definition tight :: "(u32 \<times> u32) list \<Rightarrow> bool" where
  "tight bs \<longleftrightarrow> sum_list (map (\<lambda>b. unat (snd b)) bs) = card (covers bs)"

lemma covers_simps [simp]:
  "covers [] = {}" "covers (b # bs) = span b \<union> covers bs" "covers (xs @ ys) = covers xs \<union> covers ys"
  by (auto simp: covers_def)

lemma covers_mset: "mset bs = mset cs \<Longrightarrow> covers bs = covers cs"
  unfolding covers_def by (metis set_mset_mset)

lemma tight_mset: "mset bs = mset cs \<Longrightarrow> tight bs = tight cs"
proof -
  assume m: "mset bs = mset cs"
  have "sum_list (map (\<lambda>b. unat (snd b)) bs) = sum_list (map (\<lambda>b. unat (snd b)) cs)"
    using m by (simp flip: sum_mset_sum_list)
  then show ?thesis using covers_mset [OF m] by (simp add: tight_def)
qed

lemma card_span: "card (span b) = unat (snd b)"
proof -
  have u: "unat (of_nat i :: u32) = i" if "i < unat (snd b)" for i
    using that unat_u32_less [of "snd b"] by (intro unat_of_nat_u32) simp
  have "span b = (\<lambda>i. of_nat i + fst b) ` {..<unat (snd b)}"
  proof
    show "span b \<subseteq> (\<lambda>i. of_nat i + fst b) ` {..<unat (snd b)}"
    proof
      fix x assume "x \<in> span b"
      then have "unat (x - fst b) < unat (snd b)" by (simp add: span_def word_less_nat_alt)
      then show "x \<in> (\<lambda>i. of_nat i + fst b) ` {..<unat (snd b)}" by (intro image_eqI [of _ _ "unat (x - fst b)"]) simp_all
    qed
    show "(\<lambda>i. of_nat i + fst b) ` {..<unat (snd b)} \<subseteq> span b"
      using u by (auto simp: span_def word_less_nat_alt)
  qed
  moreover have "inj_on (\<lambda>i. of_nat i + fst b :: u32) {..<unat (snd b)}"
  proof (rule inj_onI)
    fix i j assume ij: "i \<in> {..<unat (snd b)}" "j \<in> {..<unat (snd b)}" and "of_nat i + fst b = (of_nat j + fst b :: u32)"
    then have "(of_nat i :: u32) = of_nat j" by (simp only: add_right_cancel)
    then have "unat (of_nat i :: u32) = unat (of_nat j :: u32)" by (rule arg_cong)
    with ij show "i = j" by (simp only: u lessThan_iff)
  qed
  ultimately show ?thesis by (simp add: card_image)
qed

lemma card_covers_le: "card (covers bs) \<le> sum_list (map (\<lambda>b. unat (snd b)) bs)"
proof (induction bs)
  case (Cons b bs)
  then show ?case using card_Un_le [of "span b" "covers bs"] by (simp add: card_span)
qed simp

lemma tight_Cons: "tight (b # bs) \<longleftrightarrow> tight bs \<and> span b \<inter> covers bs = {}"
proof -
  have "card (span b \<union> covers bs) + card (span b \<inter> covers bs) = unat (snd b) + card (covers bs)"
    using card_Un_Int [of "span b" "covers bs"] by (simp add: card_span)
  moreover have "card (span b \<inter> covers bs) = 0 \<longleftrightarrow> span b \<inter> covers bs = {}" by simp
  moreover have "tight (b # bs) \<longleftrightarrow> unat (snd b) + sum_list (map (\<lambda>b. unat (snd b)) bs) = card (span b \<union> covers bs)"
    by (simp add: tight_def)
  moreover have "tight bs \<longleftrightarrow> sum_list (map (\<lambda>b. unat (snd b)) bs) = card (covers bs)" by (simp add: tight_def)
  ultimately show ?thesis using card_covers_le [of bs] by linarith
qed

lemma tight_mid: "tight (xs @ b # ys) \<longleftrightarrow> tight (b # xs @ ys)" "covers (xs @ b # ys) = span b \<union> covers (xs @ ys)"
  by (rule tight_mset, simp) auto

lemma covers_room:
  assumes "tight bs" "0 \<notin> covers bs"
  shows "sum_list (map (\<lambda>b. unat (snd b)) bs) < 2 ^ 32"
proof -
  have "covers bs \<subset> UNIV" using assms(2) by auto
  then have "card (covers bs) < card (UNIV :: u32 set)" by (intro psubset_card_mono) auto
  then show ?thesis using assms(1) by (simp add: tight_def card_word)
qed

lemma span_append:
  assumes "unat z + unat y < 2 ^ 32"
  shows "span (a, z + y) = span (a, z) \<union> span (a + z, y)"
proof -
  have "unat (z + y) = unat z + unat y" using assms by (simp add: unat_word_ariths)
  then have "x - a < z + y \<longleftrightarrow> x - a < z \<or> x - (a + z) < y" for x
    using unat_sub_if_size [of "x - a" z] assms unat_u32_less [of "x - a"]
    by (auto simp: word_less_nat_alt word_le_nat_alt word_size diff_diff_eq)
  then show ?thesis by (auto simp: span_def)
qed

lemma span_start: "z \<noteq> 0 \<Longrightarrow> a \<in> span (a, z)"
  by (simp add: span_def word_gt_0)

lemma page_in_span:
  assumes "page_aligned v" "page_aligned a" "page_aligned z" "x \<in> span (v, PGSIZE)" "x \<in> span (a, z)"
  shows "v \<in> span (a, z)"
proof -
  have i: "unat (x - v) < 4096" using assms(4) by (simp add: span_def word_less_nat_alt)
  have d: "4096 dvd unat (v - a)" using page_aligned_sub [OF assms(1,2)] by (simp add: page_aligned_iff)
  then obtain k where k: "unat (v - a) = 4096 * k" by blast
  with unat_u32_less [of "v - a"] have "k < 1048576" by simp
  with k i have "unat (v - a) + unat (x - v) < 2 ^ 32" by simp
  then have "unat ((v - a) + (x - v)) = unat (v - a) + unat (x - v)" by (simp only: unat_word_ariths(1)) simp
  then have "unat (v - a) \<le> unat (x - a)" by simp
  then show ?thesis using assms(5) by (simp add: span_def word_less_nat_alt)
qed

section \<open>The invariant of the allocator\<close>

definition heap_ok :: "'z bst_st_scheme \<Rightarrow> nat tree \<Rightarrow> bool" where
  "heap_ok s t \<longleftrightarrow> pool s t \<and> tight (frees s t) \<and> 0 \<notin> covers (frees s t)
     \<and> (\<forall>b \<in> set (frees s t). page_aligned (fst b) \<and> page_aligned (snd b) \<and> snd b \<noteq> 0)"

text \<open>The lock is off, or free and ours to take.\<close>

definition bst_ready :: "'z bst_st_scheme \<Rightarrow> bool" where
  "bst_ready s \<longleftrightarrow> (bst_use_lock s \<longrightarrow> (\<exists>i. on_cpu s i) \<and> \<not> locked (bst_lock s) \<and> lcpu (bst_lock s) = None)"

definition same_heap :: "'z bst_st_scheme \<Rightarrow> 'z bst_st_scheme \<Rightarrow> bool" where
  "same_heap s u \<longleftrightarrow> bst_nodes u = bst_nodes s \<and> bst_root u = bst_root s \<and> next_node_idx u = next_node_idx s
     \<and> total_free u = total_free s \<and> num_blocks u = num_blocks s \<and> mem u = mem s \<and> bst_end u = bst_end s \<and> bst_use_lock u = bst_use_lock s"

lemma pool_upd [simp]:
  "pool (s\<lparr>num_blocks := x\<rparr>) t = pool s t" "pool (s\<lparr>total_free := y\<rparr>) t = pool s t"
  "frees (s\<lparr>num_blocks := x\<rparr>) t = frees s t" "frees (s\<lparr>total_free := y\<rparr>) t = frees s t"
  by (simp_all add: pool_def frees_def)

lemma same_heap_ok: "same_heap s u \<Longrightarrow> pool u t = pool s t \<and> frees u t = frees s t \<and> heap_ok u t = heap_ok s t"
  by (simp add: same_heap_def heap_ok_def pool_def frees_def)

lemma bst_section:
  assumes "bst_ready s"
  obtains h where "lock_if_used_bst s = Ok () h" "same_heap s h"
    "\<And>B r f n k. \<exists>u. unlock_if_used_bst (h\<lparr>bst_nodes := B, bst_root := r, total_free := f, num_blocks := n, next_node_idx := k\<rparr>) = Ok () u
       \<and> same_heap (h\<lparr>bst_nodes := B, bst_root := r, total_free := f, num_blocks := n, next_node_idx := k\<rparr>) u \<and> bst_ready u"
proof (cases "bst_use_lock s")
  case False
  then show thesis
    by (intro that [of s]) (auto simp: lock_if_used_bst_def unlock_if_used_bst_def same_heap_def bst_ready_def)
next
  case True
  then obtain i where i: "on_cpu s i" "\<not> locked (bst_lock s)" "lcpu (bst_lock s) = None" using assms by (auto simp: bst_ready_def)
  let ?h = "bk.held i s"
  have a: "lock_if_used_bst s = Ok () ?h" using True bk.acquire_free [OF i(1,2)] by (simp add: lock_if_used_bst_def)
  have h: "same_heap s ?h" by (simp add: same_heap_def bk.held_def pushed_def)
  have "\<exists>u. unlock_if_used_bst t = Ok () u \<and> same_heap t u \<and> bst_ready u"
    if t: "t = ?h\<lparr>bst_nodes := B, bst_root := r, total_free := f, num_blocks := n, next_node_idx := k\<rparr>" for t B r f n k
  proof -
    have "release bst_lock bst_lock_update t = Ok () (bk.leave i s t)"
      by (rule bk.release_leave [OF i]) (simp_all add: t bk.held_def pushed_def)
    moreover have "bst_use_lock t" using True by (simp add: t bk.held_def pushed_def)
    moreover have "same_heap t (bk.leave i s t)" by (simp add: same_heap_def bk.leave_def)
    moreover have "lapicid t = lapicid s" by (simp add: t bk.held_def pushed_def)
    then have "on_cpu (bk.leave i s t) i" using on_cpu_settled [OF i(1)] by (simp add: on_cpu_def bk.leave_def)
    then have "bst_ready (bk.leave i s t)" using i by (auto simp: bst_ready_def bk.leave_def)
    ultimately show ?thesis by (simp add: unlock_if_used_bst_def)
  qed
  then show thesis using that [OF a h] by blast
qed

lemma try_coalesce_ok:
  assumes "pool s t" "tight ((a, z) # frees s t)" "0 \<notin> covers ((a, z) # frees s t)" "z \<noteq> 0" "page_aligned z"
    and "\<forall>b \<in> set (frees s t). page_aligned (fst b) \<and> page_aligned (snd b) \<and> snd b \<noteq> 0"
  shows "\<exists>z' B r n t'. try_coalesce a z s = Some (z', s\<lparr>bst_nodes := B, bst_root := r, num_blocks := n\<rparr>)
    \<and> pool (s\<lparr>bst_nodes := B, bst_root := r, num_blocks := n\<rparr>) t' \<and> set (frees (s\<lparr>bst_nodes := B, bst_root := r, num_blocks := n\<rparr>) t') \<subseteq> set (frees s t)
    \<and> tight ((a, z') # frees (s\<lparr>bst_nodes := B, bst_root := r, num_blocks := n\<rparr>) t')
    \<and> covers ((a, z') # frees (s\<lparr>bst_nodes := B, bst_root := r, num_blocks := n\<rparr>) t') = covers ((a, z) # frees s t)
    \<and> z' \<noteq> 0 \<and> page_aligned z'"
  using assms
proof (induction "length (frees s t)" arbitrary: s t z rule: less_induct)
  case less
  note pr = less.prems
  have "rep (bst_nodes s) None (bst_root s) t" using pr(1) by (simp add: pool_def)
  then obtain c where c: "coalesce_search (bst_nodes s) (a + z) (bst_root s) = Some c"
    "\<And>k. c = Some k \<Longrightarrow> k \<in> set_tree t \<and> baddr (bst_nodes s k) = a + z" using coalesce_search_rep by metis
  show ?case
  proof (cases c)
    case None
    then have "try_coalesce a z s = Some (z, s\<lparr>bst_nodes := bst_nodes s, bst_root := bst_root s, num_blocks := num_blocks s\<rparr>)"
      using c(1) by (subst try_coalesce.simps) simp
    then show ?thesis
      using pr by (intro exI [of _ z] exI [of _ "bst_nodes s"] exI [of _ "bst_root s"] exI [of _ "num_blocks s"] exI [of _ t]) simp
  next
    case (Some k)
    have k: "k \<in> set_tree t" "baddr (bst_nodes s k) = a + z" using c(2) Some by auto
    obtain B r t1 xs ys where d: "bst_delete (Some k) s = Some (s\<lparr>bst_nodes := B, bst_root := r\<rparr>)" "pool (s\<lparr>bst_nodes := B, bst_root := r\<rparr>) t1"
      "frees s t = xs @ blk (bst_nodes s k) # ys" "frees (s\<lparr>bst_nodes := B, bst_root := r\<rparr>) t1 = xs @ ys"
      by (rule bst_delete_pool [OF pr(1) k(1)]) blast
    let ?y = "bsize (bst_nodes s k)"
    have f: "frees s t = xs @ (a + z, ?y) # ys" using d(3) k(2) by (simp add: blk_def)
    have "sum_list (map (\<lambda>b. unat (snd b)) ((a, z) # frees s t)) < 2 ^ 32" by (rule covers_room [OF pr(2,3)])
    then have lt: "unat z + unat ?y < 2 ^ 32" by (simp add: f)
    have "tight ((a, z) # (a + z, ?y) # xs @ ys)" using pr(2) tight_mset [of "(a, z) # frees s t" "(a, z) # (a + z, ?y) # xs @ ys"] by (simp add: f)
    then have ti: "tight ((a, z + ?y) # xs @ ys)" unfolding tight_Cons span_append [OF lt] by auto
    have co: "covers ((a, z + ?y) # xs @ ys) = covers ((a, z) # frees s t)" by (auto simp: f span_append [OF lt])
    have "unat (z + ?y) = unat z + unat ?y" using lt by (simp add: unat_word_ariths)
    moreover have "unat z \<noteq> 0" using pr(4) by (simp add: unat_eq_zero)
    ultimately have nz: "z + ?y \<noteq> 0" by (metis add_is_0 unat_0)
    have al: "page_aligned (z + ?y)" using pr(5,6) by (intro page_aligned_add) (simp_all add: f)
    define s2 where "s2 = s\<lparr>bst_nodes := B, bst_root := r, num_blocks := num_blocks s - 1\<rparr>"
    have e: "try_coalesce a z s = try_coalesce a (z + ?y) s2"
      using c(1) Some d(1) by (subst try_coalesce.simps) (simp add: s2_def)
    have f2: "pool s2 t1" "frees s2 t1 = xs @ ys" using d(2,4) by (simp_all add: s2_def)
    have "length (frees s2 t1) < length (frees s t)" by (simp add: f f2(2))
    moreover have "tight ((a, z + ?y) # frees s2 t1)" unfolding f2(2) by (rule ti)
    moreover have "0 \<notin> covers ((a, z + ?y) # frees s2 t1)" unfolding f2(2) co by (rule pr(3))
    moreover have "\<forall>b \<in> set (frees s2 t1). page_aligned (fst b) \<and> page_aligned (snd b) \<and> snd b \<noteq> 0" using pr(6) by (simp add: f f2(2))
    ultimately obtain z' B' r' n' t' where W: "try_coalesce a (z + ?y) s2 = Some (z', s2\<lparr>bst_nodes := B', bst_root := r', num_blocks := n'\<rparr>)"
      "pool (s2\<lparr>bst_nodes := B', bst_root := r', num_blocks := n'\<rparr>) t'" "set (frees (s2\<lparr>bst_nodes := B', bst_root := r', num_blocks := n'\<rparr>) t') \<subseteq> set (frees s2 t1)"
      "tight ((a, z') # frees (s2\<lparr>bst_nodes := B', bst_root := r', num_blocks := n'\<rparr>) t')"
      "covers ((a, z') # frees (s2\<lparr>bst_nodes := B', bst_root := r', num_blocks := n'\<rparr>) t') = covers ((a, z + ?y) # frees s2 t1)"
      "z' \<noteq> 0" "page_aligned z'" using less.hyps [OF _ f2(1) _ _ nz al] by blast
    have s2: "s2\<lparr>bst_nodes := B', bst_root := r', num_blocks := n'\<rparr> = s\<lparr>bst_nodes := B', bst_root := r', num_blocks := n'\<rparr>"
      by (simp add: s2_def)
    have "set (frees s2 t1) \<subseteq> set (frees s t)" by (auto simp: f f2(2))
    then show ?thesis using W unfolding s2 e f2(2) co by blast
  qed
qed

section \<open>Freeing and allocating\<close>

text \<open>The addresses that \<^verbatim>\<open>kfree\<close> accepts.\<close>

definition freeable :: "u32 \<Rightarrow> 'z bst_st_scheme \<Rightarrow> bool" where
  "freeable v s \<longleftrightarrow> page_aligned v \<and> bst_end s \<le> v \<and> V2P v < PHYSTOP"

lemma page_disjoint:
  assumes "page_aligned v" "\<forall>b \<in> set bs. page_aligned (fst b) \<and> page_aligned (snd b) \<and> snd b \<noteq> 0" "v \<notin> covers bs"
  shows "span (v, PGSIZE) \<inter> covers bs = {}"
  using assms page_in_span [of v] unfolding covers_def by fastforce

lemma zero_not_in_page:
  assumes "V2P v < PHYSTOP"
  shows "0 \<notin> span (v, PGSIZE)"
proof -
  have w: "unat (V2P v) < 0xE000000" using assms by (simp add: word_less_nat_alt)
  have "unat v = unat (V2P v + 0x80000000)" by (simp add: V2P_def)
  also have "\<dots> = unat (V2P v) + 0x80000000" using w by (simp add: unat_word_ariths)
  finally have v: "unat v < 0x90000000" "unat v \<noteq> 0" using w by simp_all
  then have "unat (0 - v) = 2 ^ 32 - unat v" by (subst unat_sub_if_size) (simp add: word_size)
  then have "4096 \<le> unat (0 - v)" using v by (simp only: power_numeral) simp
  then show ?thesis by (simp add: span_def word_less_nat_alt)
qed

lemma heap_ok_insert:
  assumes "pool u t'" "mset (frees u t') = mset (b # bs)" "tight (b # bs)" "0 \<notin> covers (b # bs)"
    and "\<forall>b \<in> set (b # bs). page_aligned (fst b) \<and> page_aligned (snd b) \<and> snd b \<noteq> 0"
  shows "heap_ok u t'" "covers (frees u t') = covers (b # bs)"
  using assms tight_mset [OF assms(2)] covers_mset [OF assms(2)] mset_eq_setD [OF assms(2)] by (simp_all add: heap_ok_def)

lemma try_coalesce_none:
  assumes "pool s t" "\<forall>b \<in> set (frees s t). page_aligned (fst b) \<and> page_aligned (snd b) \<and> snd b \<noteq> 0" "a + z \<notin> covers (frees s t)"
  shows "try_coalesce a z s = Some (z, s)"
proof -
  have "rep (bst_nodes s) None (bst_root s) t" using assms(1) by (simp add: pool_def)
  then obtain c where c: "coalesce_search (bst_nodes s) (a + z) (bst_root s) = Some c"
    "\<And>k. c = Some k \<Longrightarrow> k \<in> set_tree t \<and> baddr (bst_nodes s k) = a + z" using coalesce_search_rep by metis
  have "c = None"
  proof (rule ccontr)
    assume "c \<noteq> None"
    then obtain k where k: "k \<in> set_tree t" "baddr (bst_nodes s k) = a + z" using c(2) by auto
    have m: "(a + z, bsize (bst_nodes s k)) \<in> set (frees s t)" using k(1) by (force simp: frees_def blk_def simp flip: k(2))
    then have "a + z \<in> covers (frees s t)" using assms(2) span_start [of "bsize (bst_nodes s k)" "a + z"] by (fastforce simp: covers_def)
    with assms(3) show False ..
  qed
  then show ?thesis using c(1) by (subst try_coalesce.simps) simp
qed

lemma kfree_bst_run:
  assumes r: "bst_ready s" and ok: "heap_ok s t" and v: "freeable v s" "v \<notin> covers (frees s t)"
  obtains u t' where "kfree_bst v s = Ok () u" "bst_ready u" "heap_ok u t'" "mem u = memset (mem s) v 1 PGSIZE" "bst_end u = bst_end s"
    "next_node_idx s < 128 \<Longrightarrow> next_node_idx u = next_node_idx s + 1 \<and> covers (frees u t') = covers (frees s t) \<union> span (v, PGSIZE)"
    "128 \<le> next_node_idx s \<Longrightarrow> next_node_idx u = next_node_idx s \<and> covers (frees u t') \<subseteq> covers (frees s t)
       \<and> (v + PGSIZE \<notin> covers (frees s t) \<longrightarrow> covers (frees u t') = covers (frees s t))"
proof -
  let ?s0 = "s\<lparr>mem := memset (mem s) v 1 PGSIZE\<rparr>"
  have "bst_ready ?s0" using r by (simp add: bst_ready_def on_cpu_def)
  then obtain h where h: "lock_if_used_bst ?s0 = Ok () h" "same_heap ?s0 h"
    "\<And>B r f n k. \<exists>u. unlock_if_used_bst (h\<lparr>bst_nodes := B, bst_root := r, total_free := f, num_blocks := n, next_node_idx := k\<rparr>) = Ok () u
       \<and> same_heap (h\<lparr>bst_nodes := B, bst_root := r, total_free := f, num_blocks := n, next_node_idx := k\<rparr>) u \<and> bst_ready u"
    by (rule bst_section) blast
  have g: "\<not> (v mod PGSIZE \<noteq> 0 \<or> v < bst_end s \<or> PHYSTOP \<le> V2P v)" using v(1) by (auto simp: freeable_def page_aligned_def)
  have hs: "pool h t" "frees h t = frees s t" "next_node_idx h = next_node_idx s" "mem h = memset (mem s) v 1 PGSIZE" "bst_end h = bst_end s"
    using same_heap_ok [OF h(2)] ok h(2) by (simp_all add: heap_ok_def same_heap_def pool_def frees_def)
  have pg: "\<forall>b \<in> set (frees s t). page_aligned (fst b) \<and> page_aligned (snd b) \<and> snd b \<noteq> 0" using ok by (simp add: heap_ok_def)
  have dj: "span (v, PGSIZE) \<inter> covers (frees s t) = {}" using page_disjoint [OF _ pg v(2)] v(1) by (simp add: freeable_def)
  then have ti: "tight ((v, PGSIZE) # frees h t)" using ok by (simp add: tight_Cons hs(2) heap_ok_def)
  have z: "0 \<notin> covers ((v, PGSIZE) # frees h t)" using ok v(1) zero_not_in_page [of v] by (simp add: hs(2) heap_ok_def freeable_def)
  have p4: "page_aligned PGSIZE" by (simp add: page_aligned_def)
  obtain z' B rt n t1 where c: "try_coalesce v PGSIZE h = Some (z', h\<lparr>bst_nodes := B, bst_root := rt, num_blocks := n\<rparr>)"
    "pool (h\<lparr>bst_nodes := B, bst_root := rt, num_blocks := n\<rparr>) t1"
    "set (frees (h\<lparr>bst_nodes := B, bst_root := rt, num_blocks := n\<rparr>) t1) \<subseteq> set (frees s t)"
    "tight ((v, z') # frees (h\<lparr>bst_nodes := B, bst_root := rt, num_blocks := n\<rparr>) t1)"
    "covers ((v, z') # frees (h\<lparr>bst_nodes := B, bst_root := rt, num_blocks := n\<rparr>) t1) = covers ((v, PGSIZE) # frees h t)"
    "z' \<noteq> 0" "page_aligned z'"
  proof -
    have "\<forall>b \<in> set (frees h t). page_aligned (fst b) \<and> page_aligned (snd b) \<and> snd b \<noteq> 0" using pg by (simp only: hs(2))
    moreover have "PGSIZE \<noteq> (0 :: u32)" by simp
    ultimately show thesis using try_coalesce_ok [OF hs(1) ti z _ p4] that unfolding hs(2) by blast
  qed
  let ?h1 = "h\<lparr>bst_nodes := B, bst_root := rt, num_blocks := n\<rparr>"
  have pg': "\<forall>b \<in> set ((v, z') # frees ?h1 t1). page_aligned (fst b) \<and> page_aligned (snd b) \<and> snd b \<noteq> 0"
    using c(3,6,7) pg v(1) by (auto simp: freeable_def)
  have z1: "0 \<notin> covers ((v, z') # frees ?h1 t1)" unfolding c(5) by (rule z)
  show thesis
  proof (cases "next_node_idx s < 128")
    case True
    then have "next_node_idx ?h1 < 128" by (simp add: hs(3))
    from bst_insert_pool [OF c(2) this, of v z']
    obtain B2 r2 t2 where i: "bst_insert v z' ?h1 = Some (Some (next_node_idx s), ?h1\<lparr>bst_nodes := B2, bst_root := r2, next_node_idx := next_node_idx s + 1\<rparr>)"
      "pool (?h1\<lparr>bst_nodes := B2, bst_root := r2, next_node_idx := next_node_idx s + 1\<rparr>) t2"
      "mset (frees (?h1\<lparr>bst_nodes := B2, bst_root := r2, next_node_idx := next_node_idx s + 1\<rparr>) t2) = add_mset (v, z') (mset (frees ?h1 t1))"
      by (simp add: hs(3)) blast
    let ?x = "h\<lparr>bst_nodes := B2, bst_root := r2, total_free := total_free h + z', num_blocks := n + 1, next_node_idx := next_node_idx s + 1\<rparr>"
    obtain u where u: "unlock_if_used_bst ?x = Ok () u" "same_heap ?x u" "bst_ready u" using h(3) by blast
    have e: "h\<lparr>bst_nodes := B2, bst_root := r2, next_node_idx := Suc (next_node_idx s), total_free := total_free h + z', num_blocks := n + 1\<rparr>
        = h\<lparr>bst_nodes := B2, bst_root := r2, total_free := total_free h + z', num_blocks := n + 1, next_node_idx := Suc (next_node_idx s)\<rparr>"
      by (rule bst_st.equality) simp_all
    have k: "kfree_bst v s = Ok () u"
      using g h(1) c(1) i(1) u(1) by (simp add: kfree_bst_def Let_def) (simp add: e)
    have "pool ?x t2" "mset (frees ?x t2) = mset ((v, z') # frees ?h1 t1)"
      using i(2,3) by (simp_all add: pool_def frees_def)
    note io = heap_ok_insert [OF this c(4) z1 pg']
    have "heap_ok u t2" using io(1) same_heap_ok [OF u(2), of t2] by blast
    moreover have "covers (frees u t2) = covers ((v, PGSIZE) # frees h t)" using io(2) same_heap_ok [OF u(2), of t2] c(5) by metis
    ultimately have "heap_ok u t2" "covers (frees u t2) = covers (frees s t) \<union> span (v, PGSIZE)" by (auto simp: hs(2))
    then show thesis using that [OF k u(3), of t2] True u(2) hs by (simp add: same_heap_def)
  next
    case False
    then have i: "bst_insert v z' ?h1 = Some (None, ?h1)" by (simp add: bst_insert_def get_node_def hs(3))
    let ?x = "h\<lparr>bst_nodes := B, bst_root := rt, total_free := total_free h, num_blocks := n, next_node_idx := next_node_idx h\<rparr>"
    obtain u where u: "unlock_if_used_bst ?x = Ok () u" "same_heap ?x u" "bst_ready u" using h(3) by blast
    have e: "?x = ?h1" by (rule bst_st.equality) simp_all
    have k: "kfree_bst v s = Ok () u" using g h(1) c(1) i u(1) by (simp add: kfree_bst_def e)
    have "heap_ok ?h1 t1" using c(2,4) z1 pg' by (simp add: heap_ok_def tight_Cons)
    then have "heap_ok u t1" "frees u t1 = frees ?h1 t1" using same_heap_ok [OF u(2), of t1] by (simp_all add: e)
    moreover have "covers (frees ?h1 t1) \<subseteq> covers (frees s t)" using c(3) by (auto simp: covers_def)
    moreover have "covers (frees ?h1 t1) = covers (frees s t)" if "v + PGSIZE \<notin> covers (frees s t)"
    proof -
      have "try_coalesce v PGSIZE h = Some (PGSIZE, h)" by (rule try_coalesce_none [OF hs(1)]) (use pg that in \<open>simp_all add: hs(2)\<close>)
      then have "z' = PGSIZE" using c(1) by simp
      then show ?thesis using c(4,5) ti unfolding tight_Cons hs(2) by auto
    qed
    ultimately show thesis using that [OF k u(3), of t1] False u(2) hs by (simp add: same_heap_def)
  qed
qed

lemma best_fit_least:
  assumes "rep B par p t" "sorted (map (\<lambda>k. bsize (B k)) (inorder t))" "bst_find_best_fit B p z best = Some r"
  shows "(\<forall>k \<in> set_tree t. z \<le> bsize (B k) \<longrightarrow> (\<exists>b. r = Some b \<and> bsize (B b) \<le> bsize (B k)))
    \<and> (\<forall>b. best = Some b \<longrightarrow> (\<exists>c. r = Some c \<and> bsize (B c) \<le> bsize (B b)))"
  using assms
proof (induction t arbitrary: par p best)
  case (Node l k u)
  have N: "p = Some k" "rep B (Some k) (bleft (B k)) l" "rep B (Some k) (bright (B k)) u"
    "sorted (map (\<lambda>k. bsize (B k)) (inorder l))" "sorted (map (\<lambda>k. bsize (B k)) (inorder u))"
    "\<forall>x \<in> set_tree l. bsize (B x) \<le> bsize (B k)" "\<forall>x \<in> set_tree u. bsize (B k) \<le> bsize (B x)"
    using Node.prems by (auto simp: sorted_append)
  show ?case
  proof (cases "z \<le> bsize (B k)")
    case True
    let ?best = "case best of None \<Rightarrow> Some k | Some b \<Rightarrow> if bsize (B k) < bsize (B b) then Some k else best"
    have "bst_find_best_fit B (bleft (B k)) z ?best = Some r"
      using Node.prems(3) True N(1) by (subst (asm) bst_find_best_fit.simps) simp
    note ih = Node.IH(1) [OF N(2,4) this]
    obtain b where b: "?best = Some b" "bsize (B b) \<le> bsize (B k)" "\<And>c. best = Some c \<Longrightarrow> bsize (B b) \<le> bsize (B c)"
    proof (cases best)
      case (Some b)
      show thesis by (cases "bsize (B k) < bsize (B b)") (use that [of k] that [of b] Some in auto)
    qed (use that [of k] in simp)
    obtain c where c: "r = Some c" "bsize (B c) \<le> bsize (B b)" using ih b(1) by blast
    show ?thesis
    proof (intro conjI ballI allI impI)
      fix x assume x: "x \<in> set_tree (Node l k u)" "z \<le> bsize (B x)"
      show "\<exists>b. r = Some b \<and> bsize (B b) \<le> bsize (B x)"
      proof (cases "x \<in> set_tree l")
        case False
        then have "bsize (B k) \<le> bsize (B x)" using x(1) N(7) by auto
        then show ?thesis using c b(2) by auto
      qed (use ih x(2) in blast)
    next
      fix x assume "best = Some x"
      then show "\<exists>c. r = Some c \<and> bsize (B c) \<le> bsize (B x)" using c b(3) [of x] by auto
    qed
  next
    case False
    then have "bst_find_best_fit B (bright (B k)) z best = Some r"
      using Node.prems(3) N(1) by (subst (asm) bst_find_best_fit.simps) simp
    note ih = Node.IH(2) [OF N(3,5) this]
    have "\<not> z \<le> bsize (B x)" if "x \<in> set_tree l" for x using N(6) that False by (meson order_trans)
    then show ?thesis using ih False by auto
  qed
qed (simp add: bst_find_best_fit.simps)

lemma frees_member: "k \<in> set_tree t \<Longrightarrow> blk (bst_nodes s k) \<in> set (frees s t)"
  by (auto simp: frees_def)

lemma aligned_block: "page_aligned z \<Longrightarrow> z \<noteq> 0 \<Longrightarrow> PGSIZE \<le> z"
  using pages_apart [of z 0] by (simp add: word_le_nat_alt page_aligned_def)

text \<open>Taking the first page of a block.\<close>

lemma heap_ok_split:
  assumes ok: "heap_ok s t" and k: "k \<in> set_tree t" "PGSIZE < bsize (bst_nodes s k)"
    and u: "u = upd_node k (\<lambda>x. x\<lparr>baddr := baddr x + PGSIZE, bsize := bsize x - PGSIZE\<rparr>) s"
  shows "heap_ok u t" "covers (frees u t) = covers (frees s t) - span (baddr (bst_nodes s k), PGSIZE)"
    "span (baddr (bst_nodes s k), PGSIZE) \<subseteq> covers (frees s t)"
proof -
  let ?a = "baddr (bst_nodes s k)" and ?z = "bsize (bst_nodes s k)"
  have p: "rep (bst_nodes s) None (bst_root s) t" "distinct (inorder t)" using ok by (simp_all add: heap_ok_def pool_def)
  obtain xs ys where i: "inorder t = xs @ k # ys" using k(1) by (metis set_inorder split_list)
  have "rep (bst_nodes u) None (bst_root s) t" using p(1) by (subst rep_links [of t _ "bst_nodes s"]) (simp_all add: u upd_node_def)
  then have pu: "pool u t" using ok by (simp add: heap_ok_def pool_def u upd_node_def)
  let ?X = "map (\<lambda>k. blk (bst_nodes s k)) xs" and ?Y = "map (\<lambda>k. blk (bst_nodes s k)) ys"
  have fs: "frees s t = ?X @ (?a, ?z) # ?Y" by (simp add: frees_def i blk_def)
  have o: "map (\<lambda>k. blk (bst_nodes u k)) zs = map (\<lambda>k. blk (bst_nodes s k)) zs" if "k \<notin> set zs" for zs
    using that by (auto simp: u upd_node_def)
  have "k \<notin> set xs" "k \<notin> set ys" using p(2) i by auto
  then have fu: "frees u t = ?X @ (?a + PGSIZE, ?z - PGSIZE) # ?Y"
    unfolding frees_def i by (simp add: o) (simp add: u upd_node_def blk_def)
  have z: "unat PGSIZE + unat (?z - PGSIZE) = unat ?z" using k(2) by (simp add: unat_sub word_less_nat_alt word_le_nat_alt)
  then have lt: "unat PGSIZE + unat (?z - PGSIZE) < 2 ^ 32" using unat_u32_less [of ?z] by simp
  have sp: "span (?a, ?z) = span (?a, PGSIZE) \<union> span (?a + PGSIZE, ?z - PGSIZE)" using span_append [OF lt, of ?a] by simp
  have b: "\<forall>b \<in> set (frees s t). page_aligned (fst b) \<and> page_aligned (snd b) \<and> snd b \<noteq> 0" and ti: "tight (frees s t)"
    using ok by (simp_all add: heap_ok_def)
  have ab: "page_aligned ?a" "page_aligned ?z" using b by (simp_all add: fs)
  have tt: "tight ((?a, ?z) # ?X @ ?Y)" using ti unfolding fs by (simp only: tight_mid)
  have "card (span (?a, PGSIZE) \<inter> span (?a + PGSIZE, ?z - PGSIZE)) = 0"
    using card_Un_Int [of "span (?a, PGSIZE)" "span (?a + PGSIZE, ?z - PGSIZE)"] z card_span [of "(?a, ?z)"]
      card_span [of "(?a, PGSIZE)"] card_span [of "(?a + PGSIZE, ?z - PGSIZE)"] by (simp add: sp)
  then have dj: "span (?a, PGSIZE) \<inter> span (?a + PGSIZE, ?z - PGSIZE) = {}" by simp
  have "tight ((?a + PGSIZE, ?z - PGSIZE) # ?X @ ?Y)" using tt sp unfolding tight_Cons by auto
  then have "tight (frees u t)" unfolding fu by (simp only: tight_mid)
  moreover have "covers (frees u t) = covers (frees s t) - span (?a, PGSIZE)"
    using tt dj unfolding tight_Cons fs fu by (auto simp: sp)
  moreover have "page_aligned (?a + PGSIZE)" "page_aligned (?z - PGSIZE)" "?z - PGSIZE \<noteq> 0"
    using ab k(2) by (auto intro!: page_aligned_add page_aligned_sub simp: page_aligned_def [of PGSIZE])
  ultimately show "heap_ok u t" "covers (frees u t) = covers (frees s t) - span (?a, PGSIZE)"
    using pu ok b unfolding heap_ok_def fs fu by auto
  show "span (?a, PGSIZE) \<subseteq> covers (frees s t)" unfolding fs by (auto simp: sp)
qed

lemma kalloc_bst_empty:
  assumes "bst_ready s" "heap_ok s Leaf"
  shows "\<exists>u. kalloc_bst s = Ok 0 u \<and> same_heap s u \<and> bst_ready u"
proof -
  obtain h where h: "lock_if_used_bst s = Ok () h" "same_heap s h"
    "\<And>B r f n k. \<exists>u. unlock_if_used_bst (h\<lparr>bst_nodes := B, bst_root := r, total_free := f, num_blocks := n, next_node_idx := k\<rparr>) = Ok () u
       \<and> same_heap (h\<lparr>bst_nodes := B, bst_root := r, total_free := f, num_blocks := n, next_node_idx := k\<rparr>) u \<and> bst_ready u"
    by (rule bst_section [OF assms(1)]) blast
  have "bst_root h = None" using h(2) assms(2) by (simp add: same_heap_def heap_ok_def pool_def)
  moreover obtain u where "unlock_if_used_bst h = Ok () u" "same_heap h u" "bst_ready u"
    using h(3) [where B = "bst_nodes h" and r = "bst_root h" and f = "total_free h" and n = "num_blocks h" and k = "next_node_idx h"] by auto
  ultimately show ?thesis using h(1,2) by (simp add: kalloc_bst_def bst_find_best_fit.simps same_heap_def)
qed

lemma kalloc_bst_run:
  assumes r: "bst_ready s" and ok: "heap_ok s t" and t: "t \<noteq> Leaf"
  obtains k u t' where "kalloc_bst s = Ok (baddr (bst_nodes s k)) u" "bst_ready u" "heap_ok u t'" "k \<in> set_tree t"
    "bst_find_best_fit (bst_nodes s) (bst_root s) PGSIZE None = Some (Some k)"
    "span (baddr (bst_nodes s k), PGSIZE) \<subseteq> covers (frees s t)"
    "covers (frees u t') = covers (frees s t) - span (baddr (bst_nodes s k), PGSIZE)"
proof -
  obtain h where h: "lock_if_used_bst s = Ok () h" "same_heap s h"
    "\<And>B r f n k. \<exists>u. unlock_if_used_bst (h\<lparr>bst_nodes := B, bst_root := r, total_free := f, num_blocks := n, next_node_idx := k\<rparr>) = Ok () u
       \<and> same_heap (h\<lparr>bst_nodes := B, bst_root := r, total_free := f, num_blocks := n, next_node_idx := k\<rparr>) u \<and> bst_ready u"
    by (rule bst_section [OF r]) blast
  have eq: "bst_nodes h = bst_nodes s" "bst_root h = bst_root s" using h(2) by (simp_all add: same_heap_def)
  have okh: "heap_ok h t" "frees h t = frees s t" using same_heap_ok [OF h(2), of t] ok by simp_all
  have rp: "rep (bst_nodes s) None (bst_root s) t" using ok by (simp add: heap_ok_def pool_def)
  have al: "page_aligned (bsize (bst_nodes s k)) \<and> bsize (bst_nodes s k) \<noteq> 0" if "k \<in> set_tree t" for k
    using ok frees_member [OF that, of s] by (auto simp: heap_ok_def blk_def)
  then have "\<forall>k \<in> set_tree t. PGSIZE \<le> bsize (bst_nodes s k)" using aligned_block by blast
  then obtain k where k: "bst_find_best_fit (bst_nodes s) (bst_root s) PGSIZE None = Some (Some k)" "k \<in> set_tree t"
    using best_fit_rep [OF rp, of PGSIZE None] t by auto
  let ?a = "baddr (bst_nodes s k)"
  show thesis
  proof (cases "PGSIZE < bsize (bst_nodes s k)")
    case True
    define u1 where "u1 = upd_node k (\<lambda>x. x\<lparr>baddr := baddr x + PGSIZE, bsize := bsize x - PGSIZE\<rparr>) h"
    have T: "PGSIZE < bsize (bst_nodes h k)" using True by (simp add: eq)
    note sp = heap_ok_split [OF okh(1) k(2) T u1_def, unfolded eq okh(2)]
    let ?x = "h\<lparr>bst_nodes := bst_nodes u1, bst_root := bst_root h, total_free := total_free h - PGSIZE, num_blocks := num_blocks h, next_node_idx := next_node_idx h\<rparr>"
    obtain u where u: "unlock_if_used_bst ?x = Ok () u" "same_heap ?x u" "bst_ready u" using h(3) by blast
    have e: "u1\<lparr>total_free := total_free u1 - PGSIZE\<rparr> = ?x" by (simp add: u1_def upd_node_def)
    have "kalloc_bst s = Ok ?a u" using h(1) k(1) True u(1) unfolding e [symmetric] by (simp add: kalloc_bst_def eq Let_def flip: u1_def)
    moreover have "same_heap (u1\<lparr>total_free := total_free u1 - PGSIZE\<rparr>) u" using u(2) unfolding e .
    then have "heap_ok u t = heap_ok u1 t" "frees u t = frees u1 t" using same_heap_ok [of "u1\<lparr>total_free := total_free u1 - PGSIZE\<rparr>" u t]
      by (simp_all add: heap_ok_def)
    ultimately show thesis using that u(3) k sp by metis
  next
    case False
    moreover have "PGSIZE \<le> bsize (bst_nodes s k)" using aligned_block al [OF k(2)] by blast
    ultimately have z: "bsize (bst_nodes s k) = PGSIZE" by simp
    have ph: "pool h t" using okh(1) by (simp add: heap_ok_def)
    obtain B rt t1 xs ys where d: "bst_delete (Some k) h = Some (h\<lparr>bst_nodes := B, bst_root := rt\<rparr>)" "pool (h\<lparr>bst_nodes := B, bst_root := rt\<rparr>) t1"
      "frees h t = xs @ blk (bst_nodes h k) # ys" "frees (h\<lparr>bst_nodes := B, bst_root := rt\<rparr>) t1 = xs @ ys"
      by (rule bst_delete_pool [OF ph k(2)]) blast
    have f: "frees s t = xs @ (?a, PGSIZE) # ys" using d(3) okh(2) z by (simp add: eq blk_def)
    let ?x = "h\<lparr>bst_nodes := B, bst_root := rt, total_free := total_free h - PGSIZE, num_blocks := num_blocks h - 1, next_node_idx := next_node_idx h\<rparr>"
    obtain u where u: "unlock_if_used_bst ?x = Ok () u" "same_heap ?x u" "bst_ready u" using h(3) by blast
    have e: "h\<lparr>bst_nodes := B, bst_root := rt, num_blocks := num_blocks h - 1, total_free := total_free h - PGSIZE\<rparr> = ?x"
      by (rule bst_st.equality) simp_all
    have K: "kalloc_bst s = Ok ?a u" using h(1) k(1) z d(1) u(1) by (simp add: kalloc_bst_def eq Let_def) (simp add: e)
    have "pool ?x t1 = pool (h\<lparr>bst_nodes := B, bst_root := rt\<rparr>) t1" "frees ?x t1 = frees (h\<lparr>bst_nodes := B, bst_root := rt\<rparr>) t1"
      by (simp_all add: pool_def frees_def)
    then have pu: "pool u t1" "frees u t1 = xs @ ys" using same_heap_ok [OF u(2), of t1] d(2,4) by simp_all
    have tt: "tight ((?a, PGSIZE) # xs @ ys)" using ok unfolding heap_ok_def f by (simp only: tight_mid)
    then have "heap_ok u t1" using ok pu unfolding heap_ok_def tight_Cons pu f by auto
    moreover have "covers (frees u t1) = covers (frees s t) - span (?a, PGSIZE)" "span (?a, PGSIZE) \<subseteq> covers (frees s t)"
      using tt unfolding tight_Cons pu f by auto
    ultimately show thesis using that K u(3) k by metis
  qed
qed

text \<open>
  C27: \<^verbatim>\<open>kfree\<close> of the tree allocator always returns with the invariant restored: the links form a tree of nodes of the pool, the
  blocks are whole pages that do not overlap.  As long as one of the 128 nodes of the pool is left, exactly the bytes of the page
  have become free, whatever blocks it was merged with, and a node is used up.  No call ever puts a node back, and once they are
  all handed out (which \<^verbatim>\<open>kinit1\<close> alone does, see \<open>kinit1_bst_keeps_128\<close>) the page is lost: nothing becomes free, and a free block right
  behind the page is lost with it.
\<close>

theorem kfree_bst_frees_page:
  assumes "bst_ready s" "heap_ok s t" "freeable v s" "v \<notin> covers (frees s t)"
  shows "\<exists>u t'. kfree_bst v s = Ok () u \<and> bst_ready u \<and> heap_ok u t' \<and> mem u = memset (mem s) v 1 PGSIZE
    \<and> (if next_node_idx s < 128
       then next_node_idx u = next_node_idx s + 1 \<and> covers (frees u t') = covers (frees s t) \<union> span (v, PGSIZE)
       else next_node_idx u = next_node_idx s \<and> covers (frees u t') \<subseteq> covers (frees s t)
         \<and> (v + PGSIZE \<notin> covers (frees s t) \<longrightarrow> covers (frees u t') = covers (frees s t)))"
proof -
  obtain u t' where u: "kfree_bst v s = Ok () u" "bst_ready u" "heap_ok u t'" "mem u = memset (mem s) v 1 PGSIZE"
    "next_node_idx s < 128 \<Longrightarrow> next_node_idx u = next_node_idx s + 1 \<and> covers (frees u t') = covers (frees s t) \<union> span (v, PGSIZE)"
    "128 \<le> next_node_idx s \<Longrightarrow> next_node_idx u = next_node_idx s \<and> covers (frees u t') \<subseteq> covers (frees s t)
       \<and> (v + PGSIZE \<notin> covers (frees s t) \<longrightarrow> covers (frees u t') = covers (frees s t))"
    by (rule kfree_bst_run [OF assms]) blast
  then show ?thesis by (intro exI [of _ u] exI [of _ t']) simp
qed

text \<open>
  C26: \<^verbatim>\<open>kalloc\<close> of the tree allocator hands out a page that was free and nobody else gets: it returns the start of a free block, the
  page is removed from the free memory and nothing else is, and the invariant holds again.  If the tree is in order the block is a
  smallest one.  It returns the null pointer only when nothing is free.
\<close>

theorem kalloc_bst_takes_page:
  assumes "bst_ready s" "heap_ok s t"
  shows "\<exists>p u t'. kalloc_bst s = Ok p u \<and> bst_ready u \<and> heap_ok u t'
    \<and> (if t = Leaf then p = 0 \<and> frees u t' = []
       else \<exists>z. (p, z) \<in> set (frees s t) \<and> span (p, PGSIZE) \<subseteq> covers (frees s t) \<and> covers (frees u t') = covers (frees s t) - span (p, PGSIZE)
         \<and> (sorted_wrt less_blk (frees s t) \<longrightarrow> (\<forall>b \<in> set (frees s t). z \<le> snd b)))"
proof (cases "t = Leaf")
  case True
  then obtain u where "kalloc_bst s = Ok 0 u" "same_heap s u" "bst_ready u" using kalloc_bst_empty [OF assms(1)] assms(2) by auto
  then show ?thesis using True assms(2) same_heap_ok [of s u Leaf] by (intro exI [of _ 0] exI [of _ u] exI [of _ Leaf]) (simp add: frees_def)
next
  case False
  obtain k u t' where k: "kalloc_bst s = Ok (baddr (bst_nodes s k)) u" "bst_ready u" "heap_ok u t'" "k \<in> set_tree t"
    "bst_find_best_fit (bst_nodes s) (bst_root s) PGSIZE None = Some (Some k)"
    "span (baddr (bst_nodes s k), PGSIZE) \<subseteq> covers (frees s t)"
    "covers (frees u t') = covers (frees s t) - span (baddr (bst_nodes s k), PGSIZE)"
    by (rule kalloc_bst_run [OF assms False]) blast
  have b: "(baddr (bst_nodes s k), bsize (bst_nodes s k)) \<in> set (frees s t)" using frees_member [OF k(4), of s] by (simp add: blk_def)
  have "bsize (bst_nodes s k) \<le> snd b" if so: "sorted_wrt less_blk (frees s t)" and bm: "b \<in> set (frees s t)" for b
  proof -
    have "sorted_wrt (\<lambda>x y. bsize (bst_nodes s x) \<le> bsize (bst_nodes s y)) (inorder t)"
      using so unfolding frees_def sorted_wrt_map by (rule sorted_wrt_mono_rel [rotated]) (auto simp: less_blk_def blk_def)
    then have "sorted (map (\<lambda>k. bsize (bst_nodes s k)) (inorder t))" by (simp add: sorted_wrt_map)
    from best_fit_least [OF _ this k(5)] assms(2)
    have "\<forall>x \<in> set_tree t. PGSIZE \<le> bsize (bst_nodes s x) \<longrightarrow> bsize (bst_nodes s k) \<le> bsize (bst_nodes s x)"
      by (auto simp: heap_ok_def pool_def)
    moreover obtain x where "x \<in> set_tree t" "b = blk (bst_nodes s x)" using bm by (auto simp: frees_def)
    moreover have "PGSIZE \<le> snd b" using bm assms(2) aligned_block by (auto simp: heap_ok_def)
    ultimately show ?thesis by (simp add: blk_def)
  qed
  then have "\<exists>z. (baddr (bst_nodes s k), z) \<in> set (frees s t) \<and> span (baddr (bst_nodes s k), PGSIZE) \<subseteq> covers (frees s t)
    \<and> covers (frees u t') = covers (frees s t) - span (baddr (bst_nodes s k), PGSIZE)
    \<and> (sorted_wrt less_blk (frees s t) \<longrightarrow> (\<forall>b \<in> set (frees s t). z \<le> snd b))" using k(6,7) b by blast
  then show ?thesis using k(1-3) False by (simp only: if_False) blast
qed

text \<open>
  Once the 128 nodes of the pool have been handed out the tree allocator loses memory: \<^verbatim>\<open>kfree\<close> still reports no error, but the page does
  not become free, then or later (no call ever puts a node back), and free blocks right behind the page that it has merged with are
  lost too.
\<close>

theorem kfree_bst_leaks:
  assumes "bst_ready s" "heap_ok s t" "freeable v s" "v \<notin> covers (frees s t)" "128 \<le> next_node_idx s"
  shows "\<exists>u t'. kfree_bst v s = Ok () u \<and> heap_ok u t' \<and> covers (frees u t') \<subseteq> covers (frees s t) \<and> next_node_idx u = next_node_idx s"
  by (rule kfree_bst_run [OF assms(1-4)]) (use assms(5) in blast)

section \<open>Initialisation\<close>

lemma freerange_bst_run:
  assumes "bst_ready s" "heap_ok s t" "page_aligned p" "bst_end s \<le> p" "0x80000000 \<le> unat p" "unat vend \<le> 0x8E000000"
    and "unat p + 4096 * n \<le> unat vend" "unat vend < unat p + 4096 * n + 4096" "\<forall>x \<in> covers (frees s t). x < p"
  shows "\<exists>u t'. freerange_bst_loop p vend s = Ok () u \<and> bst_ready u \<and> heap_ok u t'
    \<and> covers (frees u t') = covers (frees s t) \<union> span (p, of_nat (4096 * min n (128 - next_node_idx s)))"
  using assms
proof (induction n arbitrary: s t p)
  case 0
  have "unat (p + PGSIZE) = unat p + 4096" using 0 by (simp add: unat_word_ariths)
  then have "\<not> p + PGSIZE \<le> vend" using 0 by (simp add: word_le_nat_alt)
  then show ?case using 0 by (subst freerange_bst_loop.simps) (auto simp: span_def)
next
  case (Suc n)
  note pr = Suc.prems
  have p4: "unat (p + PGSIZE) = unat p + 4096" using pr(6,7) by (simp add: unat_word_ariths)
  have le: "p + PGSIZE \<le> vend" using p4 pr(7) by (simp add: word_le_nat_alt)
  have "unat (V2P p) = unat p - 0x80000000" using pr(5) by (simp add: V2P_def unat_sub word_le_nat_alt)
  then have fr: "freeable p s" using pr(3,4,6,7) by (simp add: freeable_def word_less_nat_alt)
  have np: "p \<notin> covers (frees s t)" "p + PGSIZE \<notin> covers (frees s t)" using pr(9) p4 by (auto simp: word_less_nat_alt)
  obtain u t' where u: "kfree_bst p s = Ok () u" "bst_ready u" "heap_ok u t'" "bst_end u = bst_end s"
    "next_node_idx s < 128 \<Longrightarrow> next_node_idx u = next_node_idx s + 1 \<and> covers (frees u t') = covers (frees s t) \<union> span (p, PGSIZE)"
    "128 \<le> next_node_idx s \<Longrightarrow> next_node_idx u = next_node_idx s \<and> covers (frees u t') \<subseteq> covers (frees s t)
       \<and> (p + PGSIZE \<notin> covers (frees s t) \<longrightarrow> covers (frees u t') = covers (frees s t))"
    by (rule kfree_bst_run [OF pr(1,2) fr np(1)]) blast
  have in_page: "x < p + PGSIZE" if "x \<in> span (p, PGSIZE)" for x
  proof -
    have "unat (x - p) < 4096" using that by (simp add: span_def word_less_nat_alt)
    then have "unat (p + (x - p)) = unat p + unat (x - p)" using pr(6,7) by (subst unat_word_ariths(1)) simp
    then show ?thesis using \<open>unat (x - p) < 4096\<close> p4 by (simp add: word_less_nat_alt)
  qed
  have below: "\<forall>x \<in> covers (frees s t). x < p + PGSIZE" using pr(9) p4 by (fastforce simp: word_less_nat_alt)
  have cu: "covers (frees u t') = covers (frees s t) \<union> (if next_node_idx s < 128 then span (p, PGSIZE) else {})"
    using u(5,6) np(2) by auto
  then have "\<forall>x \<in> covers (frees u t'). x < p + PGSIZE" using below in_page by auto
  moreover have "page_aligned (p + PGSIZE)" using pr(3) by (rule page_aligned_add) (simp add: page_aligned_def)
  moreover have "bst_end u \<le> p + PGSIZE" using u(4) pr(4) p4 by (simp add: word_le_nat_alt)
  ultimately obtain w t'' where w: "freerange_bst_loop (p + PGSIZE) vend u = Ok () w" "bst_ready w" "heap_ok w t''"
    "covers (frees w t'') = covers (frees u t') \<union> span (p + PGSIZE, of_nat (4096 * min n (128 - next_node_idx u)))"
    using Suc.IH [OF u(2,3), of "p + PGSIZE"] pr(5-8) p4 by auto
  have e: "freerange_bst_loop p vend s = Ok () w" using le u(1) w(1) by (subst freerange_bst_loop.simps) simp
  show ?case
  proof (cases "next_node_idx s < 128")
    case True
    let ?m = "min n (128 - next_node_idx u)"
    have m: "min (Suc n) (128 - next_node_idx s) = Suc ?m" using True u(5) by auto
    have um: "unat (of_nat (4096 * ?m) :: u32) = 4096 * ?m" by (rule unat_of_nat_u32) simp
    have "span (p, PGSIZE + of_nat (4096 * ?m)) = span (p, PGSIZE) \<union> span (p + PGSIZE, of_nat (4096 * ?m))"
      by (rule span_append) (simp add: um del: of_nat_mult)
    moreover have "PGSIZE + of_nat (4096 * ?m) = (of_nat (4096 * Suc ?m) :: u32)" by simp
    ultimately show ?thesis using e w cu True unfolding m by auto
  next
    case False
    then show ?thesis using e w cu u(6) by (auto simp: span_def)
  qed
qed

text \<open>
  However much memory \<^verbatim>\<open>kinit1\<close> of the tree allocator is given, at most 128 pages of it ever become free: the pages are freed in
  ascending order, none of them merges with the next one, and each uses up a node of the pool.
\<close>

theorem kinit1_bst_keeps_128:
  assumes "bst_end s \<le> PGROUNDUP vstart" "0x80000000 \<le> unat (PGROUNDUP vstart)" "unat vend \<le> 0x8E000000"
    and "n = (unat vend - unat (PGROUNDUP vstart)) div 4096" "PGROUNDUP vstart \<le> vend"
  shows "\<exists>u t. kinit1_bst vstart vend s = Ok () u \<and> heap_ok u t
    \<and> covers (frees u t) = span (PGROUNDUP vstart, of_nat (4096 * min n 128))"
proof -
  let ?s = "s\<lparr>bst_lock := initlock ''kmem'' (bst_lock s), bst_use_lock := False, bst_root := None, total_free := 0,
          num_blocks := 0, next_node_idx := 0\<rparr>"
  have 0: "bst_ready ?s" "heap_ok ?s Leaf" "frees ?s Leaf = []" by (simp_all add: bst_ready_def heap_ok_def pool_def frees_def tight_def)
  have d: "unat vend - unat (PGROUNDUP vstart) = 4096 * n + (unat vend - unat (PGROUNDUP vstart)) mod 4096" using assms(4) by simp
  have le: "unat (PGROUNDUP vstart) \<le> unat vend" using assms(5) by (simp add: word_le_nat_alt)
  have b: "unat (PGROUNDUP vstart) + 4096 * n \<le> unat vend" "unat vend < unat (PGROUNDUP vstart) + 4096 * n + 4096"
    using d le mod_less_divisor [of 4096 "unat vend - unat (PGROUNDUP vstart)"] by linarith+
  have "\<exists>u t'. freerange_bst_loop (PGROUNDUP vstart) vend ?s = Ok () u \<and> bst_ready u \<and> heap_ok u t'
    \<and> covers (frees u t') = covers (frees ?s Leaf) \<union> span (PGROUNDUP vstart, of_nat (4096 * min n (128 - next_node_idx ?s)))"
    by (rule freerange_bst_run [OF 0(1,2) page_aligned_PGROUNDUP _ assms(2,3) b]) (use assms(1) 0(3) in simp_all)
  then show ?thesis by (auto simp: kinit1_bst_def freerange_bst_def 0(3))
qed

section \<open>Examples\<close>

lemma span_disjoint:
  assumes "z \<le> b - a" "y \<le> a - b"
  shows "span (a, z) \<inter> span (b, y) = {}"
proof (rule ccontr)
  assume "span (a, z) \<inter> span (b, y) \<noteq> {}"
  then obtain x where x: "x - a < z" "x - b < y" by (auto simp: span_def)
  have lt: "unat (x - a) < unat (b - a)" using x(1) assms(1) by (simp add: word_less_nat_alt word_le_nat_alt)
  have e: "x - b = (x - a) - (b - a)" "a - b = 0 - (b - a)" by simp_all
  have "unat (x - b) = unat (x - a) + 2 ^ 32 - unat (b - a)" unfolding e(1) using lt by (subst unat_sub_if_size) (simp add: word_size)
  moreover have "unat (a - b) = 2 ^ 32 - unat (b - a)" unfolding e(2) using lt by (subst unat_sub_if_size) (simp add: word_size)
  ultimately have "unat (a - b) \<le> unat (x - b)" by simp
  then show False using x(2) assms(2) by (simp add: word_less_nat_alt word_le_nat_alt)
qed

text \<open>The allocator before initialisation; and with two free blocks, the root and its left child.\<close>

definition bst_demo :: bst_st where
  "bst_demo = \<lparr>mem = (\<lambda>_. 0), lapicid = 0, iflag = (\<lambda>_. False), cr3 = 0, cpus = [],
     bst_lock = \<lparr>locked = False, lname = '''', lcpu = None\<rparr>, bst_use_lock = False, bst_root = None, total_free = 0, num_blocks = 0,
     bst_nodes = (\<lambda>_. \<lparr>baddr = 0, bsize = 0, bleft = None, bright = None, bparent = None\<rparr>), next_node_idx = 0, bst_end = 0x80115000\<rparr>"

definition two_blocks :: "u32 \<times> u32 \<Rightarrow> u32 \<times> u32 \<Rightarrow> bst_st" where
  "two_blocks b c = bst_demo\<lparr>bst_root := Some 0, next_node_idx := 2,
     bst_nodes := (bst_nodes bst_demo)
       (0 := \<lparr>baddr = fst b, bsize = snd b, bleft = Some 1, bright = None, bparent = None\<rparr>,
        1 := \<lparr>baddr = fst c, bsize = snd c, bleft = None, bright = None, bparent = Some 0\<rparr>)\<rparr>"

definition two_tree :: "nat tree" where
  "two_tree = Node (Node Leaf 1 Leaf) 0 Leaf"

lemma two_tree_not_empty [simp]: "two_tree \<noteq> Leaf"
  by (simp add: two_tree_def)

lemma bst_demo_ok: "bst_ready bst_demo" "heap_ok bst_demo Leaf" "frees bst_demo Leaf = []" "next_node_idx bst_demo = 0" "bst_end bst_demo = 0x80115000"
  by (simp_all add: bst_demo_def bst_ready_def heap_ok_def pool_def frees_def tight_def)

lemma freeable_demo: "freeable 0x80200000 bst_demo"
  by (simp add: freeable_def bst_demo_ok page_aligned_def V2P_def)

lemma two_blocks_frees: "frees (two_blocks b c) two_tree = [c, b]"
  by (simp add: two_tree_def frees_def two_blocks_def blk_def)

lemma two_blocks_ok:
  assumes "page_aligned (fst b)" "page_aligned (fst c)" "page_aligned (snd b)" "page_aligned (snd c)" "snd b \<noteq> 0" "snd c \<noteq> 0"
    and "snd c \<le> fst b - fst c" "snd b \<le> fst c - fst b" "0 \<notin> span b" "0 \<notin> span c"
  shows "heap_ok (two_blocks b c) two_tree"
proof -
  have "span c \<inter> span b = {}" using span_disjoint [of "snd c" "fst b" "fst c" "snd b"] assms(7,8) by simp
  then have "tight [c, b]" by (simp add: tight_Cons) (simp add: tight_def)
  then show ?thesis using assms unfolding heap_ok_def two_blocks_frees by (simp add: pool_def) (simp add: two_blocks_def two_tree_def)
qed

theorem kfree_bst_frees_page_witness:
  "\<exists>u t. kfree_bst 0x80200000 bst_demo = Ok () u \<and> heap_ok u t \<and> next_node_idx u = 1 \<and> covers (frees u t) = span (0x80200000, 4096)"
  using kfree_bst_frees_page [OF bst_demo_ok(1,2) freeable_demo] by (auto simp: bst_demo_ok)

theorem kfree_bst_leaks_witness:
  "\<exists>u t. kfree_bst 0x80200000 (bst_demo\<lparr>next_node_idx := 128\<rparr>) = Ok () u \<and> covers (frees u t) = {}"
proof -
  let ?s = "bst_demo\<lparr>next_node_idx := 128\<rparr>"
  have "bst_ready ?s" "heap_ok ?s Leaf" "freeable 0x80200000 ?s" "0x80200000 \<notin> covers (frees ?s Leaf)" "128 \<le> next_node_idx ?s" "frees ?s Leaf = []"
    by (simp_all add: bst_demo_def bst_ready_def heap_ok_def pool_def frees_def tight_def freeable_def page_aligned_def V2P_def)
  from kfree_bst_leaks [OF this(1-5)] this(6) show ?thesis by auto
qed

theorem kalloc_bst_takes_page_witness:
  "\<exists>p u. kalloc_bst (two_blocks (0x80201000, 4096) (0x80100000, 4096)) = Ok p u \<and> p \<in> {0x80201000, 0x80100000}"
proof -
  let ?s = "two_blocks (0x80201000, 4096) (0x80100000, 4096)"
  have "bst_ready ?s" by (simp add: two_blocks_def bst_demo_def bst_ready_def)
  moreover have "heap_ok ?s two_tree" by (rule two_blocks_ok) (simp_all add: page_aligned_def span_def)
  ultimately show ?thesis using kalloc_bst_takes_page [of ?s two_tree] by (auto simp: two_blocks_frees)
qed

theorem kinit1_bst_keeps_128_witness:
  "\<exists>u t. kinit1_bst 0x80200000 0x80400000 bst_demo = Ok () u \<and> covers (frees u t) = span (0x80200000, 0x80000)"
proof -
  have r: "PGROUNDUP 0x80200000 = 0x80200000" by (simp add: PGROUNDUP_def)
  show ?thesis
    using kinit1_bst_keeps_128 [of bst_demo "0x80200000" "0x80400000" 512] by (simp add: r bst_demo_ok) blast
qed

text \<open>
  Splitting breaks the order of the tree.  With two free blocks of two pages each, correctly ordered by address, \<^verbatim>\<open>kalloc\<close> splits the
  root in place: afterwards the left child is larger than the root.
\<close>

theorem kalloc_bst_breaks_order:
  "sorted_wrt less_blk (frees (two_blocks (0x80200000, 8192) (0x80100000, 8192)) two_tree)
   \<and> (\<exists>u. kalloc_bst (two_blocks (0x80200000, 8192) (0x80100000, 8192)) = Ok 0x80200000 u \<and> pool u two_tree
      \<and> \<not> sorted_wrt less_blk (frees u two_tree))"
proof -
  let ?s = "two_blocks (0x80200000, 8192) (0x80100000, 8192)"
  have "bst_find_best_fit (bst_nodes ?s) (bst_root ?s) 4096 None = Some (Some 0)"
    by (simp add: two_blocks_def bst_demo_def bst_find_best_fit.simps)
  then have "kalloc_bst ?s = Ok 0x80200000 ((two_blocks (0x80201000, 4096) (0x80100000, 8192))\<lparr>total_free := 0 - 4096\<rparr>)"
    by (simp add: kalloc_bst_def lock_if_used_bst_def unlock_if_used_bst_def) (simp add: two_blocks_def bst_demo_def upd_node_def unlock_if_used_bst_def fun_upd_twist)
  moreover have "pool (two_blocks (0x80201000, 4096) (0x80100000, 8192)) two_tree" by (simp add: pool_def two_tree_def two_blocks_def)
  ultimately show ?thesis by (simp add: two_blocks_frees less_blk_def)
qed

text \<open>
  Merging misses neighbours.  The search for the block behind a freed page compares addresses in a tree that is ordered by
  size: here the page at \<^verbatim>\<open>0x801FF000\<close> is not merged with the free block that starts right behind it.
\<close>

theorem try_coalesce_misses:
  "sorted_wrt less_blk (frees (two_blocks (0x80100000, 8192) (0x80200000, 4096)) two_tree)
   \<and> (0x801FF000 + 4096, 4096) \<in> set (frees (two_blocks (0x80100000, 8192) (0x80200000, 4096)) two_tree)
   \<and> try_coalesce 0x801FF000 4096 (two_blocks (0x80100000, 8192) (0x80200000, 4096)) = Some (4096, two_blocks (0x80100000, 8192) (0x80200000, 4096))"
proof -
  let ?s = "two_blocks (0x80100000, 8192) (0x80200000, 4096)"
  have "coalesce_search (bst_nodes ?s) (0x801FF000 + 4096) (bst_root ?s) = Some None"
    by (simp add: two_blocks_def coalesce_search.simps)
  then have "try_coalesce 0x801FF000 4096 ?s = Some (4096, ?s)" by (subst try_coalesce.simps) simp
  then show ?thesis by (simp add: two_blocks_frees less_blk_def)
qed

end
