(* ===== verification/Grep.thy ===== *)
theory Grep imports Main begin

text \<open>
  \<^verbatim>\<open>grep.c\<close>: the matcher of Kernighan and Pike (\<^verbatim>\<open>matchhere\<close>, \<^verbatim>\<open>matchstar\<close>, \<^verbatim>\<open>match\<close>), the loop over the lines of the buffer and
  the loop over the reads.  The matcher is total and is shown equal to a declarative meaning of patterns; the program is shown to print
  the matching lines of a file, and to lose partial lines when a read is short.
\<close>

section \<open>The matcher\<close>

text \<open>A C string is the list of its characters before the terminator; the end of the list is the terminator.\<close>

function matchhere :: "string \<Rightarrow> string \<Rightarrow> bool" and matchstar :: "char \<Rightarrow> string \<Rightarrow> string \<Rightarrow> bool" where
  "matchhere re text =
     (case re of [] \<Rightarrow> True
      | c # re' \<Rightarrow>
          if re' \<noteq> [] \<and> hd re' = CHR ''*'' then matchstar c (tl re') text
          else if c = CHR ''$'' \<and> re' = [] then text = []
          else if text \<noteq> [] \<and> (c = CHR ''.'' \<or> c = hd text) then matchhere re' (tl text)
          else False)"
| "matchstar c re text =
     (if matchhere re text then True
      else if text \<noteq> [] \<and> (hd text = c \<or> c = CHR ''.'') then matchstar c re (tl text)
      else False)"
  by pat_completeness auto
termination
  by (relation "measure (\<lambda>x. case x of Inl (re, text) \<Rightarrow> 2 * length re + length text
      | Inr (c, re, text) \<Rightarrow> 2 * length re + length text + 1)") (auto simp: neq_Nil_conv)

declare matchhere.simps [simp del] matchstar.simps [simp del]

fun match_from :: "string \<Rightarrow> string \<Rightarrow> bool" where
  "match_from re text = (matchhere re text \<or> (case text of [] \<Rightarrow> False | _ # text' \<Rightarrow> match_from re text'))"

declare match_from.simps [simp del]

definition match :: "string \<Rightarrow> string \<Rightarrow> bool" where
  "match re text = (if re \<noteq> [] \<and> hd re = CHR ''^'' then matchhere (tl re) text else match_from re text)"

section \<open>Lines\<close>

text \<open>\<^verbatim>\<open>strchr(p, '\n')\<close> on the buffer from \<open>p\<close> on: the text before the newline and what follows it, unless the terminator comes first.\<close>

definition find_line :: "string \<Rightarrow> (string \<times> string) option" where
  "find_line p =
     (let l = takeWhile (\<lambda>c. c \<noteq> CHR 0x0A \<and> c \<noteq> CHR 0x00) p; r = drop (length l) p
      in if r \<noteq> [] \<and> hd r = CHR 0x0A then Some (l, tl r) else None)"

lemma find_line_Some: "find_line p = Some (l, r) \<longleftrightarrow> p = l @ CHR 0x0A # r \<and> CHR 0x0A \<notin> set l \<and> CHR 0x00 \<notin> set l"
proof
  assume "find_line p = Some (l, r)"
  then have l: "l = takeWhile (\<lambda>c. c \<noteq> CHR 0x0A \<and> c \<noteq> CHR 0x00) p" and r: "drop (length l) p \<noteq> []" "hd (drop (length l) p) = CHR 0x0A"
    "r = tl (drop (length l) p)" by (auto simp: find_line_def Let_def split: if_splits)
  have "take (length l) p = l" unfolding l by (simp only: takeWhile_eq_take [symmetric])
  then have "p = l @ drop (length l) p" using append_take_drop_id [of "length l" p] by simp
  moreover have "drop (length l) p = CHR 0x0A # r" using r by (cases "drop (length l) p") auto
  ultimately have "p = l @ CHR 0x0A # r" by simp
  moreover have "\<forall>c \<in> set l. c \<noteq> CHR 0x0A \<and> c \<noteq> CHR 0x00" unfolding l by (blast dest: set_takeWhileD)
  ultimately show "p = l @ CHR 0x0A # r \<and> CHR 0x0A \<notin> set l \<and> CHR 0x00 \<notin> set l" by blast
next
  assume a: "p = l @ CHR 0x0A # r \<and> CHR 0x0A \<notin> set l \<and> CHR 0x00 \<notin> set l"
  then have "\<And>c. c \<in> set l \<Longrightarrow> c \<noteq> CHR 0x0A \<and> c \<noteq> CHR 0x00" by blast
  then have "takeWhile (\<lambda>c. c \<noteq> CHR 0x0A \<and> c \<noteq> CHR 0x00) (l @ CHR 0x0A # r) = l"
    by (subst takeWhile_append2) simp_all
  then have "takeWhile (\<lambda>c. c \<noteq> CHR 0x0A \<and> c \<noteq> CHR 0x00) p = l" using a by blast
  then show "find_line p = Some (l, r)" using a by (simp add: find_line_def)
qed

text \<open>The inner loop of \<^verbatim>\<open>grep\<close>: the bytes written and the unfinished rest.\<close>

function grep_lines :: "string \<Rightarrow> string \<Rightarrow> string \<times> string" where
  "grep_lines pattern p =
     (case find_line p of
        None \<Rightarrow> ([], p)
      | Some (l, q) \<Rightarrow>
          let (out, rest) = grep_lines pattern q
          in ((if match pattern l then l @ [CHR 0x0A] else []) @ out, rest))"
  by pat_completeness auto
termination
  by (relation "measure (\<lambda>(_, p). length p)") (auto simp: find_line_Some)

declare grep_lines.simps [simp del]

text \<open>
  The outer loop: \<open>buf\<close> holds the \<^verbatim>\<open>m\<close> pending bytes; \<open>rd\<close> is the system call \<^verbatim>\<open>read\<close> on a file state of its own, given the number of
  bytes that fit.  The result is what \<^verbatim>\<open>grep\<close> writes; \<open>None\<close> if the reads never end.
\<close>

partial_function (option) grep :: "(nat \<Rightarrow> 'f \<Rightarrow> string \<times> 'f) \<Rightarrow> string \<Rightarrow> string \<Rightarrow> 'f \<Rightarrow> string option" where
  "grep rd pattern buf f =
     (case rd (1024 - length buf - 1) f of (s, f') \<Rightarrow>
      if s = [] then Some []
      else case grep_lines pattern (buf @ s) of (out, rest) \<Rightarrow>
             Option.bind (grep rd pattern (if rest = buf @ s then [] else rest) f') (\<lambda>more. Some (out @ more)))"

text \<open>
  \<^verbatim>\<open>main\<close>: \<open>opn\<close> is the system call \<^verbatim>\<open>open\<close>, which gives the state of the opened file unless it fails; the result is what is written,
  each time with its descriptor.
\<close>

fun grep_files :: "(nat \<Rightarrow> 'f \<Rightarrow> string \<times> 'f) \<Rightarrow> (string \<Rightarrow> 'f option) \<Rightarrow> string \<Rightarrow> string list \<Rightarrow> (int \<times> string) list option" where
  "grep_files rd opn pattern [] = Some []"
| "grep_files rd opn pattern (name # names) =
     (case opn name of
        None \<Rightarrow> Some [(1, ''grep: cannot open '' @ name @ [CHR 0x0A])]
      | Some f \<Rightarrow> Option.bind (grep rd pattern [] f) (\<lambda>out.
          map_option (\<lambda>outs. (1, out) # outs) (grep_files rd opn pattern names)))"

definition grep_main :: "(nat \<Rightarrow> 'f \<Rightarrow> string \<times> 'f) \<Rightarrow> (string \<Rightarrow> 'f option) \<Rightarrow> 'f \<Rightarrow> string list \<Rightarrow> (int \<times> string) list option" where
  "grep_main rd opn stdin argv =
     (if length argv \<le> 1 then Some [(2, ''usage: grep pattern [file ...]'' @ [CHR 0x0A])]
      else let pattern = argv ! 1
           in if length argv \<le> 2 then map_option (\<lambda>out. [(1, out)]) (grep rd pattern [] stdin)
              else grep_files rd opn pattern (drop 2 argv))"

section \<open>What patterns mean\<close>

datatype item = Lit char | Star char | End

fun items :: "string \<Rightarrow> item list" where
  "items [] = []"
| "items [c] = [if c = CHR ''$'' then End else Lit c]"
| "items (c # d # re) = (if d = CHR ''*'' then Star c # items re else Lit c # items (d # re))"

text \<open>A character of the pattern stands for itself, a dot for every character.\<close>

definition fits :: "char \<Rightarrow> char \<Rightarrow> bool" where
  "fits c x \<longleftrightarrow> c = CHR ''.'' \<or> c = x"

text \<open>Some prefix of the text is made up of pieces that fit the items; the end item wants the end of the text.\<close>

fun matches :: "item list \<Rightarrow> string \<Rightarrow> bool" where
  "matches [] t \<longleftrightarrow> True"
| "matches (Lit c # is) t \<longleftrightarrow> (\<exists>x v. t = x # v \<and> fits c x \<and> matches is v)"
| "matches (Star c # is) t \<longleftrightarrow> (\<exists>u v. t = u @ v \<and> (\<forall>x \<in> set u. fits c x) \<and> matches is v)"
| "matches (End # is) t \<longleftrightarrow> t = []"

lemma matchstar_splits:
  assumes "\<And>t. matchhere re t = P t"
  shows "matchstar c re w \<longleftrightarrow> (\<exists>u v. w = u @ v \<and> (\<forall>x \<in> set u. fits c x) \<and> P v)"
proof (induction w)
  case Nil
  then show ?case by (simp add: matchstar.simps assms)
next
  case (Cons x w)
  have "(\<exists>u v. x # w = u @ v \<and> (\<forall>y \<in> set u. fits c y) \<and> P v)
     \<longleftrightarrow> P (x # w) \<or> fits c x \<and> (\<exists>u v. w = u @ v \<and> (\<forall>y \<in> set u. fits c y) \<and> P v)"
    (is "?l = ?r")
  proof
    assume ?l
    then obtain u v where uv: "x # w = u @ v" "\<forall>y \<in> set u. fits c y" "P v" by blast
    show ?r by (cases u) (use uv in auto)
  next
    assume ?r
    then show ?l
    proof
      assume "P (x # w)"
      then have "x # w = [] @ (x # w) \<and> (\<forall>y \<in> set []. fits c y) \<and> P (x # w)" by simp
      then show ?l by blast
    next
      assume "fits c x \<and> (\<exists>u v. w = u @ v \<and> (\<forall>y \<in> set u. fits c y) \<and> P v)"
      then obtain u v where "fits c x" "w = u @ v" "\<forall>y \<in> set u. fits c y" "P v" by blast
      then have "x # w = (x # u) @ v \<and> (\<forall>y \<in> set (x # u). fits c y) \<and> P v" by simp
      then show ?l by blast
    qed
  qed
  then show ?case by (subst matchstar.simps) (auto simp: Cons.IH assms fits_def)
qed

lemma matchhere_items: "matchhere re w \<longleftrightarrow> matches (items re) w"
proof (induction re arbitrary: w rule: items.induct)
  case 1
  then show ?case by (simp add: matchhere.simps)
next
  case (2 c)
  then show ?case by (cases w) (auto simp: matchhere.simps [of "[c]"] matchhere.simps [of "[]"] fits_def)
next
  case (3 c d re)
  show ?case
  proof (cases "d = CHR ''*''")
    case True
    then have "matchhere (c # d # re) w = matchstar c re w" by (simp add: matchhere.simps)
    then show ?thesis using matchstar_splits [of re "matches (items re)" c w] 3 True by simp
  next
    case False
    then show ?thesis using 3 by (cases w) (auto simp: matchhere.simps [of "c # d # re"] fits_def)
  qed
qed

lemma match_from_suffix: "match_from re w \<longleftrightarrow> (\<exists>u v. w = u @ v \<and> matchhere re v)"
proof (induction w)
  case (Cons x w)
  have "(\<exists>u v. x # w = u @ v \<and> matchhere re v) \<longleftrightarrow> matchhere re (x # w) \<or> (\<exists>u v. w = u @ v \<and> matchhere re v)"
    by (auto simp: Cons_eq_append_conv)
  then show ?case by (subst match_from.simps) (simp add: Cons.IH)
qed (simp add: match_from.simps)

text \<open>
  C32: the backtracking matcher of \<^verbatim>\<open>grep\<close> decides what its patterns mean.  A pattern that starts with a caret matches a text that
  begins with the pieces of the pattern, any other pattern a text that has them somewhere; characters, dots, stars and a final
  dollar mean what the comment at the head of the file promises, and the recursion always ends.
\<close>

theorem match_meaning:
  "match re w \<longleftrightarrow>
    (if re \<noteq> [] \<and> hd re = CHR ''^'' then matches (items (tl re)) w
     else \<exists>u v. w = u @ v \<and> matches (items re) v)"
  by (simp add: match_def match_from_suffix matchhere_items)

section \<open>Reading a file\<close>

abbreviation nl :: char where
  "nl \<equiv> CHR 0x0A"

definition eol :: "string \<Rightarrow> string" where
  "eol l = l @ [nl]"

text \<open>A line that fits the buffer: no terminator, no newline, and room for both.\<close>

definition short_line :: "string \<Rightarrow> bool" where
  "short_line l \<longleftrightarrow> nl \<notin> set l \<and> CHR 0x00 \<notin> set l \<and> length l < 1023"

lemma find_line_None: "nl \<notin> set p \<Longrightarrow> find_line p = None"
  by (cases "find_line p") (auto simp: find_line_Some)

lemma find_line_eol: "short_line l \<Longrightarrow> find_line (eol l @ r) = Some (l, r)"
  by (auto simp: find_line_Some eol_def short_line_def)

lemma grep_lines_eols:
  assumes "list_all short_line ls" "nl \<notin> set r"
  shows "grep_lines pattern (concat (map eol ls) @ r) = (concat (map eol (filter (match pattern) ls)), r)"
  using assms
proof (induction ls)
  case Nil
  then show ?case by (simp add: grep_lines.simps find_line_None)
next
  case (Cons l ls)
  then show ?case by (subst grep_lines.simps) (simp add: find_line_eol, simp add: eol_def)
qed

lemma take_eols:
  assumes "nl \<notin> set r"
  obtains ls1 ls2 r1 where "ls = ls1 @ ls2" "take k (concat (map eol ls) @ r) = concat (map eol ls1) @ r1"
    "nl \<notin> set r1 \<or> \<not> list_all short_line ls" "r1 @ drop k (concat (map eol ls) @ r) = concat (map eol ls2) @ r"
    "ls1 = [] \<Longrightarrow> ls = [] \<or> k \<le> length (hd ls)"
proof (induction ls arbitrary: k thesis)
  case Nil
  show ?case by (rule Nil [of "[]" "[]" "take k r"]) (use assms in \<open>auto dest: in_set_takeD\<close>)
next
  case (Cons l ls)
  show ?case
  proof (cases "k \<le> length l")
    case True
    then show ?thesis
      by (intro Cons.prems [of "[]" "l # ls" "take k l"]) (auto simp: eol_def short_line_def dest: in_set_takeD)
  next
    case False
    obtain ls1 ls2 r1 where ih: "ls = ls1 @ ls2" "take (k - Suc (length l)) (concat (map eol ls) @ r) = concat (map eol ls1) @ r1"
      "nl \<notin> set r1 \<or> \<not> list_all short_line ls" "r1 @ drop (k - Suc (length l)) (concat (map eol ls) @ r) = concat (map eol ls2) @ r"
      by (rule Cons.IH)
    have "k - length (eol l) = k - Suc (length l)" "take k (eol l) = eol l" "drop k (eol l) = []" using False by (simp_all add: eol_def)
    then show ?thesis
      by (intro Cons.prems [of "l # ls1" ls2 r1]) (use ih in simp_all)
  qed
qed

text \<open>A read from an ordinary file returns as many bytes as asked for, as long as the file has them.\<close>

definition file_read :: "nat \<Rightarrow> string \<Rightarrow> string \<times> string" where
  "file_read n f = (take n f, drop n f)"

lemma grep_file:
  assumes "buf @ f = concat (map eol ls) @ r" "list_all short_line ls" "nl \<notin> set r" "nl \<notin> set buf" "length buf < 1023"
  shows "grep file_read pattern buf f = Some (concat (map eol (filter (match pattern) ls)))"
  using assms
proof (induction "length f" arbitrary: f buf ls r rule: less_induct)
  case less
  note step = grep.simps [of file_read pattern buf f]
  show ?case
  proof (cases "f = []")
    case True
    then have "ls = []" using less.prems by (cases ls) (auto simp: eol_def)
    then show ?thesis using True step by (simp add: file_read_def)
  next
    case False
    let ?s = "take (1023 - length buf) f" and ?f = "drop (1023 - length buf) f"
    have "0 < length f" using False by simp
    then have s: "?s \<noteq> []" "length ?f < length f" using less.prems(5) by (auto simp del: length_greater_0_conv)
    have w: "buf @ ?s = take 1023 (concat (map eol ls) @ r)" "?f = drop 1023 (concat (map eol ls) @ r)"
      using less.prems(5) by (simp_all flip: less.prems(1))
    obtain ls1 ls2 r1 where d: "ls = ls1 @ ls2" "buf @ ?s = concat (map eol ls1) @ r1" "nl \<notin> set r1"
      "r1 @ ?f = concat (map eol ls2) @ r" "ls1 = [] \<Longrightarrow> ls = [] \<or> 1023 \<le> length (hd ls)"
      unfolding w using take_eols [OF less.prems(3), of ls 1023] less.prems(2) by metis
    have good: "list_all short_line ls1" "list_all short_line ls2" using less.prems(2) d(1) by simp_all
    have lines: "grep_lines pattern (buf @ ?s) = (concat (map eol (filter (match pattern) ls1)), r1)"
      unfolding d(2) by (rule grep_lines_eols [OF good(1) d(3)])
    have "grep file_read pattern (if r1 = buf @ ?s then [] else r1) ?f = Some (concat (map eol (filter (match pattern) ls2)))"
    proof (cases "ls1 = []")
      case True
      then have "ls = []" using d(5) less.prems(2) by (cases ls) (auto simp: short_line_def)
      moreover have "nl \<notin> set ?f" using less.prems(1,3) calculation by (auto dest!: in_set_dropD)
      ultimately show ?thesis using less.hyps [OF s(2), of "[]" "[]" ?f] d True by simp
    next
      case False
      have "length (buf @ ?s) \<le> 1023" using less.prems(5) by simp
      then have "length r1 < 1023" using False d(2) by (cases ls1) (auto simp: eol_def)
      moreover have "r1 \<noteq> buf @ ?s" using False d(2) by (cases ls1) (auto simp: eol_def)
      ultimately show ?thesis using less.hyps [OF s(2) d(4) good(2) less.prems(3) d(3)] by simp
    qed
    then show ?thesis using s(1) lines step by (simp add: file_read_def d(1))
  qed
qed

lemma grep_files_lines:
  assumes "\<And>n. n \<in> set names \<Longrightarrow> list_all short_line (lines n) \<and> nl \<notin> set (rest n)
      \<and> opn n = Some (concat (map eol (lines n)) @ rest n)"
  shows "grep_files file_read opn pattern (names @ names') =
    map_option (\<lambda>outs. map (\<lambda>n. (1, concat (map eol (filter (match pattern) (lines n))))) names @ outs)
      (grep_files file_read opn pattern names')"
  using assms
proof (induction names)
  case (Cons n names)
  have "grep file_read pattern [] (concat (map eol (lines n)) @ rest n) = Some (concat (map eol (filter (match pattern) (lines n))))"
    by (rule grep_file) (use Cons.prems [of n] in auto)
  then show ?case using Cons by (simp add: option.map_comp comp_def)
qed (cases "grep_files file_read opn pattern names'"; simp)

text \<open>
  C33: on ordinary files whose lines fit its buffer \<^verbatim>\<open>grep\<close> ends and writes, for one file after the other, exactly the lines that
  match, in order and each with its newline, however the lines fall across the 1024-byte buffer; a last line without a newline is
  not looked at.  A file that cannot be opened ends the program with a message, and the files after it are not searched.
\<close>

theorem grep_main_matching_lines:
  assumes "names \<noteq> [] \<or> bad \<noteq> None"
    and "\<forall>n \<in> set names. list_all short_line (lines n) \<and> CHR 0x0A \<notin> set (rest n) \<and> opn n = Some (concat (map eol (lines n)) @ rest n)"
    and "\<forall>b. bad = Some b \<longrightarrow> opn b = None"
  shows "grep_main file_read opn stdin ([prog, pattern] @ names @ (case bad of None \<Rightarrow> [] | Some b \<Rightarrow> b # later)) =
    Some (map (\<lambda>n. (1, concat (map eol (filter (match pattern) (lines n))))) names
      @ (case bad of None \<Rightarrow> [] | Some b \<Rightarrow> [(1, ''grep: cannot open '' @ b @ [CHR 0x0A])]))"
proof -
  let ?tail = "case bad of None \<Rightarrow> [] | Some b \<Rightarrow> b # later"
  have "grep_main file_read opn stdin ([prog, pattern] @ names @ ?tail) = grep_files file_read opn pattern (names @ ?tail)"
    using assms(1) by (cases names) (auto simp: grep_main_def split: option.split)
  also have "\<dots> = map_option (\<lambda>outs. map (\<lambda>n. (1, concat (map eol (filter (match pattern) (lines n))))) names @ outs)
      (grep_files file_read opn pattern ?tail)"
    by (rule grep_files_lines) (use assms(2) in auto)
  finally show ?thesis using assms(3) by (cases bad) auto
qed

theorem grep_main_matching_lines_witness:
  "grep_main file_read (\<lambda>n. if n = ''f'' then Some (concat (map eol [''ab'', ''c''])) else None) [] [''grep'', ''b'', ''f'', ''g'', ''h''] =
    Some [(1, eol ''ab''), (1, ''grep: cannot open g'' @ [CHR 0x0A])]"
proof -
  have m: "match ''b'' ''ab''" "\<not> match ''b'' ''c''"
    by (simp_all add: match_def match_from.simps matchhere.simps)
  show ?thesis
    using grep_main_matching_lines [of "[''f'']" "Some ''g''" "\<lambda>_. [''ab'', ''c'']" "\<lambda>_. []"
      "\<lambda>n. if n = ''f'' then Some (concat (map eol [''ab'', ''c''])) else None" "[]" "''grep''" "''b''" "[''h'']"]
    by (simp add: short_line_def m)
qed

text \<open>A read from a pipe or the console may return less than it is asked for: one chunk after the other.\<close>

fun chunk_read :: "nat \<Rightarrow> string list \<Rightarrow> string \<times> string list" where
  "chunk_read n [] = ([], [])"
| "chunk_read n (c # cs) = (take n c, (if length c \<le> n then cs else drop n c # cs))"

text \<open>
  C34: on a pipe or the console \<^verbatim>\<open>grep\<close> forgets what it read when a read brings no newline: with \<^verbatim>\<open>if(p == buf) m = 0\<close> the bytes of an
  unfinished line are discarded, and the rest of the line, when it arrives, is matched as if it were the whole line.
\<close>

theorem grep_forgets_partial_line:
  assumes "CHR 0x0A \<notin> set c" "c \<noteq> []" "length c \<le> 1023"
  shows "grep chunk_read pattern [] (c # cs) = grep chunk_read pattern [] cs"
proof -
  have "grep_lines pattern c = ([], c)" using assms(1) by (simp add: grep_lines.simps find_line_None)
  then show ?thesis using assms(2,3) by (subst grep.simps) (auto simp: bind_rzero split: Option.bind_splits)
qed

theorem grep_forgets_partial_line_witness:
  "grep chunk_read ''ab'' [] [''a'', eol ''b''] = grep chunk_read ''ab'' [] [eol ''b'']"
  by (rule grep_forgets_partial_line) simp_all

end
