(* ===== verification/Usys.thy ===== *)
theory Usys imports "HOL-Library.Word" begin

text \<open>
  The user side of the system: programs as trees of system calls (\<^verbatim>\<open>user.h\<close>, \<^verbatim>\<open>usys.S\<close>), the formatted output of \<^verbatim>\<open>printf.c\<close> and the
  number and line reading of \<^verbatim>\<open>ulib.c\<close>.
\<close>

section \<open>Programs\<close>

text \<open>
  A program makes a system call and goes on with the reply, or exits.  The reply carries the returned value, and what the kernel
  stores through a pointer argument: the bytes of a read, the two descriptors of a pipe, the fields of a stat.  \<open>Stop\<close> is not an
  ending of the program: it marks the point where a model that bounds a loop gives up.
\<close>

datatype call = Fork | Wait | Pipe | Read int nat | Kill "32 word" | Exec string "string list" | Fstat int | Chdir string | Dup int
  | Sleep int | Open string nat | Write int string | Mknod string nat nat | Unlink string | Link string string | Mkdir string | Close int

record stat_reply =
  st_type :: int
  st_ino :: "32 word"
  st_size :: "32 word"

record reply =
  rv :: int
  rbytes :: string
  rfds :: "int \<times> int"
  rstat :: stat_reply

datatype act = Exit | Stop | Sys call "reply \<Rightarrow> act"

abbreviation syscall :: "call \<Rightarrow> (int \<Rightarrow> act) \<Rightarrow> act" where
  "syscall c k \<equiv> Sys c (\<lambda>r. k (rv r))"

abbreviation (input) O_RDONLY :: nat where "O_RDONLY \<equiv> 0"
abbreviation (input) O_WRONLY :: nat where "O_WRONLY \<equiv> 1"
abbreviation (input) O_RDWR :: nat where "O_RDWR \<equiv> 2"
abbreviation (input) O_CREATE :: nat where "O_CREATE \<equiv> 0x200"

section \<open>Formatted output\<close>

text \<open>The digits of a number, least significant first.\<close>

function udigits :: "nat \<Rightarrow> nat \<Rightarrow> string" where
  "udigits base x =
     ''0123456789ABCDEF'' ! (x mod base) # (if base < 2 \<or> x div base = 0 then [] else udigits base (x div base))"
  by pat_completeness auto
termination
  by (relation "measure snd") (auto intro!: div_less_dividend gr0I)

declare udigits.simps [simp del]

definition uprintint :: "32 word \<Rightarrow> nat \<Rightarrow> bool \<Rightarrow> string" where
  "uprintint xx base sg =
     (if sg \<and> sint xx < 0 then rev (udigits base (unat (- xx)) @ ''-'') else rev (udigits base (unat xx)))"

text \<open>An argument of \<^verbatim>\<open>printf\<close>: a number, or a string that may be null.\<close>

datatype arg = Num "32 word" | Ptr "string option"

text \<open>
  The text of \<^verbatim>\<open>printf\<close>.  There is none when the format asks for an argument that was not passed, or for one of the other kind: the
  C code then reads whatever is on the stack.
\<close>

fun format :: "string \<Rightarrow> arg list \<Rightarrow> string option" where
  "format [] args = Some []"
| "format (c # f) args =
     (if c \<noteq> CHR ''%'' then map_option (\<lambda>s. c # s) (format f args)
      else case f of
        [] \<Rightarrow> Some []
      | d # f \<Rightarrow>
          if d = CHR ''d'' then (case args of Num x # args \<Rightarrow> map_option (\<lambda>s. uprintint x 10 True @ s) (format f args) | _ \<Rightarrow> None)
          else if d = CHR ''x'' \<or> d = CHR ''p'' then (case args of Num x # args \<Rightarrow> map_option (\<lambda>s. uprintint x 16 False @ s) (format f args) | _ \<Rightarrow> None)
          else if d = CHR ''s'' then
            (case args of Ptr p # args \<Rightarrow> map_option (\<lambda>s. (case p of None \<Rightarrow> ''(null)'' | Some t \<Rightarrow> t) @ s) (format f args) | _ \<Rightarrow> None)
          else if d = CHR ''c'' then (case args of Num x # args \<Rightarrow> map_option (\<lambda>s. char_of (unat x) # s) (format f args) | _ \<Rightarrow> None)
          else if d = CHR ''%'' then map_option (\<lambda>s. d # s) (format f args)
          else map_option (\<lambda>s. CHR ''%'' # d # s) (format f args))"

definition putc :: "int \<Rightarrow> char \<Rightarrow> act \<Rightarrow> act" where
  "putc fd c k = Sys (Write fd [c]) (\<lambda>_. k)"

definition printf :: "int \<Rightarrow> string \<Rightarrow> arg list \<Rightarrow> act \<Rightarrow> act" where
  "printf fd fmt args k = (case format fmt args of Some s \<Rightarrow> foldr (putc fd) s k | None \<Rightarrow> Stop)"

section \<open>Library routines\<close>

fun atoi_from :: "32 word \<Rightarrow> string \<Rightarrow> 32 word" where
  "atoi_from n [] = n"
| "atoi_from n (c # s) =
     (if of_char (CHR ''0'') \<le> (of_char c :: nat) \<and> of_char c \<le> (of_char (CHR ''9'') :: nat)
      then atoi_from (n * 10 + of_char c - of_char (CHR ''0'')) s else n)"

definition atoi :: "string \<Rightarrow> 32 word" where
  "atoi s = atoi_from 0 s"

text \<open>\<^verbatim>\<open>strcmp\<close> on C strings; the difference of the first bytes that differ, the terminator counting as 0.\<close>

fun ustrcmp :: "string \<Rightarrow> string \<Rightarrow> int" where
  "ustrcmp [] [] = 0"
| "ustrcmp (a # p) [] = of_char a"
| "ustrcmp [] (b # q) = - of_char b"
| "ustrcmp (a # p) (b # q) = (if a = b then ustrcmp p q else of_char a - of_char b)"

text \<open>The rest of the string from the first \<open>c\<close> on.\<close>

fun ustrchr :: "string \<Rightarrow> char \<Rightarrow> string option" where
  "ustrchr [] c = None"
| "ustrchr (a # s) c = (if a = c then Some (a # s) else ustrchr s c)"

text \<open>
  \<^verbatim>\<open>gets\<close> reads one byte at a time; \<open>line\<close> is what the buffer holds so far.  The bound \<open>mx\<close> counts the terminator too.
\<close>

function gets :: "nat \<Rightarrow> string \<Rightarrow> (string \<Rightarrow> act) \<Rightarrow> act" where
  "gets mx line k =
     (if length line + 1 < mx
      then Sys (Read 0 1) (\<lambda>r.
        if rv r < 1 then k line
        else let c = hd (rbytes r); line = line @ [c]
             in if c = CHR 0x0A \<or> c = CHR 0x0D then k line else gets mx line k)
      else k line)"
  by pat_completeness auto
termination
  by (relation "measure (\<lambda>(mx, line, _). mx - length line)") auto

declare gets.simps [simp del]

text \<open>\<^verbatim>\<open>stat\<close>: no reply is the result -1.\<close>

definition ustat :: "string \<Rightarrow> (reply option \<Rightarrow> act) \<Rightarrow> act" where
  "ustat n k =
     syscall (Open n O_RDONLY) (\<lambda>fd.
       if fd < 0 then k None else Sys (Fstat fd) (\<lambda>r. Sys (Close fd) (\<lambda>_. k (if rv r < 0 then None else Some r))))"

end
