(* ===== verification/Sh.thy ===== *)
theory Sh imports Usys "HOL-Library.Sublist" begin

text \<open>
  \<^verbatim>\<open>sh.c\<close>: the shell.  The tokenizer, the recursive-descent parser with its panics, the termination of the strings of a line in place,
  and the execution of the parsed command as a tree of system calls.
\<close>

unbundle bit_operations_syntax

section \<open>Commands\<close>

text \<open>
  A parsed command.  The arguments and file names are of a type of their own: the parser gives them as offsets of the line
  (\<^verbatim>\<open>argv[i]\<close> with \<^verbatim>\<open>eargv[i]\<close>, \<^verbatim>\<open>file\<close> with \<^verbatim>\<open>efile\<close>), the running shell sees them as strings.
\<close>

datatype 'p cmd = EXEC "'p list" | REDIR "'p cmd" 'p nat nat | PIPE "'p cmd" "'p cmd" | LIST "'p cmd" "'p cmd" | BACK "'p cmd"

type_synonym span = "nat \<times> nat"

definition MAXARGS :: nat where
  "MAXARGS = 10"

section \<open>Tokens\<close>

definition whitespace :: string where
  "whitespace = [CHR '' '', CHR 0x09, CHR 0x0D, CHR 0x0A, CHR 0x0B]"

definition symbols :: string where
  "symbols = ''<|>&;()''"

text \<open>
  The parse position \<^verbatim>\<open>*ps\<close> is the rest of the line from there to \<^verbatim>\<open>es\<close>; as an offset it is \<open>off es s\<close>.  The line has no terminator
  before \<^verbatim>\<open>es\<close>, and the byte at \<^verbatim>\<open>es\<close> is one.
\<close>

definition off :: "nat \<Rightarrow> string \<Rightarrow> nat" where
  "off es s = es - length s"

definition skip_space :: "string \<Rightarrow> string" where
  "skip_space s = dropWhile (\<lambda>c. c \<in> set whitespace) s"

definition word_char :: "char \<Rightarrow> bool" where
  "word_char c \<longleftrightarrow> c \<notin> set whitespace \<and> c \<notin> set symbols"

definition gettoken :: "nat \<Rightarrow> string \<Rightarrow> char \<times> span \<times> string" where
  "gettoken es ps =
     (let s = skip_space ps;
          q = off es s;
          (ret, s) =
            (case s of
               [] \<Rightarrow> (CHR 0x00, s)
             | c # r \<Rightarrow>
                 if c \<in> set ''|();&<'' then (c, r)
                 else if c = CHR ''>'' then (if r \<noteq> [] \<and> hd r = CHR ''>'' then (CHR ''+'', tl r) else (c, r))
                 else (CHR ''a'', dropWhile word_char s));
          eq = off es s
      in (ret, (q, eq), skip_space s))"

definition peek :: "string \<Rightarrow> string \<Rightarrow> bool \<times> string" where
  "peek toks ps = (let s = skip_space ps in (s \<noteq> [] \<and> hd s \<in> set toks, s))"

section \<open>The parser\<close>

text \<open>
  The outcome of a parse function: a result and the new position, the text printed by \<^verbatim>\<open>panic\<close> before the shell exits, or no result
  within the given number of nested calls and iterations.
\<close>

datatype 'a parse = Done 'a string | Fail string | More

definition panic :: "string \<Rightarrow> 'a parse" where
  "panic s = Fail (s @ [CHR 0x0A])"

primrec pbind :: "'a parse \<Rightarrow> ('a \<Rightarrow> string \<Rightarrow> 'b parse) \<Rightarrow> 'b parse" where
  "pbind (Done a ps) f = f a ps"
| "pbind (Fail e) f = Fail e"
| "pbind More f = More"

definition redirect :: "char \<Rightarrow> 'p \<Rightarrow> 'p cmd \<Rightarrow> 'p cmd" where
  "redirect tok q cmd =
     (if tok = CHR ''<'' then REDIR cmd q O_RDONLY 0
      else if tok = CHR ''>'' then REDIR cmd q (O_WRONLY OR O_CREATE) 1
      else if tok = CHR ''+'' then REDIR cmd q (O_WRONLY OR O_CREATE) 1
      else cmd)"

fun parseredirs :: "nat \<Rightarrow> nat \<Rightarrow> span cmd \<Rightarrow> string \<Rightarrow> span cmd parse" where
  "parseredirs 0 es cmd ps = More"
| "parseredirs (Suc k) es cmd ps =
     (case peek ''<>'' ps of (found, ps) \<Rightarrow>
      if \<not> found then Done cmd ps
      else case gettoken es ps of (tok, _, ps) \<Rightarrow>
           case gettoken es ps of (t, q, ps) \<Rightarrow>
           if t \<noteq> CHR ''a'' then panic ''missing file for redirection''
           else parseredirs k es (redirect tok q cmd) ps)"

text \<open>\<^verbatim>\<open>cmd->argv[argc] = q\<close>: the command under construction is the one below the redirections made so far.\<close>

fun add_arg :: "'p \<Rightarrow> 'p cmd \<Rightarrow> 'p cmd" where
  "add_arg q (EXEC args) = EXEC (args @ [q])"
| "add_arg q (REDIR c f mode fd) = REDIR (add_arg q c) f mode fd"
| "add_arg q c = c"

fun parseargs :: "nat \<Rightarrow> nat \<Rightarrow> nat \<Rightarrow> span cmd \<Rightarrow> string \<Rightarrow> span cmd parse" where
  "parseargs 0 es argc ret ps = More"
| "parseargs (Suc k) es argc ret ps =
     (case peek ''|)&;'' ps of (stop, ps) \<Rightarrow>
      if stop then Done ret ps
      else case gettoken es ps of (tok, q, ps) \<Rightarrow>
           if tok = CHR 0x00 then Done ret ps
           else if tok \<noteq> CHR ''a'' then panic ''syntax''
           else if Suc argc \<ge> MAXARGS then panic ''too many args''
           else pbind (parseredirs k es (add_arg q ret) ps) (\<lambda>ret ps. parseargs k es (Suc argc) ret ps))"

fun parsebacks :: "nat \<Rightarrow> nat \<Rightarrow> span cmd \<Rightarrow> string \<Rightarrow> span cmd parse" where
  "parsebacks 0 es cmd ps = More"
| "parsebacks (Suc k) es cmd ps =
     (case peek ''&'' ps of (found, ps) \<Rightarrow>
      if found then (case gettoken es ps of (_, _, ps) \<Rightarrow> parsebacks k es (BACK cmd) ps) else Done cmd ps)"

function parseline :: "nat \<Rightarrow> nat \<Rightarrow> string \<Rightarrow> span cmd parse"
  and parsepipe :: "nat \<Rightarrow> nat \<Rightarrow> string \<Rightarrow> span cmd parse"
  and parseblock :: "nat \<Rightarrow> nat \<Rightarrow> string \<Rightarrow> span cmd parse"
  and parseexec :: "nat \<Rightarrow> nat \<Rightarrow> string \<Rightarrow> span cmd parse" where
  "parseline 0 es ps = More"
| "parseline (Suc k) es ps =
     pbind (parsepipe k es ps) (\<lambda>cmd ps.
     pbind (parsebacks k es cmd ps) (\<lambda>cmd ps.
     case peek '';'' ps of (found, ps) \<Rightarrow>
     if found then case gettoken es ps of (_, _, ps) \<Rightarrow> pbind (parseline k es ps) (\<lambda>right ps. Done (LIST cmd right) ps)
     else Done cmd ps))"
| "parsepipe 0 es ps = More"
| "parsepipe (Suc k) es ps =
     pbind (parseexec k es ps) (\<lambda>cmd ps.
     case peek ''|'' ps of (found, ps) \<Rightarrow>
     if found then case gettoken es ps of (_, _, ps) \<Rightarrow> pbind (parsepipe k es ps) (\<lambda>right ps. Done (PIPE cmd right) ps)
     else Done cmd ps)"
| "parseblock 0 es ps = More"
| "parseblock (Suc k) es ps =
     (case peek ''('' ps of (opens, ps) \<Rightarrow>
      if \<not> opens then panic ''parseblock''
      else case gettoken es ps of (_, _, ps) \<Rightarrow>
        pbind (parseline k es ps) (\<lambda>cmd ps.
        case peek '')'' ps of (closes, ps) \<Rightarrow>
        if \<not> closes then panic ''syntax - missing )''
        else case gettoken es ps of (_, _, ps) \<Rightarrow> parseredirs k es cmd ps))"
| "parseexec 0 es ps = More"
| "parseexec (Suc k) es ps =
     (case peek ''('' ps of (opens, ps) \<Rightarrow>
      if opens then parseblock k es ps
      else pbind (parseredirs k es (EXEC []) ps) (\<lambda>ret ps. parseargs k es 0 ret ps))"
  by pat_completeness auto
termination
  by (relation "measure (\<lambda>x. case x of Inl (Inl (k, _)) \<Rightarrow> k | Inl (Inr (k, _)) \<Rightarrow> k | Inr (Inl (k, _)) \<Rightarrow> k | Inr (Inr (k, _)) \<Rightarrow> k)") simp_all

section \<open>The line as a C string\<close>

text \<open>The memory of the line buffer from the line on; a pointer is an offset into it.\<close>

definition cstr :: "string \<Rightarrow> nat \<Rightarrow> string" where
  "cstr m q = takeWhile (\<lambda>c. c \<noteq> CHR 0x00) (drop q m)"

fun nulterminate :: "span cmd \<Rightarrow> string \<Rightarrow> string" where
  "nulterminate (EXEC args) m = fold (\<lambda>(_, eq) m. m[eq := CHR 0x00]) args m"
| "nulterminate (REDIR c (_, eq) _ _) m = (nulterminate c m)[eq := CHR 0x00]"
| "nulterminate (PIPE l r) m = nulterminate r (nulterminate l m)"
| "nulterminate (LIST l r) m = nulterminate r (nulterminate l m)"
| "nulterminate (BACK c) m = nulterminate c m"

text \<open>\<open>parse_fuel\<close> bounds the nesting of calls and iterations on a line of the given length.\<close>

definition parse_fuel :: "nat \<Rightarrow> nat" where
  "parse_fuel n = 5 * n + 6"

definition parsecmd :: "string \<Rightarrow> (span cmd \<times> string) parse" where
  "parsecmd m =
     (let s = cstr m 0; es = length s
      in pbind (parseline (parse_fuel es) es s) (\<lambda>cmd s.
         case peek [] s of (_, s) \<Rightarrow>
         if s \<noteq> [] then Fail (''leftovers: '' @ s @ [CHR 0x0A] @ ''syntax'' @ [CHR 0x0A])
         else Done (cmd, nulterminate cmd m) s))"

definition string_cmd :: "string \<Rightarrow> span cmd \<Rightarrow> string cmd" where
  "string_cmd m c = map_cmd (\<lambda>(q, eq). cstr m q) c"

section \<open>Running a command\<close>

definition sh_panic :: "string \<Rightarrow> act" where
  "sh_panic s = printf 2 (''%s'' @ [CHR 0x0A]) [Ptr (Some s)] Exit"

definition fork1 :: "(int \<Rightarrow> act) \<Rightarrow> act" where
  "fork1 k = syscall Fork (\<lambda>pid. if pid = -1 then sh_panic ''fork'' else k pid)"

text \<open>The switch over the type has no other case: the default of the C code, a panic, is for a type that no constructor sets.\<close>

primrec runcmd :: "string cmd \<Rightarrow> act" where
  "runcmd (EXEC argv) =
     (if argv = [] then Exit
      else syscall (Exec (hd argv) argv) (\<lambda>_. printf 2 (''exec %s failed'' @ [CHR 0x0A]) [Ptr (Some (hd argv))] Exit))"
| "runcmd (REDIR c file mode fd) =
     syscall (Close (int fd)) (\<lambda>_.
     syscall (Open file mode) (\<lambda>r.
       if r < 0 then printf 2 (''open %s failed'' @ [CHR 0x0A]) [Ptr (Some file)] Exit else runcmd c))"
| "runcmd (PIPE l r) =
     Sys Pipe (\<lambda>rep.
       if rv rep < 0 then sh_panic ''pipe''
       else case rfds rep of (p0, p1) \<Rightarrow>
         fork1 (\<lambda>pid.
           if pid = 0 then syscall (Close 1) (\<lambda>_. syscall (Dup p1) (\<lambda>_. syscall (Close p0) (\<lambda>_. syscall (Close p1) (\<lambda>_. runcmd l))))
           else fork1 (\<lambda>pid.
             if pid = 0 then syscall (Close 0) (\<lambda>_. syscall (Dup p0) (\<lambda>_. syscall (Close p0) (\<lambda>_. syscall (Close p1) (\<lambda>_. runcmd r))))
             else syscall (Close p0) (\<lambda>_. syscall (Close p1) (\<lambda>_. syscall Wait (\<lambda>_. syscall Wait (\<lambda>_. Exit)))))))"
| "runcmd (LIST l r) = fork1 (\<lambda>pid. if pid = 0 then runcmd l else syscall Wait (\<lambda>_. runcmd r))"
| "runcmd (BACK c) = fork1 (\<lambda>pid. if pid = 0 then runcmd c else Exit)"

text \<open>
  The main loop.  It opens the console until it has three descriptors, then reads lines into a buffer of 100 bytes; \<open>k\<close> bounds the
  opens and the lines.
\<close>

definition nul_buffer :: "nat \<Rightarrow> string \<Rightarrow> string" where
  "nul_buffer n line = line @ replicate (n - length line) (CHR 0x00)"

definition getcmd :: "(string option \<Rightarrow> act) \<Rightarrow> act" where
  "getcmd k =
     printf 2 ''$ '' [] (gets 100 [] (\<lambda>line.
       let buf = nul_buffer 100 line in if hd buf = CHR 0x00 then k None else k (Some buf)))"

fun sh_open_console :: "nat \<Rightarrow> act \<Rightarrow> act" where
  "sh_open_console 0 cont = Stop"
| "sh_open_console (Suc k) cont =
     syscall (Open ''console'' O_RDWR) (\<lambda>fd.
       if fd \<ge> 0 then (if fd \<ge> 3 then syscall (Close fd) (\<lambda>_. cont) else sh_open_console k cont) else cont)"

text \<open>A line that starts with \<^verbatim>\<open>cd\<close> and a space is run by the shell itself, without its last character.\<close>

fun sh_loop :: "nat \<Rightarrow> act" where
  "sh_loop 0 = Stop"
| "sh_loop (Suc k) =
     getcmd (\<lambda>inp. case inp of
       None \<Rightarrow> Exit
     | Some buf \<Rightarrow>
         if take 3 buf = ''cd ''
         then let dir = drop 3 (butlast (cstr buf 0))
              in syscall (Chdir dir) (\<lambda>r. if r < 0 then printf 2 (''cannot cd %s'' @ [CHR 0x0A]) [Ptr (Some dir)] (sh_loop k) else sh_loop k)
         else fork1 (\<lambda>pid.
           if pid = 0
           then (case parsecmd buf of
                   Done (c, m) _ \<Rightarrow> runcmd (string_cmd m c)
                 | Fail msg \<Rightarrow> printf 2 ''%s'' [Ptr (Some msg)] Exit
                 | More \<Rightarrow> Stop)
           else syscall Wait (\<lambda>_. sh_loop k)))"

definition sh_main :: "nat \<Rightarrow> act" where
  "sh_main k = sh_open_console k (sh_loop k)"

section \<open>The parser ends\<close>

lemma skip_space_length: "length (skip_space s) \<le> length s"
  by (simp add: skip_space_def length_dropWhile_le)

lemma skip_space_hd: "skip_space s = [] \<or> hd (skip_space s) \<notin> set whitespace"
  using hd_dropWhile [of "\<lambda>c. c \<in> set whitespace" s] by (auto simp: skip_space_def)

lemma skip_space_id [simp]: "skip_space (skip_space s) = skip_space s"
  by (simp add: skip_space_def)

lemma peek_rest: "peek toks ps = (b, r) \<Longrightarrow> r = skip_space ps \<and> (b \<longrightarrow> r \<noteq> [] \<and> hd r \<in> set toks)"
  by (auto simp: peek_def Let_def)

lemma gettoken_shorter:
  assumes "gettoken es ps = (tok, q, r)"
  shows "length r \<le> length ps" "skip_space ps \<noteq> [] \<Longrightarrow> length r < length ps" "tok \<noteq> CHR 0x00 \<Longrightarrow> skip_space ps \<noteq> []"
proof -
  let ?s = "skip_space ps"
  have word: "length (dropWhile word_char (c # w)) < length (c # w)" if "?s = c # w" "c \<notin> set ''|();&<''" "c \<noteq> CHR ''>''" for c w
    using that skip_space_hd [of ps] length_dropWhile_le [of word_char w] by (auto simp: word_char_def symbols_def less_Suc_eq_le)
  have r: "length r \<le> length (skip_space ps) \<and> (skip_space ps \<noteq> [] \<longrightarrow> length r < length (skip_space ps)) \<and> (tok \<noteq> CHR 0x00 \<longrightarrow> skip_space ps \<noteq> [])"
  proof (cases ?s)
    case Nil
    then show ?thesis using assms by (auto simp: gettoken_def Let_def skip_space_def [of "[]"])
  next
    case (Cons c w)
    have "length r \<le> length w"
      using assms Cons word [OF Cons] skip_space_length [of w] skip_space_length [of "tl w"]
        skip_space_length [of "dropWhile word_char (c # w)"]
      by (auto simp: gettoken_def Let_def split: if_splits)
    then show ?thesis using Cons by simp
  qed
  show "length r \<le> length ps" "skip_space ps \<noteq> [] \<Longrightarrow> length r < length ps" "tok \<noteq> CHR 0x00 \<Longrightarrow> skip_space ps \<noteq> []"
    using r skip_space_length [of ps] by auto
qed

text \<open>An outcome that is not cut short, with at most \<open>n\<close> characters left.\<close>

fun ends :: "nat \<Rightarrow> 'a parse \<Rightarrow> bool" where
  "ends n (Done a r) = (length r \<le> n)"
| "ends n (Fail e) = True"
| "ends n More = False"

lemma ends_mono: "ends n x \<Longrightarrow> n \<le> m \<Longrightarrow> ends m x"
  by (cases x) auto

lemma ends_panic [simp]: "ends n (panic e)"
  by (simp add: panic_def)

lemma ends_pbind: "ends n x \<Longrightarrow> (\<And>a r. x = Done a r \<Longrightarrow> length r \<le> n \<Longrightarrow> ends n (f a r)) \<Longrightarrow> ends n (pbind x f)"
  by (cases x) auto

lemma peek_gettoken_shorter:
  assumes "peek toks ps = (b, r)" "gettoken es r = (tok, q, r1)"
  shows "length r \<le> length ps" "length r1 \<le> length ps" "b \<or> tok \<noteq> CHR 0x00 \<Longrightarrow> length r1 < length ps"
  using peek_rest [OF assms(1)] gettoken_shorter [OF assms(2)] skip_space_length [of ps] by auto

lemma ends_token:
  assumes "length ps \<le> n" "\<And>r. length r < n \<Longrightarrow> ends n (f r)" "\<And>r. length r \<le> n \<Longrightarrow> ends n (g r)"
  shows "ends n (case peek toks ps of (found, ps) \<Rightarrow> if found then case gettoken es ps of (_, _, ps) \<Rightarrow> f ps else g ps)"
    "ends n (case peek toks ps of (found, ps) \<Rightarrow> if \<not> found then g ps else case gettoken es ps of (_, _, ps) \<Rightarrow> f ps)"
proof -
  obtain b r where p: "peek toks ps = (b, r)" by fastforce
  obtain tok q r1 where t: "gettoken es r = (tok, q, r1)" by (metis prod_cases3)
  note len = peek_gettoken_shorter [OF p t]
  show "ends n (case peek toks ps of (found, ps) \<Rightarrow> if found then case gettoken es ps of (_, _, ps) \<Rightarrow> f ps else g ps)"
    "ends n (case peek toks ps of (found, ps) \<Rightarrow> if \<not> found then g ps else case gettoken es ps of (_, _, ps) \<Rightarrow> f ps)"
    using p t len assms by auto
qed

lemma parseredirs_ends: "length ps \<le> n \<Longrightarrow> length ps < k \<Longrightarrow> ends n (parseredirs k es c ps)"
proof (induction k arbitrary: c ps)
  case (Suc k)
  obtain b r where p: "peek ''<>'' ps = (b, r)" by fastforce
  obtain tok q r1 where t: "gettoken es r = (tok, q, r1)" by (metis prod_cases3)
  obtain u q2 r2 where t2: "gettoken es r1 = (u, q2, r2)" by (metis prod_cases3)
  note len = peek_gettoken_shorter [OF p t] gettoken_shorter(1) [OF t2]
  then have "b \<Longrightarrow> ends n (parseredirs k es (redirect tok q2 c) r2)" using Suc.prems by (intro Suc.IH) auto
  then show ?case using p t t2 len Suc.prems by simp
qed simp

lemma parseargs_ends: "length ps \<le> n \<Longrightarrow> length ps + 1 < k \<Longrightarrow> ends n (parseargs k es argc c ps)"
proof (induction k arbitrary: argc c ps n)
  case (Suc k)
  obtain b r where p: "peek ''|)&;'' ps = (b, r)" by fastforce
  obtain tok q r1 where t: "gettoken es r = (tok, q, r1)" by (metis prod_cases3)
  note len = peek_gettoken_shorter [OF p t]
  have "ends (length r1) (pbind (parseredirs k es (add_arg q c) r1) (\<lambda>ret ps. parseargs k es (Suc argc) ret ps))" if "tok \<noteq> CHR 0x00"
  proof (intro ends_pbind)
    show "ends (length r1) (parseredirs k es (add_arg q c) r1)" using len that Suc.prems by (intro parseredirs_ends) auto
    fix a r2
    assume "length (r2 :: string) \<le> length r1"
    then show "ends (length r1) (parseargs k es (Suc argc) a r2)" using len that Suc.prems by (intro Suc.IH) auto
  qed
  then show ?case using p t len Suc.prems by (auto intro: ends_mono)
qed simp

lemma parsebacks_ends: "length ps \<le> n \<Longrightarrow> length ps < k \<Longrightarrow> ends n (parsebacks k es c ps)"
proof (induction k arbitrary: c ps n)
  case (Suc k)
  have "ends (length ps) (parsebacks (Suc k) es c ps)" unfolding parsebacks.simps
    by (intro ends_token) (use Suc in auto)
  then show ?case using Suc.prems by (auto intro: ends_mono)
qed simp

lemma parse_ends:
  "length ps \<le> n \<Longrightarrow> 5 * length ps + 5 \<le> k \<Longrightarrow> ends n (parseline k es ps)"
  "length ps \<le> n \<Longrightarrow> 5 * length ps + 4 \<le> k \<Longrightarrow> ends n (parsepipe k es ps)"
  "length ps \<le> n \<Longrightarrow> 5 * length ps + 2 \<le> k \<Longrightarrow> ends n (parseblock k es ps)"
  "length ps \<le> n \<Longrightarrow> 5 * length ps + 3 \<le> k \<Longrightarrow> ends n (parseexec k es ps)"
proof (induction k arbitrary: ps n)
  case (Suc k)
  note loops = parseredirs_ends parseargs_ends parsebacks_ends
  { case 1
    have "ends (length ps) (parseline (Suc k) es ps)" unfolding parseline.simps
      by (intro ends_pbind ends_token Suc.IH loops) (use 1 in \<open>auto simp: Suc_le_eq\<close>)
    then show ?case using 1 by (auto intro: ends_mono)
  next
    case 2
    have "ends (length ps) (parsepipe (Suc k) es ps)" unfolding parsepipe.simps
      by (intro ends_pbind ends_token Suc.IH loops) (use 2 in \<open>auto simp: Suc_le_eq\<close>)
    then show ?case using 2 by (auto intro: ends_mono)
  next
    case 3
    have "ends (length ps) (parseblock (Suc k) es ps)" unfolding parseblock.simps
      by (intro ends_pbind ends_token Suc.IH loops) (use 3 in \<open>auto simp: Suc_le_eq\<close>)
    then show ?case using 3 by (auto intro: ends_mono)
  next
    case 4
    obtain b r where p: "peek ''('' ps = (b, r)" by fastforce
    have r: "length r \<le> length ps" using peek_rest [OF p] skip_space_length by simp
    have "ends (length ps) (parseblock k es r)" using r 4 by (intro Suc.IH) auto
    moreover have "ends (length ps) (pbind (parseredirs k es (EXEC []) r) (\<lambda>ret ps. parseargs k es 0 ret ps))"
      by (intro ends_pbind loops) (use r 4 in auto)
    ultimately show ?case using p 4 by (auto intro: ends_mono) }
qed simp_all

text \<open>
  C28: the shell's parser ends on every line: whatever the buffer holds, \<^verbatim>\<open>parsecmd\<close> returns a command or panics with a message, within a
  nesting of calls and iterations linear in the length of the line, and an accepted line is consumed to its end.
\<close>

theorem parsecmd_ends: "(\<exists>cmd m'. parsecmd m = Done (cmd, m') []) \<or> (\<exists>msg. parsecmd m = Fail msg)"
proof -
  let ?s = "cstr m 0"
  have "ends (length ?s) (parseline (parse_fuel (length ?s)) (length ?s) ?s)" by (intro parse_ends) (simp_all add: parse_fuel_def)
  then show ?thesis by (cases "parseline (parse_fuel (length ?s)) (length ?s) ?s") (auto simp: parsecmd_def Let_def split: prod.splits)
qed

end
