(* ===== verification/Sh_Parse.thy ===== *)
theory Sh_Parse imports Sh begin

text \<open>
  The shell's parser against its grammar: a printer for commands, that parsing inverts it, and that every parsed command is well formed
  with its strings intact in the terminated line.
\<close>

section \<open>Printing and parsing\<close>

text \<open>The characters of the line that a span delimits.\<close>

definition span_text :: "string \<Rightarrow> span \<Rightarrow> string" where
  "span_text b = (\<lambda>(q, eq). take (eq - q) (drop q b))"

definition sword :: "string \<Rightarrow> bool" where
  "sword w \<longleftrightarrow> w \<noteq> [] \<and> list_all word_char w \<and> CHR 0x00 \<notin> set w"

lemma word_char_space [simp]: "\<not> word_char (CHR '' '')"
  by (simp add: word_char_def whitespace_def)

lemma word_charD:
  assumes "word_char c"
  shows "c \<notin> set whitespace" "c \<notin> set ''|();&<>''"
  using assms by (auto simp: word_char_def symbols_def)

lemma skip_space_simps [simp]: "skip_space [] = []" "skip_space (CHR '' '' # r) = skip_space r"
  "c \<notin> set whitespace \<Longrightarrow> skip_space (c # r) = c # r"
  by (simp_all add: skip_space_def) (simp add: whitespace_def)

lemma peek_simps [simp]: "peek toks [] = (False, [])" "c \<notin> set whitespace \<Longrightarrow> peek toks (c # r) = (c \<in> set toks, c # r)"
  by (simp_all add: peek_def)

lemma symbol_not_space: "c \<in> set ''|();&<>'' \<Longrightarrow> c \<notin> set whitespace"
  by (auto simp: whitespace_def)

lemma gettoken_Nil [simp]: "gettoken es [] = (CHR 0x00, (off es [], off es []), [])"
  by (simp add: gettoken_def)

lemma gettoken_symbol:
  assumes "c \<in> set ''|();&<>''" "skip_space r = r"
  obtains q where "gettoken es (c # CHR '' '' # r) = (c, q, r)"
  using assms symbol_not_space [OF assms(1)] by (fastforce simp: gettoken_def)

lemma gettoken_word:
  assumes "sword w" "skip_space r = r" "suffix (w @ CHR '' '' # r) b" "es = length b"
  obtains q where "gettoken es (w @ CHR '' '' # r) = (CHR ''a'', q, r)" "span_text b q = w"
proof -
  obtain c w' where w: "w = c # w'" using assms(1) by (cases w) (auto simp: sword_def)
  have c: "word_char c" using assms(1) w by (simp add: sword_def)
  have dw: "dropWhile word_char (w @ CHR '' '' # r) = CHR '' '' # r"
    using assms(1) by (subst dropWhile_append2) (auto simp: sword_def list_all_iff)
  obtain pre where b: "b = pre @ w @ CHR '' '' # r" using assms(3) by (auto simp: suffix_def)
  have "gettoken es (w @ CHR '' '' # r) = (CHR ''a'', (off es (w @ CHR '' '' # r), off es (CHR '' '' # r)), r)"
    using word_charD [OF c] dw assms(2) by (auto simp: gettoken_def w)
  moreover have "span_text b (off es (w @ CHR '' '' # r), off es (CHR '' '' # r)) = w"
    by (simp add: assms(4) off_def span_text_def b)
  ultimately show ?thesis by (rule that)
qed

type_synonym redirection = "string \<times> nat \<times> nat"

definition redir_ok :: "redirection \<Rightarrow> bool" where
  "redir_ok = (\<lambda>(f, mode, fd). sword f \<and> (mode = O_RDONLY \<and> fd = 0 \<or> mode = (O_WRONLY OR O_CREATE) \<and> fd = 1))"

definition show_redir :: "redirection \<Rightarrow> string" where
  "show_redir = (\<lambda>(f, mode, fd). (if fd = 0 then ''< '' else ''> '') @ f @ '' '')"

definition wrap :: "redirection list \<Rightarrow> string cmd \<Rightarrow> string cmd" where
  "wrap rs c = fold (\<lambda>(f, mode, fd) c. REDIR c f mode fd) rs c"

abbreviation show_redirs :: "redirection list \<Rightarrow> string" where
  "show_redirs rs \<equiv> concat (map show_redir rs)"

text \<open>What may follow a simple command in a line.\<close>

definition stops :: "string \<Rightarrow> string \<Rightarrow> bool" where
  "stops toks r \<longleftrightarrow> r = [] \<or> hd r \<in> set toks"

lemma stops_hd: "stops toks r \<Longrightarrow> set toks \<subseteq> set ''|();&<>'' \<Longrightarrow> r = [] \<or> hd r \<notin> set whitespace"
  unfolding stops_def by (blast dest: subsetD symbol_not_space)

lemma skip_space_hd_id: "r = [] \<or> hd r \<notin> set whitespace \<Longrightarrow> skip_space r = r"
  by (cases r) auto

lemma peek_skipped: "skip_space r = r \<Longrightarrow> peek t r = (r \<noteq> [] \<and> hd r \<in> set t, r)"
  by (simp add: peek_def)

lemmas stops_skip = skip_space_hd_id [OF stops_hd]

lemma skip_redirs: "skip_space r = r \<Longrightarrow> skip_space (show_redirs rs @ r) = show_redirs rs @ r"
  by (cases rs) (auto simp: show_redir_def whitespace_def split: prod.splits)

lemma parseredirs_show:
  assumes "list_all redir_ok rs" "skip_space r = r" "r = [] \<or> hd r \<notin> set ''<>''" "suffix (show_redirs rs @ r) b"
    "es = length b" "length (show_redirs rs @ r) < k"
  shows "\<exists>c'. parseredirs k es c (show_redirs rs @ r) = Done c' r \<and> map_cmd (span_text b) c' = wrap rs (map_cmd (span_text b) c)"
  using assms
proof (induction rs arbitrary: k c)
  case Nil
  have "peek ''<>'' r = (False, r)" using Nil by (auto simp: peek_def)
  then show ?case using Nil by (cases k) (simp_all add: wrap_def)
next
  case (Cons rd rs)
  obtain f mode fd where rd: "rd = (f, mode, fd)" by (cases rd)
  have ok: "sword f" "redir_ok rd" "list_all redir_ok rs" using Cons.prems by (simp_all add: rd redir_ok_def)
  let ?r = "show_redirs rs @ r" and ?tok = "if fd = 0 then CHR ''<'' else CHR ''>''"
  have s: "show_redirs (rd # rs) @ r = ?tok # CHR '' '' # f @ CHR '' '' # ?r" by (simp add: rd show_redir_def)
  have sk: "skip_space ?r = ?r" by (rule skip_redirs) fact
  have tok: "?tok \<in> set ''|();&<>''" "?tok \<in> set ''<>''" by simp_all
  have skf: "skip_space (f @ CHR '' '' # ?r) = f @ CHR '' '' # ?r"
    using ok(1) word_charD(1) by (cases f) (auto simp: sword_def)
  obtain q0 where t0: "gettoken es (?tok # CHR '' '' # f @ CHR '' '' # ?r) = (?tok, q0, f @ CHR '' '' # ?r)"
    by (rule gettoken_symbol [OF tok(1) skf])
  have suf: "suffix (f @ CHR '' '' # ?r) b" "suffix ?r b" using Cons.prems(4) unfolding s by (auto simp: suffix_def)
  obtain q where t1: "gettoken es (f @ CHR '' '' # ?r) = (CHR ''a'', q, ?r)" "span_text b q = f"
    by (rule gettoken_word [OF ok(1) sk suf(1) Cons.prems(5)])
  obtain k' where k: "k = Suc k'" using Cons.prems(6) by (cases k) auto
  have "length ?r < k'" using Cons.prems(6) unfolding s k by simp
  then obtain c' where c': "parseredirs k' es (redirect ?tok q c) ?r = Done c' r"
    "map_cmd (span_text b) c' = wrap rs (map_cmd (span_text b) (redirect ?tok q c))"
    using Cons.IH [OF ok(3) Cons.prems(2,3) suf(2) Cons.prems(5)] by blast
  have "peek ''<>'' (?tok # CHR '' '' # f @ CHR '' '' # ?r) = (True, ?tok # CHR '' '' # f @ CHR '' '' # ?r)"
    using symbol_not_space [OF tok(1)] tok(2) by simp
  then have "parseredirs k es c (show_redirs (rd # rs) @ r) = Done c' r" unfolding s k parseredirs.simps using t0 t1(1) c'(1) by simp
  moreover have "map_cmd (span_text b) (redirect ?tok q c) = REDIR (map_cmd (span_text b) c) f mode fd"
    using ok(2) t1(2) by (auto simp: redirect_def redir_ok_def rd)
  ultimately show ?case using c'(2) by (simp add: wrap_def rd)
qed

abbreviation show_words :: "string list \<Rightarrow> string" where
  "show_words ws \<equiv> concat (map (\<lambda>w. w @ '' '') ws)"

lemma sword_hd: "sword w \<Longrightarrow> w \<noteq> [] \<and> hd w \<notin> set whitespace \<and> hd w \<notin> set ''|();&<>''"
  using word_charD [of "hd w"] by (cases w) (auto simp: sword_def)

lemma skip_words:
  assumes "list_all sword ws" "skip_space r = r"
  shows "skip_space (show_words ws @ r) = show_words ws @ r"
proof (cases ws)
  case (Cons w ws')
  then show ?thesis using assms sword_hd [of w] by (intro skip_space_hd_id) simp
qed (simp add: assms)

lemma map_add_arg: "map_cmd f (add_arg q c) = add_arg (f q) (map_cmd f c)"
  by (induction q c rule: add_arg.induct) simp_all

lemma parseargs_stop:
  assumes "stops ''|)&;'' r" "0 < k"
  shows "parseargs k es argc c r = Done c r"
proof (cases r)
  case Nil
  then show ?thesis using assms by (cases k) simp_all
next
  case (Cons x r')
  then have "peek ''|)&;'' r = (True, r)" using assms(1) stops_skip [OF assms(1)] by (simp add: peek_skipped stops_def)
  then show ?thesis using assms(2) by (cases k) simp_all
qed

lemma parseargs_show:
  assumes "list_all sword ws" "list_all redir_ok rs" "ws = [] \<longrightarrow> rs = []" "argc + length ws < MAXARGS" "stops ''|)&;'' r"
    "suffix (show_words ws @ show_redirs rs @ r) b" "es = length b" "length (show_words ws @ show_redirs rs @ r) + 1 < k"
  shows "\<exists>c'. parseargs k es argc c (show_words ws @ show_redirs rs @ r) = Done c' r \<and>
    map_cmd (span_text b) c' = wrap rs (fold add_arg ws (map_cmd (span_text b) c))"
  using assms
proof (induction ws arbitrary: k argc c)
  case Nil
  then show ?case using parseargs_stop [of r k es argc c] by (simp add: wrap_def)
next
  case (Cons w ws)
  let ?r = "show_words ws @ show_redirs rs @ r"
  have w: "sword w" "list_all sword ws" using Cons.prems by simp_all
  have skr: "skip_space r = r" by (rule stops_skip [OF Cons.prems(5)]) simp
  have sk: "skip_space ?r = ?r" by (intro skip_words skip_redirs w(2) skr)
  have s: "show_words (w # ws) @ show_redirs rs @ r = w @ CHR '' '' # ?r" by simp
  have suf: "suffix (w @ CHR '' '' # ?r) b" "suffix ?r b" "suffix (show_redirs rs @ r) b"
    using Cons.prems(6) unfolding s by (auto simp: suffix_def)
  obtain q where t: "gettoken es (w @ CHR '' '' # ?r) = (CHR ''a'', q, ?r)" "span_text b q = w"
    by (rule gettoken_word [OF w(1) sk suf(1) Cons.prems(7)])
  obtain k' where k: "k = Suc k'" using Cons.prems(8) by (cases k) auto
  have k': "length ?r + 1 < k'" "length (show_redirs rs @ r) < k'" using Cons.prems(8) w(1) unfolding k by (auto simp: sword_def)
  have "peek ''|)&;'' (w @ CHR '' '' # ?r) = (False, w @ CHR '' '' # ?r)"
    using sword_hd [OF w(1)] by (subst peek_skipped) (auto intro!: skip_space_hd_id)
  then have step: "parseargs k es argc c (show_words (w # ws) @ show_redirs rs @ r) =
      pbind (parseredirs k' es (add_arg q c) ?r) (\<lambda>ret ps. parseargs k' es (Suc argc) ret ps)"
    unfolding s k parseargs.simps using t(1) Cons.prems(4) by simp
  have args: "map_cmd (span_text b) (add_arg q c) = add_arg w (map_cmd (span_text b) c)" by (simp add: map_add_arg t(2))
  show ?case
  proof (cases ws)
    case Nil
    have "r = [] \<or> hd r \<notin> set ''<>''" using Cons.prems(5) by (auto simp: stops_def)
    then obtain c' where "parseredirs k' es (add_arg q c) (show_redirs rs @ r) = Done c' r"
      "map_cmd (span_text b) c' = wrap rs (map_cmd (span_text b) (add_arg q c))"
      using parseredirs_show [OF Cons.prems(2) skr _ suf(3) Cons.prems(7) k'(2)] by blast
    then show ?thesis using step parseargs_stop [OF Cons.prems(5), of k'] k' Nil args by simp
  next
    case vs: (Cons v vs)
    have "?r = [] \<or> hd ?r \<notin> set ''<>''" using vs w(2) sword_hd [of v] by simp
    moreover have "length (show_redirs [] @ ?r) < k'" using k'(1) by simp
    ultimately have "parseredirs k' es (add_arg q c) ?r = Done (add_arg q c) ?r"
      using sk by (cases k') (simp_all add: peek_skipped)
    moreover obtain c' where "parseargs k' es (Suc argc) (add_arg q c) ?r = Done c' r"
      "map_cmd (span_text b) c' = wrap rs (fold add_arg ws (map_cmd (span_text b) (add_arg q c)))"
      using Cons.IH [OF w(2) Cons.prems(2) _ _ Cons.prems(5) suf(2) Cons.prems(7) k'(1), of "Suc argc" "add_arg q c"] Cons.prems(4) vs by auto
    ultimately show ?thesis using step args by simp
  qed
qed

text \<open>
  Printing a command, with parentheses where its level needs them: 0 for a line, 1 for what may be put into the background, 2 for a
  pipeline, 3 for a simple command.
\<close>

definition paren :: "bool \<Rightarrow> string \<Rightarrow> string" where
  "paren p s = (if p then ''( '' @ s @ '') '' else s)"

primrec show_cmd :: "string cmd \<Rightarrow> nat \<Rightarrow> string" where
  "show_cmd (EXEC ws) p = show_words ws"
| "show_cmd (REDIR c f mode fd) p = show_cmd c 3 @ show_redir (f, mode, fd)"
| "show_cmd (PIPE l r) p = paren (p > 2) (show_cmd l 3 @ ''| '' @ show_cmd r 2)"
| "show_cmd (LIST l r) p = paren (p > 0) (show_cmd l 1 @ ''; '' @ show_cmd r 0)"
| "show_cmd (BACK c) p = paren (p > 1) (show_cmd c 1 @ ''& '')"

text \<open>Commands that can be written: words are words, there are at most nine of them, redirections are the two that the shell has.\<close>

primrec cmd_ok :: "string cmd \<Rightarrow> bool" where
  "cmd_ok (EXEC ws) \<longleftrightarrow> list_all sword ws \<and> length ws < MAXARGS"
| "cmd_ok (REDIR c f mode fd) \<longleftrightarrow> cmd_ok c \<and> redir_ok (f, mode, fd)"
| "cmd_ok (PIPE l r) \<longleftrightarrow> cmd_ok l \<and> cmd_ok r"
| "cmd_ok (LIST l r) \<longleftrightarrow> cmd_ok l \<and> cmd_ok r"
| "cmd_ok (BACK c) \<longleftrightarrow> cmd_ok c"

lemma skip_show: "cmd_ok c \<Longrightarrow> skip_space r = r \<Longrightarrow> skip_space (show_cmd c p @ r) = show_cmd c p @ r"
proof (induction c arbitrary: p r)
  case (EXEC ws)
  then show ?case by (simp add: skip_words)
next
  case (REDIR c f mode fd)
  then show ?case using skip_redirs [of r "[(f, mode, fd)]"] by simp
qed (auto simp: paren_def whitespace_def)

text \<open>What the parse functions make of a printed command inside the line \<open>b\<close>.\<close>

definition reads_exec :: "string \<Rightarrow> string cmd \<Rightarrow> bool" where
  "reads_exec b c \<longleftrightarrow> (\<forall>rs r k. list_all redir_ok rs \<longrightarrow> stops ''|)&;'' r \<longrightarrow> suffix (show_cmd c 3 @ show_redirs rs @ r) b \<longrightarrow>
     5 * length (show_cmd c 3 @ show_redirs rs @ r) + 3 \<le> k \<longrightarrow>
     (\<exists>c'. parseexec k (length b) (show_cmd c 3 @ show_redirs rs @ r) = Done c' r \<and> map_cmd (span_text b) c' = wrap rs c))"

definition reads_pipe :: "string \<Rightarrow> string cmd \<Rightarrow> bool" where
  "reads_pipe b c \<longleftrightarrow> (\<forall>r k. stops '')&;'' r \<longrightarrow> suffix (show_cmd c 2 @ r) b \<longrightarrow> 5 * length (show_cmd c 2 @ r) + 4 \<le> k \<longrightarrow>
     (\<exists>c'. parsepipe k (length b) (show_cmd c 2 @ r) = Done c' r \<and> map_cmd (span_text b) c' = c))"

definition reads_back :: "string \<Rightarrow> string cmd \<Rightarrow> bool" where
  "reads_back b c \<longleftrightarrow> (\<forall>r k. stops '')&;'' r \<longrightarrow> suffix (show_cmd c 1 @ r) b \<longrightarrow> 5 * length (show_cmd c 1 @ r) + 4 \<le> k \<longrightarrow>
     (\<exists>c' j. pbind (parsepipe k (length b) (show_cmd c 1 @ r)) (parsebacks k (length b)) = parsebacks j (length b) c' r \<and>
        length r < j \<and> map_cmd (span_text b) c' = c))"

definition reads_line :: "string \<Rightarrow> string cmd \<Rightarrow> bool" where
  "reads_line b c \<longleftrightarrow> (\<forall>r k. stops '')'' r \<longrightarrow> suffix (show_cmd c 0 @ r) b \<longrightarrow> 5 * length (show_cmd c 0 @ r) + 5 \<le> k \<longrightarrow>
     (\<exists>c'. parseline k (length b) (show_cmd c 0 @ r) = Done c' r \<and> map_cmd (span_text b) c' = c))"

lemma pbind_assoc: "pbind (pbind x f) g = pbind x (\<lambda>a r. pbind (f a r) g)"
  by (cases x) simp_all

lemma parseline_backs:
  "parseline (Suc k) es ps =
     pbind (pbind (parsepipe k es ps) (parsebacks k es)) (\<lambda>cmd ps.
     case peek '';'' ps of (found, ps) \<Rightarrow>
     if found then case gettoken es ps of (_, _, ps) \<Rightarrow> pbind (parseline k es ps) (\<lambda>right ps. Done (LIST cmd right) ps)
     else Done cmd ps)"
  by (simp add: pbind_assoc)

lemma parsebacks_stop: "stops '');'' r \<Longrightarrow> 0 < k \<Longrightarrow> parsebacks k es c r = Done c r"
  using stops_skip [of "'');''" r] by (cases k) (auto simp: peek_skipped stops_def)

lemma reads_exec_pipe:
  assumes "reads_exec b c" "show_cmd c 2 = show_cmd c 3"
  shows "reads_pipe b c"
  unfolding reads_pipe_def
proof (intro allI impI)
  fix r k
  assume a: "stops '')&;'' r" "suffix (show_cmd c 2 @ r) b" "5 * length (show_cmd c 2 @ r) + 4 \<le> k"
  obtain k' where k: "k = Suc k'" using a(3) by (cases k) auto
  have st: "stops ''|)&;'' r" using a(1) by (auto simp: stops_def)
  obtain c' where c': "parseexec k' (length b) (show_cmd c 2 @ r) = Done c' r" "map_cmd (span_text b) c' = c"
    using assms(1) [unfolded reads_exec_def, rule_format, of "[]" r k'] a(2,3) st assms(2) by (auto simp: k wrap_def)
  moreover have "peek ''|'' r = (False, r)" using a(1) stops_skip [OF st] by (auto simp: peek_skipped stops_def)
  ultimately show "\<exists>c'. parsepipe k (length b) (show_cmd c 2 @ r) = Done c' r \<and> map_cmd (span_text b) c' = c" by (simp add: k)
qed

lemma reads_pipe_back:
  assumes "reads_pipe b c" "show_cmd c 1 = show_cmd c 2"
  shows "reads_back b c"
  unfolding reads_back_def
proof (intro allI impI)
  fix r k
  assume a: "stops '')&;'' r" "suffix (show_cmd c 1 @ r) b" "5 * length (show_cmd c 1 @ r) + 4 \<le> k"
  then obtain c' where "parsepipe k (length b) (show_cmd c 1 @ r) = Done c' r" "map_cmd (span_text b) c' = c"
    using assms unfolding reads_pipe_def by metis
  then show "\<exists>c' j. pbind (parsepipe k (length b) (show_cmd c 1 @ r)) (parsebacks k (length b)) = parsebacks j (length b) c' r \<and>
        length r < j \<and> map_cmd (span_text b) c' = c"
    using a(3) by (intro exI [of _ c'] exI [of _ k]) simp
qed

lemma reads_back_line:
  assumes "reads_back b c" "show_cmd c 0 = show_cmd c 1"
  shows "reads_line b c"
  unfolding reads_line_def
proof (intro allI impI)
  fix r k
  assume a: "stops '')'' r" "suffix (show_cmd c 0 @ r) b" "5 * length (show_cmd c 0 @ r) + 5 \<le> k"
  obtain k' where k: "k = Suc k'" "5 * length (show_cmd c 0 @ r) + 4 \<le> k'" using a(3) by (cases k) auto
  have st: "stops '')&;'' r" "stops '');'' r" using a(1) by (auto simp: stops_def)
  obtain c' j where "pbind (parsepipe k' (length b) (show_cmd c 0 @ r)) (parsebacks k' (length b)) = parsebacks j (length b) c' r"
    "length r < j" "map_cmd (span_text b) c' = c"
    using assms a(2) k(2) st(1) unfolding reads_back_def by metis
  moreover have "peek '';'' r = (False, r)" using a(1) stops_skip [OF a(1)] by (auto simp: peek_skipped stops_def)
  ultimately show "\<exists>c'. parseline k (length b) (show_cmd c 0 @ r) = Done c' r \<and> map_cmd (span_text b) c' = c"
    using parsebacks_stop [OF st(2), of j] unfolding k(1) parseline_backs by simp
qed

lemma reads_line_exec:
  assumes "reads_line b c" "show_cmd c 3 = ''( '' @ show_cmd c 0 @ '') ''" "cmd_ok c"
  shows "reads_exec b c"
  unfolding reads_exec_def
proof (intro allI impI)
  fix rs r k
  let ?r = "show_redirs rs @ r"
  let ?l = "show_cmd c 0 @ CHR '')'' # CHR '' '' # ?r"
  assume a: "list_all redir_ok rs" "stops ''|)&;'' r" "suffix (show_cmd c 3 @ ?r) b" "5 * length (show_cmd c 3 @ ?r) + 3 \<le> k"
  have s: "show_cmd c 3 @ ?r = CHR ''('' # CHR '' '' # ?l" by (simp add: assms(2))
  obtain k' where k: "k = Suc (Suc k')" "5 * length ?l + 5 \<le> k'" using a(4) unfolding s by (cases k; cases "k - 1") auto
  have suf: "suffix ?l b" "suffix ?r b" using a(3) unfolding s by (auto simp: suffix_def)
  have skr: "skip_space r = r" by (rule stops_skip [OF a(2)]) simp
  have skl: "skip_space ?l = ?l" by (intro skip_show assms(3)) (simp add: whitespace_def)
  have par: "CHR ''('' \<notin> set whitespace" "CHR '')'' \<notin> set whitespace" by (simp_all add: whitespace_def)
  obtain q1 where t1: "gettoken (length b) (CHR ''('' # CHR '' '' # ?l) = (CHR ''('', q1, ?l)"
    using gettoken_symbol [of "CHR ''(''" ?l] skl by auto
  obtain q2 where t2: "gettoken (length b) (CHR '')'' # CHR '' '' # ?r) = (CHR '')'', q2, ?r)"
    using gettoken_symbol [of "CHR '')''" ?r] skip_redirs [OF skr] by auto
  have "stops '')'' (CHR '')'' # CHR '' '' # ?r)" by (simp add: stops_def)
  then obtain c1 where c1: "parseline k' (length b) ?l = Done c1 (CHR '')'' # CHR '' '' # ?r)" "map_cmd (span_text b) c1 = c"
    using assms(1) suf(1) k(2) unfolding reads_line_def by metis
  have "r = [] \<or> hd r \<notin> set ''<>''" using a(2) by (auto simp: stops_def)
  moreover have "length ?r < k'" using k(2) by simp
  ultimately obtain c' where "parseredirs k' (length b) c1 ?r = Done c' r" "map_cmd (span_text b) c' = wrap rs c"
    using parseredirs_show [OF a(1) skr _ suf(2) refl] c1(2) by metis
  then show "\<exists>c'. parseexec k (length b) (show_cmd c 3 @ ?r) = Done c' r \<and> map_cmd (span_text b) c' = wrap rs c"
    unfolding s k(1) using par t1 t2 c1(1) by simp
qed

lemma reads_exec_EXEC:
  assumes "cmd_ok (EXEC ws)"
  shows "reads_exec b (EXEC ws)"
  unfolding reads_exec_def
proof (intro allI impI)
  fix rs r k
  let ?r = "show_redirs rs @ r"
  assume a: "list_all redir_ok rs" "stops ''|)&;'' r" "suffix (show_cmd (EXEC ws) 3 @ ?r) b" "5 * length (show_cmd (EXEC ws) 3 @ ?r) + 3 \<le> k"
  have ws: "list_all sword ws" "length ws < MAXARGS" using assms by simp_all
  obtain k' where k: "k = Suc k'" "length (show_words ws @ ?r) + 1 < k'" using a(4) by (cases k) auto
  have skr: "skip_space r = r" by (rule stops_skip [OF a(2)]) simp
  have sk: "skip_space (show_words ws @ ?r) = show_words ws @ ?r" by (intro skip_words skip_redirs ws skr)
  have fold: "fold add_arg ws (EXEC us) = EXEC (us @ ws)" for us :: "string list" by (induction ws arbitrary: us) simp_all
  have nr: "r = [] \<or> hd r \<notin> set ''<>(''" using a(2) by (auto simp: stops_def)
  have "\<exists>c'. pbind (parseredirs k' (length b) (EXEC []) (show_words ws @ ?r)) (\<lambda>ret ps. parseargs k' (length b) 0 ret ps) = Done c' r \<and>
      map_cmd (span_text b) c' = wrap rs (EXEC ws)"
  proof (cases ws)
    case Nil
    have "r = [] \<or> hd r \<notin> set ''<>''" "suffix ?r b" "length ?r < k'" using nr a(3) k(2) Nil by auto
    then obtain c' where "parseredirs k' (length b) (EXEC []) ?r = Done c' r" "map_cmd (span_text b) c' = wrap rs (EXEC [])"
      using parseredirs_show [OF a(1) skr _ _ refl, of b k' "EXEC []"] by auto
    then show ?thesis using parseargs_stop [OF a(2), of k'] k(2) Nil by simp
  next
    case (Cons w ws')
    then have "parseredirs k' (length b) (EXEC []) (show_words ws @ ?r) = Done (EXEC []) (show_words ws @ ?r)"
      using k(2) sk ws(1) sword_hd [of w] by (cases k') (simp_all add: peek_skipped)
    moreover obtain c' where "parseargs k' (length b) 0 (EXEC []) (show_words ws @ ?r) = Done c' r"
      "map_cmd (span_text b) c' = wrap rs (EXEC ws)"
      using parseargs_show [OF ws(1) a(1) _ _ a(2) _ refl k(2), of 0 b "EXEC []"] Cons ws(2) a(3) fold [of "[]"] by auto
    ultimately show ?thesis by simp
  qed
  moreover have "peek ''('' (show_words ws @ ?r) = (False, show_words ws @ ?r)"
    using ws(1) sword_hd nr by (subst peek_skipped [OF sk]) (cases ws; cases rs; auto simp: show_redir_def split: prod.splits)
  ultimately show "\<exists>c'. parseexec k (length b) (show_cmd (EXEC ws) 3 @ ?r) = Done c' r \<and> map_cmd (span_text b) c' = wrap rs (EXEC ws)"
    by (simp add: k(1))
qed

lemma reads_exec_REDIR:
  assumes "reads_exec b c" "redir_ok (f, mode, fd)"
  shows "reads_exec b (REDIR c f mode fd)"
  unfolding reads_exec_def
proof (intro allI impI)
  fix rs r k
  let ?rs = "(f, mode, fd) # rs"
  assume a: "list_all redir_ok rs" "stops ''|)&;'' r" "suffix (show_cmd (REDIR c f mode fd) 3 @ show_redirs rs @ r) b"
    "5 * length (show_cmd (REDIR c f mode fd) 3 @ show_redirs rs @ r) + 3 \<le> k"
  have s: "show_cmd (REDIR c f mode fd) 3 @ show_redirs rs @ r = show_cmd c 3 @ show_redirs ?rs @ r" by simp
  have "wrap ?rs c = wrap rs (REDIR c f mode fd)" by (simp add: wrap_def)
  then show "\<exists>c'. parseexec k (length b) (show_cmd (REDIR c f mode fd) 3 @ show_redirs rs @ r) = Done c' r \<and>
      map_cmd (span_text b) c' = wrap rs (REDIR c f mode fd)"
    using assms(1) [unfolded reads_exec_def, rule_format, of ?rs r k] a assms(2) unfolding s by simp
qed

text \<open>A separator and what follows it: \<^verbatim>\<open>|\<close> between pipelines, \<^verbatim>\<open>;\<close> between lines.\<close>

lemma separator:
  assumes "cmd_ok c" "stops '')&;'' r" "t \<in> set ''|;''"
  shows "peek [t] (t # CHR '' '' # show_cmd c p @ r) = (True, t # CHR '' '' # show_cmd c p @ r)"
    "\<exists>q. gettoken es (t # CHR '' '' # show_cmd c p @ r) = (t, q, show_cmd c p @ r)"
proof -
  have t: "t \<in> set ''|();&<>''" using assms(3) by auto
  have "skip_space r = r" by (rule stops_skip [OF assms(2)]) simp
  then have "skip_space (show_cmd c p @ r) = show_cmd c p @ r" by (rule skip_show [OF assms(1)])
  then show "\<exists>q. gettoken es (t # CHR '' '' # show_cmd c p @ r) = (t, q, show_cmd c p @ r)"
    using gettoken_symbol [OF t] by metis
  show "peek [t] (t # CHR '' '' # show_cmd c p @ r) = (True, t # CHR '' '' # show_cmd c p @ r)"
    using symbol_not_space [OF t] by simp
qed

lemma reads_pipe_PIPE:
  assumes "reads_exec b l" "reads_pipe b c" "cmd_ok c"
  shows "reads_pipe b (PIPE l c)"
  unfolding reads_pipe_def
proof (intro allI impI)
  fix r k
  let ?l = "show_cmd c 2 @ r"
  assume a: "stops '')&;'' r" "suffix (show_cmd (PIPE l c) 2 @ r) b" "5 * length (show_cmd (PIPE l c) 2 @ r) + 4 \<le> k"
  have s: "show_cmd (PIPE l c) 2 @ r = show_cmd l 3 @ CHR ''|'' # CHR '' '' # ?l" by (simp add: paren_def)
  obtain k' where k: "k = Suc k'" "5 * length ?l + 4 \<le> k'" "5 * length (show_cmd l 3 @ CHR ''|'' # CHR '' '' # ?l) + 3 \<le> k'"
    using a(3) unfolding s by (cases k) auto
  have suf: "suffix (show_cmd l 3 @ CHR ''|'' # CHR '' '' # ?l) b" "suffix ?l b" using a(2) unfolding s by (auto simp: suffix_def)
  have "stops ''|)&;'' (CHR ''|'' # CHR '' '' # ?l)" by (simp add: stops_def)
  then obtain c1 where "parseexec k' (length b) (show_cmd l 3 @ CHR ''|'' # CHR '' '' # ?l) = Done c1 (CHR ''|'' # CHR '' '' # ?l)"
    "map_cmd (span_text b) c1 = l"
    using assms(1) [unfolded reads_exec_def, rule_format, of "[]" "CHR ''|'' # CHR '' '' # ?l" k'] suf(1) k(3) by (auto simp: wrap_def)
  moreover obtain c2 where "parsepipe k' (length b) ?l = Done c2 r" "map_cmd (span_text b) c2 = c"
    using assms(2) a(1) suf(2) k(2) unfolding reads_pipe_def by metis
  moreover obtain q where "gettoken (length b) (CHR ''|'' # CHR '' '' # ?l) = (CHR ''|'', q, ?l)"
    using separator(2) [OF assms(3) a(1), of "CHR ''|''" "length b" 2] by auto
  ultimately show "\<exists>c'. parsepipe k (length b) (show_cmd (PIPE l c) 2 @ r) = Done c' r \<and> map_cmd (span_text b) c' = PIPE l c"
    unfolding s k(1) using separator(1) [OF assms(3) a(1), of "CHR ''|''" 2] by simp
qed

lemma reads_line_LIST:
  assumes "reads_back b l" "reads_line b c" "cmd_ok c"
  shows "reads_line b (LIST l c)"
  unfolding reads_line_def
proof (intro allI impI)
  fix r k
  let ?l = "show_cmd c 0 @ r"
  let ?s = "CHR '';'' # CHR '' '' # ?l"
  assume a: "stops '')'' r" "suffix (show_cmd (LIST l c) 0 @ r) b" "5 * length (show_cmd (LIST l c) 0 @ r) + 5 \<le> k"
  have s: "show_cmd (LIST l c) 0 @ r = show_cmd l 1 @ ?s" by (simp add: paren_def)
  obtain k' where k: "k = Suc k'" "5 * length ?l + 5 \<le> k'" "5 * length (show_cmd l 1 @ ?s) + 4 \<le> k'"
    using a(3) unfolding s by (cases k) auto
  have suf: "suffix (show_cmd l 1 @ ?s) b" "suffix ?l b" using a(2) unfolding s by (auto simp: suffix_def)
  have st: "stops '')&;'' ?s" "stops '');'' ?s" "stops '')&;'' r" using a(1) by (auto simp: stops_def)
  obtain c1 j where "pbind (parsepipe k' (length b) (show_cmd l 1 @ ?s)) (parsebacks k' (length b)) = parsebacks j (length b) c1 ?s"
    "length ?s < j" "map_cmd (span_text b) c1 = l"
    using assms(1) st(1) suf(1) k(3) unfolding reads_back_def by metis
  moreover obtain c2 where "parseline k' (length b) ?l = Done c2 r" "map_cmd (span_text b) c2 = c"
    using assms(2) a(1) suf(2) k(2) unfolding reads_line_def by metis
  moreover obtain q where "gettoken (length b) ?s = (CHR '';'', q, ?l)"
    using separator(2) [OF assms(3) st(3), of "CHR '';''" "length b" 0] by auto
  ultimately show "\<exists>c'. parseline k (length b) (show_cmd (LIST l c) 0 @ r) = Done c' r \<and> map_cmd (span_text b) c' = LIST l c"
    unfolding s k(1) parseline_backs using separator(1) [OF assms(3) st(3), of "CHR '';''" 0] parsebacks_stop [OF st(2), of j] by simp
qed

lemma reads_back_BACK:
  assumes "reads_back b c"
  shows "reads_back b (BACK c)"
  unfolding reads_back_def
proof (intro allI impI)
  fix r k
  let ?s = "CHR ''&'' # CHR '' '' # r"
  assume a: "stops '')&;'' r" "suffix (show_cmd (BACK c) 1 @ r) b" "5 * length (show_cmd (BACK c) 1 @ r) + 4 \<le> k"
  have s: "show_cmd (BACK c) 1 @ r = show_cmd c 1 @ ?s" by (simp add: paren_def)
  have "stops '')&;'' ?s" by (simp add: stops_def)
  then obtain c1 j where c1: "pbind (parsepipe k (length b) (show_cmd c 1 @ ?s)) (parsebacks k (length b)) = parsebacks j (length b) c1 ?s"
    "length ?s < j" "map_cmd (span_text b) c1 = c"
    using assms a(2,3) unfolding reads_back_def s by metis
  obtain j' where j: "j = Suc j'" "length r < j'" using c1(2) by (cases j) auto
  have skr: "skip_space r = r" by (rule stops_skip [OF a(1)]) simp
  obtain q where "gettoken (length b) ?s = (CHR ''&'', q, r)" using gettoken_symbol [of "CHR ''&''" r] skr by auto
  then have "parsebacks j (length b) c1 ?s = parsebacks j' (length b) (BACK c1) r" by (simp add: j(1) whitespace_def)
  then show "\<exists>c' j. pbind (parsepipe k (length b) (show_cmd (BACK c) 1 @ r)) (parsebacks k (length b)) = parsebacks j (length b) c' r \<and>
        length r < j \<and> map_cmd (span_text b) c' = BACK c"
    unfolding s using c1(1,3) j(2) by (intro exI [of _ "BACK c1"] exI [of _ j']) simp
qed

lemma reads_show: "cmd_ok c \<Longrightarrow> reads_exec b c \<and> reads_pipe b c \<and> reads_back b c \<and> reads_line b c"
proof (induction c)
  case (EXEC ws)
  then show ?case using reads_exec_EXEC [OF EXEC] reads_exec_pipe reads_pipe_back reads_back_line by simp
next
  case (REDIR c f mode fd)
  then show ?case using reads_exec_REDIR reads_exec_pipe reads_pipe_back reads_back_line by simp
next
  case (PIPE l r)
  then show ?case using reads_pipe_PIPE reads_pipe_back reads_back_line reads_line_exec by (simp add: paren_def)
next
  case (LIST l r)
  then show ?case using reads_line_LIST reads_line_exec reads_exec_pipe reads_pipe_back by (simp add: paren_def)
next
  case (BACK c)
  then show ?case using reads_back_BACK reads_back_line reads_line_exec reads_exec_pipe by (simp add: paren_def)
qed

section \<open>Spans and strings\<close>

text \<open>A span of the line that is a whole word, up to a character that belongs to no word.\<close>

definition span_ok :: "string \<Rightarrow> span \<Rightarrow> bool" where
  "span_ok b = (\<lambda>(q, eq). q < eq \<and> eq \<le> length b \<and> (\<forall>i \<in> {q..<eq}. word_char (b ! i) \<and> b ! i \<noteq> CHR 0x00) \<and> (eq < length b \<longrightarrow> \<not> word_char (b ! eq)))"

lemma span_ok_sword: "span_ok b p \<Longrightarrow> sword (span_text b p)"
  by (auto simp: span_ok_def span_text_def sword_def list_all_length in_set_conv_nth split: prod.splits)

lemma suffix_skip [intro]: "suffix s b \<Longrightarrow> suffix (skip_space s) b"
  by (metis skip_space_def suffix_dropWhile suffix_order.trans)

lemma gettoken_suffix:
  assumes "gettoken es ps = (tok, q, r)" "suffix ps b"
  shows "suffix r b"
proof -
  have "\<And>x s. suffix (x # s) b \<Longrightarrow> suffix s b" "\<And>s. suffix s b \<Longrightarrow> suffix (tl s) b" "\<And>s. suffix s b \<Longrightarrow> suffix (dropWhile word_char s) b"
    by (auto dest: suffix_ConsD intro: suffix_order.trans [OF suffix_tl] suffix_order.trans [OF suffix_dropWhile])
  then show ?thesis using assms suffix_skip [OF assms(2)]
    by (auto simp: gettoken_def Let_def split: list.splits if_splits intro!: suffix_skip)
qed

lemma gettoken_span:
  assumes "gettoken (length b) ps = (CHR ''a'', p, r)" "suffix ps b" "CHR 0x00 \<notin> set b"
  shows "span_ok b p"
proof -
  let ?s = "skip_space ps"
  obtain c w where s: "?s = c # w" and c: "c \<notin> set ''|();&<''" "c \<noteq> CHR ''>''" "p = (off (length b) ?s, off (length b) (dropWhile word_char ?s))"
    using assms(1) by (auto simp: gettoken_def Let_def split: list.splits if_splits)
  have word: "word_char c" using skip_space_hd [of ps] s c by (auto simp: word_char_def symbols_def)
  let ?u = "takeWhile word_char ?s" and ?v = "dropWhile word_char ?s"
  obtain pre where b: "b = pre @ ?u @ ?v" using suffix_skip [OF assms(2)] by (auto simp: suffix_def)
  have ls: "length ?s = length ?u + length ?v" by (simp flip: length_append)
  then have off: "off (length b) ?s = length pre" "off (length b) ?v = length pre + length ?u"
    using arg_cong [OF b, of length] by (auto simp: off_def)
  have "?u \<noteq> []" using s word by simp
  moreover have "word_char (b ! i) \<and> b ! i \<noteq> CHR 0x00" if "i \<in> {length pre..<length pre + length ?u}" for i
  proof -
    have "b ! i = ?u ! (i - length pre)" using that by (subst b) (auto simp: nth_append takeWhile_nth)
    moreover have "b ! i \<in> set b" using that arg_cong [OF b, of length] ls by simp
    ultimately show ?thesis using that set_takeWhileD [OF nth_mem, of "i - length pre" word_char ?s] assms(3) by auto
  qed
  moreover have "\<not> word_char (b ! (length pre + length ?u))" if "length pre + length ?u < length b"
  proof -
    have "length b = length pre + length ?u + length ?v" using arg_cong [OF b, of length] ls by simp
    then have v: "?v \<noteq> []" using that by (metis add.right_neutral less_irrefl list.size(3))
    have "b ! (length pre + length ?u) = ?v ! 0" by (subst b) (simp add: nth_append del: takeWhile_dropWhile_id)
    then show ?thesis using hd_dropWhile [OF v] v by (simp add: hd_conv_nth)
  qed
  moreover have "length pre + length ?u \<le> length b" using arg_cong [OF b, of length] ls by simp
  ultimately show ?thesis by (auto simp: span_ok_def c(3) off)
qed

text \<open>The number of arguments of the command under construction.\<close>

fun argc_of :: "'p cmd \<Rightarrow> nat" where
  "argc_of (EXEC args) = length args"
| "argc_of (REDIR c _ _ _) = argc_of c"
| "argc_of _ = 0"

definition parsed_ok :: "string \<Rightarrow> span cmd \<Rightarrow> bool" where
  "parsed_ok b c \<longleftrightarrow> (\<forall>p \<in> set_cmd c. span_ok b p) \<and> cmd_ok (map_cmd (span_text b) c)"

fun yields :: "string \<Rightarrow> (span cmd \<Rightarrow> bool) \<Rightarrow> span cmd parse \<Rightarrow> bool" where
  "yields b P (Done c r) \<longleftrightarrow> suffix r b \<and> parsed_ok b c \<and> P c"
| "yields b P _ \<longleftrightarrow> True"

lemma yields_pbind:
  "yields b P x \<Longrightarrow> (\<And>c r. suffix r b \<Longrightarrow> parsed_ok b c \<Longrightarrow> P c \<Longrightarrow> yields b Q (f c r)) \<Longrightarrow> yields b Q (pbind x f)"
  by (cases x) auto

lemma yields_panic [simp]: "yields b P (panic e)"
  by (simp add: panic_def)

lemma peek_suffix: "peek toks ps = (x, r) \<Longrightarrow> suffix ps b \<Longrightarrow> suffix r b"
  by (auto simp: peek_def Let_def)

lemma yields_token:
  assumes "suffix ps b" "\<And>r. suffix r b \<Longrightarrow> yields b P (f r)" "\<And>r. suffix r b \<Longrightarrow> yields b P (g r)"
  shows "yields b P (case peek toks ps of (found, ps) \<Rightarrow> if found then case gettoken es ps of (_, _, ps) \<Rightarrow> f ps else g ps)"
    "yields b P (case peek toks ps of (found, ps) \<Rightarrow> if \<not> found then g ps else case gettoken es ps of (_, _, ps) \<Rightarrow> f ps)"
  using assms by (auto split: prod.splits dest: peek_suffix gettoken_suffix)

lemma parsed_ok_redirect: "parsed_ok b c \<Longrightarrow> span_ok b p \<Longrightarrow> parsed_ok b (redirect tok p c)"
  using span_ok_sword by (auto simp: parsed_ok_def redirect_def redir_ok_def)

lemma argc_redirect [simp]: "argc_of (redirect tok p c) = argc_of c"
  by (simp add: redirect_def)

lemma argc_add_arg: "argc_of (add_arg p c) \<le> Suc (argc_of c)"
  by (induction p c rule: add_arg.induct) simp_all

lemma parsed_ok_add_arg: "parsed_ok b c \<Longrightarrow> span_ok b p \<Longrightarrow> Suc (argc_of c) < MAXARGS \<Longrightarrow> parsed_ok b (add_arg p c)"
  using span_ok_sword by (induction p c rule: add_arg.induct) (auto simp: parsed_ok_def)

lemma parseredirs_yields:
  assumes "CHR 0x00 \<notin> set b"
  shows "suffix ps b \<Longrightarrow> parsed_ok b c \<Longrightarrow> yields b (\<lambda>c'. argc_of c' = argc_of c) (parseredirs k (length b) c ps)"
proof (induction k arbitrary: c ps)
  case (Suc k)
  obtain x r where p: "peek ''<>'' ps = (x, r)" by fastforce
  obtain tok q r1 where t: "gettoken (length b) r = (tok, q, r1)" by (metis prod_cases3)
  obtain u q2 r2 where t2: "gettoken (length b) r1 = (u, q2, r2)" by (metis prod_cases3)
  have suf: "suffix r b" "suffix r1 b" "suffix r2 b"
    using peek_suffix [OF p] gettoken_suffix [OF t] gettoken_suffix [OF t2] Suc.prems(1) by auto
  have "yields b (\<lambda>c'. argc_of c' = argc_of c) (parseredirs k (length b) (redirect tok q2 c) r2)" if "u = CHR ''a''"
    using Suc.IH [OF suf(3) parsed_ok_redirect [OF Suc.prems(2)], of q2 tok] gettoken_span [of b r1 q2 r2] t2 that suf(2) assms by simp
  then show ?case using p t t2 suf Suc.prems(2) by simp
qed simp

lemma parseargs_yields:
  assumes "CHR 0x00 \<notin> set b"
  shows "suffix ps b \<Longrightarrow> parsed_ok b c \<Longrightarrow> argc_of c \<le> argc \<Longrightarrow> yields b (\<lambda>_. True) (parseargs k (length b) argc c ps)"
proof (induction k arbitrary: argc c ps)
  case (Suc k)
  obtain x r where p: "peek ''|)&;'' ps = (x, r)" by fastforce
  obtain tok q r1 where t: "gettoken (length b) r = (tok, q, r1)" by (metis prod_cases3)
  have suf: "suffix r b" "suffix r1 b" using peek_suffix [OF p] gettoken_suffix [OF t] Suc.prems(1) by auto
  have "yields b (\<lambda>_. True) (pbind (parseredirs k (length b) (add_arg q c) r1) (\<lambda>ret ps. parseargs k (length b) (Suc argc) ret ps))"
    if "tok = CHR ''a''" "Suc argc < MAXARGS"
  proof (rule yields_pbind)
    have "parsed_ok b (add_arg q c)"
      using parsed_ok_add_arg [OF Suc.prems(2), of q] gettoken_span [of b r q r1] t suf(1) that Suc.prems(3) assms by simp
    then show "yields b (\<lambda>c'. argc_of c' = argc_of (add_arg q c)) (parseredirs k (length b) (add_arg q c) r1)"
      by (rule parseredirs_yields [OF assms suf(2)])
    fix c' r'
    assume "suffix r' b" "parsed_ok b c'" "argc_of c' = argc_of (add_arg q c)"
    then show "yields b (\<lambda>_. True) (parseargs k (length b) (Suc argc) c' r')"
      using Suc.IH argc_add_arg [of q c] Suc.prems(3) by simp
  qed
  then show ?case using p t suf Suc.prems(2) by simp
qed simp

lemma parsebacks_yields: "suffix ps b \<Longrightarrow> parsed_ok b c \<Longrightarrow> yields b (\<lambda>_. True) (parsebacks k (length b) c ps)"
proof (induction k arbitrary: c ps)
  case (Suc k)
  have "parsed_ok b (BACK c)" using Suc.prems(2) by (simp add: parsed_ok_def)
  then show ?case unfolding parsebacks.simps by (intro yields_token) (use Suc in auto)
qed simp

lemma parse_yields:
  assumes "CHR 0x00 \<notin> set b"
  shows "suffix ps b \<Longrightarrow> yields b (\<lambda>_. True) (parseline k (length b) ps)"
  "suffix ps b \<Longrightarrow> yields b (\<lambda>_. True) (parsepipe k (length b) ps)"
  "suffix ps b \<Longrightarrow> yields b (\<lambda>_. True) (parseblock k (length b) ps)"
  "suffix ps b \<Longrightarrow> yields b (\<lambda>_. True) (parseexec k (length b) ps)"
proof (induction k arbitrary: ps)
  case (Suc k)
  have two: "parsed_ok b (LIST l r)" "parsed_ok b (PIPE l r)" if "parsed_ok b l" "parsed_ok b r" for l r
    using that by (auto simp: parsed_ok_def)
  have redirs: "suffix ps b \<Longrightarrow> parsed_ok b c \<Longrightarrow> yields b (\<lambda>_. True) (parseredirs k (length b) c ps)" for c ps
    using parseredirs_yields [OF assms, of ps c k] by (cases "parseredirs k (length b) c ps") auto
  note sub = Suc.IH parsebacks_yields redirs
  { case 1
    then show ?case unfolding parseline.simps
      by (intro yields_pbind [where P = "\<lambda>_. True"] yields_token sub) (auto intro: two)
  next
    case 2
    then show ?case unfolding parsepipe.simps
      by (intro yields_pbind [where P = "\<lambda>_. True"] yields_token sub) (auto intro: two)
  next
    case 3
    then show ?case unfolding parseblock.simps
      by (intro yields_pbind [where P = "\<lambda>_. True"] yields_token sub) auto
  next
    case 4
    obtain x r where p: "peek ''('' ps = (x, r)" by fastforce
    have r: "suffix r b" by (rule peek_suffix [OF p 4])
    have "yields b (\<lambda>_. True) (pbind (parseredirs k (length b) (EXEC []) r) (\<lambda>ret ps. parseargs k (length b) 0 ret ps))"
      by (intro yields_pbind [OF parseredirs_yields [OF assms r]] parseargs_yields assms) (auto simp: parsed_ok_def MAXARGS_def)
    then show ?case using p Suc.IH(3) [OF r] by simp }
qed simp_all

lemma nulterminate_nth:
  "length (nulterminate c m) = length m \<and>
   (\<forall>i < length m. nulterminate c m ! i = (if i \<in> snd ` set_cmd c then CHR 0x00 else m ! i))"
proof (induction c m rule: nulterminate.induct)
  case (1 args m)
  show ?case by (induction args arbitrary: m) (auto simp: nth_list_update split: prod.splits)
next
  case (2 c q eq mode fd m)
  then show ?case by (cases "eq < length m") (auto simp: nth_list_update image_iff)
qed auto

text \<open>The strings in the line after \<^verbatim>\<open>nulterminate\<close> are the words between the pointers: no string of the command is cut by another.\<close>

lemma nulterminate_text:
  assumes "m = b @ CHR 0x00 # t" "CHR 0x00 \<notin> set b" "parsed_ok b c"
  shows "string_cmd (nulterminate c m) c = map_cmd (span_text b) c"
  unfolding string_cmd_def
proof (rule cmd.map_cong0)
  fix p
  assume p: "p \<in> set_cmd c"
  let ?m = "nulterminate c m"
  obtain q eq where qe: "p = (q, eq)" by (cases p)
  have ok: "q < eq" "eq \<le> length b" "\<And>i. q \<le> i \<Longrightarrow> i < eq \<Longrightarrow> word_char (b ! i)" using assms(3) p by (auto simp: parsed_ok_def qe span_ok_def)
  have len: "length ?m = length m" "length b < length m" using nulterminate_nth [of c m] assms(1) by simp_all
  have kept: "?m ! i = b ! i \<and> b ! i \<noteq> CHR 0x00" if i: "q \<le> i" "i < eq" for i
  proof -
    have "i \<notin> snd ` set_cmd c" using assms(3) ok(2,3) i by (force simp: parsed_ok_def span_ok_def)
    moreover have "m ! i = b ! i" "b ! i \<in> set b" using i ok(2) by (auto simp: assms(1) nth_append)
    moreover have "b ! i \<noteq> CHR 0x00" using calculation(3) assms(2) by metis
    ultimately show ?thesis using nulterminate_nth [of c m] i ok(2) len by auto
  qed
  have "?m ! eq = CHR 0x00" using nulterminate_nth [of c m] p ok(2) len qe by force
  then have "drop eq ?m = CHR 0x00 # drop (Suc eq) ?m" using ok(2) len by (metis Cons_nth_drop_Suc le_less_trans)
  moreover have "take (eq - q) (drop q ?m) = take (eq - q) (drop q b)" using kept ok len by (intro nth_equalityI) auto
  moreover have "drop q ?m = take (eq - q) (drop q ?m) @ drop eq ?m"
    using append_take_drop_id [of "eq - q" "drop q ?m"] ok(1) by simp
  ultimately have "drop q ?m = take (eq - q) (drop q b) @ CHR 0x00 # drop (Suc eq) ?m" by simp
  moreover have "x \<noteq> CHR 0x00" if "x \<in> set (take (eq - q) (drop q b))" for x
    using that assms(2) by (meson in_set_dropD in_set_takeD)
  ultimately show "(case p of (q, eq) \<Rightarrow> cstr ?m q) = span_text b p"
    by (simp add: qe cstr_def span_text_def takeWhile_append2)
qed

lemma cstr_line:
  assumes "CHR 0x00 \<in> set m"
  obtains t where "m = cstr m 0 @ CHR 0x00 # t" "CHR 0x00 \<notin> set (cstr m 0)"
proof -
  have "dropWhile (\<lambda>c. c \<noteq> CHR 0x00) m \<noteq> []" using assms by (simp add: dropWhile_eq_Nil_conv)
  then obtain x t where d: "dropWhile (\<lambda>c. c \<noteq> CHR 0x00) m = x # t" by (meson neq_Nil_conv)
  then have "x = CHR 0x00" using hd_dropWhile [of "\<lambda>c. c \<noteq> CHR 0x00" m] by simp
  moreover have "m = cstr m 0 @ x # t" using takeWhile_dropWhile_id [of "\<lambda>c. c \<noteq> CHR 0x00" m] d by (simp add: cstr_def)
  moreover have "CHR 0x00 \<notin> set (cstr m 0)" by (auto simp: cstr_def dest: set_takeWhileD)
  ultimately show ?thesis using that by blast
qed

lemma show_cmd_nul: "cmd_ok c \<Longrightarrow> CHR 0x00 \<notin> set (show_cmd c p)"
  by (induction c arbitrary: p) (auto simp: paren_def sword_def show_redir_def redir_ok_def list_all_iff)

lemma parsecmd_show:
  assumes "cmd_ok c"
  shows "\<exists>c' m'. parsecmd (show_cmd c 0 @ CHR 0x00 # t) = Done (c', m') [] \<and> string_cmd m' c' = c"
proof -
  let ?b = "show_cmd c 0"
  note nul = show_cmd_nul [OF assms, of 0]
  have "takeWhile (\<lambda>c. c \<noteq> CHR 0x00) (?b @ CHR 0x00 # t) = ?b" using nul by (subst takeWhile_append2) auto
  then have b: "cstr (?b @ CHR 0x00 # t) 0 = ?b" by (simp add: cstr_def)
  obtain c' where c': "parseline (parse_fuel (length ?b)) (length ?b) ?b = Done c' []" "map_cmd (span_text ?b) c' = c"
    using reads_show [OF assms, of ?b, unfolded reads_line_def, THEN conjunct2, THEN conjunct2, THEN conjunct2, rule_format,
        of "[]" "parse_fuel (length ?b)"]
    by (auto simp: stops_def parse_fuel_def)
  have "parsed_ok ?b c'" using parse_yields(1) [OF nul, of ?b "parse_fuel (length ?b)"] c'(1) by simp
  then have "string_cmd (nulterminate c' (?b @ CHR 0x00 # t)) c' = c" using nulterminate_text [OF refl nul] c'(2) by simp
  then show ?thesis using c'(1) b by (simp add: parsecmd_def)
qed

text \<open>
  C29: parsing inverts printing.  Every command, with any nesting of pipelines, lists, background commands and redirections, can be
  written as a line from which \<^verbatim>\<open>parsecmd\<close> builds that same command, its strings read back from the terminated line buffer: the
  grammar of the shell is unambiguous and reaches all commands.
\<close>

theorem parse_show:
  assumes "cmd_ok c"
  shows "\<exists>c' m'. parsecmd (show_cmd c 0 @ CHR 0x00 # t) = Done (c', m') [] \<and> string_cmd m' c' = c"
  using assms by (rule parsecmd_show)

definition example_cmd :: "string cmd" where
  "example_cmd = PIPE (BACK (EXEC [''ls''])) (REDIR (EXEC [''wc'']) ''f'' O_RDONLY 0)"

lemma example_cmd_ok: "cmd_ok example_cmd"
  by (simp add: example_cmd_def sword_def word_char_def whitespace_def symbols_def redir_ok_def MAXARGS_def)

theorem parse_show_witness:
  "\<exists>c' m'. parsecmd (show_cmd example_cmd 0 @ CHR 0x00 # []) = Done (c', m') [] \<and> string_cmd m' c' = example_cmd"
  using parse_show example_cmd_ok by blast

text \<open>
  C30: what the parser returns is well formed.  After a successful \<^verbatim>\<open>parsecmd\<close> every argument and file name of the command is, as a C
  string in the line buffer, a non-empty word without white space or symbols, and exactly the word between the two pointers of the
  parser (no terminator written for one string damages another); a simple command has at most nine arguments, so that \<^verbatim>\<open>argv\<close> keeps
  its final null; a redirection is \<^verbatim>\<open>O_RDONLY\<close> on descriptor 0 or \<^verbatim>\<open>O_WRONLY|O_CREATE\<close> on descriptor 1.
\<close>

theorem parsecmd_well_formed:
  assumes "CHR 0x00 \<in> set m" "parsecmd m = Done (c, m') r"
  shows "cmd_ok (string_cmd m' c) \<and> string_cmd m' c = map_cmd (span_text (cstr m 0)) c"
proof -
  let ?b = "cstr m 0"
  obtain t where m: "m = ?b @ CHR 0x00 # t" "CHR 0x00 \<notin> set ?b" by (rule cstr_line [OF assms(1)])
  obtain s where p: "parseline (parse_fuel (length ?b)) (length ?b) ?b = Done c s" "m' = nulterminate c m"
    using assms(2) by (cases "parseline (parse_fuel (length ?b)) (length ?b) ?b") (auto simp: parsecmd_def Let_def split: prod.splits if_splits)
  have "parsed_ok ?b c" using parse_yields(1) [OF m(2), of ?b "parse_fuel (length ?b)"] p(1) by simp
  then show ?thesis using nulterminate_text [OF m] p(2) by (simp add: parsed_ok_def)
qed

theorem parsecmd_well_formed_witness:
  "case parsecmd (show_cmd example_cmd 0 @ [CHR 0x00]) of Done (c, m') r \<Rightarrow> cmd_ok (string_cmd m' c) | _ \<Rightarrow> False"
proof -
  obtain c m' where p: "parsecmd (show_cmd example_cmd 0 @ [CHR 0x00]) = Done (c, m') []"
    using parsecmd_show [OF example_cmd_ok, of "[]"] by auto
  have nul: "CHR 0x00 \<in> set (show_cmd example_cmd 0 @ [CHR 0x00])" by simp
  show ?thesis using parsecmd_well_formed [OF nul p, THEN conjunct1] p by simp
qed

end
