(* ===== verification/Sh_Run.thy ===== *)
theory Sh_Run imports Sh_Parse begin

text \<open>
  The system calls of \<^verbatim>\<open>runcmd\<close> interpreted over descriptor tables: which programs start, and where their standard streams go.
\<close>

section \<open>Where the standard streams go\<close>

text \<open>
  The programs started by a command, with their descriptors, when no system call fails.  Open files are named by how they came
  about: \<open>Given d\<close> the shell had on entry, a pipe is named by the process that made it.  A new descriptor is the lowest free one, as
  in \<^verbatim>\<open>fdalloc\<close>; a fork runs the child and the parent on copies of the descriptors, and the position in the tree of forks names the
  process.
\<close>

datatype obj = Given int | Opened string nat | ReadEnd "bool list" | WriteEnd "bool list"

type_synonym fds = "int \<Rightarrow> obj option"

definition lowest_free :: "fds \<Rightarrow> int" where
  "lowest_free t = hd ([d \<leftarrow> map int [0..<16]. t d = None] @ [-1])"

definition ok_reply :: "int \<Rightarrow> int \<times> int \<Rightarrow> reply" where
  "ok_reply v p = \<lparr>rv = v, rbytes = [], rfds = p, rstat = \<lparr>st_type = 0, st_ino = 0, st_size = 0\<rparr>\<rparr>"

primrec started :: "act \<Rightarrow> bool list \<Rightarrow> fds \<Rightarrow> (string list \<times> fds) list" where
  "started Exit w t = []"
| "started Stop w t = []"
| "started (Sys c k) w t =
     (case c of
        Exec _ argv \<Rightarrow> [(argv, t)]
      | Close d \<Rightarrow> started (k (ok_reply 0 (0, 0))) w (t(d := None))
      | Open f mode \<Rightarrow> (let d = lowest_free t in started (k (ok_reply d (0, 0))) w (t(d := Some (Opened f mode))))
      | Dup e \<Rightarrow> (let d = lowest_free t in started (k (ok_reply d (0, 0))) w (t(d := t e)))
      | Pipe \<Rightarrow>
          (let d = lowest_free t; t = t(d := Some (ReadEnd w)); e = lowest_free t; t = t(e := Some (WriteEnd w))
           in started (k (ok_reply 0 (d, e))) w t)
      | Fork \<Rightarrow> started (k (ok_reply 0 (0, 0))) (True # w) t @ started (k (ok_reply 1 (0, 0))) (False # w) t
      | _ \<Rightarrow> started (k (ok_reply 0 (0, 0))) w t)"

text \<open>What the command means: a redirection replaces one stream, a pipeline joins the output of one side to the input of the other.\<close>

primrec wiring :: "string cmd \<Rightarrow> bool list \<Rightarrow> fds \<Rightarrow> (string list \<times> fds) list" where
  "wiring (EXEC argv) w t = (if argv = [] then [] else [(argv, t)])"
| "wiring (REDIR c file mode fd) w t = wiring c w (t(int fd := Some (Opened file mode)))"
| "wiring (PIPE l r) w t =
     wiring l (True # w) (t(1 := Some (WriteEnd w))) @ wiring r (True # False # w) (t(0 := Some (ReadEnd w)))"
| "wiring (LIST l r) w t = wiring l (True # w) t @ wiring r (False # w) t"
| "wiring (BACK c) w t = wiring c (True # w) t"

definition standard :: "fds \<Rightarrow> bool" where
  "standard t \<longleftrightarrow> (\<forall>d. t d = None \<longleftrightarrow> d \<notin> {0, 1, 2})"

lemma standard_upd: "standard t \<Longrightarrow> d \<in> {0, 1, 2} \<Longrightarrow> standard (t(d := Some x))"
  by (auto simp: standard_def)

lemma wiring_standard: "cmd_ok c \<Longrightarrow> standard t \<Longrightarrow> x \<in> set (wiring c w t) \<Longrightarrow> standard (snd x)"
proof (induction c arbitrary: w t)
  case (REDIR c f mode fd)
  then have "standard (t(int fd := Some (Opened f mode)))" by (intro standard_upd) (auto simp: redir_ok_def)
  then show ?case using REDIR by auto
next
  case (PIPE l r)
  have "standard (t(1 := Some (WriteEnd w)))" "standard (t(0 := Some (ReadEnd w)))" by (intro standard_upd PIPE.prems; simp)+
  then show ?case using PIPE by auto
qed (auto split: if_splits)

lemma lowest_freeI:
  assumes "n < 16" "t (int n) = None" "list_all (\<lambda>m. t (int m) \<noteq> None) [0..<n]"
  shows "lowest_free t = int n"
proof -
  have "[0..<16] = [0..<n] @ n # [Suc n..<16]" using assms(1) by (metis less_imp_le_nat upt_add_eq_append upt_conv_Cons zero_le le_add_diff_inverse)
  moreover have "filter (\<lambda>d. t d = None) (map int [0..<n]) = []" using assms(3) by (auto simp: filter_empty_conv list_all_iff)
  ultimately show ?thesis using assms(2) by (simp add: lowest_free_def)
qed

lemma runcmd_wiring_aux: "cmd_ok c \<Longrightarrow> standard t \<Longrightarrow> started (runcmd c) w t = wiring c w t"
proof (induction c arbitrary: w t)
  case (REDIR c f mode fd)
  have t: "t 0 \<noteq> None" "t 1 \<noteq> None" using REDIR.prems by (auto simp: standard_def)
  have fd: "fd = 0 \<or> fd = 1" using REDIR.prems by (auto simp: redir_ok_def)
  then have low: "lowest_free (t(int fd := None)) = int fd" using t by (intro lowest_freeI) auto
  have "started (runcmd c) w (t(int fd := Some (Opened f mode))) = wiring c w (t(int fd := Some (Opened f mode)))"
    using REDIR.prems fd by (intro REDIR.IH standard_upd) auto
  then show ?case using low by (simp add: ok_reply_def)
next
  case (PIPE l r)
  have t: "t 0 \<noteq> None" "t 1 \<noteq> None" "t 2 \<noteq> None" "t 3 = None" "t 4 = None" using PIPE.prems by (simp_all add: standard_def)
  let ?t = "t(3 := Some (ReadEnd w), 4 := Some (WriteEnd w))"
  have low: "lowest_free t = 3" "lowest_free (t(3 := Some (ReadEnd w))) = 4" "lowest_free (?t(1 := None)) = 1" "lowest_free (?t(0 := None)) = 0"
    using lowest_freeI [of 3 t] lowest_freeI [of 4 "t(3 := Some (ReadEnd w))"] lowest_freeI [of 1 "?t(1 := None)"]
      lowest_freeI [of 0 "?t(0 := None)"] t
    by (simp_all add: upt_rec)
  have eq: "(?t(1 := None, 1 := Some (WriteEnd w), 3 := None, 4 := None)) = t(1 := Some (WriteEnd w))"
    "(?t(0 := None, 0 := Some (ReadEnd w), 3 := None, 4 := None)) = t(0 := Some (ReadEnd w))" using t by auto
  have "started (runcmd l) v (t(1 := Some (WriteEnd w))) = wiring l v (t(1 := Some (WriteEnd w)))"
    "started (runcmd r) v (t(0 := Some (ReadEnd w))) = wiring r v (t(0 := Some (ReadEnd w)))" for v
    using PIPE.prems by (auto intro!: PIPE.IH standard_upd)
  then show ?case using low eq by (simp add: ok_reply_def fork1_def Let_def)
qed (auto simp: ok_reply_def fork1_def)

text \<open>
  C31: \<^verbatim>\<open>runcmd\<close> wires the streams as the command says.  Started with descriptors 0, 1 and 2 open and no others, and as long as no
  system call fails, it runs exactly the simple commands of the tree, in order; a redirection has replaced the stream it names, the
  sides of a pipeline are joined by a pipe of their own, and no program inherits any other descriptor, in particular no end of a
  pipe that would keep its reader from seeing the end of the input.
\<close>

theorem runcmd_wiring:
  assumes "cmd_ok c" "standard t"
  shows "started (runcmd c) w t = wiring c w t \<and> list_all (\<lambda>(argv, t'). standard t') (started (runcmd c) w t)"
  using runcmd_wiring_aux [OF assms] wiring_standard [OF assms] by (fastforce simp: list_all_iff)

theorem runcmd_wiring_witness:
  "started (runcmd example_cmd) [] (\<lambda>d. if d \<in> {0, 1, 2} then Some (Given d) else None) =
   wiring example_cmd [] (\<lambda>d. if d \<in> {0, 1, 2} then Some (Given d) else None)"
  by (rule runcmd_wiring [OF example_cmd_ok, THEN conjunct1]) (simp add: standard_def)

end
