(* ===== verification/Utils.thy ===== *)
theory Utils imports Usys begin

text \<open>
  The small user programs (\<^verbatim>\<open>cat.c\<close>, \<^verbatim>\<open>wc.c\<close>, \<^verbatim>\<open>echo.c\<close>, \<^verbatim>\<open>kill.c\<close>, \<^verbatim>\<open>ln.c\<close>, \<^verbatim>\<open>mkdir.c\<close>, \<^verbatim>\<open>rm.c\<close>, \<^verbatim>\<open>zombie.c\<close>, \<^verbatim>\<open>ls.c\<close>) and the first process
  (\<^verbatim>\<open>init.c\<close>) as trees of system calls, and what \<^verbatim>\<open>cat\<close> and \<^verbatim>\<open>wc\<close> print on an input that arrives in pieces.
\<close>

section \<open>Copying and counting\<close>

abbreviation (input) nl :: string where "nl \<equiv> [CHR 0x0A]"

text \<open>\<^verbatim>\<open>cat\<close>: at most \<open>k\<close> reads; then \<open>cont\<close>.\<close>

fun cat :: "nat \<Rightarrow> int \<Rightarrow> act \<Rightarrow> act" where
  "cat 0 fd cont = Stop"
| "cat (Suc k) fd cont =
     Sys (Read fd 512) (\<lambda>r.
       if rv r > 0
       then syscall (Write 1 (rbytes r)) (\<lambda>n.
         if n \<noteq> rv r then printf 1 (''cat: write error'' @ nl) [] Exit else cat k fd cont)
       else if rv r < 0 then printf 1 (''cat: read error'' @ nl) [] Exit
       else cont)"

text \<open>The loop over file names that \<^verbatim>\<open>cat\<close> and \<^verbatim>\<open>wc\<close> have in common; \<open>prog\<close> is the name in the error message.\<close>

fun each_file :: "string \<Rightarrow> (int \<Rightarrow> string \<Rightarrow> act \<Rightarrow> act) \<Rightarrow> string list \<Rightarrow> act" where
  "each_file prog body [] = Exit"
| "each_file prog body (f # fs) =
     syscall (Open f 0) (\<lambda>fd.
       if fd < 0 then printf 1 (prog @ '': cannot open %s'' @ nl) [Ptr (Some f)] Exit
       else body fd f (syscall (Close fd) (\<lambda>_. each_file prog body fs)))"

definition cat_main :: "nat \<Rightarrow> string list \<Rightarrow> act" where
  "cat_main k argv = (if length argv \<le> 1 then cat k 0 Exit else each_file ''cat'' (\<lambda>fd _. cat k fd) (tl argv))"

text \<open>The counters of \<^verbatim>\<open>wc\<close>: lines, words, characters, and whether the last character was inside a word.\<close>

record counts =
  wl :: int
  ww :: int
  wch :: int
  inword :: bool

definition wc_char :: "char \<Rightarrow> counts \<Rightarrow> counts" where
  "wc_char c s =
     (let s = s\<lparr>wch := wch s + 1\<rparr>;
          s = (if c = CHR 0x0A then s\<lparr>wl := wl s + 1\<rparr> else s)
      in if ustrchr [CHR '' '', CHR 0x0D, CHR 0x09, CHR 0x0A, CHR 0x0B] c \<noteq> None then s\<lparr>inword := False\<rparr>
         else if \<not> inword s then s\<lparr>ww := ww s + 1, inword := True\<rparr>
         else s)"

fun wc_loop :: "nat \<Rightarrow> int \<Rightarrow> string \<Rightarrow> counts \<Rightarrow> act \<Rightarrow> act" where
  "wc_loop 0 fd name s cont = Stop"
| "wc_loop (Suc k) fd name s cont =
     Sys (Read fd 512) (\<lambda>r.
       if rv r > 0 then wc_loop k fd name (fold wc_char (take (nat (rv r)) (rbytes r)) s) cont
       else if rv r < 0 then printf 1 (''wc: read error'' @ nl) [] Exit
       else printf 1 (''%d %d %d %s'' @ nl) [Num (of_int (wl s)), Num (of_int (ww s)), Num (of_int (wch s)), Ptr (Some name)] cont)"

definition wc :: "nat \<Rightarrow> int \<Rightarrow> string \<Rightarrow> act \<Rightarrow> act" where
  "wc k fd name cont = wc_loop k fd name \<lparr>wl = 0, ww = 0, wch = 0, inword = False\<rparr> cont"

definition wc_main :: "nat \<Rightarrow> string list \<Rightarrow> act" where
  "wc_main k argv = (if length argv \<le> 1 then wc k 0 [] Exit else each_file ''wc'' (wc k) (tl argv))"

section \<open>Small programs\<close>

fun echo_args :: "string list \<Rightarrow> act" where
  "echo_args [] = Exit"
| "echo_args (a # as) = printf 1 ''%s%s'' [Ptr (Some a), Ptr (Some (if as \<noteq> [] then '' '' else nl))] (echo_args as)"

definition echo_main :: "string list \<Rightarrow> act" where
  "echo_main argv = echo_args (tl argv)"

fun kill_args :: "string list \<Rightarrow> act" where
  "kill_args [] = Exit"
| "kill_args (a # as) = syscall (Kill (atoi a)) (\<lambda>_. kill_args as)"

definition kill_main :: "string list \<Rightarrow> act" where
  "kill_main argv = (if length argv < 2 then printf 2 (''usage: kill pid...'' @ nl) [] Exit else kill_args (tl argv))"

definition ln_main :: "string list \<Rightarrow> act" where
  "ln_main argv =
     (if length argv \<noteq> 3 then printf 2 (''Usage: ln old new'' @ nl) [] Exit
      else syscall (Link (argv ! 1) (argv ! 2)) (\<lambda>r.
        if r < 0 then printf 2 (''link %s %s: failed'' @ nl) [Ptr (Some (argv ! 1)), Ptr (Some (argv ! 2))] Exit else Exit))"

fun mkdir_args :: "string list \<Rightarrow> act" where
  "mkdir_args [] = Exit"
| "mkdir_args (a # as) =
     syscall (Mkdir a) (\<lambda>r. if r < 0 then printf 2 (''mkdir: %s failed to create'' @ nl) [Ptr (Some a)] Exit else mkdir_args as)"

definition mkdir_main :: "string list \<Rightarrow> act" where
  "mkdir_main argv = (if length argv < 2 then printf 2 (''Usage: mkdir files...'' @ nl) [] Exit else mkdir_args (tl argv))"

fun rm_args :: "string list \<Rightarrow> act" where
  "rm_args [] = Exit"
| "rm_args (a # as) =
     syscall (Unlink a) (\<lambda>r. if r < 0 then printf 2 (''rm: %s failed to delete'' @ nl) [Ptr (Some a)] Exit else rm_args as)"

definition rm_main :: "string list \<Rightarrow> act" where
  "rm_main argv = (if length argv < 2 then printf 2 (''Usage: rm files...'' @ nl) [] Exit else rm_args (tl argv))"

definition zombie_main :: act where
  "zombie_main = syscall Fork (\<lambda>pid. if pid > 0 then syscall (Sleep 5) (\<lambda>_. Exit) else Exit)"

section \<open>The first process\<close>

text \<open>Wait for the shell, at most \<open>k\<close> times; orphans that exit first are announced.\<close>

fun init_wait :: "nat \<Rightarrow> int \<Rightarrow> act \<Rightarrow> act" where
  "init_wait 0 pid cont = Stop"
| "init_wait (Suc k) pid cont =
     syscall Wait (\<lambda>wpid. if wpid \<ge> 0 \<and> wpid \<noteq> pid then printf 1 (''zombie!'' @ nl) [] (init_wait k pid cont) else cont)"

fun init_loop :: "nat \<Rightarrow> act" where
  "init_loop 0 = Stop"
| "init_loop (Suc k) =
     printf 1 (''init: starting sh'' @ nl) [] (
     syscall Fork (\<lambda>pid.
       if pid < 0 then printf 1 (''init: fork failed'' @ nl) [] Exit
       else if pid = 0 then syscall (Exec ''sh'' [''sh'']) (\<lambda>_. printf 1 (''init: exec sh failed'' @ nl) [] Exit)
       else init_wait k pid (init_loop k)))"

definition init_main :: "nat \<Rightarrow> act" where
  "init_main k =
     syscall (Open ''console'' O_RDWR) (\<lambda>fd.
       let start = syscall (Dup 0) (\<lambda>_. syscall (Dup 0) (\<lambda>_. init_loop k))
       in if fd < 0 then syscall (Mknod ''console'' 1 1) (\<lambda>_. syscall (Open ''console'' O_RDWR) (\<lambda>_. start)) else start)"

section \<open>Listing a directory\<close>

abbreviation (input) DIRSIZ :: nat where "DIRSIZ \<equiv> 14"

definition fmtname :: "string \<Rightarrow> string" where
  "fmtname path =
     (let p = rev (takeWhile (\<lambda>c. c \<noteq> CHR ''/'') (rev path))
      in if length p \<ge> DIRSIZ then p else p @ replicate (DIRSIZ - length p) (CHR '' ''))"

definition ls_line :: "string \<Rightarrow> stat_reply \<Rightarrow> act \<Rightarrow> act" where
  "ls_line path st cont =
     printf 1 (''%s %d %d %d'' @ nl) [Ptr (Some (fmtname path)), Num (of_int (st_type st)), Num (st_ino st), Num (st_size st)] cont"

text \<open>
  The loop over the entries of a directory, 16 bytes each: the inode number in two bytes, then the name.  The buffer holds \<open>path\<close> and a
  slash; the name is cut at its first terminator.
\<close>

fun ls_entries :: "nat \<Rightarrow> int \<Rightarrow> string \<Rightarrow> act \<Rightarrow> act" where
  "ls_entries 0 fd path cont = Stop"
| "ls_entries (Suc k) fd path cont =
     Sys (Read fd 16) (\<lambda>r.
       if rv r \<noteq> 16 then cont
       else let de = rbytes r; name = takeWhile (\<lambda>c. c \<noteq> CHR 0x00) (take DIRSIZ (drop 2 de)); buf = path @ ''/'' @ name
            in if de ! 0 = CHR 0x00 \<and> de ! 1 = CHR 0x00 then ls_entries k fd path cont
               else ustat buf (\<lambda>st. case st of
                      None \<Rightarrow> printf 1 (''ls: cannot stat %s'' @ nl) [Ptr (Some buf)] (ls_entries k fd path cont)
                    | Some st \<Rightarrow> ls_line buf (rstat st) (ls_entries k fd path cont)))"

definition ls :: "nat \<Rightarrow> string \<Rightarrow> act \<Rightarrow> act" where
  "ls k path cont =
     syscall (Open path 0) (\<lambda>fd.
       if fd < 0 then printf 2 (''ls: cannot open %s'' @ nl) [Ptr (Some path)] cont
       else Sys (Fstat fd) (\<lambda>r.
         if rv r < 0 then printf 2 (''ls: cannot stat %s'' @ nl) [Ptr (Some path)] (syscall (Close fd) (\<lambda>_. cont))
         else let st = rstat r; done = syscall (Close fd) (\<lambda>_. cont)
              in if st_type st = 2 then ls_line path st done
                 else if st_type st = 1
                 then (if length path + 1 + DIRSIZ + 1 > 512 then printf 1 (''ls: path too long'' @ nl) [] done else ls_entries k fd path done)
                 else done))"

fun ls_args :: "nat \<Rightarrow> string list \<Rightarrow> act" where
  "ls_args k [] = Exit"
| "ls_args k (a # as) = ls k a (ls_args k as)"

definition ls_main :: "nat \<Rightarrow> string list \<Rightarrow> act" where
  "ls_main k argv = (if length argv < 2 then ls k ''.'' Exit else ls_args k (tl argv))"

section \<open>What the programs print\<close>

text \<open>
  A program run on an input that arrives in pieces, with every write accepted: what it writes, with the descriptors, if it exits.  Other
  calls are not answered.
\<close>

definition answer :: "int \<Rightarrow> string \<Rightarrow> reply" where
  "answer n s = \<lparr>rv = n, rbytes = s, rfds = (0, 0), rstat = \<lparr>st_type = 0, st_ino = 0, st_size = 0\<rparr>\<rparr>"

primrec run_on :: "act \<Rightarrow> string list \<Rightarrow> (int \<times> string) list option" where
  "run_on Exit inp = Some []"
| "run_on Stop inp = None"
| "run_on (Sys c k) inp =
     (case c of
        Read fd n \<Rightarrow>
          (case inp of
             [] \<Rightarrow> run_on (k (answer 0 [])) []
           | x # xs \<Rightarrow> run_on (k (answer (int (length (take n x))) (take n x))) (if length x \<le> n then xs else drop n x # xs))
      | Write fd s \<Rightarrow> map_option (\<lambda>out. (fd, s) # out) (run_on (k (answer (int (length s)) [])) inp)
      | _ \<Rightarrow> None)"

definition piece_ok :: "string \<Rightarrow> bool" where
  "piece_ok x \<longleftrightarrow> x \<noteq> [] \<and> length x \<le> 512"

lemma run_on_puts: "run_on (foldr (putc fd) s k) inp = map_option (\<lambda>out. map (\<lambda>c. (fd, [c])) s @ out) (run_on k inp)"
  by (induction s) (simp_all add: putc_def option.map_comp comp_def option.map_ident)

lemma run_on_printf: "format fmt args = Some s \<Longrightarrow> run_on (printf fd fmt args k) inp = map_option (\<lambda>out. map (\<lambda>c. (fd, [c])) s @ out) (run_on k inp)"
  by (simp add: printf_def run_on_puts)

lemma cat_copies: "list_all piece_ok inp \<Longrightarrow> length inp < k \<Longrightarrow> run_on (cat k 0 Exit) inp = Some (map (\<lambda>x. (1, x)) inp)"
proof (induction inp arbitrary: k)
  case Nil
  then show ?case by (cases k) (simp_all add: answer_def)
next
  case (Cons x inp)
  then show ?case by (cases k) (auto simp: answer_def piece_ok_def)
qed

subsection \<open>Counting\<close>

definition space :: "char \<Rightarrow> bool" where
  "space c \<longleftrightarrow> c \<in> {CHR '' '', CHR 0x0D, CHR 0x09, CHR 0x0A, CHR 0x0B}"

text \<open>The words of a text: the positions where one starts.\<close>

definition word_starts :: "string \<Rightarrow> nat list" where
  "word_starts s = [i \<leftarrow> [0..<length s]. \<not> space (s ! i) \<and> (i = 0 \<or> space (s ! (i - 1)))]"

lemma word_starts_snoc:
  "word_starts (s @ [c]) = word_starts s @ (if \<not> space c \<and> (s = [] \<or> space (last s)) then [length s] else [])"
proof -
  have "filter (\<lambda>i. \<not> space ((s @ [c]) ! i) \<and> (i = 0 \<or> space ((s @ [c]) ! (i - 1)))) [0..<length s] = word_starts s"
    unfolding word_starts_def by (intro filter_cong) (auto simp: nth_append)
  moreover have "s \<noteq> [] \<Longrightarrow> (s @ [c]) ! (length s - 1) = last s" by (simp add: nth_append last_conv_nth)
  ultimately show ?thesis by (auto simp: word_starts_def nth_append)
qed

lemma wc_char_space: "(ustrchr [CHR '' '', CHR 0x0D, CHR 0x09, CHR 0x0A, CHR 0x0B] c \<noteq> None) = space c"
  by (auto simp: space_def)

lemma wc_char_eq:
  "wc_char c s = s\<lparr>wch := wch s + 1, wl := wl s + of_bool (c = CHR 0x0A), ww := ww s + of_bool (\<not> space c \<and> \<not> inword s), inword := \<not> space c\<rparr>"
  unfolding wc_char_def wc_char_space Let_def by (rule counts.equality) (simp_all add: space_def)

lemma wc_fold:
  "fold wc_char s \<lparr>wl = 0, ww = 0, wch = 0, inword = False\<rparr> =
   \<lparr>wl = int (count_list s (CHR 0x0A)), ww = int (length (word_starts s)), wch = int (length s), inword = s \<noteq> [] \<and> \<not> space (last s)\<rparr>"
proof (induction s rule: rev_induct)
  case Nil
  then show ?case by (simp add: word_starts_def)
next
  case (snoc c s)
  have "fold wc_char (s @ [c]) \<lparr>wl = 0, ww = 0, wch = 0, inword = False\<rparr> =
      wc_char c \<lparr>wl = int (count_list s (CHR 0x0A)), ww = int (length (word_starts s)), wch = int (length s), inword = s \<noteq> [] \<and> \<not> space (last s)\<rparr>"
    using snoc by simp
  also have "\<dots> = \<lparr>wl = int (count_list (s @ [c]) (CHR 0x0A)), ww = int (length (word_starts (s @ [c]))), wch = int (length (s @ [c])),
      inword = s @ [c] \<noteq> [] \<and> \<not> space (last (s @ [c]))\<rparr>"
    by (simp add: wc_char_eq word_starts_snoc)
  finally show ?case .
qed

lemma wc_loop_pieces:
  "list_all piece_ok inp \<Longrightarrow> length inp < k \<Longrightarrow>
   run_on (wc_loop k 0 name s Exit) inp = run_on (wc_loop 1 0 name (fold wc_char (concat inp) s) Exit) []"
proof (induction inp arbitrary: k s)
  case Nil
  then show ?case by (cases k) (simp_all add: answer_def)
next
  case (Cons x inp)
  then obtain j where k: "k = Suc j" by (cases k) auto
  have "run_on (wc_loop k 0 name s Exit) (x # inp) = run_on (wc_loop j 0 name (fold wc_char x s) Exit) inp"
    using Cons.prems unfolding k by (auto simp: answer_def piece_ok_def)
  then show ?case using Cons k by simp
qed

text \<open>
  C40: \<^verbatim>\<open>wc\<close> counts lines, words and characters: however its input is cut into reads, also in the middle of a word, it prints the number
  of newlines, the number of positions where a word starts and the number of characters, and exits.
\<close>

theorem wc_counts:
  assumes "list_all piece_ok inp" "length inp < k"
  shows "map_option (\<lambda>out. concat (map snd out)) (run_on (wc_main k [''wc'']) inp) =
    Some (uprintint (of_nat (count_list (concat inp) (CHR 0x0A))) 10 True @ '' '' @ uprintint (of_nat (length (word_starts (concat inp)))) 10 True
      @ '' '' @ uprintint (of_nat (length (concat inp))) 10 True @ '' '' @ [CHR 0x0A])"
proof -
  have c: "concat (map snd (map (\<lambda>c. (1 :: int, [c])) s)) = s" for s :: string by (induction s) simp_all
  show ?thesis
    using wc_loop_pieces [OF assms] c
    by (simp add: wc_main_def wc_def wc_fold answer_def run_on_printf comp_def)
qed

theorem wc_counts_witness:
  "map_option (\<lambda>out. concat (map snd out)) (run_on (wc_main 3 [''wc'']) [''a b'', ''c'' @ [CHR 0x0A]]) = Some (''1 2 5 '' @ [CHR 0x0A])"
proof -
  have "uprintint 1 10 True = ''1''" "uprintint 2 10 True = ''2''" "uprintint 5 10 True = ''5''" by (simp_all add: uprintint_def udigits.simps)
  then show ?thesis using wc_counts [of "[''a b'', ''c'' @ [CHR 0x0A]]" 3]
    by (simp add: piece_ok_def word_starts_def space_def upt_rec)
qed

end
