(* ===== verification/Ide.thy ===== *)
theory Ide imports Bcache begin

text \<open>
  The disk driver (\<^verbatim>\<open>ide.c\<close>): the queue of requests, the registers of the drive, the interrupt handler and the wait of the callers.  It
  is the driver of the default kernel; the buffer cache of \<^verbatim>\<open>Bio\<close> is modelled over the memory disk of \<^verbatim>\<open>memide.c\<close>, which has the same
  interface.
\<close>

section \<open>State\<close>

text \<open>What the driver sends to the drive: a byte to a port, or the words of a block.\<close>

datatype ide_out = Outb u32 u32 | Outsl block

text \<open>
  The globals of \<^verbatim>\<open>ide.c\<close>, and the hardware: the bytes that successive reads of the status port 0x1f7 return, the blocks that successive
  transfers from the data port deliver, the output sent so far (oldest first), and the registers of the I/O interrupt controller.
\<close>

record ide_st = bio_st +
  ide_lock :: spinlock
  idequeue :: "nat option"
  havedisk1 :: bool
  ide_status :: "nat \<Rightarrow> u32"
  ide_in :: "nat \<Rightarrow> block"
  ide_io :: "ide_out list"
  ioapic_reg :: "u32 \<Rightarrow> u32"

abbreviation (input) IDE_BSY :: u32 where "IDE_BSY \<equiv> 0x80"
abbreviation (input) IDE_DRDY :: u32 where "IDE_DRDY \<equiv> 0x40"
abbreviation (input) IDE_DF :: u32 where "IDE_DF \<equiv> 0x20"
abbreviation (input) IDE_ERR :: u32 where "IDE_ERR \<equiv> 0x01"
abbreviation (input) SECTOR_SIZE :: u32 where "SECTOR_SIZE \<equiv> 512"
abbreviation (input) FSSIZE :: u32 where "FSSIZE \<equiv> 1000"

definition acquire_ide :: "'z ide_st_scheme \<Rightarrow> (unit, 'z ide_st_scheme) kres" where
  "acquire_ide s = acquire ide_lock ide_lock_update s"

definition release_ide :: "'z ide_st_scheme \<Rightarrow> (unit, 'z ide_st_scheme) kres" where
  "release_ide s = release ide_lock ide_lock_update s"

section \<open>Operations\<close>

definition outb :: "u32 \<Rightarrow> u32 \<Rightarrow> 'z ide_st_scheme \<Rightarrow> 'z ide_st_scheme" where
  "outb port v s = s\<lparr>ide_io := ide_io s @ [Outb port v]\<rparr>"

text \<open>The number of the read of the status port that shows the drive ready, from the \<open>n\<close>-th on; \<open>None\<close> if none does.\<close>

partial_function (option) idewait_loop :: "(nat \<Rightarrow> u32) \<Rightarrow> nat \<Rightarrow> nat option" where
  "idewait_loop st n = (if st n AND (IDE_BSY OR IDE_DRDY) \<noteq> IDE_DRDY then idewait_loop st (Suc n) else Some n)"

definition idewait :: "bool \<Rightarrow> 'z ide_st_scheme \<Rightarrow> (int, 'z ide_st_scheme) kres" where
  "idewait checkerr s =
     (case idewait_loop (ide_status s) 0 of
        None \<Rightarrow> Spin s
      | Some n \<Rightarrow>
          Ok (if checkerr \<and> ide_status s n AND (IDE_DF OR IDE_ERR) \<noteq> 0 then - 1 else 0)
             (s\<lparr>ide_status := (\<lambda>k. ide_status s (k + Suc n))\<rparr>))"

text \<open>\<^verbatim>\<open>ioapicenable\<close> of \<^verbatim>\<open>ioapic.c\<close>: route an interrupt to a CPU.\<close>

definition ioapicenable :: "u32 \<Rightarrow> u32 \<Rightarrow> 'z ide_st_scheme \<Rightarrow> 'z ide_st_scheme" where
  "ioapicenable irq cpunum s =
     s\<lparr>ioapic_reg := (ioapic_reg s)(0x10 + 2 * irq := 32 + irq, 0x10 + 2 * irq + 1 := push_bit 24 cpunum)\<rparr>"

fun ideinit_probe :: "nat \<Rightarrow> 'z ide_st_scheme \<Rightarrow> 'z ide_st_scheme" where
  "ideinit_probe 0 s = s"
| "ideinit_probe (Suc k) s =
     (let r = ide_status s 0; s = s\<lparr>ide_status := (\<lambda>k. ide_status s (Suc k))\<rparr>
      in if r \<noteq> 0 then s\<lparr>havedisk1 := True\<rparr> else ideinit_probe k s)"

definition ideinit :: "'z ide_st_scheme \<Rightarrow> (unit, 'z ide_st_scheme) kres" where
  "ideinit s =
     (let s = s\<lparr>ide_lock := initlock ''ide'' (ide_lock s)\<rparr>;
          s = ioapicenable 14 (of_nat (length (cpus s)) - 1) s
      in andthen (idewait False s) (\<lambda>_ s.
         let s = outb 0x1f6 (0xe0 OR push_bit 4 1) s;
             s = ideinit_probe 1000 s
         in Ok () (outb 0x1f6 (0xe0 OR push_bit 4 0) s)))"

text \<open>The bytes sent to start a transfer, after the drive is ready.\<close>

definition start_io :: "buf \<Rightarrow> ide_out list" where
  "start_io b =
     (let sector_per_block = BSIZE div SECTOR_SIZE;
          sector = blockno b * sector_per_block;
          read_cmd = (if sector_per_block = 1 then 0x20 else 0xc4);
          write_cmd = (if sector_per_block = 1 then 0x30 else 0xc5)
      in [Outb 0x3f6 0, Outb 0x1f2 sector_per_block, Outb 0x1f3 (sector AND 0xff), Outb 0x1f4 (drop_bit 8 sector AND 0xff),
          Outb 0x1f5 (drop_bit 16 sector AND 0xff), Outb 0x1f6 (0xe0 OR push_bit 4 (bdev b AND 1) OR (drop_bit 24 sector AND 0x0f))]
         @ (if bdirty b then [Outb 0x1f7 write_cmd, Outsl (bdata b)] else [Outb 0x1f7 read_cmd]))"

definition idestart :: "nat option \<Rightarrow> 'z ide_st_scheme \<Rightarrow> (unit, 'z ide_st_scheme) kres" where
  "idestart q s =
     (case q of
        None \<Rightarrow> Panic ''idestart'' s
      | Some b \<Rightarrow>
          if FSSIZE \<le> blockno (bufs s b) then Panic ''incorrect blockno'' s
          else if 7 < BSIZE div SECTOR_SIZE then Panic ''idestart'' s
          else andthen (idewait False s) (\<lambda>_ s. Ok () (s\<lparr>ide_io := ide_io s @ start_io (bufs s b)\<rparr>)))"

definition ideintr :: "'z ide_st_scheme \<Rightarrow> (unit, 'z ide_st_scheme) kres" where
  "ideintr s =
     andthen (acquire_ide s) (\<lambda>_ s.
     case idequeue s of
       None \<Rightarrow> release_ide s
     | Some b \<Rightarrow>
         let s = s\<lparr>idequeue := bqnext (bufs s b)\<rparr>
         in andthen (if bdirty (bufs s b) then Ok () s
                     else andthen (idewait True s) (\<lambda>r s.
                       if r < 0 then Ok () s
                       else Ok () (upd_buf b (\<lambda>x. x\<lparr>bdata := ide_in s 0\<rparr>) (s\<lparr>ide_in := (\<lambda>k. ide_in s (Suc k))\<rparr>)))) (\<lambda>_ s.
            let s = upd_buf b (\<lambda>x. x\<lparr>bvalid := True\<rparr>) s;
                s = upd_buf b (\<lambda>x. x\<lparr>bdirty := False\<rparr>) s
            in andthen (wakeup (Some (ChBuf b)) s) (\<lambda>_ s.
               andthen (if idequeue s \<noteq> None then idestart (idequeue s) s else Ok () s) (\<lambda>_ s.
               release_ide s))))"

text \<open>The end of the queue that starts at \<open>q\<close>; \<open>None\<close> if its links never end.\<close>

partial_function (option) queue_end :: "(nat \<Rightarrow> buf) \<Rightarrow> nat \<Rightarrow> nat option" where
  "queue_end B q = (case bqnext (B q) of None \<Rightarrow> Some q | Some r \<Rightarrow> queue_end B r)"

definition enqueue :: "nat \<Rightarrow> 'z ide_st_scheme \<Rightarrow> (unit, 'z ide_st_scheme) kres" where
  "enqueue b s =
     (let s = upd_buf b (\<lambda>x. x\<lparr>bqnext := None\<rparr>) s
      in case idequeue s of
           None \<Rightarrow> Ok () (s\<lparr>idequeue := Some b\<rparr>)
         | Some q \<Rightarrow>
             (case queue_end (bufs s) q of
                None \<Rightarrow> Spin s
              | Some e \<Rightarrow> Ok () (upd_buf e (\<lambda>x. x\<lparr>bqnext := Some b\<rparr>) s)))"

text \<open>The wait of \<^verbatim>\<open>iderw\<close> for its request, and how it goes on after a wakeup.\<close>

definition iderw_wait :: "nat \<Rightarrow> 'z ide_st_scheme \<Rightarrow> (unit, 'z ide_st_scheme) kres" where
  "iderw_wait b s =
     (if \<not> (bvalid (bufs s b) \<and> \<not> bdirty (bufs s b)) then sleep (Some (ChBuf b)) (Some (OtherLock ide_lock ide_lock_update)) s
      else release_ide s)"

definition iderw_wake :: "bool \<Rightarrow> nat \<Rightarrow> nat \<Rightarrow> 'z ide_st_scheme \<Rightarrow> (unit, 'z ide_st_scheme) kres" where
  "iderw_wake ie i b s = andthen (sleep_resume ie i (OtherLock ide_lock ide_lock_update) s) (\<lambda>_ s. iderw_wait b s)"

definition iderw_ide :: "nat \<Rightarrow> 'z ide_st_scheme \<Rightarrow> (unit, 'z ide_st_scheme) kres" where
  "iderw_ide b s =
     andthen (holdingsleep (buf_lock b) (buf_lock_update b) s) (\<lambda>h s.
     if \<not> h then Panic ''iderw: buf not locked'' s
     else if bvalid (bufs s b) \<and> \<not> bdirty (bufs s b) then Panic ''iderw: nothing to do'' s
     else if bdev (bufs s b) \<noteq> 0 \<and> \<not> havedisk1 s then Panic ''iderw: ide disk 1 not present'' s
     else andthen (acquire_ide s) (\<lambda>_ s.
          andthen (enqueue b s) (\<lambda>_ s.
          andthen (if idequeue s = Some b then idestart (Some b) s else Ok () s) (\<lambda>_ s.
          iderw_wait b s))))"

interpretation ik: other_lock ide_lock ide_lock_update
  by unfold_locales simp_all

section \<open>The queue\<close>

text \<open>The requests from \<open>q\<close> on are \<open>xs\<close>, in order.\<close>

fun queued :: "(nat \<Rightarrow> buf) \<Rightarrow> nat option \<Rightarrow> nat list \<Rightarrow> bool" where
  "queued B q [] \<longleftrightarrow> q = None"
| "queued B q (x # xs) \<longleftrightarrow> q = Some x \<and> queued B (bqnext (B x)) xs"

definition pending :: "'z ide_st_scheme \<Rightarrow> nat list \<Rightarrow> bool" where
  "pending s xs \<longleftrightarrow> queued (bufs s) (idequeue s) xs \<and> distinct xs"

lemma queued_cong: "(\<And>x. x \<in> set xs \<Longrightarrow> bqnext (B x) = bqnext (C x)) \<Longrightarrow> queued B q xs = queued C q xs"
  by (induction xs arbitrary: q) auto

lemma queue_end_queued: "queued B (Some x) (x # xs) \<Longrightarrow> queue_end B x = Some (last (x # xs))"
proof (induction xs arbitrary: x)
  case Nil
  then show ?case by (simp add: queue_end.simps)
next
  case (Cons y ys)
  then show ?case by (subst queue_end.simps) auto
qed

lemma queued_snoc:
  assumes "queued B q (xs @ [e])" "distinct (xs @ [e])" "b \<notin> set (xs @ [e])"
  shows "queued (B(b := (B b)\<lparr>bqnext := None\<rparr>, e := (B e)\<lparr>bqnext := Some b\<rparr>)) q (xs @ [e, b])"
  using assms
proof (induction xs arbitrary: q)
  case Nil
  then show ?case by auto
next
  case (Cons x xs)
  then show ?case by auto
qed

lemma enqueue_eq:
  assumes "pending s xs" "b \<notin> set xs"
  shows "\<exists>B. enqueue b s = Ok () (s\<lparr>bufs := B, idequeue := Some (hd (xs @ [b]))\<rparr>) \<and> queued B (Some (hd (xs @ [b]))) (xs @ [b])
    \<and> (\<forall>c. \<exists>q. B c = (bufs s c)\<lparr>bqnext := q\<rparr>)"
proof -
  let ?B = "(bufs s)(b := (bufs s b)\<lparr>bqnext := None\<rparr>)"
  have same: "\<exists>q. bufs s c = (bufs s c)\<lparr>bqnext := q\<rparr>" for c by (rule exI [of _ "bqnext (bufs s c)"]) simp
  show ?thesis
  proof (cases xs rule: rev_cases)
    case Nil
    then have "idequeue s = None" using assms(1) by (simp add: pending_def)
    then show ?thesis using Nil same by (intro exI [of _ ?B]) (auto simp: enqueue_def Let_def upd_buf_def)
  next
    case (snoc ys e)
    have "xs \<noteq> []" using snoc by simp
    then obtain x zs where x: "xs = x # zs" by (meson neq_Nil_conv)
    have q: "idequeue s = Some x" "queued (bufs s) (Some x) (x # zs)" "distinct xs" using assms(1) x by (auto simp: pending_def)
    have "queued ?B (Some x) (x # zs) = queued (bufs s) (Some x) (x # zs)" using assms(2) x by (intro queued_cong) auto
    then have e: "queue_end ?B x = Some e" using q(2) queue_end_queued [of ?B x zs] snoc x by (metis last_snoc)
    let ?C = "?B(e := (?B e)\<lparr>bqnext := Some b\<rparr>)"
    have be: "b \<noteq> e" using assms(2) snoc by auto
    have "queued (bufs s) (Some x) (ys @ [e])" "distinct (ys @ [e])" "b \<notin> set (ys @ [e])"
      using q(2,3) assms(2) by (simp_all flip: snoc) (simp_all add: x)
    then have "queued ?C (Some x) (ys @ [e, b])" using queued_snoc be by simp
    moreover have "enqueue b s = Ok () (s\<lparr>bufs := ?C, idequeue := Some x\<rparr>)" using q(1) e by (simp add: enqueue_def Let_def upd_buf_def)
    moreover have "\<forall>c. \<exists>q. ?C c = (bufs s c)\<lparr>bqnext := q\<rparr>" using be same by auto
    moreover have "hd (xs @ [b]) = x" "xs @ [b] = ys @ [e, b]" using x snoc by simp_all
    ultimately show ?thesis by (intro exI [of _ ?C]) simp
  qed
qed

text \<open>The drive gets ready again after any number of reads of its status.\<close>

definition drive_ready :: "'z ide_st_scheme \<Rightarrow> bool" where
  "drive_ready s \<longleftrightarrow> (\<forall>n. \<exists>k \<ge> n. ide_status s k AND (IDE_BSY OR IDE_DRDY) = IDE_DRDY)"

lemma idewait_loop_ready:
  assumes "st k AND (IDE_BSY OR IDE_DRDY) = IDE_DRDY" "n \<le> k"
  shows "\<exists>m. idewait_loop st n = Some m"
  using assms
proof (induction "k - n" arbitrary: n)
  case 0
  then show ?case by (subst idewait_loop.simps) auto
next
  case (Suc d)
  then show ?case by (subst idewait_loop.simps) (cases "n = k", auto)
qed

lemma idewait_ready:
  assumes "drive_ready s"
  shows "\<exists>r st. idewait e s = Ok r (s\<lparr>ide_status := st\<rparr>) \<and> drive_ready (s\<lparr>ide_status := st\<rparr>) \<and> (r = 0 \<or> r = -1)"
proof -
  obtain k where "ide_status s k AND (IDE_BSY OR IDE_DRDY) = IDE_DRDY" using assms by (auto simp: drive_ready_def)
  then obtain n where n: "idewait_loop (ide_status s) 0 = Some n" using idewait_loop_ready [of "ide_status s" k 0] by auto
  have "\<exists>j \<ge> m. ide_status s (j + Suc n) AND (IDE_BSY OR IDE_DRDY) = IDE_DRDY" for m
  proof -
    obtain j where "j \<ge> m + Suc n" "ide_status s j AND (IDE_BSY OR IDE_DRDY) = IDE_DRDY" using assms unfolding drive_ready_def by blast
    then show ?thesis by (intro exI [of _ "j - Suc n"]) auto
  qed
  then show ?thesis using n by (auto simp: idewait_def drive_ready_def)
qed

lemma idestart_eq:
  assumes "drive_ready s" "blockno (bufs s b) < FSSIZE"
  shows "\<exists>st. idestart (Some b) s = Ok () (s\<lparr>ide_status := st, ide_io := ide_io s @ start_io (bufs s b)\<rparr>)"
  using idewait_ready [OF assms(1), of False] assms(2) by (auto simp: idestart_def)

section \<open>Serving requests\<close>

text \<open>The outcome of a finished transfer on its buffer: the data of a read that did not fail arrives, and the flags say done.\<close>

definition deliver :: "block option \<Rightarrow> buf \<Rightarrow> buf" where
  "deliver d x = x\<lparr>bdata := (case d of None \<Rightarrow> bdata x | Some y \<Rightarrow> y)\<rparr>"

definition finished :: "block option \<Rightarrow> buf \<Rightarrow> buf" where
  "finished d x = (deliver d x)\<lparr>bvalid := True, bdirty := False\<rparr>"

text \<open>The drive reports an error at its next ready status.\<close>

definition drive_error :: "'z ide_st_scheme \<Rightarrow> bool" where
  "drive_error s \<longleftrightarrow> (case idewait_loop (ide_status s) 0 of None \<Rightarrow> False | Some n \<Rightarrow> ide_status s n AND (IDE_DF OR IDE_ERR) \<noteq> 0)"

definition transferred :: "nat \<Rightarrow> 'z ide_st_scheme \<Rightarrow> block option" where
  "transferred b s = (if bdirty (bufs s b) \<or> drive_error s then None else Some (ide_in s 0))"

lemma idewait_error:
  assumes "drive_ready s"
  shows "\<exists>st. idewait True s = Ok (if drive_error s then - 1 else 0) (s\<lparr>ide_status := st\<rparr>) \<and> drive_ready (s\<lparr>ide_status := st\<rparr>)"
proof -
  obtain r st where "idewait True s = Ok r (s\<lparr>ide_status := st\<rparr>)" "drive_ready (s\<lparr>ide_status := st\<rparr>)"
    using idewait_ready [OF assms, of True] by auto
  moreover have "r = (if drive_error s then - 1 else 0)" using calculation(1)
    by (auto simp: idewait_def drive_error_def split: option.splits)
  ultimately show ?thesis by auto
qed

text \<open>The first half of the handler: the request leaves the queue and its buffer is finished.\<close>

lemma ideintr_transfer:
  assumes "drive_ready s"
  shows "\<exists>st inp. (if bdirty (bufs s b) then Ok () s
      else andthen (idewait True s) (\<lambda>r s. if r < 0 then Ok () s
        else Ok () (upd_buf b (\<lambda>x. x\<lparr>bdata := ide_in s 0\<rparr>) (s\<lparr>ide_in := (\<lambda>k. ide_in s (Suc k))\<rparr>))))
    = Ok () (s\<lparr>ide_status := st, ide_in := inp,
        bufs := (bufs s)(b := deliver (transferred b s) (bufs s b))\<rparr>)
    \<and> drive_ready (s\<lparr>ide_status := st\<rparr>)"
proof (cases "bdirty (bufs s b)")
  case True
  then show ?thesis using assms by (intro exI [of _ "ide_status s"] exI [of _ "ide_in s"]) (simp add: transferred_def deliver_def)
next
  case False
  obtain st where st: "idewait True s = Ok (if drive_error s then - 1 else 0) (s\<lparr>ide_status := st\<rparr>)" "drive_ready (s\<lparr>ide_status := st\<rparr>)"
    using idewait_error [OF assms] by auto
  show ?thesis
    by (rule exI [of _ st], rule exI [of _ "if drive_error s then ide_in s else (\<lambda>k. ide_in s (Suc k))"])
      (use False st in \<open>simp add: transferred_def deliver_def upd_buf_def\<close>)
qed

lemma ide_fields_upd [simp]:
  "on_cpu (s\<lparr>ide_status := a\<rparr>) i = on_cpu s i" "on_cpu (s\<lparr>ide_in := b\<rparr>) i = on_cpu s i" "on_cpu (s\<lparr>ide_io := c\<rparr>) i = on_cpu s i"
  "on_cpu (s\<lparr>idequeue := d\<rparr>) i = on_cpu s i" "on_cpu (s\<lparr>bufs := B\<rparr>) i = on_cpu s i"
  by (simp_all add: on_cpu_def)

lemma ide_held_fields [simp]:
  "bufs (ik.held i s) = bufs s" "idequeue (ik.held i s) = idequeue s" "ide_status (ik.held i s) = ide_status s"
  "ide_in (ik.held i s) = ide_in s" "ide_io (ik.held i s) = ide_io s" "ptable (ik.held i s) = ptable s"
  "ptable_lock (ik.held i s) = ptable_lock s" "lapicid (ik.held i s) = lapicid s"
  by (simp_all add: ik.held_def pushed_def)

lemma transferred_held [simp]: "transferred b (ik.held i s) = transferred b s" "transferred b (s\<lparr>idequeue := q\<rparr>) = transferred b s"
  by (simp_all add: transferred_def drive_error_def cong: option.case_cong)

lemma drive_ready_upd [simp]: "drive_ready (ik.held i s) = drive_ready s" "drive_ready (s\<lparr>idequeue := q\<rparr>) = drive_ready s"
  by (simp_all add: drive_ready_def)

text \<open>
  C35: the disk interrupt serves the queue in order.  \<^verbatim>\<open>ideintr\<close> takes the first request off the queue and leaves the others as they
  are; its buffer becomes valid and clean, and holds the delivered block if it was a read that succeeded; the processes that sleep on
  the buffer become runnable; and the next request, if any, is sent to the drive.  A read that fails is reported to no one: the
  buffer becomes valid with the bytes it had before.
\<close>

theorem ideintr_serves:
  assumes "proc_ready i s" "\<not> locked (ide_lock s)" "lcpu (ide_lock s) = None" "drive_ready s"
    and "pending s (b # bs)" "bs \<noteq> [] \<longrightarrow> blockno (bufs s (hd bs)) < 1000"
  shows "\<exists>t. ideintr s = Ok () t \<and> pending t bs \<and> bufs t = (bufs s)(b := finished (transferred b s) (bufs s b))
    \<and> ptable t = map (wake (Some (ChBuf b))) (ptable s)
    \<and> ide_io t = ide_io s @ (if bs = [] then [] else start_io (bufs s (hd bs)))"
proof -
  let ?h = "ik.held i s"
  have on: "on_cpu s i" and len: "length (ptable s) = NPROC" using assms(1) by (simp_all add: proc_ready_def)
  have acq: "acquire_ide s = Ok () ?h" unfolding acquire_ide_def by (rule ik.acquire_free [OF on assms(2)])
  have q: "idequeue s = Some b" "queued (bufs s) (bqnext (bufs s b)) bs" "distinct (b # bs)" using assms(5) by (simp_all add: pending_def)
  let ?q = "bqnext (bufs s b)"
  let ?s1 = "?h\<lparr>idequeue := ?q\<rparr>"
  obtain st inp where tr: "(if bdirty (bufs ?s1 b) then Ok () ?s1
      else andthen (idewait True ?s1) (\<lambda>r s. if r < 0 then Ok () s
        else Ok () (upd_buf b (\<lambda>x. x\<lparr>bdata := ide_in s 0\<rparr>) (s\<lparr>ide_in := (\<lambda>k. ide_in s (Suc k))\<rparr>))))
    = Ok () (?s1\<lparr>ide_status := st, ide_in := inp,
        bufs := (bufs s)(b := deliver (transferred b s) (bufs s b))\<rparr>)"
    "drive_ready (?s1\<lparr>ide_status := st\<rparr>)"
    using ideintr_transfer [of ?s1 b] assms(4) by auto
  let ?B = "(bufs s)(b := finished (transferred b s) (bufs s b))"
  let ?s2 = "?s1\<lparr>ide_status := st, ide_in := inp, bufs := ?B\<rparr>"
  let ?s3 = "?s2\<lparr>ptable := map (wake (Some (ChBuf b))) (ptable s)\<rparr>"
  have n: "0 < ncli (cpus ?h ! i)" by (rule ik.ncli_held [OF on])
  have r2: "proc_ready i ?s2" using assms(1) on len by (simp add: proc_ready_def)
  have wk: "wakeup (Some (ChBuf b)) ?s2 = Ok () ?s3" using wakeup_eq [OF r2] n by (simp add: settled_id)
  have rd: "drive_ready ?s3" using tr(2) by (simp add: drive_ready_def)
  have nxt: "\<exists>st' io. (if idequeue ?s3 \<noteq> None then idestart (idequeue ?s3) ?s3 else Ok () ?s3) = Ok () (?s3\<lparr>ide_status := st', ide_io := io\<rparr>)
    \<and> io = ide_io s @ (if bs = [] then [] else start_io (bufs s (hd bs)))"
  proof (cases bs)
    case Nil
    then show ?thesis using q(2) by (intro exI [of _ st] exI [of _ "ide_io s"]) simp
  next
    case (Cons c cs)
    then have c: "?q = Some c" "c \<noteq> b" using q by auto
    have "blockno (bufs ?s3 c) < FSSIZE" using assms(6) Cons c by simp
    then obtain st' where "idestart (Some c) ?s3 = Ok () (?s3\<lparr>ide_status := st', ide_io := ide_io ?s3 @ start_io (bufs ?s3 c)\<rparr>)"
      using idestart_eq [OF rd] by blast
    then show ?thesis using Cons c by auto
  qed
  then obtain st' where nxt: "(if idequeue ?s3 \<noteq> None then idestart (idequeue ?s3) ?s3 else Ok () ?s3)
      = Ok () (?s3\<lparr>ide_status := st', ide_io := ide_io s @ (if bs = [] then [] else start_io (bufs s (hd bs)))\<rparr>)" by blast
  let ?s4 = "?s3\<lparr>ide_status := st', ide_io := ide_io s @ (if bs = [] then [] else start_io (bufs s (hd bs)))\<rparr>"
  have rel: "release_ide ?s4 = Ok () (ik.leave i s ?s4)"
    unfolding release_ide_def by (rule ik.release_leave [OF on assms(2,3)]) simp_all
  have upd: "upd_buf b (bdirty_update (\<lambda>_. False)) (upd_buf b (bvalid_update (\<lambda>_. True)) (?s1\<lparr>ide_status := st, ide_in := inp,
        bufs := (bufs s)(b := deliver (transferred b s) (bufs s b))\<rparr>)) = ?s2"
    by (simp add: upd_buf_def finished_def)
  have "ideintr s = Ok () (ik.leave i s ?s4)"
    using acq q(1) tr(1) upd wk nxt rel by (simp add: ideintr_def Let_def)
  moreover have "queued ?B ?q bs" using q(2,3) by (subst queued_cong [of bs ?B "bufs s"]) auto
  ultimately show ?thesis using q(3) by (intro exI [of _ "ik.leave i s ?s4"]) (simp add: ik.leave_def pending_def)
qed

text \<open>One CPU, process 0 holding the locked buffer 3, and a drive that is always ready and delivers blocks of the byte 7.\<close>

definition ide_demo :: "bool \<Rightarrow> nat option \<Rightarrow> ide_st" where
  "ide_demo d q = \<lparr>mem = (\<lambda>_. 0), lapicid = 0, iflag = (\<lambda>_. True), cr3 = 0,
     cpus = [\<lparr>apicid = 0, ncli = 0, intena = False, cpu_proc = Some 0, ts_esp0 = 0\<rparr>],
     kmem_lock = zero_lock, use_lock = True, freelist = 0, kend = 0x80115000, kpgdir = 0x80400000, kdata = 0x80108000,
     ptable_lock = zero_lock, ptable = demo_proc RUNNING 0 # replicate 63 (demo_proc UNUSED 0), initproc = Some 0, nextpid = 4,
     forkret_addr = 0, trapret_addr = 0, tickslock = zero_lock, ticks = 0,
     bcache_lock = zero_lock, bufs = (\<lambda>_. zero_buf)(3 := zero_buf\<lparr>bdirty := d, blk := zero_sleep\<lparr>slocked := True, slpid := 1\<rparr>\<rparr>),
     disk = (\<lambda>_ _. 0), dwrites = [], disksize = 0,
     ide_lock = zero_lock, idequeue = q, havedisk1 = True, ide_status = (\<lambda>_. 0x40), ide_in = (\<lambda>_ _. 7), ide_io = [], ioapic_reg = (\<lambda>_. 0)\<rparr>"

lemma ide_demo_calling: "calling 0 0 (ide_demo d q)" "drive_ready (ide_demo d q)"
  by (simp_all add: calling_def proc_ready_def on_cpu_def ide_demo_def zero_lock_def drive_ready_def) auto

theorem ideintr_serves_witness:
  "\<exists>t. ideintr (ide_demo False (Some 3)) = Ok () t \<and> pending t [] \<and> bdata (bufs t 3) = (\<lambda>_. 7)"
proof -
  have r: "proc_ready 0 (ide_demo False (Some 3))" using ide_demo_calling(1) by (simp add: calling_def)
  have p: "pending (ide_demo False (Some 3)) [3]" by (simp add: pending_def ide_demo_def zero_buf_def)
  have l: "\<not> locked (ide_lock (ide_demo False (Some 3)))" "lcpu (ide_lock (ide_demo False (Some 3))) = None"
    by (simp_all add: ide_demo_def zero_lock_def)
  have "idewait_loop (\<lambda>_. 0x40) 0 = Some 0" by (subst idewait_loop.simps) simp
  then have "transferred 3 (ide_demo False (Some 3)) = Some (\<lambda>_. 7)"
    by (simp add: transferred_def drive_error_def ide_demo_def zero_buf_def)
  then show ?thesis using ideintr_serves [OF r l ide_demo_calling(2) p] by (auto simp: finished_def deliver_def)
qed

section \<open>Making requests\<close>

definition ide_view :: "'z ide_st_scheme \<Rightarrow> (nat \<Rightarrow> buf) \<times> nat option \<times> ide_out list" where
  "ide_view s = (bufs s, idequeue s, ide_io s)"

lemma ide_view_quiet: "table_quiet ide_view" "ide_view (ide_lock_update f s) = ide_view s"
  by (simp_all add: table_quiet_def quiet_def ide_view_def)

lemma ide_view_sleep:
  "ide_view (kstate (sleep ch (Some (OtherLock ide_lock ide_lock_update)) s :: ('r, _) kres)) = ide_view s"
  by (rule frame_sleep) (simp_all add: ide_view_quiet)

text \<open>
  A request joins the end of the queue and its process waits for it.  Called on a locked buffer that needs a transfer and is not
  queued yet, \<^verbatim>\<open>iderw\<close> appends it behind the pending requests, starts the drive exactly when the queue was empty, and puts the
  caller to sleep on the buffer, with the lock of the driver released and the table lock held for the switch; apart from the queue links no
  buffer changes.
\<close>

theorem iderw_enqueues:
  assumes "calling i p s" "ncli (cpus s ! i) = 0" "\<not> locked (ide_lock s)" "drive_ready s" "bl.ready b i p s"
    and "slocked (blk (bufs s b))" "slpid (blk (bufs s b)) = pid (ptable s ! p)"
    and "\<not> (bvalid (bufs s b) \<and> \<not> bdirty (bufs s b))" "bdev (bufs s b) = 0 \<or> havedisk1 s"
    and "pending s xs" "b \<notin> set xs" "blockno (bufs s b) < 1000"
  shows "\<exists>t. iderw_ide b s = Swtch t \<and> pending t (xs @ [b]) \<and> (\<forall>c. \<exists>q. bufs t c = (bufs s c)\<lparr>bqnext := q\<rparr>)
    \<and> ide_io t = ide_io s @ (if xs = [] then start_io (bufs s b) else [])
    \<and> ptable t = (ptable s)[p := (ptable s ! p)\<lparr>chan := Some (ChBuf b), state := SLEEPING\<rparr>]
    \<and> \<not> locked (ide_lock t) \<and> locked (ptable_lock t)"
proof -
  let ?s = "settled i s"
  have on: "on_cpu s i" "on_cpu ?s i" and r: "proc_ready i ?s" and p: "cpu_proc (cpus s ! i) = Some p" "p < NPROC"
    using assms(1) by (simp_all add: calling_def proc_ready_def)
  have hs: "holdingsleep (buf_lock b) (buf_lock_update b) s = Ok True ?s"
    using bl.holdingsleep_eq [OF assms(5)] assms(6,7) by (simp add: buf_lock_def)
  have sf: "ide_lock ?s = ide_lock s" "idequeue ?s = idequeue s" "ide_io ?s = ide_io s" "havedisk1 ?s = havedisk1 s" "ide_status ?s = ide_status s"
    by (simp_all add: settled_def)
  let ?h = "ik.held i ?s"
  have acq: "acquire_ide ?s = Ok () ?h" unfolding acquire_ide_def by (rule ik.acquire_free [OF on(2)]) (simp add: sf assms(3))
  have "pending ?h xs" using assms(10) by (simp add: pending_def sf)
  then obtain B where B: "enqueue b ?h = Ok () (?h\<lparr>bufs := B, idequeue := Some (hd (xs @ [b]))\<rparr>)"
    "queued B (Some (hd (xs @ [b]))) (xs @ [b])" "\<forall>c. \<exists>q. B c = (bufs s c)\<lparr>bqnext := q\<rparr>"
    using enqueue_eq [OF _ assms(11), of ?h] by auto
  let ?s1 = "?h\<lparr>bufs := B, idequeue := Some (hd (xs @ [b]))\<rparr>"
  have Bb: "bvalid (B b) = bvalid (bufs s b)" "bdirty (B b) = bdirty (bufs s b)" "blockno (B b) = blockno (bufs s b)"
    "start_io (B b) = start_io (bufs s b)"
    using B(3) [rule_format, of b] by (auto simp: start_io_def)
  have "drive_ready ?s1" using assms(4) by (simp add: drive_ready_def sf)
  then obtain st1 where st1: "idestart (Some b) ?s1 = Ok () (?s1\<lparr>ide_status := st1, ide_io := ide_io s @ start_io (bufs s b)\<rparr>)"
    using idestart_eq [of ?s1 b] assms(12) Bb sf by auto
  let ?io = "ide_io s @ (if xs = [] then start_io (bufs s b) else [])"
  have hd: "hd (xs @ [b]) = b \<longleftrightarrow> xs = []" using assms(11) by (cases xs) auto
  have id: "?s1\<lparr>ide_status := ide_status s, ide_io := ide_io s\<rparr> = ?s1" by (rule ide_st.equality) (simp_all add: sf)
  have "\<exists>st. (if idequeue ?s1 = Some b then idestart (Some b) ?s1 else Ok () ?s1) = Ok () (?s1\<lparr>ide_status := st, ide_io := ?io\<rparr>)"
  proof (cases "xs = []")
    case True
    then show ?thesis using st1 by auto
  next
    case False
    then show ?thesis using hd id by (intro exI [of _ "ide_status s"]) simp
  qed
  then obtain st where st: "(if idequeue ?s1 = Some b then idestart (Some b) ?s1 else Ok () ?s1) = Ok () (?s1\<lparr>ide_status := st, ide_io := ?io\<rparr>)" by blast
  let ?s2 = "?s1\<lparr>ide_status := st, ide_io := ?io\<rparr>"
  have r2: "proc_ready i ?s2" using r on by (simp add: proc_ready_def)
  have i: "i < length (cpus s)" by (rule on_cpuD(1) [OF on(1)])
  have cp: "cpus ?s2 ! i = (cpus s ! i)\<lparr>intena := iflag s (lapicid s), ncli := 1\<rparr>"
    using i assms(2) by (simp add: ik.held_def pushed_def settled_def)
  obtain t where t: "(sleep (Some (ChBuf b)) (Some (OtherLock ide_lock ide_lock_update)) ?s2 :: (unit, _) kres) = Swtch t"
    "ptable t = (ptable ?s2)[p := (ptable ?s2 ! p)\<lparr>chan := Some (ChBuf b), state := SLEEPING\<rparr>]" "locked (ptable_lock t)" "\<not> locked (ide_lock t)"
    by (rule ik.sleep_eq [OF r2, of p "Some (ChBuf b)"]) (use cp p in simp_all)
  have "ide_view t = ide_view ?s2"
    using ide_view_sleep [of "Some (ChBuf b)" ?s2, where 'r = unit] by (simp only: t(1) kstate.simps)
  then have v: "bufs t = B" "idequeue t = Some (hd (xs @ [b]))" "ide_io t = ?io" by (simp_all add: ide_view_def)
  have "iderw_wait b ?s2 = Swtch t" using t(1) assms(8) Bb by (auto simp: iderw_wait_def)
  then have "iderw_ide b s = Swtch t"
    using hs assms(8,9) acq B(1) st by (auto simp: iderw_ide_def sf)
  moreover have "pending t (xs @ [b])" using B(2) assms(10,11) by (simp add: pending_def v)
  ultimately show ?thesis using B(3) v t(2-4) by (intro exI [of _ t]) simp
qed

theorem iderw_enqueues_witness:
  "\<exists>t. iderw_ide 3 (ide_demo True None) = Swtch t \<and> pending t [3] \<and> ide_io t = start_io (bufs (ide_demo True None) 3)"
proof -
  let ?s = "ide_demo True None"
  have "bl.ready 3 0 0 ?s" using ide_demo_calling(1) by (simp add: bl.ready_def buf_lock_def) (simp add: ide_demo_def zero_lock_def zero_sleep_def)
  then show ?thesis using iderw_enqueues [OF ide_demo_calling(1) _ _ ide_demo_calling(2), of True None 3 "[]"]
    by (auto simp: ide_demo_def pending_def zero_buf_def zero_lock_def zero_sleep_def demo_proc_def)
qed

end
