(* ===== verification/Kbd.thy ===== *)
theory Kbd imports Console begin

text \<open>
  The keyboard driver (\<^verbatim>\<open>kbd.c\<close>, \<^verbatim>\<open>kbd.h\<close>): the scan code tables, the modifier state and the interrupt handler that feeds the console.  What
  is typed on a US keyboard, described by the rows of its keys, is shown to arrive as typed.
\<close>

section \<open>Key tables\<close>

abbreviation (input) SHIFT :: u32 where "SHIFT \<equiv> 1"
abbreviation (input) CTL :: u32 where "CTL \<equiv> 2"
abbreviation (input) ALT :: u32 where "ALT \<equiv> 4"
abbreviation (input) CAPSLOCK :: u32 where "CAPSLOCK \<equiv> 8"
abbreviation (input) NUMLOCK :: u32 where "NUMLOCK \<equiv> 16"
abbreviation (input) SCROLLLOCK :: u32 where "SCROLLLOCK \<equiv> 32"
abbreviation (input) E0ESC :: u32 where "E0ESC \<equiv> 64"

text \<open>Scan codes are numbers below 256; entries that the tables do not list are 0.\<close>

definition shiftcode :: "nat \<Rightarrow> u32" where
  "shiftcode d =
     (if d = 0x1D \<or> d = 0x9D then CTL else if d = 0x2A \<or> d = 0x36 then SHIFT else if d = 0x38 \<or> d = 0xB8 then ALT else 0)"

definition togglecode :: "nat \<Rightarrow> u32" where
  "togglecode d = (if d = 0x3A then CAPSLOCK else if d = 0x45 then NUMLOCK else if d = 0x46 then SCROLLLOCK else 0)"

text \<open>The special keys, alike in the three maps: HOME, UP, PGUP, LF, RT, END, DN, PGDN, INS, DEL.\<close>

definition special_key :: "nat \<Rightarrow> int" where
  "special_key d =
     (if d = 0x97 then 0xE0 else if d = 0xC8 then 0xE2 else if d = 0xC9 then 0xE6 else if d = 0xCB then 0xE4 else if d = 0xCD then 0xE5
      else if d = 0xCF then 0xE1 else if d = 0xD0 then 0xE3 else if d = 0xD1 then 0xE7 else if d = 0xD2 then 0xE8
      else if d = 0xD3 then 0xE9 else 0)"

definition normal_keys :: "int list" where
  "normal_keys =
  [0, 27, 49, 50, 51, 52, 53, 54, 55, 56, 57, 48, 45, 61, 8, 9,
   113, 119, 101, 114, 116, 121, 117, 105, 111, 112, 91, 93, 10, 0, 97, 115,
   100, 102, 103, 104, 106, 107, 108, 59, 39, 96, 0, 92, 122, 120, 99, 118,
   98, 110, 109, 44, 46, 47, 0, 42, 0, 32, 0, 0, 0, 0, 0, 0,
   0, 0, 0, 0, 0, 0, 0, 55, 56, 57, 45, 52, 53, 54, 43, 49,
   50, 51, 48, 46, 0, 0, 0, 0]"

definition shift_keys :: "int list" where
  "shift_keys =
  [0, 27, 33, 64, 35, 36, 37, 94, 38, 42, 40, 41, 95, 43, 8, 9,
   81, 87, 69, 82, 84, 89, 85, 73, 79, 80, 123, 125, 10, 0, 65, 83,
   68, 70, 71, 72, 74, 75, 76, 58, 34, 126, 0, 124, 90, 88, 67, 86,
   66, 78, 77, 60, 62, 63, 0, 42, 0, 32, 0, 0, 0, 0, 0, 0,
   0, 0, 0, 0, 0, 0, 0, 55, 56, 57, 45, 52, 53, 54, 43, 49,
   50, 51, 48, 46, 0, 0, 0, 0]"

definition ctl_keys :: "int list" where
  "ctl_keys =
  [0, 0, 0, 0, 0, 0, 0, 0, 0, 0, 0, 0, 0, 0, 0, 0,
   17, 23, 5, 18, 20, 25, 21, 9, 15, 16, 0, 0, 13, 0, 1, 19,
   4, 6, 7, 8, 10, 11, 12, 0, 0, 0, 0, 28, 26, 24, 3, 22,
   2, 14, 13, 0, 0, 239, 0, 0]"

text \<open>A map from its first entries and the entries for the keypad's enter and slash.\<close>

definition key_map :: "int list \<Rightarrow> int \<Rightarrow> int \<Rightarrow> nat \<Rightarrow> int" where
  "key_map ks enter slash d =
     (if d < length ks then ks ! d else if d = 0x9C then enter else if d = 0xB5 then slash else special_key d)"

definition normalmap :: "nat \<Rightarrow> int" where
  "normalmap d = key_map normal_keys 10 47 d"

definition shiftmap :: "nat \<Rightarrow> int" where
  "shiftmap d = key_map shift_keys 10 47 d"

definition ctlmap :: "nat \<Rightarrow> int" where
  "ctlmap d = key_map ctl_keys 13 239 d"

definition charcode :: "u32 \<Rightarrow> nat \<Rightarrow> int" where
  "charcode k = (if k = 0 then normalmap else if k = 1 then shiftmap else ctlmap)"

section \<open>Reading a key\<close>

text \<open>
  \<^verbatim>\<open>kbdgetc\<close> on the bytes \<open>q\<close> that wait in the controller, with the static variable \<^verbatim>\<open>shift\<close>: the result, and both afterwards.
\<close>

definition kbd_code :: "nat \<Rightarrow> u32 \<Rightarrow> int \<times> u32" where
  "kbd_code data shift =
     (if data = 0xE0 then (0, shift OR E0ESC)
      else if data AND 0x80 \<noteq> 0
      then let data = (if shift AND E0ESC \<noteq> 0 then data else data AND 0x7F)
           in (0, shift AND NOT (shiftcode data OR E0ESC))
      else let (data, shift) = (if shift AND E0ESC \<noteq> 0 then (data OR 0x80, shift AND NOT E0ESC) else (data, shift));
               shift = shift OR shiftcode data;
               shift = shift XOR togglecode data;
               c = charcode (shift AND (CTL OR SHIFT)) data;
               c = (if shift AND CAPSLOCK \<noteq> 0
                    then (if 97 \<le> c \<and> c \<le> 122 then c + (65 - 97) else if 65 \<le> c \<and> c \<le> 90 then c + (97 - 65) else c)
                    else c)
           in (c, shift))"

definition kbdgetc :: "nat list \<Rightarrow> u32 \<Rightarrow> int \<times> nat list \<times> u32" where
  "kbdgetc q shift = (case q of [] \<Rightarrow> (- 1, q, shift) | data # q \<Rightarrow> (case kbd_code data shift of (c, shift) \<Rightarrow> (c, q, shift)))"

text \<open>The results that \<^verbatim>\<open>consoleintr\<close> gets from \<^verbatim>\<open>kbdgetc\<close> before the first negative one.\<close>

fun kbd_chars :: "nat list \<Rightarrow> u32 \<Rightarrow> int list \<times> u32" where
  "kbd_chars [] shift = ([], shift)"
| "kbd_chars (data # q) shift =
     (case kbd_code data shift of (c, shift) \<Rightarrow> case kbd_chars q shift of (cs, shift) \<Rightarrow> (c # cs, shift))"

definition kbdintr :: "nat list \<Rightarrow> u32 \<Rightarrow> 'z cons_st_scheme \<Rightarrow> (u32, 'z cons_st_scheme) kres" where
  "kbdintr q shift s = (case kbd_chars q shift of (cs, shift) \<Rightarrow> andthen (consoleintr cs s) (\<lambda>_ s. Ok shift s))"

section \<open>Typing\<close>

text \<open>Every result is a character code: only an empty controller gives a negative one.\<close>

lemma keys_nonneg: "list_all (\<lambda>c. 0 \<le> c) (normal_keys @ shift_keys @ ctl_keys)"
  by (simp add: normal_keys_def shift_keys_def ctl_keys_def)

lemma key_map_nonneg: "list_all (\<lambda>c. 0 \<le> c) ks \<Longrightarrow> 0 \<le> a \<Longrightarrow> 0 \<le> b \<Longrightarrow> 0 \<le> key_map ks a b d"
  by (auto simp: key_map_def special_key_def list_all_length)

lemma kbd_code_nonneg: "0 \<le> fst (kbd_code d shift)"
proof -
  have "0 \<le> charcode k e" for k e
    using keys_nonneg by (auto simp: charcode_def normalmap_def shiftmap_def ctlmap_def intro!: key_map_nonneg)
  then show ?thesis by (auto simp: kbd_code_def Let_def split: prod.splits)
qed

lemma kbd_chars_getc:
  "kbd_chars q shift = (case kbdgetc q shift of (c, q', shift') \<Rightarrow>
     if c < 0 then ([], shift') else case kbd_chars q' shift' of (cs, shift'') \<Rightarrow> (c # cs, shift''))"
proof (cases q)
  case (Cons d q')
  then show ?thesis using kbd_code_nonneg [of d shift] by (auto simp: kbdgetc_def split: prod.splits)
qed (simp add: kbdgetc_def)

lemma kbd_chars_append:
  "kbd_chars (p @ q) shift = (case kbd_chars p shift of (cs, shift) \<Rightarrow> case kbd_chars q shift of (ds, shift) \<Rightarrow> (cs @ ds, shift))"
  by (induction p arbitrary: shift) (auto split: prod.splits)

text \<open>
  The keyboard that the driver serves, independently of its tables: the rows of a US keyboard, each with the scan code of its
  leftmost key and what is printed on its keys, without and with shift.  The next keys to the right have the next scan codes.
  A control character is typed by holding control and pressing its letter.
\<close>

definition key_rows :: "(nat \<times> string \<times> string) list" where
  "key_rows =
    [(0x02, ''1234567890-='', ''!@#$%^&*()_+''),
     (0x10, ''qwertyuiop[]'', ''QWERTYUIOP{}''),
     (0x1E, ''asdfghjkl;'' @ [CHR 0x27, CHR 0x60], ''ASDFGHJKL:'' @ [CHR 0x22, CHR 0x7E]),
     (0x2B, [CHR 0x5C], ''|''),
     (0x2C, ''zxcvbnm,./'', ''ZXCVBNM<>?''),
     (0x39, '' '', '' '')]"

text \<open>Escape, backspace, tab and enter.\<close>

definition named_keys :: "(int \<times> nat) list" where
  "named_keys = [(27, 0x01), (8, 0x0E), (9, 0x0F), (10, 0x1C)]"

text \<open>The scan codes of the left shift key and the left control key; 0 stands for none.\<close>

abbreviation (input) KEY_SHIFT :: nat where "KEY_SHIFT \<equiv> 0x2A"
abbreviation (input) KEY_CTRL :: nat where "KEY_CTRL \<equiv> 0x1D"

fun row_keys :: "nat \<Rightarrow> nat \<Rightarrow> string \<Rightarrow> (int \<times> nat \<times> nat) list" where
  "row_keys m k [] = []"
| "row_keys m k (c # cs) = (of_char c, m, k) # row_keys m (k + 1) cs"

text \<open>Every character with the key to hold and the key to press.\<close>

definition layout :: "(int \<times> nat \<times> nat) list" where
  "layout =
     map (\<lambda>(c, k). (c, 0, k)) named_keys
     @ concat (map (\<lambda>(k, us, ss). row_keys 0 k us) key_rows)
     @ concat (map (\<lambda>(k, us, ss). row_keys KEY_SHIFT k ss) key_rows)
     @ map (\<lambda>(c, m, k). (c - 64, KEY_CTRL, k))
         (filter (\<lambda>(c, m, k). 65 \<le> c \<and> c \<le> 90) (concat (map (\<lambda>(k, us, ss). row_keys KEY_SHIFT k ss) key_rows)))"

definition type_char :: "int \<Rightarrow> nat list" where
  "type_char c =
     (case map_of layout c of
        None \<Rightarrow> []
      | Some (m, k) \<Rightarrow> if m = 0 then [k, k + 0x80] else [m, k, k + 0x80, m + 0x80])"

lemma keys_length: "length normal_keys = 88" "length shift_keys = 88" "length ctl_keys = 56"
  by (simp_all add: normal_keys_def shift_keys_def ctl_keys_def)

lemma plain_code:
  assumes "k < (88 :: nat)"
  shows "k AND 0x80 = 0" "(k + 0x80) AND 0x80 \<noteq> 0" "(k + 0x80) AND 0x7F = k" "k \<noteq> 0xE0" "k + 0x80 \<noteq> 0xE0"
proof -
  have bit7: "d AND 0x80 = 0 \<longleftrightarrow> even (d div 128)" for d :: nat
    using and_exp_eq_0_iff_not_bit [of d 7] by (simp add: bit_iff_odd)
  show "k AND 0x80 = 0" "(k + 0x80) AND 0x80 \<noteq> 0" using assms by (simp_all add: bit7 div_add_self2)
  have "(k + 0x80) AND 0x7F = take_bit 7 (k + 0x80)" by (simp add: take_bit_eq_mask mask_eq_exp_minus_1)
  then show "(k + 0x80) AND 0x7F = k" using assms by (simp add: take_bit_eq_mod)
qed (use assms in simp_all)

text \<open>The tables of the driver agree with the keyboard, and none of its character keys is a modifier.\<close>

definition map_at :: "nat \<Rightarrow> nat \<Rightarrow> int" where
  "map_at m k = (if m = 0 then normalmap k else if m = KEY_SHIFT then shiftmap k else ctlmap k)"

lemma layout_maps:
  assumes "(c, m, k) \<in> set layout"
  shows "map_at m k = c" "k < 88" "c \<noteq> 0" "m \<in> {0, KEY_SHIFT, KEY_CTRL}" "shiftcode k = 0" "togglecode k = 0"
proof -
  have "list_all (\<lambda>(c, m, k). map_at m k = c \<and> k < 88 \<and> c \<noteq> 0 \<and> (m = 0 \<or> m = KEY_SHIFT \<or> m = KEY_CTRL)
      \<and> shiftcode k = 0 \<and> togglecode k = 0) layout" by code_simp
  then show "map_at m k = c" "k < 88" "c \<noteq> 0" "m \<in> {0, KEY_SHIFT, KEY_CTRL}" "shiftcode k = 0" "togglecode k = 0"
    using assms by (auto simp: list_all_iff)
qed

lemma type_char_chars:
  assumes "(c, m, k) \<in> set layout"
  shows "\<exists>cs. kbd_chars (if m = 0 then [k, k + 0x80] else [m, k, k + 0x80, m + 0x80]) 0 = (cs, 0) \<and> filter (\<lambda>c. c \<noteq> 0) cs = [c]"
proof -
  note l = layout_maps [OF assms]
  note pk = plain_code [OF l(2)]
  consider "m = 0" | "m = KEY_SHIFT" | "m = KEY_CTRL" using l(4) by auto
  then show ?thesis
  proof cases
    case 1
    have "kbd_code k 0 = (c, 0)" "kbd_code (k + 0x80) 0 = (0, 0)"
      using pk l 1 by (simp_all add: kbd_code_def charcode_def map_at_def)
    then show ?thesis using 1 l(3) by simp
  next
    case 2
    have "kbd_code 0x2A 0 = (0, 1)" "kbd_code 0xAA 1 = (0, 0)"
      by (simp_all add: kbd_code_def shiftcode_def togglecode_def charcode_def shiftmap_def key_map_def keys_length) (simp add: shift_keys_def)
    moreover have "kbd_code k 1 = (c, 1)" "kbd_code (k + 0x80) 1 = (0, 1)"
      using pk l 2 by (simp_all add: kbd_code_def charcode_def map_at_def)
    ultimately show ?thesis using 2 l(3) by simp
  next
    case 3
    have "kbd_code 0x1D 0 = (0, 2)" "kbd_code 0x9D 2 = (0, 0)"
      by (simp_all add: kbd_code_def shiftcode_def togglecode_def charcode_def ctlmap_def key_map_def keys_length) (simp add: ctl_keys_def)
    moreover have "kbd_code k 2 = (c, 2)" "kbd_code (k + 0x80) 2 = (0, 2)"
      using pk l 3 by (simp_all add: kbd_code_def charcode_def map_at_def)
    ultimately show ?thesis using 3 l(3) by simp
  qed
qed

lemma fold_removeAll: "set (fold removeAll xs ys) = set ys - set xs"
  by (induction xs arbitrary: ys) auto

lemma typable: "c \<in> {1..27} \<union> {32..126} \<Longrightarrow> \<exists>m k. map_of layout c = Some (m, k)"
proof -
  assume c: "c \<in> {1..27} \<union> {32..126}"
  have "fold removeAll (map fst layout) ([1..27] @ [32..126]) = []" by code_simp
  then have "set ([1..27] @ [32..126]) \<subseteq> fst ` set layout" using fold_removeAll [of "map fst layout" "[1..27] @ [32..126]"] by simp
  moreover have "c \<in> set ([1..27] @ [32..126])" using c unfolding set_append set_upto by simp
  ultimately have "map_of layout c \<noteq> None" unfolding map_of_eq_None_iff by blast
  then show ?thesis by auto
qed

text \<open>
  C39: the keyboard driver delivers what is typed.  For every text of printable characters and control characters (tab,
  newline, backspace, escape and control with a letter), the scan codes that a US keyboard sends when its keys are pressed
  and released, with shift or control held where needed, make \<^verbatim>\<open>kbdgetc\<close> hand the console exactly that text (and zeros, which
  the console ignores), and leave no modifier set.
\<close>

theorem kbd_types:
  assumes "\<forall>c \<in> set cs. c \<in> {1..27} \<union> {32..126}"
  shows "\<exists>ds. kbd_chars (concat (map type_char cs)) 0 = (ds, 0) \<and> filter (\<lambda>c. c \<noteq> 0) ds = cs"
  using assms
proof (induction cs)
  case (Cons c cs)
  obtain m k where mk: "map_of layout c = Some (m, k)" using typable [of c] Cons.prems by auto
  obtain ds where ds: "kbd_chars (type_char c) 0 = (ds, 0)" "filter (\<lambda>c. c \<noteq> 0) ds = [c]"
    using type_char_chars [OF map_of_SomeD [OF mk]] mk by (auto simp: type_char_def)
  then show ?case using Cons by (auto simp: kbd_chars_append)
qed simp

theorem kbd_types_witness:
  "type_char 113 = [0x10, 0x90]
   \<and> (\<exists>ds. kbd_chars (concat (map type_char [72, 113, 16, 33])) 0 = (ds, 0) \<and> filter (\<lambda>c. c \<noteq> 0) ds = [72, 113, 16, 33])"
proof
  show "type_char 113 = [0x10, 0x90]" by code_simp
  show "\<exists>ds. kbd_chars (concat (map type_char [72, 113, 16, 33])) 0 = (ds, 0) \<and> filter (\<lambda>c. c \<noteq> 0) ds = [72, 113, 16, 33]"
    by (rule kbd_types) simp
qed

end
