(* ===== verification/Mp.thy ===== *)
theory Mp imports Layout begin

text \<open>
  The search for the multiprocessor tables and the reading of the configuration table (\<^verbatim>\<open>mp.c\<close>).
\<close>

section \<open>Finding the tables\<close>

definition bytes_at :: "memory \<Rightarrow> u32 \<Rightarrow> nat \<Rightarrow> u8 list" where
  "bytes_at m a n = map (\<lambda>i. m (a + of_nat i)) [0..<n]"

definition mp_sum :: "memory \<Rightarrow> u32 \<Rightarrow> nat \<Rightarrow> u8" where
  "mp_sum m addr len = sum_list (bytes_at m addr len)"

text \<open>The steps of 16 bytes, the size of \<^verbatim>\<open>struct mp\<close>; the result 0 is the null pointer.\<close>

fun mpsearch1_loop :: "memory \<Rightarrow> u32 \<Rightarrow> nat \<Rightarrow> u32" where
  "mpsearch1_loop m p 0 = 0"
| "mpsearch1_loop m p (Suc k) =
     (if bytes_at m p 4 = [0x5F, 0x4D, 0x50, 0x5F] \<and> mp_sum m p 16 = 0 then p else mpsearch1_loop m (p + 16) k)"

definition mpsearch1 :: "memory \<Rightarrow> u32 \<Rightarrow> nat \<Rightarrow> u32" where
  "mpsearch1 m a len = mpsearch1_loop m (P2V a) ((len + 15) div 16)"

definition mpsearch :: "memory \<Rightarrow> u32" where
  "mpsearch m =
     (let bda = P2V 0x400;
          p = push_bit 4 (push_bit 8 (ucast (m (bda + 0x0F))) OR ucast (m (bda + 0x0E)))
      in if p \<noteq> 0
         then let mp = mpsearch1 m p 1024 in if mp \<noteq> 0 then mp else mpsearch1 m 0xF0000 0x10000
         else let p = (push_bit 8 (ucast (m (bda + 0x14))) OR ucast (m (bda + 0x13))) * 1024;
                  mp = mpsearch1 m (p - 1024) 1024
              in if mp \<noteq> 0 then mp else mpsearch1 m 0xF0000 0x10000)"

text \<open>The configuration table and the floating pointer structure: \<open>None\<close> for the null pointer.\<close>

definition mpconfig :: "memory \<Rightarrow> (u32 \<times> u32) option" where
  "mpconfig m =
     (let mp = mpsearch m
      in if mp = 0 \<or> load32 m (mp + 4) = 0 then None
         else let conf = P2V (load32 m (mp + 4))
              in if bytes_at m conf 4 \<noteq> [0x50, 0x43, 0x4D, 0x50] then None
                 else if m (conf + 6) \<noteq> 1 \<and> m (conf + 6) \<noteq> 4 then None
                 else if mp_sum m conf (unat (load16 m (conf + 4))) \<noteq> 0 then None
                 else Some (conf, mp))"

section \<open>Reading the entries\<close>

text \<open>What \<^verbatim>\<open>mpinit\<close> learns: the numbers of the processors in \<^verbatim>\<open>cpus\<close>, and of the I/O interrupt controller.\<close>

record mp_info =
  apicids :: "u8 list"
  ioapicid :: u8
  ismp :: bool

abbreviation (input) NCPU :: nat where "NCPU \<equiv> 8"

text \<open>
  The loop over the entries; \<open>None\<close> if it does not end.  The \<^verbatim>\<open>break\<close> of the default case leaves the \<^verbatim>\<open>switch\<close>, not the loop.
\<close>

partial_function (option) mp_entries :: "memory \<Rightarrow> u32 \<Rightarrow> u32 \<Rightarrow> mp_info \<Rightarrow> mp_info option" where
  "mp_entries m e p s =
     (if p < e
      then (if m p = 0
            then mp_entries m e (p + 20) (if length (apicids s) < NCPU then s\<lparr>apicids := apicids s @ [m (p + 1)]\<rparr> else s)
            else if m p = 2 then mp_entries m e (p + 8) (s\<lparr>ioapicid := m (p + 1)\<rparr>)
            else if m p = 1 \<or> m p = 3 \<or> m p = 4 then mp_entries m e (p + 8) s
            else mp_entries m e p (s\<lparr>ismp := False\<rparr>))
      else Some s)"

datatype mp_result = MpPanic string | MpDone mp_info u32 "(u32 \<times> u8) list"

text \<open>The result carries \<^verbatim>\<open>lapic\<close> and the bytes written to ports; \<open>imcr\<close> is what port 0x23 reads.\<close>

definition mpinit :: "u8 \<Rightarrow> memory \<Rightarrow> mp_result option" where
  "mpinit imcr m =
     (case mpconfig m of
        None \<Rightarrow> Some (MpPanic ''Expect to run on an SMP'')
      | Some (conf, mp) \<Rightarrow>
          Option.bind (mp_entries m (conf + ucast (load16 m (conf + 4))) (conf + 44) \<lparr>apicids = [], ioapicid = 0, ismp = True\<rparr>) (\<lambda>s.
          if \<not> ismp s then Some (MpPanic ''Didn't find a suitable machine'')
          else Some (MpDone s (load32 m (conf + 36)) (if m (mp + 12) \<noteq> 0 then [(0x22, 0x70), (0x23, imcr OR 1)] else []))))"

section \<open>The entries\<close>

text \<open>A table of known entries from \<open>p\<close> to its end \<open>e\<close>, as the processors and I/O controllers it lists.\<close>

datatype mp_entry = Processor u8 | IoApic u8 | Other

inductive table :: "memory \<Rightarrow> u32 \<Rightarrow> u32 \<Rightarrow> mp_entry list \<Rightarrow> bool" for m e where
  table_end: "\<not> p < e \<Longrightarrow> table m e p []"
| table_proc: "p < e \<Longrightarrow> m p = 0 \<Longrightarrow> table m e (p + 20) es \<Longrightarrow> table m e p (Processor (m (p + 1)) # es)"
| table_io: "p < e \<Longrightarrow> m p = 2 \<Longrightarrow> table m e (p + 8) es \<Longrightarrow> table m e p (IoApic (m (p + 1)) # es)"
| table_other: "p < e \<Longrightarrow> m p \<in> {1, 3, 4} \<Longrightarrow> table m e (p + 8) es \<Longrightarrow> table m e p (Other # es)"

definition processors :: "mp_entry list \<Rightarrow> u8 list" where
  "processors es = concat (map (\<lambda>x. case x of Processor a \<Rightarrow> [a] | _ \<Rightarrow> []) es)"

definition io_apics :: "mp_entry list \<Rightarrow> u8 list" where
  "io_apics es = concat (map (\<lambda>x. case x of IoApic a \<Rightarrow> [a] | _ \<Rightarrow> []) es)"

lemma entry_simps [simp]:
  "processors [] = []" "processors (Processor a # es) = a # processors es" "processors (IoApic a # es) = processors es"
  "processors (Other # es) = processors es"
  "io_apics [] = []" "io_apics (Processor a # es) = io_apics es" "io_apics (IoApic a # es) = a # io_apics es" "io_apics (Other # es) = io_apics es"
  by (simp_all add: processors_def io_apics_def)

lemma mp_entries_table:
  assumes "table m e p es" "length (apicids s) \<le> NCPU"
  shows "mp_entries m e p s = Some (s\<lparr>apicids := take NCPU (apicids s @ processors es), ioapicid := last (ioapicid s # io_apics es)\<rparr>)"
  using assms
proof (induction arbitrary: s rule: table.induct)
  case (table_end p)
  then show ?case by (subst mp_entries.simps) simp
next
  case (table_proc p es)
  show ?case
  proof (cases "length (apicids s) < NCPU")
    case True
    then show ?thesis using table_proc by (subst mp_entries.simps) (simp add: take_Cons')
  next
    case False
    then show ?thesis using table_proc by (subst mp_entries.simps) simp
  qed
next
  case (table_io p es)
  then show ?case by (subst mp_entries.simps) (simp add: last_ConsR)
next
  case (table_other p es)
  then show ?case by (subst mp_entries.simps) auto
qed

text \<open>
  On a configuration table of known entries \<^verbatim>\<open>mpinit\<close> ends and records the processors in the order of the table, the first eight
  of them if there are more, so that \<^verbatim>\<open>cpus\<close> is never overrun, and the last I/O interrupt controller listed.
\<close>

theorem mpinit_reads_table:
  assumes "mpconfig m = Some (conf, mp)" "table m (conf + ucast (load16 m (conf + 4))) (conf + 44) es"
  shows "\<exists>out. mpinit imcr m = Some (MpDone \<lparr>apicids = take 8 (processors es), ioapicid = last (0 # io_apics es), ismp = True\<rparr>
    (load32 m (conf + 36)) out)"
  using mp_entries_table [OF assms(2), of "\<lparr>apicids = [], ioapicid = 0, ismp = True\<rparr>"] assms(1) by (simp add: mpinit_def)

lemma mp_entries_known:
  assumes "mp_entries m e p s = Some t"
  shows "p < e \<longrightarrow> m p \<in> {0, 1, 2, 3, 4}"
  by (rule mp_entries.raw_induct [OF _ assms]) (fastforce split: if_splits)

text \<open>The loop comes to an entry of unknown type.\<close>

inductive unknown_entry :: "memory \<Rightarrow> u32 \<Rightarrow> u32 \<Rightarrow> bool" for m e where
  unknown_here: "p < e \<Longrightarrow> m p \<notin> {0, 1, 2, 3, 4} \<Longrightarrow> unknown_entry m e p"
| unknown_proc: "p < e \<Longrightarrow> m p = 0 \<Longrightarrow> unknown_entry m e (p + 20) \<Longrightarrow> unknown_entry m e p"
| unknown_later: "p < e \<Longrightarrow> m p \<in> {1, 2, 3, 4} \<Longrightarrow> unknown_entry m e (p + 8) \<Longrightarrow> unknown_entry m e p"

lemma mp_entries_unknown: "unknown_entry m e p \<Longrightarrow> mp_entries m e p s = None"
proof (induction arbitrary: s rule: unknown_entry.induct)
  case (unknown_here p)
  then show ?case using mp_entries_known [of m e p s] by (cases "mp_entries m e p s") auto
next
  case (unknown_proc p)
  then show ?case by (subst mp_entries.simps) simp
next
  case (unknown_later p)
  then show ?case by (subst mp_entries.simps) auto
qed

text \<open>
  An entry of a type that \<^verbatim>\<open>mpinit\<close> does not know makes the kernel hang: the \<^verbatim>\<open>break\<close> of the default case leaves the \<^verbatim>\<open>switch\<close> and not
  the loop, the position does not move, and the panic meant for this case is never reached.
\<close>

theorem mpinit_hangs_on_unknown:
  assumes "mpconfig m = Some (conf, mp)" "unknown_entry m (conf + ucast (load16 m (conf + 4))) (conf + 44)"
  shows "mpinit imcr m = None"
  using mp_entries_unknown [OF assms(2)] assms(1) by (simp add: mpinit_def)

section \<open>A machine\<close>

text \<open>
  A floating pointer structure at 0x9FC00, where the BIOS data area says the extended area is, a table with one entry of the type \<open>t\<close>
  at 0xA0000.
\<close>

definition mp_demo :: "u8 \<Rightarrow> memory" where
  "mp_demo t = (\<lambda>_. 0)(0x8000040E := 0xC0, 0x8000040F := 0x9F,
     0x8009FC00 := 0x5F, 0x8009FC01 := 0x4D, 0x8009FC02 := 0x50, 0x8009FC03 := 0x5F, 0x8009FC06 := 0x0A, 0x8009FC0A := 0x9B,
     0x800A0000 := 0x50, 0x800A0001 := 0x43, 0x800A0002 := 0x4D, 0x800A0003 := 0x50, 0x800A0004 := 64, 0x800A0006 := 4,
     0x800A0007 := 0x89 - t, 0x800A002C := t, 0x800A002D := 3)"

lemma mp_demo_config: "mpconfig (mp_demo t) = Some (0x800A0000, 0x8009FC00)" and mp_demo_length: "load16 (mp_demo t) 0x800A0004 = 64"
proof -
  have loop: "mpsearch1_loop (mp_demo t) 0x8009FC00 (Suc k) = 0x8009FC00" for k
    by (simp add: bytes_at_def mp_sum_def upt_rec mp_demo_def)
  then have s1: "mpsearch1 (mp_demo t) 0x9FC00 1024 = 0x8009FC00"
    using loop [of 63] by (simp add: mpsearch1_def P2V_def)
  have s: "mpsearch (mp_demo t) = 0x8009FC00"
    using s1 by (simp add: mpsearch_def P2V_def) (simp add: mp_demo_def)
  show l: "load16 (mp_demo t) 0x800A0004 = 64" by (simp add: load16_def mp_demo_def)
  have "load32 (mp_demo t) 0x8009FC04 = 0xA0000" by (simp add: load32_def mp_demo_def)
  moreover have "mp_sum (mp_demo t) 0x800A0000 64 = 0" by (simp add: mp_sum_def bytes_at_def upt_rec mp_demo_def)
  ultimately show "mpconfig (mp_demo t) = Some (0x800A0000, 0x8009FC00)"
    using s l by (simp add: mpconfig_def P2V_def Let_def) (simp add: bytes_at_def upt_rec mp_demo_def)
qed

theorem mpinit_reads_table_witness:
  "\<exists>out. mpinit 0 (mp_demo 0) = Some (MpDone \<lparr>apicids = [3], ioapicid = 0, ismp = True\<rparr> (load32 (mp_demo 0) 0x800A0024) out)"
proof -
  have "table (mp_demo 0) 0x800A0040 (0x800A002C + 20) []" by (rule table_end) simp
  then have "table (mp_demo 0) 0x800A0040 0x800A002C [Processor (mp_demo 0 (0x800A002C + 1))]"
    by (intro table_proc) (simp_all add: mp_demo_def)
  then show ?thesis using mpinit_reads_table [OF mp_demo_config, of 0 "[Processor (mp_demo 0 (0x800A002C + 1))]" 0]
    by (simp add: mp_demo_length) (simp add: mp_demo_def)
qed

theorem mpinit_hangs_on_unknown_witness: "mpinit 0 (mp_demo 9) = None"
proof (rule mpinit_hangs_on_unknown [OF mp_demo_config])
  show "unknown_entry (mp_demo 9) (0x800A0000 + ucast (load16 (mp_demo 9) (0x800A0000 + 4))) (0x800A0000 + 44)"
    by (rule unknown_here) (simp_all add: mp_demo_length, simp add: mp_demo_def)
qed

end
