(* ===== verification/Spec2Isabelle.thy ===== *)
theory Spec2Isabelle
  imports Fd Umalloc_Heap Ulib Mkfs_Image Vm_Map Sysfile Pipe_Fifo Console_Line Fs_File Kalloc_BST Grep Sh_Run Utils Ide Kbd Mp
begin

text \<open>
  A verification library for the xv6 teaching operating system (x86) as it is modified in \<^verbatim>\<open>src/xv6-public-modificado\<close>: a
  multi-level feedback queue in place of the round-robin scheduler and a best-fit search in the page allocator.  The original in
  \<^verbatim>\<open>src/xv6-public\<close> differs in \<^verbatim>\<open>kalloc.c\<close>, \<^verbatim>\<open>proc.c\<close>, \<^verbatim>\<open>proc.h\<close> and \<^verbatim>\<open>trap.c\<close> only; where the two differ both are modelled and
  compared.  \<^verbatim>\<open>src/Archivos de prueba/kalloc_bestfit.c\<close>, a third page allocator, is modelled as well.  File names below are those of
  \<^verbatim>\<open>src/xv6-public-modificado\<close> unless another directory is named.

  \<^bold>\<open>How the code is modelled.\<close>  The kernel is a function from states to outcomes (\<open>kres\<close> in \<^verbatim>\<open>Prelude.thy\<close>): \<open>Ok\<close> with a value and the
  new state, \<open>Panic\<close> with the message of \<^verbatim>\<open>panic\<close>, \<open>Swtch\<close> when the routine gives up the CPU in \<^verbatim>\<open>sched\<close>, and \<open>Spin\<close> when it waits for
  a lock that is taken or loops for ever; \<open>andthen\<close> is sequential composition.  The state is one record that grows from theory to
  theory (\<open>machine\<close>, \<open>kmem_st\<close>, \<open>vm_st\<close>, \<open>proc_st\<close>, \<open>bio_st\<close>, \<open>log_st\<close>, \<open>fs_st\<close>, \<open>cons_st\<close>, \<open>file_st\<close>, \<open>kern_st\<close>), one extension per group
  of global variables; operations are polymorphic in the extension, so a client theory uses them unchanged.  Memory is a function from
  32-bit addresses to bytes, integers are words of their width, and a pointer into a table is an index of it.  What follows a sleep
  is an operation of its own (\<open>begin_op_resume\<close>, \<open>pipewrite_resume\<close>, ...) that the scheduler would call.  User programs are trees of
  system calls (\<open>act\<close> in \<^verbatim>\<open>Usys.thy\<close>): a call and what the program does with the reply.

  \<^bold>\<open>The kernel.\<close>

  \<^item> \<^verbatim>\<open>Prelude.thy\<close>: outcomes, frames, table scans, loads and stores.  \<^verbatim>\<open>Str.thy\<close>: \<^verbatim>\<open>string.c\<close>; every routine, with what it copies.
    \<^verbatim>\<open>Layout.thy\<close>: the address arithmetic of \<^verbatim>\<open>memlayout.h\<close> and \<^verbatim>\<open>mmu.h\<close>.

  \<^item> \<^verbatim>\<open>Spinlock.thy\<close>: \<^verbatim>\<open>spinlock.c\<close>, and \<^verbatim>\<open>cpuid\<close>, \<^verbatim>\<open>mycpu\<close> of \<^verbatim>\<open>proc.c\<close>.  A lock is given by its getter and its update; the locale
    \<open>spin_lock\<close> holds the laws of such a pair, proves what a critical section does, and is interpreted for every lock of the kernel
    (\<open>kmem\<close>, process table, clock, buffer cache, log, inodes, files, pipes, console, disk).  In the sequential model a
    call of \<open>acquire\<close> is one step; the last section cuts both routines into their single accesses to the lock, of which only the
    \<^verbatim>\<open>xchg\<close> reads and writes at once, shows that the steps in a row are the routines, and proves mutual exclusion as an invariant of
    all interleavings of any number of CPUs.  (Accesses take effect in some order; reordering by the hardware is not modelled.)  \<^verbatim>\<open>Sleeplock.thy\<close>: \<^verbatim>\<open>sleeplock.c\<close>, with the locale \<open>sleep_lock\<close>, interpreted for buffers and inodes.

  \<^item> \<^verbatim>\<open>Kalloc.thy\<close>: \<^verbatim>\<open>kalloc.c\<close> of both trees.  The best-fit search returns a smallest block, and, since every block is one page, the
    modified and the original allocator cannot be told apart by a client (locale \<open>page_allocator\<close>, interpreted for both).
    \<^verbatim>\<open>Kalloc_BST.thy\<close>: the allocator over a search tree of \<^verbatim>\<open>kalloc_bestfit.c\<close>: what it promises, and that pages are lost once its
    pool of 128 nodes is used up.

  \<^item> \<^verbatim>\<open>Vm.thy\<close>: \<^verbatim>\<open>vm.c\<close> on page tables in byte memory, and address translation by the hardware.  \<^verbatim>\<open>Vm_Map.thy\<close>: page tables as maps;
    \<open>mappages\<close> is an update of the map.

  \<^item> \<^verbatim>\<open>Proc.thy\<close>: \<^verbatim>\<open>proc.c\<close>: the process table, \<open>sleep\<close>, \<open>wakeup\<close>, \<open>kill\<close>, \<open>wait\<close>, both schedulers, and the accounting of \<^verbatim>\<open>trap.c\<close>.  The
    scheduler takes as an argument what the process it switches to does until it comes back, and the theorems say what of that they
    need: in the modified kernel a low process that is only ever preempted keeps all low processes behind it from running, while a
    round of the original runs every process that stays runnable.  \<^verbatim>\<open>Timer.thy\<close>: the clock interrupt and
    \<^verbatim>\<open>sysproc.c\<close>; the tick that ends a \<open>sys_sleep\<close> is never missed.  \<^verbatim>\<open>Sysarg.thy\<close>: the argument checks of \<^verbatim>\<open>syscall.c\<close>.

  \<^item> \<^verbatim>\<open>Bio.thy\<close>, \<^verbatim>\<open>Log.thy\<close>, \<^verbatim>\<open>Inode.thy\<close>, \<^verbatim>\<open>Fs.thy\<close>: \<^verbatim>\<open>bio.c\<close> over the memory disk of \<^verbatim>\<open>memide.c\<close>, \<^verbatim>\<open>log.c\<close> and \<^verbatim>\<open>fs.c\<close>.  Their theorems
    are in \<^verbatim>\<open>Bcache.thy\<close> (the doubly linked LRU list and the coherence of the cache), \<^verbatim>\<open>Log_Crash.thy\<close> (a crash at any block write
    followed by recovery gives the old or the new state), \<^verbatim>\<open>Fs_Txn.thy\<close> (blocks inside a transaction), \<^verbatim>\<open>Fs_Blocks.thy\<close> (the bitmap and
    the block map of a file) and \<^verbatim>\<open>Fs_File.thy\<close> (the contents of files).  Each of them is stated over the abstraction of the one
    before: \<open>content\<close> (cache and disk as one map of blocks), \<open>slot\<close> (an inode as a map of blocks), \<open>fbytes\<close> (a file as a list of bytes).  The contents of files are read and written as
    lists of bytes (\<open>readi_data\<close>, \<open>writei_data\<close>, the calls from inside the kernel) or copied block by block to and from the memory
    of a process (\<open>readi\<close>, \<open>writei\<close>, the calls from the system calls).

  \<^item> \<^verbatim>\<open>File.thy\<close>, \<^verbatim>\<open>Procfs.thy\<close>, \<^verbatim>\<open>Sysfile.thy\<close>: \<^verbatim>\<open>pipe.c\<close>, \<^verbatim>\<open>file.c\<close>, the rest of \<^verbatim>\<open>proc.c\<close> (\<open>fork\<close>, \<open>exit\<close>, \<open>userinit\<close>), \<^verbatim>\<open>exec.c\<close>,
    \<^verbatim>\<open>sysfile.c\<close>, the dispatcher of \<^verbatim>\<open>syscall.c\<close> and \<^verbatim>\<open>trap.c\<close>.  \<^verbatim>\<open>Fd_Frame.thy\<close> and \<^verbatim>\<open>Fd.thy\<close>: file references are
    counted: every trap that returns keeps the count of an open file equal to the number of descriptors that refer to it, and a
    failed \<open>open\<close>, \<open>pipe\<close> or \<open>dup\<close> leaves nothing behind.  \<^verbatim>\<open>Ring.thy\<close> and \<^verbatim>\<open>Pipe_Fifo.thy\<close>: a pipe is a bounded queue, also
    when its 32-bit counters wrap.

  \<^item> \<^verbatim>\<open>Console.thy\<close> and \<^verbatim>\<open>Console_Line.thy\<close>: \<^verbatim>\<open>console.c\<close> and the abstract line editor that it implements on all keys,
    control-P with its process listing included.  \<^verbatim>\<open>Kbd.thy\<close>: \<^verbatim>\<open>kbd.c\<close>, against the layout of a US keyboard given by the rows of its keys.
    \<^verbatim>\<open>Ide.thy\<close>: \<^verbatim>\<open>ide.c\<close>, the request queue of the disk.  \<^verbatim>\<open>Mp.thy\<close>: \<^verbatim>\<open>mp.c\<close>.

  \<^bold>\<open>User programs.\<close>

  \<^item> \<^verbatim>\<open>Usys.thy\<close>: system calls as programs see them, \<^verbatim>\<open>printf.c\<close> and the parts of \<^verbatim>\<open>ulib.c\<close> that make system calls or compute values.
    \<^verbatim>\<open>Ulib.thy\<close>: the routines of \<^verbatim>\<open>ulib.c\<close> that write memory, with the overlaps that \<open>memmove\<close> of the library does not handle.
    \<^verbatim>\<open>Utils.thy\<close>: the small programs.  \<^verbatim>\<open>Grep.thy\<close>: the whole of \<^verbatim>\<open>grep.c\<close>, the matcher against its meaning and the program against the
    lines of its input.

  \<^item> \<^verbatim>\<open>Umalloc.thy\<close>: \<^verbatim>\<open>umalloc.c\<close>, the circular free list in byte memory.  \<^verbatim>\<open>Umalloc_Heap.thy\<close>: the list as a set of blocks ordered by
    address; a block that \<open>malloc\<close> returns is disjoint from every other one, and \<open>free\<close> gives back what was taken, merging neighbours.
    The kernel's answers to \<open>sbrk\<close> are an argument.  A request of two gigabytes or more is taken for a shrink of the break: the
    program is killed or gets memory that is not there.

  \<^item> \<^verbatim>\<open>Mkfs.thy\<close>: \<^verbatim>\<open>mkfs.c\<close>, the program of the host that writes the first disk image.  \<^verbatim>\<open>Mkfs_Image.thy\<close>: the image holds, for every file
    it was given, a directory entry, an inode and the contents, and marks the blocks in use; with
    a number of files that fills the blocks of the root directory exactly, that directory ends in a hole.

  \<^item> \<^verbatim>\<open>Sh.thy\<close>: \<^verbatim>\<open>sh.c\<close>.  \<^verbatim>\<open>Sh_Parse.thy\<close>: the parser accepts the written form of every command and builds well formed trees;
    \<^verbatim>\<open>Sh_Run.thy\<close>: the processes and streams that a command starts.

  \<^bold>\<open>Bounds and loops.\<close>  A loop that may not end is a \<^verbatim>\<open>partial_function\<close> in the option monad whose \<open>None\<close> means that it does not
  return, and the kernel routine around it ends in \<open>Spin\<close>; where the development claims a result it proves that the value is \<open>Some\<close>
  or \<open>Ok\<close>.  The parser of the shell is given fuel \<open>5 * n + 6\<close> for a line of \<open>n\<close> characters, and \<open>parsecmd_ends\<close> shows that it never
  runs out.  Programs that read until the end of their input (\<open>wc\<close>, \<open>cat\<close>, \<open>grep\<close>, \<open>sh\<close>, \<open>init\<close>) take a bound on the number of rounds;
  their theorems hold for every bound that exceeds the number of reads.  \<open>in_txn i p H n\<close> counts the blocks \<open>n\<close> that still fit into the
  log; \<open>writei\<close> needs at most six per block and one for the inode.

  \<^bold>\<open>Not modelled.\<close>  Assembly and boot code (\<^verbatim>\<open>*.S\<close>, \<^verbatim>\<open>bootmain.c\<close>, \<^verbatim>\<open>main.c\<close>) and the programming of hardware registers without state of
  their own (\<^verbatim>\<open>lapic.c\<close>, \<^verbatim>\<open>uart.c\<close>, \<^verbatim>\<open>picirq.c\<close>, \<^verbatim>\<open>ioapicinit\<close>, \<^verbatim>\<open>seginit\<close>): their meaning is the machine, which the model fixes
  instead.  The test programs (\<^verbatim>\<open>usertests.c\<close>, \<^verbatim>\<open>forktest.c\<close>, \<^verbatim>\<open>stressfs.c\<close>, \<^verbatim>\<open>memtest.c\<close>, \<^verbatim>\<open>schedtest.c\<close>): they exercise the system and
  have no contract.  \<^verbatim>\<open>cprintf\<close> and what it prints through are modelled, and a \<^verbatim>\<open>%s\<close> argument is spliced into the format with its
  percent signs doubled; but messages printed by other components are not part of
  their states.  The shell's calls of \<open>malloc\<close> are taken to succeed.
\<close>

end
